(* ===== verification/Prelude.thy ===== *)
theory Prelude
  imports Main "HOL-Library.Multiset" "HOL-Library.Monad_Syntax" "HOL-Library.Word"
begin

text \<open>
  Shared base of the development: checked access to C++ vectors (the value \<open>None\<close> stands for the
  undefined behaviour of an access outside the vector), element swaps, and the list facts that
  the component theories use.

  A function that reads or writes a vector returns an option. A theorem that such a function
  returns \<open>Some\<close> is therefore also a theorem that no access of that run leaves the vector.
\<close>

named_theorems vec_simps \<open>evaluation of checked vector accesses\<close>

subsection \<open>Checked vector access\<close>

definition vget :: "'a list \<Rightarrow> nat \<Rightarrow> 'a option" where
  "vget xs i = (if i < length xs then Some (xs ! i) else None)"

definition vset :: "'a list \<Rightarrow> nat \<Rightarrow> 'a \<Rightarrow> 'a list option" where
  "vset xs i v = (if i < length xs then Some (xs[i := v]) else None)"

definition swap_at :: "'a list \<Rightarrow> nat \<Rightarrow> nat \<Rightarrow> 'a list" where
  "swap_at xs i j = xs[i := xs ! j, j := xs ! i]"

definition vswap :: "'a list \<Rightarrow> nat \<Rightarrow> nat \<Rightarrow> 'a list option" where
  "vswap xs i j = (if i < length xs \<and> j < length xs then Some (swap_at xs i j) else None)"

lemma vget_in [simp, vec_simps]: "i < length xs \<Longrightarrow> vget xs i = Some (xs ! i)"
  by (simp add: vget_def)

lemma vget_out [simp]: "length xs \<le> i \<Longrightarrow> vget xs i = None"
  by (simp add: vget_def)

lemma vset_in [simp, vec_simps]: "i < length xs \<Longrightarrow> vset xs i v = Some (xs[i := v])"
  by (simp add: vset_def)

lemma vset_out [simp]: "length xs \<le> i \<Longrightarrow> vset xs i v = None"
  by (simp add: vset_def)

lemma vswap_in [simp, vec_simps]:
  "i < length xs \<Longrightarrow> j < length xs \<Longrightarrow> vswap xs i j = Some (swap_at xs i j)"
  by (simp add: vswap_def)

lemma vget_eq_Some [simp]: "vget xs i = Some v \<longleftrightarrow> i < length xs \<and> v = xs ! i"
  by (auto simp: vget_def)

lemma vset_eq_Some [simp]: "vset xs i v = Some ys \<longleftrightarrow> i < length xs \<and> ys = xs[i := v]"
  by (auto simp: vset_def)

lemma vswap_eq_Some [simp]:
  "vswap xs i j = Some ys \<longleftrightarrow> i < length xs \<and> j < length xs \<and> ys = swap_at xs i j"
  by (auto simp: vswap_def)

subsection \<open>Swaps\<close>

lemma length_swap_at [simp]: "length (swap_at xs i j) = length xs"
  by (simp add: swap_at_def)

lemma nth_swap_at:
  "i < length xs \<Longrightarrow> j < length xs \<Longrightarrow> k < length xs \<Longrightarrow>
     swap_at xs i j ! k = (if k = i then xs ! j else if k = j then xs ! i else xs ! k)"
  by (auto simp: swap_at_def nth_list_update)

lemma mset_swap_at [simp]:
  "i < length xs \<Longrightarrow> j < length xs \<Longrightarrow> mset (swap_at xs i j) = mset xs"
  by (simp add: swap_at_def mset_swap)

lemma set_swap_at [simp]:
  "i < length xs \<Longrightarrow> j < length xs \<Longrightarrow> set (swap_at xs i j) = set xs"
  by (metis mset_swap_at set_mset_mset)

lemma swap_at_self [simp]: "swap_at xs i i = xs"
  by (simp add: swap_at_def)

lemma take_swap_at [simp]:
  "n \<le> i \<Longrightarrow> n \<le> j \<Longrightarrow> take n (swap_at xs i j) = take n xs"
  by (simp add: swap_at_def)

lemma drop_swap_at [simp]:
  "i < n \<Longrightarrow> j < n \<Longrightarrow> drop n (swap_at xs i j) = drop n xs"
  by (simp add: swap_at_def)

lemma mset_take_swap_at:
  assumes "i < n" "j < n" "n \<le> length xs"
  shows "mset (take n (swap_at xs i j)) = mset (take n xs)"
proof -
  have "take n (swap_at xs i j) = swap_at (take n xs) i j"
    using assms by (simp add: swap_at_def take_update_swap)
  then show ?thesis
    using assms by simp
qed

subsection \<open>Signed indices\<close>

text \<open>Access with an \<open>int32_t\<close> index that the code may have made negative.\<close>

definition ivget :: "'a list \<Rightarrow> int \<Rightarrow> 'a option" where
  "ivget xs i = (if 0 \<le> i then vget xs (nat i) else None)"

definition ivswap :: "'a list \<Rightarrow> int \<Rightarrow> int \<Rightarrow> 'a list option" where
  "ivswap xs i j = (if 0 \<le> i \<and> 0 \<le> j then vswap xs (nat i) (nat j) else None)"

definition ivset :: "'a list \<Rightarrow> int \<Rightarrow> 'a \<Rightarrow> 'a list option" where
  "ivset xs i v = (if 0 \<le> i then vset xs (nat i) v else None)"

lemma ivset_in [simp, vec_simps]:
  "0 \<le> i \<Longrightarrow> nat i < length xs \<Longrightarrow> ivset xs i v = Some (xs[nat i := v])"
  by (simp add: ivset_def)

lemma ivset_eq_Some [simp]:
  "ivset xs i v = Some ys \<longleftrightarrow> 0 \<le> i \<and> nat i < length xs \<and> ys = xs[nat i := v]"
  by (auto simp: ivset_def)

lemma ivget_eq_Some [simp]:
  "ivget xs i = Some v \<longleftrightarrow> 0 \<le> i \<and> nat i < length xs \<and> v = xs ! nat i"
  by (auto simp: ivget_def)

lemma ivswap_eq_Some [simp]:
  "ivswap xs i j = Some ys \<longleftrightarrow>
     0 \<le> i \<and> 0 \<le> j \<and> nat i < length xs \<and> nat j < length xs \<and> ys = swap_at xs (nat i) (nat j)"
  by (auto simp: ivswap_def)

lemma ivget_in [simp, vec_simps]: "0 \<le> i \<Longrightarrow> nat i < length xs \<Longrightarrow> ivget xs i = Some (xs ! nat i)"
  by (simp add: ivget_def)

lemma ivget_neg [simp, vec_simps]: "i < 0 \<Longrightarrow> ivget xs i = None"
  by (simp add: ivget_def)

lemma ivswap_in [simp, vec_simps]:
  "0 \<le> i \<Longrightarrow> 0 \<le> j \<Longrightarrow> nat i < length xs \<Longrightarrow> nat j < length xs \<Longrightarrow>
     ivswap xs i j = Some (swap_at xs (nat i) (nat j))"
  by (simp add: ivswap_def)

subsection \<open>Integer division of C\<close>

text \<open>Quotient and remainder truncate towards zero.\<close>

definition cdiv :: "int \<Rightarrow> int \<Rightarrow> int" where
  "cdiv a b = sgn a * sgn b * (\<bar>a\<bar> div \<bar>b\<bar>)"

definition cmod :: "int \<Rightarrow> int \<Rightarrow> int" where
  "cmod a b = a - cdiv a b * b"

lemma cdiv_nonneg [simp]: "0 \<le> a \<Longrightarrow> 0 < b \<Longrightarrow> cdiv a b = a div b"
  by (cases "a = 0") (auto simp: cdiv_def)

lemma cmod_nonneg [simp]: "0 \<le> a \<Longrightarrow> 0 < b \<Longrightarrow> cmod a b = a mod b"
  by (simp add: cmod_def minus_div_mult_eq_mod)

text \<open>\<open>int64_t\<close> arithmetic: overflow is undefined.\<close>

definition i64_range :: "int \<Rightarrow> bool" where
  "i64_range x \<longleftrightarrow> - (2 ^ 63) \<le> x \<and> x < 2 ^ 63"

definition i64_mul :: "int \<Rightarrow> int \<Rightarrow> int option" where
  "i64_mul a b = (if i64_range (a * b) then Some (a * b) else None)"

subsection \<open>Sorting: the result is determined by the multiset\<close>

lemma sort_mset_cong: "mset xs = mset ys \<Longrightarrow> sort xs = sort ys"
  by (metis mset_sort properties_for_sort sorted_sort)

lemma sorted_eq_sort: "sorted ys \<Longrightarrow> mset ys = mset xs \<Longrightarrow> ys = sort xs"
  by (metis properties_for_sort)

lemma mset_take_drop_eq:
  "mset (take n ys) = mset (take n xs) \<Longrightarrow> drop n ys = drop n xs \<Longrightarrow> mset ys = mset xs"
  by (metis append_take_drop_id mset_append)

lemma sort_take_drop_cong:
  "mset (take n ys) = mset (take n xs) \<Longrightarrow> drop n ys = drop n xs \<Longrightarrow> sort ys = sort xs"
  by (rule sort_mset_cong) (rule mset_take_drop_eq)

lemma set_take_mset_eq:
  "mset (take n ys) = mset (take n xs) \<Longrightarrow> set (take n ys) = set (take n xs)"
  by (metis set_mset_mset)

lemma take_Suc_update: "i < length xs \<Longrightarrow> take (Suc i) (xs[i := x]) = take i xs @ [x]"
  by (simp add: take_Suc_conv_app_nth)

lemma set_drop_conv: "set (drop i xs) = {xs ! k | k. i \<le> k \<and> k < length xs}"
proof (intro set_eqI iffI)
  fix x assume "x \<in> set (drop i xs)"
  then obtain k where "k < length xs - i" "x = xs ! (i + k)" by (auto simp: in_set_conv_nth)
  then show "x \<in> {xs ! k | k. i \<le> k \<and> k < length xs}" by auto
next
  fix x assume "x \<in> {xs ! k | k. i \<le> k \<and> k < length xs}"
  then obtain k where "i \<le> k" "k < length xs" "x = drop i xs ! (k - i)" by auto
  then show "x \<in> set (drop i xs)" using nth_mem [of "k - i" "drop i xs"] by simp
qed

lemma sorted_iff_nth_mono_less:
  "sorted xs \<longleftrightarrow> (\<forall>i j. i < j \<longrightarrow> j < length xs \<longrightarrow> xs ! i \<le> xs ! j)"
  by (auto simp: sorted_wrt_iff_nth_less)

end
