(* ===== verification/PrioQueue.thy ===== *)
theory PrioQueue
  imports Prelude
begin

text \<open>
  The contract of a priority queue, as the heaps of \<open>cpp/datastructure/tree\<close> offer it, and what a
  client may conclude from it alone: filling an empty queue and draining it again sorts the input.
  The abstraction \<open>elems\<close> is the multiset of stored elements; \<open>top\<close> returns an element that no
  stored element precedes in the queue's order \<open>lt\<close>. Operations return \<open>None\<close> where the code
  would access memory outside its buffer.
\<close>

primrec pq_fill :: "('a \<Rightarrow> 'q \<Rightarrow> 'q option) \<Rightarrow> 'a list \<Rightarrow> 'q \<Rightarrow> 'q option" where
  "pq_fill push [] q = Some q"
| "pq_fill push (x # xs) q = do { q' \<leftarrow> push x q; pq_fill push xs q' }"

primrec pq_drain :: "('q \<Rightarrow> 'a option) \<Rightarrow> ('q \<Rightarrow> 'q option) \<Rightarrow> nat \<Rightarrow> 'q \<Rightarrow> 'a list option" where
  "pq_drain tp pop 0 q = Some []"
| "pq_drain tp pop (Suc n) q =
     do { x \<leftarrow> tp q; q' \<leftarrow> pop q; xs \<leftarrow> pq_drain tp pop n q'; Some (x # xs) }"

locale prio_queue =
  fixes lt :: "'a \<Rightarrow> 'a \<Rightarrow> bool"
    and new :: "'q"
    and push :: "'a \<Rightarrow> 'q \<Rightarrow> 'q option"
    and pop :: "'q \<Rightarrow> 'q option"
    and tp :: "'q \<Rightarrow> 'a option"
    and inv :: "'q \<Rightarrow> bool"
    and elems :: "'q \<Rightarrow> 'a multiset"
  assumes inv_new: "inv new"
    and elems_new: "elems new = {#}"
    and push_spec: "inv q \<Longrightarrow> \<exists>q'. push x q = Some q' \<and> inv q' \<and> elems q' = add_mset x (elems q)"
    and pop_spec: "inv q \<Longrightarrow> elems q \<noteq> {#} \<Longrightarrow>
      \<exists>q' x. pop q = Some q' \<and> tp q = Some x \<and> inv q' \<and>
        elems q = add_mset x (elems q') \<and> (\<forall>y \<in># elems q. \<not> lt x y)"
begin

lemma fill_spec:
  "inv q \<Longrightarrow> \<exists>q'. pq_fill push xs q = Some q' \<and> inv q' \<and> elems q' = mset xs + elems q"
proof (induction xs arbitrary: q)
  case Nil
  then show ?case by simp
next
  case (Cons x xs)
  from push_spec [OF Cons.prems, of x] obtain q1
    where q1: "push x q = Some q1" "inv q1" "elems q1 = add_mset x (elems q)" by auto
  from Cons.IH [OF q1(2)] q1 show ?case by auto
qed

lemma drain_spec:
  "inv q \<Longrightarrow> n = size (elems q) \<Longrightarrow>
     \<exists>ys. pq_drain tp pop n q = Some ys \<and> mset ys = elems q \<and> sorted_wrt (\<lambda>x y. \<not> lt x y) ys"
proof (induction n arbitrary: q)
  case 0
  then show ?case by simp
next
  case (Suc n)
  then have "elems q \<noteq> {#}" by auto
  with pop_spec [OF Suc.prems(1)] obtain q' x where q': "pop q = Some q'" "tp q = Some x" "inv q'"
    "elems q = add_mset x (elems q')" "\<forall>y \<in># elems q. \<not> lt x y"
    by blast
  moreover from Suc.IH [OF q'(3)] Suc.prems(2) q'(4) obtain ys
    where "pq_drain tp pop n q' = Some ys" "mset ys = elems q'" "sorted_wrt (\<lambda>x y. \<not> lt x y) ys"
    by auto
  ultimately show ?case
    by (auto simp flip: set_mset_mset)
qed

lemma fill_drain:
  "\<exists>ys. do { q \<leftarrow> pq_fill push xs new; pq_drain tp pop (length xs) q } = Some ys \<and>
     mset ys = mset xs \<and> sorted_wrt (\<lambda>x y. \<not> lt x y) ys"
proof -
  from fill_spec [OF inv_new, of xs] obtain q
    where q: "pq_fill push xs new = Some q" "inv q" "elems q = mset xs"
    by (auto simp: elems_new)
  with drain_spec [OF q(2), of "length xs"] show ?thesis by auto
qed

end

end
