(* ===== verification/HeapTree.thy ===== *)
theory HeapTree
  imports PrioQueue
begin

text \<open>
  The binary heaps of \<open>cpp/datastructure/tree/heap.h\<close>: \<open>MaxHeap\<close> and \<open>MinHeap\<close>. The two
  class templates differ in one comparison operator only, so every operation takes the comparison
  \<open>lt\<close>: it is \<open><\<close> for \<open>MaxHeap\<close> and \<open>>\<close> for \<open>MinHeap\<close>. The buffer keeps popped elements
  behind \<open>size_\<close>, as the code does.
\<close>

subsection \<open>State and operations\<close>

record 'a bheap =
  hp_size :: nat
  hp_buffer :: "'a list"

definition heap_new :: "'a bheap" where
  "heap_new = \<lparr>hp_size = 0, hp_buffer = []\<rparr>"

definition heap_empty :: "'a bheap \<Rightarrow> bool" where
  "heap_empty h \<longleftrightarrow> hp_size h = 0"

definition heap_top :: "'a bheap \<Rightarrow> 'a option" where
  "heap_top h = vget (hp_buffer h) 0"

text \<open>The upward loop of \<open>push\<close>.\<close>

function heap_sift_up :: "('a \<Rightarrow> 'a \<Rightarrow> bool) \<Rightarrow> 'a list \<Rightarrow> nat \<Rightarrow> 'a list option" where
  "heap_sift_up lt b child =
     (if child = 0 then Some b
      else let parent = (child - 1) div 2 in
        do { p \<leftarrow> vget b parent;
             c \<leftarrow> vget b child;
             if lt p c
             then do { b' \<leftarrow> vswap b parent child; heap_sift_up lt b' parent }
             else Some b })"
  by pat_completeness auto
termination
  by (relation "measure (\<lambda>(lt, b, child). child)") auto

declare heap_sift_up.simps [simp del]

definition heap_push :: "('a \<Rightarrow> 'a \<Rightarrow> bool) \<Rightarrow> 'a \<Rightarrow> 'a bheap \<Rightarrow> 'a bheap option" where
  "heap_push lt v h =
     (let n = Suc (hp_size h) in
      do { b \<leftarrow> (if n > length (hp_buffer h) then Some (hp_buffer h @ [v])
                 else vset (hp_buffer h) (n - 1) v);
           b' \<leftarrow> heap_sift_up lt b (n - 1);
           Some \<lparr>hp_size = n, hp_buffer = b'\<rparr> })"

text \<open>The choice between the two children in the downward loop.\<close>

definition heap_pick_child :: "('a \<Rightarrow> 'a \<Rightarrow> bool) \<Rightarrow> 'a list \<Rightarrow> nat \<Rightarrow> nat \<Rightarrow> nat option" where
  "heap_pick_child lt b n child =
     (if child + 1 < n
      then do { x \<leftarrow> vget b child; y \<leftarrow> vget b (child + 1);
                Some (if lt x y then child + 1 else child) }
      else Some child)"

lemma heap_pick_child_cases:
  "heap_pick_child lt b n child = Some c \<Longrightarrow> c = child \<or> (c = Suc child \<and> Suc child < n)"
  by (auto simp: heap_pick_child_def split: if_splits bind_splits)

text \<open>The downward loop of \<open>pop\<close>; \<open>n\<close> is \<open>size_\<close> after the decrement.\<close>

function heap_sift_down :: "('a \<Rightarrow> 'a \<Rightarrow> bool) \<Rightarrow> nat \<Rightarrow> 'a list \<Rightarrow> nat \<Rightarrow> 'a list option" where
  "heap_sift_down lt n b parent =
     (if 2 * parent + 1 < n
      then do { child \<leftarrow> heap_pick_child lt b n (2 * parent + 1);
                p \<leftarrow> vget b parent;
                c \<leftarrow> vget b child;
                if lt p c
                then do { b' \<leftarrow> vswap b parent child; heap_sift_down lt n b' child }
                else Some b }
      else Some b)"
  by pat_completeness auto
termination
  by (relation "measure (\<lambda>(lt, n, b, parent). n - parent)")
     (auto dest!: heap_pick_child_cases)

declare heap_sift_down.simps [simp del]

text \<open>
  On an empty heap \<open>size_ - 1\<close> is \<open>SIZE_MAX\<close>, so the first swap of \<open>pop\<close> is undefined.
\<close>

definition heap_pop :: "('a \<Rightarrow> 'a \<Rightarrow> bool) \<Rightarrow> 'a bheap \<Rightarrow> 'a bheap option" where
  "heap_pop lt h =
     (if hp_size h = 0 then None
      else do { b \<leftarrow> vswap (hp_buffer h) 0 (hp_size h - 1);
                b' \<leftarrow> heap_sift_down lt (hp_size h - 1) b 0;
                Some \<lparr>hp_size = hp_size h - 1, hp_buffer = b'\<rparr> })"

text \<open>The two class templates.\<close>

definition maxheap_push :: "'a::linorder \<Rightarrow> 'a bheap \<Rightarrow> 'a bheap option" where
  "maxheap_push = heap_push (<)"

definition maxheap_pop :: "'a::linorder bheap \<Rightarrow> 'a bheap option" where
  "maxheap_pop = heap_pop (<)"

definition minheap_push :: "'a::linorder \<Rightarrow> 'a bheap \<Rightarrow> 'a bheap option" where
  "minheap_push = heap_push (>)"

definition minheap_pop :: "'a::linorder bheap \<Rightarrow> 'a bheap option" where
  "minheap_pop = heap_pop (>)"

subsection \<open>Invariant and abstraction\<close>

definition heap_ordered :: "('a \<Rightarrow> 'a \<Rightarrow> bool) \<Rightarrow> nat \<Rightarrow> 'a list \<Rightarrow> bool" where
  "heap_ordered lt n b \<longleftrightarrow> (\<forall>i<n. 0 < i \<longrightarrow> \<not> lt (b ! ((i - 1) div 2)) (b ! i))"

definition heap_inv :: "('a \<Rightarrow> 'a \<Rightarrow> bool) \<Rightarrow> 'a bheap \<Rightarrow> bool" where
  "heap_inv lt h \<longleftrightarrow> hp_size h \<le> length (hp_buffer h) \<and> heap_ordered lt (hp_size h) (hp_buffer h)"

definition heap_elems :: "'a bheap \<Rightarrow> 'a multiset" where
  "heap_elems h = mset (take (hp_size h) (hp_buffer h))"

text \<open>The order is broken at most between \<open>child\<close> and its parent.\<close>

definition heap_up_hole :: "('a \<Rightarrow> 'a \<Rightarrow> bool) \<Rightarrow> nat \<Rightarrow> 'a list \<Rightarrow> nat \<Rightarrow> bool" where
  "heap_up_hole lt n b child \<longleftrightarrow>
     (\<forall>i<n. 0 < i \<longrightarrow> i \<noteq> child \<longrightarrow> \<not> lt (b ! ((i - 1) div 2)) (b ! i)) \<and>
     (\<forall>i<n. 0 < i \<longrightarrow> 0 < child \<longrightarrow> (i - 1) div 2 = child \<longrightarrow> \<not> lt (b ! ((child - 1) div 2)) (b ! i))"

text \<open>The order from \<open>k\<close> on is broken at most between \<open>parent\<close> and its children.\<close>

definition heap_down_hole :: "('a \<Rightarrow> 'a \<Rightarrow> bool) \<Rightarrow> nat \<Rightarrow> nat \<Rightarrow> 'a list \<Rightarrow> nat \<Rightarrow> bool" where
  "heap_down_hole lt k n b parent \<longleftrightarrow>
     (\<forall>i<n. 0 < i \<longrightarrow> k \<le> (i - 1) div 2 \<longrightarrow> (i - 1) div 2 \<noteq> parent \<longrightarrow>
        \<not> lt (b ! ((i - 1) div 2)) (b ! i)) \<and>
     (\<forall>i<n. 0 < i \<longrightarrow> 0 < parent \<longrightarrow> k \<le> (parent - 1) div 2 \<longrightarrow> (i - 1) div 2 = parent \<longrightarrow>
        \<not> lt (b ! ((parent - 1) div 2)) (b ! i))"

text \<open>\<open>heap_ordered_from\<close> with a lower bound on the parents, as heap construction needs it.\<close>

definition heap_ordered_from :: "('a \<Rightarrow> 'a \<Rightarrow> bool) \<Rightarrow> nat \<Rightarrow> nat \<Rightarrow> 'a list \<Rightarrow> bool" where
  "heap_ordered_from lt k n b \<longleftrightarrow>
     (\<forall>i<n. 0 < i \<longrightarrow> k \<le> (i - 1) div 2 \<longrightarrow> \<not> lt (b ! ((i - 1) div 2)) (b ! i))"

lemma heap_ordered_from_0: "heap_ordered_from lt 0 n b = heap_ordered lt n b"
  by (simp add: heap_ordered_from_def heap_ordered_def)

subsection \<open>Correctness for any strict weak order\<close>

lemma parent_less: "0 < i \<Longrightarrow> (i - 1) div 2 < (i::nat)"
  by arith

lemma parent_iff: "0 < i \<Longrightarrow> (i - 1) div 2 = p \<longleftrightarrow> i = 2 * p + 1 \<or> i = 2 * p + (2::nat)"
  by arith

locale heap_order =
  fixes lt :: "'a \<Rightarrow> 'a \<Rightarrow> bool"
  assumes lt_asym: "lt a b \<Longrightarrow> \<not> lt b a"
    and nlt_trans: "\<not> lt a b \<Longrightarrow> \<not> lt b c \<Longrightarrow> \<not> lt a c"
begin

lemma up_hole_step:
  assumes hole: "heap_up_hole lt n b child" and "0 < child" "child < n" "n \<le> length b"
    and up: "lt (b ! ((child - 1) div 2)) (b ! child)"
  shows "heap_up_hole lt n (swap_at b ((child - 1) div 2) child) ((child - 1) div 2)"
proof -
  let ?p = "(child - 1) div 2"
  let ?b = "swap_at b ?p child"
  have pc: "?p < child" using assms(2) by (rule parent_less)
  have nth: "?b ! k = (if k = ?p then b ! child else if k = child then b ! ?p else b ! k)"
    if "k < n" for k
    using that pc assms(3,4) by (simp add: nth_swap_at)
  have ord: "\<not> lt (b ! ((i - 1) div 2)) (b ! i)" if "i < n" "0 < i" "i \<noteq> child" for i
    using hole that by (auto simp: heap_up_hole_def)
  have grand: "\<not> lt (b ! ?p) (b ! i)" if "i < n" "0 < i" "(i - 1) div 2 = child" for i
    using hole that assms(2) by (auto simp: heap_up_hole_def)
  have swapped: "\<not> lt (b ! child) (b ! ?p)" using up by (rule lt_asym)
  have "\<not> lt (?b ! ((i - 1) div 2)) (?b ! i)" if i: "i < n" "0 < i" "i \<noteq> ?p" for i
  proof -
    have "(i - 1) div 2 < n" using i parent_less [of i] by simp
    then show ?thesis
      using i nth [of i] nth [of "(i - 1) div 2"] ord [of i] grand [of i] swapped pc
        nlt_trans [OF swapped, of "b ! i"] parent_less [of i]
      by (cases "i = child") (auto split: if_splits)
  qed
  moreover have "\<not> lt (?b ! ((?p - 1) div 2)) (?b ! i)"
    if i: "i < n" "0 < i" "0 < ?p" "(i - 1) div 2 = ?p" for i
  proof -
    have pp: "(?p - 1) div 2 < ?p" using i(3) by (rule parent_less)
    have top: "\<not> lt (b ! ((?p - 1) div 2)) (b ! ?p)"
      using ord [of ?p] i(3) pc assms(3) by simp
    have "?b ! ((?p - 1) div 2) = b ! ((?p - 1) div 2)"
      using nth [of "(?p - 1) div 2"] pp pc assms(3) by simp
    moreover have "?b ! i = (if i = child then b ! ?p else b ! i)"
      using nth [OF i(1)] i(2,4) parent_less [of i] by auto
    moreover have "\<not> lt (b ! ((?p - 1) div 2)) (b ! i)" if "i \<noteq> child"
      using top ord [OF i(1,2) that] i(4) nlt_trans by metis
    ultimately show ?thesis using top by auto
  qed
  ultimately show ?thesis
    unfolding heap_up_hole_def by blast
qed

lemma sift_up_ok:
  assumes "heap_up_hole lt n b child" "child < n" "n \<le> length b"
  shows "\<exists>b'. heap_sift_up lt b child = Some b' \<and> length b' = length b \<and>
           heap_ordered lt n b' \<and> mset (take n b') = mset (take n b) \<and> drop n b' = drop n b"
  using assms
proof (induction child arbitrary: b rule: less_induct)
  case (less child)
  let ?p = "(child - 1) div 2"
  show ?case
  proof (cases "0 < child \<and> lt (b ! ?p) (b ! child)")
    case True
    then have pc: "?p < child" using parent_less by blast
    let ?b = "swap_at b ?p child"
    have "heap_up_hole lt n ?b ?p"
      using up_hole_step less.prems True by blast
    then obtain b' where b': "heap_sift_up lt ?b ?p = Some b'" "length b' = length ?b"
        "heap_ordered lt n b'" "mset (take n b') = mset (take n ?b)" "drop n b' = drop n ?b"
      using less.IH [OF pc, of ?b] pc less.prems by auto
    have "heap_sift_up lt b child = Some b'"
      using True pc less.prems b'(1) by (subst heap_sift_up.simps) (simp add: Let_def)
    then show ?thesis
      using b' pc less.prems by (simp add: mset_take_swap_at)
  next
    case False
    then have "heap_sift_up lt b child = Some b"
      using less.prems parent_less [of child]
      by (subst heap_sift_up.simps) (auto simp: Let_def)
    moreover have "heap_ordered lt n b"
      using less.prems(1) False by (auto simp: heap_ordered_def heap_up_hole_def)
    ultimately show ?thesis by simp
  qed
qed

lemma pick_child_ok:
  assumes "child < n" "n \<le> length b"
  shows "\<exists>c. heap_pick_child lt b n child = Some c \<and> (c = child \<or> c = Suc child) \<and> c < n \<and>
           \<not> lt (b ! c) (b ! child) \<and> (Suc child < n \<longrightarrow> \<not> lt (b ! c) (b ! Suc child))"
  using assms by (auto simp: heap_pick_child_def intro: lt_asym dest: lt_asym)

lemma down_hole_step:
  assumes hole: "heap_down_hole lt k n b parent" and kp: "k \<le> parent"
    and c: "c = 2 * parent + 1 \<or> c = 2 * parent + 2" "c < n" and n: "n \<le> length b"
    and lt: "lt (b ! parent) (b ! c)"
    and best: "\<And>i. i < n \<Longrightarrow> 0 < i \<Longrightarrow> (i - 1) div 2 = parent \<Longrightarrow> \<not> lt (b ! c) (b ! i)"
  shows "heap_down_hole lt k n (swap_at b parent c) c"
proof -
  let ?b = "swap_at b parent c"
  have pc: "parent < c" and par_c: "(c - 1) div 2 = parent" using c(1) by auto
  have nth: "?b ! j = (if j = parent then b ! c else if j = c then b ! parent else b ! j)"
    if "j < n" for j
    using that pc c(2) n by (simp add: nth_swap_at)
  have ord: "\<not> lt (b ! ((i - 1) div 2)) (b ! i)"
    if "i < n" "0 < i" "k \<le> (i - 1) div 2" "(i - 1) div 2 \<noteq> parent" for i
    using hole that by (auto simp: heap_down_hole_def)
  have "\<not> lt (?b ! ((i - 1) div 2)) (?b ! i)"
    if i: "i < n" "0 < i" "k \<le> (i - 1) div 2" "(i - 1) div 2 \<noteq> c" for i
  proof (cases "(i - 1) div 2 = parent")
    case True
    then have "?b ! ((i - 1) div 2) = b ! c" "?b ! i = (if i = c then b ! parent else b ! i)"
      using nth [of parent] nth [of i] i pc c(2) parent_less [of i] by auto
    then show ?thesis using best [OF i(1,2) True] lt_asym [OF lt] by auto
  next
    case False
    then have "?b ! ((i - 1) div 2) = b ! ((i - 1) div 2)"
      using nth [of "(i - 1) div 2"] i parent_less [of i] by auto
    moreover have "?b ! i = (if i = parent then b ! c else b ! i)"
      using nth [of i] i False par_c by auto
    moreover have "\<not> lt (b ! ((parent - 1) div 2)) (b ! c)" if "i = parent"
      using hole i c(2) par_c pc that by (auto simp: heap_down_hole_def)
    ultimately show ?thesis using ord [OF i(1,2,3) False] by auto
  qed
  moreover have "\<not> lt (?b ! ((c - 1) div 2)) (?b ! i)"
    if i: "i < n" "0 < i" "(i - 1) div 2 = c" for i
  proof -
    have "\<not> lt (b ! c) (b ! i)" using ord [OF i(1,2)] i(3) kp pc by auto
    moreover have "?b ! i = b ! i" using nth [of i] i pc parent_less [of i] by auto
    moreover have "?b ! ((c - 1) div 2) = b ! c" using nth [of parent] par_c pc c(2) by auto
    ultimately show ?thesis by simp
  qed
  ultimately show ?thesis
    unfolding heap_down_hole_def by blast
qed

lemma down_hole_done:
  assumes "heap_down_hole lt k n b parent"
    and "\<And>i. i < n \<Longrightarrow> 0 < i \<Longrightarrow> (i - 1) div 2 = parent \<Longrightarrow> \<not> lt (b ! parent) (b ! i)"
  shows "heap_ordered_from lt k n b"
  using assms unfolding heap_ordered_from_def heap_down_hole_def by metis

lemma ordered_from_hole:
  assumes "heap_ordered_from lt k n b" "c < n"
  shows "heap_down_hole lt k n b c"
proof -
  have "\<not> lt (b ! ((c - 1) div 2)) (b ! i)"
    if "i < n" "0 < i" "0 < c" "k \<le> (c - 1) div 2" "(i - 1) div 2 = c" for i
  proof -
    have "\<not> lt (b ! ((c - 1) div 2)) (b ! c)" "\<not> lt (b ! c) (b ! i)"
      using assms that parent_less [of c] by (auto simp: heap_ordered_from_def)
    then show ?thesis by (rule nlt_trans)
  qed
  then show ?thesis
    using assms(1) by (auto simp: heap_down_hole_def heap_ordered_from_def)
qed

lemma sift_down_ok:
  assumes "heap_down_hole lt k n b parent" "k \<le> parent" "n \<le> length b"
  shows "\<exists>b'. heap_sift_down lt n b parent = Some b' \<and> length b' = length b \<and>
           heap_ordered_from lt k n b' \<and> mset (take n b') = mset (take n b) \<and> drop n b' = drop n b"
  using assms
proof (induction "n - parent" arbitrary: b parent rule: less_induct)
  case less
  show ?case
  proof (cases "2 * parent + 1 < n")
    case False
    then have "heap_sift_down lt n b parent = Some b"
      by (subst heap_sift_down.simps) simp
    moreover have "heap_ordered_from lt k n b"
      using less.prems(1) False by (intro down_hole_done) (auto simp: parent_iff)
    ultimately show ?thesis by simp
  next
    case True
    obtain c where pick: "heap_pick_child lt b n (2 * parent + 1) = Some c"
      and c: "c = 2 * parent + 1 \<or> c = 2 * parent + 2" "c < n"
      and best: "\<not> lt (b ! c) (b ! (2 * parent + 1))"
        "2 * parent + 2 < n \<Longrightarrow> \<not> lt (b ! c) (b ! (2 * parent + 2))"
      using pick_child_ok [OF True less.prems(3)] by auto
    have best': "\<not> lt (b ! c) (b ! i)" if "i < n" "0 < i" "(i - 1) div 2 = parent" for i
      using that(1) best parent_iff [THEN iffD1, OF that(2,3)] by auto
    have pc: "parent < c" using c(1) by auto
    show ?thesis
    proof (cases "lt (b ! parent) (b ! c)")
      case lt: True
      let ?b = "swap_at b parent c"
      have "heap_down_hole lt k n ?b c"
        using down_hole_step less.prems c lt best' by blast
      then obtain b' where b': "heap_sift_down lt n ?b c = Some b'" "length b' = length ?b"
          "heap_ordered_from lt k n b'" "mset (take n b') = mset (take n ?b)" "drop n b' = drop n ?b"
        using less.hyps [of c ?b] pc c(2) less.prems diff_less_mono2 [of parent c n] by auto
      have "heap_sift_down lt n b parent = Some b'"
        using True pick lt pc c(2) less.prems b'(1) by (subst heap_sift_down.simps) simp
      then show ?thesis
        using b' pc c(2) less.prems by (simp add: mset_take_swap_at)
    next
      case False
      then have "heap_sift_down lt n b parent = Some b"
        using True pick pc c(2) less.prems by (subst heap_sift_down.simps) simp
      moreover have "heap_ordered_from lt k n b"
        using down_hole_done [OF less.prems(1) nlt_trans [OF False best']] .
      ultimately show ?thesis by simp
    qed
  qed
qed

lemma ordered_top:
  assumes "heap_ordered lt n b" "i < n"
  shows "\<not> lt (b ! 0) (b ! i)"
  using assms(2)
proof (induction i rule: less_induct)
  case (less i)
  show ?case
  proof (cases "i = 0")
    case True
    then show ?thesis using lt_asym by blast
  next
    case False
    then have "(i - 1) div 2 < i" by (simp add: parent_less)
    with less have "\<not> lt (b ! 0) (b ! ((i - 1) div 2))" by simp
    moreover have "\<not> lt (b ! ((i - 1) div 2)) (b ! i)"
      using assms(1) less.prems False by (auto simp: heap_ordered_def)
    ultimately show ?thesis by (rule nlt_trans)
  qed
qed

lemma push_ok:
  assumes "heap_inv lt h"
  shows "\<exists>h'. heap_push lt v h = Some h' \<and> heap_inv lt h' \<and>
           heap_elems h' = add_mset v (heap_elems h)"
proof -
  let ?n = "hp_size h"
  define b where "b = (if Suc ?n > length (hp_buffer h) then hp_buffer h @ [v] else (hp_buffer h)[?n := v])"
  have len: "?n \<le> length (hp_buffer h)" and ord: "heap_ordered lt ?n (hp_buffer h)"
    using assms by (auto simp: heap_inv_def)
  have b: "?n < length b" "take (Suc ?n) b = take ?n (hp_buffer h) @ [v]"
    using len by (auto simp: b_def take_Suc_conv_app_nth nth_append)
  have same: "b ! i = hp_buffer h ! i" if "i < ?n" for i
    using that len by (auto simp: b_def nth_append)
  have "heap_up_hole lt (Suc ?n) b ?n"
    using ord same by (auto simp: heap_up_hole_def heap_ordered_def less_Suc_eq parent_iff)
  from sift_up_ok [OF this] b(1) obtain b' where b': "heap_sift_up lt b ?n = Some b'"
      "length b' = length b" "heap_ordered lt (Suc ?n) b'" "mset (take (Suc ?n) b') = mset (take (Suc ?n) b)"
    by auto
  have "heap_push lt v h = Some \<lparr>hp_size = Suc ?n, hp_buffer = b'\<rparr>"
    using b'(1) len by (auto simp: heap_push_def Let_def b_def)
  then show ?thesis
    using b' b by (simp add: heap_inv_def heap_elems_def)
qed

lemma pop_ok:
  assumes "heap_inv lt h" "heap_elems h \<noteq> {#}"
  shows "\<exists>h' x. heap_pop lt h = Some h' \<and> heap_top h = Some x \<and> heap_inv lt h' \<and>
           heap_elems h = add_mset x (heap_elems h') \<and> (\<forall>y \<in># heap_elems h. \<not> lt x y)"
proof -
  let ?n = "hp_size h - 1" and ?b = "hp_buffer h"
  let ?s = "swap_at ?b 0 ?n"
  have n: "0 < hp_size h" "hp_size h \<le> length ?b" "?b \<noteq> []" and ord: "heap_ordered lt (hp_size h) ?b"
    using assms by (auto simp: heap_inv_def heap_elems_def)
  have "?s ! i = ?b ! i" if "0 < i" "i < ?n" for i
    using that n by (simp add: nth_swap_at)
  then have "heap_down_hole lt 0 ?n ?s 0"
    using ord parent_less by (fastforce simp: heap_down_hole_def heap_ordered_def)
  moreover have "?n \<le> length ?s" using n by simp
  ultimately obtain b' where b': "heap_sift_down lt ?n ?s 0 = Some b'"
      "length b' = length ?b" "heap_ordered_from lt 0 ?n b'" "mset (take ?n b') = mset (take ?n ?s)"
    using sift_down_ok [of 0 ?n ?s 0] by auto
  have "heap_pop lt h = Some \<lparr>hp_size = ?n, hp_buffer = b'\<rparr>"
    using n b'(1) by (simp add: heap_pop_def)
  moreover have "heap_top h = Some (?b ! 0)"
    using n by (auto simp: heap_top_def)
  moreover have "heap_elems h = add_mset (?b ! 0) (mset (take ?n ?s))"
  proof -
    have "heap_elems h = mset (take (Suc ?n) ?s)"
      using n by (simp add: heap_elems_def mset_take_swap_at)
    also have "take (Suc ?n) ?s = take ?n ?s @ [?s ! ?n]"
      using n by (intro take_Suc_conv_app_nth) simp
    also have "?s ! ?n = ?b ! 0"
      using n by (simp add: nth_swap_at)
    finally show ?thesis by simp
  qed
  moreover have "\<not> lt (?b ! 0) y" if "y \<in># heap_elems h" for y
    using that n ordered_top [OF ord] by (auto simp: heap_elems_def in_set_conv_nth)
  ultimately show ?thesis
    using b' n by (auto simp: heap_inv_def heap_elems_def heap_ordered_from_0)
qed

end

interpretation maxh: heap_order "(<) :: 'a::linorder \<Rightarrow> 'a \<Rightarrow> bool"
  by unfold_locales auto

interpretation minh: heap_order "(>) :: 'a::linorder \<Rightarrow> 'a \<Rightarrow> bool"
  by unfold_locales auto

lemma heap_inv_new: "heap_inv lt heap_new"
  by (simp add: heap_inv_def heap_new_def heap_ordered_def)

lemma heap_elems_new [simp]: "heap_elems heap_new = {#}"
  by (simp add: heap_elems_def heap_new_def)

subsection \<open>The heaps implement the priority queue contract\<close>

interpretation maxq: prio_queue "(<) :: 'a::linorder \<Rightarrow> 'a \<Rightarrow> bool" heap_new maxheap_push maxheap_pop
    heap_top "heap_inv (<)" heap_elems
  unfolding maxheap_push_def maxheap_pop_def
  by unfold_locales (rule heap_inv_new heap_elems_new maxh.push_ok maxh.pop_ok; assumption)+

interpretation minq: prio_queue "(>) :: 'a::linorder \<Rightarrow> 'a \<Rightarrow> bool" heap_new minheap_push minheap_pop
    heap_top "heap_inv (>)" heap_elems
  unfolding minheap_push_def minheap_pop_def
  by unfold_locales (rule heap_inv_new heap_elems_new minh.push_ok minh.pop_ok; assumption)+

lemma sorted_wrt_ge_unique:
  assumes "sorted_wrt (\<lambda>x y. \<not> x < y) ys" "mset ys = mset (xs :: 'a::linorder list)"
  shows "ys = rev (sort xs)"
proof -
  have "sorted (rev ys)"
    using assms(1) by (simp add: sorted_wrt_rev not_less)
  moreover have "mset (rev ys) = mset xs" using assms(2) by simp
  ultimately show ?thesis by (metis properties_for_sort rev_rev_ident)
qed

lemma maxheap_drain_sorts:
  "do { h \<leftarrow> pq_fill maxheap_push xs heap_new; pq_drain heap_top maxheap_pop (length xs) h }
     = Some (rev (sort xs))"
  using maxq.fill_drain [of xs] sorted_wrt_ge_unique by metis

lemma minheap_drain_sorts:
  "do { h \<leftarrow> pq_fill minheap_push xs heap_new; pq_drain heap_top minheap_pop (length xs) h }
     = Some (sort xs)"
proof -
  obtain ys where ys: "do { h \<leftarrow> pq_fill minheap_push xs heap_new;
        pq_drain heap_top minheap_pop (length xs) h } = Some ys"
      "mset ys = mset xs" "sorted_wrt (\<lambda>x y. \<not> y < x) ys"
    using minq.fill_drain [of xs] by auto
  then have "sort xs = ys"
    by (intro properties_for_sort) (simp_all add: not_less)
  with ys(1) show ?thesis by simp
qed

text \<open>
  C36. Filling an empty heap with any list of pushes and then reading \<open>top\<close> and calling \<open>pop\<close> once per element
  returns, without any access outside the buffer, exactly the pushed elements: in descending order for
  \<open>MaxHeap\<close>, in ascending order for \<open>MinHeap\<close>.
\<close>

theorem heaps_fill_drain:
  "do { h \<leftarrow> pq_fill maxheap_push xs heap_new; pq_drain heap_top maxheap_pop (length xs) h } = Some (rev (sort xs)) \<and>
   do { h \<leftarrow> pq_fill minheap_push xs heap_new; pq_drain heap_top minheap_pop (length xs) h } = Some (sort xs)"
  using maxheap_drain_sorts minheap_drain_sorts by blast

end
