(* ===== verification/SortBasic.thy ===== *)
theory SortBasic
  imports Prelude
begin

text \<open>
  The exchange sorts of \<open>cpp/algorithm/lib/sort/sort.h\<close>: \<open>bubble_sort\<close>, \<open>insert_sort\<close>,
  \<open>select_sort\<close> and \<open>shell_sort\<close>. Every \<open>for\<close> and \<open>while\<close> loop is one recursive function over
  the loop variable; every vector access is checked. Loop variables are \<open>int32_t\<close> in the code and
  \<open>v.size()\<close> is stored in one, so the model is of vectors with fewer than 2^31 elements.
\<close>

subsection \<open>Bubble sort\<close>

function bubble_inner :: "'a::linorder list \<Rightarrow> nat \<Rightarrow> nat \<Rightarrow> 'a list option" where
  "bubble_inner v j m =
     (if j < m
      then do { a \<leftarrow> vget v (j - 1);
                b \<leftarrow> vget v j;
                v' \<leftarrow> (if a > b then vswap v (j - 1) j else Some v);
                bubble_inner v' (Suc j) m }
      else Some v)"
  by pat_completeness auto
termination by (relation "measure (\<lambda>(v, j, m). m - j)") auto

function bubble_outer :: "'a::linorder list \<Rightarrow> nat \<Rightarrow> nat \<Rightarrow> 'a list option" where
  "bubble_outer v i n =
     (if i < n
      then do { v' \<leftarrow> bubble_inner v 1 (n - i); bubble_outer v' (Suc i) n }
      else Some v)"
  by pat_completeness auto
termination by (relation "measure (\<lambda>(v, i, n). n - i)") auto

definition bubble_sort :: "'a::linorder list \<Rightarrow> 'a list option" where
  "bubble_sort v = bubble_outer v 0 (length v)"

subsection \<open>Insertion sort\<close>

fun insert_inner :: "'a::linorder list \<Rightarrow> nat \<Rightarrow> 'a list option" where
  "insert_inner v j =
     (if j > 0
      then do { a \<leftarrow> vget v (j - 1);
                b \<leftarrow> vget v j;
                if a > b
                then do { v' \<leftarrow> vswap v (j - 1) j; insert_inner v' (j - 1) }
                else Some v }
      else Some v)"

function insert_outer :: "'a::linorder list \<Rightarrow> nat \<Rightarrow> nat \<Rightarrow> 'a list option" where
  "insert_outer v i n =
     (if i < n then do { v' \<leftarrow> insert_inner v i; insert_outer v' (Suc i) n } else Some v)"
  by pat_completeness auto
termination by (relation "measure (\<lambda>(v, i, n). n - i)") auto

definition insert_sort :: "'a::linorder list \<Rightarrow> 'a list option" where
  "insert_sort v = insert_outer v 1 (length v)"

subsection \<open>Selection sort\<close>

function select_inner :: "'a::linorder list \<Rightarrow> nat \<Rightarrow> nat \<Rightarrow> 'a \<Rightarrow> nat \<Rightarrow> nat option" where
  "select_inner v j n value index =
     (if j < n
      then do { x \<leftarrow> vget v j;
                if x < value then select_inner v (Suc j) n x j
                else select_inner v (Suc j) n value index }
      else Some index)"
  by pat_completeness auto
termination by (relation "measure (\<lambda>(v, j, n, value, index). n - j)") auto

function select_outer :: "'a::linorder list \<Rightarrow> nat \<Rightarrow> nat \<Rightarrow> 'a list option" where
  "select_outer v i n =
     (if i < n
      then do { value \<leftarrow> vget v i;
                index \<leftarrow> select_inner v (Suc i) n value i;
                v' \<leftarrow> vswap v i index;
                select_outer v' (Suc i) n }
      else Some v)"
  by pat_completeness auto
termination by (relation "measure (\<lambda>(v, i, n). n - i)") auto

definition select_sort :: "'a::linorder list \<Rightarrow> 'a list option" where
  "select_sort v = select_outer v 0 (length v)"

subsection \<open>Shell sort\<close>

text \<open>
  The code compares \<open>v[j - d]\<close> with \<open>v[j]\<close> but swaps \<open>v[j - 1]\<close> with \<open>v[j]\<close>, and its inner loop
  runs while \<open>j > 0\<close> instead of \<open>j >= d\<close>. Indices are kept signed: \<open>j - d\<close> can be negative.
\<close>

partial_function (option) shell_inner :: "'a::linorder list \<Rightarrow> int \<Rightarrow> int \<Rightarrow> 'a list option" where
  "shell_inner v j d =
     (if j > 0
      then do { a \<leftarrow> ivget v (j - d);
                b \<leftarrow> ivget v j;
                if a > b
                then do { v' \<leftarrow> ivswap v (j - 1) j; shell_inner v' (j - d) d }
                else Some v }
      else Some v)"

declare shell_inner.simps [code]

function shell_pass :: "'a::linorder list \<Rightarrow> int \<Rightarrow> int \<Rightarrow> int \<Rightarrow> 'a list option" where
  "shell_pass v i n d =
     (if i < n then do { v' \<leftarrow> shell_inner v i d; shell_pass v' (i + 1) n d } else Some v)"
  by pat_completeness auto
termination by (relation "measure (\<lambda>(v, i, n, d). nat (n - i))") auto

function shell_gaps :: "'a::linorder list \<Rightarrow> int \<Rightarrow> int \<Rightarrow> 'a list option" where
  "shell_gaps v n d =
     (if d \<ge> 1 then do { v' \<leftarrow> shell_pass v d n d; shell_gaps v' n (d div 2) } else Some v)"
  by pat_completeness auto
termination by (relation "measure (\<lambda>(v, n, d). nat d)") auto

definition shell_sort :: "'a::linorder list \<Rightarrow> 'a list option" where
  "shell_sort v = shell_gaps v (int (length v)) (int (length v) div 2)"

declare bubble_inner.simps [simp del] bubble_outer.simps [simp del] insert_inner.simps [simp del]
  insert_outer.simps [simp del] select_inner.simps [simp del] select_outer.simps [simp del]
  shell_pass.simps [simp del] shell_gaps.simps [simp del]

subsection \<open>Bubble sort is correct\<close>

lemma bubble_inner_ok:
  assumes "0 < j" "j \<le> m" "m \<le> length v" "\<forall>k<j. v ! k \<le> v ! (j - 1)"
  shows "\<exists>v'. bubble_inner v j m = Some v' \<and> length v' = length v \<and>
    mset (take m v') = mset (take m v) \<and> drop m v' = drop m v \<and> (\<forall>k<m. v' ! k \<le> v' ! (m - 1))"
  using assms
proof (induction v j m rule: bubble_inner.induct)
  case (1 v j m)
  show ?case
  proof (cases "j < m")
    case False
    with "1.prems" have "j = m" by simp
    with "1.prems" show ?thesis by (subst bubble_inner.simps) auto
  next
    case True
    define w where "w = (if v ! (j - 1) > v ! j then swap_at v (j - 1) j else v)"
    have jl: "j < length v" "j - 1 < length v" using True "1.prems" by auto
    have w: "(if v ! (j - 1) > v ! j then vswap v (j - 1) j else Some v) = Some w"
      using jl by (simp add: w_def)
    have w_nth: "w ! k \<le> w ! j" if "k < Suc j" for k
    proof -
      have nj: "w ! j = max (v ! (j - 1)) (v ! j)"
        using jl by (auto simp: w_def nth_swap_at max_def)
      show ?thesis
        using that "1.prems"(4) jl nj by (cases "k < j - 1") (auto simp: w_def nth_swap_at less_Suc_eq le_max_iff_disj)
    qed
    have msw: "mset (take m w) = mset (take m v)" "drop m w = drop m v" "length w = length v"
      using True jl "1.prems"(3) by (auto simp: w_def mset_take_swap_at)
    from "1.IH" [OF True _ _ w] obtain v' where v': "bubble_inner w (Suc j) m = Some v'"
      "length v' = length w" "mset (take m v') = mset (take m w)" "drop m v' = drop m w"
      "\<forall>k<m. v' ! k \<le> v' ! (m - 1)"
      using True jl msw "1.prems" w_nth by auto
    moreover have "bubble_inner v j m = bubble_inner w (Suc j) m"
      using True jl w by (subst bubble_inner.simps) simp
    ultimately show ?thesis using msw by simp
  qed
qed

lemma bubble_outer_ok:
  assumes "i \<le> length v" "n = length v" "sorted (drop (n - i) v)"
    "\<forall>x \<in> set (take (n - i) v). \<forall>y \<in> set (drop (n - i) v). x \<le> y"
  shows "bubble_outer v i n = Some (sort v)"
  using assms
proof (induction v i n rule: bubble_outer.induct)
  case (1 v i n)
  show ?case
  proof (cases "i < n")
    case False
    with "1.prems" have "sorted v" by simp
    with False show ?thesis by (subst bubble_outer.simps) (simp add: sorted_sort_id)
  next
    case True
    let ?m = "n - i"
    have m: "0 < ?m" "?m \<le> length v" using True "1.prems" by auto
    obtain v' where v': "bubble_inner v 1 ?m = Some v'" "length v' = length v"
      "mset (take ?m v') = mset (take ?m v)" "drop ?m v' = drop ?m v"
      "\<forall>k<?m. v' ! k \<le> v' ! (?m - 1)"
      using bubble_inner_ok [of 1 ?m v] m by auto
    let ?x = "v' ! (?m - 1)"
    have sets: "set (take ?m v') = set (take ?m v)" using v'(3) by (rule set_take_mset_eq)
    have split: "drop (n - Suc i) v' = ?x # drop ?m v'"
      using m v'(2) True Cons_nth_drop_Suc [of "?m - 1" v'] by (simp add: Suc_diff_Suc)
    have x: "?x \<in> set (take ?m v')" using m v'(2) nth_mem [of "?m - 1" "take ?m v'"] by simp
    have below: "y \<le> ?x" if "y \<in> set (take ?m v')" for y
      using that v'(2,5) m by (auto simp: in_set_conv_nth)
    have sub: "set (take (n - Suc i) v') \<subseteq> set (take ?m v')"
      by (rule set_take_subset_set_take) simp
    have "sorted (drop (n - Suc i) v')"
      using split x sets "1.prems"(3,4) v'(4) by auto
    moreover have "\<forall>a \<in> set (take (n - Suc i) v'). \<forall>b \<in> set (drop (n - Suc i) v'). a \<le> b"
      using split sub sets below "1.prems"(4) v'(4) by auto
    ultimately have "bubble_outer v' (Suc i) n = Some (sort v')"
      using "1.IH" [OF True v'(1)] "1.prems" True v'(2) by simp
    moreover have "sort v' = sort v"
      using v'(3,4) by (rule sort_take_drop_cong)
    ultimately show ?thesis
      using True v'(1) by (subst bubble_outer.simps) simp
  qed
qed

lemma bubble_sort_sorts: "bubble_sort v = Some (sort v)"
  unfolding bubble_sort_def by (rule bubble_outer_ok) simp_all

subsection \<open>Insertion sort is correct\<close>

definition insert_hole :: "'a::linorder list \<Rightarrow> nat \<Rightarrow> nat \<Rightarrow> bool" where
  "insert_hole v i j \<longleftrightarrow>
     (\<forall>p q. p < q \<longrightarrow> q \<le> i \<longrightarrow> p \<noteq> j \<longrightarrow> q \<noteq> j \<longrightarrow> v ! p \<le> v ! q) \<and>
     (\<forall>q. j < q \<longrightarrow> q \<le> i \<longrightarrow> v ! j \<le> v ! q)"

lemma insert_hole_done:
  assumes "insert_hole v i j" "j \<le> i" "i < length v" "j = 0 \<or> v ! (j - 1) \<le> v ! j"
  shows "sorted (take (Suc i) v)"
proof -
  have "v ! p \<le> v ! q" if pq: "p < q" "q \<le> i" for p q
  proof (cases "q = j")
    case True
    then have "p = j - 1 \<or> v ! p \<le> v ! (j - 1)"
      using assms(1,2) pq unfolding insert_hole_def
      by (metis Suc_diff_1 diff_le_self diff_less le_trans less_SucE not_less_zero zero_less_Suc gr0I less_numeral_extra(1) less_or_eq_imp_le nat_less_le)
    then show ?thesis using True assms(4) pq by auto
  next
    case False
    then show ?thesis using assms(1) pq unfolding insert_hole_def by metis
  qed
  then show ?thesis
    using assms(3) by (auto simp: sorted_iff_nth_mono_less)
qed

lemma insert_hole_step:
  assumes "insert_hole v i j" "0 < j" "j \<le> i" "i < length v" "v ! j < v ! (j - 1)"
  shows "insert_hole (swap_at v (j - 1) j) i (j - 1)"
proof -
  let ?w = "swap_at v (j - 1) j"
  have nth: "?w ! k = (if k = j - 1 then v ! j else if k = j then v ! (j - 1) else v ! k)" if "k \<le> i" for k
    using that assms by (simp add: nth_swap_at)
  have inv: "v ! p \<le> v ! q" if "p < q" "q \<le> i" "p \<noteq> j" "q \<noteq> j" for p q
    using assms(1) that by (auto simp: insert_hole_def)
  have inv2: "v ! j \<le> v ! q" if "j < q" "q \<le> i" for q
    using assms(1) that by (auto simp: insert_hole_def)
  have "?w ! p \<le> ?w ! q" if "p < q" "q \<le> i" "p \<noteq> j - 1" "q \<noteq> j - 1" for p q
    using that nth [of p] nth [of q] inv [of p q] inv [of p "j - 1"] inv [of "j - 1" q] assms(2)
    by (cases "p = j"; cases "q = j") auto
  moreover have "?w ! (j - 1) \<le> ?w ! q" if "j - 1 < q" "q \<le> i" for q
    using that nth [of q] nth [of "j - 1"] inv2 [of q] assms by (cases "q = j") auto
  ultimately show ?thesis unfolding insert_hole_def by blast
qed

lemma insert_inner_ok:
  assumes "insert_hole v i j" "j \<le> i" "i < length v"
  shows "\<exists>v'. insert_inner v j = Some v' \<and> length v' = length v \<and>
    mset (take (Suc i) v') = mset (take (Suc i) v) \<and> drop (Suc i) v' = drop (Suc i) v \<and>
    sorted (take (Suc i) v')"
  using assms
proof (induction v j rule: insert_inner.induct)
  case (1 v j)
  show ?case
  proof (cases "0 < j \<and> v ! j < v ! (j - 1)")
    case False
    then have "insert_inner v j = Some v"
      using "1.prems" by (subst insert_inner.simps) auto
    then show ?thesis
      using False "1.prems" by (auto intro: insert_hole_done)
  next
    case True
    let ?w = "swap_at v (j - 1) j"
    have ind: "j - 1 < length v" "j < length v" "j - 1 \<le> i" using "1.prems" by auto
    obtain v' where v': "insert_inner ?w (j - 1) = Some v'" "length v' = length v"
      "mset (take (Suc i) v') = mset (take (Suc i) ?w)" "drop (Suc i) v' = drop (Suc i) ?w"
      "sorted (take (Suc i) v')"
      using "1.IH" [of "v ! (j - 1)" "v ! j" ?w] True ind "1.prems" insert_hole_step [of v i j] by auto
    moreover have "insert_inner v j = insert_inner ?w (j - 1)"
      using True ind by (subst insert_inner.simps) simp
    ultimately show ?thesis
      using "1.prems" by (simp add: mset_take_swap_at)
  qed
qed

lemma insert_outer_ok:
  assumes "n = length v" "sorted (take i v)"
  shows "insert_outer v i n = Some (sort v)"
  using assms
proof (induction v i n rule: insert_outer.induct)
  case (1 v i n)
  show ?case
  proof (cases "i < n")
    case False
    with "1.prems" show ?thesis by (subst insert_outer.simps) (simp add: sorted_sort_id)
  next
    case True
    have "insert_hole v i i"
      using "1.prems" True by (auto simp: insert_hole_def sorted_iff_nth_mono_less)
    from insert_inner_ok [OF this] True "1.prems" obtain v' where
      v': "insert_inner v i = Some v'" "length v' = length v"
      "mset (take (Suc i) v') = mset (take (Suc i) v)" "drop (Suc i) v' = drop (Suc i) v"
      "sorted (take (Suc i) v')" by auto
    moreover have "sort v' = sort v"
      using v'(3,4) by (rule sort_take_drop_cong)
    ultimately show ?thesis
      using "1.IH" [OF True v'(1)] "1.prems" True by (subst insert_outer.simps) simp
  qed
qed

lemma insert_sort_sorts: "insert_sort v = Some (sort v)"
  unfolding insert_sort_def by (rule insert_outer_ok) (cases v; simp)+

subsection \<open>Selection sort is correct\<close>

lemma select_inner_ok:
  assumes "i \<le> index" "index < j" "j \<le> n" "n = length v" "value = v ! index"
    "\<forall>k. i \<le> k \<longrightarrow> k < j \<longrightarrow> v ! index \<le> v ! k"
  shows "\<exists>x. select_inner v j n value index = Some x \<and> i \<le> x \<and> x < n \<and>
    (\<forall>k. i \<le> k \<longrightarrow> k < n \<longrightarrow> v ! x \<le> v ! k)"
  using assms
proof (induction v j n "value" index rule: select_inner.induct)
  case (1 v j n "value" index)
  show ?case
  proof (cases "j < n")
    case False
    with "1.prems" show ?thesis by (subst select_inner.simps) auto
  next
    case True
    then have get: "vget v j = Some (v ! j)" using "1.prems" by simp
    show ?thesis
    proof (cases "v ! j < value")
      case lt: True
      then have "\<forall>k. i \<le> k \<longrightarrow> k < Suc j \<longrightarrow> v ! j \<le> v ! k"
        using "1.prems" by (auto simp: less_Suc_eq dest: order.strict_trans2)
      then show ?thesis
        using "1.IH"(1) [OF True get lt] True "1.prems" get lt by (subst select_inner.simps) auto
    next
      case ge: False
      then have "\<forall>k. i \<le> k \<longrightarrow> k < Suc j \<longrightarrow> v ! index \<le> v ! k"
        using "1.prems" by (auto simp: less_Suc_eq)
      then show ?thesis
        using "1.IH"(2) [OF True get ge] True "1.prems" get ge by (subst select_inner.simps) auto
    qed
  qed
qed

lemma select_outer_ok:
  assumes "n = length v" "i \<le> n" "sorted (take i v)"
    "\<forall>x \<in> set (take i v). \<forall>y \<in> set (drop i v). x \<le> y"
  shows "select_outer v i n = Some (sort v)"
  using assms
proof (induction v i n rule: select_outer.induct)
  case (1 v i n)
  show ?case
  proof (cases "i < n")
    case False
    with "1.prems" show ?thesis by (subst select_outer.simps) (simp add: sorted_sort_id)
  next
    case True
    then have get: "vget v i = Some (v ! i)" using "1.prems" by simp
    have "\<forall>k. i \<le> k \<longrightarrow> k < Suc i \<longrightarrow> v ! i \<le> v ! k" by (auto simp: less_Suc_eq)
    then obtain x where x: "select_inner v (Suc i) n (v ! i) i = Some x" "i \<le> x" "x < n"
      "\<forall>k. i \<le> k \<longrightarrow> k < n \<longrightarrow> v ! x \<le> v ! k"
      using select_inner_ok [of i i "Suc i" n v "v ! i"] True "1.prems" by auto
    let ?w = "swap_at v i x"
    have sw: "vswap v i x = Some ?w" using x True "1.prems" by simp
    have tk: "take (Suc i) ?w = take i v @ [v ! x]"
      using True x "1.prems" by (simp add: take_Suc_conv_app_nth nth_swap_at)
    have xin: "v ! x \<in> set (drop i v)"
      using x "1.prems"(1) by (auto simp: set_drop_conv)
    have "mset (drop i ?w) = mset (drop i v)"
    proof -
      have "mset (take i v) + mset (drop i ?w) = mset (take i v) + mset (drop i v)"
        by (metis append_take_drop_id mset_append mset_swap_at take_swap_at x(2) order_refl True x(3) "1.prems"(1))
      then show ?thesis by simp
    qed
    then have "set (drop (Suc i) ?w) \<subseteq> set (drop i v)"
      by (metis set_drop_subset_set_drop le_Suc_eq set_mset_mset order_refl)
    then have least: "\<forall>y \<in> set (drop (Suc i) ?w). v ! x \<le> y \<and> y \<in> set (drop i v)"
      using x(4) "1.prems"(1) by (auto simp: set_drop_conv subset_iff)
    have "sorted (take (Suc i) ?w)"
      using "1.prems"(3,4) xin by (auto simp: tk sorted_append)
    moreover have "\<forall>a \<in> set (take (Suc i) ?w). \<forall>b \<in> set (drop (Suc i) ?w). a \<le> b"
      using least "1.prems"(4) by (auto simp: tk)
    moreover have "sort ?w = sort v"
      using x True "1.prems" by (intro sort_mset_cong) simp
    ultimately show ?thesis
      using "1.IH" [OF True get x(1) sw] True "1.prems" get x(1) sw
      by (subst select_outer.simps) simp
  qed
qed

lemma select_sort_sorts: "select_sort v = Some (sort v)"
  unfolding select_sort_def by (rule select_outer_ok) simp_all

subsection \<open>Shell sort: sorted whenever it stays in range, but it can leave the vector\<close>

lemma shell_inner_gap_1: "0 \<le> j \<Longrightarrow> shell_inner v j 1 = insert_inner v (nat j)"
proof (induction "nat j" arbitrary: v j)
  case 0
  then show ?case
    by (subst shell_inner.simps, subst insert_inner.simps) simp
next
  case (Suc k)
  then have j: "0 < j" "nat (j - 1) = nat j - 1" "nat j = Suc k" by auto
  have "shell_inner w (j - 1) 1 = insert_inner w (nat j - 1)" for w :: "'a list"
    using Suc.hyps(1) [of "j - 1" w] j by auto
  then show ?case
    using j by (subst shell_inner.simps, subst insert_inner.simps)
      (auto simp: ivget_def ivswap_def nat_diff_distrib' intro!: Option.bind_cong)
qed

lemma shell_pass_gap_1: "0 \<le> i \<Longrightarrow> shell_pass v i n 1 = insert_outer v (nat i) (nat n)"
proof (induction v i n "1::int" rule: shell_pass.induct)
  case (1 v i n)
  show ?case
  proof (cases "i < n")
    case True
    then show ?thesis
      using "1" by (subst shell_pass.simps, subst insert_outer.simps)
        (auto simp: shell_inner_gap_1 nat_add_distrib intro!: Option.bind_cong)
  next
    case False
    then show ?thesis
      by (subst shell_pass.simps, subst insert_outer.simps) simp
  qed
qed

lemma shell_inner_mset: "shell_inner v j d = Some w \<Longrightarrow> mset w = mset v"
proof (rule shell_inner.raw_induct [where P = "\<lambda>v j d w. mset w = mset v"])
  fix f and v :: "'a list" and j d w
  assume IH: "\<And>v j d w. f v j d = Some w \<Longrightarrow> mset w = mset (v :: 'a list)"
    and eq: "(if j > 0
      then do { a \<leftarrow> ivget v (j - d);
                b \<leftarrow> ivget v j;
                if a > b
                then do { v' \<leftarrow> ivswap v (j - 1) j; f v' (j - d) d }
                else Some v }
      else Some v) = Some w"
  show "mset w = mset v"
    using eq by (auto split: if_splits bind_splits dest!: IH)
qed

lemma shell_pass_mset: "shell_pass v i n d = Some w \<Longrightarrow> mset w = mset v"
proof (induction v i n d rule: shell_pass.induct)
  case (1 v i n d)
  show ?case
  proof (cases "i < n")
    case True
    with "1.prems" obtain v' where "shell_inner v i d = Some v'" "shell_pass v' (i + 1) n d = Some w"
      by (subst (asm) shell_pass.simps) (auto split: bind_splits)
    with "1.IH" [OF True] shell_inner_mset show ?thesis by metis
  next
    case False
    with "1.prems" show ?thesis by (subst (asm) shell_pass.simps) simp
  qed
qed

lemma shell_gaps_sorts:
  assumes "shell_gaps v n d = Some w" "d \<ge> 1" "n = int (length v)"
  shows "w = sort v"
  using assms
proof (induction v n d rule: shell_gaps.induct)
  case (1 v n d)
  from "1.prems"(1,2) obtain v' where v': "shell_pass v d n d = Some v'"
    "shell_gaps v' n (d div 2) = Some w"
    by (subst (asm) shell_gaps.simps) (auto split: bind_splits)
  have perm: "mset v' = mset v" using v'(1) by (rule shell_pass_mset)
  show ?case
  proof (cases "d = 1")
    case True
    then have "insert_outer v 1 (length v) = Some v'"
      using v'(1) shell_pass_gap_1 [of 1 v n] "1.prems"(3) by simp
    then have "v' = sort v"
      using insert_outer_ok [of "length v" v 1] by (cases v) simp_all
    moreover have "w = v'"
      using v'(2) True by (subst (asm) shell_gaps.simps) simp
    ultimately show ?thesis by simp
  next
    case False
    then have "d div 2 \<ge> 1" using "1.prems"(2) by simp
    moreover have "n = int (length v')"
      using perm "1.prems"(3) by (metis size_mset)
    ultimately have "w = sort v'"
      using "1.IH" [OF "1.prems"(2) v'(1)] v'(2) by simp
    with perm show ?thesis by (metis sort_mset_cong)
  qed
qed

lemma shell_sort_in_range:
  assumes "shell_sort v = Some w"
  shows "w = sort v"
proof (cases "length v < 2")
  case True
  then have "v = [] \<or> (\<exists>x. v = [x])" by (cases v) auto
  with assms show ?thesis
    by (auto simp: shell_sort_def shell_gaps.simps)
next
  case False
  then show ?thesis
    using assms shell_gaps_sorts [of v "int (length v)" "int (length v) div 2" w]
    by (simp add: shell_sort_def)
qed

text \<open>
  C35. The elementary sorts. Bubble, insertion and selection sort stay in range and return the ascending permutation
  of their input. So does \<open>shell_sort\<close> when it finishes without leaving the vector: its last pass, with gap 1, is a
  complete insertion sort. It does not always finish: on 4 3 2 1 the pass with gap 2 reads \<open>v[-1]\<close>, because the inner
  loop is guarded by \<open>j > 0\<close> instead of \<open>j >= d\<close>.
\<close>

theorem elementary_sorts_correct:
  "bubble_sort v = Some (sort v) \<and> insert_sort v = Some (sort v) \<and> select_sort v = Some (sort v) \<and>
     (shell_sort v = Some w \<longrightarrow> w = sort v) \<and> shell_sort [4, 3, 2, 1 :: int] = None"
proof (intro conjI impI)
  show "shell_sort [4, 3, 2, 1 :: int] = None" by code_simp
qed (fact bubble_sort_sorts insert_sort_sorts select_sort_sorts | erule shell_sort_in_range)+

theorem elementary_sorts_correct_witness:
  "shell_sort [3, 1, 2 :: int] = Some [1, 2, 3] \<and> [1, 2, 3] = sort [3, 1, 2 :: int]"
proof -
  have h: "shell_sort [3, 1, 2 :: int] = Some [1, 2, 3]" by code_simp
  show ?thesis using h elementary_sorts_correct [of "[3, 1, 2 :: int]" "[1, 2, 3]"] by simp
qed

end
