(* ===== verification/SortMerge.thy ===== *)
theory SortMerge
  imports Prelude
begin

text \<open>
  \<open>merge_sort\<close> of \<open>cpp/algorithm/lib/sort/sort.h\<close>: the two copies into local arrays, the merge
  loop over the destination index, and the recursion over \<open>[start, stop)\<close>.
\<close>

primrec copy_range :: "'a list \<Rightarrow> nat \<Rightarrow> nat \<Rightarrow> 'a list option" where
  "copy_range v start 0 = Some []"
| "copy_range v start (Suc k) =
     do { x \<leftarrow> vget v start; xs \<leftarrow> copy_range v (Suc start) k; Some (x # xs) }"

function merge_loop ::
    "'a::linorder list \<Rightarrow> 'a list \<Rightarrow> 'a list \<Rightarrow> nat \<Rightarrow> nat \<Rightarrow> nat \<Rightarrow> nat \<Rightarrow> 'a list option" where
  "merge_loop a b v right index i j =
     (if index < right
      then if i < length a \<and> j < length b
           then do { x \<leftarrow> vget a i; y \<leftarrow> vget b j;
                     if x < y
                     then do { v' \<leftarrow> vset v index x; merge_loop a b v' right (Suc index) (Suc i) j }
                     else do { v' \<leftarrow> vset v index y; merge_loop a b v' right (Suc index) i (Suc j) } }
           else if i < length a
           then do { x \<leftarrow> vget a i; v' \<leftarrow> vset v index x;
                     merge_loop a b v' right (Suc index) (Suc i) j }
           else do { y \<leftarrow> vget b j; v' \<leftarrow> vset v index y;
                     merge_loop a b v' right (Suc index) i (Suc j) }
      else Some v)"
  by pat_completeness auto
termination by (relation "measure (\<lambda>(a, b, v, right, index, i, j). right - index)") auto

declare merge_loop.simps [simp del]

definition merge_ranges :: "'a::linorder list \<Rightarrow> nat \<Rightarrow> nat \<Rightarrow> nat \<Rightarrow> 'a list option" where
  "merge_ranges v left mid right =
     do { a \<leftarrow> copy_range v left (mid - left);
          b \<leftarrow> copy_range v mid (right - mid);
          merge_loop a b v right left 0 0 }"

function merge_sort :: "'a::linorder list \<Rightarrow> nat \<Rightarrow> nat \<Rightarrow> 'a list option" where
  "merge_sort v start stop =
     (if start + 1 < stop
      then let mid = start + (stop - start) div 2 in
           do { v1 \<leftarrow> merge_sort v start mid;
                v2 \<leftarrow> merge_sort v1 mid stop;
                merge_ranges v2 start mid stop }
      else Some v)"
  by pat_completeness auto
termination by (relation "measure (\<lambda>(v, start, stop). stop - start)") auto

declare merge_sort.simps [simp del]

subsection \<open>The merge loop computes a list merge\<close>

text \<open>Reference merge, with the code's tie rule: an equal element of the right half goes first.\<close>

fun merge_lists :: "'a::linorder list \<Rightarrow> 'a list \<Rightarrow> 'a list" where
  "merge_lists [] ys = ys"
| "merge_lists xs [] = xs"
| "merge_lists (x # xs) (y # ys) =
     (if x < y then x # merge_lists xs (y # ys) else y # merge_lists (x # xs) ys)"

lemma merge_lists_Nil2 [simp]: "merge_lists xs [] = xs"
  by (cases xs) simp_all

lemma mset_merge_lists: "mset (merge_lists xs ys) = mset xs + mset ys"
  by (induction xs ys rule: merge_lists.induct) auto

lemma set_merge_lists: "set (merge_lists xs ys) = set xs \<union> set ys"
  using mset_merge_lists [of xs ys] by (metis set_mset_mset set_mset_union)

lemma sorted_merge_lists: "sorted xs \<Longrightarrow> sorted ys \<Longrightarrow> sorted (merge_lists xs ys)"
  by (induction xs ys rule: merge_lists.induct) (auto simp: set_merge_lists)

lemma merge_lists_sort: "merge_lists (sort xs) (sort ys) = sort (xs @ ys)"
  by (intro sorted_eq_sort) (simp_all add: sorted_merge_lists mset_merge_lists)

lemma copy_range_ok: "start + k \<le> length v \<Longrightarrow> copy_range v start k = Some (take k (drop start v))"
  by (induction k arbitrary: start) (auto simp: Cons_nth_drop_Suc [symmetric])

lemma merge_loop_ok:
  assumes "i \<le> length a" "j \<le> length b" "right \<le> length v"
    "right + i + j = index + length a + length b"
  shows "merge_loop a b v right index i j
       = Some (take index v @ merge_lists (drop i a) (drop j b) @ drop right v)"
  using assms
proof (induction a b v right index i j rule: merge_loop.induct)
  case (1 a b v right index i j)
  note IH = "1.IH" and prems = "1.prems"
  show ?case
  proof (cases "index < right")
    case False
    with prems have "i = length a" "j = length b" "index = right" by auto
    with False show ?thesis by (subst merge_loop.simps) simp
  next
    case True
    then have ix: "index < length v" using prems(3) by simp
    consider (both) "i < length a" "j < length b" | (left) "i < length a" "j = length b"
      | (right) "i = length a" "j < length b"
      using True prems by linarith
    then show ?thesis
    proof cases
      case both
      then have da: "drop i a = a ! i # drop (Suc i) a" and db: "drop j b = b ! j # drop (Suc j) b"
        by (simp_all add: Cons_nth_drop_Suc)
      show ?thesis
        using True both ix prems IH(1) [of "a ! i" "b ! j" "v[index := a ! i]"]
          IH(2) [of "a ! i" "b ! j" "v[index := b ! j]"]
        by (subst merge_loop.simps) (auto simp: da db take_Suc_update [OF ix])
    next
      case left
      then have da: "drop i a = a ! i # drop (Suc i) a" by (simp add: Cons_nth_drop_Suc)
      show ?thesis
        using True left ix prems IH(3) [of "a ! i" "v[index := a ! i]"]
        by (subst merge_loop.simps) (auto simp: da take_Suc_update [OF ix])
    next
      case right
      then have db: "drop j b = b ! j # drop (Suc j) b" by (simp add: Cons_nth_drop_Suc)
      show ?thesis
        using True right ix prems IH(4) [of "b ! j" "v[index := b ! j]"]
        by (subst merge_loop.simps) (auto simp: db take_Suc_update [OF ix])
    qed
  qed
qed

lemma merge_ranges_ok:
  assumes "left \<le> mid" "mid \<le> right" "right \<le> length v"
  shows "merge_ranges v left mid right = Some (take left v @
    merge_lists (take (mid - left) (drop left v)) (take (right - mid) (drop mid v)) @ drop right v)"
  using assms by (simp add: merge_ranges_def copy_range_ok merge_loop_ok)

lemma range_split2:
  assumes "s \<le> m" "m \<le> e" "e \<le> length v" "length xs = m - s"
  shows "take m (take s v @ xs @ drop m v) = take s v @ xs"
    "drop m (take s v @ xs @ drop m v) = drop m v"
    "drop e (take s v @ xs @ drop m v) = drop e v"
  using assms by auto

lemma range_split3:
  assumes "s \<le> m" "m \<le> e" "e \<le> length v" "length xs = m - s" "length ys = e - m"
  shows "take s (take s v @ xs @ drop m v) = take s v"
    "take (m - s) (drop s (take s v @ xs @ ys @ drop e v)) = xs"
    "take (e - m) (drop m (take s v @ xs @ ys @ drop e v)) = ys"
    "drop e (take s v @ xs @ ys @ drop e v) = drop e v"
  using assms by auto

text \<open>
  For \<open>start \<le> stop \<le> v.size()\<close>, \<open>merge_sort(v, start, stop)\<close> stays in range, sorts exactly the
  elements of \<open>[start, stop)\<close> and leaves the rest of the vector as it was.
\<close>

lemma merge_sort_range:
  assumes "start \<le> stop" "stop \<le> length v"
  shows "merge_sort v start stop =
    Some (take start v @ sort (take (stop - start) (drop start v)) @ drop stop v)"
  using assms
proof (induction v start stop rule: merge_sort.induct)
  case (1 v start stop)
  show ?case
  proof (cases "start + 1 < stop")
    case False
    with "1.prems" have "stop = start \<or> stop = Suc start" by auto
    moreover have "v ! start # drop (Suc start) v = drop start v" if "stop = Suc start"
      using that "1.prems" by (simp add: Cons_nth_drop_Suc)
    ultimately show ?thesis
      using False "1.prems"
      by (subst merge_sort.simps) (auto simp: take_Suc_conv_app_nth hd_drop_conv_nth)
  next
    case True
    define m where "m = start + (stop - start) div 2"
    let ?xs = "take (m - start) (drop start v)" and ?ys = "take (stop - m) (drop m v)"
    have m: "start \<le> m" "m \<le> stop" using True by (auto simp: m_def)
    let ?v1 = "take start v @ sort ?xs @ drop m v"
    let ?v2 = "take start v @ sort ?xs @ sort ?ys @ drop stop v"
    have v1: "merge_sort v start m = Some ?v1"
      using "1.IH"(1) [OF True m_def] m "1.prems" by simp
    have lens: "length (sort ?xs) = m - start" "length (sort ?ys) = stop - m"
      and len2: "length ?v1 = length v" "length ?v2 = length v"
      using m "1.prems" by auto
    have v2: "merge_sort ?v1 m stop = Some ?v2"
      using "1.IH"(2) [OF True m_def v1] m "1.prems" len2
      by (simp add: range_split2 [OF m "1.prems"(2) lens(1)] del: append_assoc length_append)
    have parts: "stop - start = (m - start) + (stop - m)" using m by simp
    have whole: "take (stop - start) (drop start v) = ?xs @ ?ys"
      unfolding parts take_add using m by simp
    have "merge_ranges ?v2 start m stop =
        Some (take start v @ merge_lists (sort ?xs) (sort ?ys) @ drop stop v)"
      using merge_ranges_ok [of start m stop ?v2] m "1.prems" len2
      by (simp add: range_split3 [OF m "1.prems"(2) lens] del: length_append)
    then show ?thesis
      using True v1 v2 m_def by (subst merge_sort.simps) (simp add: Let_def merge_lists_sort whole)
  qed
qed

end
