(* ===== verification/SortHeap.thy ===== *)
theory SortHeap
  imports HeapTree
begin

text \<open>
  \<open>heap_sort\<close> of \<open>cpp/algorithm/lib/sort/sort.h\<close>. Its \<open>_heapify\<close> differs from the one in
  \<open>heap.h\<close>: it keeps walking down to a leaf even when no swap was needed.
\<close>

function hs_heapify :: "'a::linorder list \<Rightarrow> nat \<Rightarrow> nat \<Rightarrow> 'a list option" where
  "hs_heapify arr parent stop =
     (if 2 * parent + 1 < stop
      then do { child \<leftarrow> heap_pick_child (<) arr stop (2 * parent + 1);
                p \<leftarrow> vget arr parent;
                c \<leftarrow> vget arr child;
                arr' \<leftarrow> (if p < c then vswap arr parent child else Some arr);
                hs_heapify arr' child stop }
      else Some arr)"
  by pat_completeness auto
termination
  by (relation "measure (\<lambda>(arr, parent, stop). stop - parent)") (auto dest!: heap_pick_child_cases)

declare hs_heapify.simps [simp del]

text \<open>The loop \<open>for (i = n / 2 - 1; i >= 0; --i)\<close>; the argument is the number of rounds left.\<close>

primrec heap_build :: "'a::linorder list \<Rightarrow> nat \<Rightarrow> nat \<Rightarrow> 'a list option" where
  "heap_build arr n 0 = Some arr"
| "heap_build arr n (Suc i) = do { arr' \<leftarrow> hs_heapify arr i n; heap_build arr' n i }"

text \<open>The loop \<open>for (i = n - 1; i > 0; --i)\<close>.\<close>

primrec heap_extract :: "'a::linorder list \<Rightarrow> nat \<Rightarrow> 'a list option" where
  "heap_extract arr 0 = Some arr"
| "heap_extract arr (Suc i) =
     do { arr' \<leftarrow> vswap arr 0 (Suc i); arr'' \<leftarrow> hs_heapify arr' 0 (Suc i); heap_extract arr'' i }"

definition heap_sort :: "'a::linorder list \<Rightarrow> 'a list option" where
  "heap_sort arr =
     (let n = length arr in
      do { arr' \<leftarrow> heap_build arr n (n div 2); heap_extract arr' (n - 1) })"

lemma hs_heapify_ok:
  assumes "heap_down_hole (<) k n b parent" "k \<le> parent" "n \<le> length b"
  shows "\<exists>b'. hs_heapify b parent n = Some b' \<and> length b' = length b \<and>
    heap_ordered_from (<) k n b' \<and> mset (take n b') = mset (take n b) \<and> drop n b' = drop n b"
  using assms
proof (induction "n - parent" arbitrary: b parent rule: less_induct)
  case less
  show ?case
  proof (cases "2 * parent + 1 < n")
    case False
    then have "hs_heapify b parent n = Some b" by (subst hs_heapify.simps) simp
    moreover have "heap_ordered_from (<) k n b"
      using less.prems(1) False by (intro maxh.down_hole_done) (auto simp: parent_iff)
    ultimately show ?thesis by simp
  next
    case True
    obtain c where pick: "heap_pick_child (<) b n (2 * parent + 1) = Some c"
      and c: "c = 2 * parent + 1 \<or> c = 2 * parent + 2" "c < n"
      and best: "\<not> b ! c < b ! (2 * parent + 1)"
        "2 * parent + 2 < n \<Longrightarrow> \<not> b ! c < b ! (2 * parent + 2)"
      using maxh.pick_child_ok [OF True less.prems(3)] by auto
    have best': "\<not> b ! c < b ! i" if "i < n" "0 < i" "(i - 1) div 2 = parent" for i
      using that(1) best parent_iff [THEN iffD1, OF that(2,3)] by auto
    have pc: "parent < c" "k \<le> c" "n - c < n - parent" using c less.prems(2) by auto
    define w where "w = (if b ! parent < b ! c then swap_at b parent c else b)"
    have w: "length w = length b" "mset (take n w) = mset (take n b)" "drop n w = drop n b"
      "(if b ! parent < b ! c then vswap b parent c else Some b) = Some w"
      using pc c(2) less.prems(3) by (auto simp: w_def mset_take_swap_at)
    have "heap_down_hole (<) k n w c"
    proof (cases "b ! parent < b ! c")
      case True
      then show ?thesis
        using maxh.down_hole_step [OF less.prems(1,2) c less.prems(3) True best'] by (simp add: w_def)
    next
      case False
      then have "heap_ordered_from (<) k n b"
        by (intro maxh.down_hole_done [OF less.prems(1)] maxh.nlt_trans [OF False best'])
      then show ?thesis using False c(2) by (simp add: w_def maxh.ordered_from_hole)
    qed
    then obtain b' where "hs_heapify w c n = Some b'" "length b' = length w"
      "heap_ordered_from (<) k n b'" "mset (take n b') = mset (take n w)" "drop n b' = drop n w"
      using less.hyps [OF pc(3), of w] pc(2) less.prems(3) w(1) by auto
    moreover have "hs_heapify b parent n = hs_heapify w c n"
      using True pick pc c(2) less.prems(3) w(4) by (subst hs_heapify.simps) simp
    ultimately show ?thesis using w by simp
  qed
qed

lemma heap_ordered_from_weaken:
  "heap_ordered_from (<) (Suc k) n b \<Longrightarrow> heap_down_hole (<) k n (b :: 'a::linorder list) k"
  unfolding heap_ordered_from_def heap_down_hole_def using parent_less by fastforce

lemma heap_build_ok:
  assumes "heap_ordered_from (<) i n b" "n = length b"
  shows "\<exists>b'. heap_build b n i = Some b' \<and> mset b' = mset b \<and> heap_ordered (<) n b'"
  using assms
proof (induction i arbitrary: b)
  case 0
  then show ?case by (simp add: heap_ordered_from_0)
next
  case (Suc i)
  from hs_heapify_ok [OF heap_ordered_from_weaken [OF Suc.prems(1)]] Suc.prems(2)
  obtain b1 where b1: "hs_heapify b i n = Some b1" "length b1 = length b"
    "heap_ordered_from (<) i n b1" "mset b1 = mset b" by auto
  with Suc.IH [OF b1(3)] Suc.prems(2) show ?case by auto
qed

lemma heap_extract_ok:
  assumes "heap_ordered (<) (Suc i) b" "Suc i \<le> length b" "sorted (drop (Suc i) b)"
    "\<forall>x \<in> set (take (Suc i) b). \<forall>y \<in> set (drop (Suc i) b). x \<le> y"
  shows "heap_extract b i = Some (sort b)"
  using assms
proof (induction i arbitrary: b)
  case 0
  then have "sorted b" by (cases b) auto
  then show ?case by (simp add: sorted_sort_id)
next
  case (Suc i)
  let ?n = "Suc i" and ?s = "swap_at b 0 (Suc i)"
  have len: "0 < length b" "?n < length b" using Suc.prems(2) by auto
  have "?s ! j = b ! j" if "0 < j" "j < ?n" for j
    using that len by (simp add: nth_swap_at)
  then have "heap_down_hole (<) 0 ?n ?s 0"
    using Suc.prems(1) parent_less by (fastforce simp: heap_down_hole_def heap_ordered_def)
  from hs_heapify_ok [OF this] len obtain b' where b': "hs_heapify ?s 0 ?n = Some b'"
    "length b' = length b" "heap_ordered (<) ?n b'" "mset (take ?n b') = mset (take ?n ?s)"
    "drop ?n b' = drop ?n ?s"
    by (auto simp: heap_ordered_from_0)
  have dr: "drop ?n ?s = b ! 0 # drop (Suc ?n) b"
    using len by (simp add: Cons_nth_drop_Suc [symmetric] nth_swap_at)
  have tk: "mset (take (Suc ?n) b) = add_mset (b ! 0) (mset (take ?n ?s))"
    using len mset_take_swap_at [of 0 "Suc ?n" ?n b] take_Suc_conv_app_nth [of ?n ?s]
    by (simp add: nth_swap_at)
  have sub: "set (take (Suc ?n) b) = insert (b ! 0) (set (take ?n b'))"
    using tk b'(4) by (metis set_mset_add_mset_insert set_mset_mset)
  have top: "x \<le> b ! 0" if "x \<in> set (take (Suc ?n) b)" for x
    using that maxh.ordered_top [OF Suc.prems(1)] len
    by (fastforce simp: in_set_conv_nth not_less)
  have "sorted (drop ?n b')"
    using Suc.prems(3,4) sub by (auto simp: b'(5) dr)
  moreover have "\<forall>x \<in> set (take ?n b'). \<forall>y \<in> set (drop ?n b'). x \<le> y"
    using Suc.prems(4) sub top by (auto simp: b'(5) dr)
  ultimately have "heap_extract b' i = Some (sort b')"
    using Suc.IH [OF b'(3)] b'(2) len by simp
  moreover have "mset b' = mset b"
    using mset_take_drop_eq [OF b'(4,5)] len by simp
  then have "sort b' = sort b" by (rule sort_mset_cong)
  ultimately show ?case using b'(1) len by simp
qed

text \<open>
  \<open>heap_sort\<close> stays in range and sorts the vector.
\<close>

lemma heap_sort_sorts: "heap_sort v = Some (sort v)"
proof (cases "v = []")
  case True
  then show ?thesis by (simp add: heap_sort_def)
next
  case False
  let ?n = "length v"
  have "heap_ordered_from (<) (?n div 2) ?n v"
    unfolding heap_ordered_from_def by auto
  from heap_build_ok [OF this refl] obtain w where w: "heap_build v ?n (?n div 2) = Some w"
    "mset w = mset v" "heap_ordered (<) ?n w" by auto
  have len: "length w = ?n" using w(2) by (metis size_mset)
  have "heap_extract w (?n - 1) = Some (sort w)"
    using False w(3) len by (intro heap_extract_ok) auto
  then show ?thesis
    using w sort_mset_cong [OF w(2)] by (simp add: heap_sort_def)
qed

end
