(* ===== verification/SortQuick.thy ===== *)
theory SortQuick
  imports Prelude
begin

text \<open>
  \<open>quick_sort\<close> of \<open>cpp/algorithm/lib/sort/sort.h\<close>. The pivot index comes from the C library's
  \<open>rand()\<close>, which is a parameter here: a generator function over an arbitrary state. The pivot
  is stored in an \<open>int32_t\<close>, so the model is of vectors of \<open>int32_t\<close>.
\<close>

function qs_scan_right :: "int list \<Rightarrow> int \<Rightarrow> nat \<Rightarrow> nat \<Rightarrow> nat option" where
  "qs_scan_right arr val left right =
     (if left < right
      then do { x \<leftarrow> vget arr right;
                if val \<le> x then qs_scan_right arr val left (right - 1) else Some right }
      else Some right)"
  by pat_completeness auto
termination by (relation "measure (\<lambda>(arr, val, left, right). right)") auto

function qs_scan_left :: "int list \<Rightarrow> int \<Rightarrow> nat \<Rightarrow> nat \<Rightarrow> nat option" where
  "qs_scan_left arr val left right =
     (if left < right
      then do { x \<leftarrow> vget arr left;
                if x \<le> val then qs_scan_left arr val (Suc left) right else Some left }
      else Some left)"
  by pat_completeness auto
termination by (relation "measure (\<lambda>(arr, val, left, right). right - left)") auto

declare qs_scan_right.simps [simp del] qs_scan_left.simps [simp del]

lemma qs_scan_right_Some:
  "qs_scan_right arr val left right = Some r \<Longrightarrow> left \<le> right \<Longrightarrow>
     left \<le> r \<and> r \<le> right \<and> (left < r \<longrightarrow> r < length arr \<and> arr ! r < val) \<and>
     (\<forall>k. r < k \<longrightarrow> k \<le> right \<longrightarrow> val \<le> arr ! k)"
proof (induction arr val left right rule: qs_scan_right.induct)
  case (1 arr val left right)
  show ?case
  proof (cases "left < right \<and> right < length arr \<and> val \<le> arr ! right")
    case True
    then have "qs_scan_right arr val left (right - 1) = Some r"
      using "1.prems" by (subst (asm) qs_scan_right.simps) simp
    with True "1.IH" [of "arr ! right"] have
      IH: "left \<le> r \<and> r \<le> right - 1 \<and> (left < r \<longrightarrow> r < length arr \<and> arr ! r < val) \<and>
        (\<forall>k. r < k \<longrightarrow> k \<le> right - 1 \<longrightarrow> val \<le> arr ! k)"
      by auto
    have "val \<le> arr ! k" if "r < k" "k \<le> right" for k
      using IH that True by (cases "k = right") auto
    with IH show ?thesis by auto
  next
    case False
    then show ?thesis
      using "1.prems" by (subst (asm) qs_scan_right.simps) (auto split: if_splits bind_splits)
  qed
qed

lemma qs_scan_left_Some:
  "qs_scan_left arr val left right = Some l \<Longrightarrow> left \<le> right \<Longrightarrow>
     left \<le> l \<and> l \<le> right \<and> (l < right \<longrightarrow> l < length arr \<and> val < arr ! l) \<and>
     (\<forall>k. left \<le> k \<longrightarrow> k < l \<longrightarrow> arr ! k \<le> val)"
proof (induction arr val left right rule: qs_scan_left.induct)
  case (1 arr val left right)
  show ?case
  proof (cases "left < right \<and> left < length arr \<and> arr ! left \<le> val")
    case True
    then have "qs_scan_left arr val (Suc left) right = Some l"
      using "1.prems" by (subst (asm) qs_scan_left.simps) simp
    with True "1.IH" [of "arr ! left"] have
      IH: "Suc left \<le> l \<and> l \<le> right \<and> (l < right \<longrightarrow> l < length arr \<and> val < arr ! l) \<and>
        (\<forall>k. Suc left \<le> k \<longrightarrow> k < l \<longrightarrow> arr ! k \<le> val)"
      by auto
    have "arr ! k \<le> val" if "left \<le> k" "k < l" for k
      using IH that True by (cases "k = left") auto
    with IH show ?thesis by auto
  next
    case False
    then show ?thesis
      using "1.prems" by (subst (asm) qs_scan_left.simps) (auto split: if_splits bind_splits)
  qed
qed

lemma qs_scan_left_progress:
  assumes "qs_scan_left arr val left right = Some l" "left < right" "arr ! left \<le> val"
  shows "left < l"
  using qs_scan_left_Some [OF assms(1)] assms(2,3) by (cases "l = left") auto

text \<open>One round of the partition loop shrinks \<open>right - left\<close>.\<close>

lemma qs_round_decreases:
  assumes "left < right" "qs_scan_right arr val left right = Some r"
    "vswap arr left r = Some arr1" "qs_scan_left arr1 val left r = Some l"
  shows "r - l < right - left"
proof (cases "left < r")
  case True
  have "arr1 ! left = arr ! r" "arr ! r < val" "r \<le> right"
    using assms True qs_scan_right_Some [OF assms(2)] by (auto simp: nth_swap_at)
  then have "left < l" using qs_scan_left_progress [OF assms(4) True] by simp
  with \<open>r \<le> right\<close> assms(1) show ?thesis by simp
next
  case False
  with qs_scan_right_Some [OF assms(2)] assms(1) have "r = left" by simp
  with assms(1) qs_scan_left_Some [OF assms(4)] show ?thesis by simp
qed

function qs_loop :: "int list \<Rightarrow> int \<Rightarrow> nat \<Rightarrow> nat \<Rightarrow> (int list \<times> nat) option" where
  "qs_loop arr val left right =
     (if left < right
      then do { r \<leftarrow> qs_scan_right arr val left right;
                arr1 \<leftarrow> vswap arr left r;
                l \<leftarrow> qs_scan_left arr1 val left r;
                arr2 \<leftarrow> vswap arr1 l r;
                qs_loop arr2 val l r }
      else Some (arr, left))"
  by pat_completeness auto
termination
  by (relation "measure (\<lambda>(arr, val, left, right). right - left)")
     (simp_all only: in_measure case_prod_conv wf_measure qs_round_decreases)

declare qs_loop.simps [simp del]

definition qs_partition ::
    "('s \<Rightarrow> nat \<times> 's) \<Rightarrow> 's \<Rightarrow> int list \<Rightarrow> nat \<Rightarrow> nat \<Rightarrow> (int list \<times> nat \<times> 's) option" where
  "qs_partition rnd s arr left right =
     (let (r, s') = rnd s; index = left + r mod (right - left + 1) in
      do { arr1 \<leftarrow> vswap arr left index;
           val \<leftarrow> vget arr1 left;
           (arr2, m) \<leftarrow> qs_loop arr1 val left right;
           arr3 \<leftarrow> vset arr2 m val;
           Some (arr3, m, s') })"

lemma qs_loop_bounds:
  "qs_loop arr val left right = Some (arr', m) \<Longrightarrow> left \<le> right \<Longrightarrow> left \<le> m \<and> m \<le> right"
proof (induction arr val left right rule: qs_loop.induct)
  case (1 arr val left right)
  show ?case
  proof (cases "left < right")
    case True
    then obtain r arr1 l arr2 where st: "qs_scan_right arr val left right = Some r"
      "vswap arr left r = Some arr1" "qs_scan_left arr1 val left r = Some l"
      "vswap arr1 l r = Some arr2" "qs_loop arr2 val l r = Some (arr', m)"
      using "1.prems"(1) by (subst (asm) qs_loop.simps) (auto simp: Option.bind_eq_Some_conv)
    with qs_scan_right_Some [OF st(1)] qs_scan_left_Some [OF st(3)] True "1.IH" [OF True st(1-4)]
    show ?thesis by fastforce
  next
    case False
    with "1.prems" show ?thesis by (subst (asm) qs_loop.simps) simp
  qed
qed

lemma qs_partition_bounds:
  "qs_partition rnd s arr left right = Some (arr', m, s') \<Longrightarrow> left \<le> right \<Longrightarrow> left \<le> m \<and> m \<le> right"
  by (auto simp: qs_partition_def Option.bind_eq_Some_conv dest: qs_loop_bounds split: prod.splits)

function quick_sort ::
    "('s \<Rightarrow> nat \<times> 's) \<Rightarrow> 's \<Rightarrow> int list \<Rightarrow> nat \<Rightarrow> int \<Rightarrow> (int list \<times> 's) option" where
  "quick_sort rnd s arr start stop =
     (if int start < stop
      then do { (arr1, mid, s1) \<leftarrow> qs_partition rnd s arr start (nat stop);
                (arr2, s2) \<leftarrow> quick_sort rnd s1 arr1 start (int mid - 1);
                quick_sort rnd s2 arr2 (mid + 1) stop }
      else Some (arr, s))"
  by pat_completeness auto
termination
  by (relation "measure (\<lambda>(rnd, s, arr, start, stop). nat (stop + 1 - int start))")
     (auto dest!: qs_partition_bounds)

declare quick_sort.simps [simp del]

subsection \<open>The partition step\<close>

lemma qs_scan_right_ok: "right < length arr \<Longrightarrow> \<exists>r. qs_scan_right arr val left right = Some r"
proof (induction arr val left right rule: qs_scan_right.induct)
  case (1 arr val left right)
  then show ?case by (subst qs_scan_right.simps) auto
qed

lemma qs_scan_left_ok: "right < length arr \<Longrightarrow> \<exists>l. qs_scan_left arr val left right = Some l"
proof (induction arr val left right rule: qs_scan_left.induct)
  case (1 arr val left right)
  then show ?case by (subst qs_scan_left.simps) auto
qed

text \<open>What the loop keeps: the pivot value is at \<open>left\<close>, everything outside is on its side.\<close>

definition qs_inv :: "int list \<Rightarrow> int \<Rightarrow> nat \<Rightarrow> nat \<Rightarrow> nat \<Rightarrow> nat \<Rightarrow> bool" where
  "qs_inv arr val lo hi left right \<longleftrightarrow>
     lo \<le> left \<and> left \<le> right \<and> right \<le> hi \<and> hi < length arr \<and> arr ! left = val \<and>
     (\<forall>k. lo \<le> k \<longrightarrow> k < left \<longrightarrow> arr ! k \<le> val) \<and>
     (\<forall>k. right < k \<longrightarrow> k \<le> hi \<longrightarrow> val \<le> arr ! k)"

lemma qs_inv_round:
  assumes inv: "qs_inv arr val lo hi left right" and "left < right"
    and r: "qs_scan_right arr val left right = Some r"
    and l: "qs_scan_left (swap_at arr left r) val left r = Some l"
  shows "qs_inv (swap_at (swap_at arr left r) l r) val lo hi l r"
proof -
  let ?a = "swap_at arr left r"
  have R: "left \<le> r" "r \<le> right" "\<And>k. r < k \<Longrightarrow> k \<le> right \<Longrightarrow> val \<le> arr ! k"
    using qs_scan_right_Some [OF r] assms(2) by auto
  have L: "left \<le> l" "l \<le> r" "l < r \<Longrightarrow> val < ?a ! l" "\<And>k. left \<le> k \<Longrightarrow> k < l \<Longrightarrow> ?a ! k \<le> val"
    using qs_scan_left_Some [OF l] R by auto
  have I: "lo \<le> left" "right \<le> hi" "hi < length arr" "arr ! left = val"
    "\<And>k. lo \<le> k \<Longrightarrow> k < left \<Longrightarrow> arr ! k \<le> val" "\<And>k. right < k \<Longrightarrow> k \<le> hi \<Longrightarrow> val \<le> arr ! k"
    using inv by (auto simp: qs_inv_def)
  have nth: "swap_at ?a l r ! k = (if k = l then ?a ! r else if k = r then ?a ! l else ?a ! k)"
    "?a ! k = (if k = left then arr ! r else if k = r then arr ! left else arr ! k)"
    if "k \<le> hi" for k
    using that R L I by (simp_all add: nth_swap_at)
  have "?a ! r = val" using nth(2) [of r] I R by simp
  then have "swap_at ?a l r ! l = val" using nth(1) [of l] L R I by simp
  moreover have "swap_at ?a l r ! k \<le> val" if "lo \<le> k" "k < l" for k
    using that nth [of k] L(2) L(4) [of k] I(5) [of k] R I by (cases "left \<le> k") auto
  moreover have "val \<le> swap_at ?a l r ! k" if "r < k" "k \<le> hi" for k
    using that nth [of k] L R I by (cases "k \<le> right") auto
  ultimately show ?thesis
    using L R I by (simp add: qs_inv_def)
qed

lemma qs_loop_ok:
  assumes "qs_inv arr val lo hi left right"
  shows "\<exists>arr' m. qs_loop arr val left right = Some (arr', m) \<and> qs_inv arr' val lo hi m m \<and>
    length arr' = length arr \<and> take lo arr' = take lo arr \<and> drop (Suc hi) arr' = drop (Suc hi) arr \<and>
    mset arr' = mset arr"
  using assms
proof (induction arr val left right rule: qs_loop.induct)
  case (1 arr val left right)
  show ?case
  proof (cases "left < right")
    case False
    with "1.prems" have "left = right" by (simp add: qs_inv_def)
    with False "1.prems" show ?thesis by (subst qs_loop.simps) simp
  next
    case True
    have b: "lo \<le> left" "right \<le> hi" "hi < length arr" using "1.prems" by (auto simp: qs_inv_def)
    obtain r where r: "qs_scan_right arr val left right = Some r"
      using qs_scan_right_ok [of right arr val left] b by auto
    have R: "left \<le> r" "r \<le> right" using qs_scan_right_Some [OF r] True by auto
    let ?a = "swap_at arr left r"
    have a: "vswap arr left r = Some ?a" using R b by simp
    obtain l where l: "qs_scan_left ?a val left r = Some l"
      using qs_scan_left_ok [of r ?a val left] R b by auto
    have L: "left \<le> l" "l \<le> r" using qs_scan_left_Some [OF l] R by auto
    let ?w = "swap_at ?a l r"
    have w: "vswap ?a l r = Some ?w" using R L b by simp
    have "qs_loop arr val left right = qs_loop ?w val l r"
      using True r a l w by (subst qs_loop.simps) simp
    then show ?thesis
      using "1.IH" [OF True r a l w qs_inv_round [OF "1.prems" True r l]] R L b by simp
  qed
qed

lemma split_at_pivot:
  assumes "lo \<le> m" "m \<le> hi" "hi < length w"
  shows "w = take lo w @ take (m - lo) (drop lo w) @ [w ! m] @ take (hi - m) (drop (Suc m) w) @ drop (Suc hi) w"
proof -
  have "drop lo w = take (m - lo) (drop lo w) @ drop m w"
    using assms(1) append_take_drop_id [of "m - lo" "drop lo w"] by simp
  moreover have "drop m w = w ! m # drop (Suc m) w"
    using assms by (simp add: Cons_nth_drop_Suc)
  moreover have "drop (Suc m) w = take (hi - m) (drop (Suc m) w) @ drop (Suc hi) w"
    using assms(2) append_take_drop_id [of "hi - m" "drop (Suc m) w"] by simp
  ultimately show ?thesis
    by (metis append_Cons append_Nil append_assoc append_take_drop_id)
qed

lemma qs_partition_ok:
  assumes "lo \<le> hi" "hi < length arr"
  shows "\<exists>xs val ys s'. qs_partition rnd s arr lo hi =
      Some (take lo arr @ xs @ [val] @ ys @ drop (Suc hi) arr, lo + length xs, s') \<and>
    mset (xs @ [val] @ ys) = mset (take (Suc hi - lo) (drop lo arr)) \<and>
    (\<forall>x \<in> set xs. x \<le> val) \<and> (\<forall>y \<in> set ys. val \<le> y)"
proof -
  obtain q s' where q: "rnd s = (q, s')" by (cases "rnd s")
  let ?i = "lo + q mod (hi - lo + 1)"
  have "q mod (hi - lo + 1) < hi - lo + 1" by (rule mod_less_divisor) simp
  then have i: "?i \<le> hi" "lo \<le> ?i" using assms(1) by linarith+
  let ?a = "swap_at arr lo ?i"
  have "qs_inv ?a (?a ! lo) lo hi lo hi"
    using assms i by (simp add: qs_inv_def)
  then obtain w m where w: "qs_loop ?a (?a ! lo) lo hi = Some (w, m)" "qs_inv w (?a ! lo) lo hi m m"
    "length w = length arr" "take lo w = take lo arr" "drop (Suc hi) w = drop (Suc hi) arr" "mset w = mset arr"
    using qs_loop_ok [of ?a "?a ! lo" lo hi lo hi] i assms by auto
  have m: "lo \<le> m" "m \<le> hi" "w ! m = ?a ! lo"
    "\<And>k. lo \<le> k \<Longrightarrow> k < m \<Longrightarrow> w ! k \<le> w ! m" "\<And>k. m < k \<Longrightarrow> k \<le> hi \<Longrightarrow> w ! m \<le> w ! k"
    using w(2) by (auto simp: qs_inv_def)
  let ?xs = "take (m - lo) (drop lo w)" and ?ys = "take (hi - m) (drop (Suc m) w)"
  have split: "w = take lo arr @ ?xs @ [w ! m] @ ?ys @ drop (Suc hi) arr"
    using split_at_pivot [of lo m hi w] m(1,2) assms(2) w(3-5) by metis
  have "arr = take lo arr @ take (Suc hi - lo) (drop lo arr) @ drop (Suc hi) arr"
    using assms append_take_drop_id [of "Suc hi - lo" "drop lo arr"] by simp
  then have "mset (?xs @ [w ! m] @ ?ys) = mset (take (Suc hi - lo) (drop lo arr))"
    using w(6) split by (metis mset_append union_assoc add_left_cancel add_right_cancel)
  moreover have "\<forall>x \<in> set ?xs. x \<le> w ! m"
    using m assms(2) w(3) by (auto simp: in_set_conv_nth)
  moreover have "\<forall>y \<in> set ?ys. w ! m \<le> y"
    using m assms(2) w(3) by (auto simp: in_set_conv_nth)
  moreover have "w[m := ?a ! lo] = w" using m(3) by (metis list_update_id)
  then have "qs_partition rnd s arr lo hi = Some (w, m, s')"
    using q i assms w(1,3) m by (simp add: qs_partition_def Let_def)
  moreover have "m = lo + length ?xs" using m assms(2) w(3) by simp
  ultimately show ?thesis using split by metis
qed

lemma sort_around_pivot:
  assumes "\<forall>x \<in> set xs. x \<le> val" "\<forall>y \<in> set ys. val \<le> (y::'a::linorder)"
  shows "sort (xs @ [val] @ ys) = sort xs @ [val] @ sort ys"
  using assms by (intro properties_for_sort) (auto simp: sorted_append intro: order_trans)

text \<open>
  For \<open>0 \<le> start \<le> stop + 1 \<le> arr.size()\<close> and any random generator, \<open>quick_sort(arr, start, stop)\<close>
  terminates, stays in range, sorts exactly the closed range \<open>[start, stop]\<close> and leaves the rest of
  the vector as it was.
\<close>

lemma quick_sort_range:
  assumes "int start \<le> stop + 1" "stop + 1 \<le> int (length arr)"
  shows "\<exists>s'. quick_sort rnd s arr start stop =
    Some (take start arr @ sort (take (nat (stop + 1) - start) (drop start arr)) @ drop (nat (stop + 1)) arr, s')"
  using assms
proof (induction rnd s arr start stop rule: quick_sort.induct)
  case (1 rnd s arr start stop)
  show ?case
  proof (cases "int start < stop")
    case False
    have "nat (stop + 1) = start \<or> nat (stop + 1) = Suc start" using False "1.prems" by linarith
    moreover have "start < length arr" if "nat (stop + 1) = Suc start" using that "1.prems" by linarith
    ultimately show ?thesis
      using False by (subst quick_sort.simps)
        (auto simp: take_Suc_conv_app_nth hd_drop_conv_nth Cons_nth_drop_Suc)
  next
    case True
    let ?n = "nat stop"
    have n: "start \<le> ?n" "?n < length arr" "nat (stop + 1) = Suc ?n" using True "1.prems" by linarith+
    obtain xs val ys s1 where
      P: "qs_partition rnd s arr start ?n =
          Some (take start arr @ xs @ [val] @ ys @ drop (Suc ?n) arr, start + length xs, s1)"
      and M: "mset (xs @ [val] @ ys) = mset (take (Suc ?n - start) (drop start arr))"
      and o: "\<forall>x \<in> set xs. x \<le> val" "\<forall>y \<in> set ys. val \<le> y"
      using qs_partition_ok [OF n(1,2), of rnd s] by blast
    let ?pre = "take start arr" and ?post = "drop (Suc ?n) arr"
    let ?v1 = "?pre @ xs @ [val] @ ys @ ?post" and ?mid = "start + length xs"
    have pre: "length ?pre = start" using n by simp
    have seg: "length xs + 1 + length ys = Suc ?n - start"
      using M n by (metis size_mset length_append length_Cons length_drop length_take list.size(3)
          min.absorb2 add.assoc diff_le_mono Suc_leI One_nat_def plus_1_eq_Suc)
    have len1: "length ?v1 = length arr" using seg n by simp
    have "int start \<le> int ?mid - 1 + 1" "int ?mid - 1 + 1 \<le> int (length ?v1)"
      using len1 seg n by linarith+
    from "1.IH"(1) [OF True P refl refl this] obtain s2 where
      s2: "quick_sort rnd s1 ?v1 start (int ?mid - 1) = Some (?pre @ sort xs @ [val] @ ys @ ?post, s2)"
      using pre by auto
    let ?v2 = "?pre @ sort xs @ [val] @ ys @ ?post"
    have "int (?mid + 1) \<le> stop + 1" "stop + 1 \<le> int (length ?v2)"
      using seg n len1 True by auto
    from "1.IH"(2) [OF True P refl refl s2 refl this] obtain s3 where
      "quick_sort rnd s2 ?v2 (?mid + 1) stop = Some (take (?mid + 1) ?v2 @
         sort (take (nat (stop + 1) - (?mid + 1)) (drop (?mid + 1) ?v2)) @ drop (nat (stop + 1)) ?v2, s3)"
      by auto
    moreover have "nat (stop + 1) = start + length xs + Suc (length ys)" using seg n by linarith
    then have "take (?mid + 1) ?v2 = ?pre @ sort xs @ [val]"
      "take (nat (stop + 1) - (?mid + 1)) (drop (?mid + 1) ?v2) = ys"
      "drop (nat (stop + 1)) ?v2 = ?post"
      using pre by simp_all
    ultimately have "quick_sort rnd s2 ?v2 (?mid + 1) stop =
        Some (?pre @ (sort xs @ [val] @ sort ys) @ ?post, s3)"
      by simp
    moreover have "sort xs @ [val] @ sort ys = sort (take (nat (stop + 1) - start) (drop start arr))"
      using sort_around_pivot [OF o] sort_mset_cong [OF M] n by simp
    ultimately show ?thesis
      using True P s2 n by (subst quick_sort.simps) (auto simp del: append_assoc)
  qed
qed

end
