(* ===== verification/MathPow.thy ===== *)
theory MathPow
  imports Prelude
begin

text \<open>
  \<open>bin_pow\<close> of \<open>cpp/algorithm/lib/math/math.cc\<close> (the same loop is the \<open>_quick_pow\<close> of
  \<open>radix_sort\<close>) and \<open>permutation\<close> of \<open>cpp/algorithm/lib/math/combine_number/permutation.h\<close>.
  All arithmetic is on \<open>int64_t\<close>; an overflow is undefined behaviour and gives \<open>None\<close>.
\<close>

function bin_pow_loop :: "int \<Rightarrow> int \<Rightarrow> int \<Rightarrow> int option" where
  "bin_pow_loop result v p =
     (if p > 0
      then do { result' \<leftarrow> (if odd p then i64_mul result v else Some result);
                v' \<leftarrow> i64_mul v v;
                bin_pow_loop result' v' (p div 2) }
      else Some result)"
  by pat_completeness auto
termination by (relation "measure (\<lambda>(result, v, p). nat p)") auto

declare bin_pow_loop.simps [simp del]

definition bin_pow :: "int \<Rightarrow> int \<Rightarrow> int option" where
  "bin_pow v p = bin_pow_loop 1 v p"

fun permutation :: "int \<Rightarrow> nat \<Rightarrow> int option" where
  "permutation n 0 = Some 1"
| "permutation n (Suc m) =
     (if n = int (Suc m) then Some 1
      else do { c \<leftarrow> permutation n m;
                x \<leftarrow> i64_mul c (n - int (Suc m) + 1);
                Some (cdiv x (int (Suc m))) })"

lemma bin_pow_loop_ok:
  assumes "\<bar>result\<bar> * \<bar>v\<bar> ^ (2 * nat p) < 2 ^ 63" "0 < \<bar>result\<bar>" "0 < \<bar>v\<bar>" "0 \<le> p"
  shows "bin_pow_loop result v p = Some (result * v ^ nat p)"
  using assms
proof (induction result v p rule: bin_pow_loop.induct)
  case (1 result v p)
  show ?case
  proof (cases "p > 0")
    case False
    with "1.prems" show ?thesis by (subst bin_pow_loop.simps) simp
  next
    case True
    define k where "k = nat (p div 2)"
    have p: "nat p = 2 * k + (if odd p then 1 else 0)"
      using True by (auto simp: k_def elim!: oddE evenE)
    have v1: "1 \<le> \<bar>v\<bar>" and r1: "1 \<le> \<bar>result\<bar>" using "1.prems" by auto
    have mono: "\<bar>v\<bar> ^ i \<le> \<bar>v\<bar> ^ (2 * nat p)" if "i \<le> 2 * nat p" for i
      using v1 that by (intro power_increasing) auto
    have sub: "\<bar>result\<bar> * \<bar>v\<bar> ^ i < 2 ^ 63" if "i \<le> 2 * nat p" for i
      using mult_left_mono [OF mono [OF that], of "\<bar>result\<bar>"] "1.prems"(1) by linarith
    have "\<bar>v\<bar> ^ 2 \<le> \<bar>result\<bar> * \<bar>v\<bar> ^ 2"
      using r1 mult_right_mono [of 1 "\<bar>result\<bar>" "\<bar>v\<bar> ^ 2"] by simp
    moreover have "\<bar>result\<bar> * \<bar>v\<bar> ^ 2 < 2 ^ 63" using sub [of 2] True by simp
    ultimately have "v * v < 2 ^ 63" "0 \<le> v * v" by (simp_all add: power2_eq_square)
    then have vv: "i64_mul v v = Some (v * v)"
      unfolding i64_mul_def i64_range_def by (simp add: order_trans [of _ 0])
    let ?r = "if odd p then result * v else result"
    have rv: "(if odd p then i64_mul result v else Some result) = Some ?r"
    proof -
      have "\<bar>result * v\<bar> < 2 ^ 63" using sub [of 1] True by (simp add: abs_mult)
      then show ?thesis by (simp add: i64_mul_def i64_range_def abs_less_iff)
    qed
    have expo: "\<bar>?r\<bar> * \<bar>v * v\<bar> ^ (2 * k) = \<bar>result\<bar> * \<bar>v\<bar> ^ (4 * k + (if odd p then 1 else 0))"
    proof -
      have "2 * k + 2 * k = 4 * k" by simp
      then have "\<bar>v * v\<bar> ^ (2 * k) = \<bar>v\<bar> ^ (4 * k)"
        by (simp only: abs_mult power_mult_distrib power_add [symmetric])
      then show ?thesis by (simp only: abs_mult power_add split: if_splits) simp
    qed
    have "\<bar>?r\<bar> * \<bar>v * v\<bar> ^ (2 * nat (p div 2)) < 2 ^ 63"
      using sub [of "4 * k + (if odd p then 1 else 0)"] p expo unfolding k_def [symmetric] by auto
    moreover have "0 < \<bar>?r\<bar>" "0 < \<bar>v * v\<bar>" "0 \<le> p div 2"
      using "1.prems" True by (simp_all only: zero_less_abs_iff mult_eq_0_iff split: if_splits) auto
    ultimately have "bin_pow_loop ?r (v * v) (p div 2) = Some (?r * (v * v) ^ k)"
      unfolding k_def by (rule "1.IH" [OF True rv vv])
    moreover have "?r * (v * v) ^ k = result * v ^ nat p"
      by (simp add: p power_add power_mult power2_eq_square)
    ultimately show ?thesis
      using True rv vv by (subst bin_pow_loop.simps) simp
  qed
qed

text \<open>
  \<open>bin_pow(v, p)\<close> returns \<open>v\<^sup>p\<close> without overflow whenever the last square the loop computes, at most \<open>v\<close> to the
  power \<open>2 p\<close>, fits in 64 bits.
\<close>

lemma bin_pow_ok: "0 \<le> p \<Longrightarrow> v \<noteq> 0 \<Longrightarrow> \<bar>v\<bar> ^ (2 * nat p) < 2 ^ 63 \<Longrightarrow> bin_pow v p = Some (v ^ nat p)"
  unfolding bin_pow_def using bin_pow_loop_ok [of 1 v p] by simp

text \<open>Each step of \<open>permutation\<close> multiplies before it divides, and the division is exact.\<close>

lemma permutation_ok:
  assumes "m \<le> n" "\<forall>j \<le> m. int (n choose j) * int n < 2 ^ 63"
  shows "permutation (int n) m = Some (int (n choose m))"
  using assms
proof (induction m)
  case 0
  then show ?case by simp
next
  case (Suc m)
  show ?case
  proof (cases "n = Suc m")
    case True
    then show ?thesis by simp
  next
    case False
    then have lt: "Suc m < n" using Suc.prems by simp
    have IH: "permutation (int n) m = Some (int (n choose m))" using Suc by auto
    have eq: "int n - int (Suc m) + 1 = int (n - m)" using lt by simp
    have absorb: "(n choose m) * (n - m) = Suc m * (n choose Suc m)"
      using binomial_absorb_comp [of n m] binomial_absorption [of m n]
      by (metis Suc_times_binomial_add add_diff_inverse_nat binomial_absorb_comp binomial_symmetric lt mult.commute not_less_eq order.asym times_binomial_minus1_eq)
    have "(n choose m) * (n - m) \<le> (n choose m) * n" by simp
    moreover have "int (n choose m) * int n < 2 ^ 63" using Suc.prems by simp
    ultimately have "int ((n choose m) * (n - m)) < 2 ^ 63"
      by (metis of_nat_le_iff of_nat_mult order_le_less_trans)
    then have "i64_mul (int (n choose m)) (int n - int (Suc m) + 1) = Some (int (Suc m * (n choose Suc m)))"
      unfolding eq absorb [symmetric] i64_mul_def i64_range_def
      using order_trans [of "- (2 ^ 63)" 0 "int (n choose m) * int (n - m)"] by simp
    moreover have "cdiv (int (Suc m * (n choose Suc m))) (int (Suc m)) = int (n choose Suc m)"
    proof -
      have "cdiv (int (Suc m * (n choose Suc m))) (int (Suc m)) = int (Suc m * (n choose Suc m)) div int (Suc m)"
        by (rule cdiv_nonneg) simp_all
      also have "\<dots> = int (Suc m * (n choose Suc m) div Suc m)" by (simp only: zdiv_int)
      also have "\<dots> = int (n choose Suc m)" 
        using nonzero_mult_div_cancel_left [of "Suc m" "n choose Suc m"] by (simp del: mult_Suc)
      finally show ?thesis .
    qed
    ultimately show ?thesis
      using IH False by simp
  qed
qed

end
