(* ===== verification/SortCount.thy ===== *)
theory SortCount
  imports SortBasic MathPow
begin

text \<open>
  The distribution sorts of \<open>cpp/algorithm/lib/sort/sort.h\<close>: \<open>counting_sort\<close>, \<open>radix_sort\<close>
  (whose inner stable sort is a counting sort on one decimal digit) and \<open>bucket_sort\<close>.
  Keys are signed and index a vector, so a negative key is an access out of range.
\<close>

subsection \<open>The three counting loops\<close>

primrec cs_count :: "('a \<Rightarrow> int) \<Rightarrow> 'a list \<Rightarrow> int list \<Rightarrow> int list option" where
  "cs_count key [] c = Some c"
| "cs_count key (x # xs) c =
     do { n \<leftarrow> ivget c (key x); c' \<leftarrow> ivset c (key x) (n + 1); cs_count key xs c' }"

function cs_prefix :: "int list \<Rightarrow> nat \<Rightarrow> nat \<Rightarrow> int list option" where
  "cs_prefix c i n =
     (if i < n
      then do { a \<leftarrow> vget c i; b \<leftarrow> vget c (i - 1); c' \<leftarrow> vset c i (a + b); cs_prefix c' (Suc i) n }
      else Some c)"
  by pat_completeness auto
termination by (relation "measure (\<lambda>(c, i, n). n - i)") auto

declare cs_prefix.simps [simp del]

text \<open>The placing loop runs from the last element of the copy to the first.\<close>

primrec cs_place :: "('a \<Rightarrow> int) \<Rightarrow> 'a list \<Rightarrow> int list \<Rightarrow> 'a list \<Rightarrow> 'a list option" where
  "cs_place key [] c v = Some v"
| "cs_place key (x # xs) c v =
     do { p \<leftarrow> ivget c (key x);
          v' \<leftarrow> ivset v (p - 1) x;
          q \<leftarrow> ivget c (key x);
          c' \<leftarrow> ivset c (key x) (q - 1);
          cs_place key xs c' v' }"

definition cs_sort :: "('a \<Rightarrow> int) \<Rightarrow> nat \<Rightarrow> 'a list \<Rightarrow> 'a list option" where
  "cs_sort key K v =
     do { c \<leftarrow> cs_count key v (replicate K 0);
          c' \<leftarrow> cs_prefix c 1 (length c);
          cs_place key (rev v) c' v }"

text \<open>A vector of negative size cannot be constructed.\<close>

definition counting_sort :: "int list \<Rightarrow> int \<Rightarrow> int list option" where
  "counting_sort v max_value =
     (if max_value + 1 < 0 then None else cs_sort (\<lambda>x. x) (nat (max_value + 1)) v)"

subsection \<open>Radix sort\<close>

definition radix_fn :: "int \<Rightarrow> int \<Rightarrow> int option" where
  "radix_fn value i =
     do { val \<leftarrow> (if i = 0 then Some 1 else map_option (signed_take_bit 31) (bin_pow 10 i));
          if val = 0 then None else Some (cmod (cdiv value val) 10) }"

definition radix_stable_sort :: "int \<Rightarrow> int list \<Rightarrow> int list option" where
  "radix_stable_sort idx v =
     (if \<forall>x \<in> set v. radix_fn x idx \<noteq> None then cs_sort (\<lambda>x. the (radix_fn x idx)) 11 v else None)"

function radix_digits :: "int \<Rightarrow> nat \<Rightarrow> nat" where
  "radix_digits m d = (if m = 0 then d else radix_digits (cdiv m 10) (Suc d))"
  by pat_completeness auto
termination
proof (relation "measure (\<lambda>(m, d). nat \<bar>m\<bar>)")
  fix m :: int and d :: nat
  assume "m \<noteq> 0"
  then have "\<bar>cdiv m 10\<bar> < \<bar>m\<bar>" by (auto simp: cdiv_def abs_mult)
  then show "((cdiv m 10, Suc d), m, d) \<in> measure (\<lambda>(m, d). nat \<bar>m\<bar>)" by auto
qed auto

declare radix_digits.simps [simp del]

function radix_passes :: "int \<Rightarrow> int \<Rightarrow> int list \<Rightarrow> int list option" where
  "radix_passes i d v =
     (if i < d then do { v' \<leftarrow> radix_stable_sort i v; radix_passes (i + 1) d v' } else Some v)"
  by pat_completeness auto
termination by (relation "measure (\<lambda>(i, d, v). nat (d - i))") auto

declare radix_passes.simps [simp del]

definition radix_sort :: "int list \<Rightarrow> int \<Rightarrow> int list option" where
  "radix_sort v d =
     radix_passes 0 (if d = 0 then int (radix_digits (fold max v 0) 0) else d) v"

subsection \<open>Bucket sort\<close>

primrec bucket_fill :: "int \<Rightarrow> int list \<Rightarrow> int list list \<Rightarrow> int list list option" where
  "bucket_fill bucket_size [] bs = Some bs"
| "bucket_fill bucket_size (x # xs) bs =
     do { b \<leftarrow> ivget bs (cmod x bucket_size);
          bs' \<leftarrow> ivset bs (cmod x bucket_size) (b @ [x]);
          bucket_fill bucket_size xs bs' }"

primrec bucket_write :: "int list \<Rightarrow> nat \<Rightarrow> int list \<Rightarrow> (int list \<times> nat) option" where
  "bucket_write [] idx v = Some (v, idx)"
| "bucket_write (x # xs) idx v = do { v' \<leftarrow> vset v idx x; bucket_write xs (Suc idx) v' }"

primrec bucket_collect :: "int list list \<Rightarrow> nat \<Rightarrow> int list \<Rightarrow> int list option" where
  "bucket_collect [] idx v = Some v"
| "bucket_collect (b # bs) idx v =
     do { b' \<leftarrow> insert_sort b; (v', idx') \<leftarrow> bucket_write b' idx v; bucket_collect bs idx' v' }"

definition bucket_sort :: "int list \<Rightarrow> int \<Rightarrow> int list option" where
  "bucket_sort v bucket_size =
     (if bucket_size < 0 then None
      else do { bs \<leftarrow> bucket_fill bucket_size v (replicate (nat bucket_size) []);
                bucket_collect bs 0 v })"

subsection \<open>Counting sort is the stable sort by key\<close>

definition key_count :: "('a \<Rightarrow> int) \<Rightarrow> 'a list \<Rightarrow> nat \<Rightarrow> int" where
  "key_count key xs k = int (length (filter (\<lambda>x. key x = int k) xs))"

definition key_below :: "('a \<Rightarrow> int) \<Rightarrow> 'a list \<Rightarrow> nat \<Rightarrow> int" where
  "key_below key xs k = int (length (filter (\<lambda>x. key x < int k) xs))"

lemma cs_count_ok:
  assumes "\<forall>x \<in> set xs. 0 \<le> key x \<and> key x < int (length c)"
  shows "\<exists>c'. cs_count key xs c = Some c' \<and> length c' = length c \<and>
    (\<forall>k<length c. c' ! k = c ! k + key_count key xs k)"
  using assms
proof (induction xs arbitrary: c)
  case Nil
  then show ?case by (simp add: key_count_def)
next
  case (Cons x xs)
  let ?k = "nat (key x)"
  have k: "0 \<le> key x" "?k < length c" using Cons.prems by auto
  from Cons.IH [of "c[?k := c ! ?k + 1]"] Cons.prems obtain c' where
    c': "cs_count key xs (c[?k := c ! ?k + 1]) = Some c'" "length c' = length c"
      "\<forall>k<length c. c' ! k = c[?k := c ! ?k + 1] ! k + key_count key xs k"
    by auto
  moreover have "cs_count key (x # xs) c = Some c'" using k c'(1) by simp
  moreover have "c' ! k' = c ! k' + key_count key (x # xs) k'" if "k' < length c" for k'
    using c'(3) that k by (auto simp: key_count_def nth_list_update)
  ultimately show ?case by auto
qed

lemma key_below_Suc: "key_below key xs (Suc k) = key_below key xs k + key_count key xs k"
proof -
  have "filter (\<lambda>x. key x < int (Suc k)) xs = filter (\<lambda>x. key x < int k \<or> key x = int k) xs"
    by (intro filter_cong) auto
  moreover have "int (length (filter (\<lambda>x. key x < int k \<or> key x = int k) xs)) =
      key_below key xs k + key_count key xs k"
    unfolding key_below_def key_count_def by (induction xs) auto
  ultimately show ?thesis by (simp add: key_below_def)
qed

lemma key_below_0: "\<forall>x \<in> set xs. 0 \<le> key x \<Longrightarrow> key_below key xs 0 = 0"
  by (auto simp: key_below_def filter_empty_conv)

lemma cs_prefix_ok:
  assumes "0 < i" "i \<le> n" "n = length c"
    "\<forall>k<i. c ! k = key_below key xs (Suc k)" "\<forall>k. i \<le> k \<longrightarrow> k < n \<longrightarrow> c ! k = key_count key xs k"
  shows "\<exists>c'. cs_prefix c i n = Some c' \<and> length c' = n \<and> (\<forall>k<n. c' ! k = key_below key xs (Suc k))"
  using assms
proof (induction c i n rule: cs_prefix.induct)
  case (1 c i n)
  show ?case
  proof (cases "i < n")
    case False
    with "1.prems" show ?thesis by (subst cs_prefix.simps) auto
  next
    case True
    let ?c = "c[i := c ! i + c ! (i - 1)]"
    have "c ! i + c ! (i - 1) = key_below key xs (Suc i)"
      using "1.prems" True by (simp add: key_below_Suc [of key xs i])
    then have "\<exists>c'. cs_prefix ?c (Suc i) n = Some c' \<and> length c' = n \<and>
        (\<forall>k<n. c' ! k = key_below key xs (Suc k))"
      using "1.prems" True by (intro "1.IH" [of "c ! i" "c ! (i - 1)"]) (auto simp: nth_list_update less_Suc_eq)
    moreover have "cs_prefix c i n = cs_prefix ?c (Suc i) n"
      using "1.prems" True by (subst cs_prefix.simps) simp
    ultimately show ?thesis by simp
  qed
qed

lemma sorted_key_split:
  assumes "sorted (map key zs)"
  shows "zs = filter (\<lambda>x. key x < k) zs @ filter (\<lambda>x. key x = k) zs @ filter (\<lambda>x. k < key x) zs"
  using assms
proof (induction zs)
  case Nil
  then show ?case by simp
next
  case (Cons z zs)
  then have tl: "zs = filter (\<lambda>x. key x < k) zs @ filter (\<lambda>x. key x = k) zs @ filter (\<lambda>x. k < key x) zs"
    and le: "\<And>y. y \<in> set zs \<Longrightarrow> key z \<le> key y" by auto
  have none: "k \<le> key z \<Longrightarrow> filter (\<lambda>x. key x < k) zs = []" "k < key z \<Longrightarrow> filter (\<lambda>x. key x = k) zs = []"
    using le by (fastforce simp: filter_empty_conv)+
  show ?case
    using tl none by (cases "key z < k"; cases "key z = k") auto
qed

lemma sort_key_nth:
  assumes "r < length (filter (\<lambda>x. key x = int k) xs)"
  shows "sort_key key xs ! (nat (key_below key xs k) + r) = filter (\<lambda>x. key x = int k) xs ! r"
    "nat (key_below key xs k) + r < length xs"
proof -
  let ?zs = "sort_key key xs"
  have split: "?zs = filter (\<lambda>x. key x < int k) ?zs @ filter (\<lambda>x. key x = int k) ?zs @ filter (\<lambda>x. int k < key x) ?zs"
    by (rule sorted_key_split) simp
  have st: "filter (\<lambda>x. key x = int k) ?zs = filter (\<lambda>x. key x = int k) xs"
    by (rule sort_key_stable)
  have "mset (filter (\<lambda>x. key x < int k) ?zs) = mset (filter (\<lambda>x. key x < int k) xs)"
    by (simp add: mset_filter)
  then have len: "length (filter (\<lambda>x. key x < int k) ?zs) = nat (key_below key xs k)"
    by (metis key_below_def nat_int size_mset)
  show "?zs ! (nat (key_below key xs k) + r) = filter (\<lambda>x. key x = int k) xs ! r"
    using assms by (subst split) (simp add: nth_append len st)
  show "nat (key_below key xs k) + r < length xs"
  proof -
    have "length xs = length (filter (\<lambda>x. key x < int k) ?zs) + length (filter (\<lambda>x. key x = int k) ?zs) +
        length (filter (\<lambda>x. int k < key x) ?zs)"
      using arg_cong [OF split, of length] by simp
    with assms st len show ?thesis by simp
  qed
qed

lemma cs_place_ok:
  assumes "\<forall>x \<in> set xs. 0 \<le> key x \<and> key x < int (length c)" "length v = length xs"
    and ys: "xs = ys @ zs"
    and cnt: "\<forall>k<length c. c ! k = key_below key xs k + key_count key ys k"
    and plcd: "\<forall>k<length c. \<forall>p. c ! k \<le> int p \<longrightarrow> int p < key_below key xs (Suc k) \<longrightarrow>
      v ! p = sort_key key xs ! p"
  shows "\<exists>v'. cs_place key (rev ys) c v = Some v' \<and> length v' = length xs \<and>
    (\<forall>k<length c. \<forall>p. key_below key xs k \<le> int p \<longrightarrow> int p < key_below key xs (Suc k) \<longrightarrow>
      v' ! p = sort_key key xs ! p)"
  using assms
proof (induction ys arbitrary: zs c v rule: rev_induct)
  case Nil
  then show ?case by (simp add: key_count_def)
next
  case (snoc x ys)
  let ?k = "nat (key x)"
  have k: "0 \<le> key x" "?k < length c" using snoc.prems(1,3) by auto
  have cx: "c ! ?k = key_below key xs ?k + key_count key ys ?k + 1"
    using snoc.prems(4) k by (simp add: key_count_def)
  have nn: "0 \<le> key_below key xs ?k" "0 \<le> key_count key ys ?k"
    by (simp_all add: key_below_def key_count_def)
  define r where "r = length (filter (\<lambda>y. key y = int ?k) ys)"
  have r: "key_count key ys ?k = int r" by (simp add: r_def key_count_def)
  have fx: "filter (\<lambda>y. key y = int ?k) xs = filter (\<lambda>y. key y = int ?k) ys @ x # filter (\<lambda>y. key y = int ?k) zs"
    using snoc.prems(3) k by simp
  have pos: "sort_key key xs ! (nat (key_below key xs ?k) + r) = x" "nat (key_below key xs ?k) + r < length xs"
    using sort_key_nth [of r key ?k xs] unfolding fx r_def by (simp_all add: nth_append)
  let ?p = "nat (key_below key xs ?k) + r"
  have p: "nat (c ! ?k - 1) = ?p" "0 \<le> c ! ?k - 1" "c ! ?k - 1 = int ?p"
    using cx r nn by auto
  let ?c = "c[?k := c ! ?k - 1]" and ?v = "v[?p := x]"
  have step: "cs_place key (rev (ys @ [x])) c v = cs_place key (rev ys) ?c ?v"
    using k p pos(2) snoc.prems(2) by simp
  have cnt': "?c ! j = key_below key xs j + key_count key ys j" if "j < length c" for j
    using snoc.prems(4) that k cx by (cases "j = ?k") (auto simp: key_count_def)
  have plcd': "?v ! p = sort_key key xs ! p"
    if "j < length c" "?c ! j \<le> int p" "int p < key_below key xs (Suc j)" for j p
  proof (cases "p = ?p")
    case True
    then show ?thesis using pos snoc.prems(2) by simp
  next
    case False
    have "c ! j \<le> int p"
    proof (cases "j = ?k")
      case True
      then have "c ! ?k - 1 \<le> int p" using that(2) k(2) by simp
      then show ?thesis unfolding True using p(3) False by linarith
    next
      case False
      then show ?thesis using that by simp
    qed
    then show ?thesis using snoc.prems(5) that False by simp
  qed
  have "\<exists>v'. cs_place key (rev ys) ?c ?v = Some v' \<and> length v' = length xs \<and>
      (\<forall>k<length ?c. \<forall>p. key_below key xs k \<le> int p \<longrightarrow> int p < key_below key xs (Suc k) \<longrightarrow>
        v' ! p = sort_key key xs ! p)"
    by (rule snoc.IH [of ?c ?v "x # zs"]) (use snoc.prems cnt' plcd' in auto)
  then show ?case unfolding step by simp
qed

lemma key_below_cover:
  assumes "p < length xs" "\<forall>x \<in> set xs. 0 \<le> key x \<and> key x < int K"
  shows "\<exists>k<K. key_below key xs k \<le> int p \<and> int p < key_below key xs (Suc k)"
proof -
  have top: "key_below key xs K = int (length xs)"
    using assms(2) by (simp add: key_below_def)
  have bot: "key_below key xs 0 = 0" using assms(2) by (intro key_below_0) auto
  let ?P = "\<lambda>k. int p < key_below key xs k"
  define k where "k = (LEAST k. ?P k)"
  have "?P K" using top assms(1) by simp
  then have Pk: "?P k" and kK: "k \<le> K" unfolding k_def by (auto intro: LeastI Least_le)
  have "k \<noteq> 0" using Pk bot by (metis of_nat_less_0_iff)
  then obtain j where j: "k = Suc j" by (cases k) auto
  then have "\<not> ?P j" unfolding k_def by (metis lessI not_less_Least)
  with Pk j kK show ?thesis by (intro exI [of _ j]) auto
qed

text \<open>The three loops together compute the library's stable sort by key.\<close>

lemma cs_sort_ok:
  assumes "\<forall>x \<in> set xs. 0 \<le> key x \<and> key x < int K"
  shows "cs_sort key K xs = Some (sort_key key xs)"
proof (cases "K = 0")
  case True
  with assms have "xs = []" by (cases xs) auto
  with True show ?thesis by (simp add: cs_sort_def cs_prefix.simps)
next
  case False
  obtain c where c: "cs_count key xs (replicate K 0) = Some c" "length c = K"
    "\<forall>k<K. c ! k = key_count key xs k"
    using cs_count_ok [of xs key "replicate K 0"] assms by auto
  have "c ! 0 = key_below key xs (Suc 0)"
    using c(3) False assms by (simp add: key_below_Suc key_below_0)
  then have "\<forall>k<1. c ! k = key_below key xs (Suc k)" by simp
  moreover have "\<forall>k. 1 \<le> k \<longrightarrow> k < K \<longrightarrow> c ! k = key_count key xs k" using c(3) by blast
  ultimately have "\<exists>d. cs_prefix c 1 K = Some d \<and> length d = K \<and> (\<forall>k<K. d ! k = key_below key xs (Suc k))"
    using False c(2) by (intro cs_prefix_ok) simp_all
  then obtain d where d: "cs_prefix c 1 K = Some d" "length d = K"
    "\<forall>k<K. d ! k = key_below key xs (Suc k)" by blast
  obtain v where v: "cs_place key (rev xs) d xs = Some v" "length v = length xs"
    "\<forall>k<K. \<forall>p. key_below key xs k \<le> int p \<longrightarrow> int p < key_below key xs (Suc k) \<longrightarrow>
        v ! p = sort_key key xs ! p"
  proof -
    have "d ! k = key_below key xs k + key_count key xs k" if "k < K" for k
      using d(3) that by (simp add: key_below_Suc)
    then show thesis
      using cs_place_ok [of xs key d xs xs "[]"] d assms that by auto
  qed
  have "v = sort_key key xs"
  proof (rule nth_equalityI)
    show "length v = length (sort_key key xs)" using v(2) by simp
    show "v ! p = sort_key key xs ! p" if "p < length v" for p
      using key_below_cover [of p xs key K] that v(2,3) assms by auto
  qed
  with c d v show ?thesis by (simp add: cs_sort_def)
qed

text \<open>
  When every value lies in \<open>[0, max_value]\<close>, \<open>counting_sort\<close> stays in range and sorts.
\<close>

lemma counting_sort_sorts:
  assumes "\<forall>x \<in> set v. 0 \<le> x \<and> x \<le> max_value" "0 \<le> max_value"
  shows "counting_sort v max_value = Some (sort v)"
  using assms cs_sort_ok [of v "\<lambda>x. x" "nat (max_value + 1)"] by (simp add: counting_sort_def)

subsection \<open>Radix sort sorts non-negative 32-bit keys\<close>

lemma pow10_i64: "i \<le> 9 \<Longrightarrow> (10::int) ^ (2 * i) < 2 ^ 63"
  using power_increasing [of "2 * i" 18 "10::int"] by simp

lemma radix_fn_ok:
  assumes "0 \<le> x" "i \<le> 9"
  shows "radix_fn x (int i) = Some (x div 10 ^ i mod 10)"
proof -
  have bp: "bin_pow 10 (int i) = Some (10 ^ i)" using bin_pow_ok [of "int i" 10] pow10_i64 [OF assms(2)] by simp
  have "(10::int) ^ i \<le> 10 ^ 9" using assms(2) by (intro power_increasing) auto
  then have "(10::int) ^ i < 2 ^ 31" by simp
  then have "signed_take_bit 31 ((10::int) ^ i) = 10 ^ i" by (intro signed_take_bit_int_eq_self) (auto simp: order_trans [of _ 0])
  then show ?thesis using assms bp by (simp add: radix_fn_def pos_imp_zdiv_nonneg_iff)
qed

lemma sorted_lex:
  assumes "sorted (map f zs)" "\<And>k. sorted (map g (filter (\<lambda>x. f x = k) zs))"
    "\<And>x y. x \<in> set zs \<Longrightarrow> y \<in> set zs \<Longrightarrow> f x < f y \<or> f x = f y \<and> g x \<le> g y \<Longrightarrow> h x \<le> h y"
  shows "sorted (map h zs)"
  using assms
proof (induction zs)
  case Nil
  then show ?case by simp
next
  case (Cons z zs)
  have "sorted (map g (filter (\<lambda>x. f x = k) zs))" for k
    using Cons.prems(2) [of k] by (cases "f z = k") auto
  then have "sorted (map h zs)" using Cons.prems by (intro Cons.IH) auto
  moreover have "h z \<le> h y" if y: "y \<in> set zs" for y
  proof -
    have "f z = f y \<Longrightarrow> g z \<le> g y" using Cons.prems(2) [of "f z"] y by auto
    moreover have "f z \<le> f y" using Cons.prems(1) y by auto
    ultimately show ?thesis using Cons.prems(3) [of z y] y by (auto simp: order_le_less)
  qed
  ultimately show ?case by simp
qed

lemma radix_stable_sort_ok:
  assumes "\<forall>x \<in> set v. 0 \<le> x" "i \<le> 9" "sorted (map (\<lambda>x. x mod 10 ^ i) v)"
  shows "\<exists>v'. radix_stable_sort (int i) v = Some v' \<and> mset v' = mset v \<and>
    sorted (map (\<lambda>x. x mod 10 ^ Suc i) v')"
proof -
  let ?d = "\<lambda>x. x div 10 ^ i mod (10::int)" and ?key = "\<lambda>x. the (radix_fn x (int i))"
  have fn: "radix_fn x (int i) = Some (?d x)" if "x \<in> set v" for x
    using radix_fn_ok assms that by blast
  then have key: "?key x = ?d x" if "x \<in> set v" for x using that by simp
  have "cs_sort ?key 11 v = Some (sort_key ?key v)"
    by (rule cs_sort_ok) (auto simp: key intro: order_less_trans [of _ 10])
  with fn have run: "radix_stable_sort (int i) v = Some (sort_key ?key v)"
    by (simp add: radix_stable_sort_def)
  let ?z = "sort_key ?key v"
  have "map ?d ?z = map ?key ?z" using key by (intro map_cong) auto
  then have srt: "sorted (map ?d ?z)" by (metis sorted_sort_key)
  have stable: "filter (\<lambda>x. ?d x = k) ?z = filter (\<lambda>x. ?d x = k) v" for k
  proof -
    have "filter (\<lambda>x. ?d x = k) ?z = filter (\<lambda>x. ?key x = k) ?z" using key by (intro filter_cong) auto
    also have "\<dots> = filter (\<lambda>x. ?key x = k) v" by (rule sort_key_stable)
    also have "\<dots> = filter (\<lambda>x. ?d x = k) v" using key by (intro filter_cong) auto
    finally show ?thesis .
  qed
  have "sorted (map (\<lambda>x. x mod 10 ^ Suc i) ?z)"
  proof (rule sorted_lex [OF srt])
    show "sorted (map (\<lambda>x. x mod 10 ^ i) (filter (\<lambda>x. ?d x = k) ?z))" for k
      unfolding stable using assms(3) by (rule sorted_filter)
  next
    fix x y :: int
    assume lex: "?d x < ?d y \<or> ?d x = ?d y \<and> x mod 10 ^ i \<le> y mod 10 ^ i"
    have split: "a mod 10 ^ Suc i = 10 ^ i * ?d a + a mod 10 ^ i" for a :: int
      using mod_mult2_eq' [of a "10 ^ i" 10] by (simp add: zmod_zmult2_eq mult.commute)
    have "10 ^ i * ?d x + x mod 10 ^ i \<le> 10 ^ i * ?d y + y mod 10 ^ i"
    proof (cases "?d x < ?d y")
      case True
      then have "10 ^ i * (?d x + 1) \<le> 10 ^ i * ?d y" by (intro mult_left_mono) auto
      moreover have "x mod 10 ^ i < 10 ^ i" "0 \<le> y mod 10 ^ i" by simp_all
      ultimately show ?thesis by (simp only: distrib_left mult_1_right)
    next
      case False
      with lex show ?thesis by simp
    qed
    then show "x mod 10 ^ Suc i \<le> y mod 10 ^ Suc i" unfolding split .
  qed
  with run show ?thesis by auto
qed

lemma radix_passes_ok:
  assumes "\<forall>x \<in> set v. 0 \<le> x" "i \<le> d" "d \<le> 10" "sorted (map (\<lambda>x. x mod 10 ^ i) v)"
  shows "\<exists>v'. radix_passes (int i) (int d) v = Some v' \<and> mset v' = mset v \<and> sorted (map (\<lambda>x. x mod 10 ^ d) v')"
  using assms
proof (induction "d - i" arbitrary: i v)
  case 0
  then show ?case by (subst radix_passes.simps) auto
next
  case (Suc n)
  then obtain w where w: "radix_stable_sort (int i) v = Some w" "mset w = mset v"
    "sorted (map (\<lambda>x. x mod 10 ^ Suc i) w)"
    using radix_stable_sort_ok [of v i] by fastforce
  have "set w = set v" using w(2) by (metis set_mset_mset)
  then have "\<exists>v'. radix_passes (int (Suc i)) (int d) w = Some v' \<and> mset v' = mset w \<and>
      sorted (map (\<lambda>x. x mod 10 ^ d) v')"
    using Suc.hyps(2) Suc.prems w(3) by (intro Suc.hyps(1)) auto
  moreover have "radix_passes (int i) (int d) v = radix_passes (int (Suc i)) (int d) w"
  proof -
    have "int i < int d" "int (Suc i) = int i + 1" using Suc.hyps(2) by auto
    then show ?thesis using w(1) by (subst radix_passes.simps) (simp only: if_True bind.simps)
  qed
  ultimately show ?case using w(2) by auto
qed

lemma radix_digits_ok:
  assumes "0 \<le> m"
  shows "\<exists>n. radix_digits m d = d + n \<and> m < 10 ^ n \<and> (n = 0 \<or> 10 ^ (n - 1) \<le> m)"
  using assms
proof (induction m d rule: radix_digits.induct)
  case (1 m d)
  show ?case
  proof (cases "m = 0")
    case True
    then show ?thesis by (subst radix_digits.simps) simp
  next
    case False
    then obtain n where n: "radix_digits (cdiv m 10) (Suc d) = Suc d + n" "m div 10 < 10 ^ n"
      "n = 0 \<or> 10 ^ (n - 1) \<le> m div 10"
      using "1.IH" "1.prems" by (auto simp: pos_imp_zdiv_nonneg_iff)
    have "m < 10 ^ Suc n" using n(2) by simp
    moreover have "10 ^ n \<le> m" using n(3) False "1.prems" by (cases n) auto
    moreover have "radix_digits m d = d + Suc n" using False n(1) by (subst radix_digits.simps) simp
    ultimately show ?thesis by (intro exI [of _ "Suc n"]) auto
  qed
qed

lemma fold_max_bounds:
  fixes a :: int
  shows "a \<le> fold max v a" "x \<in> set v \<Longrightarrow> x \<le> fold max v a" "\<forall>x \<in> set v. x < b \<Longrightarrow> a < b \<Longrightarrow> fold max v a < b"
proof -
  have "fold max v a = Max (insert a (set v))" by (simp add: Max.set_eq_fold [symmetric] max.commute)
  then show "a \<le> fold max v a" "x \<in> set v \<Longrightarrow> x \<le> fold max v a"
    "\<forall>x \<in> set v. x < b \<Longrightarrow> a < b \<Longrightarrow> fold max v a < b" by simp_all
qed

text \<open>
  For non-negative \<open>int32_t\<close> values \<open>radix_sort\<close>, which finds the number of digits itself, stays
  in range, computes every power of ten without overflow and sorts.
\<close>

lemma radix_sort_sorts:
  assumes "\<forall>x \<in> set v. 0 \<le> x \<and> x < 2 ^ 31"
  shows "radix_sort v 0 = Some (sort v)"
proof -
  let ?m = "fold max v 0"
  have m: "0 \<le> ?m" "?m < 2 ^ 31" using fold_max_bounds assms by auto
  then obtain n where n: "radix_digits ?m 0 = n" "?m < 10 ^ n" "n = 0 \<or> 10 ^ (n - 1) \<le> ?m"
    using radix_digits_ok [of ?m 0] by auto
  have "n \<le> 10"
  proof (rule ccontr)
    assume "\<not> n \<le> 10"
    then have "(10::int) ^ 10 \<le> 10 ^ (n - 1)" by (intro power_increasing) auto
    with n(3) m(2) \<open>\<not> n \<le> 10\<close> show False by auto
  qed
  then obtain v' where v': "radix_passes 0 (int n) v = Some v'" "mset v' = mset v"
    "sorted (map (\<lambda>x. x mod 10 ^ n) v')"
    using radix_passes_ok [of v 0 n] assms by (auto simp: sorted_iff_nth_mono)
  have "set v' = set v" using v'(2) by (metis set_mset_mset)
  then have "map (\<lambda>x. x mod 10 ^ n) v' = v'"
    using fold_max_bounds(2) [of _ v 0] n(2) assms by (intro map_idI mod_pos_pos_trivial) (auto intro: order_le_less_trans)
  with v' have "v' = sort v" using sorted_eq_sort [of v' v] by simp
  with v'(1) n(1) show ?thesis by (simp add: radix_sort_def)
qed

subsection \<open>Bucket sort\<close>

lemma bucket_fill_ok:
  assumes "\<forall>x \<in> set v. 0 \<le> x" "0 < B" "length bs = nat B"
  shows "bucket_fill B v bs = Some (map (\<lambda>k. bs ! k @ filter (\<lambda>x. x mod B = int k) v) [0..<nat B])"
  using assms
proof (induction v arbitrary: bs)
  case Nil
  then show ?case by (auto intro: nth_equalityI)
next
  case (Cons x v)
  let ?k = "nat (x mod B)"
  have k: "?k < length bs" "int ?k = x mod B" using Cons.prems by auto
  have "bucket_fill B (x # v) bs = bucket_fill B v (bs[?k := bs ! ?k @ [x]])"
    using Cons.prems k by simp
  also have "\<dots> = Some (map (\<lambda>k. bs[?k := bs ! ?k @ [x]] ! k @ filter (\<lambda>x. x mod B = int k) v) [0..<nat B])"
    using Cons.prems by (intro Cons.IH) auto
  also have "\<dots> = Some (map (\<lambda>k. bs ! k @ filter (\<lambda>x. x mod B = int k) (x # v)) [0..<nat B])"
    using k Cons.prems(3) by (auto simp: nth_list_update)
  finally show ?case .
qed

lemma bucket_write_ok:
  "idx + length b \<le> length v \<Longrightarrow>
     bucket_write b idx v = Some (take idx v @ b @ drop (idx + length b) v, idx + length b)"
proof (induction b arbitrary: idx v)
  case Nil
  then show ?case by simp
next
  case (Cons x b)
  then have "bucket_write b (Suc idx) (v[idx := x]) =
      Some (take (Suc idx) (v[idx := x]) @ b @ drop (Suc idx + length b) (v[idx := x]), Suc idx + length b)"
    by (intro Cons.IH) simp
  with Cons.prems show ?case by (simp add: take_Suc_update)
qed

lemma insert_sort_ok: "insert_sort v = Some (sort v)"
  unfolding insert_sort_def by (rule insert_outer_ok) (cases v; simp)+

lemma bucket_collect_ok:
  "idx + length (concat bs) = length v \<Longrightarrow>
     bucket_collect bs idx v = Some (take idx v @ concat (map sort bs))"
proof (induction bs arbitrary: idx v)
  case Nil
  then show ?case by simp
next
  case (Cons b bs)
  let ?w = "take idx v @ sort b @ drop (idx + length b) v"
  have w: "bucket_write (sort b) idx v = Some (?w, idx + length b)"
    using bucket_write_ok [of idx "sort b" v] Cons.prems by simp
  have "bucket_collect bs (idx + length b) ?w = Some (take (idx + length b) ?w @ concat (map sort bs))"
    using Cons.prems by (intro Cons.IH) auto
  then show ?case using Cons.prems w by (simp add: insert_sort_ok)
qed

lemma length_classes:
  assumes "\<forall>x \<in> set v. 0 \<le> f x \<and> f x < int n"
  shows "mset (concat (map (\<lambda>k. filter (\<lambda>x. f x = int k) v) [0..<n])) = mset v"
  using assms
proof (induction n arbitrary: v)
  case 0
  then show ?case by (cases v) auto
next
  case (Suc n)
  let ?lo = "filter (\<lambda>x. f x < int n) v"
  have "mset (concat (map (\<lambda>k. filter (\<lambda>x. f x = int k) ?lo) [0..<n])) = mset ?lo"
    using Suc.prems by (intro Suc.IH) auto
  moreover have "map (\<lambda>k. filter (\<lambda>x. f x = int k) ?lo) [0..<n] = map (\<lambda>k. filter (\<lambda>x. f x = int k) v) [0..<n]"
    by (auto intro!: filter_cong)
  moreover have "mset ?lo + mset (filter (\<lambda>x. f x = int n) v) = mset v"
  proof -
    have "filter (\<lambda>x. f x = int n) v = filter (\<lambda>x. \<not> f x < int n) v" using Suc.prems by (intro filter_cong) auto
    moreover have "mset ?lo + mset (filter (\<lambda>x. \<not> f x < int n) v) = mset v"
      using multiset_partition [of "mset v" "\<lambda>x. f x < int n"] by (simp only: mset_filter)
    ultimately show ?thesis by metis
  qed
  ultimately show ?case by (simp only: upt_Suc_append map_append concat_append list.map concat.simps append_Nil2 mset_append zero_le)
qed

lemma bucket_sort_ok:
  assumes "\<forall>x \<in> set v. 0 \<le> x" "0 < B"
  shows "bucket_sort v B = Some (concat (map (\<lambda>k. sort (filter (\<lambda>x. x mod B = int k) v)) [0..<nat B]))"
proof -
  let ?bs = "map (\<lambda>k. filter (\<lambda>x. x mod B = int k) v) [0..<nat B]"
  have fill: "bucket_fill B v (replicate (nat B) []) = Some ?bs"
    using bucket_fill_ok [of v B "replicate (nat B) []"] assms by simp
  have "mset (concat ?bs) = mset v" using assms by (intro length_classes) auto
  then have "length (concat ?bs) = length v" by (metis size_mset)
  with fill assms show ?thesis by (simp add: bucket_sort_def bucket_collect_ok o_def)
qed

lemma bucket_sort_sorts:
  assumes "\<forall>x \<in> set v. 0 \<le> x \<and> x < bucket_size" "0 < bucket_size"
  shows "bucket_sort v bucket_size = Some (sort v)"
proof -
  let ?f = "\<lambda>k. filter (\<lambda>x. x mod bucket_size = int k) v"
  let ?r = "concat (map (\<lambda>k. sort (?f k)) [0..<nat bucket_size])"
  have const: "x = int k" if "x \<in> set (?f k)" for x k using that assms by auto
  have "sorted (concat (map (\<lambda>k. sort (?f k)) [0..<n]))" for n
  proof (induction n)
    case (Suc n)
    have "x \<le> y" if "x \<in> set (?f k)" "y \<in> set (?f n)" "k < n" for x y k
      using const [OF that(1)] const [OF that(2)] that(3) by simp
    moreover have "\<exists>k<n. x \<in> set (?f k)" if "x \<in> set (concat (map (\<lambda>k. sort (?f k)) [0..<n]))" for x
      using that by auto
    ultimately have "\<forall>x \<in> set (concat (map (\<lambda>k. sort (?f k)) [0..<n])). \<forall>y \<in> set (sort (?f n)). x \<le> y"
      by (metis set_sort)
    with Suc show ?case
      by (simp only: upt_Suc_append map_append concat_append list.map concat.simps append_Nil2 sorted_append sorted_sort zero_le simp_thms)
  qed simp
  moreover have "mset ?r = mset v"
  proof -
    have "mset ?r = mset (concat (map ?f [0..<nat bucket_size]))" by (simp add: mset_concat o_def)
    also have "\<dots> = mset v" using assms by (intro length_classes) auto
    finally show ?thesis .
  qed
  ultimately show ?thesis using bucket_sort_ok [of v bucket_size] assms sorted_eq_sort by fastforce
qed

text \<open>
  \<open>bucket_sort\<close> sorts when every value is smaller than the number of buckets (the bucket of a value is then
  the value itself). With fewer buckets the remainder decides the bucket and the result need not be sorted: the
  sorted input \<open>3 5\<close> with four buckets becomes \<open>5 3\<close>.
\<close>

lemma bucket_sort_orders:
  "((\<forall>x \<in> set v. 0 \<le> x \<and> x < bucket_size) \<and> 0 < bucket_size \<longrightarrow> bucket_sort v bucket_size = Some (sort v)) \<and>
   bucket_sort [3, 5] 4 = Some [5, 3]"
proof
  show "(\<forall>x \<in> set v. 0 \<le> x \<and> x < bucket_size) \<and> 0 < bucket_size \<longrightarrow> bucket_sort v bucket_size = Some (sort v)"
    using bucket_sort_sorts by blast
  show "bucket_sort [3, 5] 4 = Some [5, 3]" using bucket_sort_ok [of "[3, 5]" 4] by (simp add: upt_rec)
qed

end
