(* ===== verification/SortLib.thy ===== *)
theory SortLib
  imports SortBasic SortMerge SortHeap SortQuick SortCount
begin

text \<open>
  The contract of the sorts of \<open>cpp/algorithm/lib/sort/sort.h\<close> as a locale, its interpretation on each of them, and
  the properties that span them.
\<close>

section \<open>The contract\<close>

text \<open>A sort is partial: \<open>None\<close> is an access out of range. On its inputs it returns an ascending permutation.\<close>

locale sorter =
  fixes srt :: "'a :: linorder list \<Rightarrow> 'a list option"
    and admits :: "'a list \<Rightarrow> bool"
  assumes returns: "admits v \<Longrightarrow> \<exists>w. srt v = Some w \<and> mset w = mset v \<and> sorted w"
    and admits_perm: "admits v \<Longrightarrow> mset w = mset v \<Longrightarrow> admits w"
begin

lemma eq_sort: "admits v \<Longrightarrow> srt v = Some (sort v)"
  using returns [of v] by (metis properties_for_sort)

lemma idempotent: "admits v \<Longrightarrow> Option.bind (srt v) srt = srt v"
  using eq_sort admits_perm [of v "sort v"] by (simp add: sort_key_id_if_sorted)

lemma perm_invariant: "admits v \<Longrightarrow> mset w = mset v \<Longrightarrow> srt w = srt v"
  using eq_sort admits_perm sort_mset_cong by metis

end

locale two_sorters = a: sorter f p + b: sorter g q
  for f :: "'a :: linorder list \<Rightarrow> 'a list option" and p and g :: "'a list \<Rightarrow> 'a list option" and q
begin

lemma agree: "p v \<Longrightarrow> q v \<Longrightarrow> f v = g v"
  by (simp add: a.eq_sort b.eq_sort)

end

section \<open>The sorts meet it\<close>

lemma sorterI:
  assumes "\<And>v. p v \<Longrightarrow> f v = Some (sort v)" "\<And>v w. p v \<Longrightarrow> mset w = mset v \<Longrightarrow> p w"
  shows "sorter f p"
  by unfold_locales (use assms in auto)

lemma ball_perm: "mset w = mset v \<Longrightarrow> \<forall>x\<in>set v. P x \<Longrightarrow> \<forall>x\<in>set w. P x"
  by (metis set_mset_mset)

definition merge_sort_all :: "'a :: linorder list \<Rightarrow> 'a list option" where
  "merge_sort_all v = merge_sort v 0 (length v)"

definition quick_sort_all :: "('s \<Rightarrow> nat \<times> 's) \<Rightarrow> 's \<Rightarrow> int list \<Rightarrow> int list option" where
  "quick_sort_all rnd s v = map_option fst (quick_sort rnd s v 0 (int (length v) - 1))"

interpretation bubble: sorter bubble_sort "\<lambda>_. True"
  by (rule sorterI) (simp_all add: bubble_sort_sorts)

interpretation inserts: sorter insert_sort "\<lambda>_. True"
  by (rule sorterI) (simp_all add: insert_sort_sorts)

interpretation selects: sorter select_sort "\<lambda>_. True"
  by (rule sorterI) (simp_all add: select_sort_sorts)

interpretation heaps: sorter heap_sort "\<lambda>_. True"
  by (rule sorterI) (simp_all add: heap_sort_sorts)

interpretation merges: sorter merge_sort_all "\<lambda>_. True"
  by (rule sorterI) (simp_all add: merge_sort_all_def merge_sort_range)

lemma quick_sort_all_sorts: "quick_sort_all rnd s v = Some (sort v)"
  using quick_sort_range [of 0 "int (length v) - 1" v rnd s] by (auto simp: quick_sort_all_def)

interpretation quick: sorter "quick_sort_all rnd s" "\<lambda>_. True" for rnd s
  by (rule sorterI) (simp_all add: quick_sort_all_sorts)

interpretation counting: sorter "\<lambda>v. counting_sort v m" "\<lambda>v. 0 \<le> m \<and> (\<forall>x\<in>set v. 0 \<le> x \<and> x \<le> m)" for m
  by (rule sorterI) (blast intro: counting_sort_sorts, blast dest: ball_perm)

interpretation radix: sorter "\<lambda>v. radix_sort v 0" "\<lambda>v. \<forall>x\<in>set v. 0 \<le> x \<and> x < 2 ^ 31"
  by (rule sorterI) (blast intro: radix_sort_sorts, blast dest: ball_perm)

interpretation bucket: sorter "\<lambda>v. bucket_sort v b" "\<lambda>v. 0 < b \<and> (\<forall>x\<in>set v. 0 \<le> x \<and> x < b)" for b
  by (rule sorterI) (use bucket_sort_sorts in blast, blast dest: ball_perm)

interpretation merge_quick: two_sorters merge_sort_all "\<lambda>_. True" "quick_sort_all rnd s" "\<lambda>_. True" for rnd s ..

section \<open>Properties\<close>

text \<open>
  C22. The three recursive sorts stay in range and terminate. For \<open>start \<le> stop \<le> v.size()\<close> merge sort sorts exactly
  \<open>[start, stop)\<close>, for \<open>first \<le> fin + 1 \<le> v.size()\<close> and any random generator quick sort sorts exactly the closed range
  \<open>[first, fin]\<close>, and both leave the rest of the vector as it was; heap sort sorts the vector. On whole vectors
  merge sort and quick sort agree.
\<close>

theorem recursive_sorts_correct:
  "(start \<le> stop \<and> stop \<le> length v \<longrightarrow>
      merge_sort v start stop = Some (take start v @ sort (take (stop - start) (drop start v)) @ drop stop v)) \<and>
   (int first \<le> fin + 1 \<and> fin + 1 \<le> int (length v) \<longrightarrow>
      (\<exists>s'. quick_sort rnd s v first fin =
         Some (take first v @ sort (take (nat (fin + 1) - first) (drop first v)) @ drop (nat (fin + 1)) v, s'))) \<and>
   heap_sort v = Some (sort v) \<and> merge_sort_all v = quick_sort_all rnd s v"
  by (intro conjI impI heap_sort_sorts merge_quick.agree TrueI; elim conjE)
    (rule merge_sort_range quick_sort_range; assumption)+

theorem recursive_sorts_correct_witness:
  "merge_sort [9, 3, 2, 7, 1 :: int] 1 4 = Some [9, 2, 3, 7, 1] \<and>
   (\<exists>s'. quick_sort (\<lambda>s. (s, s + 3)) 7 [9, 3, 2, 7, 1 :: int] 1 3 = Some ([9, 2, 3, 7, 1], s'))"
  using recursive_sorts_correct [of 1 4 "[9, 3, 2, 7, 1 :: int]" 1 3 "\<lambda>s. (s, s + 3)" 7] by (simp add: eval_nat_numeral)

text \<open>
  C34. The integer sorts. Counting sort sorts values of \<open>[0, max_value]\<close>; radix sort, which finds the number of
  digits itself, sorts every vector of non-negative \<open>int32_t\<close> without overflow in its powers of ten; bucket sort
  sorts when every value is smaller than the number of buckets. With fewer buckets the remainder decides the
  bucket and the result need not be sorted: \<open>3 5\<close> with four buckets becomes \<open>5 3\<close>. Each of them gives the same
  result on every permutation of its input.
\<close>

theorem integer_sorts_correct:
  "((\<forall>x\<in>set v. 0 \<le> x \<and> x \<le> m) \<and> 0 \<le> m \<longrightarrow>
      counting_sort v m = Some (sort v) \<and> (\<forall>w. mset w = mset v \<longrightarrow> counting_sort w m = counting_sort v m)) \<and>
   ((\<forall>x\<in>set v. 0 \<le> x \<and> x < 2 ^ 31) \<longrightarrow>
      radix_sort v 0 = Some (sort v) \<and> (\<forall>w. mset w = mset v \<longrightarrow> radix_sort w 0 = radix_sort v 0)) \<and>
   ((\<forall>x\<in>set v. 0 \<le> x \<and> x < b) \<and> 0 < b \<longrightarrow>
      bucket_sort v b = Some (sort v) \<and> (\<forall>w. mset w = mset v \<longrightarrow> bucket_sort w b = bucket_sort v b)) \<and>
   bucket_sort [3, 5] 4 = Some [5, 3]"
proof (intro conjI)
  show "(\<forall>x\<in>set v. 0 \<le> x \<and> x \<le> m) \<and> 0 \<le> m \<longrightarrow>
      counting_sort v m = Some (sort v) \<and> (\<forall>w. mset w = mset v \<longrightarrow> counting_sort w m = counting_sort v m)"
    using counting.eq_sort counting.perm_invariant by blast
  show "(\<forall>x\<in>set v. 0 \<le> x \<and> x < 2 ^ 31) \<longrightarrow>
      radix_sort v 0 = Some (sort v) \<and> (\<forall>w. mset w = mset v \<longrightarrow> radix_sort w 0 = radix_sort v 0)"
    using radix.eq_sort radix.perm_invariant by blast
  show "(\<forall>x\<in>set v. 0 \<le> x \<and> x < b) \<and> 0 < b \<longrightarrow>
      bucket_sort v b = Some (sort v) \<and> (\<forall>w. mset w = mset v \<longrightarrow> bucket_sort w b = bucket_sort v b)"
    using bucket.eq_sort bucket.perm_invariant by blast
  show "bucket_sort [3, 5] 4 = Some [5, 3]" using bucket_sort_orders by blast
qed

theorem integer_sorts_correct_witness:
  "counting_sort [3, 0, 2, 3, 1] 3 = Some [0, 1, 2, 3, 3] \<and> radix_sort [3, 0, 2, 3, 1] 0 = Some [0, 1, 2, 3, 3] \<and>
   bucket_sort [3, 0, 2, 3, 1] 4 = Some [0, 1, 2, 3, 3]"
  using integer_sorts_correct [of "[3, 0, 2, 3, 1]" 3 4] by simp

end
