(* ===== verification/UnionFind.thy ===== *)
theory UnionFind
  imports Prelude
begin

text \<open>
  The disjoint-set forest \<open>UF\<close> of \<open>cpp/datastructure/search/UFS.h\<close>: union by size and a recursive
  \<open>FindAndSet\<close> with path compression. \<open>FindAndSet\<close> follows \<open>father_\<close> without a bound, so it is a
  \<open>partial_function\<close>: \<open>None\<close> is an access outside the vector or a walk that never ends.

  The forest is related to the connectivity of the pairs joined so far: every run returns, the
  roots separate exactly the connected components, \<open>size_\<close> holds the component sizes at the roots
  and \<open>count_\<close> is the number of components.
\<close>

record uf =
  uf_count :: int
  uf_father :: "nat list"
  uf_size :: "int list"

definition uf_new :: "nat \<Rightarrow> uf" where
  "uf_new n = \<lparr>uf_count = int n, uf_father = [0..<n], uf_size = replicate n 1\<rparr>"

definition uf_get_count :: "uf \<Rightarrow> int" where
  "uf_get_count u = uf_count u"

text \<open>\<open>FindAndSet\<close> only touches \<open>father_\<close>.\<close>

partial_function (option) find_set :: "nat list \<Rightarrow> nat \<Rightarrow> (nat list \<times> nat) option" where
  "find_set f v =
     do { p \<leftarrow> vget f v;
          if p = v then Some (f, v)
          else do { (f', r) \<leftarrow> find_set f p; f'' \<leftarrow> vset f' v r; Some (f'', r) } }"

declare find_set.simps [code]

definition FindAndSet :: "uf \<Rightarrow> nat \<Rightarrow> (uf \<times> nat) option" where
  "FindAndSet u v = do { (f, r) \<leftarrow> find_set (uf_father u) v; Some (u\<lparr>uf_father := f\<rparr>, r) }"

definition Unit :: "uf \<Rightarrow> nat \<Rightarrow> nat \<Rightarrow> uf option" where
  "Unit u x0 y0 =
     do { sx \<leftarrow> vget (uf_size u) x0;
          sy \<leftarrow> vget (uf_size u) y0;
          let (x, y) = (if sx < sy then (y0, x0) else (x0, y0));
          f \<leftarrow> vset (uf_father u) y x;
          a \<leftarrow> vget (uf_size u) x;
          b \<leftarrow> vget (uf_size u) y;
          s \<leftarrow> vset (uf_size u) x (a + b);
          Some \<lparr>uf_count = uf_count u - 1, uf_father = f, uf_size = s\<rparr> }"

definition FindAndUnit :: "uf \<Rightarrow> nat \<Rightarrow> nat \<Rightarrow> (uf \<times> bool) option" where
  "FindAndUnit u x y =
     do { (u1, a) \<leftarrow> FindAndSet u x;
          (u2, b) \<leftarrow> FindAndSet u1 y;
          if a \<noteq> b then do { u3 \<leftarrow> Unit u2 a b; Some (u3, True) } else Some (u2, False) }"

text \<open>A client that joins a list of pairs and records the answers.\<close>

fun uf_run :: "uf \<Rightarrow> (nat \<times> nat) list \<Rightarrow> (uf \<times> bool list) option" where
  "uf_run u [] = Some (u, [])"
| "uf_run u ((x, y) # ps) =
     do { (u', b) \<leftarrow> FindAndUnit u x y; (u'', bs) \<leftarrow> uf_run u' ps; Some (u'', b # bs) }"

subsection \<open>Roots\<close>

inductive uf_root :: "nat list \<Rightarrow> nat \<Rightarrow> nat \<Rightarrow> bool" for f where
  at_root: "v < length f \<Longrightarrow> f ! v = v \<Longrightarrow> uf_root f v v"
| up: "v < length f \<Longrightarrow> f ! v \<noteq> v \<Longrightarrow> uf_root f (f ! v) r \<Longrightarrow> uf_root f v r"

inductive_cases uf_rootE: "uf_root f v r"

lemma uf_root_range: "uf_root f v r \<Longrightarrow> v < length f \<and> r < length f \<and> f ! r = r"
  by (induction rule: uf_root.induct) auto

lemma uf_root_det: "uf_root f v r \<Longrightarrow> uf_root f v s \<Longrightarrow> r = s"
proof (induction arbitrary: s rule: uf_root.induct)
  case (at_root v)
  then show ?case by (auto elim: uf_rootE)
next
  case (up v r)
  from up.prems up.hyps have "uf_root f (f ! v) s" by (auto elim: uf_rootE)
  then show ?case by (rule up.IH)
qed

lemma uf_root_of_root: "r < length f \<Longrightarrow> f ! r = r \<Longrightarrow> uf_root f r s \<longleftrightarrow> s = r"
  using uf_root.at_root uf_root_det by blast

lemma uf_root_compress:
  assumes vr: "uf_root f v r" "f ! v \<noteq> v"
  shows "uf_root (f[v := r]) u s \<longleftrightarrow> uf_root f u s"
proof
  have r: "v < length f" "r < length f" "f ! r = r" "r \<noteq> v" using uf_root_range vr by auto
  have self: "uf_root (f[v := r]) r r" using r by (intro uf_root.at_root) auto
  show "uf_root f u s" if "uf_root (f[v := r]) u s"
    using that
  proof (induction rule: uf_root.induct)
    case (at_root u)
    then have "f ! u = u" using r by (cases "u = v") auto
    then show ?case using at_root by (intro uf_root.at_root) auto
  next
    case (up u s)
    show ?case
    proof (cases "u = v")
      case True
      then have "s = r" using up.hyps(3) r self uf_root_det by auto
      then show ?thesis using True vr by simp
    next
      case False
      then show ?thesis using up.hyps up.IH by (auto intro: uf_root.up)
    qed
  qed
  show "uf_root (f[v := r]) u s" if "uf_root f u s"
    using that
  proof (induction rule: uf_root.induct)
    case (at_root u)
    then have "u \<noteq> v" using vr by auto
    then show ?case using at_root by (intro uf_root.at_root) auto
  next
    case (up u s)
    show ?case
    proof (cases "u = v")
      case True
      have "uf_root f v s" using uf_root.up [OF up.hyps] True by simp
      then have "s = r" using vr uf_root_det by auto
      then show ?thesis using True r self by (auto intro: uf_root.up)
    next
      case False
      then show ?thesis using up.hyps up.IH by (auto intro: uf_root.up)
    qed
  qed
qed

lemma uf_root_link:
  assumes roots: "a < length f" "b < length f" "f ! a = a" "f ! b = b" "a \<noteq> b"
  shows "uf_root f u t \<Longrightarrow> uf_root (f[b := a]) u (if t = b then a else t)"
proof (induction rule: uf_root.induct)
  case (at_root u)
  have "uf_root (f[b := a]) a a" using roots by (intro uf_root.at_root) auto
  then have "uf_root (f[b := a]) b a" using roots by (auto intro: uf_root.up)
  moreover have "u \<noteq> b \<Longrightarrow> uf_root (f[b := a]) u u" using at_root by (intro uf_root.at_root) auto
  ultimately show ?case by auto
next
  case (up u t)
  then have "u \<noteq> b" using roots by auto
  then show ?case using up.hyps up.IH by (auto intro: uf_root.up)
qed

text \<open>\<open>FindAndSet\<close> returns the root and changes no root.\<close>

lemma find_set_ok:
  "uf_root f v r \<Longrightarrow> \<exists>f'. find_set f v = Some (f', r) \<and> length f' = length f \<and> uf_root f' = uf_root f"
proof (induction rule: uf_root.induct)
  case (at_root v)
  then show ?case by (subst find_set.simps) simp
next
  case (up v r)
  then obtain f' where f': "find_set f (f ! v) = Some (f', r)" "length f' = length f" "uf_root f' = uf_root f" by auto
  have vr: "uf_root f' v r" using f'(3) up uf_root.up by auto
  have "uf_root (f'[v := r]) = uf_root f'"
  proof (cases "f' ! v = v")
    case True
    then have "r = v" using uf_root_of_root [of v f'] uf_root_range [OF vr] vr by simp
    then show ?thesis using True by (metis list_update_id)
  next
    case False
    then show ?thesis using uf_root_compress [OF vr False] by (intro ext) auto
  qed
  with f' up show ?case by (subst find_set.simps) simp
qed

subsection \<open>The invariant and the abstract view\<close>

definition conn :: "(nat \<times> nat) set \<Rightarrow> (nat \<times> nat) set" where
  "conn E = (E \<union> E\<inverse>)\<^sup>*"

lemma conn_sym: "(x, y) \<in> conn E \<longleftrightarrow> (y, x) \<in> conn E"
  unfolding conn_def by (metis Un_commute converse_Un converse_converse rtrancl_converseD converse_iff)

lemma conn_trans: "(x, y) \<in> conn E \<Longrightarrow> (y, z) \<in> conn E \<Longrightarrow> (x, z) \<in> conn E"
  unfolding conn_def by simp

lemma conn_insert:
  "(u, w) \<in> conn (insert (x, y) E) \<longleftrightarrow>
     (u, w) \<in> conn E \<or> (u, x) \<in> conn E \<and> (y, w) \<in> conn E \<or> (u, y) \<in> conn E \<and> (x, w) \<in> conn E"
proof -
  have "insert (x, y) E \<union> (insert (x, y) E)\<inverse> = insert (x, y) (insert (y, x) (E \<union> E\<inverse>))" by auto
  then have "(u, w) \<in> conn (insert (x, y) E) \<longleftrightarrow>
     (u, w) \<in> conn E \<or> (u, y) \<in> conn E \<and> (x, w) \<in> conn E \<or>
     ((u, x) \<in> conn E \<or> (u, y) \<in> conn E \<and> (x, x) \<in> conn E) \<and> ((y, w) \<in> conn E \<or> (y, y) \<in> conn E \<and> (x, w) \<in> conn E)"
    unfolding conn_def by (simp add: rtrancl_insert)
  then show ?thesis using conn_trans conn_sym by blast
qed

definition uf_inv :: "nat \<Rightarrow> (nat \<times> nat) set \<Rightarrow> uf \<Rightarrow> bool" where
  "uf_inv n E u \<longleftrightarrow> length (uf_father u) = n \<and> length (uf_size u) = n \<and>
     (\<forall>v<n. \<exists>r. uf_root (uf_father u) v r) \<and>
     (\<forall>v w. v < n \<longrightarrow> w < n \<longrightarrow> (\<exists>r. uf_root (uf_father u) v r \<and> uf_root (uf_father u) w r) = ((v, w) \<in> conn E)) \<and>
     (\<forall>r<n. uf_root (uf_father u) r r \<longrightarrow> uf_size u ! r = int (card {v. uf_root (uf_father u) v r})) \<and>
     uf_count u = int (card {r. uf_root (uf_father u) r r})"

lemma uf_inv_new: "uf_inv n {} (uf_new n)"
proof -
  have root: "uf_root [0..<n] v r \<longleftrightarrow> v < n \<and> r = v" for v r
    using uf_root_range [of "[0..<n]" v r] uf_root_of_root [of v "[0..<n]" r] by auto
  then have one: "{v. uf_root [0..<n] v r} = {r}" if "r < n" for r using that by auto
  have "{r. uf_root [0..<n] r r} = {..<n}" using root by auto
  then show ?thesis using one root by (simp add: uf_inv_def uf_new_def conn_def)
qed

lemma FindAndSet_ok:
  assumes "uf_inv n E u" "v < n"
  shows "\<exists>u' r. FindAndSet u v = Some (u', r) \<and> uf_inv n E u' \<and> uf_root (uf_father u') = uf_root (uf_father u) \<and>
    uf_root (uf_father u) v r"
proof -
  obtain r where r: "uf_root (uf_father u) v r" using assms by (auto simp: uf_inv_def)
  obtain f where "find_set (uf_father u) v = Some (f, r)" "length f = length (uf_father u)" "uf_root f = uf_root (uf_father u)"
    using find_set_ok [OF r] by blast
  with assms r show ?thesis by (simp add: FindAndSet_def uf_inv_def)
qed

lemma uf_inv_link:
  assumes inv: "uf_inv n E u" and xy: "x < n" "y < n"
    and ab: "uf_root (uf_father u) x a" "uf_root (uf_father u) y b" "a \<noteq> b"
    and pq: "p = a \<and> q = b \<or> p = b \<and> q = a"
  shows "uf_inv n (insert (x, y) E) \<lparr>uf_count = uf_count u - 1, uf_father = (uf_father u)[q := p],
    uf_size = (uf_size u)[p := uf_size u ! p + uf_size u ! q]\<rparr>"
proof -
  let ?f = "uf_father u" and ?g = "(uf_father u)[q := p]"
  have len: "length ?f = n" "length (uf_size u) = n" using inv by (auto simp: uf_inv_def)
  have rt: "p < n" "q < n" "?f ! p = p" "?f ! q = q" "p \<noteq> q"
    using uf_root_range [OF ab(1)] uf_root_range [OF ab(2)] ab(3) pq len by auto
  have tot: "\<exists>t. uf_root ?f v t" if "v < n" for v using inv that by (auto simp: uf_inv_def)
  have new: "uf_root ?g v s \<longleftrightarrow> (\<exists>t. uf_root ?f v t \<and> s = (if t = q then p else t))" for v s
  proof
    assume s: "uf_root ?g v s"
    then obtain t where t: "uf_root ?f v t" using tot uf_root_range [OF s] len by auto
    then have "s = (if t = q then p else t)" using s uf_root_det uf_root_link [of p ?f q v t] rt len by blast
    with t show "\<exists>t. uf_root ?f v t \<and> s = (if t = q then p else t)" by blast
  qed (use uf_root_link [of p ?f q] rt len in auto)
  have cE: "(v, w) \<in> conn E \<longleftrightarrow> tv = tw" if "uf_root ?f v tv" "uf_root ?f w tw" for v w tv tw
    using inv that uf_root_range uf_root_det len unfolding uf_inv_def by metis
  have conn: "(\<exists>r. uf_root ?g v r \<and> uf_root ?g w r) \<longleftrightarrow> (v, w) \<in> conn (insert (x, y) E)"
    if vw: "v < n" "w < n" for v w
  proof -
    obtain tv tw where t: "uf_root ?f v tv" "uf_root ?f w tw" using tot vw by blast
    then have "(\<exists>r. uf_root ?g v r \<and> uf_root ?g w r) \<longleftrightarrow>
        (if tv = q then p else tv) = (if tw = q then p else tw)"
      using new uf_root_det by metis
    moreover have "(v, w) \<in> conn (insert (x, y) E) \<longleftrightarrow> tv = tw \<or> tv = a \<and> b = tw \<or> tv = b \<and> a = tw"
      unfolding conn_insert using cE t ab by blast
    ultimately show ?thesis using pq ab(3) by auto
  qed
  have cls_p: "{v. uf_root ?g v p} = {v. uf_root ?f v p} \<union> {v. uf_root ?f v q}" using new rt by auto
  have cls: "{v. uf_root ?g v r} = {v. uf_root ?f v r}" if "r \<noteq> p" "r \<noteq> q" for r using new that by auto
  have fin: "finite {v. uf_root ?f v r}" for r
    by (rule finite_subset [of _ "{..<n}"]) (use uf_root_range len in auto)
  have disj: "{v. uf_root ?f v p} \<inter> {v. uf_root ?f v q} = {}" using uf_root_det rt(5) by blast
  have pq_root: "uf_root ?f p p" "uf_root ?f q q" using rt len by (auto intro: uf_root.at_root)
  have sz: "uf_size u ! r = int (card {v. uf_root ?f v r})" if "uf_root ?f r r" for r
    using inv that uf_root_range len unfolding uf_inv_def by metis
  have roots: "{r. uf_root ?g r r} = {r. uf_root ?f r r} - {q}"
  proof -
    have "\<not> uf_root ?g q q" using new rt(5) by (auto split: if_splits)
    moreover have "uf_root ?g r r \<longleftrightarrow> uf_root ?f r r" if "r \<noteq> q" for r
      using that uf_root_range [of ?f r] uf_root_range [of ?g r] rt len
      by (metis length_list_update nth_list_update_neq uf_root.at_root)
    ultimately have "r \<in> {r. uf_root ?g r r} \<longleftrightarrow> r \<in> {r. uf_root ?f r r} - {q}" for r by (cases "r = q") simp_all
    then show ?thesis by blast
  qed
  have cnt: "int (card ({r. uf_root ?f r r} - {q})) = uf_count u - 1"
  proof -
    have "finite {r. uf_root ?f r r}" by (rule finite_subset [of _ "{..<n}"]) (use uf_root_range len in auto)
    moreover have "uf_count u = int (card {r. uf_root ?f r r})" using inv by (simp add: uf_inv_def)
    moreover have "card {r. uf_root ?f r r} = Suc (card ({r. uf_root ?f r r} - {q}))"
      using \<open>finite {r. uf_root ?f r r}\<close> pq_root(2) by (intro card.remove) auto
    ultimately show ?thesis by simp
  qed
  have size': "(uf_size u)[p := uf_size u ! p + uf_size u ! q] ! r = int (card {v. uf_root ?g v r})"
    if "uf_root ?g r r" for r
  proof (cases "r = p")
    case True
    then show ?thesis using rt len sz pq_root card_Un_disjoint [OF fin fin disj] by (simp add: cls_p)
  next
    case False
    moreover from that have "uf_root ?f r r" "r \<noteq> q" using roots by auto
    ultimately show ?thesis using sz cls by simp
  qed
  have tot': "\<exists>r. uf_root ?g v r" if "v < n" for v using tot [OF that] new by blast
  show ?thesis unfolding uf_inv_def using len conn tot' size' roots cnt by simp
qed

lemma FindAndUnit_ok:
  assumes inv: "uf_inv n E u" and xy: "x < n" "y < n"
  shows "\<exists>u'. FindAndUnit u x y = Some (u', (x, y) \<notin> conn E) \<and> uf_inv n (insert (x, y) E) u'"
proof -
  obtain u1 a where 1: "FindAndSet u x = Some (u1, a)" "uf_inv n E u1" "uf_root (uf_father u1) x a"
    using FindAndSet_ok [OF inv xy(1)] by metis
  obtain u2 b where 2: "FindAndSet u1 y = Some (u2, b)" "uf_inv n E u2"
    "uf_root (uf_father u2) = uf_root (uf_father u1)" "uf_root (uf_father u2) y b"
    using FindAndSet_ok [OF 1(2) xy(2)] by metis
  have a: "uf_root (uf_father u2) x a" using 1 2 by simp
  have same: "(x, y) \<in> conn E \<longleftrightarrow> a = b"
    using 2(2,4) a xy uf_root_det unfolding uf_inv_def by metis
  have rng: "a < length (uf_size u2)" "b < length (uf_size u2)" "length (uf_father u2) = length (uf_size u2)"
    using uf_root_range [OF a] uf_root_range [OF 2(4)] 2(2) by (auto simp: uf_inv_def)
  show ?thesis
  proof (cases "a = b")
    case True
    have "conn (insert (x, y) E) = conn E"
      using True same conn_insert conn_trans conn_sym by (intro set_eqI) (metis surj_pair)
    then have "uf_inv n (insert (x, y) E) u2" using 2(2) by (simp add: uf_inv_def)
    then show ?thesis using True same 1(1) 2(1) by (simp add: FindAndUnit_def)
  next
    case False
    define p q where "p = (if uf_size u2 ! a < uf_size u2 ! b then b else a)"
      and "q = (if uf_size u2 ! a < uf_size u2 ! b then a else b)"
    let ?u = "\<lparr>uf_count = uf_count u2 - 1, uf_father = (uf_father u2)[q := p],
      uf_size = (uf_size u2)[p := uf_size u2 ! p + uf_size u2 ! q]\<rparr>"
    have "Unit u2 a b = Some ?u" using rng by (auto simp: Unit_def p_def q_def)
    moreover have "uf_inv n (insert (x, y) E) ?u"
      using 2(2) xy a 2(4) False by (rule uf_inv_link) (auto simp: p_def q_def)
    ultimately show ?thesis using False same 1(1) 2(1) by (simp add: FindAndUnit_def)
  qed
qed

lemma uf_run_ok:
  assumes "uf_inv n E u" "\<forall>(x, y) \<in> set ps. x < n \<and> y < n"
  shows "\<exists>u' bs. uf_run u ps = Some (u', bs) \<and> uf_inv n (E \<union> set ps) u' \<and>
    bs = map (\<lambda>i. ps ! i \<notin> conn (E \<union> set (take i ps))) [0..<length ps]"
  using assms
proof (induction u ps arbitrary: E rule: uf_run.induct)
  case (1 u)
  then show ?case by simp
next
  case (2 u x y ps)
  obtain u1 where u1: "FindAndUnit u x y = Some (u1, (x, y) \<notin> conn E)" "uf_inv n (insert (x, y) E) u1"
    using FindAndUnit_ok [of n E u x y] "2.prems" by auto
  obtain u' bs where u': "uf_run u1 ps = Some (u', bs)" "uf_inv n (insert (x, y) E \<union> set ps) u'"
    "bs = map (\<lambda>i. ps ! i \<notin> conn (insert (x, y) E \<union> set (take i ps))) [0..<length ps]"
    using "2.IH" [OF u1(1) refl u1(2)] "2.prems" by auto
  have "map (\<lambda>i. ((x, y) # ps) ! i \<notin> conn (E \<union> set (take i ((x, y) # ps)))) [0..<length ((x, y) # ps)] =
      ((x, y) \<notin> conn E) # bs"
    by (simp only: length_Cons upt_conv_Cons [OF zero_less_Suc] list.map map_Suc_upt [symmetric] map_map u'(3)) simp
  with u1(1) u' show ?case by simp
qed

lemma uf_classes:
  assumes "uf_inv n E u"
  shows "uf_count u = int (card ({..<n} // (conn E \<inter> {..<n} \<times> {..<n})))"
proof -
  let ?f = "uf_father u" and ?R = "conn E \<inter> {..<n} \<times> {..<n}"
  have len: "length ?f = n" and tot: "\<And>v. v < n \<Longrightarrow> \<exists>r. uf_root ?f v r"
    and cE: "\<And>v w. v < n \<Longrightarrow> w < n \<Longrightarrow> (\<exists>r. uf_root ?f v r \<and> uf_root ?f w r) = ((v, w) \<in> conn E)"
    using assms by (auto simp: uf_inv_def)
  have cls: "?R `` {v} = {w. uf_root ?f w r}" if "uf_root ?f v r" for v r
    using uf_root_range [OF that] len that cE uf_root_det uf_root_range by (auto simp: Image_def) metis+
  have "{..<n} // ?R = (\<lambda>r. {w. uf_root ?f w r}) ` {r. uf_root ?f r r}"
  proof (intro set_eqI iffI)
    fix X assume "X \<in> {..<n} // ?R"
    then obtain v where v: "v < n" "X = ?R `` {v}" by (auto elim: quotientE)
    obtain r where r: "uf_root ?f v r" using tot v by blast
    then have "uf_root ?f r r" using uf_root_range uf_root.at_root by blast
    with r v cls show "X \<in> (\<lambda>r. {w. uf_root ?f w r}) ` {r. uf_root ?f r r}" by blast
  next
    fix X assume "X \<in> (\<lambda>r. {w. uf_root ?f w r}) ` {r. uf_root ?f r r}"
    then obtain r where r: "uf_root ?f r r" "X = {w. uf_root ?f w r}" by auto
    then have "X = ?R `` {r}" "r \<in> {..<n}" using cls uf_root_range len by auto
    then show "X \<in> {..<n} // ?R" by (auto intro: quotientI)
  qed
  moreover have "inj_on (\<lambda>r. {w. uf_root ?f w r}) {r. uf_root ?f r r}"
    by (rule inj_onI) (use uf_root_det in blast)
  ultimately have "card ({..<n} // ?R) = card {r. uf_root ?f r r}" by (simp add: card_image)
  then show ?thesis using assms by (simp add: uf_inv_def)
qed

text \<open>
  C28. Joining any sequence of pairs of a fresh structure of \<open>n\<close> elements never leaves the vectors and
  always returns. Each \<open>FindAndUnit\<close> answers whether its pair was not yet connected by the pairs
  before it, \<open>count()\<close> is the number of connected components of \<open>{0..<n}\<close>, and afterwards two
  elements have the same root exactly when the pairs connect them.
\<close>

theorem union_find_correct:
  assumes "\<forall>(x, y) \<in> set ps. x < n \<and> y < n"
  shows "\<exists>u. uf_run (uf_new n) ps = Some (u, map (\<lambda>i. ps ! i \<notin> conn (set (take i ps))) [0..<length ps]) \<and>
    uf_get_count u = int (card ({..<n} // (conn (set ps) \<inter> {..<n} \<times> {..<n}))) \<and>
    (\<forall>x<n. \<forall>y<n. \<exists>u1 r u2 s. FindAndSet u x = Some (u1, r) \<and> FindAndSet u1 y = Some (u2, s) \<and>
       (r = s \<longleftrightarrow> (x, y) \<in> conn (set ps)))"
proof -
  obtain u bs where u: "uf_run (uf_new n) ps = Some (u, bs)" "uf_inv n (set ps) u"
    "bs = map (\<lambda>i. ps ! i \<notin> conn (set (take i ps))) [0..<length ps]"
    using uf_run_ok [OF uf_inv_new assms] by auto
  have "\<exists>u1 r u2 s. FindAndSet u x = Some (u1, r) \<and> FindAndSet u1 y = Some (u2, s) \<and> (r = s \<longleftrightarrow> (x, y) \<in> conn (set ps))"
    if xy: "x < n" "y < n" for x y
  proof -
    obtain u1 r where 1: "FindAndSet u x = Some (u1, r)" "uf_inv n (set ps) u1"
      "uf_root (uf_father u1) = uf_root (uf_father u)" "uf_root (uf_father u) x r"
      using FindAndSet_ok [OF u(2) xy(1)] by metis
    obtain u2 s where 2: "FindAndSet u1 y = Some (u2, s)" "uf_root (uf_father u1) y s"
      using FindAndSet_ok [OF 1(2) xy(2)] by metis
    have "(r = s) = ((x, y) \<in> conn (set ps))"
      using u(2) xy 1(3,4) 2(2) uf_root_det unfolding uf_inv_def by metis
    with 1(1) 2(1) show ?thesis by blast
  qed
  with u uf_classes [OF u(2)] show ?thesis by (auto simp: uf_get_count_def)
qed

theorem union_find_correct_witness:
  "(\<exists>u. uf_run (uf_new 4) [(0, 1), (2, 3), (1, 0)] =
      Some (u, map (\<lambda>i. [(0, 1), (2, 3), (1, 0)] ! i \<notin> conn (set (take i [(0, 1), (2, 3), (1, 0)])))
        [0..<length [(0::nat, 1::nat), (2, 3), (1, 0)]])) \<and>
   map_option snd (uf_run (uf_new 4) [(0, 1), (2, 3), (1, 0)]) = Some [True, True, False]"
proof
  have "\<forall>(x, y) \<in> set [(0::nat, 1::nat), (2, 3), (1, 0)]. x < 4 \<and> y < 4" by simp
  from union_find_correct [OF this] show "\<exists>u. uf_run (uf_new 4) [(0, 1), (2, 3), (1, 0)] =
      Some (u, map (\<lambda>i. [(0, 1), (2, 3), (1, 0)] ! i \<notin> conn (set (take i [(0, 1), (2, 3), (1, 0)])))
        [0..<length [(0::nat, 1::nat), (2, 3), (1, 0)]])"
    by blast
  show "map_option snd (uf_run (uf_new 4) [(0, 1), (2, 3), (1, 0)]) = Some [True, True, False]"
    by code_simp
qed

end
