(* ===== verification/SegTree.thy ===== *)
theory SegTree
  imports Prelude
begin

text \<open>
  The segment tree of \<open>cpp/datastructure/tree/segment_tree.h\<close>: two vectors, sums and lazy tags, in heap numbering
  (the children of node \<open>i\<close> are \<open>2 i + 1\<close> and \<open>2 i + 2\<close>). The element type is any commutative ring, so the
  statements hold for unbounded integers and for machine words of every width. Indices are unbounded here: the
  code's \<open>int32_t\<close> indices stay in range for vectors of less than \<open>2 ^ 29\<close> elements. A recursion that does not
  end, as well as an access outside a vector, is \<open>None\<close>.
\<close>

section \<open>The operations\<close>

record 'a segt =
  seg_tree :: "'a list"
  seg_lazy :: "'a list"

definition middle :: "int \<Rightarrow> int \<Rightarrow> int" where
  "middle cl cr = cl + cdiv (cr - cl) 2"

definition vadd :: "'a :: comm_ring_1 list \<Rightarrow> nat \<Rightarrow> 'a \<Rightarrow> 'a list option" where
  "vadd xs i x = do { y \<leftarrow> vget xs i; vset xs i (y + x) }"

definition seg_pull :: "'a :: comm_ring_1 segt \<Rightarrow> nat \<Rightarrow> 'a segt option" where
  "seg_pull st root =
     do { a \<leftarrow> vget (seg_tree st) (root * 2 + 1);
          b \<leftarrow> vget (seg_tree st) (root * 2 + 2);
          t \<leftarrow> vset (seg_tree st) root (a + b);
          Some (st\<lparr>seg_tree := t\<rparr>) }"

partial_function (option) seg_build :: "'a :: comm_ring_1 list \<Rightarrow> 'a segt \<Rightarrow> nat \<Rightarrow> int \<Rightarrow> int \<Rightarrow> 'a segt option" where
  "seg_build v st root cl cr =
     (if cl = cr then do { x \<leftarrow> ivget v cl; t \<leftarrow> vset (seg_tree st) root x; Some (st\<lparr>seg_tree := t\<rparr>) }
      else do {
        st1 \<leftarrow> seg_build v st (root * 2 + 1) cl (middle cl cr);
        st2 \<leftarrow> seg_build v st1 (root * 2 + 2) (middle cl cr + 1) cr;
        seg_pull st2 root })"

text \<open>\<open>init\<close> on a fresh object.\<close>

definition seg_init :: "'a :: comm_ring_1 list \<Rightarrow> bool \<Rightarrow> 'a segt option" where
  "seg_init v init_value =
     (let st = \<lparr>seg_tree = replicate (length v * 4) 0, seg_lazy = replicate (length v * 4) 0\<rparr>
      in if \<not> init_value then Some st else seg_build v st 0 0 (int (length v) - 1))"

definition seg_maintain :: "'a :: comm_ring_1 segt \<Rightarrow> int \<Rightarrow> int \<Rightarrow> nat \<Rightarrow> 'a segt option" where
  "seg_maintain st cl cr root =
     (let cm = middle cl cr in
      if cl = cr then Some st
      else do {
        z \<leftarrow> vget (seg_lazy st) root;
        if z = 0 then Some st
        else do {
          l \<leftarrow> vadd (seg_lazy st) (root * 2 + 1) z;
          l \<leftarrow> vadd l (root * 2 + 2) z;
          t \<leftarrow> vadd (seg_tree st) (root * 2 + 1) (z * of_int (cm - cl + 1));
          t \<leftarrow> vadd t (root * 2 + 2) (z * of_int (cr - cm));
          l \<leftarrow> vset l root 0;
          Some \<lparr>seg_tree = t, seg_lazy = l\<rparr> } })"

partial_function (option) seg_query ::
    "int \<Rightarrow> int \<Rightarrow> 'a :: comm_ring_1 segt \<Rightarrow> int \<Rightarrow> int \<Rightarrow> nat \<Rightarrow> ('a segt \<times> 'a) option" where
  "seg_query l r st cl cr root =
     (if l \<le> cl \<and> cr \<le> r then do { x \<leftarrow> vget (seg_tree st) root; Some (st, x) }
      else do {
        st \<leftarrow> seg_maintain st cl cr root;
        (st, a) \<leftarrow> (if l \<le> middle cl cr then seg_query l r st cl (middle cl cr) (root * 2 + 1) else Some (st, 0));
        (st, b) \<leftarrow> (if middle cl cr < r then seg_query l r st (middle cl cr + 1) cr (root * 2 + 2) else Some (st, 0));
        Some (st, a + b) })"

definition seg_last :: "'a segt \<Rightarrow> int" where
  "seg_last st = int (length (seg_tree st) div 4) - 1"

definition range_sum :: "'a :: comm_ring_1 segt \<Rightarrow> int \<Rightarrow> int \<Rightarrow> ('a segt \<times> 'a) option" where
  "range_sum st l r = seg_query l r st 0 (seg_last st) 0"

partial_function (option) seg_add ::
    "int \<Rightarrow> int \<Rightarrow> 'a :: comm_ring_1 \<Rightarrow> 'a segt \<Rightarrow> int \<Rightarrow> int \<Rightarrow> nat \<Rightarrow> 'a segt option" where
  "seg_add l r v st cl cr root =
     (if l \<le> cl \<and> cr \<le> r then do {
        z \<leftarrow> vadd (seg_lazy st) root v;
        t \<leftarrow> vadd (seg_tree st) root (of_int (cr - cl + 1) * v);
        Some \<lparr>seg_tree = t, seg_lazy = z\<rparr> }
      else do {
        st \<leftarrow> seg_maintain st cl cr root;
        st \<leftarrow> (if l \<le> middle cl cr then seg_add l r v st cl (middle cl cr) (root * 2 + 1) else Some st);
        st \<leftarrow> (if middle cl cr < r then seg_add l r v st (middle cl cr + 1) cr (root * 2 + 2) else Some st);
        seg_pull st root })"

definition range_add :: "'a :: comm_ring_1 segt \<Rightarrow> int \<Rightarrow> int \<Rightarrow> 'a \<Rightarrow> 'a segt option" where
  "range_add st l r v = seg_add l r v st 0 (seg_last st) 0"

definition seg_set_maintain :: "'a :: comm_ring_1 segt \<Rightarrow> int \<Rightarrow> int \<Rightarrow> nat \<Rightarrow> 'a segt option" where
  "seg_set_maintain st cl cr root =
     (let cm = middle cl cr in
      if cl = cr then Some st
      else do {
        z \<leftarrow> vget (seg_lazy st) root;
        if z = 0 then Some st
        else do {
          l \<leftarrow> vset (seg_lazy st) (root * 2 + 1) z;
          l \<leftarrow> vset l (root * 2 + 2) z;
          t \<leftarrow> vset (seg_tree st) (root * 2 + 1) (of_int (cm - cl + 1) * z);
          t \<leftarrow> vset t (root * 2 + 2) (of_int (cr - cm) * z);
          l \<leftarrow> vset l root 0;
          Some \<lparr>seg_tree = t, seg_lazy = l\<rparr> } })"

partial_function (option) seg_set ::
    "int \<Rightarrow> int \<Rightarrow> 'a :: comm_ring_1 \<Rightarrow> 'a segt \<Rightarrow> int \<Rightarrow> int \<Rightarrow> nat \<Rightarrow> 'a segt option" where
  "seg_set l r v st cl cr root =
     (if l \<le> cl \<and> cr \<le> r then do {
        z \<leftarrow> vset (seg_lazy st) root v;
        t \<leftarrow> vset (seg_tree st) root (of_int (cr - cl + 1) * v);
        Some \<lparr>seg_tree = t, seg_lazy = z\<rparr> }
      else do {
        st \<leftarrow> seg_set_maintain st cl cr root;
        st \<leftarrow> (if cl \<le> middle cl cr then seg_set l r v st cl (middle cl cr) (root * 2 + 1) else Some st);
        st \<leftarrow> (if middle cl cr < cr then seg_set l r v st (middle cl cr + 1) cr (root * 2 + 2) else Some st);
        seg_pull st root })"

definition range_set :: "'a :: comm_ring_1 segt \<Rightarrow> int \<Rightarrow> int \<Rightarrow> 'a \<Rightarrow> 'a segt option" where
  "range_set st l r v = seg_set l r v st 0 (seg_last st) 0"

section \<open>Heap numbering\<close>

definition below :: "nat \<Rightarrow> nat \<Rightarrow> bool" where
  "below r j \<longleftrightarrow> (\<exists>d. (j + 1) div 2 ^ d = r + 1)"

lemma below_refl [simp]: "below r r"
  unfolding below_def by (rule exI [of _ 0]) simp

lemma below_up: "(j + 1) div 2 ^ d = c \<Longrightarrow> c div 2 = r + 1 \<Longrightarrow> below r j"
  unfolding below_def by (intro exI [of _ "Suc d"]) (metis div_mult2_eq mult.commute power_Suc)

lemma below_sub: "below (2 * r + 1) j \<Longrightarrow> below r j" "below (2 * r + 2) j \<Longrightarrow> below r j"
  unfolding below_def [of "2 * r + 1"] below_def [of "2 * r + 2"] by (elim exE, erule below_up, simp)+

lemma below_ge: "below r j \<Longrightarrow> r \<le> j"
  unfolding below_def by (metis Suc_eq_plus1 Suc_le_mono div_le_dividend)

lemma below_disjoint: "below (2 * r + 1) j \<Longrightarrow> below (2 * r + 2) j \<Longrightarrow> False"
proof -
  assume "below (2 * r + 1) j" "below (2 * r + 2) j"
  then obtain d e where d: "(j + 1) div 2 ^ d = 2 * r + 2" and e: "(j + 1) div 2 ^ e = 2 * r + 3"
    unfolding below_def by (elim exE) (simp add: numeral_3_eq_3)
  show False
  proof (cases "d \<le> e")
    case True
    then have "(j + 1) div 2 ^ e \<le> (j + 1) div 2 ^ d" by (intro div_le_mono2) (auto intro: power_increasing)
    then show False using d e by simp
  next
    case False
    then obtain k where k: "d = Suc (e + k)" by (metis add_Suc_right less_iff_Suc_add not_le)
    have "(j + 1) div 2 ^ d = (2 * r + 3) div 2 ^ Suc k"
      unfolding k e [symmetric] by (simp flip: div_mult2_eq add: power_add mult.left_commute)
    also have "\<dots> \<le> (2 * r + 3) div 2" by (intro div_le_mono2) simp_all
    finally show False using d by simp
  qed
qed

lemma not_below_left: "\<not> below (2 * r + 1) r" "\<not> below (2 * r + 2) r" "\<not> below (2 * r + 1) (2 * r + 2)" "\<not> below (2 * r + 2) (2 * r + 1)"
  using below_ge below_disjoint below_refl by fastforce+

section \<open>What a node represents\<close>

text \<open>
  \<open>seg st r xs\<close>: node \<open>r\<close> stands for the values \<open>xs\<close>. Its sum counts its own tag, its children do not yet.
\<close>

inductive seg :: "'a :: comm_ring_1 segt \<Rightarrow> nat \<Rightarrow> 'a list \<Rightarrow> bool" for st where
  leaf: "r < length (seg_tree st) \<Longrightarrow> r < length (seg_lazy st) \<Longrightarrow> x = seg_tree st ! r \<Longrightarrow> seg st r [x]"
| node: "r < length (seg_tree st) \<Longrightarrow> r < length (seg_lazy st) \<Longrightarrow> seg st (2 * r + 1) ys \<Longrightarrow> seg st (2 * r + 2) zs \<Longrightarrow>
    length ys = Suc ((length ys + length zs - 1) div 2) \<Longrightarrow> xs = map ((+) (seg_lazy st ! r)) (ys @ zs) \<Longrightarrow>
    seg_tree st ! r = sum_list xs \<Longrightarrow> seg st r xs"

inductive_cases seg_cases: "seg st r xs"

lemma seg_nonempty: "seg st r xs \<Longrightarrow> xs \<noteq> []"
  by (induction rule: seg.induct) auto

lemma seg_bounds: "seg st r xs \<Longrightarrow> r < length (seg_tree st) \<and> r < length (seg_lazy st)"
  by (erule seg_cases) auto

lemma seg_sum: "seg st r xs \<Longrightarrow> seg_tree st ! r = sum_list xs"
  by (erule seg_cases) auto

definition same_at :: "'a segt \<Rightarrow> 'a segt \<Rightarrow> nat \<Rightarrow> bool" where
  "same_at st st' j \<longleftrightarrow> seg_tree st' ! j = seg_tree st ! j \<and> seg_lazy st' ! j = seg_lazy st ! j"

definition same_size :: "'a segt \<Rightarrow> 'a segt \<Rightarrow> bool" where
  "same_size st st' \<longleftrightarrow> length (seg_tree st') = length (seg_tree st) \<and> length (seg_lazy st') = length (seg_lazy st)"

lemma same_trans: "same_at a b j \<Longrightarrow> same_at b c j \<Longrightarrow> same_at a c j" "same_size a b \<Longrightarrow> same_size b c \<Longrightarrow> same_size a c"
  by (simp_all add: same_at_def same_size_def)

lemma same_refl [simp]: "same_at a a j" "same_size a a"
  by (simp_all add: same_at_def same_size_def)

lemma seg_frame:
  "seg st r xs \<Longrightarrow> same_size st st' \<Longrightarrow> (\<And>j. below r j \<Longrightarrow> same_at st st' j) \<Longrightarrow> seg st' r xs"
proof (induction rule: seg.induct)
  case (leaf r x)
  then show ?case using leaf(5) [of r] by (intro seg.leaf) (simp_all add: same_at_def same_size_def)
next
  case (node r ys zs xs)
  have r: "same_at st st' r" using node.prems(2) by simp
  show ?case
  proof (rule seg.node)
    show "seg st' (2 * r + 1) ys" "seg st' (2 * r + 2) zs" using node below_sub by blast+
    show "xs = map ((+) (seg_lazy st' ! r)) (ys @ zs)" "seg_tree st' ! r = sum_list xs"
      using r node.hyps(6,7) by (simp_all add: same_at_def)
  qed (use node in \<open>simp_all add: same_size_def\<close>)
qed

lemma sum_list_plus: "sum_list (map ((+) c) xs) = of_int (int (length xs)) * c + (sum_list xs :: 'a :: comm_ring_1)"
  by (induction xs) (simp_all add: algebra_simps)

lemma map_plus_plus: "map ((+) c) (map ((+) z) xs) = map ((+) (z + c :: 'a :: comm_ring_1)) xs"
  by (simp add: add.assoc add.left_commute)

definition bump :: "nat \<Rightarrow> 'a :: comm_ring_1 \<Rightarrow> int \<Rightarrow> 'a segt \<Rightarrow> 'a segt" where
  "bump r c w st = \<lparr>seg_tree = (seg_tree st)[r := seg_tree st ! r + of_int w * c],
     seg_lazy = (seg_lazy st)[r := seg_lazy st ! r + c]\<rparr>"

lemma bump_same: "j \<noteq> r \<Longrightarrow> same_at st (bump r c w st) j" "same_size st (bump r c w st)"
  by (simp_all add: bump_def same_at_def same_size_def)

lemma seg_bump:
  assumes "seg st r xs" "w = int (length xs)"
  shows "seg (bump r c w st) r (map ((+) c) xs)"
  using assms(1)
proof (cases rule: seg.cases)
  case leaf
  then show ?thesis using assms(2) by (auto simp: bump_def add.commute intro!: seg.leaf)
next
  case (node ys zs)
  let ?st = "bump r c w st"
  have "same_at st ?st j" if "below (2 * r + 1) j \<or> below (2 * r + 2) j" for j
    using that not_below_left by (intro bump_same) auto
  then have s: "seg ?st (2 * r + 1) ys" "seg ?st (2 * r + 2) zs"
    by (blast intro: seg_frame [OF node(3)] seg_frame [OF node(4)] bump_same)+
  have m: "map ((+) c) xs = map ((+) (seg_lazy ?st ! r)) (ys @ zs)"
    unfolding node(6) map_plus_plus using node(2) by (simp add: bump_def)
  have t: "seg_tree ?st ! r = sum_list (map ((+) c) xs)"
    unfolding sum_list_plus using node(1,7) assms(2) by (simp add: bump_def add.commute)
  show ?thesis by (rule seg.node [OF _ _ s node(5) m t]) (use node(1,2) in \<open>simp_all add: bump_def\<close>)
qed

section \<open>Passing tags on\<close>

lemma middle_eq: "cr = cl + int n - 1 \<Longrightarrow> 0 < n \<Longrightarrow> middle cl cr = cl + int ((n - 1) div 2)"
  by (simp add: middle_def of_nat_diff zdiv_int)

definition widths :: "'a list \<Rightarrow> 'a list \<Rightarrow> bool" where
  "widths ys zs \<longleftrightarrow> length ys = Suc ((length ys + length zs - 1) div 2) \<and> zs \<noteq> []"

lemma widths_middle:
  assumes "widths ys zs" "cr = cl + int (length (ys @ zs)) - 1"
  shows "middle cl cr = cl + int (length ys) - 1" "cl \<noteq> cr"
proof -
  have "length (ys @ zs) - 1 \<ge> 1" using assms(1) by (cases zs) (auto simp: widths_def)
  then show "cl \<noteq> cr" using assms(2) by linarith
  have "middle cl cr = cl + int ((length (ys @ zs) - 1) div 2)" by (rule middle_eq [OF assms(2)]) (use assms(1) in \<open>simp add: widths_def\<close>)
  then show "middle cl cr = cl + int (length ys) - 1" using assms(1) unfolding widths_def by simp
qed

text \<open>A node whose tag is empty: its children stand for its values.\<close>

definition opened :: "'a :: comm_ring_1 segt \<Rightarrow> nat \<Rightarrow> 'a list \<Rightarrow> 'a list \<Rightarrow> bool" where
  "opened st r ys zs \<longleftrightarrow> r < length (seg_tree st) \<and> r < length (seg_lazy st) \<and> seg_lazy st ! r = 0 \<and>
     seg st (2 * r + 1) ys \<and> seg st (2 * r + 2) zs \<and> widths ys zs"

lemma map_plus_0: "map ((+) (0 :: 'a :: comm_ring_1)) xs = xs"
  by (simp add: map_idI)

lemma maintain_ok:
  assumes "seg st r xs" "cr = cl + int (length xs) - 1" "1 < length xs"
  shows "\<exists>st' ys zs. seg_maintain st cl cr r = Some st' \<and> opened st' r ys zs \<and> xs = ys @ zs \<and> same_size st st' \<and>
    seg_tree st' ! r = sum_list xs \<and> (\<forall>j. \<not> below r j \<longrightarrow> same_at st st' j)"
  using assms(1)
proof (cases rule: seg.cases)
  case (node ys zs)
  let ?z = "seg_lazy st ! r" let ?ys = "map ((+) ?z) ys" let ?zs = "map ((+) ?z) zs"
  have w: "widths ys zs" using node(4,5) seg_nonempty unfolding widths_def by blast
  have stop: "cr = cl + int (length (ys @ zs)) - 1" using assms(2) node(6) by simp
  note cm = widths_middle [OF w stop]
  have cr: "cr = middle cl cr + int (length zs)" using cm(1) stop by simp
  show ?thesis
  proof (cases "?z = 0")
    case True
    have "xs = ys @ zs" unfolding node(6) True map_plus_0 ..
    moreover have "seg_maintain st cl cr r = Some st" using True node(1,2) cm(2) by (simp add: seg_maintain_def Let_def)
    moreover have "opened st r ys zs" using node(1-4) True w by (simp add: opened_def)
    ultimately show ?thesis using node(7) same_refl by blast
  next
    case False
    let ?a = "bump (2 * r + 1) ?z (int (length ys)) st"
    let ?b = "bump (2 * r + 2) ?z (int (length zs)) ?a"
    let ?c = "?b\<lparr>seg_lazy := (seg_lazy ?b)[r := 0]\<rparr>"
    have b1: "2 * r + 1 < length (seg_tree st)" "2 * r + 1 < length (seg_lazy st)" using seg_bounds [OF node(3)] by simp_all
    have b2: "2 * r + 2 < length (seg_tree st)" "2 * r + 2 < length (seg_lazy st)" using seg_bounds [OF node(4)] by simp_all
    have "seg_maintain st cl cr r = Some ?c"
      using False node(1,2) b1 b2 cm cr by (simp add: seg_maintain_def Let_def vadd_def bump_def mult.commute)
    moreover have "opened ?c r ?ys ?zs"
    proof -
      have "same_at st ?a j" if "below (2 * r + 2) j" for j using that not_below_left(4) by (intro bump_same) auto
      then have "seg ?a (2 * r + 2) zs" by (rule seg_frame [OF node(4) bump_same(2)])
      then have sb: "seg ?b (2 * r + 2) ?zs" by (rule seg_bump) simp
      have sa: "seg ?a (2 * r + 1) ?ys" by (rule seg_bump [OF node(3)]) simp
      have "same_at ?a ?b j" if "below (2 * r + 1) j" for j using that not_below_left(3) by (intro bump_same) auto
      then have sa: "seg ?b (2 * r + 1) ?ys" by (rule seg_frame [OF sa bump_same(2)])
      have c: "same_size ?b ?c" "\<And>j. j \<noteq> r \<Longrightarrow> same_at ?b ?c j" by (simp_all add: same_size_def same_at_def)
      have "seg ?c (2 * r + 1) ?ys" by (rule seg_frame [OF sa c(1)]) (rule c(2), use not_below_left in auto)
      moreover have "seg ?c (2 * r + 2) ?zs" by (rule seg_frame [OF sb c(1)]) (rule c(2), use not_below_left in auto)
      ultimately show ?thesis using node(1,2) w by (simp add: opened_def bump_def widths_def)
    qed
    moreover have "same_size st ?c" by (simp add: same_size_def bump_def)
    moreover have "seg_tree ?c ! r = sum_list xs" using node(7) by (simp add: bump_def)
    moreover have "same_at st ?c j" if "\<not> below r j" for j
    proof -
      have "j \<noteq> r" "j \<noteq> 2 * r + 1" "j \<noteq> 2 * r + 2" using that below_sub by (metis below_refl)+
      then show ?thesis by (simp add: same_at_def bump_def)
    qed
    ultimately show ?thesis using node(6) by (metis map_append)
  qed
qed (use assms(3) in simp)

lemma opened_left:
  assumes "opened st r ys zs" "seg st' (2 * r + 1) ys'" "length ys' = length ys" "same_size st st'"
    "\<And>j. \<not> below (2 * r + 1) j \<Longrightarrow> same_at st st' j"
  shows "opened st' r ys' zs" "seg_tree st' ! r = seg_tree st ! r"
proof -
  have r: "same_at st st' r" using assms(5) not_below_left by blast
  then show "seg_tree st' ! r = seg_tree st ! r" by (simp add: same_at_def)
  have "same_at st st' j" if "below (2 * r + 2) j" for j using assms(5) below_disjoint that by blast
  then have "seg st' (2 * r + 2) zs" using assms(1) seg_frame [OF _ assms(4)] unfolding opened_def by blast
  then show "opened st' r ys' zs"
    using assms(1-4) r unfolding opened_def widths_def same_size_def same_at_def by presburger
qed

lemma opened_right:
  assumes "opened st r ys zs" "seg st' (2 * r + 2) zs'" "length zs' = length zs" "same_size st st'"
    "\<And>j. \<not> below (2 * r + 2) j \<Longrightarrow> same_at st st' j"
  shows "opened st' r ys zs'" "seg_tree st' ! r = seg_tree st ! r"
proof -
  have r: "same_at st st' r" using assms(5) not_below_left by blast
  then show "seg_tree st' ! r = seg_tree st ! r" by (simp add: same_at_def)
  have "same_at st st' j" if "below (2 * r + 1) j" for j using assms(5) below_disjoint that by blast
  then have "seg st' (2 * r + 1) ys" using assms(1) seg_frame [OF _ assms(4)] unfolding opened_def by blast
  moreover have "zs' \<noteq> []" using assms(2) seg_nonempty by blast
  ultimately show "opened st' r ys zs'"
    using assms(1-4) r unfolding opened_def widths_def same_size_def same_at_def by presburger
qed

lemma opened_seg:
  assumes "opened st r ys zs" "seg_tree st ! r = sum_list (ys @ zs)"
  shows "seg st r (ys @ zs)"
proof -
  have o: "r < length (seg_tree st)" "r < length (seg_lazy st)" "seg st (2 * r + 1) ys" "seg st (2 * r + 2) zs"
    "length ys = Suc ((length ys + length zs - 1) div 2)" "seg_lazy st ! r = 0"
    using assms(1) unfolding opened_def widths_def by blast+
  have "ys @ zs = map ((+) (seg_lazy st ! r)) (ys @ zs)" unfolding o(6) map_plus_0 ..
  then show ?thesis using o(1-5) assms(2) by (rule_tac seg.node)
qed

lemma pull_ok:
  assumes "opened st r ys zs"
  shows "\<exists>st'. seg_pull st r = Some st' \<and> seg st' r (ys @ zs) \<and> same_size st st' \<and> (\<forall>j. j \<noteq> r \<longrightarrow> same_at st st' j)"
proof -
  let ?st = "st\<lparr>seg_tree := (seg_tree st)[r := sum_list ys + sum_list zs]\<rparr>"
  have o: "seg st (2 * r + 1) ys" "seg st (2 * r + 2) zs" "r < length (seg_tree st)" "widths ys zs"
    using assms unfolding opened_def by blast+
  have b: "2 * r + 1 < length (seg_tree st)" "2 * r + 2 < length (seg_tree st)"
    using seg_bounds [OF o(1)] seg_bounds [OF o(2)] by simp_all
  have p: "seg_pull st r = Some ?st"
    using b o(3) seg_sum [OF o(1)] seg_sum [OF o(2)] by (simp add: seg_pull_def mult.commute)
  have sz: "same_size st ?st" and at: "\<And>j. j \<noteq> r \<Longrightarrow> same_at st ?st j" by (simp_all add: same_size_def same_at_def)
  have "seg ?st (2 * r + 1) ys" by (rule seg_frame [OF o(1) sz]) (rule at, use not_below_left in auto)
  moreover have "seg ?st (2 * r + 2) zs" by (rule seg_frame [OF o(2) sz]) (rule at, use not_below_left in auto)
  ultimately have "opened ?st r ys zs" using assms unfolding opened_def by simp
  then have "seg ?st r (ys @ zs)" by (rule opened_seg) (use o(3) in simp)
  then show ?thesis using p sz at by blast
qed

section \<open>The operations on values\<close>

fun add_in :: "int \<Rightarrow> int \<Rightarrow> 'a :: comm_ring_1 \<Rightarrow> int \<Rightarrow> 'a list \<Rightarrow> 'a list" where
  "add_in lo hi v c [] = []"
| "add_in lo hi v c (x # xs) = (if lo \<le> c \<and> c \<le> hi then x + v else x) # add_in lo hi v (c + 1) xs"

fun sum_in :: "int \<Rightarrow> int \<Rightarrow> int \<Rightarrow> 'a :: comm_ring_1 list \<Rightarrow> 'a" where
  "sum_in lo hi c [] = 0"
| "sum_in lo hi c (x # xs) = (if lo \<le> c \<and> c \<le> hi then x else 0) + sum_in lo hi (c + 1) xs"

lemma in_append:
  "add_in lo hi v c (ys @ zs) = add_in lo hi v c ys @ add_in lo hi v (c + int (length ys)) zs"
  "sum_in lo hi c (ys @ zs) = sum_in lo hi c ys + sum_in lo hi (c + int (length ys)) zs"
  by (induction ys arbitrary: c) (simp_all add: algebra_simps)

lemma in_all:
  "lo \<le> c \<Longrightarrow> c + int (length xs) - 1 \<le> hi \<Longrightarrow> add_in lo hi v c xs = map ((+) v) xs"
  "lo \<le> c \<Longrightarrow> c + int (length xs) - 1 \<le> hi \<Longrightarrow> sum_in lo hi c xs = sum_list xs"
  by (induction xs arbitrary: c) (simp_all add: algebra_simps)

lemma in_none:
  "hi < c \<or> c + int (length xs) - 1 < lo \<Longrightarrow> add_in lo hi v c xs = xs"
  "hi < c \<or> c + int (length xs) - 1 < lo \<Longrightarrow> sum_in lo hi c xs = 0"
proof (induction xs arbitrary: c)
  case (Cons x xs)
  { case 1 then show ?case using Cons.IH(1) [of "c + 1"] by auto }
  { case 2 then show ?case using Cons.IH(2) [of "c + 1"] by auto }
qed simp_all

lemma length_add_in [simp]: "length (add_in lo hi v c xs) = length xs"
  by (induction xs arbitrary: c) simp_all

text \<open>A node of one element that meets the range lies inside it.\<close>

lemma wide_node: "lo \<le> cr \<Longrightarrow> cl \<le> hi \<Longrightarrow> cr = cl + int (length xs) - 1 \<Longrightarrow> \<not> (lo \<le> cl \<and> cr \<le> hi) \<Longrightarrow> xs \<noteq> [] \<Longrightarrow> 1 < length xs"
  by (cases xs) auto

section \<open>Queries and additions\<close>

definition kept :: "nat \<Rightarrow> 'a segt \<Rightarrow> 'a segt \<Rightarrow> bool" where
  "kept r st st' \<longleftrightarrow> same_size st st' \<and> (\<forall>j. \<not> below r j \<longrightarrow> same_at st st' j)"

lemma kept_refl [simp]: "kept r st st"
  by (simp add: kept_def)

lemma kept_trans: "kept r a b \<Longrightarrow> kept r b c \<Longrightarrow> kept r a c"
  unfolding kept_def using same_trans by blast

lemma kept_child: "kept (2 * r + 1) a b \<Longrightarrow> kept r a b" "kept (2 * r + 2) a b \<Longrightarrow> kept r a b"
  unfolding kept_def using below_sub by blast+

lemma maintain_kept:
  assumes "seg st r xs" "cr = cl + int (length xs) - 1" "lo \<le> cr" "cl \<le> hi" "\<not> (lo \<le> cl \<and> cr \<le> hi)"
  obtains st' ys zs where "seg_maintain st cl cr r = Some st'" "opened st' r ys zs" "xs = ys @ zs" "kept r st st'"
    "seg_tree st' ! r = sum_list xs" "middle cl cr = cl + int (length ys) - 1" "cr = middle cl cr + 1 + int (length zs) - 1"
    "length ys < length xs" "length zs < length xs"
proof -
  have l: "1 < length xs" by (rule wide_node [OF assms(3,4,2,5) seg_nonempty [OF assms(1)]])
  obtain st' ys zs where m: "seg_maintain st cl cr r = Some st'" "opened st' r ys zs" "xs = ys @ zs" "same_size st st'"
    "seg_tree st' ! r = sum_list xs" "\<forall>j. \<not> below r j \<longrightarrow> same_at st st' j"
    using maintain_ok [OF assms(1,2) l] by blast
  have w: "widths ys zs" using m(2) unfolding opened_def by blast
  have mid: "middle cl cr = cl + int (length ys) - 1" by (rule widths_middle [OF w]) (use assms(2) m(3) in simp)
  have "ys \<noteq> []" "zs \<noteq> []" using w unfolding widths_def by (metis list.size(3) nat.distinct(1)) (use w widths_def in blast)
  then have "length ys < length xs" "length zs < length xs" using m(3) by simp_all
  moreover have "kept r st st'" unfolding kept_def using m(4,6) by blast
  moreover have "cr = middle cl cr + 1 + int (length zs) - 1" using mid assms(2) m(3) by simp
  ultimately show thesis using that m mid by blast
qed

lemma seg_query_ok:
  "seg st r xs \<Longrightarrow> cr = cl + int (length xs) - 1 \<Longrightarrow> lo \<le> hi \<Longrightarrow> lo \<le> cr \<Longrightarrow> cl \<le> hi \<Longrightarrow>
     \<exists>st'. seg_query lo hi st cl cr r = Some (st', sum_in lo hi cl xs) \<and> seg st' r xs \<and> kept r st st'"
proof (induction "length xs" arbitrary: st r xs cl cr rule: less_induct)
  case less
  note prems = less.prems
  show ?case
  proof (cases "lo \<le> cl \<and> cr \<le> hi")
    case True
    have "seg_query lo hi st cl cr r = Some (st, sum_list xs)"
      using True seg_bounds [OF prems(1)] seg_sum [OF prems(1)] by (simp add: seg_query.simps)
    then show ?thesis using in_all(2) [of lo cl xs hi] True prems(1,2) by auto
  next
    case False
    from maintain_kept [OF prems(1,2,4,5) False] obtain st1 ys zs where
      m: "seg_maintain st cl cr r = Some st1" and o: "opened st1 r ys zs" and xs: "xs = ys @ zs" and k1: "kept r st st1"
        and t1: "seg_tree st1 ! r = sum_list xs" and mid: "middle cl cr = cl + int (length ys) - 1"
        and cr: "cr = middle cl cr + 1 + int (length zs) - 1" and sm: "length ys < length xs" "length zs < length xs" .
    have o1: "seg st1 (2 * r + 1) ys" using o unfolding opened_def by blast
    have "\<exists>st2. (if lo \<le> middle cl cr then seg_query lo hi st1 cl (middle cl cr) (2 * r + 1) else Some (st1, 0)) =
        Some (st2, sum_in lo hi cl ys) \<and> opened st2 r ys zs \<and> kept r st1 st2 \<and> seg_tree st2 ! r = sum_list xs"
    proof (cases "lo \<le> middle cl cr")
      case True
      from less.hyps [OF sm(1) o1 mid prems(3) True prems(5)] obtain st2 where
        q: "seg_query lo hi st1 cl (middle cl cr) (2 * r + 1) = Some (st2, sum_in lo hi cl ys)" "seg st2 (2 * r + 1) ys"
           "kept (2 * r + 1) st1 st2" by blast
      have "opened st2 r ys zs" "seg_tree st2 ! r = seg_tree st1 ! r"
        by (rule opened_left [OF o q(2)], simp, use q(3) kept_def in blast, use q(3) kept_def in blast)+
      then show ?thesis using True q kept_child(1) t1 by auto
    next
      case False
      then show ?thesis using in_none(2) [of hi cl ys lo] mid o t1 by auto
    qed
    then obtain st2 where q1: "(if lo \<le> middle cl cr then seg_query lo hi st1 cl (middle cl cr) (2 * r + 1) else Some (st1, 0)) =
        Some (st2, sum_in lo hi cl ys)" and o2: "opened st2 r ys zs" and k2: "kept r st1 st2" and t2: "seg_tree st2 ! r = sum_list xs"
      by blast
    have o3: "seg st2 (2 * r + 2) zs" using o2 unfolding opened_def by blast
    have "\<exists>st3. (if middle cl cr < hi then seg_query lo hi st2 (middle cl cr + 1) cr (2 * r + 2) else Some (st2, 0)) =
        Some (st3, sum_in lo hi (middle cl cr + 1) zs) \<and> opened st3 r ys zs \<and> kept r st2 st3 \<and> seg_tree st3 ! r = sum_list xs"
    proof (cases "middle cl cr < hi")
      case True
      then have c: "middle cl cr + 1 \<le> hi" by simp
      from less.hyps [OF sm(2) o3 cr prems(3,4) c] obtain st3 where
        q: "seg_query lo hi st2 (middle cl cr + 1) cr (2 * r + 2) = Some (st3, sum_in lo hi (middle cl cr + 1) zs)"
           "seg st3 (2 * r + 2) zs" "kept (2 * r + 2) st2 st3" by blast
      have "opened st3 r ys zs" "seg_tree st3 ! r = seg_tree st2 ! r"
        by (rule opened_right [OF o2 q(2)], simp, use q(3) kept_def in blast, use q(3) kept_def in blast)+
      then show ?thesis using True q kept_child(2) t2 by auto
    next
      case False
      then show ?thesis using in_none(2) [of hi "middle cl cr + 1" zs lo] o2 t2 by auto
    qed
    then obtain st3 where q2: "(if middle cl cr < hi then seg_query lo hi st2 (middle cl cr + 1) cr (2 * r + 2) else Some (st2, 0)) =
        Some (st3, sum_in lo hi (middle cl cr + 1) zs)" and o4: "opened st3 r ys zs" and k3: "kept r st2 st3"
      and t3: "seg_tree st3 ! r = sum_list xs" by blast
    have "sum_in lo hi cl xs = sum_in lo hi cl ys + sum_in lo hi (middle cl cr + 1) zs"
      unfolding xs in_append(2) mid by simp
    then have "seg_query lo hi st cl cr r = Some (st3, sum_in lo hi cl xs)"
      by (simp only: seg_query.simps [of lo hi st] if_not_P [OF False] mult.commute [of r 2] m q1 q2 Option.bind.simps prod.case)
    moreover have "seg st3 r xs" using opened_seg [OF o4] t3 xs by simp
    moreover have "kept r st st3" using kept_trans k1 k2 k3 by blast
    ultimately show ?thesis by blast
  qed
qed

lemma seg_add_ok:
  "seg st r xs \<Longrightarrow> cr = cl + int (length xs) - 1 \<Longrightarrow> lo \<le> hi \<Longrightarrow> lo \<le> cr \<Longrightarrow> cl \<le> hi \<Longrightarrow>
     \<exists>st'. seg_add lo hi v st cl cr r = Some st' \<and> seg st' r (add_in lo hi v cl xs) \<and> kept r st st'"
proof (induction "length xs" arbitrary: st r xs cl cr rule: less_induct)
  case less
  note prems = less.prems
  show ?case
  proof (cases "lo \<le> cl \<and> cr \<le> hi")
    case True
    let ?st = "bump r v (cr - cl + 1) st"
    have "seg_add lo hi v st cl cr r = Some ?st"
      using True seg_bounds [OF prems(1)] by (simp add: seg_add.simps vadd_def bump_def)
    moreover have "seg ?st r (add_in lo hi v cl xs)"
      unfolding in_all(1) [OF conjunct1 [OF True] conjunct2 [OF True, unfolded prems(2)]]
      by (rule seg_bump [OF prems(1)]) (use prems(2) in simp)
    moreover have "kept r st ?st" unfolding kept_def using bump_same below_refl by metis
    ultimately show ?thesis by blast
  next
    case False
    from maintain_kept [OF prems(1,2,4,5) False] obtain st1 ys zs where
      m: "seg_maintain st cl cr r = Some st1" and o: "opened st1 r ys zs" and xs: "xs = ys @ zs" and k1: "kept r st st1"
        and mid: "middle cl cr = cl + int (length ys) - 1"
        and cr: "cr = middle cl cr + 1 + int (length zs) - 1" and sm: "length ys < length xs" "length zs < length xs" .
    let ?ys = "add_in lo hi v cl ys" let ?zs = "add_in lo hi v (middle cl cr + 1) zs"
    have o1: "seg st1 (2 * r + 1) ys" using o unfolding opened_def by blast
    have "\<exists>st2. (if lo \<le> middle cl cr then seg_add lo hi v st1 cl (middle cl cr) (2 * r + 1) else Some st1) = Some st2 \<and>
        opened st2 r ?ys zs \<and> kept r st1 st2"
    proof (cases "lo \<le> middle cl cr")
      case True
      from less.hyps [OF sm(1) o1 mid prems(3) True prems(5)] obtain st2 where
        q: "seg_add lo hi v st1 cl (middle cl cr) (2 * r + 1) = Some st2" "seg st2 (2 * r + 1) ?ys" "kept (2 * r + 1) st1 st2" by blast
      have "opened st2 r ?ys zs"
        by (rule opened_left [OF o q(2)], simp, use q(3) kept_def in blast, use q(3) kept_def in blast)
      then show ?thesis using True q kept_child(1) by auto
    next
      case False
      then show ?thesis using in_none(1) [of hi cl ys lo] mid o by auto
    qed
    then obtain st2 where q1: "(if lo \<le> middle cl cr then seg_add lo hi v st1 cl (middle cl cr) (2 * r + 1) else Some st1) = Some st2"
      and o2: "opened st2 r ?ys zs" and k2: "kept r st1 st2" by blast
    have o3: "seg st2 (2 * r + 2) zs" using o2 unfolding opened_def by blast
    have "\<exists>st3. (if middle cl cr < hi then seg_add lo hi v st2 (middle cl cr + 1) cr (2 * r + 2) else Some st2) = Some st3 \<and>
        opened st3 r ?ys ?zs \<and> kept r st2 st3"
    proof (cases "middle cl cr < hi")
      case True
      then have c: "middle cl cr + 1 \<le> hi" by simp
      from less.hyps [OF sm(2) o3 cr prems(3,4) c] obtain st3 where
        q: "seg_add lo hi v st2 (middle cl cr + 1) cr (2 * r + 2) = Some st3" "seg st3 (2 * r + 2) ?zs" "kept (2 * r + 2) st2 st3" by blast
      have "opened st3 r ?ys ?zs"
        by (rule opened_right [OF o2 q(2)], simp, use q(3) kept_def in blast, use q(3) kept_def in blast)
      then show ?thesis using True q kept_child(2) by auto
    next
      case False
      then show ?thesis using in_none(1) [of hi "middle cl cr + 1" zs lo] o2 by auto
    qed
    then obtain st3 where q2: "(if middle cl cr < hi then seg_add lo hi v st2 (middle cl cr + 1) cr (2 * r + 2) else Some st2) = Some st3"
      and o4: "opened st3 r ?ys ?zs" and k3: "kept r st2 st3" by blast
    obtain st4 where p: "seg_pull st3 r = Some st4" "seg st4 r (?ys @ ?zs)" "same_size st3 st4" "\<forall>j. j \<noteq> r \<longrightarrow> same_at st3 st4 j"
      using pull_ok [OF o4] by blast
    have "add_in lo hi v cl xs = ?ys @ ?zs" unfolding xs in_append(1) mid by simp
    moreover have "seg_add lo hi v st cl cr r = Some st4"
      by (simp only: seg_add.simps [of lo hi v st] if_not_P [OF False] mult.commute [of r 2] m q1 q2 p(1) Option.bind.simps)
    moreover have "kept r st3 st4" unfolding kept_def using p(3,4) below_refl by metis
    then have "kept r st st4" using kept_trans k1 k2 k3 by blast
    ultimately show ?thesis using p(2) by auto
  qed
qed

section \<open>Building the tree\<close>

lemma split_width: "1 < m \<Longrightarrow> Suc ((m - 1) div 2) + (m - Suc ((m - 1) div 2)) = m \<and> Suc ((m - 1) div 2) < m \<and> m - Suc ((m - 1) div 2) < m \<and>
    0 < m - Suc ((m - 1) div 2) \<and> 2 * (m - Suc ((m - 1) div 2) - 1) \<le> m - 1 \<and> 2 * (Suc ((m - 1) div 2) - 1) \<le> m - 1"
  by presburger

text \<open>Four times the number of elements is room enough for every node of the recursion.\<close>

definition fits :: "nat \<Rightarrow> nat \<Rightarrow> nat \<Rightarrow> bool" where
  "fits n r m \<longleftrightarrow> 0 < m \<and> r < 4 * n \<and> (\<exists>d. r + 1 < 2 * 2 ^ d \<and> (m - 1) * 2 ^ d \<le> n - 1)"

lemma fits_child:
  assumes "fits n r m" "1 < m" "0 < k" "2 * (k - 1) \<le> m - 1" "c \<in> {2 * r + 1, 2 * r + 2}"
  shows "fits n c k"
proof -
  obtain d where d: "r + 1 < 2 * 2 ^ d" "(m - 1) * 2 ^ d \<le> n - 1" using assms(1) unfolding fits_def by blast
  have "1 * 2 ^ d \<le> (m - 1) * 2 ^ d" using assms(2) by (intro mult_right_mono) simp_all
  then have n: "2 ^ d \<le> n - 1" using d(2) by linarith
  have "2 * (k - 1) * 2 ^ d \<le> (m - 1) * 2 ^ d" using assms(4) by (intro mult_right_mono) simp_all
  moreover have "(k - 1) * 2 ^ Suc d = 2 * (k - 1) * 2 ^ d" by simp
  ultimately have "(k - 1) * 2 ^ Suc d \<le> n - 1" using d(2) by linarith
  moreover have "c + 1 < 2 * 2 ^ Suc d" "c < 4 * n" using assms(5) d(1) n by auto
  ultimately show ?thesis unfolding fits_def using assms(3) by blast
qed

definition zero_tags :: "nat \<Rightarrow> 'a :: comm_ring_1 segt \<Rightarrow> bool" where
  "zero_tags n st \<longleftrightarrow> length (seg_tree st) = 4 * n \<and> seg_lazy st = replicate (4 * n) 0"

lemma seg_build_ok:
  "fits n r m \<Longrightarrow> c + m \<le> length v \<Longrightarrow> zero_tags n st \<Longrightarrow>
     \<exists>st'. seg_build v st r (int c) (int c + int m - 1) = Some st' \<and> seg st' r (take m (drop c v)) \<and> kept r st st' \<and> zero_tags n st'"
proof (induction m arbitrary: st r c rule: less_induct)
  case (less m)
  note prems = less.prems
  have r: "r < length (seg_tree st)" "r < length (seg_lazy st)" "0 < m" using prems by (simp_all add: fits_def zero_tags_def)
  show ?case
  proof (cases "m = 1")
    case True
    let ?st = "st\<lparr>seg_tree := (seg_tree st)[r := v ! c]\<rparr>"
    have c: "c < length v" using prems(2) True by simp
    have "seg_build v st r (int c) (int c + int m - 1) = Some ?st" using True c r by (simp add: seg_build.simps)
    moreover have "take m (drop c v) = [v ! c]" using True c by (simp add: take_Suc_conv_app_nth hd_drop_conv_nth)
    moreover have "seg ?st r [v ! c]" using r by (intro seg.leaf) simp_all
    moreover have "same_at st ?st j" if "\<not> below r j" for j using that by (cases "j = r") (simp_all add: same_at_def)
    then have "kept r st ?st" by (simp add: kept_def same_size_def)
    ultimately show ?thesis using prems(3) by (auto simp: zero_tags_def)
  next
    case False
    then have m: "1 < m" using r(3) by simp
    let ?k = "Suc ((m - 1) div 2)" let ?h = "m - ?k"
    let ?ys = "take ?k (drop c v)" let ?zs = "take ?h (drop (c + ?k) v)"
    note w = split_width [OF m]
    have mid: "middle (int c) (int c + int m - 1) = int c + int ?k - 1"
      using middle_eq [of "int c + int m - 1" "int c" m] r(3) by simp
    have ne: "int c \<noteq> int c + int m - 1" using m by simp
    have f1: "fits n (2 * r + 1) ?k" by (rule fits_child [OF prems(1) m]) (use w in simp_all)
    have f2: "fits n (2 * r + 2) ?h" by (rule fits_child [OF prems(1) m]) (use w in simp_all)
    have s: "?k < m" "?h < m" "c + ?k \<le> length v" "c + ?k + ?h \<le> length v" using w prems(2) by simp_all
    obtain st1 where b1: "seg_build v st (2 * r + 1) (int c) (int c + int ?k - 1) = Some st1" "seg st1 (2 * r + 1) ?ys"
      "kept (2 * r + 1) st st1" "zero_tags n st1" using less.IH [OF s(1) f1 s(3) prems(3)] by blast
    obtain st2 where b2: "seg_build v st1 (2 * r + 2) (int (c + ?k)) (int (c + ?k) + int ?h - 1) = Some st2" "seg st2 (2 * r + 2) ?zs"
      "kept (2 * r + 2) st1 st2" "zero_tags n st2" using less.IH [OF s(2) f2 s(4) b1(4)] by blast
    have "same_at st1 st2 j" if "below (2 * r + 1) j" for j using b2(3) that below_disjoint unfolding kept_def by blast
    then have y: "seg st2 (2 * r + 1) ?ys" using seg_frame [OF b1(2)] b2(3) unfolding kept_def by blast
    have l: "length ?ys = ?k" "length ?zs = ?h" unfolding length_take length_drop using s(3,4) by linarith+
    have "?zs \<noteq> []" using l(2) w by auto
    moreover have "?k + ?h = m" using w by blast
    ultimately have wd: "widths ?ys ?zs" unfolding widths_def l by simp
    have "r < length (seg_tree st2)" "r < length (seg_lazy st2)" "seg_lazy st2 ! r = 0"
      using b2(4) prems(1) unfolding zero_tags_def fits_def by auto
    then have o: "opened st2 r ?ys ?zs" unfolding opened_def using y b2(2) wd by blast
    obtain st3 where p: "seg_pull st2 r = Some st3" "seg st3 r (?ys @ ?zs)" "same_size st2 st3" "\<forall>j. j \<noteq> r \<longrightarrow> same_at st2 st3 j"
      using pull_ok [OF o] by blast
    have e: "int c + int ?k - 1 + 1 = int (c + ?k)" "int c + int m - 1 = int (c + ?k) + int ?h - 1" using w by linarith+
    let ?cr = "int c + int m - 1"
    have b1': "seg_build v st (2 * r + 1) (int c) (middle (int c) ?cr) = Some st1" unfolding mid by (rule b1(1))
    have b2': "seg_build v st1 (2 * r + 2) (middle (int c) ?cr + 1) ?cr = Some st2" unfolding mid e(1) using b2(1) unfolding e(2) .
    have "seg_build v st r (int c) (int c + int m - 1) = Some st3"
      unfolding seg_build.simps [of v st r] if_not_P [OF ne] mult.commute [of r 2] b1' Option.bind.simps b2' p(1) ..
    moreover have "?ys @ ?zs = take m (drop c v)"
      using take_add [of ?k ?h "drop c v"] \<open>?k + ?h = m\<close> by (simp add: add.commute)
    moreover have "kept r st2 st3" unfolding kept_def using p(3,4) below_refl by metis
    then have "kept r st st3" using kept_trans kept_child b1(3) b2(3) by blast
    moreover have "seg_lazy st3 = seg_lazy st2" using p(1) by (auto simp: seg_pull_def Option.bind_eq_Some_conv)
    then have "zero_tags n st3" using b2(4) p(3) by (simp add: zero_tags_def same_size_def)
    ultimately show ?thesis using p(2) by auto
  qed
qed

lemma seg_init_ok:
  assumes "v \<noteq> []"
  shows "\<exists>st. seg_init v True = Some st \<and> seg st 0 v \<and> length (seg_tree st) = 4 * length v"
proof -
  let ?n = "length v" let ?st = "\<lparr>seg_tree = replicate (4 * ?n) 0, seg_lazy = replicate (4 * ?n) 0\<rparr> :: 'a segt"
  have "fits ?n 0 ?n" using assms by (auto simp: fits_def intro!: exI [of _ 0])
  moreover have "zero_tags ?n ?st" by (simp add: zero_tags_def)
  ultimately obtain st where "seg_build v ?st 0 0 (int ?n - 1) = Some st" "seg st 0 v" "zero_tags ?n st"
    using seg_build_ok [of ?n 0 ?n 0 v ?st] by auto
  then show ?thesis by (auto simp: seg_init_def Let_def zero_tags_def mult.commute)
qed

lemma seg_build_zero:
  assumes "seg_build v st r cl cr = Some st'" "\<forall>x\<in>set v. x = 0" "\<forall>x\<in>set (seg_tree st). x = 0"
  shows "st' = st"
proof -
  have upd: "st\<lparr>seg_tree := (seg_tree st)[i := 0]\<rparr> = st" if "\<forall>x\<in>set (seg_tree st). x = 0" "i < length (seg_tree st)"
    for st :: "'a segt" and i
  proof -
    have "seg_tree st ! i = 0" using that by simp
    then have "(seg_tree st)[i := 0] = seg_tree st" by (metis list_update_id)
    then show ?thesis by simp
  qed
  have "(\<forall>x\<in>set v. x = 0) \<longrightarrow> (\<forall>x\<in>set (seg_tree st). x = 0) \<longrightarrow> st' = st"
  proof (rule seg_build.raw_induct [where P = "\<lambda>v st r cl cr st'. (\<forall>x\<in>set v. x = 0) \<longrightarrow> (\<forall>x\<in>set (seg_tree st). x = 0) \<longrightarrow> st' = st",
        OF _ assms(1)])
    fix f :: "'a list \<Rightarrow> 'a segt \<Rightarrow> nat \<Rightarrow> int \<Rightarrow> int \<Rightarrow> 'a segt option" and v st r cl cr st'
    assume IH: "\<And>v st r cl cr st'. f v st r cl cr = Some st' \<Longrightarrow> (\<forall>x\<in>set v. x = 0) \<longrightarrow> (\<forall>x\<in>set (seg_tree st). x = 0) \<longrightarrow> st' = st"
    assume run: "(if cl = cr then do { x \<leftarrow> ivget v cl; t \<leftarrow> vset (seg_tree st) r x; Some (st\<lparr>seg_tree := t\<rparr>) }
      else do { st1 \<leftarrow> f v st (r * 2 + 1) cl (middle cl cr); st2 \<leftarrow> f v st1 (r * 2 + 2) (middle cl cr + 1) cr; seg_pull st2 r }) = Some st'"
    show "(\<forall>x\<in>set v. x = 0) \<longrightarrow> (\<forall>x\<in>set (seg_tree st). x = 0) \<longrightarrow> st' = st"
    proof (intro impI)
      assume z: "\<forall>x\<in>set v. x = 0" "\<forall>x\<in>set (seg_tree st). x = 0"
      show "st' = st"
      proof (cases "cl = cr")
        case True
        then have "nat cl < length v" "r < length (seg_tree st)" "st' = st\<lparr>seg_tree := (seg_tree st)[r := v ! nat cl]\<rparr>"
          using run by (auto simp: Option.bind_eq_Some_conv)
        moreover from this(1) have "v ! nat cl = 0" using z(1) nth_mem by blast
        ultimately show ?thesis using upd [OF z(2)] by simp
      next
        case False
        then obtain st1 st2 where s: "f v st (r * 2 + 1) cl (middle cl cr) = Some st1" "f v st1 (r * 2 + 2) (middle cl cr + 1) cr = Some st2"
          "seg_pull st2 r = Some st'" using run by (auto simp: Option.bind_eq_Some_conv)
        then have "st1 = st" "st2 = st" using IH z by blast+
        moreover have "seg_tree st ! i = 0" if "i < length (seg_tree st)" for i using z(2) that by simp
        ultimately show ?thesis using s(3) upd [OF z(2)] by (auto simp: seg_pull_def Option.bind_eq_Some_conv)
      qed
    qed
  qed
  then show ?thesis using assms(2,3) by blast
qed

lemma seg_init_zero:
  fixes v :: "'a :: comm_ring_1 list"
  assumes "v \<noteq> []"
  shows "seg_init v False = seg_init (replicate (length v) 0) True"
proof -
  let ?st = "\<lparr>seg_tree = replicate (length v * 4) 0, seg_lazy = replicate (length v * 4) 0\<rparr> :: 'a segt"
  obtain st where st: "seg_init (replicate (length v) (0 :: 'a)) True = Some st" using seg_init_ok [of "replicate (length v) 0"] assms by auto
  then have "seg_build (replicate (length v) 0) ?st 0 0 (int (length v) - 1) = Some st" by (simp add: seg_init_def Let_def)
  then have "st = ?st" by (rule seg_build_zero) simp_all
  then show ?thesis using st by (simp add: seg_init_def Let_def)
qed

section \<open>Properties\<close>

datatype 'a seg_op = Range_add int int 'a | Range_sum int int

fun seg_run :: "'a :: comm_ring_1 segt \<Rightarrow> 'a seg_op list \<Rightarrow> 'a list option" where
  "seg_run st [] = Some []"
| "seg_run st (Range_add l r v # ops) = do { st \<leftarrow> range_add st l r v; seg_run st ops }"
| "seg_run st (Range_sum l r # ops) = do { (st, x) \<leftarrow> range_sum st l r; ys \<leftarrow> seg_run st ops; Some (x # ys) }"

text \<open>The specification: the values are a list, and a range is a set of positions.\<close>

fun list_run :: "'a :: comm_ring_1 list \<Rightarrow> 'a seg_op list \<Rightarrow> 'a list" where
  "list_run v [] = []"
| "list_run v (Range_add l r x # ops) =
     list_run (map (\<lambda>i. if l \<le> int i \<and> int i \<le> r then v ! i + x else v ! i) [0..<length v]) ops"
| "list_run v (Range_sum l r # ops) = sum_list (map ((!) v) (filter (\<lambda>i. l \<le> int i \<and> int i \<le> r) [0..<length v])) # list_run v ops"

fun seg_valid :: "nat \<Rightarrow> 'a seg_op \<Rightarrow> bool" where
  "seg_valid n (Range_add l r x) \<longleftrightarrow> l \<le> r \<and> l < int n \<and> 0 \<le> r"
| "seg_valid n (Range_sum l r) \<longleftrightarrow> l \<le> r \<and> l < int n \<and> 0 \<le> r"

lemma upt_Cons: "[0..<length (x # xs)] = 0 # map Suc [0..<length xs]"
  by (simp add: map_Suc_upt upt_conv_Cons del: upt_Suc)

lemma add_in_nth:
  "add_in lo hi v c xs = map (\<lambda>i. if lo \<le> c + int i \<and> c + int i \<le> hi then xs ! i + v else xs ! i) [0..<length xs]"
proof (induction xs arbitrary: c)
  case (Cons x xs)
  then show ?case using Cons.IH [of "c + 1"] unfolding upt_Cons by (simp add: o_def algebra_simps del: upt_Suc)
qed simp

lemma sum_in_nth: "sum_in lo hi c xs = sum_list (map ((!) xs) (filter (\<lambda>i. lo \<le> c + int i \<and> c + int i \<le> hi) [0..<length xs]))"
proof (induction xs arbitrary: c)
  case (Cons x xs)
  then show ?case using Cons.IH [of "c + 1"] unfolding upt_Cons by (simp add: o_def filter_map algebra_simps del: upt_Suc)
qed simp

lemma seg_run_ok:
  "seg st 0 v \<Longrightarrow> length (seg_tree st) = 4 * length v \<Longrightarrow> \<forall>op\<in>set ops. seg_valid (length v) op \<Longrightarrow> seg_run st ops = Some (list_run v ops)"
proof (induction st ops arbitrary: v rule: seg_run.induct)
  case (2 st l r x ops)
  have last: "seg_last st = 0 + int (length v) - 1" using "2.prems"(2) by (simp add: seg_last_def)
  obtain st' where st': "range_add st l r x = Some st'" "seg st' 0 (add_in l r x 0 v)" "kept 0 st st'"
    using seg_add_ok [OF "2.prems"(1) last, of l r x] "2.prems"(3) last by (auto simp: range_add_def)
  have "length (seg_tree st') = 4 * length (add_in l r x 0 v)" using st'(3) "2.prems"(2) by (simp add: kept_def same_size_def)
  then show ?case using "2.IH" [OF st'(1,2)] st'(1) "2.prems"(3) by (simp add: add_in_nth)
next
  case (3 st l r ops)
  have last: "seg_last st = 0 + int (length v) - 1" using "3.prems"(2) by (simp add: seg_last_def)
  obtain st' where st': "range_sum st l r = Some (st', sum_in l r 0 v)" "seg st' 0 v" "kept 0 st st'"
    using seg_query_ok [OF "3.prems"(1) last, of l r] "3.prems"(3) last by (auto simp: range_sum_def)
  have "length (seg_tree st') = 4 * length v" using st'(3) "3.prems"(2) by (simp add: kept_def same_size_def)
  then show ?case using "3.IH" [OF st'(1) refl st'(2)] st'(1) "3.prems"(3) by (simp add: sum_in_nth)
qed simp

lemma seg_set_inside:
  assumes "seg_set l r v st cl cr root = Some st'" "cl \<le> cr"
  shows "l \<le> cl \<and> cr \<le> r"
proof -
  have "cl \<le> cr \<longrightarrow> l \<le> cl \<and> cr \<le> r"
  proof (rule seg_set.raw_induct [where P = "\<lambda>l r v st cl cr root st'. cl \<le> cr \<longrightarrow> l \<le> cl \<and> cr \<le> r", OF _ assms(1)])
    fix f :: "int \<Rightarrow> int \<Rightarrow> 'a \<Rightarrow> 'a segt \<Rightarrow> int \<Rightarrow> int \<Rightarrow> nat \<Rightarrow> 'a segt option" and l r v st cl cr root st'
    assume IH: "\<And>l r v st cl cr root st'. f l r v st cl cr root = Some st' \<Longrightarrow> cl \<le> cr \<longrightarrow> l \<le> cl \<and> cr \<le> r"
    assume run: "(if l \<le> cl \<and> cr \<le> r then do { z \<leftarrow> vset (seg_lazy st) root v; t \<leftarrow> vset (seg_tree st) root (of_int (cr - cl + 1) * v);
          Some \<lparr>seg_tree = t, seg_lazy = z\<rparr> }
      else do { st \<leftarrow> seg_set_maintain st cl cr root;
        st \<leftarrow> (if cl \<le> middle cl cr then f l r v st cl (middle cl cr) (root * 2 + 1) else Some st);
        st \<leftarrow> (if middle cl cr < cr then f l r v st (middle cl cr + 1) cr (root * 2 + 2) else Some st);
        seg_pull st root }) = Some st'"
    show "cl \<le> cr \<longrightarrow> l \<le> cl \<and> cr \<le> r"
    proof (rule impI, rule ccontr)
      assume c: "cl \<le> cr" and out: "\<not> (l \<le> cl \<and> cr \<le> r)"
      have mid: "cl \<le> middle cl cr" "middle cl cr \<le> cr" using c by (simp_all add: middle_def)
      from run [unfolded if_not_P [OF out] if_P [OF mid(1)] Option.bind_eq_Some_conv] obtain s1 s2 s3 where s: "f l r v s1 cl (middle cl cr) (root * 2 + 1) = Some s2"
        "(if middle cl cr < cr then f l r v s2 (middle cl cr + 1) cr (root * 2 + 2) else Some s2) = Some s3"
        by blast
      have left: "l \<le> cl" "middle cl cr \<le> r" using IH [OF s(1)] mid(1) by auto
      show False
      proof (cases "middle cl cr < cr")
        case True
        then have "f l r v s2 (middle cl cr + 1) cr (root * 2 + 2) = Some s3" using s(2) by simp
        then have "cr \<le> r" using IH True by auto
        then show False using left out by blast
      next
        case False
        then show False using left mid(2) out by simp
      qed
    qed
  qed
  then show ?thesis using assms(2) by blast
qed

text \<open>
  \<open>range_set\<close> is unusable. Its recursion tests the node against its own bounds instead of the range, so it
  returns only when the range covers the whole vector; otherwise it recurses for ever below some leaf. And the tag
  it leaves at the root is later added by the other operations, not assigned: after setting both elements of
  \<open>1 2\<close> to 5, the sum of the first is 6.
\<close>

lemma range_set_broken:
  "(v \<noteq> [] \<and> seg_init v True = Some st \<longrightarrow> (range_set st l r x \<noteq> None \<longleftrightarrow> l \<le> 0 \<and> int (length v) - 1 \<le> r)) \<and>
   Option.bind (seg_init [1, 2 :: int] True) (\<lambda>st. Option.bind (range_set st 0 1 5) (\<lambda>st. map_option snd (range_sum st 0 0))) = Some 6"
proof (intro conjI impI)
  assume "v \<noteq> [] \<and> seg_init v True = Some st"
  then have v: "v \<noteq> []" "seg st 0 v" "length (seg_tree st) = 4 * length v" using seg_init_ok [of v] by auto
  have last: "seg_last st = int (length v) - 1" using v(3) by (simp add: seg_last_def)
  have "0 \<le> int (length v) - 1" using v(1) by (cases v) simp_all
  then show "range_set st l r x \<noteq> None \<longleftrightarrow> l \<le> 0 \<and> int (length v) - 1 \<le> r"
    using seg_set_inside [of l r x st 0 "seg_last st" 0] seg_bounds [OF v(2)]
    by (auto simp: range_set_def last seg_set.simps [of l r x st])
next
  show "Option.bind (seg_init [1, 2 :: int] True) (\<lambda>st. Option.bind (range_set st 0 1 5) (\<lambda>st. map_option snd (range_sum st 0 0))) = Some 6"
    by (simp add: seg_init_def Let_def seg_build.simps [of _ _ 0] seg_build.simps [of _ _ _ 0 0] seg_build.simps [of _ _ _ 1 1]
      middle_def seg_pull_def range_set_def seg_last_def seg_set.simps [of _ _ _ _ 0 1] range_sum_def seg_query.simps [of _ _ _ 0 1]
      seg_query.simps [of _ _ _ 0 0] seg_maintain_def vadd_def)
qed

text \<open>
  C12. The segment tree is an array with range updates: after \<open>init\<close> on a non-empty vector, every sequence of
  \<open>range_add\<close> and \<open>range_sum\<close> calls whose range meets the vector stays inside the two vectors of four times the
  length, ends, and returns the sums that the same calls give on a plain list, the lazy tags notwithstanding.
  \<open>init\<close> without values is \<open>init\<close> on zeros. \<open>range_set\<close> is unusable: it returns only when its range covers the whole
  vector, and the tag it leaves is added by the other operations instead of assigned: after setting both elements of
  \<open>1 2\<close> to 5, the sum of the first is 6.
\<close>

theorem segment_tree_refines_list:
  fixes v :: "'a :: comm_ring_1 list"
  assumes "v \<noteq> []" "\<forall>op\<in>set ops. seg_valid (length v) op"
  shows "\<exists>st. seg_init v True = Some st \<and> seg_run st ops = Some (list_run v ops) \<and>
    seg_init v False = seg_init (replicate (length v) 0) True \<and>
    (range_set st l r x \<noteq> None \<longleftrightarrow> l \<le> 0 \<and> int (length v) - 1 \<le> r) \<and>
    Option.bind (seg_init [1, 2 :: int] True) (\<lambda>st. Option.bind (range_set st 0 1 5) (\<lambda>st. map_option snd (range_sum st 0 0))) = Some 6"
proof -
  obtain st where st: "seg_init v True = Some st" "seg_run st ops = Some (list_run v ops)"
    using seg_init_ok [OF assms(1)] seg_run_ok assms(2) by blast
  moreover have "seg_init v False = seg_init (replicate (length v) 0) True" by (rule seg_init_zero [OF assms(1)])
  moreover note mp [OF conjunct1 [OF range_set_broken] conjI [OF assms(1) st(1)], of l r x] conjunct2 [OF range_set_broken]
  ultimately show ?thesis by (intro exI [of _ st] conjI)
qed

theorem segment_tree_refines_list_witness:
  "\<exists>st. seg_init [3, 1, 4, 1, 5 :: int] True = Some st \<and>
     seg_run st [Range_add 1 3 10, Range_sum 0 2, Range_add 0 4 1, Range_sum 3 3] = Some [28, 12] \<and> range_set st 0 3 9 = None"
proof -
  let ?v = "[3, 1, 4, 1, 5 :: int]" let ?ops = "[Range_add 1 3 10, Range_sum 0 2, Range_add 0 4 1, Range_sum 3 3 :: int seg_op]"
  have "list_run ?v ?ops = [28, 12]" by code_simp
  moreover have "?v \<noteq> []" "\<forall>op\<in>set ?ops. seg_valid (length ?v) op" by simp_all
  ultimately show ?thesis using segment_tree_refines_list [of ?v ?ops 0 3 9] by auto
qed

end
