(* ===== verification/Fenwick.thy ===== *)
theory Fenwick
  imports Prelude
begin

unbundle bit_operations_syntax

text \<open>
  The binary indexed tree of \<open>cpp/datastructure/tree/binary_index_tree.h\<close> with its two vectors, over the differences
  of the values and over the differences times their index. The element type is any commutative ring; indices are
  integers, and \<open>lowbit\<close> is the code's bitwise \<open>i & -i\<close>. The 32-bit parameters of two inner functions do not truncate
  for vectors of less than \<open>2 ^ 31\<close> elements.
\<close>

section \<open>The operations\<close>

record 'a fen =
  fen_size :: int
  fen_diff :: "'a list"
  fen_idiff :: "'a list"

definition lowbit :: "int \<Rightarrow> int" where
  "lowbit i = i AND - i"

definition vresize :: "'a list \<Rightarrow> nat \<Rightarrow> 'a \<Rightarrow> 'a list" where
  "vresize xs n x = take n xs @ replicate (n - length xs) x"

definition iadd :: "'a :: comm_ring_1 list \<Rightarrow> int \<Rightarrow> 'a \<Rightarrow> 'a list option" where
  "iadd xs i x = do { y \<leftarrow> ivget xs i; ivset xs i (y + x) }"

definition fen_new :: "nat \<Rightarrow> 'a :: comm_ring_1 fen" where
  "fen_new n = \<lparr>fen_size = int n, fen_diff = replicate (n + 1) 0, fen_idiff = replicate (n + 1) 0\<rparr>"

definition push_up :: "int \<Rightarrow> int \<Rightarrow> 'a :: comm_ring_1 \<Rightarrow> 'a list \<Rightarrow> 'a list option" where
  "push_up n i d t =
     do { t \<leftarrow> iadd t i d;
          let j = i + lowbit i;
          if j \<le> n then do { x \<leftarrow> ivget t i; iadd t j x } else Some t }"

function fen_init_loop :: "'a :: comm_ring_1 list \<Rightarrow> int \<Rightarrow> int \<Rightarrow> 'a list \<Rightarrow> 'a list \<Rightarrow> ('a list \<times> 'a list) option" where
  "fen_init_loop vec n i t s =
     (if i \<le> n then do {
        a \<leftarrow> ivget vec (i - 1);
        d \<leftarrow> (if i = 1 then Some a else do { b \<leftarrow> ivget vec (i - 2); Some (a - b) });
        t \<leftarrow> push_up n i d t;
        s \<leftarrow> push_up n i (of_int i * d) s;
        fen_init_loop vec n (i + 1) t s }
      else Some (t, s))"
  by auto
termination by (relation "measure (\<lambda>(vec, n, i, t, s). nat (n + 1 - i))") auto

definition fen_init :: "'a :: comm_ring_1 fen \<Rightarrow> 'a list \<Rightarrow> 'a fen option" where
  "fen_init b vec =
     (let n = length vec in
      do { (t, s) \<leftarrow> fen_init_loop vec (int n) 1 (vresize (fen_diff b) (n + 1) 0) (vresize (fen_idiff b) (n + 1) 0);
           Some \<lparr>fen_size = int n, fen_diff = t, fen_idiff = s\<rparr> })"

partial_function (option) fen_query_loop :: "'a :: comm_ring_1 list \<Rightarrow> int \<Rightarrow> 'a \<Rightarrow> 'a option" where
  "fen_query_loop arr i result =
     (if i \<noteq> 0 then do { x \<leftarrow> ivget arr i; fen_query_loop arr (i - lowbit i) (result + x) } else Some result)"

definition fen_query :: "'a :: comm_ring_1 fen \<Rightarrow> int \<Rightarrow> 'a option" where
  "fen_query b i = fen_query_loop (fen_diff b) i 0"

partial_function (option) fen_update_loop ::
    "int \<Rightarrow> int \<Rightarrow> 'a :: comm_ring_1 \<Rightarrow> 'a \<Rightarrow> 'a list \<Rightarrow> 'a list \<Rightarrow> ('a list \<times> 'a list) option" where
  "fen_update_loop n i val ival t s =
     (if i \<le> n then do {
        t \<leftarrow> iadd t i val;
        s \<leftarrow> iadd s i ival;
        fen_update_loop n (i + lowbit i) val ival t s }
      else Some (t, s))"

definition fen_update_from :: "'a :: comm_ring_1 fen \<Rightarrow> int \<Rightarrow> 'a \<Rightarrow> 'a fen option" where
  "fen_update_from b i val =
     (let i = (if i \<le> 0 then 1 else i) in
      do { (t, s) \<leftarrow> fen_update_loop (fen_size b) i val (of_int i * val) (fen_diff b) (fen_idiff b);
           Some (b\<lparr>fen_diff := t, fen_idiff := s\<rparr>) })"

definition fen_range_update :: "'a :: comm_ring_1 fen \<Rightarrow> int \<Rightarrow> int \<Rightarrow> 'a \<Rightarrow> 'a fen option" where
  "fen_range_update b left right val =
     do { b \<leftarrow> fen_update_from b left val; fen_update_from b (right + 1) (- val) }"

definition fen_update :: "'a :: comm_ring_1 fen \<Rightarrow> int \<Rightarrow> 'a \<Rightarrow> 'a fen option" where
  "fen_update b i val = fen_range_update b i i val"

definition fen_range_sum :: "'a :: comm_ring_1 fen \<Rightarrow> int \<Rightarrow> int \<Rightarrow> 'a option" where
  "fen_range_sum b l r =
     do { p \<leftarrow> fen_query_loop (fen_diff b) r 0;
          q \<leftarrow> fen_query_loop (fen_idiff b) r 0;
          u \<leftarrow> fen_query_loop (fen_diff b) (l - 1) 0;
          w \<leftarrow> fen_query_loop (fen_idiff b) (l - 1) 0;
          Some (of_int (r + 1) * p - q - of_int l * u + w) }"

definition fen_prefix_sum :: "'a :: comm_ring_1 fen \<Rightarrow> int \<Rightarrow> 'a option" where
  "fen_prefix_sum b i = fen_range_sum b 1 i"

section \<open>Low bits\<close>

lemma lowbit_double: "lowbit (2 * i) = 2 * lowbit i"
proof -
  have "(i AND - i) * 2 = (i * 2) AND (- i * 2)"
    using push_bit_and [of 1 i "- i"] by (simp only: push_bit_eq_mult power_one_right)
  then show ?thesis by (simp add: lowbit_def mult.commute [of 2])
qed

lemma lowbit_odd: "lowbit (2 * m + 1) = 1"
proof -
  have neg: "- (2 * m + 1) = 1 + 2 * (NOT m)" by (simp add: not_int_def)
  have "bit (lowbit (2 * m + 1)) k = bit (1 :: int) k" for k
    unfolding lowbit_def neg bit_and_iff by (cases k) (auto simp: bit_0 bit_Suc bit_not_iff)
  then show ?thesis by (simp add: bit_eq_iff)
qed

lemma lowbit_power: "lowbit ((2 * m + 1) * 2 ^ p) = 2 ^ p"
proof (induction p)
  case (Suc p)
  have "(2 * m + 1) * 2 ^ Suc p = 2 * ((2 * m + 1) * 2 ^ p)" by simp
  then show ?case using Suc lowbit_double by (metis power_Suc)
qed (simp add: lowbit_odd)

lemma odd_part:
  assumes "0 < (i :: int)"
  obtains m p where "i = (2 * m + 1) * 2 ^ p" "0 \<le> m"
  using assms
proof (induction "nat i" arbitrary: i thesis rule: less_induct)
  case less
  show ?case
  proof (cases "even i")
    case True
    then obtain h where h: "i = 2 * h" by blast
    then have "0 < h" "nat h < nat i" using less.prems by auto
    then obtain m p where "h = (2 * m + 1) * 2 ^ p" "0 \<le> m" using less.hyps [of h] by blast
    then show ?thesis using h less.prems(1) [of m "Suc p"] by simp
  next
    case False
    then show ?thesis using less.prems(1) [of "i div 2" 0] less.prems(2) by simp
  qed
qed

lemma lowbit_bounds: "0 < i \<Longrightarrow> 0 < lowbit i \<and> lowbit i \<le> i"
proof -
  assume "0 < i"
  then obtain m p where i: "i = (2 * m + 1) * 2 ^ p" "0 \<le> m" by (rule odd_part)
  have "1 * 2 ^ p \<le> (2 * m + 1) * (2 :: int) ^ p" using i(2) by (intro mult_right_mono) simp_all
  then show ?thesis unfolding i(1) lowbit_power by simp
qed

text \<open>Node \<open>k\<close> covers \<open>i\<close> if \<open>i\<close> lies in its interval. Above \<open>i\<close> the same nodes cover \<open>i\<close> and \<open>i + lowbit i\<close>.\<close>

definition covers :: "int \<Rightarrow> int \<Rightarrow> bool" where
  "covers k i \<longleftrightarrow> k - lowbit k < i \<and> i \<le> k"

lemma covers_next:
  assumes "0 < i" "i < k"
  shows "covers k i \<longleftrightarrow> covers k (i + lowbit i)"
proof -
  obtain m p where i: "i = (2 * m + 1) * 2 ^ p" "0 \<le> m" by (rule odd_part [OF assms(1)])
  have "0 < k" using assms by simp
  then obtain u q where k: "k = (2 * u + 1) * 2 ^ q" "0 \<le> u" by (rule odd_part)
  have lb: "lowbit i = 2 ^ p" "lowbit k = 2 ^ q" unfolding i k lowbit_power by simp_all
  show ?thesis
  proof (cases "q \<le> p")
    case True
    let ?e = "2 ^ (p - q) :: int"
    have p: "(2 :: int) ^ p = ?e * 2 ^ q" using True by (simp flip: power_add)
    have i': "i = ((2 * m + 1) * ?e) * 2 ^ q" "i + lowbit i = ((2 * m + 2) * ?e) * 2 ^ q"
      unfolding lb(1) unfolding i(1) p by (simp_all add: algebra_simps)
    have kl: "k - lowbit k = (2 * u) * 2 ^ q" unfolding lb(2) unfolding k(1) by (simp add: algebra_simps)
    have "\<not> covers k i" using assms(2) unfolding covers_def kl unfolding i'(1) k(1) by (simp add: mult_less_cancel_right)
    moreover have "\<not> covers k (i + lowbit i)"
    proof
      assume "covers k (i + lowbit i)"
      then have "2 * u < (2 * m + 2) * ?e" "(2 * m + 2) * ?e \<le> 2 * u + 1"
        unfolding covers_def kl i'(2) unfolding k(1) by (simp_all add: mult_less_cancel_right mult_le_cancel_right)
      then have "2 * u + 1 = 2 * ((m + 1) * ?e)" by (simp add: algebra_simps)
      then show False by presburger
    qed
    ultimately show ?thesis by blast
  next
    case False
    then obtain c where c: "q = Suc (p + c)" by (metis add_Suc_right less_iff_Suc_add not_le)
    let ?e = "2 ^ c :: int"
    have k': "k = (2 * ((2 * u + 1) * ?e)) * 2 ^ p" "k - lowbit k = (2 * (2 * u * ?e)) * 2 ^ p"
      unfolding lb(2) unfolding k(1) c by (simp_all add: algebra_simps power_add)
    have i': "i + lowbit i = (2 * m + 2) * 2 ^ p" unfolding lb(1) unfolding i(1) by (simp add: algebra_simps)
    have "2 * m + 1 < 2 * ((2 * u + 1) * ?e)" using assms(2) unfolding k'(1) i(1) by (simp add: mult_less_cancel_right)
    then have up: "2 * m + 2 \<le> 2 * ((2 * u + 1) * ?e)" by simp
    have "2 * (2 * u * ?e) < 2 * m + 1 \<longleftrightarrow> 2 * (2 * u * ?e) < 2 * m + 2" by presburger
    then show ?thesis using up assms(2)
      unfolding covers_def k'(2) unfolding k'(1) i' unfolding i(1) by (simp add: mult_less_cancel_right mult_le_cancel_right)
  qed
qed

lemma covers_trans: "covers k c \<Longrightarrow> covers c j \<Longrightarrow> 0 < j \<Longrightarrow> covers k j"
proof (induction "nat (c - j)" arbitrary: j rule: less_induct)
  case less
  show ?case
  proof (cases "j = c")
    case False
    then have jc: "j < c" using less.prems(2) by (simp add: covers_def)
    let ?j = "j + lowbit j"
    have lb: "0 < lowbit j" using lowbit_bounds [OF less.prems(3)] by simp
    have c: "covers c ?j" using covers_next [OF less.prems(3) jc] less.prems(2) by blast
    then have "covers k ?j" using less.hyps [of ?j] lb jc less.prems(1,3) by (simp add: covers_def)
    moreover have "j < k" using jc less.prems(1) by (simp add: covers_def)
    ultimately show ?thesis using covers_next [OF less.prems(3)] by blast
  qed (use less.prems in simp)
qed

lemma covers_child:
  "covers k j \<Longrightarrow> 0 < j \<Longrightarrow> j < k \<Longrightarrow> \<exists>c. c + lowbit c = k \<and> covers c j"
proof (induction "nat (k - j)" arbitrary: j rule: less_induct)
  case less
  let ?j = "j + lowbit j"
  have lb: "0 < lowbit j" using lowbit_bounds [OF less.prems(2)] by simp
  have k: "covers k ?j" using covers_next [OF less.prems(2,3)] less.prems(1) by blast
  show ?case
  proof (cases "?j = k")
    case True
    moreover have "covers j j" using lb by (simp add: covers_def)
    ultimately show ?thesis by blast
  next
    case False
    then have "?j < k" using k by (simp add: covers_def)
    then obtain c where c: "c + lowbit c = k" "covers c ?j" using less.hyps [of ?j] lb k less.prems(2,3) by auto
    then have "j < c" using lb by (simp add: covers_def)
    then show ?thesis using c covers_next [OF less.prems(2)] by blast
  qed
qed

lemma covers_siblings: "c + lowbit c = k \<Longrightarrow> c' + lowbit c' = k \<Longrightarrow> covers c j \<Longrightarrow> covers c' j \<Longrightarrow> 0 < j \<Longrightarrow> c = c'"
proof -
  have less: "\<not> c < c'" if a: "c + lowbit c = k" "c' + lowbit c' = k" "covers c j" "covers c' j" "0 < j" for c c'
  proof
    assume l: "c < c'"
    have "0 < c" using a(3,5) by (simp add: covers_def)
    have "covers c' c" using a(3,4) l by (simp add: covers_def)
    then have "covers c' k" using covers_next [OF \<open>0 < c\<close> l] a(1) by simp
    moreover have "0 < lowbit c'" using lowbit_bounds [of c'] \<open>0 < c\<close> l by simp
    ultimately show False using a(2) by (simp add: covers_def)
  qed
  assume "c + lowbit c = k" "c' + lowbit c' = k" "covers c j" "covers c' j" "0 < j"
  then show "c = c'" using less [of c c'] less [of c' c] by simp
qed

section \<open>What the vectors hold\<close>

definition node_sum :: "(int \<Rightarrow> 'a :: comm_ring_1) \<Rightarrow> int \<Rightarrow> 'a" where
  "node_sum f k = (\<Sum>j\<in>{k - lowbit k<..k}. f j)"

definition fen_tree :: "int \<Rightarrow> (int \<Rightarrow> 'a :: comm_ring_1) \<Rightarrow> 'a list \<Rightarrow> bool" where
  "fen_tree n f t \<longleftrightarrow> 0 \<le> n \<and> length t = nat n + 1 \<and> (\<forall>k. 0 < k \<and> k \<le> n \<longrightarrow> t ! nat k = node_sum f k)"

lemma query_ok:
  "fen_tree n f t \<Longrightarrow> 0 \<le> i \<Longrightarrow> i \<le> n \<Longrightarrow> fen_query_loop t i x = Some (x + (\<Sum>j\<in>{0<..i}. f j))"
proof (induction "nat i" arbitrary: i x rule: less_induct)
  case less
  show ?case
  proof (cases "i = 0")
    case False
    then have i: "0 < i" using less.prems by simp
    have lb: "0 < lowbit i" "lowbit i \<le> i" using lowbit_bounds [OF i] by simp_all
    have "fen_query_loop t (i - lowbit i) (x + t ! nat i) = Some (x + t ! nat i + (\<Sum>j\<in>{0<..i - lowbit i}. f j))"
      using lb i less.prems by (intro less.hyps) simp_all
    moreover have "t ! nat i = node_sum f i" using less.prems i by (simp add: fen_tree_def)
    moreover have "{0<..i} = {0<..i - lowbit i} \<union> {i - lowbit i<..i}" using lb by auto
    then have "(\<Sum>j\<in>{0<..i}. f j) = (\<Sum>j\<in>{0<..i - lowbit i}. f j) + node_sum f i"
      unfolding node_sum_def by (simp add: sum.union_disjoint)
    moreover have "ivget t i = Some (t ! nat i)" using i less.prems by (simp add: fen_tree_def)
    ultimately show ?thesis using i by (simp add: fen_query_loop.simps [of t i] algebra_simps)
  qed (simp add: fen_query_loop.simps)
qed

definition add_cover :: "int \<Rightarrow> 'a :: comm_ring_1 \<Rightarrow> 'a list \<Rightarrow> 'a list" where
  "add_cover i v t = map (\<lambda>k. t ! k + (if covers (int k) i then v else 0)) [0..<length t]"

lemma length_add_cover [simp]: "length (add_cover i v t) = length t"
  by (simp add: add_cover_def)

lemma nth_add_cover: "k < length t \<Longrightarrow> add_cover i v t ! k = t ! k + (if covers (int k) i then v else 0)"
  by (simp add: add_cover_def)

lemma add_cover_out: "length t = nat n + 1 \<Longrightarrow> 0 \<le> n \<Longrightarrow> n < i \<Longrightarrow> add_cover i v t = t"
  by (rule nth_equalityI) (auto simp: nth_add_cover covers_def)

lemma add_cover_step:
  assumes "length t = nat n + 1" "0 < i" "i \<le> n"
  shows "iadd t i v = Some (t[nat i := t ! nat i + v])" "add_cover (i + lowbit i) v (t[nat i := t ! nat i + v]) = add_cover i v t"
proof -
  show "iadd t i v = Some (t[nat i := t ! nat i + v])" using assms by (simp add: iadd_def)
  have lb: "0 < lowbit i" using lowbit_bounds assms(2) by blast
  show "add_cover (i + lowbit i) v (t[nat i := t ! nat i + v]) = add_cover i v t"
  proof (rule nth_equalityI)
    fix k assume "k < length (add_cover (i + lowbit i) v (t[nat i := t ! nat i + v]))"
    then have k: "k < length t" by simp
    consider "int k = i" | "int k < i" | "i < int k" by linarith
    then show "add_cover (i + lowbit i) v (t[nat i := t ! nat i + v]) ! k = add_cover i v t ! k"
    proof cases
      case 1
      then have "k = nat i" by simp
      then show ?thesis using k lb assms(2) by (simp add: nth_add_cover covers_def)
    next
      case 2
      then have "\<not> covers (int k) i" "\<not> covers (int k) (i + lowbit i)" "k \<noteq> nat i" using lb by (auto simp: covers_def)
      then show ?thesis using k by (simp add: nth_add_cover)
    next
      case 3
      then have "k \<noteq> nat i" using assms(2) by linarith
      then show ?thesis using k covers_next [OF assms(2) 3] by (simp add: nth_add_cover)
    qed
  qed simp
qed

lemma update_ok:
  "length t = nat n + 1 \<Longrightarrow> length s = nat n + 1 \<Longrightarrow> 0 \<le> n \<Longrightarrow> 0 < i \<Longrightarrow>
     fen_update_loop n i v w t s = Some (add_cover i v t, add_cover i w s)"
proof (induction "nat (n + 1 - i)" arbitrary: i t s rule: less_induct)
  case less
  show ?case
  proof (cases "i \<le> n")
    case True
    let ?i = "i + lowbit i" let ?t = "t[nat i := t ! nat i + v]" let ?s = "s[nat i := s ! nat i + w]"
    have lb: "0 < lowbit i" using lowbit_bounds less.prems(4) by blast
    have "fen_update_loop n ?i v w ?t ?s = Some (add_cover ?i v ?t, add_cover ?i w ?s)"
      using True lb less.prems by (intro less.hyps) simp_all
    then show ?thesis
      using True add_cover_step [OF less.prems(1,4) True] add_cover_step [OF less.prems(2,4) True]
      by (simp add: fen_update_loop.simps [of n i])
  next
    case False
    then have "add_cover i v t = t" "add_cover i w s = s" using less.prems by (auto intro!: add_cover_out [of _ n])
    then show ?thesis using False by (simp add: fen_update_loop.simps)
  qed
qed

lemma fen_tree_add:
  assumes "fen_tree n f t" "0 < i"
  shows "fen_tree n (\<lambda>j. f j + (if j = i then v else 0)) (add_cover i v t)"
  unfolding fen_tree_def
proof (intro conjI allI impI)
  fix k assume k: "0 < k \<and> k \<le> n"
  have "node_sum (\<lambda>j. f j + (if j = i then v else 0)) k = node_sum f k + (if covers k i then v else 0)"
    unfolding node_sum_def covers_def by (simp add: sum.distrib)
  then show "add_cover i v t ! nat k = node_sum (\<lambda>j. f j + (if j = i then v else 0)) k"
    using assms(1) k nth_add_cover [of "nat k" t i v] nat_mono [of k n] by (auto simp: fen_tree_def)
qed (use assms in \<open>simp_all add: fen_tree_def\<close>)

section \<open>Building in linear time\<close>

text \<open>The differences that node \<open>k\<close> has collected once the nodes up to \<open>i\<close> are done.\<close>

definition collected :: "int \<Rightarrow> int \<Rightarrow> int set" where
  "collected i k = (if k \<le> i then {k - lowbit k<..k} else {j. 0 < j \<and> (\<exists>c\<le>i. c + lowbit c = k \<and> covers c j)})"

lemma collected_self:
  assumes "0 < i"
  shows "{i - lowbit i<..i} = insert i (collected (i - 1) i)" "i \<notin> collected (i - 1) i" "finite (collected (i - 1) i)"
proof -
  have lb: "0 < lowbit i" "lowbit i \<le> i" using lowbit_bounds [OF assms] by simp_all
  have up: "covers i j" if "c + lowbit c = i" "covers c j" "0 < j" for c j
  proof -
    have c: "0 < c" using that by (simp add: covers_def)
    have "c < i" using that(1) lowbit_bounds [OF c] by simp
    moreover have "covers i (c + lowbit c)" using that(1) lb by (simp add: covers_def)
    ultimately have "covers i c" using covers_next [OF c] by blast
    then show ?thesis using covers_trans that(2,3) by blast
  qed
  have mem: "j \<in> collected (i - 1) i \<longleftrightarrow> 0 < j \<and> j < i \<and> covers i j" for j
  proof
    assume "j \<in> collected (i - 1) i"
    then obtain c where "c \<le> i - 1" "c + lowbit c = i" "covers c j" "0 < j" by (auto simp: collected_def)
    then show "0 < j \<and> j < i \<and> covers i j" using up by (auto simp: covers_def)
  next
    assume j: "0 < j \<and> j < i \<and> covers i j"
    then obtain c where c: "c + lowbit c = i" "covers c j" using covers_child by blast
    then have "0 < c" using j by (simp add: covers_def)
    then have "c \<le> i - 1" using c(1) lowbit_bounds [of c] by simp
    then show "j \<in> collected (i - 1) i" using c j by (auto simp: collected_def)
  qed
  show "{i - lowbit i<..i} = insert i (collected (i - 1) i)"
    using lb by (auto simp: mem covers_def)
  show "i \<notin> collected (i - 1) i" by (simp add: mem)
  show "finite (collected (i - 1) i)" by (rule finite_subset [of _ "{0<..i}"]) (auto simp: mem)
qed

lemma collected_parent:
  assumes "0 < i" "k = i + lowbit i"
  shows "collected i k = collected (i - 1) k \<union> {i - lowbit i<..i}" "collected (i - 1) k \<inter> {i - lowbit i<..i} = {}"
    "finite (collected (i - 1) k)"
proof -
  have lb: "0 < lowbit i" "lowbit i \<le> i" using lowbit_bounds [OF assms(1)] by simp_all
  have below: "\<exists>c\<le>i - 1. c + lowbit c = k \<and> covers c j" if "c \<le> i" "c \<noteq> i" "c + lowbit c = k" "covers c j" for c j
    using that by (intro exI [of _ c]) simp
  have i: "collected i k = {j. 0 < j \<and> (\<exists>c\<le>i. c + lowbit c = k \<and> covers c j)}" using assms lb by (simp add: collected_def)
  have i1: "collected (i - 1) k = {j. 0 < j \<and> (\<exists>c\<le>i - 1. c + lowbit c = k \<and> covers c j)}" using assms lb by (simp add: collected_def)
  have own: "{i - lowbit i<..i} = {j. 0 < j \<and> covers i j}" using lb by (auto simp: covers_def)
  show "collected i k = collected (i - 1) k \<union> {i - lowbit i<..i}"
  proof (intro equalityI subsetI)
    fix j assume "j \<in> collected i k"
    then obtain c where "0 < j" "c \<le> i" "c + lowbit c = k" "covers c j" unfolding i by blast
    then show "j \<in> collected (i - 1) k \<union> {i - lowbit i<..i}" using below unfolding i1 own by (cases "c = i") blast+
  next
    fix j assume "j \<in> collected (i - 1) k \<union> {i - lowbit i<..i}"
    then consider c where "0 < j" "c \<le> i - 1" "c + lowbit c = k" "covers c j" | "0 < j" "covers i j" unfolding i1 own by blast
    then show "j \<in> collected i k"
    proof cases
      case 1
      then have "c \<le> i" by simp
      then show ?thesis using 1 unfolding i by blast
    qed (use assms(2) i in blast)
  qed
  show "collected (i - 1) k \<inter> {i - lowbit i<..i} = {}"
  proof (rule ccontr)
    assume "\<not> ?thesis"
    then obtain j c where "0 < j" "c \<le> i - 1" "c + lowbit c = k" "covers c j" "covers i j" unfolding i1 own by blast
    moreover from this have "c = i" using covers_siblings [OF _ assms(2) [symmetric]] by blast
    ultimately show False by simp
  qed
  show "finite (collected (i - 1) k)" unfolding i1 by (rule finite_subset [of _ "{0<..i}"]) (auto simp: covers_def)
qed

lemma collected_other: "k \<noteq> i \<Longrightarrow> k \<noteq> i + lowbit i \<Longrightarrow> collected i k = collected (i - 1) k"
proof -
  assume k: "k \<noteq> i" "k \<noteq> i + lowbit i"
  have "c \<le> i \<and> c + lowbit c = k \<longleftrightarrow> c \<le> i - 1 \<and> c + lowbit c = k" for c using k(2) by (cases "c = i") auto
  then have "(\<exists>c\<le>i. c + lowbit c = k \<and> covers c j) \<longleftrightarrow> (\<exists>c\<le>i - 1. c + lowbit c = k \<and> covers c j)" for j by blast
  then show ?thesis using k(1) by (auto simp: collected_def)
qed

definition fen_partial :: "int \<Rightarrow> int \<Rightarrow> (int \<Rightarrow> 'a :: comm_ring_1) \<Rightarrow> 'a list \<Rightarrow> bool" where
  "fen_partial n i f t \<longleftrightarrow> length t = nat n + 1 \<and> (\<forall>k. 0 < k \<and> k \<le> n \<longrightarrow> t ! nat k = (\<Sum>j\<in>collected i k. f j))"

lemma push_up_ok:
  assumes "fen_partial n (i - 1) f t" "0 < i" "i \<le> n"
  shows "\<exists>t'. push_up n i (f i) t = Some t' \<and> fen_partial n i f t'"
proof -
  let ?k = "i + lowbit i" let ?t = "t[nat i := t ! nat i + f i]"
  have lb: "0 < lowbit i" using lowbit_bounds assms(2) by blast
  have len: "length t = nat n + 1" and old: "\<And>k. 0 < k \<Longrightarrow> k \<le> n \<Longrightarrow> t ! nat k = (\<Sum>j\<in>collected (i - 1) k. f j)"
    using assms(1) by (simp_all add: fen_partial_def)
  have self: "(\<Sum>j\<in>collected i i. f j) = t ! nat i + f i"
    using old [OF assms(2,3)] collected_self [OF assms(2)] by (simp add: collected_def [of i i] add.commute)
  have put: "iadd t i (f i) = Some ?t" using assms(2,3) len by (simp add: iadd_def)
  have ti: "?t ! nat i = (\<Sum>j\<in>collected i i. f j)" using self len assms(2,3) by simp
  have other: "?t ! nat k = (\<Sum>j\<in>collected i k. f j)" if "0 < k" "k \<le> n" "k \<noteq> ?k" for k
  proof (cases "k = i")
    case False
    then have "nat k \<noteq> nat i" using that(1) assms(2) by simp
    then show ?thesis using collected_other [OF False that(3)] old that by simp
  qed (use ti in simp)
  show ?thesis
  proof (cases "?k \<le> n")
    case True
    let ?u = "?t[nat ?k := ?t ! nat ?k + ?t ! nat i]"
    have k: "nat ?k < length t" "nat i < length t" "nat ?k \<noteq> nat i" using True len lb assms(2) by simp_all
    have p: "push_up n i (f i) t = Some ?u" using put True k assms(2) lb by (simp add: push_up_def iadd_def Let_def)
    have "(\<Sum>j\<in>collected i ?k. f j) = t ! nat ?k + (\<Sum>j\<in>collected i i. f j)"
      unfolding collected_parent(1) [OF assms(2) refl] using True lb assms(2) collected_parent(2,3) [OF assms(2) refl] old [of ?k]
      by (simp add: sum.union_disjoint collected_def [of i i])
    then have uk: "?u ! nat ?k = (\<Sum>j\<in>collected i ?k. f j)" using k ti by simp
    have uo: "?u ! nat k = (\<Sum>j\<in>collected i k. f j)" if "0 < k" "k \<le> n" "k \<noteq> ?k" for k
    proof -
      have "nat k \<noteq> nat ?k" using that lb assms(2) by simp
      then show ?thesis using other [OF that] by simp
    qed
    have "?u ! nat k = (\<Sum>j\<in>collected i k. f j)" if "0 < k \<and> k \<le> n" for k
      using uk uo that by (cases "k = ?k") blast+
    then have "fen_partial n i f ?u" unfolding fen_partial_def using len by simp
    then show ?thesis using p by blast
  next
    case False
    then have "push_up n i (f i) t = Some ?t" using put by (simp add: push_up_def Let_def)
    moreover have "fen_partial n i f ?t" unfolding fen_partial_def using other len False by auto
    ultimately show ?thesis by blast
  qed
qed

lemma fen_partial_start: "fen_partial (int n) 0 f (replicate (n + 1) 0)"
proof -
  have "collected 0 k = {}" if "0 < k" for k
  proof -
    have "c \<le> 0 \<Longrightarrow> covers c j \<Longrightarrow> \<not> 0 < j" for c j by (simp add: covers_def)
    then show ?thesis using that by (auto simp: collected_def)
  qed
  then show ?thesis by (auto simp: fen_partial_def nth_replicate simp del: replicate_Suc)
qed

lemma fen_partial_end: "0 \<le> n \<Longrightarrow> fen_partial n n f t \<Longrightarrow> fen_tree n f t"
  by (simp add: fen_partial_def fen_tree_def node_sum_def collected_def)

text \<open>The differences of a vector of values.\<close>

definition dif :: "'a :: comm_ring_1 list \<Rightarrow> int \<Rightarrow> 'a" where
  "dif vec i = (if 0 < i \<and> i \<le> int (length vec) then if i = 1 then vec ! 0 else vec ! nat (i - 1) - vec ! nat (i - 2) else 0)"

lemma init_loop_ok:
  "0 < i \<Longrightarrow> i \<le> int (length vec) + 1 \<Longrightarrow> fen_partial (int (length vec)) (i - 1) (dif vec) t \<Longrightarrow>
     fen_partial (int (length vec)) (i - 1) (\<lambda>j. of_int j * dif vec j) s \<Longrightarrow>
     \<exists>t' s'. fen_init_loop vec (int (length vec)) i t s = Some (t', s') \<and>
       fen_tree (int (length vec)) (dif vec) t' \<and> fen_tree (int (length vec)) (\<lambda>j. of_int j * dif vec j) s'"
proof (induction "nat (int (length vec) + 1 - i)" arbitrary: i t s)
  case 0
  then have "i - 1 = int (length vec)" "\<not> i \<le> int (length vec)" by simp_all
  then have "fen_tree (int (length vec)) (dif vec) t" "fen_tree (int (length vec)) (\<lambda>j. of_int j * dif vec j) s"
    using "0.prems"(3,4) by (auto intro!: fen_partial_end)
  then show ?case using \<open>\<not> i \<le> int (length vec)\<close> by (subst fen_init_loop.simps) simp
next
  case (Suc m)
  let ?n = "int (length vec)"
  have i: "i \<le> ?n" using Suc.hyps(2) by simp
  obtain t' where t': "push_up ?n i (dif vec i) t = Some t'" "fen_partial ?n i (dif vec) t'"
    using push_up_ok [OF Suc.prems(3,1) i] by blast
  obtain s' where s': "push_up ?n i (of_int i * dif vec i) s = Some s'" "fen_partial ?n i (\<lambda>j. of_int j * dif vec j) s'"
    using push_up_ok [OF Suc.prems(4,1) i] by blast
  have a: "ivget vec (i - 1) = Some (vec ! nat (i - 1))" using i Suc.prems(1) by simp
  have d: "(if i = 1 then Some (vec ! nat (i - 1)) else do { b \<leftarrow> ivget vec (i - 2); Some (vec ! nat (i - 1) - b) }) = Some (dif vec i)"
    using i Suc.prems(1) by (auto simp: dif_def)
  have "fen_init_loop vec ?n i t s = fen_init_loop vec ?n (i + 1) t' s'"
    by (simp only: fen_init_loop.simps [of vec ?n i] if_P [OF i] a d t'(1) s'(1) Option.bind.simps)
  moreover have "\<exists>t'' s''. fen_init_loop vec ?n (i + 1) t' s' = Some (t'', s'') \<and>
       fen_tree ?n (dif vec) t'' \<and> fen_tree ?n (\<lambda>j. of_int j * dif vec j) s''"
    using Suc.hyps(2) i Suc.prems(1) t'(2) s'(2) by (intro Suc.hyps(1)) simp_all
  ultimately show ?case by simp
qed

section \<open>Sums of values\<close>

lemma sum_dif_upto: "(\<Sum>j\<in>{0<..int m}. g j) = (\<Sum>j<m. g (int j + 1))" for g :: "int \<Rightarrow> 'a :: comm_ring_1"
proof (induction m)
  case (Suc m)
  have "{0<..int (Suc m)} = insert (int m + 1) {0<..int m}" by auto
  then show ?case using Suc by (simp add: add.commute)
qed simp

text \<open>\<open>val f i\<close> is the value at position \<open>i\<close> of the array with differences \<open>f\<close>.\<close>

definition val :: "(int \<Rightarrow> 'a :: comm_ring_1) \<Rightarrow> int \<Rightarrow> 'a" where
  "val f i = (\<Sum>j\<in>{0<..i}. f j)"

lemma prefix_values:
  "(\<Sum>i\<in>{0<..int m}. val f i) = of_int (int m + 1) * val f (int m) - (\<Sum>j\<in>{0<..int m}. of_int j * f j)"
proof (induction m)
  case (Suc m)
  have s: "{0<..int (Suc m)} = insert (int m + 1) {0<..int m}" by auto
  have i: "int (Suc m) = int m + 1" by simp
  have v: "val f (int m + 1) = f (int m + 1) + val f (int m)" unfolding val_def s [unfolded i] by simp
  show ?case unfolding s unfolding i v using Suc by (simp add: v [unfolded add.commute [of "int m" 1]] algebra_simps)
qed (simp add: val_def)

lemma range_sum_ok:
  assumes "fen_tree n f (fen_diff b)" "fen_tree n (\<lambda>j. of_int j * f j) (fen_idiff b)" "1 \<le> l" "l \<le> r + 1" "r \<le> n"
  shows "fen_range_sum b l r = Some (\<Sum>i\<in>{l..r}. val f i)"
proof -
  have q: "fen_query_loop (fen_diff b) i 0 = Some (val f i)" "fen_query_loop (fen_idiff b) i 0 = Some (\<Sum>j\<in>{0<..i}. of_int j * f j)"
    if "0 \<le> i" "i \<le> n" for i using query_ok [OF assms(1) that] query_ok [OF assms(2) that] by (simp_all add: val_def)
  have r: "(\<Sum>i\<in>{0<..r}. val f i) = of_int (r + 1) * val f r - (\<Sum>j\<in>{0<..r}. of_int j * f j)"
    using prefix_values [of f "nat r"] assms(3,4) by simp
  have l: "(\<Sum>i\<in>{0<..l - 1}. val f i) = of_int l * val f (l - 1) - (\<Sum>j\<in>{0<..l - 1}. of_int j * f j)"
    using prefix_values [of f "nat (l - 1)"] assms(3) by simp
  have "{0<..r} = {0<..l - 1} \<union> {l..r}" using assms(3,4) by auto
  then have "(\<Sum>i\<in>{0<..r}. val f i) = (\<Sum>i\<in>{0<..l - 1}. val f i) + (\<Sum>i\<in>{l..r}. val f i)"
    by (simp only:) (rule sum.union_disjoint, auto)
  then show ?thesis using q assms(3-5) r l by (simp add: fen_range_sum_def algebra_simps)
qed

lemma val_shift: "0 \<le> i \<Longrightarrow> val (\<lambda>j. f j + (if j = l then v else 0)) i = val f i + (if 0 < l \<and> l \<le> i then v else 0)"
  by (simp add: val_def sum.distrib)

section \<open>The tree as an array\<close>

text \<open>\<open>fen_rep b vs\<close>: the tree stands for the values \<open>vs\<close>, in positions \<open>1\<close> to \<open>length vs\<close>.\<close>

definition fen_rep :: "'a :: comm_ring_1 fen \<Rightarrow> 'a list \<Rightarrow> bool" where
  "fen_rep b vs \<longleftrightarrow> (\<exists>f. fen_size b = int (length vs) \<and> fen_tree (int (length vs)) f (fen_diff b) \<and>
     fen_tree (int (length vs)) (\<lambda>j. of_int j * f j) (fen_idiff b) \<and> (\<forall>i<length vs. vs ! i = val f (int i + 1)))"

lemma val_dif: "i < length vec \<Longrightarrow> val (dif vec) (int i + 1) = vec ! i"
proof (induction i)
  case 0
  have s: "{0<..int 0 + 1} = {1}" by auto
  show ?case unfolding val_def s using 0 by (cases vec) (simp_all add: dif_def)
next
  case (Suc i)
  have "{0<..int (Suc i) + 1} = insert (int i + 2) {0<..int i + 1}" by auto
  then have "val (dif vec) (int (Suc i) + 1) = dif vec (int i + 2) + val (dif vec) (int i + 1)" by (simp add: val_def)
  also have "dif vec (int i + 2) = vec ! Suc i - vec ! i" using Suc.prems by (simp add: dif_def nat_add_distrib)
  finally show ?case using Suc by simp
qed

lemma vresize_zeros: "vresize (replicate n 0) m 0 = replicate m 0"
  by (simp add: vresize_def min_def replicate_add [symmetric])

lemma fen_init_ok: "\<exists>b. fen_init (fen_new n) vec = Some b \<and> fen_rep b vec"
proof -
  let ?n = "length vec" let ?z = "replicate (?n + 1) 0 :: 'a list"
  obtain t s where ts: "fen_init_loop vec (int ?n) 1 ?z ?z = Some (t, s)" "fen_tree (int ?n) (dif vec) t"
    "fen_tree (int ?n) (\<lambda>j. of_int j * dif vec j) s" using init_loop_ok [of 1 vec ?z ?z] fen_partial_start by auto
  have "fen_init (fen_new n) vec = Some \<lparr>fen_size = int ?n, fen_diff = t, fen_idiff = s\<rparr>"
    using ts(1) by (simp add: fen_init_def fen_new_def Let_def vresize_zeros del: replicate_Suc)
  moreover have "fen_rep \<lparr>fen_size = int ?n, fen_diff = t, fen_idiff = s\<rparr> vec"
    unfolding fen_rep_def using ts(2,3) by (intro exI [of _ "dif vec"]) (simp add: val_dif)
  ultimately show ?thesis by blast
qed

lemma update_from_ok:
  assumes "fen_size b = n" "fen_tree n f (fen_diff b)" "fen_tree n (\<lambda>j. of_int j * f j) (fen_idiff b)"
  shows "\<exists>b'. fen_update_from b i v = Some b' \<and> fen_size b' = n \<and>
    fen_tree n (\<lambda>j. f j + (if j = max 1 i then v else 0)) (fen_diff b') \<and>
    fen_tree n (\<lambda>j. of_int j * (f j + (if j = max 1 i then v else 0))) (fen_idiff b')"
proof -
  let ?i = "max 1 i" let ?b = "b\<lparr>fen_diff := add_cover ?i v (fen_diff b), fen_idiff := add_cover ?i (of_int ?i * v) (fen_idiff b)\<rparr>"
  have i: "(if i \<le> 0 then 1 else i) = ?i" "0 < ?i" by auto
  have "fen_update_from b i v = Some ?b"
    using assms by (simp add: fen_update_from_def i(1) Let_def update_ok [OF _ _ _ i(2)] fen_tree_def)
  moreover have "fen_tree n (\<lambda>j. of_int j * f j + (if j = ?i then of_int ?i * v else 0)) (fen_idiff ?b)"
    using fen_tree_add [OF assms(3) i(2)] by simp
  moreover have "(\<lambda>j. of_int j * f j + (if j = ?i then of_int ?i * v else 0)) = (\<lambda>j. of_int j * (f j + (if j = ?i then v else 0)))"
    by (auto simp: algebra_simps)
  ultimately show ?thesis using fen_tree_add [OF assms(2) i(2), of v] assms(1) by auto
qed

definition array_add :: "int \<Rightarrow> int \<Rightarrow> 'a :: comm_ring_1 \<Rightarrow> 'a list \<Rightarrow> 'a list" where
  "array_add l r v vs = map (\<lambda>i. if l \<le> int i + 1 \<and> int i + 1 \<le> r then vs ! i + v else vs ! i) [0..<length vs]"

lemma range_update_ok:
  assumes "fen_rep b vs" "l \<le> r" "0 \<le> r"
  shows "\<exists>b'. fen_range_update b l r v = Some b' \<and> fen_rep b' (array_add l r v vs)"
proof -
  obtain f where f: "fen_size b = int (length vs)" "fen_tree (int (length vs)) f (fen_diff b)"
    "fen_tree (int (length vs)) (\<lambda>j. of_int j * f j) (fen_idiff b)" "\<forall>i<length vs. vs ! i = val f (int i + 1)"
    using assms(1) unfolding fen_rep_def by blast
  let ?f = "\<lambda>j. f j + (if j = max 1 l then v else 0)" let ?g = "\<lambda>j. ?f j + (if j = max 1 (r + 1) then - v else 0)"
  obtain b1 where b1: "fen_update_from b l v = Some b1" "fen_size b1 = int (length vs)" "fen_tree (int (length vs)) ?f (fen_diff b1)"
    "fen_tree (int (length vs)) (\<lambda>j. of_int j * ?f j) (fen_idiff b1)" using update_from_ok [OF f(1-3)] by blast
  obtain b2 where b2: "fen_update_from b1 (r + 1) (- v) = Some b2" "fen_size b2 = int (length vs)"
    "fen_tree (int (length vs)) ?g (fen_diff b2)" "fen_tree (int (length vs)) (\<lambda>j. of_int j * ?g j) (fen_idiff b2)"
    using update_from_ok [OF b1(2-4)] by blast
  have "val ?g (int i + 1) = val f (int i + 1) + (if l \<le> int i + 1 \<and> int i + 1 \<le> r then v else 0)" for i
    using assms(2,3) val_shift [of "int i + 1" ?f "max 1 (r + 1)" "- v"] val_shift [of "int i + 1" f "max 1 l" v] by auto
  then have "fen_rep b2 (array_add l r v vs)"
    unfolding fen_rep_def using b2 f(4) by (intro exI [of _ ?g]) (simp add: array_add_def)
  then show ?thesis using b1(1) b2(1) by (simp add: fen_range_update_def)
qed

section \<open>Property\<close>

datatype 'a fen_op = Fen_update int 'a | Fen_range_update int int 'a | Fen_query int | Fen_range_sum int int | Fen_prefix_sum int

fun fen_run :: "'a :: comm_ring_1 fen \<Rightarrow> 'a fen_op list \<Rightarrow> 'a list option" where
  "fen_run b [] = Some []"
| "fen_run b (Fen_update i v # ops) = do { b \<leftarrow> fen_update b i v; fen_run b ops }"
| "fen_run b (Fen_range_update l r v # ops) = do { b \<leftarrow> fen_range_update b l r v; fen_run b ops }"
| "fen_run b (Fen_query i # ops) = do { x \<leftarrow> fen_query b i; ys \<leftarrow> fen_run b ops; Some (x # ys) }"
| "fen_run b (Fen_range_sum l r # ops) = do { x \<leftarrow> fen_range_sum b l r; ys \<leftarrow> fen_run b ops; Some (x # ys) }"
| "fen_run b (Fen_prefix_sum i # ops) = do { x \<leftarrow> fen_prefix_sum b i; ys \<leftarrow> fen_run b ops; Some (x # ys) }"

definition sum_range :: "int \<Rightarrow> int \<Rightarrow> 'a :: comm_ring_1 list \<Rightarrow> 'a" where
  "sum_range l r vs = sum_list (map (\<lambda>i. vs ! nat (i - 1)) [l..r])"

fun array_run :: "'a :: comm_ring_1 list \<Rightarrow> 'a fen_op list \<Rightarrow> 'a list" where
  "array_run vs [] = []"
| "array_run vs (Fen_update i v # ops) = array_run (array_add i i v vs) ops"
| "array_run vs (Fen_range_update l r v # ops) = array_run (array_add l r v vs) ops"
| "array_run vs (Fen_query i # ops) = vs ! nat (i - 1) # array_run vs ops"
| "array_run vs (Fen_range_sum l r # ops) = sum_range l r vs # array_run vs ops"
| "array_run vs (Fen_prefix_sum i # ops) = sum_range 1 i vs # array_run vs ops"

fun fen_valid :: "nat \<Rightarrow> 'a fen_op \<Rightarrow> bool" where
  "fen_valid n (Fen_update i v) \<longleftrightarrow> 0 < i"
| "fen_valid n (Fen_range_update l r v) \<longleftrightarrow> l \<le> r \<and> 0 \<le> r"
| "fen_valid n (Fen_query i) \<longleftrightarrow> 0 < i \<and> i \<le> int n"
| "fen_valid n (Fen_range_sum l r) \<longleftrightarrow> 1 \<le> l \<and> l \<le> r + 1 \<and> r \<le> int n"
| "fen_valid n (Fen_prefix_sum i) \<longleftrightarrow> 0 \<le> i \<and> i \<le> int n"

lemma rep_sum:
  assumes "fen_rep b vs" "1 \<le> l" "l \<le> r + 1" "r \<le> int (length vs)"
  shows "fen_range_sum b l r = Some (sum_range l r vs)"
proof -
  obtain f where f: "fen_tree (int (length vs)) f (fen_diff b)"
    "fen_tree (int (length vs)) (\<lambda>j. of_int j * f j) (fen_idiff b)" "\<forall>i<length vs. vs ! i = val f (int i + 1)"
    using assms(1) unfolding fen_rep_def by blast
  have "sum_range l r vs = (\<Sum>i\<in>{l..r}. vs ! nat (i - 1))"
    unfolding sum_range_def by (simp add: sum_list_distinct_conv_sum_set)
  also have "\<dots> = (\<Sum>i\<in>{l..r}. val f i)"
  proof (rule sum.cong [OF refl])
    fix i assume "i \<in> {l..r}"
    then have i: "1 \<le> i" "nat (i - 1) < length vs" using assms(2,4) by (simp_all add: nat_less_iff)
    then show "vs ! nat (i - 1) = val f i" using f(3) [rule_format, OF i(2)] by simp
  qed
  finally show ?thesis using range_sum_ok [OF f(1,2) assms(2-4)] by simp
qed

lemma rep_query:
  assumes "fen_rep b vs" "0 < i" "i \<le> int (length vs)"
  shows "fen_query b i = Some (vs ! nat (i - 1))"
proof -
  obtain f where f: "fen_tree (int (length vs)) f (fen_diff b)" "\<forall>i<length vs. vs ! i = val f (int i + 1)"
    using assms(1) unfolding fen_rep_def by blast
  have "vs ! nat (i - 1) = val f i" using f(2)[rule_format, of "nat (i - 1)"] assms(2,3) by simp
  then show ?thesis using query_ok [OF f(1), of i 0] assms(2,3) by (simp add: fen_query_def val_def)
qed

lemma length_array_add [simp]: "length (array_add l r v vs) = length vs"
  by (simp add: array_add_def)

lemma fen_run_ok: "fen_rep b vs \<Longrightarrow> \<forall>op\<in>set ops. fen_valid (length vs) op \<Longrightarrow> fen_run b ops = Some (array_run vs ops)"
proof (induction vs ops arbitrary: b rule: array_run.induct)
  case (2 vs i v ops)
  then obtain b' where "fen_range_update b i i v = Some b'" "fen_rep b' (array_add i i v vs)" using range_update_ok [of b vs i i v] by auto
  then show ?case using 2 by (simp add: fen_update_def)
next
  case (3 vs l r v ops)
  then obtain b' where "fen_range_update b l r v = Some b'" "fen_rep b' (array_add l r v vs)" using range_update_ok [of b vs l r v] by auto
  then show ?case using 3 by simp
qed (simp_all add: rep_query rep_sum fen_prefix_sum_def)



end
