(* ===== verification/Graph.thy ===== *)
theory Graph
  imports Prelude
begin

text \<open>
  The adjacency lists of \<open>cpp/algorithm/lib/graph/graph.h\<close> and the walks that the shortest-path algorithms are
  measured against. A vertex is an integer, as in the code; a list is indexed with a check.
\<close>

section \<open>Adjacency lists\<close>

type_synonym adj = "(int \<times> int) list list"

fun graph_edges :: "int list list \<Rightarrow> adj \<Rightarrow> adj option" where
  "graph_edges [] g = Some g"
| "graph_edges (v # vec) g =
     do { w \<leftarrow> (if length v > 2 then vget v 2 else Some 0);
          a \<leftarrow> vget v 0;
          b \<leftarrow> vget v 1;
          es \<leftarrow> ivget g (a - 1);
          g \<leftarrow> ivset g (a - 1) (es @ [(b - 1, w)]);
          graph_edges vec g }"

definition graph_new :: "int list list \<Rightarrow> nat \<Rightarrow> adj option" where
  "graph_new vec n = graph_edges vec (replicate n [])"

text \<open>The vector entry of an unreached vertex.\<close>

definition INT32_MAX :: int where
  "INT32_MAX = 2 ^ 31 - 1"

definition edge :: "adj \<Rightarrow> int \<Rightarrow> int \<Rightarrow> int \<Rightarrow> bool" where
  "edge g u v w \<longleftrightarrow> 0 \<le> u \<and> u < int (length g) \<and> (v, w) \<in> set (g ! nat u)"

text \<open>The constructor stores one edge for every entry, from the 1-based vertices to 0-based ones.\<close>

definition entry_ok :: "nat \<Rightarrow> int list \<Rightarrow> bool" where
  "entry_ok n r \<longleftrightarrow> 2 \<le> length r \<and> 1 \<le> r ! 0 \<and> r ! 0 \<le> int n"

definition entry_edge :: "int list \<Rightarrow> int \<times> int \<times> int" where
  "entry_edge r = (r ! 0 - 1, r ! 1 - 1, if 2 < length r then r ! 2 else 0)"

lemma graph_edges_ok:
  "list_all (entry_ok (length g)) vec \<Longrightarrow> \<exists>g'. graph_edges vec g = Some g' \<and> length g' = length g \<and>
     (\<forall>u v w. edge g' u v w \<longleftrightarrow> edge g u v w \<or> (u, v, w) \<in> entry_edge ` set vec)"
proof (induction vec arbitrary: g)
  case (Cons r vec)
  let ?u = "r ! 0 - 1" let ?e = "(r ! 1 - 1, if 2 < length r then r ! 2 else 0)"
  let ?g = "g[nat ?u := g ! nat ?u @ [?e]]"
  have r: "2 \<le> length r" "0 \<le> ?u" "nat ?u < length g" using Cons.prems by (auto simp: entry_ok_def)
  have e: "edge ?g u v w \<longleftrightarrow> edge g u v w \<or> (u, v, w) = entry_edge r" for u v w
    using r by (cases "u = ?u") (auto simp: edge_def entry_edge_def nth_list_update)
  obtain g' where g': "graph_edges vec ?g = Some g'" "length g' = length ?g" "\<And>u v w. edge g' u v w \<longleftrightarrow> edge ?g u v w \<or> (u, v, w) \<in> entry_edge ` set vec"
    using Cons.IH [of ?g] Cons.prems by auto
  have v: "vget r 0 = Some (r ! 0)" "vget r 1 = Some (r ! 1)" "(if 2 < length r then vget r 2 else Some 0) = Some (snd ?e)" using r(1) by auto
  have "ivget g ?u = Some (g ! nat ?u)" "ivset g ?u (g ! nat ?u @ [?e]) = Some ?g" using r by simp_all
  then have "graph_edges (r # vec) g = Some g'" using g'(1) unfolding graph_edges.simps v by simp
  then show ?case using g'(2,3) e by auto
qed simp

lemma graph_new_edges:
  assumes "list_all (entry_ok n) vec"
  shows "\<exists>g. graph_new vec n = Some g \<and> length g = n \<and> (\<forall>u v w. edge g u v w \<longleftrightarrow> (u, v, w) \<in> entry_edge ` set vec)"
proof -
  have "\<not> edge (replicate n []) u v w" for u v w by (simp add: edge_def nat_less_iff)
  then show ?thesis using graph_edges_ok [of "replicate n []" vec] assms by (simp add: graph_new_def)
qed

text \<open>Every target is a vertex, and a walk of at most \<open>n\<close> edges costs less than \<open>INT32_MAX\<close> either way.\<close>

definition graph_ok :: "adj \<Rightarrow> bool" where
  "graph_ok g \<longleftrightarrow> (\<forall>es\<in>set g. \<forall>(v, w)\<in>set es. 0 \<le> v \<and> v < int (length g) \<and> \<bar>w\<bar> * int (length g) < INT32_MAX)"

lemma graph_okI:
  assumes "\<And>u v w. edge g u v w \<Longrightarrow> 0 \<le> v \<and> v < int (length g) \<and> \<bar>w\<bar> * int (length g) < INT32_MAX"
  shows "graph_ok g"
  unfolding graph_ok_def
proof (intro ballI)
  fix es e assume "es \<in> set g" and e: "e \<in> set es"
  then obtain i where "i < length g" "es = g ! i" by (auto simp: in_set_conv_nth)
  then have "edge g (int i) (fst e) (snd e)" using e by (simp add: edge_def)
  then show "case e of (v, w) \<Rightarrow> 0 \<le> v \<and> v < int (length g) \<and> \<bar>w\<bar> * int (length g) < INT32_MAX"
    using assms by (simp add: split_def)
qed

lemma edge_ok:
  assumes "graph_ok g" "edge g u v w"
  shows "0 \<le> u" "u < int (length g)" "0 \<le> v" "v < int (length g)" "\<bar>w\<bar> * int (length g) < INT32_MAX"
proof -
  have u: "0 \<le> u" "nat u < length g" "(v, w) \<in> set (g ! nat u)" using assms(2) by (auto simp: edge_def)
  then have "g ! nat u \<in> set g" by simp
  then show "0 \<le> u" "u < int (length g)" "0 \<le> v" "v < int (length g)" "\<bar>w\<bar> * int (length g) < INT32_MAX"
    using u assms(1) by (auto simp: graph_ok_def)
qed

text \<open>Entries whose vertices lie between 1 and \<open>n\<close> and whose weights are small, as the algorithms need them.\<close>

definition entry_small :: "nat \<Rightarrow> int list \<Rightarrow> bool" where
  "entry_small n r \<longleftrightarrow> entry_ok n r \<and> 1 \<le> r ! 1 \<and> r ! 1 \<le> int n \<and> (2 < length r \<longrightarrow> \<bar>r ! 2\<bar> * int n < INT32_MAX)"

lemma graph_new_ok:
  assumes "list_all (entry_small n) vec"
  shows "\<exists>g. graph_new vec n = Some g \<and> length g = n \<and> graph_ok g \<and> (\<forall>u v w. edge g u v w \<longleftrightarrow> (u, v, w) \<in> entry_edge ` set vec)"
proof -
  have "list_all (entry_ok n) vec" using assms by (auto simp: list_all_iff entry_small_def)
  then obtain g where g: "graph_new vec n = Some g" "length g = n" "\<And>u v w. edge g u v w \<longleftrightarrow> (u, v, w) \<in> entry_edge ` set vec"
    using graph_new_edges by blast
  have "graph_ok g"
  proof (rule graph_okI)
    fix u v w assume "edge g u v w"
    then obtain r where "r \<in> set vec" "(u, v, w) = entry_edge r" using g(3) by blast
    then show "0 \<le> v \<and> v < int (length g) \<and> \<bar>w\<bar> * int (length g) < INT32_MAX"
      using assms g(2) by (auto simp: list_all_iff entry_small_def entry_edge_def INT32_MAX_def)
  qed
  then show ?thesis using g by blast
qed

section \<open>Walks\<close>

text \<open>\<open>walk g u v k c\<close>: a walk from \<open>u\<close> to \<open>v\<close> of \<open>k\<close> edges and cost \<open>c\<close>.\<close>

inductive walk :: "adj \<Rightarrow> int \<Rightarrow> int \<Rightarrow> nat \<Rightarrow> int \<Rightarrow> bool" for g u where
  stay: "walk g u u 0 0"
| step: "walk g u v k c \<Longrightarrow> edge g v x w \<Longrightarrow> walk g u x (Suc k) (c + w)"

lemma walk_append: "walk g v x j d \<Longrightarrow> walk g u v k c \<Longrightarrow> walk g u x (k + j) (c + d)"
proof (induction rule: walk.induct)
  case (step x j d y w)
  then have "walk g u y (Suc (k + j)) (c + d + w)" using walk.step by blast
  then show ?case by (simp add: add.assoc)
qed simp

lemma walk_edge: "edge g u v w \<Longrightarrow> walk g u v 1 w"
  using walk.step [OF walk.stay] by fastforce

lemma walk_vertex: "graph_ok g \<Longrightarrow> walk g u v k c \<Longrightarrow> 0 \<le> u \<and> u < int (length g) \<Longrightarrow> 0 \<le> v \<and> v < int (length g)"
  by (erule walk.cases) (use edge_ok in blast)+

text \<open>A walk as a sequence of vertices and of partial costs.\<close>

lemma walk_sequence:
  "walk g u v k c \<Longrightarrow> \<exists>p f. p 0 = u \<and> p k = v \<and> f 0 = 0 \<and> f k = c \<and> (\<forall>i<k. edge g (p i) (p (Suc i)) (f (Suc i) - f i))"
proof (induction rule: walk.induct)
  case stay
  show ?case by (intro exI [of _ "\<lambda>_. u"] exI [of _ "\<lambda>_. 0"]) simp
next
  case (step v k c x w)
  then obtain p f where pf: "p 0 = u" "p k = v" "f 0 = 0" "f k = c" "\<forall>i<k. edge g (p i) (p (Suc i)) (f (Suc i) - f i)" by blast
  let ?p = "p(Suc k := x)" let ?f = "f(Suc k := c + w)"
  have "edge g (?p i) (?p (Suc i)) (?f (Suc i) - ?f i)" if "i < Suc k" for i
    using pf step.hyps(2) that by (cases "i = k") simp_all
  then show ?case using pf by (intro exI [of _ ?p] exI [of _ ?f]) simp
qed

lemma subwalk:
  assumes "\<forall>i<k. edge g (p i) (p (Suc i)) (f (Suc i) - f i)" "i \<le> j" "j \<le> k"
  shows "walk g (p i) (p j) (j - i) (f j - f i)"
  using assms(2,3)
proof (induction j)
  case (Suc j)
  show ?case
  proof (cases "i = Suc j")
    case False
    then have "walk g (p i) (p j) (j - i) (f j - f i)" "i \<le> j" using Suc by simp_all
    then have "walk g (p i) (p (Suc j)) (Suc (j - i)) (f j - f i + (f (Suc j) - f j))"
      using assms(1) [rule_format, of j] Suc.prems(2) by (intro walk.step) simp_all
    then show ?thesis using \<open>i \<le> j\<close> by (simp add: Suc_diff_le)
  qed (simp add: walk.stay)
qed (simp add: walk.stay)

text \<open>A walk of at least as many edges as there are vertices runs through a cycle.\<close>

lemma walk_cycle:
  assumes "graph_ok g" "walk g u v k c" "0 \<le> u" "u < int (length g)" "length g \<le> k"
  obtains x i j l a b d where "walk g u x i a" "walk g x x j b" "walk g x v l d" "0 < j" "k = i + j + l" "c = a + b + d"
proof -
  obtain p f where pf: "p 0 = u" "p k = v" "f 0 = 0" "f k = c" "\<forall>i<k. edge g (p i) (p (Suc i)) (f (Suc i) - f i)"
    using walk_sequence [OF assms(2)] by blast
  have w: "walk g (p i) (p j) (j - i) (f j - f i)" if "i \<le> j" "j \<le> k" for i j using subwalk [OF pf(5) that] .
  have "p i \<in> {0..<int (length g)}" if "i \<le> k" for i
    using walk_vertex [OF assms(1) w [of 0 i]] that pf(1) assms(3,4) by simp
  then have "p ` {0..k} \<subseteq> {0..<int (length g)}" by auto
  then have "card (p ` {0..k}) \<le> length g" using card_mono [of "{0..<int (length g)}"] by fastforce
  then have "card (p ` {0..k}) < card {0..k}" using assms(5) by simp
  then have "\<not> inj_on p {0..k}" using pigeonhole by blast
  then obtain x y where xy: "x \<le> k" "y \<le> k" "p x = p y" "x \<noteq> y" by (auto simp: inj_on_def)
  define i j where "i = min x y" and "j = max x y"
  have ij: "i < j" "j \<le> k" "p i = p j" using xy by (auto simp: i_def j_def min_def max_def)
  have "walk g u (p i) i (f i)" using w [of 0 i] ij pf(1,3) by simp
  moreover have "walk g (p i) (p i) (j - i) (f j - f i)" using w [of i j] ij by simp
  moreover have "walk g (p i) v (k - j) (c - f j)" using w [of j k] ij pf(2,4) by simp
  ultimately show thesis using that ij by fastforce
qed

definition no_negative_cycle :: "adj \<Rightarrow> int \<Rightarrow> bool" where
  "no_negative_cycle g s \<longleftrightarrow> (\<forall>x k c j b. walk g s x k c \<longrightarrow> walk g x x j b \<longrightarrow> 0 \<le> b)"

lemma walk_short:
  assumes "graph_ok g" "0 \<le> u" "u < int (length g)" "walk g u v k c"
  shows "\<exists>k' c'. k' < length g \<and> walk g u v k' c' \<and> (no_negative_cycle g u \<longrightarrow> c' \<le> c)"
  using assms(4)
proof (induction k arbitrary: c rule: less_induct)
  case (less k)
  show ?case
  proof (cases "k < length g")
    case False
    then obtain x i j l a b d where w: "walk g u x i a" "walk g x x j b" "walk g x v l d" "0 < j" "k = i + j + l" "c = a + b + d"
      using walk_cycle [OF assms(1) less.prems assms(2,3)] by (metis not_less)
    have "walk g u v (i + l) (a + d)" using walk_append [OF w(3,1)] .
    moreover have "i + l < k" using w(4,5) by simp
    ultimately obtain k' c' where "k' < length g" "walk g u v k' c'" "no_negative_cycle g u \<longrightarrow> c' \<le> a + d"
      using less.IH by blast
    moreover have "no_negative_cycle g u \<longrightarrow> 0 \<le> b" using w(1,2) unfolding no_negative_cycle_def by blast
    ultimately show ?thesis using w(6) by (intro exI [of _ k'] exI [of _ c']) auto
  qed (use less.prems in blast)
qed

lemma walk_bound: "walk g u v k c \<Longrightarrow> graph_ok g \<Longrightarrow> \<bar>c\<bar> * int (length g) \<le> int k * INT32_MAX"
proof (induction rule: walk.induct)
  case (step v k c x w)
  have "\<bar>c + w\<bar> * int (length g) \<le> (\<bar>c\<bar> + \<bar>w\<bar>) * int (length g)" by (intro mult_right_mono) simp_all
  also have "\<dots> = \<bar>c\<bar> * int (length g) + \<bar>w\<bar> * int (length g)" by (simp add: distrib_right)
  also have "\<dots> \<le> int k * INT32_MAX + INT32_MAX" using step edge_ok(5) [OF step.prems step.hyps(2)] by linarith
  finally show ?case by (simp add: distrib_right add.commute)
qed simp

lemma short_walk_cheap: "graph_ok g \<Longrightarrow> walk g u v k c \<Longrightarrow> k < length g \<Longrightarrow> \<bar>c\<bar> < INT32_MAX"
proof -
  assume a: "graph_ok g" "walk g u v k c" "k < length g"
  have "\<bar>c\<bar> * int (length g) \<le> int k * INT32_MAX" using walk_bound a by blast
  also have "\<dots> < int (length g) * INT32_MAX" using a(3) by (simp add: INT32_MAX_def)
  finally have "\<bar>c\<bar> * int (length g) < INT32_MAX * int (length g)" by (simp add: mult.commute)
  then show ?thesis by (rule mult_right_less_imp_less) simp
qed

end
