(* ===== verification/BellmanFord.thy ===== *)
theory BellmanFord
  imports Graph
begin

text \<open>
  \<open>BellmanFord\<close> of \<open>cpp/algorithm/lib/graph/bellman_ford.h\<close>: rounds over all vertices, each relaxing the edges of
  the vertices reached so far, until a round changes nothing or as many rounds as vertices have run.
\<close>

section \<open>The algorithm\<close>

fun relax_edges :: "int \<Rightarrow> (int \<times> int) list \<Rightarrow> int list \<Rightarrow> bool \<Rightarrow> (int list \<times> bool) option" where
  "relax_edges u [] answer flag = Some (answer, flag)"
| "relax_edges u ((v, w) # es) answer flag =
     do { av \<leftarrow> ivget answer v;
          au \<leftarrow> ivget answer u;
          if av > au + w
          then do { answer \<leftarrow> ivset answer v (au + w); relax_edges u es answer True }
          else relax_edges u es answer flag }"

fun bf_nodes :: "adj \<Rightarrow> int \<Rightarrow> int list \<Rightarrow> bool \<Rightarrow> (int list \<times> bool) option" where
  "bf_nodes [] u answer flag = Some (answer, flag)"
| "bf_nodes (es # g) u answer flag =
     do { au \<leftarrow> ivget answer u;
          if au = INT32_MAX then bf_nodes g (u + 1) answer flag
          else do { (answer, flag) \<leftarrow> relax_edges u es answer flag; bf_nodes g (u + 1) answer flag } }"

fun bf_rounds :: "adj \<Rightarrow> nat \<Rightarrow> int list \<Rightarrow> bool \<Rightarrow> (int list \<times> bool) option" where
  "bf_rounds g 0 answer flag = Some (answer, flag)"
| "bf_rounds g (Suc i) answer flag =
     do { (answer, flag) \<leftarrow> bf_nodes g 0 answer False;
          if \<not> flag then Some (answer, flag) else bf_rounds g i answer flag }"

text \<open>The flag is uninitialised before the first round; without vertices the first assignment already fails.\<close>

definition bellman_ford :: "adj \<Rightarrow> int \<Rightarrow> (int list \<times> bool) option" where
  "bellman_ford g start_node =
     do { answer \<leftarrow> ivset (replicate (length g) INT32_MAX) start_node 0;
          bf_rounds g (length g) answer False }"

section \<open>Relaxing\<close>

text \<open>Every entry is \<open>INT32_MAX\<close> or the cost of a walk.\<close>

definition sound :: "adj \<Rightarrow> int \<Rightarrow> int list \<Rightarrow> bool" where
  "sound g s a \<longleftrightarrow> length a = length g \<and> (\<forall>v. 0 \<le> v \<and> v < int (length g) \<longrightarrow>
     a ! nat v \<le> INT32_MAX \<and> (a ! nat v = INT32_MAX \<or> (\<exists>k. walk g s v k (a ! nat v))))"

definition below_all :: "adj \<Rightarrow> int list \<Rightarrow> int list \<Rightarrow> bool" where
  "below_all g a b \<longleftrightarrow> (\<forall>v. 0 \<le> v \<and> v < int (length g) \<longrightarrow> a ! nat v \<le> b ! nat v)"

lemma below_all_refl [simp]: "below_all g a a"
  by (simp add: below_all_def)

lemma below_all_trans: "below_all g a b \<Longrightarrow> below_all g b c \<Longrightarrow> below_all g a c"
  unfolding below_all_def using order_trans by blast

text \<open>What one pass over a list of edges of \<open>u\<close> achieves.\<close>

definition relaxed :: "adj \<Rightarrow> int \<Rightarrow> int \<Rightarrow> (int \<times> int) list \<Rightarrow> int list \<Rightarrow> bool \<Rightarrow> int list \<Rightarrow> bool \<Rightarrow> bool" where
  "relaxed g s u es a fl a' fl' \<longleftrightarrow> sound g s a' \<and> below_all g a' a \<and> (fl \<longrightarrow> fl') \<and>
     (\<not> fl' \<longrightarrow> a' = a) \<and> (\<not> fl \<longrightarrow> fl' \<longrightarrow> (\<exists>v. 0 \<le> v \<and> v < int (length g) \<and> a' ! nat v < a ! nat v)) \<and>
     (\<forall>(v, w)\<in>set es. a' ! nat v \<le> a ! nat u + w)"

lemma relax_edges_ok:
  "sound g s a \<Longrightarrow> 0 \<le> u \<Longrightarrow> u < int (length g) \<Longrightarrow> a ! nat u \<noteq> INT32_MAX \<Longrightarrow> set es \<subseteq> set (g ! nat u) \<Longrightarrow> graph_ok g \<Longrightarrow>
     \<exists>a' fl'. relax_edges u es a fl = Some (a', fl') \<and> relaxed g s u es a fl a' fl'"
proof (induction u es a fl rule: relax_edges.induct)
  case (1 u a fl)
  then show ?case by (simp add: relaxed_def)
next
  case (2 u v w es a fl)
  have e: "edge g u v w" using "2.prems"(2,3,5) by (auto simp: edge_def)
  note v = edge_ok(3,4) [OF "2.prems"(6) e]
  have len: "length a = length g" using "2.prems"(1) by (simp add: sound_def)
  have gets: "ivget a v = Some (a ! nat v)" "ivget a u = Some (a ! nat u)" using v "2.prems"(2,3) len by simp_all
  obtain k where k: "walk g s u k (a ! nat u)" using "2.prems"(1-4) unfolding sound_def by blast
  show ?case
  proof (cases "a ! nat v > a ! nat u + w")
    case False
    have "\<exists>a' fl'. relax_edges u es a fl = Some (a', fl') \<and> relaxed g s u es a fl a' fl'"
      by (rule "2.IH"(2) [OF gets False "2.prems"(1-4) _ "2.prems"(6)]) (use "2.prems"(5) in auto)
    then obtain a' fl' where r: "relax_edges u es a fl = Some (a', fl')" "relaxed g s u es a fl a' fl'" by blast
    have "a' ! nat v \<le> a ! nat v" using r(2) v unfolding relaxed_def below_all_def by blast
    then have "relaxed g s u ((v, w) # es) a fl a' fl'" using r(2) False unfolding relaxed_def by auto
    then show ?thesis using r(1) gets False by auto
  next
    case True
    let ?a = "a[nat v := a ! nat u + w]"
    have put: "ivset a v (a ! nat u + w) = Some ?a" using v len by simp
    have nv: "?a ! nat v = a ! nat u + w" using v len by simp
    have other: "?a ! nat x = a ! nat x" if "0 \<le> x" "x \<noteq> v" for x using that v(1) by simp
    have up: "?a ! nat v < INT32_MAX" using True "2.prems"(1) v nv unfolding sound_def by force
    have wv: "walk g s v (Suc k) (?a ! nat v)" unfolding nv using walk.step [OF k e] .
    have snd: "sound g s ?a" unfolding sound_def
    proof (intro conjI allI impI)
      fix x assume x: "0 \<le> x \<and> x < int (length g)"
      show "?a ! nat x \<le> INT32_MAX" using x up other "2.prems"(1) unfolding sound_def by (cases "x = v") auto
      show "?a ! nat x = INT32_MAX \<or> (\<exists>k. walk g s x k (?a ! nat x))"
        using x wv other "2.prems"(1) unfolding sound_def by (cases "x = v") auto
    qed (use len in simp)
    have dec: "below_all g ?a a" unfolding below_all_def using other nv True by (metis less_imp_le order_refl)
    have "u \<noteq> v \<Longrightarrow> ?a ! nat u = a ! nat u" using other "2.prems"(2) by simp
    then have au: "?a ! nat u \<le> a ! nat u" "?a ! nat u \<noteq> INT32_MAX" using nv True up "2.prems"(4) by (cases "u = v"; simp)+
    have "\<exists>a' fl'. relax_edges u es ?a True = Some (a', fl') \<and> relaxed g s u es ?a True a' fl'"
      by (rule "2.IH"(1) [OF gets True put snd "2.prems"(2,3) au(2) _ "2.prems"(6)]) (use "2.prems"(5) in auto)
    then obtain a' fl' where r: "relax_edges u es ?a True = Some (a', fl')" "relaxed g s u es ?a True a' fl'" by blast
    have a': "below_all g a' a" using r(2) dec below_all_trans unfolding relaxed_def by blast
    have v': "a' ! nat v \<le> a ! nat u + w" using r(2) v nv unfolding relaxed_def below_all_def by metis
    have "relaxed g s u ((v, w) # es) a fl a' fl'"
      unfolding relaxed_def using r(2) a' v' v True au(1) unfolding relaxed_def by fastforce
    then show ?thesis using r(1) gets True put by auto
  qed
qed

section \<open>One round\<close>

definition progress :: "adj \<Rightarrow> int \<Rightarrow> int \<Rightarrow> int list \<Rightarrow> int list \<Rightarrow> bool \<Rightarrow> bool" where
  "progress g s u a0 a fl \<longleftrightarrow> sound g s a \<and> below_all g a a0 \<and> (\<not> fl \<longrightarrow> a = a0) \<and>
     (fl \<longrightarrow> (\<exists>v. 0 \<le> v \<and> v < int (length g) \<and> a ! nat v < a0 ! nat v)) \<and>
     (\<forall>x v w. x < u \<longrightarrow> edge g x v w \<longrightarrow> a0 ! nat x \<noteq> INT32_MAX \<longrightarrow> a ! nat v \<le> a0 ! nat x + w)"

lemma progress_skip:
  assumes "progress g s u a0 a fl" "sound g s a0" "0 \<le> u" "u < int (length g)" "a ! nat u = INT32_MAX"
  shows "progress g s (u + 1) a0 a fl"
proof -
  have "a ! nat u \<le> a0 ! nat u" "a0 ! nat u \<le> INT32_MAX"
    using assms unfolding progress_def below_all_def sound_def by blast+
  then have "a0 ! nat u = INT32_MAX" using assms(5) by simp
  moreover have "x = u \<or> x < u" if "x < u + 1" for x using that by auto
  ultimately show ?thesis using assms(1) unfolding progress_def by blast
qed

lemma progress_relax:
  assumes "progress g s u a0 a fl" "relaxed g s u (g ! nat u) a fl a' fl'" "graph_ok g" "0 \<le> u" "u < int (length g)"
  shows "progress g s (u + 1) a0 a' fl'"
  unfolding progress_def
proof (intro conjI allI impI)
  have r: "sound g s a'" "below_all g a' a" "\<not> fl' \<longrightarrow> a' = a" "fl \<longrightarrow> fl'"
    using assms(2) unfolding relaxed_def by blast+
  have p: "below_all g a a0" "\<not> fl \<longrightarrow> a = a0" using assms(1) unfolding progress_def by blast+
  show "sound g s a'" by (rule r)
  show "below_all g a' a0" using below_all_trans r(2) p(1) .
  show "a' = a0" if "\<not> fl'" using that r p by blast
  show "\<exists>v. 0 \<le> v \<and> v < int (length g) \<and> a' ! nat v < a0 ! nat v" if "fl'"
  proof (cases fl)
    case True
    then obtain v where "0 \<le> v" "v < int (length g)" "a ! nat v < a0 ! nat v" using assms(1) unfolding progress_def by blast
    then show ?thesis using r(2) unfolding below_all_def by (meson order_le_less_trans)
  next
    case False
    then show ?thesis using that assms(2) p(2) unfolding relaxed_def by blast
  qed
  fix x v w assume x: "x < u + 1" "edge g x v w" "a0 ! nat x \<noteq> INT32_MAX"
  have v: "0 \<le> v" "v < int (length g)" using edge_ok [OF assms(3) x(2)] by simp_all
  show "a' ! nat v \<le> a0 ! nat x + w"
  proof (cases "x = u")
    case True
    have "(v, w) \<in> set (g ! nat u)" using x(2) True by (simp add: edge_def)
    then have "a' ! nat v \<le> a ! nat u + w" using assms(2) unfolding relaxed_def by blast
    moreover have "a ! nat u \<le> a0 ! nat u" using p(1) assms(4,5) unfolding below_all_def by blast
    ultimately show ?thesis using True by simp
  next
    case False
    then have "a ! nat v \<le> a0 ! nat x + w" using x assms(1) unfolding progress_def by simp
    moreover have "a' ! nat v \<le> a ! nat v" using r(2) v unfolding below_all_def by blast
    ultimately show ?thesis by simp
  qed
qed

lemma bf_nodes_ok:
  assumes "graph_ok g" "sound g s a0"
  shows "hs = drop (nat u) g \<Longrightarrow> 0 \<le> u \<Longrightarrow> u \<le> int (length g) \<Longrightarrow> progress g s u a0 a fl \<Longrightarrow>
     \<exists>a' fl'. bf_nodes hs u a fl = Some (a', fl') \<and> progress g s (int (length g)) a0 a' fl'"
proof (induction hs arbitrary: u a fl)
  case Nil
  have "length g \<le> nat u" using Nil.prems(1) by simp
  then have "u = int (length g)" using Nil.prems(2,3) by linarith
  then show ?case using Nil.prems(4) by simp
next
  case (Cons es hs)
  have "\<not> length g \<le> nat u" using Cons.prems(1) by (metis drop_all list.distinct(1))
  then have u: "u < int (length g)" by simp
  then have "drop (nat u) g = g ! nat u # drop (Suc (nat u)) g" using Cons.prems(2) by (simp add: Cons_nth_drop_Suc)
  moreover have "Suc (nat u) = nat (u + 1)" using Cons.prems(2) by simp
  ultimately have d: "es = g ! nat u" "hs = drop (nat (u + 1)) g" using Cons.prems(1) by (metis list.inject)+
  have snd: "sound g s a" using Cons.prems(4) unfolding progress_def by blast
  have get: "ivget a u = Some (a ! nat u)" using u Cons.prems(2) snd by (simp add: sound_def)
  show ?case
  proof (cases "a ! nat u = INT32_MAX")
    case True
    have "progress g s (u + 1) a0 a fl" by (rule progress_skip [OF Cons.prems(4) assms(2) Cons.prems(2) u True])
    then show ?thesis using Cons.IH [OF d(2)] Cons.prems(2) u get True by simp
  next
    case False
    obtain a' fl' where r: "relax_edges u es a fl = Some (a', fl')" "relaxed g s u es a fl a' fl'"
      using relax_edges_ok [OF snd Cons.prems(2) u False _ assms(1)] d(1) by blast
    have "progress g s (u + 1) a0 a' fl'" using progress_relax [OF Cons.prems(4) _ assms(1) Cons.prems(2) u] r(2) d(1) by blast
    then show ?thesis using Cons.IH [OF d(2)] Cons.prems(2) u get False r(1) by simp
  qed
qed

lemma bf_round:
  assumes "graph_ok g" "sound g s a"
  obtains a' fl' where "bf_nodes g 0 a False = Some (a', fl')" "progress g s (int (length g)) a a' fl'"
proof -
  have "progress g s 0 a a False" unfolding progress_def using assms(2) by (auto simp: edge_def)
  then show thesis using bf_nodes_ok [OF assms, of g 0 a False] that by auto
qed

section \<open>All rounds\<close>

definition settled :: "adj \<Rightarrow> int \<Rightarrow> nat \<Rightarrow> int list \<Rightarrow> bool" where
  "settled g s k a \<longleftrightarrow> (\<forall>j\<le>k. \<forall>v c. walk g s v j c \<longrightarrow> a ! nat v \<le> c)"

lemma settled_round:
  assumes "graph_ok g" "0 \<le> s" "s < int (length g)" "progress g s (int (length g)) a a' fl" "settled g s k a" "k < length g"
  shows "settled g s (Suc k) a'"
  unfolding settled_def
proof (intro allI impI)
  fix j v c assume j: "j \<le> Suc k" and w: "walk g s v j c"
  have v: "0 \<le> v \<and> v < int (length g)" using walk_vertex [OF assms(1) w] assms(2,3) by simp
  have dec: "a' ! nat x \<le> a ! nat x" if "0 \<le> x \<and> x < int (length g)" for x
    using assms(4) that unfolding progress_def below_all_def by blast
  show "a' ! nat v \<le> c"
  proof (cases "j \<le> k")
    case True
    then have "a ! nat v \<le> c" using assms(5) w unfolding settled_def by blast
    then show ?thesis using dec [OF v] by simp
  next
    case False
    then have "j = Suc k" using j by simp
    from w this obtain x d y where x: "walk g s x k d" "edge g x v y" "c = d + y" by (auto elim: walk.cases)
    have ax: "a ! nat x \<le> d" using assms(5) x(1) unfolding settled_def by blast
    have "d < INT32_MAX" using short_walk_cheap [OF assms(1) x(1) assms(6)] by simp
    then have "a ! nat x \<noteq> INT32_MAX" using ax by simp
    moreover have "x < int (length g)" using x(2) by (simp add: edge_def)
    ultimately have "a' ! nat v \<le> a ! nat x + y" using assms(4) x(2) unfolding progress_def by blast
    then show ?thesis using ax x(3) by simp
  qed
qed

text \<open>No edge can be relaxed any more.\<close>

definition closed :: "adj \<Rightarrow> int list \<Rightarrow> bool" where
  "closed g a \<longleftrightarrow> (\<forall>x v w. edge g x v w \<longrightarrow> a ! nat x \<noteq> INT32_MAX \<longrightarrow> a ! nat v \<le> a ! nat x + w)"

lemma bf_rounds_ok:
  "graph_ok g \<Longrightarrow> 0 \<le> s \<Longrightarrow> s < int (length g) \<Longrightarrow> sound g s a \<Longrightarrow> settled g s k a \<Longrightarrow> k + i = length g \<Longrightarrow> 0 < i \<Longrightarrow>
     \<exists>a' fl'. bf_rounds g i a fl = Some (a', fl') \<and> sound g s a' \<and> settled g s 0 a' \<and>
       (\<not> fl' \<longrightarrow> closed g a') \<and> (fl' \<longrightarrow> (\<exists>b v. sound g s b \<and> settled g s (length g - 1) b \<and> 0 \<le> v \<and> v < int (length g) \<and> a' ! nat v < b ! nat v))"
proof (induction i arbitrary: k a fl)
  case (Suc i)
  obtain a' fl' where r: "bf_nodes g 0 a False = Some (a', fl')" "progress g s (int (length g)) a a' fl'"
    using bf_round [OF Suc.prems(1,4)] by blast
  have snd: "sound g s a'" using r(2) unfolding progress_def by blast
  have up: "settled g s (Suc k) a'" using settled_round [OF Suc.prems(1-3) r(2) Suc.prems(5)] Suc.prems(6) by simp
  then have up0: "settled g s 0 a'" unfolding settled_def by blast
  show ?case
  proof (cases fl')
    case False
    then have a: "a' = a" using r(2) unfolding progress_def by blast
    have "closed g a" unfolding closed_def
    proof (intro allI impI)
      fix x v w assume x: "edge g x v w" "a ! nat x \<noteq> INT32_MAX"
      then show "a ! nat v \<le> a ! nat x + w" using r(2) unfolding progress_def a edge_def by blast
    qed
    then show ?thesis using r(1) False snd up0 a by auto
  next
    case True
    show ?thesis
    proof (cases "i = 0")
      case True
      have "\<exists>v. 0 \<le> v \<and> v < int (length g) \<and> a' ! nat v < a ! nat v" using r(2) \<open>fl'\<close> unfolding progress_def by blast
      moreover have "k = length g - 1" using Suc.prems(6) True by simp
      ultimately show ?thesis using r(1) \<open>fl'\<close> True snd up0 Suc.prems(4,5) by auto
    next
      case False
      then show ?thesis using Suc.IH [OF Suc.prems(1-3) snd up, of fl'] Suc.prems(6) r(1) \<open>fl'\<close> by simp
    qed
  qed
qed simp

section \<open>Correctness\<close>

lemma closed_walk:
  assumes "closed g a" "graph_ok g" "sound g s a" "walk g s v k c" "a ! nat s \<le> 0" "k < length g"
  shows "a ! nat v \<le> c"
  using assms(4,6)
proof (induction rule: walk.induct)
  case (step v k c x w)
  then have "a ! nat v \<le> c" by simp
  moreover have "c < INT32_MAX" using short_walk_cheap [OF assms(2) step.hyps(1)] step.prems by simp
  ultimately show ?case using assms(1) step.hyps(2) unfolding closed_def by force
qed (use assms(5) in simp)

lemma closed_reachable:
  assumes "closed g a" "graph_ok g" "sound g s a" "walk g s v k c" "a ! nat s \<le> 0" "0 \<le> s" "s < int (length g)"
  shows "a ! nat v < INT32_MAX"
proof -
  obtain k' c' where w: "k' < length g" "walk g s v k' c'" using walk_short [OF assms(2,6,7,4)] by blast
  then have "a ! nat v \<le> c'" using closed_walk [OF assms(1-3) w(2) assms(5) w(1)] by simp
  then show ?thesis using short_walk_cheap [OF assms(2) w(2,1)] by simp
qed

lemma closed_any_walk:
  assumes "closed g a" "graph_ok g" "sound g s a" "a ! nat s \<le> 0" "0 \<le> s" "s < int (length g)" "walk g s u i b" "walk g u v k c"
  shows "a ! nat v \<le> a ! nat u + c"
  using assms(8)
proof (induction rule: walk.induct)
  case (step v k c x w)
  have "walk g s v (i + k) (b + c)" using walk_append [OF step.hyps(1) assms(7)] .
  then have "a ! nat v \<noteq> INT32_MAX" using closed_reachable [OF assms(1-3) _ assms(4-6)] by fastforce
  then have "a ! nat x \<le> a ! nat v + w" using assms(1) step.hyps(2) unfolding closed_def by blast
  then show ?case using step.IH by simp
qed simp

lemma closed_no_negative_cycle:
  assumes "closed g a" "graph_ok g" "sound g s a" "a ! nat s \<le> 0" "0 \<le> s" "s < int (length g)"
  shows "no_negative_cycle g s"
  unfolding no_negative_cycle_def
proof (intro allI impI)
  fix x k c j b assume "walk g s x k c" "walk g x x j b"
  then have "a ! nat x \<le> a ! nat x + b" using closed_any_walk [OF assms] by blast
  then show "0 \<le> b" by simp
qed

text \<open>\<open>distance g s v d\<close>: \<open>d\<close> is the cost of a cheapest walk, \<open>INT32_MAX\<close> where there is no walk.\<close>

definition distance :: "adj \<Rightarrow> int \<Rightarrow> int \<Rightarrow> int \<Rightarrow> bool" where
  "distance g s v d \<longleftrightarrow>
     (if \<exists>k c. walk g s v k c then (\<exists>k. walk g s v k d) \<and> (\<forall>k c. walk g s v k c \<longrightarrow> d \<le> c) else d = INT32_MAX)"

lemma closed_distance:
  assumes "closed g a" "graph_ok g" "sound g s a" "a ! nat s \<le> 0" "0 \<le> s" "s < int (length g)" "0 \<le> v" "v < int (length g)"
  shows "distance g s v (a ! nat v)"
proof (cases "\<exists>k c. walk g s v k c")
  case True
  then have "a ! nat v \<noteq> INT32_MAX" using closed_reachable [OF assms(1-3) _ assms(4-6)] by fastforce
  then have "\<exists>k. walk g s v k (a ! nat v)" using assms(3,7,8) unfolding sound_def by blast
  moreover have "a ! nat v \<le> d" if "walk g s v k d" for k d
    using closed_any_walk [OF assms(1-6) walk.stay that] assms(4) by simp
  ultimately show ?thesis using True by (simp add: distance_def)
next
  case False
  then show ?thesis using assms(3,7,8) unfolding sound_def distance_def by auto
qed

text \<open>The vector both algorithms start from.\<close>

lemma start_ok:
  assumes "0 \<le> s" "s < int (length g)"
  defines "a \<equiv> (replicate (length g) INT32_MAX)[nat s := 0]"
  shows "ivset (replicate (length g) INT32_MAX) s 0 = Some a" "sound g s a" "a ! nat s = 0"
    "\<And>v. 0 \<le> v \<Longrightarrow> v < int (length g) \<Longrightarrow> a ! nat v = (if v = s then 0 else INT32_MAX)"
proof -
  show "ivset (replicate (length g) INT32_MAX) s 0 = Some a" using assms(1,2) by (simp add: a_def)
  show el: "a ! nat v = (if v = s then 0 else INT32_MAX)" if "0 \<le> v" "v < int (length g)" for v
    using that assms(1) by (auto simp: a_def nth_list_update)
  show "a ! nat s = 0" using el [OF assms(1,2)] by simp
  show "sound g s a" unfolding sound_def using el walk.stay [of g s] by (auto simp: INT32_MAX_def a_def)
qed

text \<open>
  Bellman and Ford never leave their vectors and report a negative cycle exactly when one can be reached; otherwise the
  answers are the distances.
\<close>

lemma bellman_ford_distances:
  assumes "graph_ok g" "0 \<le> s" "s < int (length g)"
  shows "\<exists>a fl. bellman_ford g s = Some (a, fl) \<and> (fl \<longleftrightarrow> \<not> no_negative_cycle g s) \<and>
    (\<not> fl \<longrightarrow> (\<forall>v. 0 \<le> v \<and> v < int (length g) \<longrightarrow> distance g s v (a ! nat v)))"
proof -
  let ?a = "(replicate (length g) INT32_MAX)[nat s := 0]"
  note start = start_ok(1) [OF assms(2,3)] and s0 = start_ok(2) [OF assms(2,3)]
  have u0: "settled g s 0 ?a" unfolding settled_def using assms(2,3) by (auto elim: walk.cases)
  obtain a fl where r: "bf_rounds g (length g) ?a False = Some (a, fl)" "sound g s a" "settled g s 0 a" "\<not> fl \<longrightarrow> closed g a"
    "fl \<longrightarrow> (\<exists>b v. sound g s b \<and> settled g s (length g - 1) b \<and> 0 \<le> v \<and> v < int (length g) \<and> a ! nat v < b ! nat v)"
  proof -
    have "0 + length g = length g" "0 < length g" using assms(2,3) by linarith+
    then show thesis using bf_rounds_ok [OF assms s0 u0, of "length g" False] that by blast
  qed
  have as: "a ! nat s \<le> 0" using r(3) walk.stay [of g s] unfolding settled_def by blast
  have cyc: "no_negative_cycle g s" if "closed g a" using closed_no_negative_cycle [OF that assms(1) r(2) as assms(2,3)] .
  have flag: "\<not> no_negative_cycle g s" if f: "fl"
  proof
    assume nn: "no_negative_cycle g s"
    obtain b v where b: "settled g s (length g - 1) b" "0 \<le> v" "v < int (length g)" "a ! nat v < b ! nat v" "sound g s b"
      using r(5) f by blast
    have "b ! nat v \<le> INT32_MAX" using b(2,3,5) unfolding sound_def by blast
    then have "a ! nat v \<noteq> INT32_MAX" using b(4) by simp
    then obtain k where "walk g s v k (a ! nat v)" using r(2) b(2,3) unfolding sound_def by blast
    then obtain k c where k: "k < length g" "walk g s v k c" "c \<le> a ! nat v" using walk_short [OF assms] nn by blast
    have "k \<le> length g - 1" using k(1) by simp
    then have "b ! nat v \<le> c" using b(1) k(2) unfolding settled_def by blast
    then show False using k(3) b(4) by simp
  qed
  have final: "distance g s v (a ! nat v)" if "closed g a" "0 \<le> v" "v < int (length g)" for v
    using closed_distance [OF that(1) assms(1) r(2) as assms(2,3) that(2,3)] .
  have "bellman_ford g s = Some (a, fl)" using start r(1) by (simp add: bellman_ford_def)
  then show ?thesis using cyc flag final r(4) by blast
qed

end
