(* ===== verification/Floyd.thy ===== *)
theory Floyd
  imports Graph
begin

text \<open>
  \<open>cpp/algorithm/lib/graph/floyd.h\<close>: the matrix of direct distances and the three nested loops that update it in
  place. The entries are \<open>int64_t\<close>; the sums of two entries stay far below its bounds.
\<close>

section \<open>The algorithm\<close>

type_synonym matrix = "int list list"

definition mget :: "matrix \<Rightarrow> nat \<Rightarrow> nat \<Rightarrow> int option" where
  "mget a u v = do { r \<leftarrow> vget a u; vget r v }"

definition mset_at :: "matrix \<Rightarrow> nat \<Rightarrow> nat \<Rightarrow> int \<Rightarrow> matrix option" where
  "mset_at a u v x = do { r \<leftarrow> vget a u; r \<leftarrow> vset r v x; vset a u r }"

fun floyd_edges :: "nat \<Rightarrow> (int \<times> int) list \<Rightarrow> matrix \<Rightarrow> matrix option" where
  "floyd_edges u [] a = Some a"
| "floyd_edges u ((v, w) # es) a =
     (if v < 0 then None else do { a \<leftarrow> mset_at a u (nat v) w; floyd_edges u es a })"

fun floyd_fill :: "adj \<Rightarrow> nat \<Rightarrow> matrix \<Rightarrow> matrix option" where
  "floyd_fill [] u a = Some a"
| "floyd_fill (es # g) u a = do { a \<leftarrow> floyd_edges u es a; floyd_fill g (Suc u) a }"

fun floyd_diag :: "nat list \<Rightarrow> matrix \<Rightarrow> matrix option" where
  "floyd_diag [] a = Some a"
| "floyd_diag (u # us) a = do { a \<leftarrow> mset_at a u u 0; floyd_diag us a }"

definition floyd_new :: "adj \<Rightarrow> matrix option" where
  "floyd_new g =
     do { a \<leftarrow> floyd_fill g 0 (replicate (length g) (replicate (length g) INT32_MAX));
          floyd_diag [0..<length a] a }"

fun floyd_row :: "nat \<Rightarrow> nat \<Rightarrow> nat list \<Rightarrow> matrix \<Rightarrow> matrix option" where
  "floyd_row k u [] a = Some a"
| "floyd_row k u (v # vs) a =
     do { x \<leftarrow> mget a u v;
          y \<leftarrow> mget a u k;
          z \<leftarrow> mget a k v;
          a \<leftarrow> mset_at a u v (min x (y + z));
          floyd_row k u vs a }"

fun floyd_rows :: "nat \<Rightarrow> nat list \<Rightarrow> nat list \<Rightarrow> matrix \<Rightarrow> matrix option" where
  "floyd_rows k [] vs a = Some a"
| "floyd_rows k (u # us) vs a = do { a \<leftarrow> floyd_row k u vs a; floyd_rows k us vs a }"

fun floyd_stages :: "nat list \<Rightarrow> nat \<Rightarrow> matrix \<Rightarrow> matrix option" where
  "floyd_stages [] n a = Some a"
| "floyd_stages (k # ks) n a = do { a \<leftarrow> floyd_rows k [0..<n] [0..<n] a; floyd_stages ks n a }"

definition floyd_run :: "matrix \<Rightarrow> matrix option" where
  "floyd_run a = floyd_stages [0..<length a] (length a) a"

definition floyd :: "adj \<Rightarrow> matrix option" where
  "floyd g = do { a \<leftarrow> floyd_new g; floyd_run a }"

section \<open>Walks by their inner vertices\<close>

text \<open>\<open>via g I u v c\<close>: a walk of at least one edge whose inner vertices lie in \<open>I\<close>.\<close>

inductive via :: "adj \<Rightarrow> int set \<Rightarrow> int \<Rightarrow> int \<Rightarrow> int \<Rightarrow> bool" for g I u where
  one: "edge g u v w \<Longrightarrow> via g I u v w"
| more: "via g I u v c \<Longrightarrow> v \<in> I \<Longrightarrow> edge g v x w \<Longrightarrow> via g I u x (c + w)"

definition nonneg :: "adj \<Rightarrow> bool" where
  "nonneg g \<longleftrightarrow> (\<forall>es\<in>set g. \<forall>(v, w)\<in>set es. 0 \<le> w)"

lemma edge_nonneg: "nonneg g \<Longrightarrow> edge g u v w \<Longrightarrow> 0 \<le> w"
proof -
  assume "nonneg g" "edge g u v w"
  moreover from this have "g ! nat u \<in> set g" by (auto simp: edge_def nat_less_iff)
  ultimately show ?thesis by (auto simp: nonneg_def edge_def)
qed

lemma via_nonneg: "via g I u v c \<Longrightarrow> nonneg g \<Longrightarrow> 0 \<le> c"
  by (induction rule: via.induct) (auto dest: edge_nonneg)

lemma via_insert:
  assumes "nonneg g"
  shows "via g (insert k I) u v c \<Longrightarrow> (\<exists>c'\<le>c. via g I u v c') \<or> (\<exists>a b. via g I u k a \<and> via g I k v b \<and> a + b \<le> c)"
proof (induction rule: via.induct)
  case (one v w)
  then show ?case using via.one by blast
next
  case (more v c x w)
  from more.IH show ?case
  proof (elim disjE exE conjE)
    fix c' assume c': "c' \<le> c" "via g I u v c'"
    show ?thesis
    proof (cases "v \<in> I")
      case True
      then have "via g I u x (c' + w)" using via.more c'(2) more.hyps(3) by blast
      moreover have "c' + w \<le> c + w" using c'(1) by simp
      ultimately show ?thesis by blast
    next
      case False
      then have "v = k" using more.hyps(2) by simp
      then have "via g I u k c'" "via g I k x w" "c' + w \<le> c + w" using c' more.hyps(3) via.one by auto
      then show ?thesis by blast
    qed
  next
    fix a b assume ab: "via g I u k a" "via g I k v b" "a + b \<le> c"
    show ?thesis
    proof (cases "v \<in> I")
      case True
      then have "via g I k x (b + w)" using via.more ab(2) more.hyps(3) by blast
      moreover have "a + (b + w) \<le> c + w" using ab(3) by simp
      ultimately show ?thesis using ab(1) by blast
    next
      case False
      then have "v = k" using more.hyps(2) by simp
      then have "via g I k x w" using more.hyps(3) via.one by blast
      moreover have "a + w \<le> c + w" using ab(3) via_nonneg [OF ab(2) assms] by simp
      ultimately show ?thesis using ab(1) by blast
    qed
  qed
qed

lemma walk_via:
  assumes "graph_ok g"
  shows "walk g u v k c \<Longrightarrow> k = 0 \<and> u = v \<and> c = 0 \<or> via g {0..<int (length g)} u v c"
proof (induction rule: walk.induct)
  case (step v k c x w)
  then show ?case using via.one via.more edge_ok(1,2) [OF assms step.hyps(2)] by fastforce
qed simp

section \<open>The matrix\<close>

definition square :: "nat \<Rightarrow> matrix \<Rightarrow> bool" where
  "square n a \<longleftrightarrow> length a = n \<and> (\<forall>r\<in>set a. length r = n)"

lemma square_row: "square n a \<Longrightarrow> u < n \<Longrightarrow> length (a ! u) = n"
  by (simp add: square_def)

lemma mget_ok: "square n a \<Longrightarrow> u < n \<Longrightarrow> v < n \<Longrightarrow> mget a u v = Some (a ! u ! v)"
  using square_row [of n a u] by (simp add: mget_def square_def)

lemma mset_ok:
  assumes "square n a" "u < n" "v < n"
  obtains a' where "mset_at a u v x = Some a'" "square n a'"
    "\<And>i j. i < n \<Longrightarrow> j < n \<Longrightarrow> a' ! i ! j = (if i = u \<and> j = v then x else a ! i ! j)"
proof -
  let ?a = "a[u := (a ! u)[v := x]]"
  have "mset_at a u v x = Some ?a" using assms square_row [OF assms(1,2)] by (simp add: mset_at_def square_def)
  moreover have "square n ?a" using assms square_row [OF assms(1,2)] by (auto simp: square_def dest!: set_update_subset_insert [THEN subsetD])
  moreover have "?a ! i ! j = (if i = u \<and> j = v then x else a ! i ! j)" if "i < n" "j < n" for i j
    using that assms square_row [OF assms(1,2)] by (auto simp: square_def nth_list_update)
  ultimately show thesis using that by blast
qed

section \<open>The stages\<close>

definition fsound :: "adj \<Rightarrow> matrix \<Rightarrow> bool" where
  "fsound g a \<longleftrightarrow> square (length g) a \<and> (\<forall>u<length g. a ! u ! u = 0) \<and>
     (\<forall>u<length g. \<forall>v<length g. 0 \<le> a ! u ! v \<and> a ! u ! v \<le> INT32_MAX \<and>
        (a ! u ! v < INT32_MAX \<longrightarrow> (\<exists>j. walk g (int u) (int v) j (a ! u ! v))))"

definition fupper :: "adj \<Rightarrow> nat \<Rightarrow> matrix \<Rightarrow> bool" where
  "fupper g k a \<longleftrightarrow> (\<forall>u<length g. \<forall>v<length g. \<forall>c. via g {0..<int k} (int u) (int v) c \<longrightarrow> a ! u ! v \<le> c)"

definition fprog :: "adj \<Rightarrow> nat \<Rightarrow> matrix \<Rightarrow> (nat \<times> nat) set \<Rightarrow> matrix \<Rightarrow> bool" where
  "fprog g k a0 D a \<longleftrightarrow> fsound g a \<and> (\<forall>u<length g. \<forall>v<length g. a ! u ! v \<le> a0 ! u ! v) \<and>
     (\<forall>(u, v)\<in>D. a ! u ! v \<le> a0 ! u ! k + a0 ! k ! v)"

lemma cell_ok:
  assumes p: "fprog g k a0 D a" and D: "D \<subseteq> {..<length g} \<times> {..<length g}" and k: "k < length g" and u: "u < length g" and v: "v < length g"
  obtains a' where "mset_at a u v (min (a ! u ! v) (a ! u ! k + a ! k ! v)) = Some a'" "fprog g k a0 (insert (u, v) D) a'"
proof -
  let ?n = "length g" let ?x = "min (a ! u ! v) (a ! u ! k + a ! k ! v)"
  have s: "fsound g a" and sq: "square ?n a" using p by (simp_all add: fprog_def fsound_def)
  have rng: "0 \<le> a ! i ! j" "a ! i ! j \<le> INT32_MAX" if "i < ?n" "j < ?n" for i j using s that by (simp_all add: fsound_def)
  have wk: "\<exists>m. walk g (int i) (int j) m (a ! i ! j)" if "i < ?n" "j < ?n" "a ! i ! j < INT32_MAX" for i j
    using s that by (simp add: fsound_def)
  have dec: "a ! i ! j \<le> a0 ! i ! j" if "i < ?n" "j < ?n" for i j using p that by (simp add: fprog_def)
  obtain a' where a': "mset_at a u v ?x = Some a'" "square ?n a'"
    "\<And>i j. i < ?n \<Longrightarrow> j < ?n \<Longrightarrow> a' ! i ! j = (if i = u \<and> j = v then ?x else a ! i ! j)"
    using mset_ok [OF sq u v] by blast
  have cell: "\<exists>m. walk g (int u) (int v) m ?x" if "?x < INT32_MAX"
  proof (cases "?x = a ! u ! v")
    case False
    then have x: "?x = a ! u ! k + a ! k ! v" by (auto simp: min_def split: if_splits)
    then have "a ! u ! k < INT32_MAX" "a ! k ! v < INT32_MAX" using that rng [OF u k] rng [OF k v] by linarith+
    then obtain i j where "walk g (int u) (int k) i (a ! u ! k)" "walk g (int k) (int v) j (a ! k ! v)" using wk u k v by blast
    then show ?thesis using walk_append x by metis
  qed (use wk [OF u v] that in simp)
  have "fsound g a'" unfolding fsound_def
  proof (intro conjI allI impI)
    fix i j assume i: "i < ?n" "j < ?n"
    show "0 \<le> a' ! i ! j" "a' ! i ! j \<le> INT32_MAX"
      using a'(3) [OF i] rng [OF i] rng [OF u k] rng [OF k v] rng [OF u v] by (auto simp: min_def)
    show "\<exists>m. walk g (int i) (int j) m (a' ! i ! j)" if "a' ! i ! j < INT32_MAX"
      using a'(3) [OF i] that wk [OF i] cell by (cases "i = u \<and> j = v") simp_all
  next
    fix i assume i: "i < ?n"
    have "a ! i ! i = 0" using s i by (simp add: fsound_def)
    then show "a' ! i ! i = 0" using a'(3) [OF i i] rng [OF u k] rng [OF k v] by (auto simp: min_def)
  qed (use a'(2) in simp)
  moreover have "a' ! i ! j \<le> a0 ! i ! j" if "i < ?n" "j < ?n" for i j
    using a'(3) [OF that] dec [OF that] by (auto simp: min_def)
  moreover have "a' ! i ! j \<le> a0 ! i ! k + a0 ! k ! j" if "(i, j) \<in> insert (u, v) D" for i j
  proof (cases "(i, j) = (u, v)")
    case True
    then show ?thesis using a'(3) [OF u v] dec [OF u k] dec [OF k v] by auto
  next
    case False
    then have ij: "(i, j) \<in> D" "i < ?n" "j < ?n" using that D by auto
    then have "a ! i ! j \<le> a0 ! i ! k + a0 ! k ! j" using p by (auto simp: fprog_def)
    then show ?thesis using a'(3) [OF ij(2,3)] by (auto simp: min_def)
  qed
  ultimately have "fprog g k a0 (insert (u, v) D) a'" by (auto simp: fprog_def)
  then show thesis using that a'(1) by blast
qed

lemma row_ok:
  "fprog g k a0 D a \<Longrightarrow> D \<subseteq> {..<length g} \<times> {..<length g} \<Longrightarrow> k < length g \<Longrightarrow> u < length g \<Longrightarrow> set vs \<subseteq> {..<length g} \<Longrightarrow>
     \<exists>a'. floyd_row k u vs a = Some a' \<and> fprog g k a0 (D \<union> {u} \<times> set vs) a'"
proof (induction vs arbitrary: a D)
  case (Cons v vs)
  have v: "v < length g" using Cons.prems(5) by simp
  obtain a' where a': "mset_at a u v (min (a ! u ! v) (a ! u ! k + a ! k ! v)) = Some a'" "fprog g k a0 (insert (u, v) D) a'"
    using cell_ok [OF Cons.prems(1-4) v] by blast
  have sq: "square (length g) a" using Cons.prems(1) by (simp add: fprog_def fsound_def)
  obtain a2 where "floyd_row k u vs a' = Some a2" "fprog g k a0 (insert (u, v) D \<union> {u} \<times> set vs) a2"
    using Cons.IH [OF a'(2)] Cons.prems v by auto
  moreover have "insert (u, v) D \<union> {u} \<times> set vs = D \<union> {u} \<times> set (v # vs)" by auto
  ultimately show ?case using a'(1) mget_ok [OF sq] Cons.prems(3,4) v by simp
qed simp

lemma rows_ok:
  "fprog g k a0 D a \<Longrightarrow> D \<subseteq> {..<length g} \<times> {..<length g} \<Longrightarrow> k < length g \<Longrightarrow> set us \<subseteq> {..<length g} \<Longrightarrow> set vs \<subseteq> {..<length g} \<Longrightarrow>
     \<exists>a'. floyd_rows k us vs a = Some a' \<and> fprog g k a0 (D \<union> set us \<times> set vs) a'"
proof (induction us arbitrary: a D)
  case (Cons u us)
  have u: "u < length g" using Cons.prems(4) by simp
  obtain a' where a': "floyd_row k u vs a = Some a'" "fprog g k a0 (D \<union> {u} \<times> set vs) a'"
    using row_ok [OF Cons.prems(1-3) u Cons.prems(5)] by blast
  have "D \<union> {u} \<times> set vs \<subseteq> {..<length g} \<times> {..<length g}" using Cons.prems(2,5) u by auto
  then obtain a2 where "floyd_rows k us vs a' = Some a2" "fprog g k a0 (D \<union> {u} \<times> set vs \<union> set us \<times> set vs) a2"
    using Cons.IH [OF a'(2)] Cons.prems by auto
  moreover have "D \<union> {u} \<times> set vs \<union> set us \<times> set vs = D \<union> set (u # us) \<times> set vs" by auto
  ultimately show ?case using a'(1) by simp
qed simp

lemma stage_ok:
  assumes "nonneg g" "fsound g a" "fupper g k a" "k < length g"
  shows "\<exists>a'. floyd_rows k [0..<length g] [0..<length g] a = Some a' \<and> fsound g a' \<and> fupper g (Suc k) a'"
proof -
  have "fprog g k a {} a" using assms(2) by (simp add: fprog_def)
  from rows_ok [OF this _ assms(4), of "[0..<length g]" "[0..<length g]"] obtain a' where
    a': "floyd_rows k [0..<length g] [0..<length g] a = Some a'" "fprog g k a ({..<length g} \<times> {..<length g}) a'"
    by (auto simp: atLeast_upt)
  have "a' ! u ! v \<le> c" if "u < length g" "v < length g" "via g {0..<int (Suc k)} (int u) (int v) c" for u v c
  proof -
    have "{0..<int (Suc k)} = insert (int k) {0..<int k}" by auto
    then have "(\<exists>c'\<le>c. via g {0..<int k} (int u) (int v) c') \<or>
        (\<exists>x y. via g {0..<int k} (int u) (int k) x \<and> via g {0..<int k} (int k) (int v) y \<and> x + y \<le> c)"
      using via_insert [OF assms(1)] that(3) by simp
    then show ?thesis
    proof (elim disjE exE conjE)
      fix c' assume "c' \<le> c" "via g {0..<int k} (int u) (int v) c'"
      then have "a ! u ! v \<le> c" using assms(3) that(1,2) unfolding fupper_def by force
      moreover have "a' ! u ! v \<le> a ! u ! v" using a'(2) that(1,2) by (simp add: fprog_def)
      ultimately show ?thesis by simp
    next
      fix x y assume xy: "via g {0..<int k} (int u) (int k) x" "via g {0..<int k} (int k) (int v) y" "x + y \<le> c"
      then have "a ! u ! k \<le> x" "a ! k ! v \<le> y" using assms(3,4) that(1,2) unfolding fupper_def by blast+
      moreover have "a' ! u ! v \<le> a ! u ! k + a ! k ! v" using a'(2) that(1,2) by (auto simp: fprog_def)
      ultimately show ?thesis using xy(3) by simp
    qed
  qed
  then have "fupper g (Suc k) a'" unfolding fupper_def by blast
  then show ?thesis using a' by (auto simp: fprog_def)
qed

lemma stages_ok:
  "nonneg g \<Longrightarrow> fsound g a \<Longrightarrow> fupper g k a \<Longrightarrow> k \<le> length g \<Longrightarrow>
     \<exists>a'. floyd_stages [k..<length g] (length g) a = Some a' \<and> fsound g a' \<and> fupper g (length g) a'"
proof (induction "length g - k" arbitrary: k a)
  case (Suc m)
  then have k: "k < length g" by simp
  obtain a' where a': "floyd_rows k [0..<length g] [0..<length g] a = Some a'" "fsound g a'" "fupper g (Suc k) a'"
    using stage_ok [OF Suc.prems(1-3) k] by blast
  obtain b where "floyd_stages [Suc k..<length g] (length g) a' = Some b" "fsound g b" "fupper g (length g) b"
  proof -
    have "m = length g - Suc k" "Suc k \<le> length g" using Suc.hyps(2) k by linarith+
    then show thesis using Suc.hyps(1) [OF _ Suc.prems(1) a'(2,3)] that by blast
  qed
  then show ?case using a'(1) k by (simp add: upt_conv_Cons)
qed auto

section \<open>The initial matrix\<close>

text \<open>No two edges join the same pair of vertices.\<close>

definition simple_edges :: "adj \<Rightarrow> bool" where
  "simple_edges g \<longleftrightarrow> (\<forall>es\<in>set g. distinct (map fst es))"

definition direct :: "(int \<times> int) list \<Rightarrow> nat \<Rightarrow> int" where
  "direct es v = (case map_of es (int v) of None \<Rightarrow> INT32_MAX | Some w \<Rightarrow> w)"

lemma edges_ok:
  "square n a \<Longrightarrow> u < n \<Longrightarrow> \<forall>(v, w)\<in>set es. 0 \<le> v \<and> v < int n \<Longrightarrow> distinct (map fst es) \<Longrightarrow>
     \<exists>a'. floyd_edges u es a = Some a' \<and> square n a' \<and>
       (\<forall>i<n. \<forall>j<n. a' ! i ! j = (if i = u then case map_of es (int j) of None \<Rightarrow> a ! i ! j | Some w \<Rightarrow> w else a ! i ! j))"
proof (induction u es a rule: floyd_edges.induct)
  case (2 u v w es a)
  have v: "0 \<le> v" "nat v < n" using "2.prems"(3) by auto
  obtain a' where a': "mset_at a u (nat v) w = Some a'" "square n a'"
    "\<And>i j. i < n \<Longrightarrow> j < n \<Longrightarrow> a' ! i ! j = (if i = u \<and> j = nat v then w else a ! i ! j)"
    using mset_ok [OF "2.prems"(1,2) v(2)] by blast
  obtain b where b: "floyd_edges u es a' = Some b" "square n b"
    "\<forall>i<n. \<forall>j<n. b ! i ! j = (if i = u then case map_of es (int j) of None \<Rightarrow> a' ! i ! j | Some w \<Rightarrow> w else a' ! i ! j)"
    using "2.IH" [OF _ a'(1,2) "2.prems"(2)] "2.prems"(3,4) v(1) by auto
  have nov: "map_of es v = None" using "2.prems"(4) by (auto simp: map_of_eq_None_iff)
  have "b ! i ! j = (if i = u then case map_of ((v, w) # es) (int j) of None \<Rightarrow> a ! i ! j | Some w \<Rightarrow> w else a ! i ! j)"
    if ij: "i < n" "j < n" for i j
  proof (cases "int j = v")
    case True
    then show ?thesis using b(3) a'(3) [OF ij] ij nov by auto
  next
    case False
    then have "j \<noteq> nat v" using v(1) by auto
    then show ?thesis using b(3) a'(3) [OF ij] ij False by (auto split: option.splits)
  qed
  then show ?case using a'(1) b(1,2) v(1) by auto
qed auto

lemma fill_ok:
  "square n a \<Longrightarrow> u + length hs = n \<Longrightarrow> \<forall>es\<in>set hs. \<forall>(v, w)\<in>set es. 0 \<le> v \<and> v < int n \<Longrightarrow> \<forall>es\<in>set hs. distinct (map fst es) \<Longrightarrow>
     (\<forall>i<n. \<forall>j<n. u \<le> i \<longrightarrow> a ! i ! j = INT32_MAX) \<Longrightarrow>
     \<exists>a'. floyd_fill hs u a = Some a' \<and> square n a' \<and>
       (\<forall>i<n. \<forall>j<n. a' ! i ! j = (if u \<le> i then direct (hs ! (i - u)) j else a ! i ! j))"
proof (induction hs u a rule: floyd_fill.induct)
  case (2 es hs u a)
  have u: "u < n" using "2.prems"(2) by simp
  obtain a' where a': "floyd_edges u es a = Some a'" "square n a'"
    "\<forall>i<n. \<forall>j<n. a' ! i ! j = (if i = u then case map_of es (int j) of None \<Rightarrow> a ! i ! j | Some w \<Rightarrow> w else a ! i ! j)"
    using edges_ok [OF "2.prems"(1) u, of es] "2.prems"(3,4) by auto
  obtain b where b: "floyd_fill hs (Suc u) a' = Some b" "square n b"
    "\<forall>i<n. \<forall>j<n. b ! i ! j = (if Suc u \<le> i then direct (hs ! (i - Suc u)) j else a' ! i ! j)"
    using "2.IH" [OF a'(1,2)] "2.prems" a'(3) by auto
  have "b ! i ! j = (if u \<le> i then direct ((es # hs) ! (i - u)) j else a ! i ! j)" if ij: "i < n" "j < n" for i j
  proof -
    consider "i < u" | "i = u" | "Suc u \<le> i" by linarith
    then show ?thesis
    proof cases
      case 2
      then show ?thesis using b(3) a'(3) ij "2.prems"(5) by (auto simp: direct_def split: option.splits)
    next
      case 3
      then have "(es # hs) ! (i - u) = hs ! (i - Suc u)" by (simp add: nth_Cons')
      then show ?thesis using 3 b(3) ij by simp
    qed (use b(3) a'(3) ij in simp)
  qed
  then show ?case using a'(1) b(1,2) by auto
qed auto

lemma diag_ok:
  "square n a \<Longrightarrow> set us \<subseteq> {..<n} \<Longrightarrow>
     \<exists>a'. floyd_diag us a = Some a' \<and> square n a' \<and> (\<forall>i<n. \<forall>j<n. a' ! i ! j = (if i = j \<and> i \<in> set us then 0 else a ! i ! j))"
proof (induction us arbitrary: a)
  case (Cons u us)
  have u: "u < n" using Cons.prems(2) by simp
  obtain a' where a': "mset_at a u u 0 = Some a'" "square n a'"
    "\<And>i j. i < n \<Longrightarrow> j < n \<Longrightarrow> a' ! i ! j = (if i = u \<and> j = u then 0 else a ! i ! j)"
    using mset_ok [OF Cons.prems(1) u u] by blast
  obtain b where "floyd_diag us a' = Some b" "square n b" "\<forall>i<n. \<forall>j<n. b ! i ! j = (if i = j \<and> i \<in> set us then 0 else a' ! i ! j)"
    using Cons.IH [OF a'(2)] Cons.prems(2) by auto
  then show ?case using a'(1,3) by auto
qed simp

lemma floyd_new_ok:
  assumes "graph_ok g" "nonneg g" "simple_edges g"
  shows "\<exists>a. floyd_new g = Some a \<and> fsound g a \<and> fupper g 0 a"
proof -
  let ?n = "length g" let ?z = "replicate ?n (replicate ?n INT32_MAX)"
  have targets: "\<forall>es\<in>set g. \<forall>(v, w)\<in>set es. 0 \<le> v \<and> v < int ?n" using assms(1) by (auto simp: graph_ok_def)
  have sq: "square ?n ?z" by (simp add: square_def)
  obtain a where a: "floyd_fill g 0 ?z = Some a" "square ?n a" "\<forall>i<?n. \<forall>j<?n. a ! i ! j = direct (g ! i) j"
    using fill_ok [OF sq, of 0 g] targets assms(3) by (auto simp: simple_edges_def)
  obtain b where b: "floyd_diag [0..<?n] a = Some b" "square ?n b" "\<forall>i<?n. \<forall>j<?n. b ! i ! j = (if i = j then 0 else a ! i ! j)"
    using diag_ok [OF a(2), of "[0..<?n]"] by (auto simp: atLeast_upt)
  have new: "floyd_new g = Some b" using a(1,2) b(1) by (simp add: floyd_new_def square_def)
  have e: "edge g (int i) (int j) w" if "i < ?n" "map_of (g ! i) (int j) = Some w" for i j w
    using that map_of_SomeD by (fastforce simp: edge_def)
  have low: "0 \<le> w" "w < INT32_MAX" if "edge g u v w" for u v w
  proof -
    show "0 \<le> w" using edge_nonneg assms(2) that by blast
    have "\<bar>w\<bar> * int ?n < INT32_MAX" "0 < int ?n" using edge_ok [OF assms(1) that] by linarith+
    moreover from this(2) have "\<bar>w\<bar> * 1 \<le> \<bar>w\<bar> * int ?n" by (intro mult_left_mono) (linarith, simp)
    ultimately show "w < INT32_MAX" by linarith
  qed
  have "fsound g b" unfolding fsound_def
  proof (intro conjI allI impI)
    fix i j assume ij: "i < ?n" "j < ?n"
    have bij: "b ! i ! j = (if i = j then 0 else direct (g ! i) j)" using a(3) b(3) ij by simp
    show "0 \<le> b ! i ! j" "b ! i ! j \<le> INT32_MAX"
      using bij low [OF e [OF ij(1), of j]] by (auto simp: direct_def INT32_MAX_def less_imp_le split: option.splits)
    show "\<exists>m. walk g (int i) (int j) m (b ! i ! j)" if fin: "b ! i ! j < INT32_MAX"
    proof (cases "i = j")
      case True
      then show ?thesis using bij walk.stay by auto
    next
      case False
      then obtain w where "map_of (g ! i) (int j) = Some w" "b ! i ! j = w" using bij fin by (auto simp: direct_def split: option.splits)
      then show ?thesis using walk_edge e ij(1) by blast
    qed
  qed (use b(2,3) in simp_all)
  moreover have "b ! i ! j \<le> c" if ij: "i < ?n" "j < ?n" and v: "via g {0..<int 0} (int i) (int j) c" for i j c
  proof -
    have ed: "edge g (int i) (int j) c" using v by (cases rule: via.cases) auto
    then have "(int j, c) \<in> set (g ! i)" by (simp add: edge_def)
    moreover have "distinct (map fst (g ! i))" using assms(3) ij(1) by (simp add: simple_edges_def)
    ultimately have "map_of (g ! i) (int j) = Some c" by simp
    then show ?thesis using a(3) b(3) ij low(1) [OF ed] by (simp add: direct_def)
  qed
  then have "fupper g 0 b" unfolding fupper_def by blast
  ultimately show ?thesis using new by blast
qed

section \<open>Property\<close>

text \<open>
  C23. Floyd and Warshall. With non-negative weights, no parallel edges and weights that \<open>n\<close> edges keep below
  \<open>INT32_MAX\<close>, the in-place loops stay in the matrix, and its entry for two vertices becomes the cost of the
  cheapest walk between them, \<open>INT32_MAX\<close> if there is none. Both further conditions are needed: an edge of weight -5
  makes unreachable vertices look reachable at cost \<open>INT32_MAX - 5\<close>, and of two parallel edges the last one counts.
\<close>

theorem floyd_correct:
  "(graph_ok g \<and> nonneg g \<and> simple_edges g \<longrightarrow>
     (\<exists>a. floyd g = Some a \<and> (\<forall>u<length g. \<forall>v<length g.
        if \<exists>k c. walk g (int u) (int v) k c
        then (\<exists>k. walk g (int u) (int v) k (a ! u ! v)) \<and> (\<forall>k c. walk g (int u) (int v) k c \<longrightarrow> a ! u ! v \<le> c)
        else a ! u ! v = INT32_MAX))) \<and>
   floyd [[], [(2, - 5)], []] = Some [[0, INT32_MAX, INT32_MAX - 5], [INT32_MAX - 5, 0, - 5], [INT32_MAX, INT32_MAX, 0]] \<and>
   floyd [[(1, 1), (1, 7)], []] = Some [[0, 7], [INT32_MAX, 0]]"
proof (intro conjI impI)
  assume g: "graph_ok g \<and> nonneg g \<and> simple_edges g"
  obtain b where b: "floyd_new g = Some b" "fsound g b" "fupper g 0 b" using floyd_new_ok g by blast
  obtain a where a: "floyd_stages [0..<length g] (length g) b = Some a" "fsound g a" "fupper g (length g) a"
    using stages_ok [OF _ b(2,3)] g by blast
  have "length b = length g" using b(2) by (simp add: fsound_def square_def)
  then have run: "floyd g = Some a" using a(1) b(1) by (simp add: floyd_def floyd_run_def)
  have "if \<exists>k c. walk g (int u) (int v) k c
      then (\<exists>k. walk g (int u) (int v) k (a ! u ! v)) \<and> (\<forall>k c. walk g (int u) (int v) k c \<longrightarrow> a ! u ! v \<le> c)
      else a ! u ! v = INT32_MAX" if uv: "u < length g" "v < length g" for u v
  proof -
    have s: "a ! u ! v \<le> INT32_MAX" "a ! u ! v < INT32_MAX \<longrightarrow> (\<exists>k. walk g (int u) (int v) k (a ! u ! v))" "u = v \<longrightarrow> a ! u ! v = 0"
      using a(2) uv by (auto simp: fsound_def)
    have up: "a ! u ! v \<le> c" if "walk g (int u) (int v) k c" for k c
      using walk_via [OF _ that] g s(3) a(3) uv by (auto simp: fupper_def)
    have fin: "a ! u ! v < INT32_MAX" if w: "walk g (int u) (int v) k c" for k c
    proof -
      have "graph_ok g" "0 \<le> int u" "int u < int (length g)" using g uv(1) by simp_all
      then obtain k' c' where "k' < length g" "walk g (int u) (int v) k' c'" using walk_short [OF _ _ _ w] by blast
      then show ?thesis using up [of k' c'] short_walk_cheap [of g "int u" "int v" k' c'] g by simp
    qed
    show ?thesis
    proof (cases "\<exists>k c. walk g (int u) (int v) k c")
      case True
      then have "\<exists>k. walk g (int u) (int v) k (a ! u ! v)" using fin s(2) by blast
      then show ?thesis using True up by simp
    qed (use s(1,2) in auto)
  qed
  then show "\<exists>a. floyd g = Some a \<and> (\<forall>u<length g. \<forall>v<length g.
        if \<exists>k c. walk g (int u) (int v) k c
        then (\<exists>k. walk g (int u) (int v) k (a ! u ! v)) \<and> (\<forall>k c. walk g (int u) (int v) k c \<longrightarrow> a ! u ! v \<le> c)
        else a ! u ! v = INT32_MAX)" using run by blast
next
  show "floyd [[], [(2, - 5)], []] = Some [[0, INT32_MAX, INT32_MAX - 5], [INT32_MAX - 5, 0, - 5], [INT32_MAX, INT32_MAX, 0]]" by code_simp
  show "floyd [[(1, 1), (1, 7)], []] = Some [[0, 7], [INT32_MAX, 0]]" by code_simp
qed

theorem floyd_correct_witness:
  "\<exists>a. floyd [[(1, 4), (2, 1)], [], [(1, 2)]] = Some a \<and> a ! 0 ! 1 = 3 \<and> (\<forall>k c. walk [[(1, 4), (2, 1)], [], [(1, 2)]] 0 1 k c \<longrightarrow> 3 \<le> c)"
proof -
  let ?g = "[[(1, 4), (2, 1)], [], [(1, 2)]] :: adj"
  let ?a = "[[0, 3, 1], [INT32_MAX, 0, INT32_MAX], [INT32_MAX, 2, 0]]"
  have run: "floyd ?g = Some ?a" by code_simp
  have ok: "graph_ok ?g \<and> nonneg ?g \<and> simple_edges ?g" by code_simp
  obtain a where "floyd ?g = Some a" and a: "\<forall>u<length ?g. \<forall>v<length ?g.
        if \<exists>k c. walk ?g (int u) (int v) k c
        then (\<exists>k. walk ?g (int u) (int v) k (a ! u ! v)) \<and> (\<forall>k c. walk ?g (int u) (int v) k c \<longrightarrow> a ! u ! v \<le> c)
        else a ! u ! v = INT32_MAX" using floyd_correct [of ?g] ok by blast
  then have "a = ?a" using run by simp
  then have "if \<exists>k c. walk ?g 0 1 k c then (\<exists>k. walk ?g 0 1 k 3) \<and> (\<forall>k c. walk ?g 0 1 k c \<longrightarrow> 3 \<le> c) else 3 = INT32_MAX"
    using a [rule_format, of 0 1] by (simp cong: if_cong)
  then have "\<forall>k c. walk ?g 0 1 k c \<longrightarrow> 3 \<le> c" by (auto simp: INT32_MAX_def split: if_splits)
  then show ?thesis using run by simp
qed

end
