(* ===== verification/Dijkstra.thy ===== *)
theory Dijkstra
  imports BellmanFord Floyd
begin

text \<open>
  \<open>cpp/algorithm/lib/graph/dijkstra.h\<close>: the quadratic version \<open>force\<close> and the version with a priority queue. Which of
  several entries of the same weight \<open>std::priority_queue\<close> delivers is not specified: \<open>pick\<close> is an argument of the
  model that delivers some entry of least weight.
\<close>

section \<open>The algorithms\<close>

record dj =
  dj_answer :: "int list"
  dj_visit :: "int list"

definition dj_new :: "adj \<Rightarrow> dj" where
  "dj_new g = \<lparr>dj_answer = replicate (length g) INT32_MAX, dj_visit = replicate (length g) 0\<rparr>"

fun dj_reset_loop :: "nat list \<Rightarrow> dj \<Rightarrow> dj option" where
  "dj_reset_loop [] s = Some s"
| "dj_reset_loop (i # is) s =
     do { a \<leftarrow> vset (dj_answer s) i INT32_MAX;
          v \<leftarrow> vset (dj_visit s) i 0;
          dj_reset_loop is \<lparr>dj_answer = a, dj_visit = v\<rparr> }"

definition dj_reset :: "dj \<Rightarrow> dj option" where
  "dj_reset s = dj_reset_loop [0..<length (dj_answer s)] s"

text \<open>The unvisited vertex of least answer below \<open>INT32_MAX\<close>, -1 if there is none.\<close>

fun force_select :: "int list \<Rightarrow> int list \<Rightarrow> nat list \<Rightarrow> int \<Rightarrow> int \<Rightarrow> int option" where
  "force_select a vis [] u m = Some u"
| "force_select a vis (j # js) u m =
     do { x \<leftarrow> vget vis j;
          y \<leftarrow> vget a j;
          if x = 0 \<and> y < m then force_select a vis js (int j) y else force_select a vis js u m }"

fun force_rounds :: "adj \<Rightarrow> nat \<Rightarrow> dj \<Rightarrow> dj option" where
  "force_rounds g 0 s = Some s"
| "force_rounds g (Suc i) s =
     do { u \<leftarrow> force_select (dj_answer s) (dj_visit s) [0..<length (dj_answer s)] (- 1) INT32_MAX;
          vis \<leftarrow> ivset (dj_visit s) u 1;
          es \<leftarrow> ivget g u;
          (a, _) \<leftarrow> relax_edges u es (dj_answer s) False;
          force_rounds g i \<lparr>dj_answer = a, dj_visit = vis\<rparr> }"

definition dj_force :: "adj \<Rightarrow> dj \<Rightarrow> int \<Rightarrow> dj option" where
  "dj_force g s start_node =
     do { a \<leftarrow> ivset (dj_answer s) start_node 0;
          force_rounds g (length a) (s\<lparr>dj_answer := a\<rparr>) }"

type_synonym qentry = "int \<times> int"

fun dj_edges :: "int \<Rightarrow> (int \<times> int) list \<Rightarrow> int list \<Rightarrow> qentry list \<Rightarrow> (int list \<times> qentry list) option" where
  "dj_edges u [] a q = Some (a, q)"
| "dj_edges u ((v, w) # es) a q =
     do { av \<leftarrow> ivget a v;
          au \<leftarrow> ivget a u;
          if av > au + w
          then do { a \<leftarrow> ivset a v (au + w); dj_edges u es a ((v, au + w) # q) }
          else dj_edges u es a q }"

partial_function (option) dj_loop :: "(qentry list \<Rightarrow> qentry) \<Rightarrow> adj \<Rightarrow> qentry list \<Rightarrow> dj \<Rightarrow> dj option" where
  "dj_loop pick g q s =
     (if q = [] then Some s
      else do {
        let u = fst (pick q);
        let q = remove1 (pick q) q;
        x \<leftarrow> ivget (dj_visit s) u;
        if x \<noteq> 0 then dj_loop pick g q s
        else do {
          vis \<leftarrow> ivset (dj_visit s) u 1;
          es \<leftarrow> ivget g u;
          (a, q) \<leftarrow> dj_edges u es (dj_answer s) q;
          dj_loop pick g q \<lparr>dj_answer = a, dj_visit = vis\<rparr> } })"

definition dijkstra :: "(qentry list \<Rightarrow> qentry) \<Rightarrow> adj \<Rightarrow> dj \<Rightarrow> int \<Rightarrow> dj option" where
  "dijkstra pick g s start_node =
     do { a \<leftarrow> ivset (dj_answer s) start_node 0;
          dj_loop pick g [(start_node, 0)] (s\<lparr>dj_answer := a\<rparr>) }"

text \<open>What \<open>std::priority_queue\<close> promises.\<close>

definition least_top :: "(qentry list \<Rightarrow> qentry) \<Rightarrow> bool" where
  "least_top pick \<longleftrightarrow> (\<forall>q. q \<noteq> [] \<longrightarrow> pick q \<in> set q \<and> (\<forall>e\<in>set q. snd (pick q) \<le> snd e))"

section \<open>Visited vertices\<close>

abbreviation vertex :: "adj \<Rightarrow> int \<Rightarrow> bool" where
  "vertex g v \<equiv> 0 \<le> v \<and> v < int (length g)"

text \<open>The answers of visited vertices are final: their edges are relaxed and they are least.\<close>

definition dj_inv :: "adj \<Rightarrow> int \<Rightarrow> dj \<Rightarrow> bool" where
  "dj_inv g s st \<longleftrightarrow> sound g s (dj_answer st) \<and> length (dj_visit st) = length g \<and> dj_answer st ! nat s \<le> 0 \<and>
     (\<forall>u. vertex g u \<longrightarrow> dj_visit st ! nat u \<noteq> 0 \<longrightarrow> dj_answer st ! nat u < INT32_MAX \<and>
        (\<forall>v w. edge g u v w \<longrightarrow> dj_answer st ! nat v \<le> dj_answer st ! nat u + w) \<and>
        (\<forall>v. vertex g v \<longrightarrow> dj_visit st ! nat v = 0 \<longrightarrow> dj_answer st ! nat u \<le> dj_answer st ! nat v))"

definition visited :: "adj \<Rightarrow> dj \<Rightarrow> int set" where
  "visited g st = {v. vertex g v \<and> dj_visit st ! nat v \<noteq> 0}"

lemma visited_finite [simp]: "finite (visited g st)"
  by (rule finite_subset [of _ "{0..<int (length g)}"]) (auto simp: visited_def)

lemma visited_card: "card (visited g st) \<le> length g"
  using card_mono [of "{0..<int (length g)}" "visited g st"] by (fastforce simp: visited_def)

text \<open>Relaxing the edges of a least unvisited vertex.\<close>

definition dj_relaxed :: "adj \<Rightarrow> int \<Rightarrow> int \<Rightarrow> (int \<times> int) list \<Rightarrow> int list \<Rightarrow> int list \<Rightarrow> bool" where
  "dj_relaxed g s u es a a' \<longleftrightarrow> sound g s a' \<and> below_all g a' a \<and>
     (\<forall>(v, w)\<in>set es. a' ! nat v \<le> a ! nat u + w) \<and>
     (\<forall>x. vertex g x \<longrightarrow> a' ! nat x \<noteq> a ! nat x \<longrightarrow> a ! nat u \<le> a' ! nat x) \<and>
     (\<forall>x. vertex g x \<longrightarrow> a ! nat x \<le> a ! nat u \<longrightarrow> a' ! nat x = a ! nat x)"

lemma visit_step:
  assumes "dj_inv g s st" "graph_ok g" "vertex g u" "dj_visit st ! nat u = 0" "dj_answer st ! nat u < INT32_MAX"
    "\<And>v. vertex g v \<Longrightarrow> dj_visit st ! nat v = 0 \<Longrightarrow> dj_answer st ! nat u \<le> dj_answer st ! nat v"
    "dj_relaxed g s u (g ! nat u) (dj_answer st) a'" "0 \<le> s" "s < int (length g)"
  shows "dj_inv g s \<lparr>dj_answer = a', dj_visit = (dj_visit st)[nat u := 1]\<rparr>"
    "visited g \<lparr>dj_answer = a', dj_visit = (dj_visit st)[nat u := 1]\<rparr> = insert u (visited g st)"
proof -
  let ?a = "dj_answer st" let ?vis = "dj_visit st" let ?vis' = "?vis[nat u := 1]"
  have len: "length ?vis = length g" using assms(1) by (simp add: dj_inv_def)
  have vis': "?vis' ! nat v \<noteq> 0 \<longleftrightarrow> v = u \<or> ?vis ! nat v \<noteq> 0" if "vertex g v" for v
    using that assms(3) len by (auto simp: nth_list_update split: if_splits)
  show "visited g \<lparr>dj_answer = a', dj_visit = ?vis'\<rparr> = insert u (visited g st)"
    using vis' assms(3) by (auto simp: visited_def)
  have r: "sound g s a'" "\<And>x. vertex g x \<Longrightarrow> a' ! nat x \<le> ?a ! nat x" "\<And>v w. (v, w) \<in> set (g ! nat u) \<Longrightarrow> a' ! nat v \<le> ?a ! nat u + w"
    "\<And>x. vertex g x \<Longrightarrow> a' ! nat x \<noteq> ?a ! nat x \<Longrightarrow> ?a ! nat u \<le> a' ! nat x" "\<And>x. vertex g x \<Longrightarrow> ?a ! nat x \<le> ?a ! nat u \<Longrightarrow> a' ! nat x = ?a ! nat x"
    using assms(7) unfolding dj_relaxed_def below_all_def by blast+
  have old: "?a ! nat x < INT32_MAX" "\<And>v w. edge g x v w \<Longrightarrow> ?a ! nat v \<le> ?a ! nat x + w"
    "\<And>v. vertex g v \<Longrightarrow> ?vis ! nat v = 0 \<Longrightarrow> ?a ! nat x \<le> ?a ! nat v" if "vertex g x" "?vis ! nat x \<noteq> 0" for x
    using assms(1) that unfolding dj_inv_def by blast+
  have xu: "?a ! nat x \<le> ?a ! nat u" if "vertex g x" "?vis' ! nat x \<noteq> 0" for x
    using that vis' old(3) assms(3,4) by (cases "x = u") auto
  have same: "a' ! nat x = ?a ! nat x" if "vertex g x" "?vis' ! nat x \<noteq> 0" for x using r(5) xu that by blast
  show "dj_inv g s \<lparr>dj_answer = a', dj_visit = ?vis'\<rparr>"
    unfolding dj_inv_def dj.simps
  proof (intro conjI allI impI)
    have "a' ! nat s \<le> ?a ! nat s" using r(2) assms(8,9) by blast
    then show "a' ! nat s \<le> 0" using assms(1) by (simp add: dj_inv_def)
    fix x assume x: "vertex g x" "?vis' ! nat x \<noteq> 0"
    show "a' ! nat x < INT32_MAX" using same [OF x] x vis' old(1) assms(5) by (cases "x = u") auto
    show "a' ! nat v \<le> a' ! nat x + w" if e: "edge g x v w" for v w
    proof (cases "x = u")
      case True
      then show ?thesis using same [OF x] r(3) e by (simp add: edge_def)
    next
      case False
      have "a' ! nat v \<le> ?a ! nat v" using r(2) edge_ok [OF assms(2) e] by blast
      then show ?thesis using same [OF x] old(2) [OF x(1) _ e] vis' [OF x(1)] x(2) False by simp
    qed
    show "a' ! nat x \<le> a' ! nat v" if v: "vertex g v" "?vis' ! nat v = 0" for v
    proof -
      have v0: "?vis ! nat v = 0" using vis' v by blast
      have "a' ! nat v = ?a ! nat v \<or> ?a ! nat u \<le> a' ! nat v" using r(4) v(1) by blast
      moreover have "?a ! nat u \<le> ?a ! nat v" using assms(6) v(1) v0 by blast
      ultimately show ?thesis using same [OF x] xu [OF x] by auto
    qed
  qed (use r(1) len in simp_all)
qed

section \<open>Relaxing the edges of one vertex\<close>

lemma edges_agree: "map_option fst (dj_edges u es a q) = map_option fst (relax_edges u es a fl)"
proof (induction u es a q arbitrary: fl rule: dj_edges.induct)
  case (2 u v w es a q)
  show ?case
  proof (cases "ivget a v")
    case (Some av)
    show ?thesis
    proof (cases "ivget a u")
      case (Some au)
      then show ?thesis
        using \<open>ivget a v = Some av\<close> 2 by (cases "ivset a v (au + w)") (auto simp del: ivget_eq_Some ivset_eq_Some)
    qed (use Some in simp)
  qed simp
qed simp

text \<open>Every changed answer is queued, and nothing below the answer of the vertex changes.\<close>

lemma dj_edges_queue:
  "length a = length g \<Longrightarrow> vertex g u \<Longrightarrow> set es \<subseteq> set (g ! nat u) \<Longrightarrow> graph_ok g \<Longrightarrow> nonneg g \<Longrightarrow>
     \<forall>x. vertex g x \<longrightarrow> a ! nat x \<le> INT32_MAX \<Longrightarrow> \<exists>a' new. dj_edges u es a q = Some (a', new @ q) \<and> below_all g a' a \<and>
       (\<forall>x. vertex g x \<longrightarrow> a' ! nat x \<noteq> a ! nat x \<longrightarrow> (x, a' ! nat x) \<in> set new) \<and>
       (\<forall>(x, d)\<in>set new. vertex g x \<and> a' ! nat x \<le> d \<and> a ! nat u \<le> d \<and> d < INT32_MAX)"
proof (induction u es a q rule: dj_edges.induct)
  case (2 u v w es a q)
  have e: "edge g u v w" using "2.prems"(2,3) by (auto simp: edge_def)
  note v = edge_ok(3,4) [OF "2.prems"(4) e]
  have w: "0 \<le> w" using edge_nonneg [OF "2.prems"(5) e] .
  have gets: "ivget a v = Some (a ! nat v)" "ivget a u = Some (a ! nat u)" using v "2.prems"(1,2) by (simp_all add: nat_less_iff)
  have es: "set es \<subseteq> set (g ! nat u)" using "2.prems"(3) by simp
  show ?case
  proof (cases "a ! nat v > a ! nat u + w")
    case False
    then show ?thesis using "2.IH"(2) [OF gets False "2.prems"(1,2) es "2.prems"(4-6)] gets by simp
  next
    case True
    let ?a = "a[nat v := a ! nat u + w]" let ?e = "(v, a ! nat u + w)"
    have put: "ivset a v (a ! nat u + w) = Some ?a" using v "2.prems"(1) by simp
    have "u \<noteq> v" using True w by auto
    moreover have other: "?a ! nat x = a ! nat x" if "0 \<le> x" "x \<noteq> v" for x using that v(1) by simp
    ultimately have au: "?a ! nat u = a ! nat u" using "2.prems"(2) by blast
    have nv: "?a ! nat v = a ! nat u + w" using v "2.prems"(1) by simp
    have ln: "length ?a = length g" using "2.prems"(1) by simp
    have lt: "a ! nat u + w < INT32_MAX" using True "2.prems"(6) v by force
    have up: "\<forall>x. vertex g x \<longrightarrow> ?a ! nat x \<le> INT32_MAX" using other nv lt "2.prems"(6) by (metis less_imp_le)
    obtain a' new where r: "dj_edges u es ?a (?e # q) = Some (a', new @ ?e # q)" "below_all g a' ?a"
      "\<forall>x. vertex g x \<longrightarrow> a' ! nat x \<noteq> ?a ! nat x \<longrightarrow> (x, a' ! nat x) \<in> set new"
      "\<forall>(x, d)\<in>set new. vertex g x \<and> a' ! nat x \<le> d \<and> a ! nat u \<le> d \<and> d < INT32_MAX"
      using "2.IH"(1) [OF gets True put ln "2.prems"(2) es "2.prems"(4,5) up] unfolding au by blast
    have dec: "below_all g ?a a" unfolding below_all_def using other nv True by (metis less_imp_le order_refl)
    have av: "a' ! nat v \<le> a ! nat u + w" using r(2) v nv unfolding below_all_def by metis
    have "(x, a' ! nat x) \<in> set (new @ [?e])" if "vertex g x" "a' ! nat x \<noteq> a ! nat x" for x
      using that r(3) other [of x] nv by (cases "a' ! nat x = ?a ! nat x"; cases "x = v") auto
    moreover have "\<forall>(x, d)\<in>set (new @ [?e]). vertex g x \<and> a' ! nat x \<le> d \<and> a ! nat u \<le> d \<and> d < INT32_MAX" using r(4) v av w lt by auto
    moreover have "below_all g a' a" using below_all_trans r(2) dec by blast
    moreover have "dj_edges u ((v, w) # es) a q = Some (a', (new @ [?e]) @ q)" using r(1) gets True put by simp
    ultimately show ?thesis by blast
  qed
qed auto

lemma dj_edges_ok:
  assumes "sound g s a" "vertex g u" "a ! nat u < INT32_MAX" "graph_ok g" "nonneg g"
  shows "\<exists>a' new. dj_edges u (g ! nat u) a q = Some (a', new @ q) \<and> dj_relaxed g s u (g ! nat u) a a' \<and>
    (\<forall>x. vertex g x \<longrightarrow> a' ! nat x \<noteq> a ! nat x \<longrightarrow> (x, a' ! nat x) \<in> set new) \<and>
    (\<forall>(x, d)\<in>set new. vertex g x \<and> a' ! nat x \<le> d \<and> a ! nat u \<le> d \<and> d < INT32_MAX)"
proof -
  have len: "length a = length g" using assms(1) by (simp add: sound_def)
  obtain a' new where d: "dj_edges u (g ! nat u) a q = Some (a', new @ q)" "below_all g a' a"
    "\<forall>x. vertex g x \<longrightarrow> a' ! nat x \<noteq> a ! nat x \<longrightarrow> (x, a' ! nat x) \<in> set new"
    "\<forall>(x, d)\<in>set new. vertex g x \<and> a' ! nat x \<le> d \<and> a ! nat u \<le> d \<and> d < INT32_MAX"
    using dj_edges_queue [OF len assms(2) order_refl assms(4,5)] assms(1) unfolding sound_def by blast
  obtain a'' fl where r: "relax_edges u (g ! nat u) a False = Some (a'', fl)" "relaxed g s u (g ! nat u) a False a'' fl"
  proof -
    have "0 \<le> u" "u < int (length g)" "a ! nat u \<noteq> INT32_MAX" using assms(2,3) by simp_all
    then show thesis using relax_edges_ok [OF assms(1) _ _ _ order_refl assms(4)] that by blast
  qed
  have "a'' = a'" using edges_agree [of u "g ! nat u" a q False] d(1) r(1) by simp
  moreover have ge: "a ! nat u \<le> a' ! nat x" if "vertex g x" "a' ! nat x \<noteq> a ! nat x" for x using d(3,4) that by blast
  moreover have "a' ! nat x = a ! nat x" if "vertex g x" "a ! nat x \<le> a ! nat u" for x
  proof (rule ccontr)
    assume n: "a' ! nat x \<noteq> a ! nat x"
    then have "a' ! nat x < a ! nat x" using d(2) that(1) unfolding below_all_def by force
    then show False using ge [OF that(1) n] that(2) by simp
  qed
  ultimately have "dj_relaxed g s u (g ! nat u) a a'" using r(2) unfolding relaxed_def dj_relaxed_def by blast
  then show ?thesis using d by blast
qed

section \<open>The priority queue\<close>

definition queue_ok :: "adj \<Rightarrow> dj \<Rightarrow> qentry list \<Rightarrow> bool" where
  "queue_ok g st q \<longleftrightarrow>
     (\<forall>v. vertex g v \<longrightarrow> dj_visit st ! nat v = 0 \<longrightarrow> dj_answer st ! nat v \<noteq> INT32_MAX \<longrightarrow> (v, dj_answer st ! nat v) \<in> set q) \<and>
     (\<forall>(v, d)\<in>set q. vertex g v \<and> dj_answer st ! nat v \<le> d \<and> d < INT32_MAX)"

lemma queue_top:
  assumes "queue_ok g st q" "least_top pick" "q \<noteq> []" "dj_visit st ! nat (fst (pick q)) = 0"
  shows "vertex g (fst (pick q))" "dj_answer st ! nat (fst (pick q)) = snd (pick q)" "snd (pick q) < INT32_MAX"
    "\<And>v. vertex g v \<Longrightarrow> dj_visit st ! nat v = 0 \<Longrightarrow> dj_answer st ! nat v \<noteq> INT32_MAX \<Longrightarrow> snd (pick q) \<le> dj_answer st ! nat v"
proof -
  obtain u d where p: "pick q = (u, d)" by (cases "pick q")
  have q: "(u, d) \<in> set q" "\<And>e. e \<in> set q \<Longrightarrow> d \<le> snd e" using assms(2,3) p unfolding least_top_def by (metis, metis snd_conv)
  have u: "vertex g u" "dj_answer st ! nat u \<le> d" "d < INT32_MAX" using assms(1) q(1) unfolding queue_ok_def by blast+
  have all: "d \<le> dj_answer st ! nat v" if "vertex g v" "dj_visit st ! nat v = 0" "dj_answer st ! nat v \<noteq> INT32_MAX" for v
    using q(2) [of "(v, dj_answer st ! nat v)"] assms(1) that unfolding queue_ok_def by auto
  show "vertex g (fst (pick q))" "snd (pick q) < INT32_MAX" using u p by simp_all
  show "dj_answer st ! nat (fst (pick q)) = snd (pick q)" using all [of u] u assms(4) p by auto
  show "snd (pick q) \<le> dj_answer st ! nat v" if "vertex g v" "dj_visit st ! nat v = 0" "dj_answer st ! nat v \<noteq> INT32_MAX" for v
    using all [OF that] p by simp
qed

lemma queue_skip:
  assumes "queue_ok g st q" "dj_visit st ! nat (fst e) \<noteq> 0"
  shows "queue_ok g st (remove1 e q)"
proof -
  have "(v, dj_answer st ! nat v) \<in> set (remove1 e q)" if "vertex g v" "dj_visit st ! nat v = 0" "dj_answer st ! nat v \<noteq> INT32_MAX" for v
  proof -
    have "(v, dj_answer st ! nat v) \<in> set q" using assms(1) that unfolding queue_ok_def by blast
    moreover have "(v, dj_answer st ! nat v) \<noteq> e" using that(2) assms(2) by auto
    ultimately show ?thesis by (simp add: in_set_remove1)
  qed
  moreover have "vertex g v \<and> dj_answer st ! nat v \<le> d \<and> d < INT32_MAX" if "(v, d) \<in> set (remove1 e q)" for v d
    using assms(1) subsetD [OF set_remove1_subset that] unfolding queue_ok_def by blast
  ultimately show ?thesis unfolding queue_ok_def by blast
qed

lemma queue_visit:
  assumes "queue_ok g st q" "vertex g u" "fst e = u" "length (dj_visit st) = length g" "below_all g a' (dj_answer st)"
    "\<And>x. vertex g x \<Longrightarrow> a' ! nat x \<noteq> dj_answer st ! nat x \<Longrightarrow> (x, a' ! nat x) \<in> set new"
    "\<And>x d. (x, d) \<in> set new \<Longrightarrow> vertex g x \<and> a' ! nat x \<le> d \<and> d < INT32_MAX"
  shows "queue_ok g \<lparr>dj_answer = a', dj_visit = (dj_visit st)[nat u := 1]\<rparr> (new @ remove1 e q)"
proof -
  let ?vis = "(dj_visit st)[nat u := 1]"
  have "(v, a' ! nat v) \<in> set (new @ remove1 e q)" if v: "vertex g v" "?vis ! nat v = 0" "a' ! nat v \<noteq> INT32_MAX" for v
  proof (cases "a' ! nat v = dj_answer st ! nat v")
    case True
    have "nat u < length (dj_visit st)" using assms(2,4) by (simp add: nat_less_iff)
    then have "v \<noteq> u" using v(2) by auto
    then have "dj_visit st ! nat v = 0" using v assms(2) by auto
    then have "(v, a' ! nat v) \<in> set q" using assms(1) v(1,3) True unfolding queue_ok_def by auto
    moreover have "(v, a' ! nat v) \<noteq> e" using \<open>v \<noteq> u\<close> assms(3) by auto
    ultimately show ?thesis by (simp add: in_set_remove1)
  qed (use assms(6) v(1) in simp)
  moreover have "vertex g v \<and> a' ! nat v \<le> d \<and> d < INT32_MAX" if m: "(v, d) \<in> set (new @ remove1 e q)" for v d
  proof (cases "(v, d) \<in> set new")
    case False
    then have "(v, d) \<in> set (remove1 e q)" using m by simp
    then have "(v, d) \<in> set q" by (rule subsetD [OF set_remove1_subset])
    then have "vertex g v" "dj_answer st ! nat v \<le> d" "d < INT32_MAX" using assms(1) unfolding queue_ok_def by blast+
    moreover from this(1) have "a' ! nat v \<le> dj_answer st ! nat v" using assms(5) unfolding below_all_def by blast
    ultimately show ?thesis by simp
  qed (use assms(7) in blast)
  ultimately show ?thesis unfolding queue_ok_def dj.simps by blast
qed

lemma dj_loop_ok:
  "dj_inv g s st \<Longrightarrow> queue_ok g st q \<Longrightarrow> graph_ok g \<Longrightarrow> nonneg g \<Longrightarrow> least_top pick \<Longrightarrow> 0 \<le> s \<Longrightarrow> s < int (length g) \<Longrightarrow>
     \<exists>st'. dj_loop pick g q st = Some st' \<and> dj_inv g s st' \<and> queue_ok g st' []"
proof (induction "length g - card (visited g st)" arbitrary: st q rule: less_induct)
  case (less st)
  note outer = less.hyps and fixed = less.prems(1) less.prems(3-7)
  from less.prems(2) show ?case
  proof (induction "length q" arbitrary: q rule: less_induct)
  case (less q)
  note prems = fixed(1) less.prems fixed(2-6)
  show ?case
  proof (cases "q = []")
    case True
    then show ?thesis using prems(1,2) by (simp add: dj_loop.simps)
  next
    case False
    let ?e = "pick q" let ?u = "fst (pick q)"
    have e: "?e \<in> set q" using prems(5) False unfolding least_top_def by blast
    have u: "vertex g ?u" using prems(2) e unfolding queue_ok_def by (metis (no_types, lifting) case_prodD prod.collapse)
    have vlen: "length (dj_visit st) = length g" using prems(1) by (simp add: dj_inv_def)
    have vu: "ivget (dj_visit st) ?u = Some (dj_visit st ! nat ?u)" using u vlen by (simp add: nat_less_iff)
    show ?thesis
    proof (cases "dj_visit st ! nat ?u = 0")
      case False
      have "length (remove1 ?e q) < length q" using e length_pos_if_in_set [OF e] by (simp add: length_remove1)
      then have "\<exists>st'. dj_loop pick g (remove1 ?e q) st = Some st' \<and> dj_inv g s st' \<and> queue_ok g st' []"
        using less.hyps queue_skip [OF prems(2) False] by blast
      then show ?thesis using False \<open>q \<noteq> []\<close> vu by (simp add: dj_loop.simps [of pick g q] Let_def)
    next
      case True
      note t = queue_top [OF prems(2,5) False True]
      have snd: "sound g s (dj_answer st)" using prems(1) by (simp add: dj_inv_def)
      have fin: "dj_answer st ! nat ?u < INT32_MAX" using t(2,3) by simp
      have up: "\<And>x. vertex g x \<Longrightarrow> dj_answer st ! nat x \<le> INT32_MAX" using snd unfolding sound_def by blast
      have least: "dj_answer st ! nat ?u \<le> dj_answer st ! nat v" if "vertex g v" "dj_visit st ! nat v = 0" for v
        using t(2,3) t(4) [OF that] by (cases "dj_answer st ! nat v = INT32_MAX") simp_all
      obtain a' new where d: "dj_edges ?u (g ! nat ?u) (dj_answer st) (remove1 ?e q) = Some (a', new @ remove1 ?e q)"
        "dj_relaxed g s ?u (g ! nat ?u) (dj_answer st) a'"
        "\<forall>x. vertex g x \<longrightarrow> a' ! nat x \<noteq> dj_answer st ! nat x \<longrightarrow> (x, a' ! nat x) \<in> set new"
        "\<forall>(x, d)\<in>set new. vertex g x \<and> a' ! nat x \<le> d \<and> dj_answer st ! nat ?u \<le> d \<and> d < INT32_MAX"
        using dj_edges_ok [OF snd u fin prems(3,4), of "remove1 ?e q"] by blast
      let ?st = "\<lparr>dj_answer = a', dj_visit = (dj_visit st)[nat ?u := 1]\<rparr>"
      have dec: "below_all g a' (dj_answer st)" using d(2) unfolding dj_relaxed_def by blast
      have inv: "dj_inv g s ?st" and vis: "visited g ?st = insert ?u (visited g st)"
        by (rule visit_step [OF prems(1,3) u True fin least d(2) prems(6,7)], assumption+)+
      have qk: "queue_ok g ?st (new @ remove1 ?e q)"
        by (rule queue_visit [OF prems(2) u refl vlen dec]) (use d(3,4) in blast)+
      have "?u \<notin> visited g st" using True by (simp add: visited_def)
      then have "card (visited g ?st) = Suc (card (visited g st))" unfolding vis by simp
      then have "length g - card (visited g ?st) < length g - card (visited g st)" using visited_card [of g ?st] by simp
      then have "\<exists>st'. dj_loop pick g (new @ remove1 ?e q) ?st = Some st' \<and> dj_inv g s st' \<and> queue_ok g st' []"
        using outer [OF _ inv qk prems(3-7)] by simp
      moreover have "ivset (dj_visit st) ?u 1 = Some ((dj_visit st)[nat ?u := 1])" "ivget g ?u = Some (g ! nat ?u)"
        using u vlen by (simp_all add: nat_less_iff)
      ultimately show ?thesis using True \<open>q \<noteq> []\<close> vu d(1) by (simp add: dj_loop.simps [of pick g q] Let_def)
    qed
  qed
  qed
qed

lemma dj_closed:
  assumes "dj_inv g s st" "\<And>v. vertex g v \<Longrightarrow> dj_visit st ! nat v = 0 \<Longrightarrow> dj_answer st ! nat v = INT32_MAX"
  shows "closed g (dj_answer st)"
  unfolding closed_def
proof (intro allI impI)
  fix u v w assume e: "edge g u v w" and f: "dj_answer st ! nat u \<noteq> INT32_MAX"
  have u: "vertex g u" using e by (simp add: edge_def)
  then have "dj_visit st ! nat u \<noteq> 0" using assms(2) f by blast
  then show "dj_answer st ! nat v \<le> dj_answer st ! nat u + w" using assms(1) u e unfolding dj_inv_def by blast
qed

lemma dj_start:
  assumes "0 \<le> s" "s < int (length g)"
  defines "st \<equiv> (dj_new g)\<lparr>dj_answer := (replicate (length g) INT32_MAX)[nat s := 0]\<rparr>"
  shows "dj_inv g s st" "queue_ok g st [(s, 0)]" "visited g st = {}"
proof -
  have v0: "dj_visit st ! nat v = 0" if "vertex g v" for v using that by (simp add: st_def dj_new_def nat_less_iff)
  have el: "dj_answer st ! nat v = (if v = s then 0 else INT32_MAX)" if "vertex g v" for v
    using start_ok(4) [OF assms(1,2)] that by (simp add: st_def)
  have ln: "length (dj_visit st) = length g" by (simp add: st_def dj_new_def)
  have "sound g s (dj_answer st)" "dj_answer st ! nat s \<le> 0" using start_ok(2,3) [OF assms(1,2)] by (simp_all add: st_def)
  then show "dj_inv g s st" unfolding dj_inv_def using ln v0 by blast
  show "visited g st = {}" unfolding visited_def using v0 by blast
  show "queue_ok g st [(s, 0)]" unfolding queue_ok_def using el v0 assms(1,2) by (auto simp: INT32_MAX_def)
qed

section \<open>The quadratic version\<close>

text \<open>The scan finds a least unvisited vertex, or -1 when every unvisited vertex is at \<open>INT32_MAX\<close>.\<close>

lemma force_select_ok:
  assumes "\<forall>j\<in>set js. j < length a \<and> j < length vis"
  shows "\<exists>u'. force_select a vis js u m = Some u' \<and>
     (u' = u \<and> (\<forall>j\<in>set js. vis ! j = 0 \<longrightarrow> m \<le> a ! j) \<or>
      (\<exists>i\<in>set js. u' = int i \<and> vis ! i = 0 \<and> a ! i < m \<and> (\<forall>j\<in>set js. vis ! j = 0 \<longrightarrow> a ! i \<le> a ! j)))"
  using assms
proof (induction js arbitrary: u m)
  case (Cons j js)
  have j: "j < length a" "j < length vis" and js: "\<forall>j\<in>set js. j < length a \<and> j < length vis" using Cons.prems by simp_all
  show ?case
  proof (cases "vis ! j = 0 \<and> a ! j < m")
    case True
    obtain u' where "force_select a vis js (int j) (a ! j) = Some u'"
      "u' = int j \<and> (\<forall>k\<in>set js. vis ! k = 0 \<longrightarrow> a ! j \<le> a ! k) \<or>
       (\<exists>i\<in>set js. u' = int i \<and> vis ! i = 0 \<and> a ! i < a ! j \<and> (\<forall>k\<in>set js. vis ! k = 0 \<longrightarrow> a ! i \<le> a ! k))"
      using Cons.IH [OF js] by blast
    then show ?thesis using True j by (auto intro!: exI [of _ u'])
  next
    case False
    obtain u' where "force_select a vis js u m = Some u'"
      "u' = u \<and> (\<forall>k\<in>set js. vis ! k = 0 \<longrightarrow> m \<le> a ! k) \<or>
       (\<exists>i\<in>set js. u' = int i \<and> vis ! i = 0 \<and> a ! i < m \<and> (\<forall>k\<in>set js. vis ! k = 0 \<longrightarrow> a ! i \<le> a ! k))"
      using Cons.IH [OF js] by blast
    then show ?thesis using False j by (auto intro!: exI [of _ u'])
  qed
qed simp

lemma force_select_vertex:
  assumes "dj_inv g s st"
  obtains (none) "force_select (dj_answer st) (dj_visit st) [0..<length (dj_answer st)] (- 1) INT32_MAX = Some (- 1)"
      "\<And>v. vertex g v \<Longrightarrow> dj_visit st ! nat v = 0 \<Longrightarrow> dj_answer st ! nat v = INT32_MAX"
  | (some) u where "force_select (dj_answer st) (dj_visit st) [0..<length (dj_answer st)] (- 1) INT32_MAX = Some u"
      "vertex g u" "dj_visit st ! nat u = 0" "dj_answer st ! nat u < INT32_MAX"
      "\<And>v. vertex g v \<Longrightarrow> dj_visit st ! nat v = 0 \<Longrightarrow> dj_answer st ! nat u \<le> dj_answer st ! nat v"
proof -
  let ?a = "dj_answer st" let ?vis = "dj_visit st" let ?js = "[0..<length ?a]"
  have ln: "length ?a = length g" "length ?vis = length g" and up: "\<And>v. vertex g v \<Longrightarrow> ?a ! nat v \<le> INT32_MAX"
    using assms unfolding dj_inv_def sound_def by blast+
  have js: "\<forall>j\<in>set ?js. j < length ?a \<and> j < length ?vis" using ln by simp
  have mem: "nat v \<in> set ?js" if "vertex g v" for v using that ln by (simp add: nat_less_iff)
  obtain u where u: "force_select ?a ?vis ?js (- 1) INT32_MAX = Some u"
    "u = - 1 \<and> (\<forall>j\<in>set ?js. ?vis ! j = 0 \<longrightarrow> INT32_MAX \<le> ?a ! j) \<or>
     (\<exists>i\<in>set ?js. u = int i \<and> ?vis ! i = 0 \<and> ?a ! i < INT32_MAX \<and> (\<forall>j\<in>set ?js. ?vis ! j = 0 \<longrightarrow> ?a ! i \<le> ?a ! j))"
    using force_select_ok [OF js] by blast
  from u(2) show thesis
  proof (elim disjE conjE bexE)
    assume n: "u = - 1" "\<forall>j\<in>set ?js. ?vis ! j = 0 \<longrightarrow> INT32_MAX \<le> ?a ! j"
    have "?a ! nat v = INT32_MAX" if "vertex g v" "?vis ! nat v = 0" for v
      using n(2) mem [OF that(1)] up [OF that(1)] that(2) by fastforce
    then show thesis using none u(1) n(1) by blast
  next
    fix i assume i: "i \<in> set ?js" "u = int i" "?vis ! i = 0" "?a ! i < INT32_MAX" "\<forall>j\<in>set ?js. ?vis ! j = 0 \<longrightarrow> ?a ! i \<le> ?a ! j"
    have "?a ! nat u \<le> ?a ! nat v" if "vertex g v" "?vis ! nat v = 0" for v using i(2,5) mem [OF that(1)] that(2) by simp
    then show thesis using some u(1) i ln by simp
  qed
qed

lemma force_rounds_ok:
  "dj_inv g s st \<Longrightarrow> card (visited g st) + i = length g \<Longrightarrow> graph_ok g \<Longrightarrow> nonneg g \<Longrightarrow> 0 \<le> s \<Longrightarrow> s < int (length g) \<Longrightarrow>
     (\<exists>st'. force_rounds g i st = Some st' \<and> dj_inv g s st' \<and> (\<forall>v. vertex g v \<longrightarrow> dj_visit st' ! nat v \<noteq> 0)) \<or>
     force_rounds g i st = None \<and> (\<exists>v. vertex g v \<and> (\<forall>k c. \<not> walk g s v k c))"
proof (induction i arbitrary: st)
  case 0
  have "visited g st = {0..<int (length g)}"
    by (rule card_subset_eq) (use 0 in \<open>auto simp: visited_def\<close>)
  then have "dj_visit st ! nat v \<noteq> 0" if "vertex g v" for v using that unfolding visited_def by (auto simp: set_eq_iff)
  then show ?case using 0 by simp
next
  case (Suc i)
  note st = Suc.prems(1)
  have snd: "sound g s (dj_answer st)" "dj_answer st ! nat s \<le> 0" "length (dj_visit st) = length g" using st by (simp_all add: dj_inv_def)
  show ?case
  using st
  proof (cases rule: force_select_vertex)
    case none
    have "\<exists>v. vertex g v \<and> v \<notin> visited g st"
    proof (rule ccontr)
      assume "\<not> ?thesis"
      then have "{0..<int (length g)} \<subseteq> visited g st" by auto
      then have "length g \<le> card (visited g st)" using card_mono [OF visited_finite, of "{0..<int (length g)}"] by simp
      then show False using Suc.prems(2) by simp
    qed
    then obtain v where v: "vertex g v" "dj_visit st ! nat v = 0" unfolding visited_def by blast
    have "closed g (dj_answer st)" using dj_closed [OF st none(2)] .
    then have "\<not> walk g s v k c" for k c
      using closed_reachable [OF _ Suc.prems(3) snd(1) _ snd(2) Suc.prems(5,6)] none(2) [OF v] by (metis less_irrefl)
    then show ?thesis using v(1) none(1) by auto
  next
    case (some u)
    obtain a' new where d: "dj_edges u (g ! nat u) (dj_answer st) [] = Some (a', new @ [])"
      "dj_relaxed g s u (g ! nat u) (dj_answer st) a'"
      using dj_edges_ok [OF snd(1) some(2,4) Suc.prems(3,4), of "[]"] by blast
    have "map_option fst (relax_edges u (g ! nat u) (dj_answer st) False) = Some a'"
      using edges_agree [of u "g ! nat u" "dj_answer st" "[]" False] d(1) by simp
    then obtain fl where r: "relax_edges u (g ! nat u) (dj_answer st) False = Some (a', fl)" by auto
    let ?st = "\<lparr>dj_answer = a', dj_visit = (dj_visit st)[nat u := 1]\<rparr>"
    have inv: "dj_inv g s ?st" and vis: "visited g ?st = insert u (visited g st)"
      by (rule visit_step [OF st Suc.prems(3) some(2-5) d(2) Suc.prems(5,6)], assumption+)+
    have "u \<notin> visited g st" using some(3) by (simp add: visited_def)
    then have card: "card (visited g ?st) + i = length g" using Suc.prems(2) unfolding vis by simp
    have "ivset (dj_visit st) u 1 = Some ((dj_visit st)[nat u := 1])" "ivget g u = Some (g ! nat u)"
      using some(2) snd(3) by (simp_all add: nat_less_iff)
    then have "force_rounds g (Suc i) st = force_rounds g i ?st" using some(1) r by simp
    then show ?thesis using Suc.IH [OF inv card Suc.prems(3-6)] by simp
  qed
qed

lemma dj_reset_loop_ok:
  "i \<le> n \<Longrightarrow> length a = n \<Longrightarrow> length vis = n \<Longrightarrow> dj_reset_loop [i..<n] \<lparr>dj_answer = a, dj_visit = vis\<rparr> =
     Some \<lparr>dj_answer = take i a @ replicate (n - i) INT32_MAX, dj_visit = take i vis @ replicate (n - i) 0\<rparr>"
proof (induction "n - i" arbitrary: i a vis)
  case (Suc k)
  then have i: "i < n" and k: "k = n - Suc i" and Si: "Suc i \<le> n" by simp_all
  have r: "replicate (n - i) x = x # replicate (n - Suc i) x" for x :: int using i by (simp flip: replicate_Suc add: Suc_diff_Suc)
  have ln: "length (a[i := INT32_MAX]) = n" "length (vis[i := 0]) = n" using Suc.prems by simp_all
  show ?case using Suc.hyps(1) [OF k Si ln] i Suc.prems by (simp add: upt_conv_Cons r take_Suc_update)
qed simp

lemma dj_reset_ok:
  assumes "length (dj_answer st) = length g" "length (dj_visit st) = length g"
  shows "dj_reset st = Some (dj_new g)"
  using dj_reset_loop_ok [of 0 "length g" "dj_answer st" "dj_visit st"] assms by (cases st) (simp add: dj_reset_def dj_new_def)

lemma distance_unique: "distance g s v c \<Longrightarrow> distance g s v d \<Longrightarrow> c = d"
  unfolding distance_def by (auto split: if_splits intro: antisym)

lemma dj_answers:
  assumes "dj_inv g s st" "closed g (dj_answer st)" "graph_ok g" "0 \<le> s" "s < int (length g)" "vertex g v"
  shows "distance g s v (dj_answer st ! nat v)"
  using closed_distance [OF assms(2,3) _ _ assms(4,5)] assms(1,6) unfolding dj_inv_def by blast

section \<open>Property\<close>

text \<open>
  C14. Both versions of Dijkstra's algorithm. On a graph without negative weights whose edges lead to vertices and on a
  new object, \<open>dijkstra\<close> returns, whichever of several least entries the priority queue delivers, and gives every
  vertex the cost of a cheapest walk from the start, \<open>INT32_MAX\<close> where there is none. \<open>force\<close> gives the same answers
  when every vertex can be reached; otherwise it reads \<open>visit_[-1]\<close>. \<open>reset\<close> gives a new object again.
\<close>

theorem dijkstra_correct:
  assumes "graph_ok g" "nonneg g" "0 \<le> s" "s < int (length g)" "least_top pick"
  shows "\<exists>st. dijkstra pick g (dj_new g) s = Some st \<and> dj_reset st = Some (dj_new g) \<and>
      (\<forall>v. 0 \<le> v \<and> v < int (length g) \<longrightarrow> distance g s v (dj_answer st ! nat v)) \<and>
      (if \<forall>v. 0 \<le> v \<and> v < int (length g) \<longrightarrow> (\<exists>k c. walk g s v k c)
       then \<exists>st'. dj_force g (dj_new g) s = Some st' \<and> dj_answer st' = dj_answer st
       else dj_force g (dj_new g) s = None)"
proof -
  let ?st = "(dj_new g)\<lparr>dj_answer := (replicate (length g) INT32_MAX)[nat s := 0]\<rparr>"
  note st0 = dj_start [OF assms(3,4)]
  have put: "ivset (dj_answer (dj_new g)) s 0 = Some ((replicate (length g) INT32_MAX)[nat s := 0])"
    using start_ok(1) [OF assms(3,4)] by (simp add: dj_new_def)
  obtain st where st: "dj_loop pick g [(s, 0)] ?st = Some st" "dj_inv g s st" "queue_ok g st []"
    using dj_loop_ok [OF st0(1,2) assms(1,2,5,3,4)] by blast
  have cl: "closed g (dj_answer st)" by (rule dj_closed [OF st(2)]) (use st(3) in \<open>auto simp: queue_ok_def\<close>)
  have ln: "length (dj_answer st) = length g" "length (dj_visit st) = length g" using st(2) unfolding dj_inv_def sound_def by blast+
  have dist: "distance g s v (dj_answer st ! nat v)" if "vertex g v" for v using dj_answers [OF st(2) cl assms(1,3,4) that] .
  have frc: "dj_force g (dj_new g) s = force_rounds g (length g) ?st" unfolding dj_force_def put by simp
  have card: "card (visited g ?st) + length g = length g" using st0(3) by simp
  from force_rounds_ok [OF st0(1) card assms(1-4)]
  have "if \<forall>v. vertex g v \<longrightarrow> (\<exists>k c. walk g s v k c)
    then \<exists>st'. dj_force g (dj_new g) s = Some st' \<and> dj_answer st' = dj_answer st else dj_force g (dj_new g) s = None"
  proof (elim disjE exE conjE)
    fix st' assume 1: "force_rounds g (length g) ?st = Some st'" "dj_inv g s st'" "\<forall>v. vertex g v \<longrightarrow> dj_visit st' ! nat v \<noteq> 0"
    have cl': "closed g (dj_answer st')" by (rule dj_closed [OF 1(2)]) (use 1(3) in blast)
    have ln': "length (dj_answer st') = length g" using 1(2) unfolding dj_inv_def sound_def by blast
    have "\<exists>k c. walk g s v k c" if v: "vertex g v" for v
    proof -
      have "dj_visit st' ! nat v \<noteq> 0" using 1(3) v by blast
      then have "dj_answer st' ! nat v < INT32_MAX" using 1(2) v unfolding dj_inv_def by blast
      then have "dj_answer st' ! nat v \<noteq> INT32_MAX" by simp
      moreover have "sound g s (dj_answer st')" using 1(2) by (simp add: dj_inv_def)
      ultimately show ?thesis using v unfolding sound_def by blast
    qed
    moreover have "dj_answer st' ! i = dj_answer st ! i" if "i < length g" for i
      using distance_unique [OF dj_answers [OF 1(2) cl' assms(1,3,4)] dist, of "int i"] that by simp
    ultimately show ?thesis using frc 1(1) ln ln' by (simp add: list_eq_iff_nth_eq)
  qed (use frc in auto)
  moreover have "dijkstra pick g (dj_new g) s = Some st" unfolding dijkstra_def put using st(1) by simp
  ultimately show ?thesis using dj_reset_ok [OF ln] dist by blast
qed

text \<open>The entry of least weight that was queued last.\<close>

fun pick_least :: "qentry list \<Rightarrow> qentry" where
  "pick_least [] = (0, 0)"
| "pick_least [e] = e"
| "pick_least (e # q) = (if snd e \<le> snd (pick_least q) then e else pick_least q)"

lemma pick_least_top: "least_top pick_least"
proof -
  have "pick_least q \<in> set q \<and> (\<forall>e\<in>set q. snd (pick_least q) \<le> snd e)" if "q \<noteq> []" for q
    using that by (induction q rule: pick_least.induct) auto
  then show ?thesis unfolding least_top_def by blast
qed

theorem dijkstra_correct_witness:
  "\<exists>st. dijkstra pick_least [[(1, 4), (2, 1)], [], [(1, 2)], [(0, 5)]] (dj_new [[(1, 4), (2, 1)], [], [(1, 2)], [(0, 5)]]) 0 = Some st \<and>
     distance [[(1, 4), (2, 1)], [], [(1, 2)], [(0, 5)]] 0 1 (dj_answer st ! 1) \<and>
     dj_force [[(1, 4), (2, 1)], [], [(1, 2)]] (dj_new [[(1, 4), (2, 1)], [], [(1, 2)]]) 0 = Some \<lparr>dj_answer = [0, 3, 1], dj_visit = [1, 1, 1]\<rparr> \<and>
     dj_force [[(1, 4), (2, 1)], [], [(1, 2)], [(0, 5)]] (dj_new [[(1, 4), (2, 1)], [], [(1, 2)], [(0, 5)]]) 0 = None"
proof -
  let ?g = "[[(1, 4), (2, 1)], [], [(1, 2)], [(0, 5)]] :: adj"
  have "graph_ok ?g" "nonneg ?g" by code_simp+
  then obtain st where d: "dijkstra pick_least ?g (dj_new ?g) 0 = Some st"
    "\<forall>v. 0 \<le> v \<and> v < int (length ?g) \<longrightarrow> distance ?g 0 v (dj_answer st ! nat v)"
    using dijkstra_correct [OF _ _ _ _ pick_least_top, of ?g 0] by force
  have "distance ?g 0 1 (dj_answer st ! 1)" using d(2) [rule_format, of 1] by simp
  moreover note d(1)
  moreover have "dj_force ?g (dj_new ?g) 0 = None" by code_simp
  moreover have "dj_force [[(1, 4), (2, 1)], [], [(1, 2)]] (dj_new [[(1, 4), (2, 1)], [], [(1, 2)]]) 0 =
    Some \<lparr>dj_answer = [0, 3, 1], dj_visit = [1, 1, 1]\<rparr>" by code_simp
  ultimately show ?thesis by simp
qed

end
