(* ===== verification/Spfa.thy ===== *)
theory Spfa
  imports BellmanFord
begin

text \<open>
  \<open>SPFA\<close> of \<open>cpp/algorithm/lib/graph/bellman_ford.h\<close>: Bellman and Ford's relaxation driven by a queue of the vertices
  whose answer has changed, with a count of the edges behind every answer that detects negative cycles.
\<close>

section \<open>The algorithm\<close>

record spfa_state =
  sp_answer :: "int list"
  sp_visit :: "int list"
  sp_count :: "int list"
  sp_queue :: "int list"

fun spfa_edges :: "int \<Rightarrow> (int \<times> int) list \<Rightarrow> spfa_state \<Rightarrow> (bool \<times> spfa_state) option" where
  "spfa_edges u [] s = Some (True, s)"
| "spfa_edges u ((v, w) # es) s =
     do { av \<leftarrow> ivget (sp_answer s) v;
          au \<leftarrow> ivget (sp_answer s) u;
          if av > au + w
          then do {
            a \<leftarrow> ivset (sp_answer s) v (au + w);
            cu \<leftarrow> ivget (sp_count s) u;
            c \<leftarrow> ivset (sp_count s) v (cu + 1);
            if cu + 1 \<ge> int (length a) then Some (False, s\<lparr>sp_answer := a, sp_count := c\<rparr>)
            else do {
              x \<leftarrow> ivget (sp_visit s) v;
              if x = 0
              then do { vis \<leftarrow> ivset (sp_visit s) v 1;
                        spfa_edges u es \<lparr>sp_answer = a, sp_visit = vis, sp_count = c, sp_queue = sp_queue s @ [v]\<rparr> }
              else spfa_edges u es (s\<lparr>sp_answer := a, sp_count := c\<rparr>) } }
          else spfa_edges u es s }"

partial_function (option) spfa_loop :: "adj \<Rightarrow> spfa_state \<Rightarrow> (bool \<times> spfa_state) option" where
  "spfa_loop g s =
     (case sp_queue s of
        [] \<Rightarrow> Some (True, s)
      | u # q \<Rightarrow> do {
          vis \<leftarrow> ivset (sp_visit s) u 0;
          es \<leftarrow> ivget g u;
          (ok, s) \<leftarrow> spfa_edges u es (s\<lparr>sp_visit := vis, sp_queue := q\<rparr>);
          if ok then spfa_loop g s else Some (False, s) })"

definition spfa :: "adj \<Rightarrow> int \<Rightarrow> (int list \<times> bool) option" where
  "spfa g start_node =
     do { a \<leftarrow> ivset (replicate (length g) INT32_MAX) start_node 0;
          vis \<leftarrow> ivset (replicate (length g) 0) start_node 1;
          (ok, s) \<leftarrow> spfa_loop g \<lparr>sp_answer = a, sp_visit = vis, sp_count = replicate (length g) 0, sp_queue = [start_node]\<rparr>;
          Some (sp_answer s, ok) }"

section \<open>The walk behind an answer\<close>

abbreviation vtx :: "adj \<Rightarrow> int \<Rightarrow> bool" where
  "vtx g v \<equiv> 0 \<le> v \<and> v < int (length g)"

lemma vtx_nat: "vtx g v \<Longrightarrow> nat v < length g"
  by (simp add: nat_less_iff)

text \<open>
  Every answer is the cost of a walk of \<open>k\<close> edges whose partial costs are former answers: none is below the present
  answer of its vertex, and they fall strictly from one visit of a vertex to the next.
\<close>

definition trail :: "adj \<Rightarrow> int \<Rightarrow> int list \<Rightarrow> nat \<Rightarrow> (nat \<Rightarrow> int) \<Rightarrow> (nat \<Rightarrow> int) \<Rightarrow> bool" where
  "trail g s a k p f \<longleftrightarrow> p 0 = s \<and> f 0 = 0 \<and> (\<forall>i<k. edge g (p i) (p (Suc i)) (f (Suc i) - f i)) \<and>
     (\<forall>i\<le>k. vtx g (p i) \<and> a ! nat (p i) \<le> f i) \<and> (\<forall>j\<le>k. \<forall>i<j. p i = p j \<longrightarrow> f j < f i)"

lemma trail_mono:
  assumes "trail g s a k p f" "\<And>x. vtx g x \<Longrightarrow> b ! nat x \<le> a ! nat x"
  shows "trail g s b k p f"
  using assms unfolding trail_def by (meson order_trans)

lemma trail_step:
  assumes "trail g s a k p f" "p k = u" "f k = a ! nat u" "edge g u v w" "a ! nat v > a ! nat u + w" "graph_ok g" "length a = length g"
  shows "trail g s (a[nat v := a ! nat u + w]) (Suc k) (p(Suc k := v)) (f(Suc k := a ! nat u + w))"
proof -
  let ?b = "a[nat v := a ! nat u + w]"
  have v: "vtx g v" using edge_ok(3,4) [OF assms(6,4)] by simp
  have le: "?b ! nat x \<le> a ! nat x" if "vtx g x" for x using that v assms(5,7) by (cases "x = v") auto
  have old: "vtx g (p i)" "a ! nat (p i) \<le> f i" if "i \<le> k" for i using assms(1) that unfolding trail_def by blast+
  have A: "vtx g ((p(Suc k := v)) i) \<and> ?b ! nat ((p(Suc k := v)) i) \<le> (f(Suc k := a ! nat u + w)) i" if "i \<le> Suc k" for i
  proof (cases "i = Suc k")
    case False
    then have "i \<le> k" using that by simp
    then show ?thesis using old [of i] le [of "p i"] False by auto
  qed (use v assms(7) in auto)
  have B: "(f(Suc k := a ! nat u + w)) j < (f(Suc k := a ! nat u + w)) i"
    if j: "j \<le> Suc k" "i < j" "(p(Suc k := v)) i = (p(Suc k := v)) j" for i j
  proof (cases "j = Suc k")
    case True
    then have "a ! nat v \<le> f i" using old(2) [of i] j by auto
    then show ?thesis using True j(2) assms(5) by simp
  next
    case False
    then show ?thesis using assms(1) j unfolding trail_def by auto
  qed
  have "edge g (p i) (p (Suc i)) (f (Suc i) - f i)" if "i < k" for i using assms(1) that unfolding trail_def by blast
  then have C: "edge g ((p(Suc k := v)) i) ((p(Suc k := v)) (Suc i)) ((f(Suc k := a ! nat u + w)) (Suc i) - (f(Suc k := a ! nat u + w)) i)" if "i < Suc k" for i
    using that assms(2-4) by (cases "i = k") auto
  have Z: "(p(Suc k := v)) 0 = s" "(f(Suc k := a ! nat u + w)) 0 = 0" using assms(1) by (simp_all add: trail_def)
  have E: "\<forall>i<Suc k. edge g ((p(Suc k := v)) i) ((p(Suc k := v)) (Suc i)) ((f(Suc k := a ! nat u + w)) (Suc i) - (f(Suc k := a ! nat u + w)) i)"
    by (intro allI impI, rule C)
  have V: "\<forall>i\<le>Suc k. vtx g ((p(Suc k := v)) i) \<and> ?b ! nat ((p(Suc k := v)) i) \<le> (f(Suc k := a ! nat u + w)) i"
    by (intro allI impI, rule A)
  have D: "\<forall>j\<le>Suc k. \<forall>i<j. (p(Suc k := v)) i = (p(Suc k := v)) j \<longrightarrow> (f(Suc k := a ! nat u + w)) j < (f(Suc k := a ! nat u + w)) i"
    by (intro allI impI, rule B)
  show ?thesis unfolding trail_def by (rule conjI [OF Z(1) conjI [OF Z(2) conjI [OF E conjI [OF V D]]]])
qed

lemma trailD:
  assumes "trail g s a k p f"
  shows "p 0 = s" "\<forall>i<k. edge g (p i) (p (Suc i)) (f (Suc i) - f i)" "vtx g s"
proof -
  note t = assms [unfolded trail_def]
  show s: "p 0 = s" using t by (elim conjE)
  show "\<forall>i<k. edge g (p i) (p (Suc i)) (f (Suc i) - f i)" using t by (elim conjE)
  have "\<forall>i\<le>k. vtx g (p i) \<and> a ! nat (p i) \<le> f i" using t by (elim conjE)
  from this [THEN spec, of 0] show "vtx g s" using s by simp
qed

lemma trail_walk:
  assumes "trail g s a k p f" "i \<le> j" "j \<le> k"
  shows "walk g (p i) (p j) (j - i) (f j - f i)"
  by (rule subwalk [OF trailD(2) [OF assms(1)] assms(2,3)])

text \<open>A trail of as many edges as there are vertices shows a negative cycle.\<close>

lemma trail_long:
  assumes "trail g s a k p f" "length g \<le> k"
  shows "\<not> no_negative_cycle g s"
proof -
  have "p ` {0..k} \<subseteq> {0..<int (length g)}" using assms(1) unfolding trail_def by auto
  then have "card (p ` {0..k}) \<le> card {0..<int (length g)}" by (intro card_mono) simp_all
  then have "card (p ` {0..k}) < card {0..k}" using assms(2) by simp
  then have "\<not> inj_on p {0..k}" using pigeonhole by blast
  then obtain x y where xy: "x \<le> k" "y \<le> k" "p x = p y" "x \<noteq> y" by (auto simp: inj_on_def)
  define i j where "i = min x y" and "j = max x y"
  have ij: "i < j" "j \<le> k" "p i = p j" using xy by (auto simp: i_def j_def min_def max_def)
  have "walk g s (p i) (i - 0) (f i - f 0)" using trail_walk [OF assms(1), of 0 i] ij assms(1) by (simp add: trail_def)
  moreover have "walk g (p i) (p i) (j - i) (f j - f i)" using trail_walk [OF assms(1), of i j] ij by simp
  moreover have "f j - f i < 0" using assms(1) ij unfolding trail_def by auto
  ultimately show ?thesis unfolding no_negative_cycle_def by (meson not_less)
qed

section \<open>Invariant\<close>

definition sp_walks :: "adj \<Rightarrow> int \<Rightarrow> spfa_state \<Rightarrow> bool" where
  "sp_walks g s st \<longleftrightarrow> (\<forall>v. vtx g v \<longrightarrow> sp_answer st ! nat v \<le> INT32_MAX \<and> (sp_answer st ! nat v = INT32_MAX \<or>
     (\<exists>k p f. trail g s (sp_answer st) k p f \<and> p k = v \<and> f k = sp_answer st ! nat v \<and> sp_count st ! nat v = int k \<and> k < length g)))"

definition sp_shape :: "adj \<Rightarrow> spfa_state \<Rightarrow> bool" where
  "sp_shape g st \<longleftrightarrow> length (sp_answer st) = length g \<and> length (sp_visit st) = length g \<and> length (sp_count st) = length g \<and>
     (\<forall>v\<in>set (sp_queue st). vtx g v \<and> sp_answer st ! nat v \<noteq> INT32_MAX) \<and> (\<forall>v. vtx g v \<longrightarrow> sp_visit st ! nat v \<noteq> 0 \<longrightarrow> v \<in> set (sp_queue st))"

text \<open>Only edges out of queued vertices, and the edges \<open>es\<close> of \<open>u\<close>, may still relax something.\<close>

definition sp_pending :: "adj \<Rightarrow> int \<Rightarrow> (int \<times> int) list \<Rightarrow> spfa_state \<Rightarrow> bool" where
  "sp_pending g u es st \<longleftrightarrow> (\<forall>x v w. edge g x v w \<longrightarrow> sp_answer st ! nat x \<noteq> INT32_MAX \<longrightarrow>
     x \<in> set (sp_queue st) \<or> (x = u \<and> (v, w) \<in> set es) \<or> sp_answer st ! nat v \<le> sp_answer st ! nat x + w)"

definition sp_inv :: "adj \<Rightarrow> int \<Rightarrow> int \<Rightarrow> (int \<times> int) list \<Rightarrow> spfa_state \<Rightarrow> bool" where
  "sp_inv g s u es st \<longleftrightarrow> sp_walks g s st \<and> sp_shape g st \<and> sp_pending g u es st \<and> sp_answer st ! nat s \<le> 0"

text \<open>The sum of the answers falls with every change.\<close>

definition potential :: "spfa_state \<Rightarrow> nat" where
  "potential st = sum_list (map (\<lambda>x. nat (x + INT32_MAX)) (sp_answer st))"

lemma relax_step:
  assumes "sp_inv g s u ((v, w) # es) st" "graph_ok g" "edge g u v w" "sp_answer st ! nat u \<noteq> INT32_MAX"
    "sp_answer st ! nat v > sp_answer st ! nat u + w"
    "a = (sp_answer st)[nat v := sp_answer st ! nat u + w]" "c = (sp_count st)[nat v := sp_count st ! nat u + 1]"
  shows "sp_count st ! nat u + 1 \<ge> int (length g) \<Longrightarrow> \<not> no_negative_cycle g s"
    "\<lbrakk>sp_count st ! nat u + 1 < int (length g); length vis = length g; v \<in> set q; set (sp_queue st) \<subseteq> set q; set q \<subseteq> insert v (set (sp_queue st));
      \<And>x. vtx g x \<Longrightarrow> vis ! nat x \<noteq> 0 \<Longrightarrow> x \<in> set q\<rbrakk> \<Longrightarrow>
      sp_inv g s u es \<lparr>sp_answer = a, sp_visit = vis, sp_count = c, sp_queue = q\<rparr>"
    "sp_count st ! nat u + 1 < int (length g) \<Longrightarrow> potential \<lparr>sp_answer = a, sp_visit = vis, sp_count = c, sp_queue = q\<rparr> < potential st"
    "\<And>x. vtx g x \<Longrightarrow> a ! nat x \<le> sp_answer st ! nat x"
proof -
  let ?a = "sp_answer st" let ?d = "sp_answer st ! nat u + w"
  have shp: "sp_shape g st" using assms(1) by (simp only: sp_inv_def)
  have sh: "length ?a = length g" "length (sp_count st) = length g" using shp by (simp_all only: sp_shape_def)
  have qu: "vtx g x \<and> ?a ! nat x \<noteq> INT32_MAX" if "x \<in> set (sp_queue st)" for x using shp that unfolding sp_shape_def by blast
  have uv: "vtx g u" "vtx g v" using edge_ok(1-4) [OF assms(2,3)] by simp_all
  have ws: "sp_walks g s st" using assms(1) by (simp only: sp_inv_def)
  have wk: "?a ! nat x \<le> INT32_MAX" "?a ! nat x = INT32_MAX \<or> (\<exists>k p f. trail g s ?a k p f \<and> p k = x \<and> f k = ?a ! nat x \<and> sp_count st ! nat x = int k \<and> k < length g)"
    if "vtx g x" for x using ws that unfolding sp_walks_def by blast+
  obtain k p f where t: "trail g s ?a k p f" "p k = u" "f k = ?a ! nat u" "sp_count st ! nat u = int k" using wk(2) [OF uv(1)] assms(4) by blast
  have nv: "trail g s a (Suc k) (p(Suc k := v)) (f(Suc k := ?d))" unfolding assms(6) by (rule trail_step [OF t(1-3) assms(3,5,2) sh(1)])
  have el: "a ! nat x = (if x = v then ?d else ?a ! nat x)" "c ! nat x = (if x = v then int (Suc k) else sp_count st ! nat x)" if "vtx g x" for x
    using that uv(2) sh t(4) unfolding assms(6,7) by (auto simp: nth_list_update)
  show le: "a ! nat x \<le> ?a ! nat x" if "vtx g x" for x using el(1) [OF that] assms(5) by auto
  show "\<not> no_negative_cycle g s" if "sp_count st ! nat u + 1 \<ge> int (length g)" using trail_long [OF nv] that t(4) by simp
  assume lt: "sp_count st ! nat u + 1 < int (length g)"
  then have kn: "Suc k < length g" using t(4) by simp
  have dm: "?d \<noteq> INT32_MAX" using assms(5) wk(1) [OF uv(2)] by simp
  have walks: "a ! nat x \<le> INT32_MAX \<and> (a ! nat x = INT32_MAX \<or> (\<exists>k p f. trail g s a k p f \<and> p k = x \<and> f k = a ! nat x \<and> c ! nat x = int k \<and> k < length g))"
    if x: "vtx g x" for x
  proof (cases "x = v")
    case True
    have "(p(Suc k := v)) (Suc k) = x" "(f(Suc k := ?d)) (Suc k) = a ! nat x" "c ! nat x = int (Suc k)" using el [OF x] True by simp_all
    moreover have "a ! nat x \<le> INT32_MAX" using le [OF x] wk(1) [OF x] by simp
    ultimately show ?thesis using nv kn by blast
  next
    case False
    then show ?thesis using wk [OF x] el [OF x] trail_mono [OF _ le] by auto
  qed
  show "potential \<lparr>sp_answer = a, sp_visit = vis, sp_count = c, sp_queue = q\<rparr> < potential st"
  proof -
    have "\<bar>?d\<bar> < INT32_MAX"
    proof -
      have "walk g s v (Suc k) ?d" using trail_walk [OF nv, of 0 "Suc k"] nv by (simp add: trail_def)
      then show ?thesis using short_walk_cheap [OF assms(2) _ kn] by blast
    qed
    then have lt: "nat (?d + INT32_MAX) < nat (?a ! nat v + INT32_MAX)" using assms(5) by (auto simp: nat_less_iff)
    define F where "F = (\<lambda>x. nat (x + INT32_MAX))"
    have i: "nat v < length ?a" using uv(2) sh(1) by (simp add: nat_less_iff)
    have "F (?a ! nat v) \<le> sum_list (map F ?a)" using i by (intro member_le_sum_list) simp_all
    moreover have "sum_list (map F a) = sum_list (map F ?a) + F ?d - F (?a ! nat v)"
      unfolding assms(6) map_update using i by (subst sum_list_update) simp_all
    moreover have "F ?d < F (?a ! nat v)" using lt by (simp only: F_def)
    ultimately show ?thesis unfolding potential_def F_def [symmetric] by simp
  qed
  assume vis: "length vis = length g" "v \<in> set q" "set (sp_queue st) \<subseteq> set q" "set q \<subseteq> insert v (set (sp_queue st))"
    "\<And>x. vtx g x \<Longrightarrow> vis ! nat x \<noteq> 0 \<Longrightarrow> x \<in> set q"
  let ?st = "\<lparr>sp_answer = a, sp_visit = vis, sp_count = c, sp_queue = q\<rparr>"
  have Q: "0 \<le> x" "x < int (length g)" "a ! nat x \<noteq> INT32_MAX" if "x \<in> set q" for x
    using qu [of x] vis(4) that el(1) [of x] uv(2) dm by (cases "x = v"; auto)+
  have len: "length a = length g" "length c = length g" using sh by (simp_all add: assms(6,7))
  have V: "\<forall>x. vtx g x \<longrightarrow> vis ! nat x \<noteq> 0 \<longrightarrow> x \<in> set q" by (intro allI impI) (rule vis(5))
  have shape: "sp_shape g ?st" unfolding sp_shape_def spfa_state.simps by (intro conjI len vis(1) V ballI Q)
  have pend: "sp_pending g u es ?st" unfolding sp_pending_def spfa_state.simps
  proof (intro allI impI)
    fix x y z assume e: "edge g x y z" "a ! nat x \<noteq> INT32_MAX"
    have xy: "vtx g x" "vtx g y" using edge_ok(1-4) [OF assms(2) e(1)] by simp_all
    show "x \<in> set q \<or> (x = u \<and> (y, z) \<in> set es) \<or> a ! nat y \<le> a ! nat x + z"
    proof (cases "x = v")
      case False
      then have ax: "a ! nat x = ?a ! nat x" using el(1) [OF xy(1)] by simp
      have "sp_pending g u ((v, w) # es) st" using assms(1) unfolding sp_inv_def by simp
      then have "?a ! nat x \<noteq> INT32_MAX \<longrightarrow> x \<in> set (sp_queue st) \<or> (x = u \<and> (y, z) \<in> set ((v, w) # es)) \<or> ?a ! nat y \<le> ?a ! nat x + z"
        using e(1) unfolding sp_pending_def by simp
      then consider "x \<in> set (sp_queue st)" | "x = u" "(y, z) \<in> set es" | "x = u" "y = v" "z = w" | "?a ! nat y \<le> ?a ! nat x + z" using e(2) ax by auto
      then show ?thesis
      proof cases
        case 1 then show ?thesis using vis(3) by (simp add: subset_iff)
      next
        case 3 then show ?thesis using el(1) [OF uv(2)] ax by simp
      next
        case 4 then show ?thesis using le [OF xy(2)] ax by simp
      qed simp
    qed (use vis(2) in simp)
  qed
  have "a ! nat s \<le> ?a ! nat s" by (rule le [OF trailD(3) [OF t(1)]])
  then have "a ! nat s \<le> 0" using assms(1) unfolding sp_inv_def by simp
  then show "sp_inv g s u es ?st" using shape pend walks unfolding sp_inv_def sp_walks_def by simp
qed

lemma sp_invD:
  assumes "sp_inv g s u es st"
  shows "sp_walks g s st" "sp_shape g st" "sp_pending g u es st" "sp_answer st ! nat s \<le> 0"
  using assms by (simp_all only: sp_inv_def)

lemma sp_shapeD:
  assumes "sp_shape g st"
  shows "length (sp_answer st) = length g" "length (sp_visit st) = length g" "length (sp_count st) = length g"
    "x \<in> set (sp_queue st) \<Longrightarrow> vtx g x" "x \<in> set (sp_queue st) \<Longrightarrow> sp_answer st ! nat x \<noteq> INT32_MAX"
    "vtx g x \<Longrightarrow> sp_visit st ! nat x \<noteq> 0 \<Longrightarrow> x \<in> set (sp_queue st)"
proof -
  note sh = assms [unfolded sp_shape_def]
  show "length (sp_answer st) = length g" using sh by (elim conjE)
  show "length (sp_visit st) = length g" using sh by (elim conjE)
  show "length (sp_count st) = length g" using sh by (elim conjE)
  show "vtx g x" "sp_answer st ! nat x \<noteq> INT32_MAX" if "x \<in> set (sp_queue st)" using sh that by blast+
  show "x \<in> set (sp_queue st)" if "vtx g x" "sp_visit st ! nat x \<noteq> 0" using sh that by blast
qed

lemma sp_pending_skip:
  assumes "sp_inv g s u ((v, w) # es) st" "\<not> sp_answer st ! nat v > sp_answer st ! nat u + w"
  shows "sp_inv g s u es st"
proof -
  have "sp_pending g u es st" unfolding sp_pending_def
  proof (intro allI impI)
    fix x y z assume "edge g x y z" "sp_answer st ! nat x \<noteq> INT32_MAX"
    then have "x \<in> set (sp_queue st) \<or> (x = u \<and> (y, z) \<in> set ((v, w) # es)) \<or> sp_answer st ! nat y \<le> sp_answer st ! nat x + z"
      using sp_invD(3) [OF assms(1)] unfolding sp_pending_def by blast
    then show "x \<in> set (sp_queue st) \<or> (x = u \<and> (y, z) \<in> set es) \<or> sp_answer st ! nat y \<le> sp_answer st ! nat x + z"
      using assms(2) by auto
  qed
  then show ?thesis unfolding sp_inv_def by (intro conjI sp_invD [OF assms(1)])
qed

text \<open>What one pass over the edges of a vertex achieves: a negative cycle is found, or nothing is left pending.\<close>

definition sp_done :: "adj \<Rightarrow> int \<Rightarrow> int \<Rightarrow> spfa_state \<Rightarrow> bool \<Rightarrow> spfa_state \<Rightarrow> bool" where
  "sp_done g s u st ok st' \<longleftrightarrow> (if ok then sp_inv g s u [] st' \<and> (potential st' < potential st \<or> potential st' = potential st \<and> sp_queue st' = sp_queue st)
     else \<not> no_negative_cycle g s)"

lemma sp_done_trans: "sp_done g s u b ok st \<Longrightarrow> potential b < potential a \<Longrightarrow> sp_done g s u a ok st"
  unfolding sp_done_def by (cases ok) auto

lemma spfa_edges_ok:
  "sp_inv g s u es st \<Longrightarrow> graph_ok g \<Longrightarrow> vtx g u \<Longrightarrow> sp_answer st ! nat u \<noteq> INT32_MAX \<Longrightarrow> set es \<subseteq> set (g ! nat u) \<Longrightarrow>
     \<exists>ok st'. spfa_edges u es st = Some (ok, st') \<and> sp_done g s u st ok st'"
proof (induction es arbitrary: st)
  case Nil
  then have "sp_done g s u st True st" by (simp add: sp_done_def)
  then show ?case by auto
next
  case (Cons e es)
  obtain v w where e: "e = (v, w)" by (cases e)
  note inv = Cons.prems(1) [unfolded e]
  have ed: "edge g u v w" using Cons.prems(3,5) e by (auto simp: edge_def)
  have v: "vtx g v" using edge_ok(3,4) [OF Cons.prems(2) ed] by simp
  note sh = sp_shapeD [OF sp_invD(2) [OF inv]]
  let ?d = "sp_answer st ! nat u + w"
  have get: "ivget (sp_answer st) v = Some (sp_answer st ! nat v)" "ivget (sp_answer st) u = Some (sp_answer st ! nat u)"
    "ivget (sp_count st) u = Some (sp_count st ! nat u)" "ivget (sp_visit st) v = Some (sp_visit st ! nat v)"
    using v Cons.prems(3) sh(1-3) vtx_nat [OF v] vtx_nat [OF Cons.prems(3)] by simp_all
  have sub: "set es \<subseteq> set (g ! nat u)" using Cons.prems(5) by auto
  show ?case
  proof (cases "sp_answer st ! nat v > ?d")
    case False
    then show ?thesis using Cons.IH [OF sp_pending_skip [OF inv False] Cons.prems(2-4) sub] e get by simp
  next
    case True
    define a c where "a = (sp_answer st)[nat v := ?d]" and "c = (sp_count st)[nat v := sp_count st ! nat u + 1]"
    note step = relax_step [OF inv Cons.prems(2) ed Cons.prems(4) True a_def c_def]
    have put: "ivset (sp_answer st) v ?d = Some a" "ivset (sp_count st) v (sp_count st ! nat u + 1) = Some c" "length a = length g"
      using v sh(1,3) vtx_nat [OF v] by (simp_all add: a_def c_def)
    have "sp_answer st ! nat u \<le> INT32_MAX" using sp_invD(1) [OF inv] Cons.prems(3) unfolding sp_walks_def by blast
    then have au: "a ! nat u \<noteq> INT32_MAX" using step(4) [OF Cons.prems(3)] Cons.prems(4) by simp
    show ?thesis
    proof (cases "sp_count st ! nat u + 1 \<ge> int (length g)")
      case neg: True
      then show ?thesis using step(1) [OF neg] e get put True by (auto simp: sp_done_def)
    next
      case False
      then have lt: "sp_count st ! nat u + 1 < int (length g)" by simp
      define vis where "vis = (if sp_visit st ! nat v = 0 then (sp_visit st)[nat v := 1] else sp_visit st)"
      define q where "q = (if sp_visit st ! nat v = 0 then sp_queue st @ [v] else sp_queue st)"
      let ?t = "\<lparr>sp_answer = a, sp_visit = vis, sp_count = c, sp_queue = q\<rparr>"
      have vq: "v \<in> set q" using sh(6) [OF v] by (auto simp: q_def)
      have seen: "x \<in> set q" if x: "vtx g x" "vis ! nat x \<noteq> 0" for x
      proof (cases "x = v \<or> sp_visit st ! nat x \<noteq> 0")
        case True
        then show ?thesis using vq sh(6) [OF x(1)] by (auto simp: q_def)
      next
        case False
        then show ?thesis using x v by (auto simp: vis_def split: if_splits)
      qed
      have qs: "set (sp_queue st) \<subseteq> set q" "set q \<subseteq> insert v (set (sp_queue st))" "length vis = length g"
        using sh(2) by (auto simp: q_def vis_def)
      have "sp_inv g s u es ?t" by (rule step(2) [OF lt qs(3) vq qs(1,2) seen])
      then obtain ok st' where r: "spfa_edges u es ?t = Some (ok, st')" "sp_done g s u ?t ok st'"
        using Cons.IH [of ?t] Cons.prems(2,3) au sub by auto
      have "spfa_edges u (e # es) st = spfa_edges u es ?t"
      proof (cases "sp_visit st ! nat v = 0")
        case True
        then have "ivset (sp_visit st) v 1 = Some vis" using v sh(2) vtx_nat [OF v] by (simp add: vis_def)
        then show ?thesis using e get put \<open>sp_answer st ! nat v > ?d\<close> lt True by (simp add: q_def)
      next
        case False
        have "?t = st\<lparr>sp_answer := a, sp_count := c\<rparr>" using False by (simp add: vis_def q_def)
        then show ?thesis using e get put \<open>sp_answer st ! nat v > ?d\<close> lt False by simp
      qed
      then show ?thesis using r(1) sp_done_trans [OF r(2) step(3) [OF lt]] by simp
    qed
  qed
qed

section \<open>The queue\<close>

lemma sp_pop:
  assumes "sp_inv g s y [] st" "sp_queue st = u # q"
  shows "sp_inv g s u (g ! nat u) (st\<lparr>sp_visit := (sp_visit st)[nat u := 0], sp_queue := q\<rparr>)"
proof -
  let ?t = "st\<lparr>sp_visit := (sp_visit st)[nat u := 0], sp_queue := q\<rparr>"
  note sh = sp_shapeD [OF sp_invD(2) [OF assms(1)]]
  have u: "vtx g u" using sh(4) assms(2) by simp
  have "x \<in> set q" if x: "vtx g x" "(sp_visit st)[nat u := 0] ! nat x \<noteq> 0" for x
  proof -
    have "x \<noteq> u" using x(2) u sh(2) by auto
    then have "nat x \<noteq> nat u" using x(1) u by auto
    then have "sp_visit st ! nat x \<noteq> 0" using x(2) by simp
    then show ?thesis using sh(6) [OF x(1)] assms(2) \<open>x \<noteq> u\<close> by simp
  qed
  then have V: "\<forall>x. vtx g x \<longrightarrow> (sp_visit st)[nat u := 0] ! nat x \<noteq> 0 \<longrightarrow> x \<in> set q" by blast
  have Q: "vtx g x" "sp_answer st ! nat x \<noteq> INT32_MAX" if "x \<in> set q" for x using sh(4,5) [of x] that assms(2) by simp_all
  have B: "\<forall>x\<in>set q. vtx g x \<and> sp_answer st ! nat x \<noteq> INT32_MAX" using Q by blast
  have L: "length ((sp_visit st)[nat u := 0]) = length g" using sh(2) by simp
  have "sp_queue ?t = q" "sp_visit ?t = (sp_visit st)[nat u := 0]" "sp_answer ?t = sp_answer st" "sp_count ?t = sp_count st" by simp_all
  then have shape: "sp_shape g ?t" unfolding sp_shape_def by (simp only:) (intro conjI sh(1,3) L V B)
  have pend: "sp_pending g u (g ! nat u) ?t" unfolding sp_pending_def
  proof (intro allI impI)
    fix x v w assume e: "edge g x v w" "sp_answer ?t ! nat x \<noteq> INT32_MAX"
    then have "x \<in> set (sp_queue st) \<or> sp_answer st ! nat v \<le> sp_answer st ! nat x + w"
      using sp_invD(3) [OF assms(1)] unfolding sp_pending_def by simp
    then show "x \<in> set (sp_queue ?t) \<or> (x = u \<and> (v, w) \<in> set (g ! nat u)) \<or> sp_answer ?t ! nat v \<le> sp_answer ?t ! nat x + w"
      using assms(2) e(1) by (auto simp: edge_def)
  qed
  have "sp_walks g s ?t" using sp_invD(1) [OF assms(1)] unfolding sp_walks_def by simp
  then show ?thesis using shape pend sp_invD(4) [OF assms(1)] unfolding sp_inv_def by simp
qed

lemma spfa_loop_ok:
  assumes "graph_ok g"
  shows "sp_inv g s y [] st \<Longrightarrow> \<exists>ok st'. spfa_loop g st = Some (ok, st') \<and>
     (if ok then (\<exists>y. sp_inv g s y [] st') \<and> sp_queue st' = [] else \<not> no_negative_cycle g s)"
proof (induction st arbitrary: y rule: wf_induct_rule [OF wf_measures [of "[potential, \<lambda>st. length (sp_queue st)]"]])
  case (1 st)
  show ?case
  proof (cases "sp_queue st")
    case Nil
    then show ?thesis using "1.prems" by (subst spfa_loop.simps) auto
  next
    case (Cons u q)
    let ?t = "st\<lparr>sp_visit := (sp_visit st)[nat u := 0], sp_queue := q\<rparr>"
    note sh = sp_shapeD [OF sp_invD(2) [OF "1.prems"]]
    have u: "vtx g u" "sp_answer st ! nat u \<noteq> INT32_MAX" using sh(4,5) [of u] Cons by simp_all
    have "\<exists>ok st'. spfa_edges u (g ! nat u) ?t = Some (ok, st') \<and> sp_done g s u ?t ok st'"
      by (rule spfa_edges_ok [OF sp_pop [OF "1.prems" Cons] assms u(1)]) (use u(2) in simp_all)
    then obtain ok t where r: "spfa_edges u (g ! nat u) ?t = Some (ok, t)" "sp_done g s u ?t ok t" by blast
    have "spfa_loop g st = (if ok then spfa_loop g t else Some (False, t))"
    proof -
      have "ivset (sp_visit st) u 0 = Some ((sp_visit st)[nat u := 0])" "ivget g u = Some (g ! nat u)" using u(1) sh(2) vtx_nat [OF u(1)] by simp_all
      then show ?thesis using Cons r(1) by (subst spfa_loop.simps) simp
    qed
    moreover have "(t, st) \<in> measures [potential, \<lambda>st. length (sp_queue st)]" if ok
      using r(2) that Cons by (auto simp: sp_done_def potential_def)
    ultimately show ?thesis using "1.IH" [of t u] r(2) by (cases ok) (auto simp: sp_done_def)
  qed
qed

text \<open>The state the loop starts from.\<close>

lemma spfa_start:
  assumes "0 \<le> s" "s < int (length g)"
  defines "st \<equiv> \<lparr>sp_answer = (replicate (length g) INT32_MAX)[nat s := 0], sp_visit = (replicate (length g) 0)[nat s := 1],
    sp_count = replicate (length g) 0, sp_queue = [s]\<rparr>"
  shows "sp_inv g s y [] st"
proof -
  note el = start_ok(4) [OF assms(1,2)]
  have M: "(0::int) < INT32_MAX" by (simp add: INT32_MAX_def)
  have "trail g s (sp_answer st) 0 (\<lambda>_. s) (\<lambda>_. 0)" unfolding trail_def using assms(1,2) el by (simp add: st_def)
  moreover have "sp_count st ! nat s = int 0" "0 < length g" using assms(1,2) vtx_nat [of s g] by (auto simp: st_def)
  ultimately have "sp_walks g s st" unfolding sp_walks_def
  proof (intro allI impI)
    fix v assume v: "vtx g v"
    show "sp_answer st ! nat v \<le> INT32_MAX \<and> (sp_answer st ! nat v = INT32_MAX \<or>
     (\<exists>k p f. trail g s (sp_answer st) k p f \<and> p k = v \<and> f k = sp_answer st ! nat v \<and> sp_count st ! nat v = int k \<and> k < length g))"
    proof (cases "v = s")
      case True
      then have "sp_answer st ! nat v = 0" using el v by (simp add: st_def)
      then show ?thesis using True M \<open>trail g s (sp_answer st) 0 (\<lambda>_. s) (\<lambda>_. 0)\<close> \<open>sp_count st ! nat s = int 0\<close> \<open>0 < length g\<close> by auto
    next
      case False
      then show ?thesis using el v by (simp add: st_def)
    qed
  qed
  moreover have "sp_shape g st" unfolding sp_shape_def using assms(1,2) el M by (auto simp: st_def nth_list_update)
  moreover have "sp_pending g y [] st" unfolding sp_pending_def using el by (auto simp: st_def edge_def)
  ultimately show ?thesis unfolding sp_inv_def using el assms(1,2) by (simp add: st_def)
qed

section \<open>Correctness\<close>

lemma spfa_distances:
  assumes "graph_ok g" "0 \<le> s" "s < int (length g)"
  shows "\<exists>a ok. spfa g s = Some (a, ok) \<and> (ok \<longleftrightarrow> no_negative_cycle g s) \<and>
    (ok \<longrightarrow> (\<forall>v. 0 \<le> v \<and> v < int (length g) \<longrightarrow> distance g s v (a ! nat v)))"
proof -
  obtain ok st where r: "spfa_loop g \<lparr>sp_answer = (replicate (length g) INT32_MAX)[nat s := 0], sp_visit = (replicate (length g) 0)[nat s := 1],
      sp_count = replicate (length g) 0, sp_queue = [s]\<rparr> = Some (ok, st)"
    "if ok then (\<exists>y. sp_inv g s y [] st) \<and> sp_queue st = [] else \<not> no_negative_cycle g s"
    using spfa_loop_ok [OF assms(1) spfa_start [OF assms(2,3)]] by blast
  have run: "spfa g s = Some (sp_answer st, ok)" using r(1) assms(2,3) by (simp add: spfa_def)
  show ?thesis
  proof (cases ok)
    case True
    then obtain y where inv: "sp_inv g s y [] st" and q: "sp_queue st = []" using r(2) by auto
    have cl: "closed g (sp_answer st)" using sp_invD(3) [OF inv] q unfolding sp_pending_def closed_def by simp
    have snd: "sound g s (sp_answer st)" unfolding sound_def
    proof (intro conjI allI impI)
      fix v assume v: "vtx g v"
      show "sp_answer st ! nat v \<le> INT32_MAX" using sp_invD(1) [OF inv] v unfolding sp_walks_def by blast
      show "sp_answer st ! nat v = INT32_MAX \<or> (\<exists>k. walk g s v k (sp_answer st ! nat v))"
      proof (cases "sp_answer st ! nat v = INT32_MAX")
        case False
        then obtain k p f where t: "trail g s (sp_answer st) k p f" "p k = v" "f k = sp_answer st ! nat v"
          using sp_invD(1) [OF inv] v unfolding sp_walks_def by blast
        have "f 0 = 0" using t(1) unfolding trail_def by (elim conjE)
        then have "walk g s v k (sp_answer st ! nat v)" using trail_walk [OF t(1), of 0 k] t(2,3) trailD(1) [OF t(1)] by simp
        then show ?thesis by blast
      qed simp
    qed (rule sp_shapeD(1) [OF sp_invD(2) [OF inv]])
    note c = cl assms(1) snd sp_invD(4) [OF inv] assms(2,3)
    show ?thesis using run True closed_no_negative_cycle [OF c] closed_distance [OF c] by blast
  qed (use r(2) run in auto)
qed

text \<open>
  C15. Shortest paths with negative weights. Build a graph of \<open>n\<close> vertices from an edge list whose entries name vertices
  between 1 and \<open>n\<close> and whose weights are small enough that \<open>n\<close> edges cost less than \<open>INT32_MAX\<close>: the constructor
  stores exactly the edges of the list, with vertices counted from 0. Started at one of its vertices,
  \<open>BellmanFord::operator()\<close> and \<open>SPFA::operator()\<close> both return and never leave their vectors. The first returns false,
  and the second true, exactly when no cycle of negative cost can be reached from the start; then both give every vertex
  that can be reached the cost of its cheapest walk, and every other vertex \<open>INT32_MAX\<close>.
\<close>

theorem shortest_paths_correct:
  assumes "list_all (entry_small n) vec" "0 \<le> s" "s < int n"
  shows "\<exists>g a cycle b ok. graph_new vec n = Some g \<and> length g = n \<and> (\<forall>u v w. edge g u v w \<longleftrightarrow> (u, v, w) \<in> entry_edge ` set vec) \<and>
    bellman_ford g s = Some (a, cycle) \<and> spfa g s = Some (b, ok) \<and>
    (cycle \<longleftrightarrow> \<not> no_negative_cycle g s) \<and> (ok \<longleftrightarrow> no_negative_cycle g s) \<and>
    (no_negative_cycle g s \<longrightarrow> (\<forall>v. 0 \<le> v \<and> v < int n \<longrightarrow> distance g s v (a ! nat v) \<and> distance g s v (b ! nat v)))"
proof -
  obtain g where g: "graph_new vec n = Some g" "length g = n" "graph_ok g" "\<forall>u v w. edge g u v w \<longleftrightarrow> (u, v, w) \<in> entry_edge ` set vec"
    using graph_new_ok [OF assms(1)] by (elim exE conjE)
  have s: "s < int (length g)" using assms(3) g(2) by simp
  note bf = bellman_ford_distances [OF g(3) assms(2) s] and sp = spfa_distances [OF g(3) assms(2) s]
  show ?thesis by (rule exI [of _ g]) (use bf sp g(1,2,4) in \<open>elim exE conjE, simp\<close>)
qed

theorem shortest_paths_correct_witness:
  "\<exists>g a b. graph_new [[1, 2, 4], [1, 3, 1], [3, 2, - 2]] 4 = Some g \<and> bellman_ford g 0 = Some (a, False) \<and> spfa g 0 = Some (b, True) \<and>
     edge g 2 1 (- 2) \<and> distance g 0 1 (a ! 1) \<and> distance g 0 3 (b ! 3)"
proof -
  let ?vec = "[[1, 2, 4], [1, 3, 1], [3, 2, - 2]] :: int list list"
  let ?g = "[[(1, 4), (2, 1)], [], [(1, - 2)], []] :: adj"
  have new: "graph_new ?vec 4 = Some ?g" by code_simp
  have bf: "bellman_ford ?g 0 = Some ([0, - 1, 1, INT32_MAX], False)" by code_simp
  have e: "(2, 1, - 2) \<in> entry_edge ` set ?vec" by (simp add: entry_edge_def)
  have ok: "list_all (entry_small 4) ?vec" by (simp add: entry_small_def entry_ok_def INT32_MAX_def)
  have z: "0 \<le> (0::int)" "0 < int 4" by simp_all
  obtain g a cycle b r where g: "graph_new ?vec 4 = Some g" "\<forall>u v w. edge g u v w \<longleftrightarrow> (u, v, w) \<in> entry_edge ` set ?vec"
    "bellman_ford g 0 = Some (a, cycle)" "spfa g 0 = Some (b, r)" "cycle \<longleftrightarrow> \<not> no_negative_cycle g 0" "r \<longleftrightarrow> no_negative_cycle g 0"
    "no_negative_cycle g 0 \<longrightarrow> (\<forall>v. 0 \<le> v \<and> v < int 4 \<longrightarrow> distance g 0 v (a ! nat v) \<and> distance g 0 v (b ! nat v))"
    using shortest_paths_correct [OF ok z] by (elim exE conjE)
  have "g = ?g" using g(1) new by simp
  then have c: "\<not> cycle" using g(3) bf by simp
  then have d: "distance g 0 v (a ! nat v) \<and> distance g 0 v (b ! nat v)" if "0 \<le> v \<and> v < int 4" for v using g(5,7) that by blast
  have "edge g 2 1 (- 2)" using g(2) e by blast
  then show ?thesis using g(1,3,4) c g(5,6) d [of 1] d [of 3] by simp
qed

end
