(* ===== verification/Topo.thy ===== *)
theory Topo
  imports Prelude
begin

text \<open>
  \<open>cpp/algorithm/lib/graph/topological_sort.h\<close>: Kahn's algorithm with a queue. The object keeps its \<open>answer\<close> between
  calls; the in-degrees are passed by value.
\<close>

section \<open>The algorithm\<close>

fun topo_targets :: "int list \<Rightarrow> int list \<Rightarrow> int list \<Rightarrow> (int list \<times> int list) option" where
  "topo_targets [] inn q = Some (inn, q)"
| "topo_targets (v # vs) inn q =
     do { x \<leftarrow> ivget inn v;
          inn \<leftarrow> ivset inn v (x - 1);
          topo_targets vs inn (if x - 1 = 0 then q @ [v] else q) }"

partial_function (option) topo_loop :: "int list list \<Rightarrow> int list \<Rightarrow> int list \<Rightarrow> int list \<Rightarrow> int list option" where
  "topo_loop g inn q answer =
     (case q of [] \<Rightarrow> Some answer
      | u # q \<Rightarrow> do {
          vs \<leftarrow> ivget g u;
          (inn, q) \<leftarrow> topo_targets vs inn q;
          topo_loop g inn q (answer @ [u]) })"

definition topo_sources :: "int list \<Rightarrow> int list" where
  "topo_sources inn = filter (\<lambda>v. inn ! nat v = 0) [0..int (length inn) - 1]"

definition topo_sort :: "int list \<Rightarrow> int list list \<Rightarrow> int list \<Rightarrow> (int list \<times> bool) option" where
  "topo_sort inn g answer =
     do { answer \<leftarrow> topo_loop g inn (topo_sources inn) answer;
          Some (answer, length answer = length g) }"

section \<open>In-degrees\<close>

definition arcs :: "int list list \<Rightarrow> (int \<times> int) set" where
  "arcs g = {(u, v). 0 \<le> u \<and> u < int (length g) \<and> v \<in> set (g ! nat u)}"

text \<open>The arcs into \<open>v\<close> that do not start in \<open>A\<close>.\<close>

definition arcs_from_rest :: "int list list \<Rightarrow> int set \<Rightarrow> int \<Rightarrow> int" where
  "arcs_from_rest g A v = (\<Sum>u\<in>{0..<int (length g)} - A. int (count_list (g ! nat u) v))"

definition digraph_ok :: "int list list \<Rightarrow> bool" where
  "digraph_ok g \<longleftrightarrow> (\<forall>vs\<in>set g. \<forall>v\<in>set vs. 0 \<le> v \<and> v < int (length g))"

definition in_degrees :: "int list list \<Rightarrow> int list" where
  "in_degrees g = map (\<lambda>v. int (sum_list (map (\<lambda>vs. count_list vs (int v)) g))) [0..<length g]"

lemma digraph_target: "digraph_ok g \<Longrightarrow> 0 \<le> u \<Longrightarrow> u < int (length g) \<Longrightarrow> v \<in> set (g ! nat u) \<Longrightarrow> 0 \<le> v \<and> v < int (length g)"
  unfolding digraph_ok_def using nth_mem [of "nat u" g] by auto

lemma rest_nonneg: "0 \<le> arcs_from_rest g A v"
  by (simp add: arcs_from_rest_def sum_nonneg)

lemma rest_zero: "arcs_from_rest g A v = 0 \<longleftrightarrow> (\<forall>u. (u, v) \<in> arcs g \<longrightarrow> u \<in> A)"
proof -
  have "arcs_from_rest g A v = 0 \<longleftrightarrow> (\<forall>u\<in>{0..<int (length g)} - A. int (count_list (g ! nat u) v) = 0)"
    unfolding arcs_from_rest_def by (rule sum_nonneg_eq_0_iff) simp_all
  also have "\<dots> \<longleftrightarrow> (\<forall>u. (u, v) \<in> arcs g \<longrightarrow> u \<in> A)"
    by (auto simp: arcs_def count_list_0_iff)
  finally show ?thesis .
qed

lemma rest_insert:
  assumes "0 \<le> u" "u < int (length g)" "u \<notin> A"
  shows "arcs_from_rest g A v = int (count_list (g ! nat u) v) + arcs_from_rest g (insert u A) v"
proof -
  have s: "{0..<int (length g)} - A = insert u ({0..<int (length g)} - insert u A)" using assms by auto
  show ?thesis unfolding arcs_from_rest_def s by simp
qed

lemma in_degrees_rest: "v < length g \<Longrightarrow> in_degrees g ! v = arcs_from_rest g {} (int v)"
proof -
  assume v: "v < length g"
  have "(\<Sum>u\<in>{0..<int (length g)}. int (count_list (g ! nat u) (int v))) = (\<Sum>i<length g. int (count_list (g ! i) (int v)))"
    by (rule sum.reindex_bij_witness [of _ int nat]) auto
  then show ?thesis
    using v by (simp add: in_degrees_def arcs_from_rest_def sum_list_sum_nth atLeast0LessThan)
qed

section \<open>One vertex\<close>

lemma targets_ok:
  "length inn = n \<Longrightarrow> \<forall>v\<in>set vs. 0 \<le> v \<and> v < int n \<Longrightarrow> \<forall>v. 0 \<le> v \<and> v < int n \<longrightarrow> int (count_list vs v) \<le> inn ! nat v \<Longrightarrow>
     \<exists>inn' new. topo_targets vs inn q = Some (inn', q @ new) \<and> length inn' = n \<and> distinct new \<and>
       (\<forall>v. 0 \<le> v \<and> v < int n \<longrightarrow> inn' ! nat v = inn ! nat v - int (count_list vs v)) \<and>
       set new = {v. 0 \<le> v \<and> v < int n \<and> 0 < inn ! nat v \<and> inn' ! nat v = 0}"
proof (induction vs arbitrary: inn q)
  case (Cons v vs)
  let ?x = "inn ! nat v" let ?inn = "inn[nat v := ?x - 1]"
  have v: "0 \<le> v" "v < int n" using Cons.prems(2) by simp_all
  have x: "1 + int (count_list vs v) \<le> ?x" using Cons.prems(3) v by force
  have upd: "?inn ! nat u = (if u = v then ?x - 1 else inn ! nat u)" if "0 \<le> u" "u < int n" for u
    using that v Cons.prems(1) by (auto simp: nth_list_update)
  have dec: "\<forall>u. 0 \<le> u \<and> u < int n \<longrightarrow> int (count_list vs u) \<le> ?inn ! nat u"
  proof (intro allI impI)
    fix u assume u: "0 \<le> u \<and> u < int n"
    then show "int (count_list vs u) \<le> ?inn ! nat u" using upd [of u] Cons.prems(3) x by (cases "u = v") auto
  qed
  let ?q = "if ?x - 1 = 0 then q @ [v] else q"
  obtain inn' new where r: "topo_targets vs ?inn ?q = Some (inn', ?q @ new)" "length inn' = n" "distinct new"
    "\<forall>u. 0 \<le> u \<and> u < int n \<longrightarrow> inn' ! nat u = ?inn ! nat u - int (count_list vs u)"
    "set new = {u. 0 \<le> u \<and> u < int n \<and> 0 < ?inn ! nat u \<and> inn' ! nat u = 0}"
    using Cons.IH [of ?inn ?q] Cons.prems(1,2) dec by auto
  let ?new = "if ?x - 1 = 0 then v # new else new"
  have run: "topo_targets (v # vs) inn q = Some (inn', q @ ?new)" using r(1) v Cons.prems(1) by simp
  have cnt: "inn' ! nat u = inn ! nat u - int (count_list (v # vs) u)" if "0 \<le> u" "u < int n" for u
    using r(4) upd [OF that] that by auto
  have vnew: "v \<notin> set new" if "?x = 1" using r(5) upd [OF v] that by simp
  have "u \<in> set ?new \<longleftrightarrow> 0 \<le> u \<and> u < int n \<and> 0 < inn ! nat u \<and> inn' ! nat u = 0" for u
  proof (cases "u = v")
    case True
    have "inn' ! nat v = ?x - 1 - int (count_list vs v)" using r(4) v upd [OF v] by simp
    moreover have "v \<in> set new \<longleftrightarrow> 0 < ?x - 1 \<and> inn' ! nat v = 0" using r(5) v upd [OF v] by simp
    ultimately have "v \<in> set ?new \<longleftrightarrow> inn' ! nat v = 0" using x by (cases "?x = 1") simp_all
    then show ?thesis using True v x by simp
  next
    case False
    then have "u \<in> set ?new \<longleftrightarrow> u \<in> set new" by simp
    also have "\<dots> \<longleftrightarrow> 0 \<le> u \<and> u < int n \<and> 0 < ?inn ! nat u \<and> inn' ! nat u = 0" unfolding r(5) by blast
    also have "\<dots> \<longleftrightarrow> 0 \<le> u \<and> u < int n \<and> 0 < inn ! nat u \<and> inn' ! nat u = 0"
      using upd [of u] False by (cases "0 \<le> u \<and> u < int n") (simp, blast)
    finally show ?thesis .
  qed
  then have "set ?new = {u. 0 \<le> u \<and> u < int n \<and> 0 < inn ! nat u \<and> inn' ! nat u = 0}" by blast
  moreover have "distinct ?new" using r(3) vnew by auto
  ultimately show ?case using run r(2) cnt by blast
qed simp

section \<open>The loop\<close>

definition topo_inv :: "int list list \<Rightarrow> int list \<Rightarrow> int list \<Rightarrow> int list \<Rightarrow> bool" where
  "topo_inv g inn q ans \<longleftrightarrow> length inn = length g \<and> distinct (ans @ q) \<and> set (ans @ q) \<subseteq> {0..<int (length g)} \<and>
     (\<forall>v. 0 \<le> v \<and> v < int (length g) \<longrightarrow> inn ! nat v = arcs_from_rest g (set ans) v \<and> (inn ! nat v = 0 \<longleftrightarrow> v \<in> set (ans @ q))) \<and>
     (\<forall>i<length ans. \<forall>u. (u, ans ! i) \<in> arcs g \<longrightarrow> u \<in> set (take i ans))"

lemma topo_step:
  assumes "topo_inv g inn (u # q) ans" "digraph_ok g"
  shows "\<exists>inn' q'. ivget g u = Some (g ! nat u) \<and> topo_targets (g ! nat u) inn q = Some (inn', q') \<and> topo_inv g inn' q' (ans @ [u])"
proof -
  let ?n = "length g" let ?A = "set ans"
  have len: "length inn = ?n" and dist: "distinct (ans @ u # q)" and rng: "set (ans @ u # q) \<subseteq> {0..<int ?n}"
    and deg: "\<And>v. 0 \<le> v \<Longrightarrow> v < int ?n \<Longrightarrow> inn ! nat v = arcs_from_rest g ?A v \<and> (inn ! nat v = 0 \<longleftrightarrow> v \<in> set (ans @ u # q))"
    and ord: "\<forall>i<length ans. \<forall>w. (w, ans ! i) \<in> arcs g \<longrightarrow> w \<in> set (take i ans)"
    using assms(1) unfolding topo_inv_def by blast+
  have u: "0 \<le> u" "u < int ?n" "u \<notin> ?A" using rng dist by auto
  have ins: "arcs_from_rest g ?A v = int (count_list (g ! nat u) v) + arcs_from_rest g (insert u ?A) v" for v
    by (rule rest_insert [OF u])
  have tgt: "\<forall>v\<in>set (g ! nat u). 0 \<le> v \<and> v < int ?n" using digraph_target [OF assms(2)] u by blast
  have low: "\<forall>v. 0 \<le> v \<and> v < int ?n \<longrightarrow> int (count_list (g ! nat u) v) \<le> inn ! nat v"
  proof (intro allI impI)
    fix v assume v: "0 \<le> v \<and> v < int ?n"
    then show "int (count_list (g ! nat u) v) \<le> inn ! nat v" using deg [of v] ins [of v] rest_nonneg [of g "insert u ?A" v] by linarith
  qed
  obtain inn' new where r: "topo_targets (g ! nat u) inn q = Some (inn', q @ new)" "length inn' = ?n" "distinct new"
    "\<forall>v. 0 \<le> v \<and> v < int ?n \<longrightarrow> inn' ! nat v = inn ! nat v - int (count_list (g ! nat u) v)"
    "set new = {v. 0 \<le> v \<and> v < int ?n \<and> 0 < inn ! nat v \<and> inn' ! nat v = 0}"
    using targets_ok [OF len tgt low, of q] by blast
  have deg': "inn' ! nat v = arcs_from_rest g (set (ans @ [u])) v \<and> (inn' ! nat v = 0 \<longleftrightarrow> v \<in> set ((ans @ [u]) @ q @ new))"
    if v: "0 \<le> v" "v < int ?n" for v
  proof -
    have e: "inn' ! nat v = arcs_from_rest g (insert u ?A) v" using r(4) deg [OF v] ins [of v] v by simp
    have z: "inn ! nat v = 0 \<Longrightarrow> inn' ! nat v = 0"
      using e deg [OF v] ins [of v] rest_nonneg [of g "insert u ?A" v] by simp
    have p: "0 \<le> inn ! nat v" using deg [OF v] rest_nonneg by simp
    have "v \<in> set new \<longleftrightarrow> 0 < inn ! nat v \<and> inn' ! nat v = 0" unfolding r(5) using v by simp
    then have "inn' ! nat v = 0 \<longleftrightarrow> inn ! nat v = 0 \<or> v \<in> set new" using z p by (cases "inn ! nat v = 0") simp_all
    moreover have "v \<in> set ((ans @ [u]) @ q @ new) \<longleftrightarrow> v \<in> set (ans @ u # q) \<or> v \<in> set new" by auto
    ultimately have "inn' ! nat v = 0 \<longleftrightarrow> v \<in> set ((ans @ [u]) @ q @ new)" using deg [OF v] by blast
    then show ?thesis using e by simp
  qed
  have disj: "set new \<inter> set (ans @ u # q) = {}"
  proof -
    have "v \<notin> set (ans @ u # q)" if "v \<in> set new" for v using that r(5) deg [of v] by force
    then show ?thesis by blast
  qed
  have dist': "distinct ((ans @ [u]) @ q @ new)" using dist disj r(3) by auto
  have rng': "set ((ans @ [u]) @ q @ new) \<subseteq> {0..<int ?n}" using rng r(5) by auto
  have pre: "w \<in> ?A" if "(w, u) \<in> arcs g" for w
  proof -
    have "arcs_from_rest g ?A u = 0" using deg [OF u(1,2)] by simp
    then show ?thesis using that rest_zero by blast
  qed
  have ord': "w \<in> set (take i (ans @ [u]))" if "i < length (ans @ [u])" "(w, (ans @ [u]) ! i) \<in> arcs g" for i w
    using that ord pre by (cases "i < length ans") (auto simp: nth_append less_Suc_eq)
  have "topo_inv g inn' (q @ new) (ans @ [u])"
    unfolding topo_inv_def using r(2) dist' rng' deg' ord' by blast
  moreover have "ivget g u = Some (g ! nat u)" using u by simp
  ultimately show ?thesis using r(1) by blast
qed

lemma topo_loop_ok:
  "topo_inv g inn q ans \<Longrightarrow> digraph_ok g \<Longrightarrow> \<exists>inn' ans'. topo_loop g inn q (old @ ans) = Some (old @ ans') \<and> topo_inv g inn' [] ans'"
proof (induction "length g - length ans" arbitrary: inn q ans rule: less_induct)
  case less
  show ?case
  proof (cases q)
    case Nil
    then show ?thesis using less.prems(1) by (auto simp: topo_loop.simps)
  next
    case (Cons u q')
    obtain inn' q'' where s: "ivget g u = Some (g ! nat u)" "topo_targets (g ! nat u) inn q' = Some (inn', q'')" "topo_inv g inn' q'' (ans @ [u])"
      using topo_step [OF less.prems(1)[unfolded Cons] less.prems(2)] by blast
    have d: "distinct (ans @ [u])" "set (ans @ [u]) \<subseteq> {0..<int (length g)}" using less.prems(1) Cons by (auto simp: topo_inv_def)
    then have "card (set (ans @ [u])) \<le> card {0..<int (length g)}" by (intro card_mono) simp_all
    then have "length ans < length g" using distinct_card [OF d(1)] by simp
    then have "length g - length (ans @ [u]) < length g - length ans" by simp
    then obtain i a where "topo_loop g inn' q'' (old @ ans @ [u]) = Some (old @ a)" "topo_inv g i [] a"
      using less.hyps [OF _ s(3) less.prems(2)] by blast
    then show ?thesis using Cons s(1,2) by (auto simp: topo_loop.simps [of g inn])
  qed
qed

section \<open>Property\<close>

lemma order_acyclic:
  assumes "distinct ans" "set ans = {0..<int (length g)}" "digraph_ok g" "\<forall>i<length ans. \<forall>u. (u, ans ! i) \<in> arcs g \<longrightarrow> u \<in> set (take i ans)"
  shows "acyclic (arcs g)"
proof -
  define pos where "pos v = (LEAST i. i < length ans \<and> ans ! i = v)" for v
  have pos: "pos (ans ! i) = i" if "i < length ans" for i
    unfolding pos_def using that assms(1) by (intro Least_equality) (auto simp: nth_eq_iff_index_eq)
  have "pos u < pos v" if "(u, v) \<in> arcs g" for u v
  proof -
    have "v \<in> set ans" using that assms(2) digraph_target [OF assms(3)] by (auto simp: arcs_def)
    then obtain i where i: "i < length ans" "v = ans ! i" by (metis in_set_conv_nth)
    then have "u \<in> set (take i ans)" using assms(4) that by blast
    then obtain j where "j < i" "u = ans ! j" using i(1) by (auto simp: in_set_conv_nth)
    then show ?thesis using pos i by simp
  qed
  then have "acyclic ((arcs g)\<inverse>)" by (intro acyclicI_order [where f = pos]) auto
  then show ?thesis by (simp add: acyclic_converse)
qed

lemma rest_cyclic:
  assumes "topo_inv g inn [] ans" "digraph_ok g" "acyclic (arcs g)"
  shows "set ans = {0..<int (length g)}"
proof (rule ccontr)
  assume "set ans \<noteq> {0..<int (length g)}"
  moreover have "set ans \<subseteq> {0..<int (length g)}" using assms(1) by (simp add: topo_inv_def)
  ultimately obtain x where x: "x \<in> {0..<int (length g)} - set ans" by blast
  have "(u, v) \<in> {0..<int (length g)} \<times> {0..<int (length g)}" if "(u, v) \<in> arcs g" for u v
    using that digraph_target [OF assms(2), of u v] by (simp add: arcs_def)
  then have "arcs g \<subseteq> {0..<int (length g)} \<times> {0..<int (length g)}" by (rule subrelI)
  then have "finite (arcs g)" by (rule finite_subset) simp
  then have "wf (arcs g)" using finite_acyclic_wf assms(3) by blast
  from wfE_min [OF this x] obtain z where z: "z \<in> {0..<int (length g)} - set ans"
    "\<And>y. (y, z) \<in> arcs g \<Longrightarrow> y \<notin> {0..<int (length g)} - set ans" by blast
  have "inn ! nat z = arcs_from_rest g (set ans) z \<and> (inn ! nat z = 0 \<longleftrightarrow> z \<in> set (ans @ []))"
  proof -
    have "\<forall>v. 0 \<le> v \<and> v < int (length g) \<longrightarrow> inn ! nat v = arcs_from_rest g (set ans) v \<and> (inn ! nat v = 0 \<longleftrightarrow> v \<in> set (ans @ []))"
      using assms(1) unfolding topo_inv_def by blast
    moreover have "0 \<le> z \<and> z < int (length g)" using z(1) by simp
    ultimately show ?thesis by blast
  qed
  then have "arcs_from_rest g (set ans) z \<noteq> 0" using z(1) by simp
  then obtain u where "(u, z) \<in> arcs g" "u \<notin> set ans" using rest_zero by blast
  moreover from this(1) have "u \<in> {0..<int (length g)}" by (simp add: arcs_def)
  ultimately show False using z(2) by blast
qed

text \<open>
  C26. Topological sorting. Called with the true in-degrees of a graph, \<open>operator()\<close> ends without leaving its vectors
  and appends distinct vertices to the answer so that every predecessor of a vertex stands before it; on a new
  object it returns true exactly when the graph has no cycle, and all vertices are then listed. The answer of an
  earlier call is kept, so a second call on the same object compares a doubled list with the number of vertices.
\<close>

theorem topological_sort_correct:
  assumes "digraph_ok g"
  shows "\<exists>ans. topo_sort (in_degrees g) g old = Some (old @ ans, length old + length ans = length g) \<and>
    distinct ans \<and> (\<forall>i<length ans. \<forall>u. (u, ans ! i) \<in> arcs g \<longrightarrow> u \<in> set (take i ans)) \<and>
    (length ans = length g \<longleftrightarrow> acyclic (arcs g)) \<and> (acyclic (arcs g) \<longrightarrow> set ans = {0..<int (length g)})"
proof -
  let ?in = "in_degrees g"
  have len: "length ?in = length g" by (simp add: in_degrees_def)
  have deg: "?in ! nat v = arcs_from_rest g {} v" if "0 \<le> v" "v < int (length g)" for v
    using in_degrees_rest [of "nat v" g] that by simp
  have "topo_inv g ?in (topo_sources ?in) []"
    unfolding topo_inv_def topo_sources_def using len deg by auto
  from topo_loop_ok [OF this assms, of old] obtain inn ans where
    r: "topo_loop g ?in (topo_sources ?in) old = Some (old @ ans)" and inv: "topo_inv g inn [] ans" by auto
  have d: "distinct ans" "set ans \<subseteq> {0..<int (length g)}" "\<forall>i<length ans. \<forall>u. (u, ans ! i) \<in> arcs g \<longrightarrow> u \<in> set (take i ans)"
    using inv by (simp_all add: topo_inv_def)
  have full: "length ans = length g \<longleftrightarrow> set ans = {0..<int (length g)}"
  proof
    assume "length ans = length g"
    then show "set ans = {0..<int (length g)}" using distinct_card [OF d(1)] card_subset_eq [OF _ d(2)] by simp
  next
    assume "set ans = {0..<int (length g)}"
    then show "length ans = length g" using distinct_card [OF d(1)] by simp
  qed
  have "length ans = length g \<longleftrightarrow> acyclic (arcs g)"
    using full order_acyclic [OF d(1) _ assms d(3)] rest_cyclic [OF inv assms] by blast
  then show ?thesis using r d(1,3) rest_cyclic [OF inv assms] by (auto simp: topo_sort_def)
qed

theorem topological_sort_correct_witness:
  "topo_sort [0, 1, 2] [[1, 2], [2], []] [] = Some ([0, 1, 2], True) \<and> acyclic (arcs [[1, 2], [2], []])"
proof -
  let ?g = "[[1, 2], [2], []] :: int list list"
  have d: "in_degrees ?g = [0, 1, 2]" by code_simp
  have "topo_sort [0, 1, 2] ?g [] = Some ([0, 1, 2], True)"
    by (simp add: topo_sort_def topo_sources_def topo_loop.simps [of _ _ "_ # _"] topo_loop.simps [of _ _ "[]"] upto_rec1)
  moreover have "digraph_ok ?g" by code_simp
  ultimately show ?thesis using topological_sort_correct [of ?g "[]"] unfolding d by auto
qed

end
