(* ===== verification/Bits.thy ===== *)
theory Bits
  imports Prelude
begin

text \<open>
  The data lab: the puzzles of \<open>homework/CSAPP/lab/datalab-handout/bits.c\<close> and the reference
  answers of \<open>tests.c\<close>. An \<open>int\<close> and an \<open>unsigned\<close> are both 32-bit words; as \<open>bits.c\<close> prescribes, the
  machine uses two's complement, \<open>+\<close> wraps and \<open>>>\<close> of an \<open>int\<close> is arithmetic (\<open>sar\<close>), while
  \<open>>>\<close> of an \<open>unsigned\<close> is \<^const>\<open>drop_bit\<close>.

  The last four puzzles are unfinished in the source (they return 2) and are modelled as such.
\<close>

unbundle bit_operations_syntax

type_synonym c_int = "32 word"

named_theorems puzzle_simps \<open>each solved puzzle equals its reference answer\<close>

definition lnot :: "c_int \<Rightarrow> c_int" where
  "lnot x = (if x = 0 then 1 else 0)"

definition of_cond :: "bool \<Rightarrow> c_int" where
  "of_cond b = (if b then 1 else 0)"

abbreviation sar :: "nat \<Rightarrow> c_int \<Rightarrow> c_int" where
  "sar n x \<equiv> signed_drop_bit n x"

abbreviation shl :: "nat \<Rightarrow> c_int \<Rightarrow> c_int" where
  "shl n x \<equiv> push_bit n x"

subsection \<open>The puzzles\<close>

definition bitXor :: "c_int \<Rightarrow> c_int \<Rightarrow> c_int" where
  "bitXor x y = NOT (NOT (x AND NOT y) AND NOT (NOT x AND y))"

definition tmin :: c_int where
  "tmin = shl 24 0x80"

definition isTmax :: "c_int \<Rightarrow> c_int" where
  "isTmax x = lnot (lnot ((x + 1) XOR 0)) AND lnot ((x + 1) XOR NOT x)"

definition allOddBits :: "c_int \<Rightarrow> c_int" where
  "allOddBits x =
     (let v = shl 24 0xaa OR shl 16 0xaa OR shl 8 0xaa OR 0xaa in lnot ((x AND v) XOR v))"

definition negate :: "c_int \<Rightarrow> c_int" where
  "negate x = NOT x + 1"

definition isAsciiDigit :: "c_int \<Rightarrow> c_int" where
  "isAsciiDigit x =
     lnot (sar 31 x AND 1) AND (sar 31 (0x2f + (NOT x + 1)) AND 1) AND
     (sar 31 (x + (NOT 0x3a + 1)) AND 1)"

definition conditional :: "c_int \<Rightarrow> c_int \<Rightarrow> c_int \<Rightarrow> c_int" where
  "conditional x y z = (let v = NOT (lnot (lnot x)) + 1 in (v AND y) OR (NOT v AND z))"

definition isLessOrEqual :: "c_int \<Rightarrow> c_int \<Rightarrow> c_int" where
  "isLessOrEqual x y =
     (let a = lnot ((sar 31 (NOT x) AND 1) AND (sar 31 y AND 1));
          b = (sar 31 x AND 1) AND (sar 31 (NOT y) AND 1);
          v = x + NOT y + 1;
          c = (sar 31 v AND 1) OR lnot v
      in a AND (b OR c))"

text \<open>The intermediate value is stored in an \<open>unsigned\<close>, so the last shift is logical.\<close>

definition logicalNeg :: "c_int \<Rightarrow> c_int" where
  "logicalNeg x =
     (let t = shl 31 (sar 31 (NOT (shl 31 (sar 31 (NOT x + 1)) OR x))) in drop_bit 31 t)"

definition howManyBits :: "c_int \<Rightarrow> c_int" where
  "howManyBits x = 2"

definition floatScale2 :: "c_int \<Rightarrow> c_int" where
  "floatScale2 uf = 2"

definition floatFloat2Int :: "c_int \<Rightarrow> c_int" where
  "floatFloat2Int uf = 2"

definition floatPower2 :: "c_int \<Rightarrow> c_int" where
  "floatPower2 x = 2"

subsection \<open>The reference answers\<close>

definition test_bitXor :: "c_int \<Rightarrow> c_int \<Rightarrow> c_int" where
  "test_bitXor x y = x XOR y"

definition test_tmin :: c_int where
  "test_tmin = 0x80000000"

definition test_isTmax :: "c_int \<Rightarrow> c_int" where
  "test_isTmax x = of_cond (x = 0x7FFFFFFF)"

function all_odd_loop :: "c_int \<Rightarrow> nat \<Rightarrow> c_int" where
  "all_odd_loop x i =
     (if i < 32 then if x AND shl i 1 = 0 then 0 else all_odd_loop x (i + 2) else 1)"
  by pat_completeness auto
termination by (relation "measure (\<lambda>(x, i). 32 - i)") auto

declare all_odd_loop.simps [simp del]

definition test_allOddBits :: "c_int \<Rightarrow> c_int" where
  "test_allOddBits x = all_odd_loop x 1"

definition test_negate :: "c_int \<Rightarrow> c_int" where
  "test_negate x = - x"

definition test_isAsciiDigit :: "c_int \<Rightarrow> c_int" where
  "test_isAsciiDigit x = of_cond (0x30 \<le> sint x \<and> sint x \<le> 0x39)"

definition test_conditional :: "c_int \<Rightarrow> c_int \<Rightarrow> c_int \<Rightarrow> c_int" where
  "test_conditional x y z = (if x \<noteq> 0 then y else z)"

definition test_isLessOrEqual :: "c_int \<Rightarrow> c_int \<Rightarrow> c_int" where
  "test_isLessOrEqual x y = of_cond (sint x \<le> sint y)"

definition test_logicalNeg :: "c_int \<Rightarrow> c_int" where
  "test_logicalNeg x = lnot x"

function count_bits :: "c_int \<Rightarrow> c_int \<Rightarrow> c_int" where
  "count_bits a cnt = (if a \<noteq> 0 then count_bits (drop_bit 1 a) (cnt + 1) else cnt)"
  by pat_completeness auto
termination
proof (relation "measure (\<lambda>(a, cnt). unat a)")
  fix a cnt :: c_int
  assume "a \<noteq> 0"
  then have "unat a div 2 < unat a" by (simp add: unat_gt_0)
  then have "unat (drop_bit 1 a) < unat a" by (simp add: unat_drop_bit_eq drop_bit_eq_div unat_div)
  then show "((drop_bit 1 a, cnt + 1), a, cnt) \<in> measure (\<lambda>(a, cnt). unat a)" by simp
qed simp

declare count_bits.simps [simp del]

definition test_howManyBits :: "c_int \<Rightarrow> c_int" where
  "test_howManyBits x = (let y = (if sint x < 0 then - x - 1 else x) in count_bits y 0 + 1)"

subsection \<open>Signs\<close>

lemma sint_neg_iff: "sint x < 0 \<longleftrightarrow> bit x 31" for x :: c_int
  by (simp add: sint_uint signed_take_bit_negative_iff bit_uint_iff)

lemma sign_extract: "sar 31 x AND 1 = of_cond (sint x < 0)" for x :: c_int
  by (rule bit_eqI) (auto simp: bit_simps of_cond_def sint_neg_iff Suc_le_eq)

lemma lnot_of_cond [simp]: "lnot (of_cond b) = of_cond (\<not> b)"
  by (simp add: lnot_def of_cond_def)

lemma of_cond_and [simp]: "of_cond a AND of_cond b = of_cond (a \<and> b)"
  by (simp add: of_cond_def)

lemma of_cond_or [simp]: "of_cond a OR of_cond b = of_cond (a \<or> b)"
  by (simp add: of_cond_def)

lemma not_plus_1: "NOT x + 1 = - x" for x :: c_int
  by (simp add: not_eq_complement)

lemma sint_range: "- (2 ^ 31) \<le> sint x" "sint x < 2 ^ 31" for x :: c_int
  using sint_ge [of x] sint_lt [of x] by simp_all

lemma sint_not_neg_iff: "sint (NOT x) < 0 \<longleftrightarrow> \<not> sint x < 0" for x :: c_int
  by (simp add: sint_neg_iff bit_simps)

lemma sint_diff_eq:
  fixes x y :: c_int
  assumes "- (2 ^ 31) \<le> sint x - sint y" "sint x - sint y < 2 ^ 31"
  shows "sint (x - y) = sint x - sint y"
proof -
  have "sint (x - y) = signed_take_bit 31 (sint x - sint y)"
    by (simp add: signed_take_bit_diff sint_word_ariths)
  then show ?thesis using assms by (simp add: signed_take_bit_int_eq_self)
qed

subsection \<open>Each solved puzzle equals its reference\<close>

lemma bitXor_ok [puzzle_simps]: "bitXor x y = test_bitXor x y"
  unfolding bitXor_def test_bitXor_def by (rule bit_eqI) (auto simp: bit_simps)

lemma tmin_ok [puzzle_simps]: "tmin = test_tmin"
  by (simp add: tmin_def test_tmin_def push_bit_eq_mult)

lemma double_mod: "(u + u) mod 4294967296 = 0 \<Longrightarrow> 0 \<le> u \<Longrightarrow> u < 4294967296 \<Longrightarrow> u = 0 \<or> u = 2147483648" for u :: int
proof -
  assume m: "(u + u) mod 4294967296 = 0" and u: "0 \<le> u" "u < 4294967296"
  then obtain k where k: "u + u = 4294967296 * k" by (auto elim!: dvdE dest!: mod_0_imp_dvd)
  have "k = 0 \<or> k = 1" using k u by arith
  with k show ?thesis by auto
qed

lemma xor_zero: "x XOR y = 0 \<longleftrightarrow> x = y" for x y :: c_int
proof
  assume "x XOR y = 0"
  then have "(x XOR y) XOR y = 0 XOR y" by simp
  then show "x = y" by (simp add: xor.assoc)
qed simp

lemma double_zero: "x + x = 0 \<Longrightarrow> x = 0 \<or> x = 0x80000000" for x :: c_int
proof -
  assume "x + x = 0"
  then have "(uint x + uint x) mod 2 ^ 32 = 0" using uint_word_ariths(1) [of x x] by simp
  moreover have "0 \<le> uint x" "uint x < 2 ^ 32" using uint_lt2p [of x] by simp_all
  ultimately have "uint x = 0 \<or> uint x = 0x80000000" by (intro double_mod) simp_all
  moreover have "uint (0x80000000 :: c_int) = 0x80000000" "uint (0 :: c_int) = 0" by simp_all
  ultimately show "x = 0 \<or> x = 0x80000000" by (metis word_uint_eq_iff)
qed

lemma isTmax_ok [puzzle_simps]: "isTmax x = test_isTmax x"
proof -
  have "x + 1 \<noteq> 0 \<and> x + 1 = NOT x \<longleftrightarrow> x = 0x7FFFFFFF"
  proof
    assume a: "x + 1 \<noteq> 0 \<and> x + 1 = NOT x"
    then have e: "x + 1 = - x - 1" by (simp add: not_eq_complement)
    have "(x + 1) + (x + 1) = (x + 1) + (- x - 1)" by (subst (2) e) simp
    then have "(x + 1) + (x + 1) = 0" by simp
    with a have "x + 1 = 0x80000000" using double_zero by blast
    then have "x = 0x80000000 - 1" by (metis add_diff_cancel)
    then show "x = 0x7FFFFFFF" by simp
  qed (simp add: not_eq_complement)
  moreover have "lnot (a XOR b) = of_cond (a = b)" for a b :: c_int by (simp add: lnot_def of_cond_def xor_zero)
  ultimately show ?thesis
    by (simp only: isTmax_def test_isTmax_def lnot_of_cond of_cond_and)
qed

lemma negate_ok [puzzle_simps]: "negate x = test_negate x"
  by (simp add: negate_def test_negate_def not_plus_1)

lemma conditional_ok [puzzle_simps]: "conditional x y z = test_conditional x y z"
  by (simp add: conditional_def test_conditional_def lnot_def)

lemma isAsciiDigit_ok [puzzle_simps]: "isAsciiDigit x = test_isAsciiDigit x"
proof (cases "sint x < 0")
  case True
  then show ?thesis by (simp add: isAsciiDigit_def test_isAsciiDigit_def sign_extract)
next
  case False
  have "sint (0x2f - x) = 0x2f - sint x" "sint (x - 0x3a) = sint x - 0x3a"
    using False sint_range [of x] by (subst sint_diff_eq; simp)+
  moreover have "0x2f + (NOT x + 1) = 0x2f - x" "x + (NOT 0x3a + 1) = x - 0x3a"
    unfolding not_plus_1 by simp_all
  ultimately have "isAsciiDigit x = of_cond (\<not> sint x < 0 \<and> 0x2f - sint x < 0 \<and> sint x - 0x3a < 0)"
    by (simp only: isAsciiDigit_def sign_extract lnot_of_cond of_cond_and conj_assoc)
  also have "\<dots> = test_isAsciiDigit x"
    unfolding test_isAsciiDigit_def using False by (intro arg_cong [of _ _ of_cond]) auto
  finally show ?thesis .
qed

lemma isLessOrEqual_ok [puzzle_simps]: "isLessOrEqual x y = test_isLessOrEqual x y"
proof -
  have v: "x + NOT y + 1 = x - y" by (simp add: not_eq_complement)
  have lv: "lnot (x - y) = of_cond (x = y)" by (simp add: lnot_def of_cond_def)
  have same: "sint (x - y) = sint x - sint y" if "sint x < 0 \<longleftrightarrow> sint y < 0"
    using that sint_range [of x] sint_range [of y] by (intro sint_diff_eq) auto
  have eq: "x = y \<longleftrightarrow> sint x = sint y" by (simp add: signed_word_eqI word_eq_iff_signed)
  have "isLessOrEqual x y = of_cond (\<not> (\<not> sint x < 0 \<and> sint y < 0) \<and>
      (sint x < 0 \<and> \<not> sint y < 0 \<or> sint (x - y) < 0 \<or> x = y))"
    by (simp only: isLessOrEqual_def Let_def sign_extract sint_not_neg_iff v lv lnot_of_cond of_cond_and of_cond_or)
  also have "\<dots> = test_isLessOrEqual x y"
    unfolding test_isLessOrEqual_def using same eq
    by (intro arg_cong [of _ _ of_cond], cases "sint x < 0"; cases "sint y < 0") auto
  finally show ?thesis .
qed

lemma logicalNeg_ok [puzzle_simps]: "logicalNeg x = test_logicalNeg x"
proof -
  have sgn: "bit (- x) 31 \<or> bit x 31 \<longleftrightarrow> x \<noteq> 0"
  proof (cases "x = 0 \<or> bit x 31")
    case False
    then have "0 < sint x" using sint_neg_iff [of x] by (metis linorder_neqE signed_eq_0_iff)
    then have "sint (0 - x) = - sint x" using sint_range [of x] by (subst sint_diff_eq) auto
    then show ?thesis using False \<open>0 < sint x\<close> sint_neg_iff [of "- x"] by simp
  qed auto
  have "logicalNeg x = of_cond (\<not> (bit (- x) 31 \<or> bit x 31))"
    unfolding logicalNeg_def Let_def not_plus_1
      [of x]
    by (rule bit_eqI) (auto simp: bit_simps of_cond_def Suc_le_eq)
  with sgn show ?thesis by (simp add: test_logicalNeg_def lnot_def of_cond_def)
qed

lemma and_push_1: "x AND shl i 1 = 0 \<longleftrightarrow> \<not> bit x i" for x :: c_int
  by (simp add: bit_iff_and_push_bit_not_eq_0)

lemma all_odd_loop_ok: "all_odd_loop x i = of_cond (\<forall>k. i + 2 * k < 32 \<longrightarrow> bit x (i + 2 * k))"
proof (induction x i rule: all_odd_loop.induct)
  case (1 x i)
  have "(\<forall>k. i + 2 * k < 32 \<longrightarrow> bit x (i + 2 * k)) \<longleftrightarrow>
      bit x i \<and> (\<forall>k. i + 2 + 2 * k < 32 \<longrightarrow> bit x (i + 2 + 2 * k))" if "i < 32"
  proof -
    have "(\<forall>k. P k) \<longleftrightarrow> P 0 \<and> (\<forall>k. P (Suc k))" for P by (metis nat.exhaust)
    from this [of "\<lambda>k. i + 2 * k < 32 \<longrightarrow> bit x (i + 2 * k)"] show ?thesis using that by simp
  qed
  moreover have "(\<forall>k. i + 2 * k < 32 \<longrightarrow> bit x (i + 2 * k))" if "\<not> i < 32" using that by auto
  moreover have "all_odd_loop x i =
      (if i < 32 then if bit x i then of_cond (\<forall>k. i + 2 + 2 * k < 32 \<longrightarrow> bit x (i + 2 + 2 * k)) else 0 else 1)"
  proof -
    have "all_odd_loop x i = (if i < 32 then if \<not> bit x i then 0 else all_odd_loop x (i + 2) else 1)"
      by (subst all_odd_loop.simps) (simp only: and_push_1)
    with 1 show ?thesis unfolding and_push_1 by presburger
  qed
  ultimately show ?case by (auto simp: of_cond_def)
qed

lemma odd_mask: "shl 24 0xaa OR shl 16 0xaa OR shl 8 0xaa OR 0xaa = (0xaaaaaaaa :: c_int)"
  by (simp add: push_bit_eq_mult)

lemma bit_odd_mask: "n < 32 \<Longrightarrow> bit (0xaaaaaaaa :: c_int) n \<longleftrightarrow> odd n"
proof -
  have "\<forall>n \<in> set [0..<32]. bit (0xaaaaaaaa :: c_int) n \<longleftrightarrow> odd n" by (simp add: upt_rec)
  then show "n < 32 \<Longrightarrow> bit (0xaaaaaaaa :: c_int) n \<longleftrightarrow> odd n" by auto
qed

lemma allOddBits_ok [puzzle_simps]: "allOddBits x = test_allOddBits x"
proof -
  have "(x AND 0xaaaaaaaa = 0xaaaaaaaa) \<longleftrightarrow> (\<forall>n<32. odd n \<longrightarrow> bit x n)"
  proof -
    have "(x AND M = M) \<longleftrightarrow> (\<forall>n<32. bit M n \<longrightarrow> bit x n)" for M :: c_int
      by (auto simp: bit_eq_iff bit_and_iff dest: bit_imp_le_length)
    from this [of "0xaaaaaaaa"] show ?thesis using bit_odd_mask by blast
  qed
  also have "\<dots> \<longleftrightarrow> (\<forall>k. 1 + 2 * k < 32 \<longrightarrow> bit x (1 + 2 * k))"
    by (auto elim!: oddE)
  finally show ?thesis
    by (simp only: allOddBits_def Let_def odd_mask test_allOddBits_def all_odd_loop_ok lnot_def xor_zero of_cond_def)
qed

subsection \<open>The reference for \<open>howManyBits\<close>\<close>

lemma count_bits_ok:
  "\<exists>n. count_bits a cnt = cnt + of_nat n \<and> unat a < 2 ^ n \<and> (n = 0 \<or> 2 ^ (n - 1) \<le> unat a)"
proof (induction a cnt rule: count_bits.induct)
  case (1 a cnt)
  show ?case
  proof (cases "a = 0")
    case True
    then show ?thesis by (subst count_bits.simps) auto
  next
    case False
    have half: "unat (drop_bit 1 a) = unat a div 2" by (simp add: unat_drop_bit_eq drop_bit_eq_div unat_div)
    obtain n where n: "count_bits (drop_bit 1 a) (cnt + 1) = cnt + 1 + of_nat n" "unat a div 2 < 2 ^ n"
      "n = 0 \<or> 2 ^ (n - 1) \<le> unat a div 2"
      using 1 [OF False] half by auto
    have "unat a < 2 ^ Suc n" using n(2) by (simp add: less_mult_imp_div_less div_less_iff_less_mult)
    moreover have "2 ^ n \<le> unat a" using n(3) False by (cases n) (auto simp: unat_gt_0 Suc_le_eq)
    moreover have "count_bits a cnt = cnt + of_nat (Suc n)" using False n(1) by (subst count_bits.simps) simp
    ultimately show ?thesis by (intro exI [of _ "Suc n"]) auto
  qed
qed

lemma unat_nonneg: "0 \<le> sint x \<Longrightarrow> int (unat x) = sint x" for x :: c_int
  using sint_range [of x] uint_sint [of x] by (simp add: take_bit_int_eq_self)

lemma how_many_magnitude:
  "int (unat (if sint x < 0 then - x - 1 else x)) = (if sint x < 0 then - sint x - 1 else sint x)" for x :: c_int
proof (cases "sint x < 0")
  case True
  have "- x - 1 = NOT x" by (simp add: not_eq_complement)
  moreover have "sint (NOT x) = - sint x - 1"
  proof -
    have "NOT x = (- 1) - x" by (simp add: not_eq_complement)
    then show ?thesis using sint_diff_eq [of "- 1" x] True sint_range [of x] by simp
  qed
  moreover have "0 \<le> sint (NOT x)" using sint_not_neg_iff [of x] True by simp
  ultimately show ?thesis using True unat_nonneg [of "NOT x"] by simp
next
  case False
  then show ?thesis using unat_nonneg [of x] by simp
qed

text \<open>
  C16. The nine finished puzzles of \<open>bits.c\<close> agree with their references in \<open>tests.c\<close> on every
  32-bit argument.
\<close>

theorem puzzles_meet_reference:
  "bitXor x y = test_bitXor x y \<and> tmin = test_tmin \<and> isTmax x = test_isTmax x \<and>
   allOddBits x = test_allOddBits x \<and> negate x = test_negate x \<and>
   isAsciiDigit x = test_isAsciiDigit x \<and> conditional x y z = test_conditional x y z \<and>
   isLessOrEqual x y = test_isLessOrEqual x y \<and> logicalNeg x = test_logicalNeg x"
  by (simp only: puzzle_simps simp_thms)

text \<open>
  The reference \<open>test_howManyBits\<close> returns the smallest two's complement width that holds its
  argument.
\<close>

lemma test_howManyBits_minimal:
  "\<exists>k. test_howManyBits x = of_nat k \<and> 1 \<le> k \<and> - (2 ^ (k - 1)) \<le> sint x \<and> sint x < 2 ^ (k - 1) \<and>
     (k = 1 \<or> sint x < - (2 ^ (k - 2)) \<or> 2 ^ (k - 2) \<le> sint x)"
proof -
  define y where "y = (if sint x < 0 then - x - 1 else x)"
  obtain n where n: "count_bits y 0 = of_nat n" "unat y < 2 ^ n" "n = 0 \<or> 2 ^ (n - 1) \<le> unat y"
    using count_bits_ok [of y 0] by auto
  have mag: "int (unat y) = (if sint x < 0 then - sint x - 1 else sint x)"
    unfolding y_def by (rule how_many_magnitude)
  have hi: "int (unat y) < 2 ^ n" using n(2) by (metis of_nat_less_iff of_nat_power of_nat_numeral)
  have lo: "n = 0 \<or> 2 ^ (n - 1) \<le> int (unat y)" using n(3) by (metis of_nat_le_iff of_nat_power of_nat_numeral)
  have "test_howManyBits x = of_nat (Suc n)" using n(1) by (simp add: test_howManyBits_def y_def [symmetric])
  moreover have "- (2 ^ (Suc n - 1)) \<le> sint x" "sint x < 2 ^ (Suc n - 1)"
    using hi mag by (auto split: if_splits)
  moreover have "Suc n = 1 \<or> sint x < - (2 ^ (Suc n - 2)) \<or> 2 ^ (Suc n - 2) \<le> sint x"
    using lo mag by (cases n) (auto split: if_splits)
  ultimately show ?thesis by (intro exI [of _ "Suc n"]) auto
qed

end
