(* ===== verification/Btest.thy ===== *)
theory Btest
  imports Bits
begin

text \<open>
  The test harness of the data lab: the table of \<open>decl.c\<close> (with \<open>test_rec\<close> of \<open>btest.h\<close>) and the
  value generator, the test loops and the scoring of \<open>btest.c\<close>.

  The array of test values has \<open>MAX_TEST_VALS\<close> entries; a write behind its end is \<open>None\<close>. The value of
  \<open>random_val\<close> (a floating-point interpolation of \<open>rand()\<close>), whether the alarm fires during a test, and the
  three reference answers of \<open>tests.c\<close> that compute with \<open>float\<close> are arguments of the definitions.
\<close>

subsection \<open>Data\<close>

text \<open>A function pointer: \<open>funct_t\<close> cast to the type with the right number of arguments.\<close>

datatype funct =
    Fun0 c_int
  | Fun1 "c_int \<Rightarrow> c_int"
  | Fun2 "c_int \<Rightarrow> c_int \<Rightarrow> c_int"
  | Fun3 "c_int \<Rightarrow> c_int \<Rightarrow> c_int \<Rightarrow> c_int"

record test_rec =
  name :: string
  solution_funct :: funct
  test_funct :: funct
  args :: int
  ops :: string
  op_limit :: int
  rating :: int
  arg_ranges :: "(int \<times> int) list"

text \<open>The globals set from the command line.\<close>

record btest_opts =
  timeout_limit :: int
  test_fname :: "string option"
  has_arg :: "bool list"
  argval :: "c_int list"
  global_rating :: int

definition default_opts :: btest_opts where
  "default_opts = \<lparr>timeout_limit = 10, test_fname = None, has_arg = [False, False, False],
     argval = [0, 0, 0], global_rating = 0\<rparr>"

definition TEST_RANGE :: nat where "TEST_RANGE = 500000"

definition MAX_TEST_VALS :: nat where "MAX_TEST_VALS = 13 * TEST_RANGE"

definition TMin :: int where "TMin = - (2 ^ 31)"

definition TMax :: int where "TMax = 2 ^ 31 - 1"

definition int_ranges :: "(int \<times> int) list" where
  "int_ranges = [(TMin, TMax), (TMin, TMax), (TMin, TMax)]"

definition test_set :: "(c_int \<Rightarrow> c_int) \<Rightarrow> (c_int \<Rightarrow> c_int) \<Rightarrow> (c_int \<Rightarrow> c_int) \<Rightarrow> test_rec list" where
  "test_set test_floatScale2 test_floatFloat2Int test_floatPower2 =
   [\<lparr>name = ''bitXor'', solution_funct = Fun2 bitXor, test_funct = Fun2 test_bitXor, args = 2,
      ops = ''& ~'', op_limit = 14, rating = 1, arg_ranges = int_ranges\<rparr>,
    \<lparr>name = ''tmin'', solution_funct = Fun0 tmin, test_funct = Fun0 test_tmin, args = 0,
      ops = ''! ~ & ^ | + << >>'', op_limit = 4, rating = 1, arg_ranges = int_ranges\<rparr>,
    \<lparr>name = ''isTmax'', solution_funct = Fun1 isTmax, test_funct = Fun1 test_isTmax, args = 1,
      ops = ''! ~ & ^ | +'', op_limit = 10, rating = 1, arg_ranges = int_ranges\<rparr>,
    \<lparr>name = ''allOddBits'', solution_funct = Fun1 allOddBits, test_funct = Fun1 test_allOddBits, args = 1,
      ops = ''! ~ & ^ | + << >>'', op_limit = 12, rating = 2, arg_ranges = int_ranges\<rparr>,
    \<lparr>name = ''negate'', solution_funct = Fun1 negate, test_funct = Fun1 test_negate, args = 1,
      ops = ''! ~ & ^ | + << >>'', op_limit = 5, rating = 2, arg_ranges = int_ranges\<rparr>,
    \<lparr>name = ''isAsciiDigit'', solution_funct = Fun1 isAsciiDigit, test_funct = Fun1 test_isAsciiDigit, args = 1,
      ops = ''! ~ & ^ | + << >>'', op_limit = 15, rating = 3, arg_ranges = int_ranges\<rparr>,
    \<lparr>name = ''conditional'', solution_funct = Fun3 conditional, test_funct = Fun3 test_conditional, args = 3,
      ops = ''! ~ & ^ | << >>'', op_limit = 16, rating = 3, arg_ranges = int_ranges\<rparr>,
    \<lparr>name = ''isLessOrEqual'', solution_funct = Fun2 isLessOrEqual, test_funct = Fun2 test_isLessOrEqual, args = 2,
      ops = ''! ~ & ^ | + << >>'', op_limit = 24, rating = 3, arg_ranges = int_ranges\<rparr>,
    \<lparr>name = ''logicalNeg'', solution_funct = Fun1 logicalNeg, test_funct = Fun1 test_logicalNeg, args = 1,
      ops = ''~ & ^ | + << >>'', op_limit = 12, rating = 4, arg_ranges = int_ranges\<rparr>,
    \<lparr>name = ''howManyBits'', solution_funct = Fun1 howManyBits, test_funct = Fun1 test_howManyBits, args = 1,
      ops = ''! ~ & ^ | + << >>'', op_limit = 90, rating = 4, arg_ranges = int_ranges\<rparr>,
    \<lparr>name = ''floatScale2'', solution_funct = Fun1 floatScale2, test_funct = Fun1 test_floatScale2, args = 1,
      ops = ''$'', op_limit = 30, rating = 4, arg_ranges = [(1, 1), (1, 1), (1, 1)]\<rparr>,
    \<lparr>name = ''floatFloat2Int'', solution_funct = Fun1 floatFloat2Int, test_funct = Fun1 test_floatFloat2Int, args = 1,
      ops = ''$'', op_limit = 30, rating = 4, arg_ranges = [(1, 1), (1, 1), (1, 1)]\<rparr>,
    \<lparr>name = ''floatPower2'', solution_funct = Fun1 floatPower2, test_funct = Fun1 test_floatPower2, args = 1,
      ops = ''$'', op_limit = 30, rating = 4, arg_ranges = [(1, 1), (1, 1), (1, 1)]\<rparr>]"

subsection \<open>Generating test values\<close>

definition put_val :: "c_int list \<Rightarrow> c_int \<Rightarrow> c_int list option" where
  "put_val vs v = (if length vs < MAX_TEST_VALS then Some (vs @ [v]) else None)"

primrec put_vals :: "c_int list \<Rightarrow> c_int list \<Rightarrow> c_int list option" where
  "put_vals [] vs = Some vs"
| "put_vals (w # ws) vs = do { vs' \<leftarrow> put_val vs w; put_vals ws vs' }"

definition float_vals :: "c_int \<Rightarrow> c_int list" where
  "float_vals i =
     (let smallest_norm = 0x00800000; one = 0x3f800000; largest_norm = 0x7f000000; sign = 0x80000000 in
      [i, sign OR i,
       smallest_norm + i, smallest_norm - i, sign OR (smallest_norm + i), sign OR (smallest_norm - i),
       one + i, one - i, sign OR (one + i), sign OR (one - i),
       largest_norm - i, sign OR (largest_norm - i)])"

function gen_float :: "nat \<Rightarrow> nat \<Rightarrow> c_int list \<Rightarrow> c_int list option" where
  "gen_float i test_range vs =
     (if i < test_range
      then do { vs' \<leftarrow> put_vals (float_vals (of_nat i)) vs; gen_float (Suc i) test_range vs' }
      else put_vals [0x7f800000, 0x80000000 OR 0x7f800000, 0x7fc00000, 0x80000000 OR 0x7fc00000] vs)"
  by pat_completeness auto
termination by (relation "measure (\<lambda>(i, n, vs). n - i)") auto

function gen_all :: "int \<Rightarrow> int \<Rightarrow> c_int list \<Rightarrow> c_int list option" where
  "gen_all i hi vs =
     (if i \<le> hi then do { vs' \<leftarrow> put_val vs (word_of_int i); gen_all (i + 1) hi vs' } else Some vs)"
  by pat_completeness auto
termination by (relation "measure (\<lambda>(i, m, vs). nat (m + 1 - i))") auto

definition sample_vals :: "int \<Rightarrow> int \<Rightarrow> int \<Rightarrow> int \<Rightarrow> c_int list" where
  "sample_vals i lo hi r =
     [word_of_int (lo + i), word_of_int (hi - i)] @
     (if i \<ge> lo \<and> i \<le> hi then [word_of_int i] else []) @
     (if - i \<ge> lo \<and> - i \<le> hi then [word_of_int (- i)] else []) @
     [word_of_int r]"

function gen_sample :: "(nat \<Rightarrow> int) \<Rightarrow> nat \<Rightarrow> nat \<Rightarrow> int \<Rightarrow> int \<Rightarrow> c_int list \<Rightarrow> c_int list option" where
  "gen_sample rnd i test_range lo hi vs =
     (if i < test_range
      then do { vs' \<leftarrow> put_vals (sample_vals (int i) lo hi (rnd i)) vs;
                gen_sample rnd (Suc i) test_range lo hi vs' }
      else Some vs)"
  by pat_completeness auto
termination by (relation "measure (\<lambda>(r, i, n, a, b, vs). n - i)") auto

declare gen_float.simps [simp del] gen_all.simps [simp del] gen_sample.simps [simp del]

text \<open>
  \<open>rnd\<close> gives the values of the calls of \<open>random_val(min, max)\<close>. The subtraction in the test for the
  exhaustive case is an \<open>int\<close> subtraction: its overflow is undefined.
\<close>

definition gen_vals ::
  "btest_opts \<Rightarrow> (nat \<Rightarrow> int) \<Rightarrow> int \<Rightarrow> int \<Rightarrow> nat \<Rightarrow> nat \<Rightarrow> c_int list option" where
  "gen_vals opts rnd lo hi test_range arg =
     do { h \<leftarrow> vget (has_arg opts) arg;
          if h then do { v \<leftarrow> vget (argval opts) arg; put_vals [v] [] }
          else if lo = 1 \<and> hi = 1
          then gen_float 0 (if test_range > 2 ^ 23 then 2 ^ 23 else test_range) []
          else if hi - int MAX_TEST_VALS < TMin then None
          else if hi - int MAX_TEST_VALS \<le> lo then gen_all lo hi []
          else gen_sample rnd 0 test_range lo hi [] }"

subsection \<open>Running the tests\<close>

definition test_0_arg :: "funct \<Rightarrow> funct \<Rightarrow> int option" where
  "test_0_arg f ft = (case (f, ft) of (Fun0 r, Fun0 rt) \<Rightarrow> Some (if r \<noteq> rt then 1 else 0) | _ \<Rightarrow> None)"

definition test_1_arg :: "funct \<Rightarrow> funct \<Rightarrow> c_int \<Rightarrow> int option" where
  "test_1_arg f ft arg1 =
     (case (f, ft) of (Fun1 g, Fun1 gt) \<Rightarrow> Some (if g arg1 \<noteq> gt arg1 then 1 else 0) | _ \<Rightarrow> None)"

definition test_2_arg :: "funct \<Rightarrow> funct \<Rightarrow> c_int \<Rightarrow> c_int \<Rightarrow> int option" where
  "test_2_arg f ft arg1 arg2 =
     (case (f, ft) of (Fun2 g, Fun2 gt) \<Rightarrow> Some (if g arg1 arg2 \<noteq> gt arg1 arg2 then 1 else 0) | _ \<Rightarrow> None)"

definition test_3_arg :: "funct \<Rightarrow> funct \<Rightarrow> c_int \<Rightarrow> c_int \<Rightarrow> c_int \<Rightarrow> int option" where
  "test_3_arg f ft arg1 arg2 arg3 =
     (case (f, ft) of (Fun3 g, Fun3 gt) \<Rightarrow> Some (if g arg1 arg2 arg3 \<noteq> gt arg1 arg2 arg3 then 1 else 0)
      | _ \<Rightarrow> None)"

text \<open>A loop over test values that stops as soon as \<open>errors\<close> is not zero.\<close>

primrec until_error :: "('a \<Rightarrow> int option) \<Rightarrow> 'a list \<Rightarrow> int option" where
  "until_error test [] = Some 0"
| "until_error test (a # as) = do { e \<leftarrow> test a; if e \<noteq> 0 then Some e else until_error test as }"

text \<open>\<open>pow(TEST_RANGE, 0.5)\<close> and \<open>pow(TEST_RANGE, 0.333)\<close> truncate to 707 and 79.\<close>

definition arg_test_range :: "int \<Rightarrow> nat" where
  "arg_test_range n = (if n = 1 then TEST_RANGE else if n = 2 then 707 else 79)"

text \<open>\<open>Inl\<close> is the \<open>exit(1)\<close> after a configuration error.\<close>

definition test_function ::
  "btest_opts \<Rightarrow> (nat \<Rightarrow> nat \<Rightarrow> int) \<Rightarrow> bool \<Rightarrow> test_rec \<Rightarrow> (unit + int) option" where
  "test_function opts rnd timed_out t =
     (if args t < 0 \<or> args t > 3 then Some (Inl ())
      else do {
        let gen = (\<lambda>i. do { (lo, hi) \<leftarrow> vget (arg_ranges t) i;
                            gen_vals opts (rnd i) lo hi (arg_test_range (args t)) i });
        v0 \<leftarrow> (if args t > 0 then gen 0 else Some []);
        v1 \<leftarrow> (if args t > 1 then gen 1 else Some []);
        v2 \<leftarrow> (if args t > 2 then gen 2 else Some []);
        if timeout_limit opts > 0 \<and> timed_out then Some (Inr 1)
        else map_option Inr
          (if args t = 0 then test_0_arg (solution_funct t) (test_funct t)
           else until_error (\<lambda>a1.
             if args t = 1 then test_1_arg (solution_funct t) (test_funct t) a1
             else until_error (\<lambda>a2.
               if args t = 2 then test_2_arg (solution_funct t) (test_funct t) a1 a2
               else until_error (test_3_arg (solution_funct t) (test_funct t) a1 a2) v2) v1) v0) })"

text \<open>
  The rows printed for the functions, and the totals. Points are integers here: the \<open>double\<close> of the
  code is a sum of ratings.
\<close>

record btest_score =
  rows :: "(int \<times> int \<times> int \<times> string) list"
  errors :: int
  points :: int
  max_points :: int

definition score_test ::
  "btest_opts \<Rightarrow> (nat \<Rightarrow> nat \<Rightarrow> int) \<Rightarrow> (string \<Rightarrow> bool) \<Rightarrow> test_rec \<Rightarrow> btest_score \<Rightarrow> (unit + btest_score) option" where
  "score_test opts rnd timed_out t s =
     (if test_fname opts = None \<or> test_fname opts = Some (name t)
      then do { let r = (if global_rating opts \<noteq> 0 then global_rating opts else rating t);
                e \<leftarrow> test_function opts rnd (timed_out (name t)) t;
                case e of Inl _ \<Rightarrow> Some (Inl ())
                | Inr terrors \<Rightarrow>
                    let tpoints = (if terrors = 0 then r else 0) in
                    Some (Inr \<lparr>rows = rows s @ [(tpoints, r, terrors, name t)], errors = errors s + terrors,
                      points = points s + tpoints, max_points = max_points s + r\<rparr>) }
      else Some (Inr s))"

primrec run_tests_from ::
  "btest_opts \<Rightarrow> (nat \<Rightarrow> nat \<Rightarrow> int) \<Rightarrow> (string \<Rightarrow> bool) \<Rightarrow> test_rec list \<Rightarrow> btest_score \<Rightarrow> (unit + btest_score) option" where
  "run_tests_from opts rnd timed_out [] s = Some (Inr s)"
| "run_tests_from opts rnd timed_out (t # ts) s =
     do { r \<leftarrow> score_test opts rnd timed_out t s;
          case r of Inl _ \<Rightarrow> Some (Inl ()) | Inr s' \<Rightarrow> run_tests_from opts rnd timed_out ts s' }"

definition run_tests ::
  "btest_opts \<Rightarrow> (nat \<Rightarrow> nat \<Rightarrow> int) \<Rightarrow> (string \<Rightarrow> bool) \<Rightarrow> test_rec list \<Rightarrow> (unit + btest_score) option" where
  "run_tests opts rnd timed_out ts =
     run_tests_from opts rnd timed_out ts \<lparr>rows = [], errors = 0, points = 0, max_points = 0\<rparr>"

subsection \<open>The generated values fit the array\<close>

lemma put_vals_ok: "length vs + length ws \<le> MAX_TEST_VALS \<Longrightarrow> put_vals ws vs = Some (vs @ ws)"
  by (induction ws arbitrary: vs) (auto simp: put_val_def)

lemma length_float_vals [simp]: "length (float_vals i) = 12"
  by (simp add: float_vals_def Let_def)

lemma gen_float_ok:
  "length vs + 12 * (n - i) + 4 \<le> MAX_TEST_VALS \<Longrightarrow>
     \<exists>ws. gen_float i n vs = Some (vs @ ws) \<and> length ws = 12 * (n - i) + 4 \<and> (i < n \<longrightarrow> hd ws = of_nat i)"
proof (induction i n vs rule: gen_float.induct)
  case (1 i n vs)
  show ?case
  proof (cases "i < n")
    case True
    then have p: "put_vals (float_vals (of_nat i)) vs = Some (vs @ float_vals (of_nat i))"
      using "1.prems" by (intro put_vals_ok) simp
    obtain ws where ws: "gen_float (Suc i) n (vs @ float_vals (of_nat i)) = Some ((vs @ float_vals (of_nat i)) @ ws)"
      "length ws = 12 * (n - Suc i) + 4"
      using "1.IH" [OF True p] "1.prems" Suc_diff_Suc [OF True, symmetric] by auto
    have "gen_float i n vs = Some (vs @ (float_vals (of_nat i) @ ws))"
      using True p ws(1) by (subst gen_float.simps) simp
    moreover have "hd (float_vals (of_nat i) @ ws) = of_nat i" by (simp add: float_vals_def Let_def)
    ultimately show ?thesis using ws(2) True by (intro exI [of _ "float_vals (of_nat i) @ ws"]) auto
  next
    case False
    then show ?thesis using "1.prems" by (subst gen_float.simps) (subst put_vals_ok, auto)
  qed
qed

lemma gen_all_ok:
  "length vs + nat (hi + 1 - i) \<le> MAX_TEST_VALS \<Longrightarrow> gen_all i hi vs = Some (vs @ map word_of_int [i..hi])"
proof (induction i hi vs rule: gen_all.induct)
  case (1 i hi vs)
  show ?case
  proof (cases "i \<le> hi")
    case True
    then have p: "put_val vs (word_of_int i) = Some (vs @ [word_of_int i])"
      using "1.prems" by (auto simp: put_val_def)
    show ?thesis using "1.IH" [OF True p] "1.prems" True p by (subst gen_all.simps) (simp add: upto_rec1)
  next
    case False
    then show ?thesis by (subst gen_all.simps) simp
  qed
qed

lemma gen_all_overflow: "MAX_TEST_VALS < length vs + nat (hi + 1 - i) \<Longrightarrow> length vs \<le> MAX_TEST_VALS \<Longrightarrow> gen_all i hi vs = None"
proof (induction i hi vs rule: gen_all.induct)
  case (1 i hi vs)
  then show ?case
    by (subst gen_all.simps) (auto simp: put_val_def Option.bind_eq_None_conv split: if_splits)
qed

lemma gen_sample_ok:
  "length vs + 5 * (n - i) \<le> MAX_TEST_VALS \<Longrightarrow>
     \<exists>ws. gen_sample rnd i n lo hi vs = Some (vs @ ws) \<and> length ws \<le> 5 * (n - i) \<and>
       (i < n \<longrightarrow> ws \<noteq> [] \<and> hd ws = word_of_int (lo + int i))"
proof (induction rnd i n lo hi vs rule: gen_sample.induct)
  case (1 rnd i n lo hi vs)
  show ?case
  proof (cases "i < n")
    case True
    let ?w = "sample_vals (int i) lo hi (rnd i)"
    have len: "length ?w \<le> 5" by (simp add: sample_vals_def)
    have p: "put_vals ?w vs = Some (vs @ ?w)" using "1.prems" True len by (intro put_vals_ok) simp
    obtain ws where ws: "gen_sample rnd (Suc i) n lo hi (vs @ ?w) = Some ((vs @ ?w) @ ws)"
      "length ws \<le> 5 * (n - Suc i)"
      using "1.IH" [OF True p] "1.prems" Suc_diff_Suc [OF True, symmetric] len by auto
    have "gen_sample rnd i n lo hi vs = Some (vs @ (?w @ ws))"
      using True p ws(1) by (subst gen_sample.simps) simp
    moreover have "?w @ ws \<noteq> []" "hd (?w @ ws) = word_of_int (lo + int i)" by (simp_all add: sample_vals_def)
    ultimately show ?thesis using ws(2) len True by (intro exI [of _ "?w @ ws"]) auto
  next
    case False
    then show ?thesis by (subst gen_sample.simps) simp
  qed
qed


text \<open>
  Without command-line arguments, and for a test range of at most \<open>TEST_RANGE\<close>, the generated values
  fit the array of \<open>MAX_TEST_VALS\<close> entries in the floating-point case, in the sampling case, and in the
  exhaustive case whenever the range holds at most \<open>MAX_TEST_VALS\<close> values, which are then all listed.
\<close>

lemma gen_vals_fit:
  assumes "has_arg opts = [False, False, False]" "arg < 3" "n \<le> TEST_RANGE"
    "lo = 1 \<and> hi = 1 \<or> TMin \<le> lo \<and> lo \<le> hi \<and> hi \<le> TMax \<and> TMin + int MAX_TEST_VALS \<le> hi \<and> hi - lo \<noteq> int MAX_TEST_VALS"
  shows "\<exists>vs. gen_vals opts rnd lo hi n arg = Some vs \<and> length vs \<le> MAX_TEST_VALS \<and>
    (hi - lo < int MAX_TEST_VALS \<and> \<not> (lo = 1 \<and> hi = 1) \<longrightarrow> vs = map word_of_int [lo..hi])"
proof -
  have h: "vget (has_arg opts) arg = Some False" using assms(1,2) by (auto simp: less_Suc_eq numeral_3_eq_3)
  consider (float) "lo = 1 \<and> hi = 1" | (all) "\<not> (lo = 1 \<and> hi = 1)" "hi - int MAX_TEST_VALS \<le> lo"
    | (sample) "\<not> (lo = 1 \<and> hi = 1)" "\<not> hi - int MAX_TEST_VALS \<le> lo" by blast
  then show ?thesis
  proof cases
    case float
    have "12 * n + 4 \<le> MAX_TEST_VALS" "n \<le> 2 ^ 23" using assms(3) by (simp_all add: MAX_TEST_VALS_def TEST_RANGE_def)
    then show ?thesis using gen_float_ok [of "[]" n 0] float h by (auto simp: gen_vals_def)
  next
    case all
    then have "nat (hi + 1 - lo) \<le> MAX_TEST_VALS" using assms(4) by auto
    then show ?thesis using gen_all_ok [of "[]" hi lo] all h assms(4) by (auto simp: gen_vals_def)
  next
    case sample
    have "5 * n \<le> MAX_TEST_VALS" using assms(3) by (simp add: MAX_TEST_VALS_def TEST_RANGE_def)
    then show ?thesis using gen_sample_ok [of "[]" n 0 rnd lo hi] sample h assms(4) by (auto simp: gen_vals_def)
  qed
qed

text \<open>
  A range of exactly \<open>MAX_TEST_VALS + 1\<close> values passes the test for the exhaustive case, and the loop
  then writes one value behind the end of the array.
\<close>

lemma gen_vals_one_too_many:
  "gen_vals default_opts rnd 0 (int MAX_TEST_VALS) n 0 = None"
  using gen_all_overflow [of "[]" "int MAX_TEST_VALS" 0]
  by (simp add: gen_vals_def default_opts_def MAX_TEST_VALS_def TEST_RANGE_def TMin_def)



subsection \<open>The score of the lab\<close>

lemma until_error_none: "\<forall>a \<in> set as. test a = Some 0 \<Longrightarrow> until_error test as = Some 0"
  by (induction as) auto

lemma until_error_first: "as \<noteq> [] \<Longrightarrow> test (hd as) = Some 1 \<Longrightarrow> until_error test as = Some 1"
  by (cases as) auto

lemma gen_int_range:
  assumes "arg < 3" "0 < n" "n \<le> TEST_RANGE"
  shows "\<exists>vs. gen_vals default_opts rnd TMin TMax n arg = Some vs \<and> vs \<noteq> [] \<and> hd vs = 0x80000000"
proof -
  have h: "vget (has_arg default_opts) arg = Some False" using assms(1) by (auto simp: default_opts_def less_Suc_eq numeral_3_eq_3)
  have "5 * n \<le> MAX_TEST_VALS" using assms(3) by (simp add: MAX_TEST_VALS_def TEST_RANGE_def)
  then obtain vs where "gen_sample rnd 0 n TMin TMax [] = Some vs" "vs \<noteq> []" "hd vs = word_of_int TMin"
    using gen_sample_ok [of "[]" n 0 rnd TMin TMax] assms(2) by auto
  with h show ?thesis by (simp add: gen_vals_def TMin_def TMax_def MAX_TEST_VALS_def TEST_RANGE_def)
qed

lemma gen_float_range:
  assumes "arg < 3" "0 < n" "n \<le> TEST_RANGE"
  shows "\<exists>vs. gen_vals default_opts rnd 1 1 n arg = Some vs \<and> vs \<noteq> [] \<and> hd vs = 0"
proof -
  have h: "vget (has_arg default_opts) arg = Some False" using assms(1) by (auto simp: default_opts_def less_Suc_eq numeral_3_eq_3)
  have "12 * n + 4 \<le> MAX_TEST_VALS" "n \<le> 2 ^ 23" using assms(3) by (simp_all add: MAX_TEST_VALS_def TEST_RANGE_def)
  then obtain vs where "gen_float 0 n [] = Some vs" "length vs = 12 * n + 4" "hd vs = 0"
    using gen_float_ok [of "[]" n 0] assms(2) by auto
  with h \<open>n \<le> 2 ^ 23\<close> show ?thesis by (auto simp: gen_vals_def)
qed

lemma arg_test_range_bounds: "0 < arg_test_range n" "arg_test_range n \<le> TEST_RANGE"
  by (simp_all add: arg_test_range_def TEST_RANGE_def)

lemmas gen_int_ok = gen_int_range [OF _ arg_test_range_bounds]
lemmas gen_float_arg_ok = gen_float_range [OF _ arg_test_range_bounds]

lemma test_function_same:
  assumes "arg_ranges t = int_ranges" "test_funct t = solution_funct t"
    "args t = 0 \<and> (\<exists>r. solution_funct t = Fun0 r) \<or> args t = 1 \<and> (\<exists>g. solution_funct t = Fun1 g) \<or>
     args t = 2 \<and> (\<exists>g. solution_funct t = Fun2 g) \<or> args t = 3 \<and> (\<exists>g. solution_funct t = Fun3 g)"
  shows "test_function default_opts rnd False t = Some (Inr 0)"
proof -
  obtain v0 where v0: "gen_vals default_opts (rnd 0) TMin TMax (arg_test_range (args t)) 0 = Some v0"
    using gen_int_ok [of 0] by fastforce
  obtain v1 where v1: "gen_vals default_opts (rnd 1) TMin TMax (arg_test_range (args t)) 1 = Some v1"
    using gen_int_ok [of 1] by fastforce
  obtain v2 where v2: "gen_vals default_opts (rnd 2) TMin TMax (arg_test_range (args t)) 2 = Some v2"
    using gen_int_ok [of 2] by fastforce
  show ?thesis using assms(3)
    by (elim disjE conjE exE)
      (use assms(1,2) v0 v1 v2 in \<open>simp_all add: test_function_def int_ranges_def test_0_arg_def test_1_arg_def
        test_2_arg_def test_3_arg_def until_error_none\<close>)
qed

lemma test_function_int_error:
  assumes "arg_ranges t = int_ranges" "args t = 1" "solution_funct t = Fun1 f" "test_funct t = Fun1 g"
    "f 0x80000000 \<noteq> g 0x80000000"
  shows "test_function default_opts rnd False t = Some (Inr 1)"
proof -
  obtain v0 where "gen_vals default_opts (rnd 0) TMin TMax (arg_test_range (args t)) 0 = Some v0" "v0 \<noteq> []"
    "hd v0 = 0x80000000" using gen_int_ok [of 0] by fastforce
  with assms show ?thesis
    by (simp add: test_function_def int_ranges_def test_1_arg_def until_error_first)
qed

lemma test_function_float_error:
  assumes "arg_ranges t = [(1, 1), (1, 1), (1, 1)]" "args t = 1" "solution_funct t = Fun1 f" "test_funct t = Fun1 g"
    "f 0 \<noteq> g 0"
  shows "test_function default_opts rnd False t = Some (Inr 1)"
proof -
  obtain v0 where "gen_vals default_opts (rnd 0) 1 1 (arg_test_range (args t)) 0 = Some v0" "v0 \<noteq> []"
    "hd v0 = 0" using gen_float_arg_ok [of 0] by fastforce
  with assms show ?thesis by (simp add: test_function_def test_1_arg_def until_error_first)
qed

lemma test_howManyBits_tmin: "test_howManyBits 0x80000000 = 32"
  by code_simp

lemma score_test_default:
  "test_function default_opts rnd False t = Some (Inr e) \<Longrightarrow>
     score_test default_opts rnd (\<lambda>_. False) t s =
       Some (Inr \<lparr>rows = rows s @ [(if e = 0 then rating t else 0, rating t, e, name t)], errors = errors s + e,
         points = points s + (if e = 0 then rating t else 0), max_points = max_points s + rating t\<rparr>)"
  by (simp add: score_test_def default_opts_def Let_def)

text \<open>
  C17. Run with its defaults and no timeout, \<open>btest\<close> finds no error in the nine finished puzzles, whatever
  random values it draws, and one in each of the four unfinished ones: it prints 20 points of 36.
  The hypotheses are the answers of the three floating-point references at the argument 0:
  twice 0.0 is 0.0, \<open>(int) 0.0\<close> is 0, and 1.0 has the bit pattern 0x3f800000.
\<close>

theorem btest_score:
  assumes "test_floatScale2 0 = 0" "test_floatFloat2Int 0 = 0" "test_floatPower2 0 = 0x3f800000"
  shows "run_tests default_opts rnd (\<lambda>_. False) (test_set test_floatScale2 test_floatFloat2Int test_floatPower2) =
    Some (Inr \<lparr>rows =
      [(1, 1, 0, ''bitXor''), (1, 1, 0, ''tmin''), (1, 1, 0, ''isTmax''), (2, 2, 0, ''allOddBits''),
       (2, 2, 0, ''negate''), (3, 3, 0, ''isAsciiDigit''), (3, 3, 0, ''conditional''),
       (3, 3, 0, ''isLessOrEqual''), (4, 4, 0, ''logicalNeg''), (0, 4, 1, ''howManyBits''),
       (0, 4, 1, ''floatScale2''), (0, 4, 1, ''floatFloat2Int''), (0, 4, 1, ''floatPower2'')],
      errors = 4, points = 20, max_points = 36\<rparr>)"
proof -
  have same: "test_bitXor = bitXor" "test_tmin = tmin" "test_isTmax = isTmax" "test_allOddBits = allOddBits"
    "test_negate = negate" "test_isAsciiDigit = isAsciiDigit" "test_conditional = conditional"
    "test_isLessOrEqual = isLessOrEqual" "test_logicalNeg = logicalNeg"
    by (auto simp only: fun_eq_iff puzzle_simps)
  note err = score_test_default [OF test_function_int_error] score_test_default [OF test_function_float_error]
  show ?thesis unfolding run_tests_def test_set_def same
    by (simp add: score_test_default [OF test_function_same] err assms howManyBits_def floatScale2_def
      floatFloat2Int_def floatPower2_def test_howManyBits_tmin)
qed

theorem btest_score_witness:
  "map_option (map_sum id errors) (run_tests default_opts (\<lambda>_ _. 0) (\<lambda>_. False)
     (test_set (\<lambda>u. 2 * u) (\<lambda>u. u) (\<lambda>x. 0x3f800000 + push_bit 23 x))) = Some (Inr 4)"
  using btest_score [of "\<lambda>u. 2 * u" "\<lambda>u. u" "\<lambda>x. 0x3f800000 + push_bit 23 x" "\<lambda>_ _. 0"] by simp

end
