(* ===== verification/Memlib.thy ===== *)
theory Memlib
  imports Prelude
begin

text \<open>
  The simulated memory system \<open>homework/CSAPP/lab/malloclab-handout/memlib.c\<close>. Addresses are byte
  offsets from \<open>mem_start_brk\<close>; the storage is a map from 8-byte words to their values, because the
  allocator above it only reads and writes aligned words. A read or write outside
  \<open>[mem_start_brk, mem_brk)\<close> or at an unaligned address is \<open>None\<close>.

  Of \<open>mm.c\<close> the macros that read and write words are here too.
\<close>

unbundle bit_operations_syntax

text \<open>\<open>None\<close> is the null pointer; \<open>(void*)-1\<close> is \<open>Some (-1)\<close>.\<close>

type_synonym ptr = "int option"

record heap =
  words :: "nat \<Rightarrow> nat"
  mem_brk :: int
  total_free_size :: nat

definition MAX_HEAP :: int where "MAX_HEAP = 20 * 2 ^ 20"

definition mem_init :: "(nat \<Rightarrow> nat) \<Rightarrow> heap" where
  "mem_init w = \<lparr>words = w, mem_brk = 0, total_free_size = 0\<rparr>"

definition mem_reset_brk :: "heap \<Rightarrow> heap" where
  "mem_reset_brk h = h\<lparr>mem_brk := 0\<rparr>"

definition mem_sbrk :: "int \<Rightarrow> heap \<Rightarrow> heap \<times> int" where
  "mem_sbrk incr h =
     (let old_brk = mem_brk h in
      if incr < 0 \<or> mem_brk h + incr > MAX_HEAP then (h, - 1)
      else (h\<lparr>mem_brk := mem_brk h + incr\<rparr>, old_brk))"

definition mem_heap_lo :: int where "mem_heap_lo = 0"

definition mem_heap_hi :: "heap \<Rightarrow> int" where "mem_heap_hi h = mem_brk h - 1"

definition mem_heapsize :: "heap \<Rightarrow> int" where "mem_heapsize h = mem_brk h"

text \<open>The conversion of the \<open>size_t\<close> that callers pass to the \<open>int\<close> parameter of \<open>mem_sbrk\<close>.\<close>

definition to_c_int :: "nat \<Rightarrow> int" where
  "to_c_int n = signed_take_bit 31 (int n)"

subsection \<open>Words\<close>

definition get :: "heap \<Rightarrow> int \<Rightarrow> nat option" where
  "get h p = (if 0 \<le> p \<and> p + 8 \<le> mem_brk h \<and> p mod 8 = 0 then Some (words h (nat (p div 8))) else None)"

definition put :: "heap \<Rightarrow> int \<Rightarrow> nat \<Rightarrow> heap option" where
  "put h p v =
     (if 0 \<le> p \<and> p + 8 \<le> mem_brk h \<and> p mod 8 = 0
      then Some (h\<lparr>words := (words h)(nat (p div 8) := v)\<rparr>) else None)"

text \<open>The address of word \<open>i\<close>, and the block pointer whose header is word \<open>i\<close>.\<close>

definition waddr :: "nat \<Rightarrow> int" where "waddr i = 8 * int i"

definition blkp :: "nat \<Rightarrow> int" where "blkp i = 8 * int i + 8"

lemma get_waddr [simp]: "8 * (int i + 1) \<le> mem_brk h \<Longrightarrow> get h (waddr i) = Some (words h i)"
  by (simp add: get_def waddr_def)

lemma put_waddr [simp]:
  "8 * (int i + 1) \<le> mem_brk h \<Longrightarrow> put h (waddr i) v = Some (h\<lparr>words := (words h)(i := v)\<rparr>)"
  by (simp add: put_def waddr_def)

lemma blkp_hdr [simp]: "blkp i - 8 = waddr i"
  by (simp add: waddr_def blkp_def)

lemma blkp_prev_ftr [simp]: "blkp (Suc i) - 16 = waddr i"
  by (simp add: waddr_def blkp_def)

lemma blkp_add [simp]: "blkp i + int (8 * s) = blkp (i + s)" "blkp i + 8 * int s = blkp (i + s)"
  by (simp_all add: blkp_def)

lemma blkp_diff [simp]: "c \<le> i \<Longrightarrow> blkp i - int (8 * c) = blkp (i - c)" "c \<le> i \<Longrightarrow> blkp i - 8 * int c = blkp (i - c)"
  by (simp_all add: blkp_def of_nat_diff)

lemma blkp_eq_8 [simp]: "blkp i = 8 \<longleftrightarrow> i = 0"
  by (simp add: blkp_def)

lemma mem_sbrk_ok: "0 \<le> incr \<Longrightarrow> mem_brk h + incr \<le> MAX_HEAP \<Longrightarrow>
    mem_sbrk incr h = (h\<lparr>mem_brk := mem_brk h + incr\<rparr>, mem_brk h)"
  by (simp add: mem_sbrk_def)

lemma mem_sbrk_fail: "incr < 0 \<or> mem_brk h + incr > MAX_HEAP \<Longrightarrow> mem_sbrk incr h = (h, - 1)"
  by (auto simp: mem_sbrk_def)

lemma to_c_int_small: "n < 2 ^ 31 \<Longrightarrow> to_c_int n = int n"
  unfolding to_c_int_def by (intro signed_take_bit_int_eq_self) auto

end
