(* ===== verification/Mm.thy ===== *)
theory Mm
  imports Memlib
begin

text \<open>
  The allocator \<open>homework/CSAPP/lab/malloclab-handout/mm.c\<close>: an implicit list of blocks with a header and
  a footer word, first fit, splitting, and a deferred pass \<open>coalesces\<close> that merges free neighbours.
\<close>

subsection \<open>Macros\<close>

definition ALIGN :: "nat \<Rightarrow> nat" where
  "ALIGN sz = (sz + 7) mod 2 ^ 64 div 8 * 8"

definition PACK :: "nat \<Rightarrow> nat \<Rightarrow> nat" where
  "PACK sz v = sz OR v"

definition size_add :: "nat \<Rightarrow> nat \<Rightarrow> nat" where
  "size_add a b = (a + b) mod 2 ^ 64"

definition word_size :: "nat \<Rightarrow> nat" where "word_size w = w div 8 * 8"

definition word_alloc :: "nat \<Rightarrow> nat" where "word_alloc w = w mod 2"

definition GET_SIZE :: "heap \<Rightarrow> int \<Rightarrow> nat option" where
  "GET_SIZE h p = map_option word_size (get h p)"

definition GET_ALLOC :: "heap \<Rightarrow> int \<Rightarrow> nat option" where
  "GET_ALLOC h p = map_option word_alloc (get h p)"

definition IS_END :: "heap \<Rightarrow> int \<Rightarrow> bool option" where
  "IS_END h p = map_option (\<lambda>w. w mod 8 = 7) (get h p)"

definition IS_BEGIN :: "int \<Rightarrow> bool" where
  "IS_BEGIN p \<longleftrightarrow> p = mem_heap_lo + 8"

definition HDRP :: "int \<Rightarrow> int" where
  "HDRP p = p - 8"

definition FTRP :: "heap \<Rightarrow> int \<Rightarrow> int option" where
  "FTRP h p = do { s \<leftarrow> GET_SIZE h (HDRP p); Some (p + int s - 16) }"

definition NEXT_BLK :: "heap \<Rightarrow> int \<Rightarrow> int option" where
  "NEXT_BLK h p = do { s \<leftarrow> GET_SIZE h (HDRP p); Some (p + int s) }"

definition PREV_BLK :: "heap \<Rightarrow> int \<Rightarrow> int option" where
  "PREV_BLK h p = do { s \<leftarrow> GET_SIZE h (HDRP (HDRP p)); Some (p - int s) }"

text \<open>Writing the header and then the footer of a block; the footer is found through the new header.\<close>

definition put_both :: "heap \<Rightarrow> int \<Rightarrow> nat \<Rightarrow> heap option" where
  "put_both h p w = do { h1 \<leftarrow> put h (HDRP p) w; f \<leftarrow> FTRP h1 p; put h1 f w }"

subsection \<open>Functions\<close>

definition final_free_size :: "heap \<Rightarrow> nat option" where
  "final_free_size h =
     (if mem_heapsize h = 8 then Some 0
      else do { let ht = mem_heap_hi h + 1 - 16;
                a \<leftarrow> GET_ALLOC h ht;
                if a \<noteq> 0 then Some 0 else GET_SIZE h ht })"

definition coalesce :: "heap \<Rightarrow> int \<Rightarrow> heap option" where
  "coalesce h p =
     do { prev_alloc \<leftarrow> (if \<not> IS_BEGIN p then do { q \<leftarrow> PREV_BLK h p; GET_ALLOC h (HDRP q) } else Some 1);
          n \<leftarrow> NEXT_BLK h p;
          next_alloc \<leftarrow> GET_ALLOC h (HDRP n);
          free_size \<leftarrow> GET_SIZE h (HDRP p);
          if prev_alloc \<noteq> 0 \<and> next_alloc \<noteq> 0 then put_both h p (PACK free_size 0)
          else if prev_alloc \<noteq> 0 \<and> next_alloc = 0
          then do { ns \<leftarrow> GET_SIZE h (HDRP n); put_both h p (PACK (size_add free_size ns) 0) }
          else if prev_alloc = 0 \<and> next_alloc \<noteq> 0
          then do { q \<leftarrow> PREV_BLK h p;
                    ps \<leftarrow> GET_SIZE h (HDRP q);
                    f \<leftarrow> FTRP h p;
                    h1 \<leftarrow> put h f (PACK (size_add free_size ps) 0);
                    q1 \<leftarrow> PREV_BLK h1 p;
                    put h1 (HDRP q1) (PACK (size_add free_size ps) 0) }
          else do { q \<leftarrow> PREV_BLK h p;
                    ps \<leftarrow> GET_SIZE h (HDRP q);
                    ns \<leftarrow> GET_SIZE h (HDRP n);
                    h1 \<leftarrow> put h (HDRP q) (PACK (size_add free_size (size_add ps ns)) 0);
                    n1 \<leftarrow> NEXT_BLK h1 p;
                    f \<leftarrow> FTRP h1 n1;
                    put h1 f (PACK (size_add free_size (size_add ps ns)) 0) } }"

partial_function (option) coalesces_loop :: "heap \<Rightarrow> int \<Rightarrow> heap option" where
  "coalesces_loop h p =
     do { e \<leftarrow> IS_END h (HDRP p);
          if e then Some h
          else do { a \<leftarrow> GET_ALLOC h (HDRP p);
                    h1 \<leftarrow> (if a = 0 then coalesce h p else Some h);
                    p1 \<leftarrow> NEXT_BLK h1 p;
                    coalesces_loop h1 p1 } }"

definition coalesces :: "heap \<Rightarrow> heap option" where
  "coalesces h = coalesces_loop h (mem_heap_lo + 8)"

partial_function (option) find_fit_loop :: "heap \<Rightarrow> int \<Rightarrow> nat \<Rightarrow> ptr option" where
  "find_fit_loop h p new_size =
     do { e \<leftarrow> IS_END h (HDRP p);
          if e then Some None
          else do { a \<leftarrow> GET_ALLOC h (HDRP p);
                    s \<leftarrow> GET_SIZE h (HDRP p);
                    if a = 0 \<and> s \<ge> new_size then Some (Some p)
                    else do { p1 \<leftarrow> NEXT_BLK h p; find_fit_loop h p1 new_size } } }"

definition find_fit_block :: "heap \<Rightarrow> nat \<Rightarrow> ptr option" where
  "find_fit_block h new_size = find_fit_loop h (mem_heap_lo + 8) new_size"

declare coalesces_loop.simps [code] find_fit_loop.simps [code]

text \<open>The difference of the two sizes is a \<open>size_t\<close>, so it wraps when the block is too small.\<close>

definition place :: "heap \<Rightarrow> int \<Rightarrow> nat \<Rightarrow> heap option" where
  "place h p new_size =
     do { free_size \<leftarrow> GET_SIZE h (HDRP p);
          let rest = (free_size + 2 ^ 64 - new_size) mod 2 ^ 64;
          if rest > 2 * 8
          then do { h1 \<leftarrow> put_both h p (PACK new_size 1);
                    q \<leftarrow> NEXT_BLK h1 p;
                    put_both h1 q (PACK rest 0) }
          else put_both h p (PACK free_size 1) }"

definition mm_init :: "heap \<Rightarrow> heap option" where
  "mm_init h = (let (h1, p) = mem_sbrk 8 h in put h1 p (PACK 0 7))"

text \<open>The end of \<open>mm_malloc\<close> and of \<open>mm_realloc\<close>: a new block at the break, with a new end mark.\<close>

definition extend_heap :: "heap \<Rightarrow> nat \<Rightarrow> (heap \<times> int) option" where
  "extend_heap h new_size =
     (let (h1, p) = mem_sbrk (to_c_int new_size) h in
      do { h2 \<leftarrow> put_both h1 p (PACK new_size 1);
           e \<leftarrow> NEXT_BLK h2 p;
           h3 \<leftarrow> put h2 (HDRP e) (PACK 0 7);
           Some (h3, p) })"

definition mm_malloc :: "heap \<Rightarrow> nat \<Rightarrow> (heap \<times> ptr) option" where
  "mm_malloc h sz =
     (if sz = 0 then Some (h, None)
      else do {
        let new_size = size_add (ALIGN sz) (2 * 8);
        p \<leftarrow> find_fit_block h new_size;
        case p of
          Some q \<Rightarrow> do { h1 \<leftarrow> place h q new_size; Some (h1, Some q) }
        | None \<Rightarrow> do {
            h1 \<leftarrow> (if total_free_size h \<ge> new_size then coalesces h else Some h);
            p1 \<leftarrow> find_fit_block h1 new_size;
            case p1 of
              Some q \<Rightarrow> do { h2 \<leftarrow> place h1 q new_size; Some (h2, Some q) }
            | None \<Rightarrow> do { _ \<leftarrow> final_free_size h1;
                          (h2, q) \<leftarrow> extend_heap h1 new_size;
                          Some (h2, Some q) } } })"

definition mm_free :: "heap \<Rightarrow> ptr \<Rightarrow> heap option" where
  "mm_free h ptr =
     (case ptr of None \<Rightarrow> Some h
      | Some p \<Rightarrow> do { free_size \<leftarrow> GET_SIZE h (HDRP p);
                      put_both (h\<lparr>total_free_size := size_add (total_free_size h) free_size\<rparr>) p
                        (PACK free_size 0) })"

text \<open>\<open>memcpy\<close> of whole words.\<close>

fun memcpy_words :: "heap \<Rightarrow> int \<Rightarrow> int \<Rightarrow> nat \<Rightarrow> heap option" where
  "memcpy_words h dst src 0 = Some h"
| "memcpy_words h dst src (Suc n) =
     do { w \<leftarrow> get h src; h1 \<leftarrow> put h dst w; memcpy_words h1 (dst + 8) (src + 8) n }"

definition move_block :: "heap \<Rightarrow> int \<Rightarrow> int \<Rightarrow> nat \<Rightarrow> (heap \<times> ptr) option" where
  "move_block h new_p p data_size =
     do { h1 \<leftarrow> memcpy_words h new_p p (data_size div 8);
          h2 \<leftarrow> mm_free h1 (Some p);
          Some (h2, Some new_p) }"

text \<open>A \<open>size\<close> of zero frees the block and then goes on with it.\<close>

definition mm_realloc :: "heap \<Rightarrow> ptr \<Rightarrow> nat \<Rightarrow> (heap \<times> ptr) option" where
  "mm_realloc h0 ptr sz =
     do {
       h \<leftarrow> (if sz = 0 then mm_free h0 ptr else Some h0);
       case ptr of
         None \<Rightarrow> mm_malloc h sz
       | Some p \<Rightarrow> do {
           let new_size = size_add (ALIGN sz) (2 * 8);
           old_size \<leftarrow> GET_SIZE h (HDRP p);
           let data_size = (old_size + 2 ^ 64 - 2 * 8) mod 2 ^ 64;
           if old_size = new_size then Some (h, Some p)
           else if old_size > new_size then do { h1 \<leftarrow> place h p new_size; Some (h1, Some p) }
           else do {
             np \<leftarrow> find_fit_block h new_size;
             case np of
               Some q \<Rightarrow> do { h1 \<leftarrow> place h q new_size; move_block h1 q p data_size }
             | None \<Rightarrow> do {
                 h1 \<leftarrow> (if total_free_size h > new_size then coalesces h else Some h);
                 np1 \<leftarrow> find_fit_block h1 new_size;
                 case np1 of
                   Some q \<Rightarrow> do { h2 \<leftarrow> place h1 q new_size; move_block h2 q p data_size }
                 | None \<Rightarrow> do { (h2, q) \<leftarrow> extend_heap h1 new_size; move_block h2 q p data_size } } } } }"

end
