(* ===== verification/MmInv.thy ===== *)
theory MmInv
  imports Mm
begin

text \<open>
  The heap invariant of \<open>mm.c\<close>. The headers tile the heap from its first word to the end mark. The footer of
  an allocated block repeats its header. The footer of a free block is weaker: after \<open>coalesces\<close> has
  merged four or more neighbours it may only describe a suffix of the block, but then the suffix starts with
  a stale header that agrees with the footer. This is what \<open>coalesces\<close> needs to stay inside free memory,
  and it is what every operation keeps.
\<close>

subsection \<open>Evaluating the macros\<close>

lemma PACK_simps [simp]: "PACK w 0 = w" "PACK (8 * s) (Suc 0) = 8 * s + 1" "PACK 0 7 = 7"
  by (simp_all add: PACK_def or_Suc_0_eq)

lemma word_simps [simp]:
  "word_size (8 * s) = 8 * s" "word_size (Suc (8 * s)) = 8 * s" "word_alloc (8 * s) = 0" "word_alloc (Suc (8 * s)) = 1"
  "word_size (8 * s + of_bool a) = 8 * s" "word_alloc (8 * s + of_bool a) = of_bool a"
  unfolding word_size_def word_alloc_def by (auto, presburger+)

lemma size_add_small: "a + b < 2 ^ 64 \<Longrightarrow> size_add a b = a + b"
  by (simp add: size_add_def)

definition inb :: "heap \<Rightarrow> nat \<Rightarrow> bool" where
  "inb h i \<longleftrightarrow> 8 * (int i + 1) \<le> mem_brk h"

lemma inb_words [simp]: "inb (h\<lparr>words := m\<rparr>) i = inb h i"
  by (simp add: inb_def)

lemma inb_mono: "inb h j \<Longrightarrow> i \<le> j \<Longrightarrow> inb h i"
  by (simp add: inb_def)

lemma HDRP_blkp [simp]: "HDRP (blkp i) = waddr i"
  by (simp add: HDRP_def)

lemma GET_blkp [simp]:
  "inb h i \<Longrightarrow> get h (waddr i) = Some (words h i)"
  "inb h i \<Longrightarrow> GET_SIZE h (waddr i) = Some (word_size (words h i))"
  "inb h i \<Longrightarrow> GET_ALLOC h (waddr i) = Some (word_alloc (words h i))"
  "inb h i \<Longrightarrow> IS_END h (waddr i) = Some (words h i mod 8 = 7)"
  "inb h i \<Longrightarrow> put h (waddr i) v = Some (h\<lparr>words := (words h)(i := v)\<rparr>)"
  by (simp_all add: inb_def GET_SIZE_def GET_ALLOC_def IS_END_def)

lemma IS_BEGIN_blkp [simp]: "IS_BEGIN (blkp i) \<longleftrightarrow> i = 0"
  by (simp add: IS_BEGIN_def mem_heap_lo_def)

lemma NEXT_BLK_ok: "inb h i \<Longrightarrow> word_size (words h i) = 8 * s \<Longrightarrow> NEXT_BLK h (blkp i) = Some (blkp (i + s))"
  by (simp add: NEXT_BLK_def)

lemma FTRP_ok:
  "inb h i \<Longrightarrow> word_size (words h i) = 8 * s \<Longrightarrow> 0 < s \<Longrightarrow> FTRP h (blkp i) = Some (waddr (i + s - 1))"
  by (simp add: FTRP_def) (simp add: blkp_def waddr_def of_nat_diff)

lemma PREV_BLK_ok:
  assumes "inb h i" "0 < i" "word_size (words h (i - 1)) = 8 * c" "c \<le> i"
  shows "PREV_BLK h (blkp i) = Some (blkp (i - c))"
proof -
  obtain j where i: "i = Suc j" using assms(2) by (cases i) auto
  have "HDRP (HDRP (blkp i)) = waddr j" by (simp add: i HDRP_def waddr_def blkp_def)
  moreover have "inb h j" using assms(1) i by (auto intro: inb_mono)
  ultimately show ?thesis using assms i by (simp add: PREV_BLK_def)
qed

abbreviation setw :: "heap \<Rightarrow> nat \<Rightarrow> nat \<Rightarrow> heap" where
  "setw h i v \<equiv> h\<lparr>words := (words h)(i := v)\<rparr>"

lemma put_both_ok:
  assumes "inb h (i + s - 1)" "word_size w = 8 * s" "0 < s"
  shows "put_both h (blkp i) w = Some (setw (setw h i w) (i + s - 1) w)"
proof -
  have i: "inb h i" using assms by (auto intro: inb_mono)
  then have "FTRP (setw h i w) (blkp i) = Some (waddr (i + s - 1))" using assms by (intro FTRP_ok) auto
  with i assms show ?thesis by (simp add: put_both_def)
qed

lemma int_blkp_0: "mem_heap_lo + 8 = blkp 0"
  by (simp add: mem_heap_lo_def blkp_def)

subsection \<open>The four cases of coalesce\<close>

declare distrib_left_numeral [simp del]

definition prev_allocated :: "(nat \<Rightarrow> nat) \<Rightarrow> nat \<Rightarrow> bool" where
  "prev_allocated m i \<longleftrightarrow> i = 0 \<or> (\<exists>c\<le>i. 0 < i \<and> word_size (m (i - 1)) = 8 * c \<and> word_alloc (m (i - c)) \<noteq> 0)"

lemma prev_alloc_read:
  assumes "inb h i" "prev_allocated (words h) i"
  shows "\<exists>a. a \<noteq> 0 \<and> (if \<not> IS_BEGIN (blkp i) then do { q \<leftarrow> PREV_BLK h (blkp i); GET_ALLOC h (HDRP q) } else Some 1) = Some a"
proof (cases "i = 0")
  case False
  then obtain c where c: "c \<le> i" "word_size (words h (i - 1)) = 8 * c" "word_alloc (words h (i - c)) \<noteq> 0"
    using assms(2) by (auto simp: prev_allocated_def)
  have "inb h (i - c)" using assms(1) by (auto intro: inb_mono)
  with c False assms(1) PREV_BLK_ok [of h i c] show ?thesis by simp
qed simp

lemma coalesce_none:
  assumes "inb h (i + s)" "prev_allocated (words h) i" "words h i = 8 * s" "0 < s" "word_alloc (words h (i + s)) \<noteq> 0"
  shows "coalesce h (blkp i) = Some (setw (setw h i (8 * s)) (i + s - 1) (8 * s))"
proof -
  have i: "inb h i" and l: "inb h (i + s - 1)" using assms(1) by (auto intro: inb_mono)
  obtain a where "a \<noteq> 0" "(if \<not> IS_BEGIN (blkp i) then do { q \<leftarrow> PREV_BLK h (blkp i); GET_ALLOC h (HDRP q) } else Some 1) = Some a"
    using prev_alloc_read [OF i assms(2)] by blast
  then show ?thesis
    using i l assms NEXT_BLK_ok [of h i s] put_both_ok [of h i s "8 * s"] by (simp add: coalesce_def)
qed

lemma coalesce_next:
  assumes "inb h (i + s + t)" "prev_allocated (words h) i" "words h i = 8 * s" "0 < s"
    "words h (i + s) = 8 * t" "8 * (s + t) < 2 ^ 64"
  shows "coalesce h (blkp i) = Some (setw (setw h i (8 * (s + t))) (i + (s + t) - 1) (8 * (s + t)))"
proof -
  have i: "inb h i" "inb h (i + s)" "inb h (i + (s + t) - 1)" using assms(1) by (auto intro: inb_mono)
  obtain a where "a \<noteq> 0" "(if \<not> IS_BEGIN (blkp i) then do { q \<leftarrow> PREV_BLK h (blkp i); GET_ALLOC h (HDRP q) } else Some 1) = Some a"
    using prev_alloc_read [OF i(1) assms(2)] by blast
  moreover have "size_add (8 * s) (8 * t) = 8 * (s + t)" using assms(6) by (simp add: size_add_small distrib_left)
  ultimately show ?thesis
    using i assms NEXT_BLK_ok [of h i s] put_both_ok [of h i "s + t" "8 * (s + t)"] by (simp add: coalesce_def)
qed

lemma coalesce_prev:
  assumes "inb h (i + s)" "0 < i" "words h (i - 1) = 8 * c" "0 < c" "c \<le> i" "words h (i - c) = 8 * c"
    "words h i = 8 * s" "0 < s" "word_alloc (words h (i + s)) \<noteq> 0" "8 * (s + c) < 2 ^ 64"
  shows "coalesce h (blkp i) = Some (setw (setw h (i + s - 1) (8 * (s + c))) (i - c) (8 * (s + c)))"
proof -
  have i: "inb h i" "inb h (i - c)" "inb h (i + s - 1)" "inb h (i - 1)" using assms(1) by (auto intro: inb_mono)
  have add: "size_add (8 * s) (8 * c) = 8 * (s + c)" using assms(10) by (simp add: size_add_small distrib_left)
  have "PREV_BLK (setw h (i + s - 1) (8 * (s + c))) (blkp i) = Some (blkp (i - c))"
    using assms i by (intro PREV_BLK_ok) auto
  then show ?thesis
    using i assms add NEXT_BLK_ok [of h i s] PREV_BLK_ok [of h i c] FTRP_ok [of h i s]
    by (simp add: coalesce_def)
qed

lemma coalesce_both:
  assumes "inb h (i + s + t)" "0 < i" "words h (i - 1) = 8 * c" "0 < c" "c \<le> i" "words h (i - c) = 8 * c"
    "words h i = 8 * s" "0 < s" "words h (i + s) = 8 * t" "0 < t" "8 * (s + (c + t)) < 2 ^ 64"
  shows "coalesce h (blkp i) = Some (setw (setw h (i - c) (8 * (s + (c + t)))) (i + s + t - 1) (8 * (s + (c + t))))"
proof -
  have i: "inb h i" "inb h (i - c)" "inb h (i + s)" "inb h (i - 1)" "inb h (i + s + t - 1)"
    using assms(1) by (auto intro: inb_mono)
  have add: "size_add (8 * s) (size_add (8 * c) (8 * t)) = 8 * (s + (c + t))"
    using assms(11) by (simp add: size_add_small distrib_left)
  let ?h = "setw h (i - c) (8 * (s + (c + t)))"
  have "NEXT_BLK ?h (blkp i) = Some (blkp (i + s))" using assms i by (intro NEXT_BLK_ok) auto
  moreover have "FTRP ?h (blkp (i + s)) = Some (waddr (i + s + t - 1))" using assms i by (intro FTRP_ok) auto
  ultimately show ?thesis
    using i assms add NEXT_BLK_ok [of h i s] PREV_BLK_ok [of h i c] by (simp add: coalesce_def)
qed


subsection \<open>Tilings\<close>

definition foot :: "(nat \<Rightarrow> nat) \<Rightarrow> nat \<Rightarrow> nat \<Rightarrow> bool \<Rightarrow> bool" where
  "foot m i s a \<longleftrightarrow>
     (if a then m (i + s - 1) = 8 * s + 1
      else \<exists>c. 2 \<le> c \<and> c \<le> s \<and> m (i + s - 1) = 8 * c \<and> m (i + s - c) = 8 * c)"

fun tiles :: "(nat \<Rightarrow> nat) \<Rightarrow> nat \<Rightarrow> (nat \<times> bool) list \<Rightarrow> nat \<Rightarrow> bool" where
  "tiles m i [] e \<longleftrightarrow> i = e"
| "tiles m i ((s, a) # bs) e \<longleftrightarrow>
     3 \<le> s \<and> m i = 8 * s + of_bool a \<and> foot m i s a \<and> tiles m (i + s) bs e"

fun allocs :: "nat \<Rightarrow> (nat \<times> bool) list \<Rightarrow> (nat \<times> nat) set" where
  "allocs i [] = {}"
| "allocs i ((s, a) # bs) = (if a then {(i, s)} else {}) \<union> allocs (i + s) bs"

definition same_on :: "(nat \<times> nat) set \<Rightarrow> (nat \<Rightarrow> nat) \<Rightarrow> (nat \<Rightarrow> nat) \<Rightarrow> bool" where
  "same_on A m m' \<longleftrightarrow> (\<forall>(k, s) \<in> A. \<forall>j. k \<le> j \<longrightarrow> j < k + s \<longrightarrow> m' j = m j)"

definition span :: "(nat \<times> bool) list \<Rightarrow> nat" where
  "span bs = sum_list (map fst bs)"

lemma span_simps [simp]: "span [] = 0" "span ((s, a) # bs) = s + span bs" "span (xs @ ys) = span xs + span ys"
  by (simp_all add: span_def)

lemma tiles_span: "tiles m i bs e \<Longrightarrow> e = i + span bs"
  by (induction m i bs e rule: tiles.induct) auto

lemma tiles_append: "tiles m i (xs @ ys) e \<longleftrightarrow> tiles m i xs (i + span xs) \<and> tiles m (i + span xs) ys e"
  by (induction xs arbitrary: i) (auto simp: add.assoc)

lemma allocs_append: "allocs i (xs @ ys) = allocs i xs \<union> allocs (i + span xs) ys"
  by (induction xs arbitrary: i) (auto simp: add.assoc)

lemma allocs_within: "(k, s) \<in> allocs i bs \<Longrightarrow> i \<le> k \<and> k + s \<le> i + span bs"
  by (induction i bs rule: allocs.induct) (auto split: if_splits)

lemma foot_cong: "0 < s \<Longrightarrow> (\<And>j. i \<le> j \<Longrightarrow> j < i + s \<Longrightarrow> m' j = m j) \<Longrightarrow> foot m' i s a = foot m i s a"
  unfolding foot_def by (cases a) (auto intro!: ex_cong1)

lemma tiles_cong:
  "(\<And>j. i \<le> j \<Longrightarrow> j < e \<Longrightarrow> m' j = m j) \<Longrightarrow> tiles m i bs e \<Longrightarrow> tiles m' i bs e"
proof (induction m i bs e rule: tiles.induct)
  case (2 m i s a bs e)
  have e: "i + s \<le> e" using "2.prems"(2) tiles_span by fastforce
  have "foot m' i s a = foot m i s a" using 2 e by (intro foot_cong) auto
  then show ?case using 2 e by auto
qed auto

lemma same_on_refl [simp]: "same_on A m m"
  by (simp add: same_on_def)

lemma same_on_trans: "same_on A m m' \<Longrightarrow> same_on A m' m'' \<Longrightarrow> same_on A m m''"
  by (fastforce simp: same_on_def)

lemma same_on_subset: "same_on A m m' \<Longrightarrow> B \<subseteq> A \<Longrightarrow> same_on B m m'"
  by (auto simp: same_on_def)

text \<open>Writes between two tiled parts leave both as they were.\<close>

lemma tiles_frame:
  assumes "tiles m i xs a" "tiles m b ys e" "a \<le> b" "\<And>j. j < a \<or> b \<le> j \<Longrightarrow> m' j = m j"
  shows "tiles m' i xs a" "tiles m' b ys e" "same_on (allocs i xs \<union> allocs b ys) m m'"
proof -
  show "tiles m' i xs a" "tiles m' b ys e" using assms by (auto intro: tiles_cong)
  have ab: "a = i + span xs" "e = b + span ys" using assms tiles_span by auto
  show "same_on (allocs i xs \<union> allocs b ys) m m'"
  proof -
    have "m' j = m j" if "(k, s) \<in> allocs i xs \<union> allocs b ys" "k \<le> j" "j < k + s" for k s j
    proof (rule assms(4))
      show "j < a \<or> b \<le> j"
        using that allocs_within [of k s i xs] allocs_within [of k s b ys] ab(1) by auto
    qed
    then show ?thesis by (auto simp: same_on_def)
  qed
qed

definition heap_inv :: "heap \<Rightarrow> (nat \<times> bool) list \<Rightarrow> bool" where
  "heap_inv h bs \<longleftrightarrow> tiles (words h) 0 bs (span bs) \<and> words h (span bs) = 7 \<and>
     mem_brk h = 8 * (int (span bs) + 1) \<and> mem_brk h \<le> MAX_HEAP"

subsection \<open>coalesces\<close>

text \<open>What a run of the loop must deliver from memory \<open>m\<close>.\<close>

definition merged :: "(nat \<times> nat) set \<Rightarrow> nat \<Rightarrow> heap \<Rightarrow> heap \<Rightarrow> bool" where
  "merged A e h h' \<longleftrightarrow> mem_brk h' = mem_brk h \<and> total_free_size h' = total_free_size h \<and> words h' e = 7 \<and>
     same_on A (words h) (words h') \<and> (\<exists>zs. tiles (words h') 0 zs e \<and> allocs 0 zs = A)"

definition at_block :: "heap \<Rightarrow> (nat \<times> bool) list \<Rightarrow> (nat \<times> bool) list \<Rightarrow> bool" where
  "at_block h xs ys \<longleftrightarrow> heap_inv h (xs @ ys) \<and>
     (\<forall>xs' s t ys'. xs = xs' @ [(s, False)] \<longrightarrow> ys = (t, False) # ys' \<longrightarrow> words h (span xs - 1) = 8 * s)"

definition at_stale :: "heap \<Rightarrow> (nat \<times> bool) list \<Rightarrow> nat \<Rightarrow> nat \<Rightarrow> nat \<Rightarrow> (nat \<times> bool) list \<Rightarrow> bool" where
  "at_stale h xs s c t ys \<longleftrightarrow> heap_inv h (xs @ (s, False) # ys) \<and> 2 \<le> c \<and> 3 \<le> t \<and> c + t < s \<and>
     words h (span xs + s - t) = 8 * t \<and> words h (span xs + s - t - 1) = 8 * c \<and>
     words h (span xs + s - t - c) = 8 * c \<and> words h (span xs + s - 1) = 8 * s"

lemma heap_inv_split:
  assumes "heap_inv h (xs @ ys)"
  shows "tiles (words h) 0 xs (span xs)" "tiles (words h) (span xs) ys (span xs + span ys)"
    "words h (span xs + span ys) = 7" "mem_brk h = 8 * (int (span xs + span ys) + 1)"
    "\<And>j. j \<le> span xs + span ys \<Longrightarrow> inb h j" "8 * (int (span xs + span ys) + 1) \<le> MAX_HEAP"
  using assms by (auto simp: heap_inv_def tiles_append inb_def)

lemma heap_invI:
  assumes "tiles (words h) 0 xs (span xs)" "tiles (words h) (span xs) ys (span xs + span ys)"
    "words h (span xs + span ys) = 7" "mem_brk h = 8 * (int (span xs + span ys) + 1)" "mem_brk h \<le> MAX_HEAP"
  shows "heap_inv h (xs @ ys)"
  using assms by (simp add: heap_inv_def tiles_append)

lemma small_span: "heap_inv h bs \<Longrightarrow> n \<le> span bs \<Longrightarrow> 8 * n < 2 ^ 64"
  by (auto simp: heap_inv_def MAX_HEAP_def)

lemma next_word:
  assumes "heap_inv h (xs @ ys)"
  shows "(\<exists>t ys'. ys = (t, False) # ys' \<and> words h (span xs) = 8 * t \<and> 3 \<le> t) \<or>
    word_alloc (words h (span xs)) \<noteq> 0 \<and> (ys = [] \<or> (\<exists>t ys'. ys = (t, True) # ys'))"
proof (cases ys)
  case Nil
  then show ?thesis using heap_inv_split(3) [OF assms] by (simp add: word_alloc_def)
next
  case (Cons y ys')
  then show ?thesis using heap_inv_split(2) [OF assms] by (cases y; cases "snd y") auto
qed

lemma prev_word:
  assumes "heap_inv h (xs @ ys)" "\<forall>xs' s. xs \<noteq> xs' @ [(s, False)]"
  shows "prev_allocated (words h) (span xs)"
proof (cases xs rule: rev_cases)
  case Nil
  then show ?thesis by (simp add: prev_allocated_def)
next
  case (snoc xs' y)
  with assms(2) obtain s where y: "xs = xs' @ [(s, True)]" by (cases y) (metis (full_types))
  then have "3 \<le> s" "words h (span xs') = 8 * s + 1" "words h (span xs' + s - 1) = 8 * s + 1"
    using heap_inv_split(1) [OF assms(1)] by (auto simp: tiles_append foot_def)
  then show ?thesis unfolding prev_allocated_def
    by (intro disjI2 exI [of _ s]) (simp add: y)
qed


lemma tiles_one: "tiles m i [(s, a)] e \<longleftrightarrow> 3 \<le> s \<and> m i = 8 * s + of_bool a \<and> foot m i s a \<and> e = i + s"
  by auto

lemma foot_exact: "2 \<le> s \<Longrightarrow> m i = 8 * s \<Longrightarrow> m (i + s - 1) = 8 * s \<Longrightarrow> foot m i s False"
  by (auto simp: foot_def intro!: exI [of _ s])

text \<open>Replacing the blocks \<open>mid\<close> by \<open>mid'\<close>, when only words of that part are written.\<close>

lemma heap_inv_replace:
  assumes "heap_inv h (xs @ mid @ ys)" "span mid' = span mid" "mem_brk h' = mem_brk h"
    "tiles (words h') (span xs) mid' (span xs + span mid')"
    "\<And>j. j < span xs \<or> span xs + span mid \<le> j \<Longrightarrow> words h' j = words h j"
  shows "heap_inv h' (xs @ mid' @ ys)"
    "same_on (allocs 0 xs \<union> allocs (span xs + span mid) ys) (words h) (words h')"
proof -
  let ?b = "span xs + span mid"
  have t: "tiles (words h) 0 xs (span xs)" "tiles (words h) ?b ys (?b + span ys)"
    using assms(1) by (auto simp: heap_inv_def tiles_append add.assoc)
  note fr = tiles_frame [OF t _ assms(5), simplified]
  show "same_on (allocs 0 xs \<union> allocs ?b ys) (words h) (words h')" by (rule fr(3))
  have "words h' (?b + span ys) = 7" using assms(1,5) by (simp add: heap_inv_def add.assoc)
  with assms(1-4) fr(1,2) show "heap_inv h' (xs @ mid' @ ys)"
    by (simp add: heap_inv_def tiles_append add.assoc)
qed

definition same_heap :: "heap \<Rightarrow> (nat \<times> bool) list \<Rightarrow> heap \<Rightarrow> (nat \<times> bool) list \<Rightarrow> bool" where
  "same_heap h bs h' bs' \<longleftrightarrow> allocs 0 bs' = allocs 0 bs \<and> span bs' = span bs \<and>
     same_on (allocs 0 bs) (words h) (words h') \<and> mem_brk h' = mem_brk h \<and> total_free_size h' = total_free_size h"

lemma merged_step:
  assumes "merged (allocs 0 bs') (span bs') h' h''" "same_heap h bs h' bs'"
  shows "merged (allocs 0 bs) (span bs) h h''"
  using assms same_on_trans unfolding merged_def same_heap_def by metis

lemma same_heap_replace:
  assumes "heap_inv h (xs @ mid @ ys)" "span mid' = span mid" "mem_brk h' = mem_brk h"
    "tiles (words h') (span xs) mid' (span xs + span mid')" "total_free_size h' = total_free_size h"
    "\<And>j. j < span xs \<or> span xs + span mid \<le> j \<Longrightarrow> words h' j = words h j"
    "\<forall>x \<in> set mid. \<not> snd x" "\<forall>x \<in> set mid'. \<not> snd x"
  shows "heap_inv h' (xs @ mid' @ ys)" "same_heap h (xs @ mid @ ys) h' (xs @ mid' @ ys)"
proof -
  have none: "allocs i bs = {}" if "\<forall>x \<in> set bs. \<not> snd x" for i bs
    using that by (induction i bs rule: allocs.induct) auto
  show "heap_inv h' (xs @ mid' @ ys)" by (rule heap_inv_replace(1) [OF assms(1-4,6)])
  show "same_heap h (xs @ mid @ ys) h' (xs @ mid' @ ys)"
    using heap_inv_replace(2) [OF assms(1-4,6)] assms(2,3,5) none [OF assms(7)] none [OF assms(8)]
    by (simp add: same_heap_def allocs_append)
qed

lemma coalesces_loop_skip:
  assumes "inb h (i + s)" "words h i = 8 * s + 1"
  shows "coalesces_loop h (blkp i) = coalesces_loop h (blkp (i + s))"
proof -
  have "inb h i" using assms(1) by (auto intro: inb_mono)
  moreover have "(8 * s + 1) mod 8 \<noteq> 7" by presburger
  ultimately show ?thesis using assms NEXT_BLK_ok [of h i s] by (subst coalesces_loop.simps) simp
qed

lemma coalesces_loop_free:
  assumes "inb h i" "words h i = 8 * s" "coalesce h (blkp i) = Some h'" "mem_brk h' = mem_brk h" "words h' i = 8 * s'"
  shows "coalesces_loop h (blkp i) = coalesces_loop h' (blkp (i + s'))"
proof -
  have "inb h' i" using assms(1,4) by (simp add: inb_def)
  then show ?thesis using assms NEXT_BLK_ok [of h' i s'] by (subst coalesces_loop.simps) simp
qed


text \<open>One step of the loop at a block of the tiling.\<close>

lemma step_alloc:
  assumes "at_block h xs ((s, True) # ys)"
  shows "coalesces_loop h (blkp (span xs)) = coalesces_loop h (blkp (span (xs @ [(s, True)])))"
    "at_block h (xs @ [(s, True)]) ys"
proof -
  have inv: "heap_inv h (xs @ (s, True) # ys)" using assms by (simp add: at_block_def)
  then show "coalesces_loop h (blkp (span xs)) = coalesces_loop h (blkp (span (xs @ [(s, True)])))"
    using heap_inv_split(2,5) [OF inv] by (simp add: coalesces_loop_skip)
  show "at_block h (xs @ [(s, True)]) ys" using inv by (simp add: at_block_def)
qed

lemma step_first_free:
  assumes "at_block h xs ((s, False) # ys)" "\<forall>xs' r. xs \<noteq> xs' @ [(r, False)]"
  shows "\<exists>h' xs' ys'. coalesces_loop h (blkp (span xs)) = coalesces_loop h' (blkp (span xs')) \<and> at_block h' xs' ys' \<and>
    same_heap h (xs @ (s, False) # ys) h' (xs' @ ys') \<and> length ys' \<le> length ys"
proof -
  have inv: "heap_inv h (xs @ (s, False) # ys)" using assms by (simp add: at_block_def)
  note sp = heap_inv_split [OF inv]
  have s: "3 \<le> s" "words h (span xs) = 8 * s" "tiles (words h) (span xs + s) ys (span xs + (s + span ys))"
    using sp(2) by auto
  have ib: "inb h (span xs)" "inb h (span xs + s)" using sp(5) by auto
  have prev: "prev_allocated (words h) (span xs)" using prev_word [OF inv assms(2)] .
  have nxt: "(\<exists>t ys'. ys = (t, False) # ys' \<and> words h (span xs + s) = 8 * t \<and> 3 \<le> t) \<or>
    word_alloc (words h (span xs + s)) \<noteq> 0"
    using next_word [of h "xs @ [(s, False)]" ys] inv by auto
  then show ?thesis
  proof
    assume "word_alloc (words h (span xs + s)) \<noteq> 0"
    let ?h = "setw (setw h (span xs) (8 * s)) (span xs + s - 1) (8 * s)"
    have c: "coalesce h (blkp (span xs)) = Some ?h"
      using ib(2) prev s(2) _ \<open>word_alloc (words h (span xs + s)) \<noteq> 0\<close> by (rule coalesce_none) (use s in simp)
    have "coalesces_loop h (blkp (span xs)) = coalesces_loop ?h (blkp (span (xs @ [(s, False)])))"
      using coalesces_loop_free [OF ib(1) s(2) c, of s] s(1) by simp
    moreover have "heap_inv ?h (xs @ [(s, False)] @ ys)" "same_heap h (xs @ [(s, False)] @ ys) ?h (xs @ [(s, False)] @ ys)"
      by (rule same_heap_replace [where mid = "[(s, False)]"]; use inv s in \<open>auto intro!: foot_exact\<close>)+
    moreover have "words ?h (span (xs @ [(s, False)]) - 1) = 8 * s" by simp
    ultimately show ?thesis
      by (intro exI [of _ ?h] exI [of _ "xs @ [(s, False)]"] exI [of _ ys]) (simp add: at_block_def)
  next
    assume "\<exists>t ys'. ys = (t, False) # ys' \<and> words h (span xs + s) = 8 * t \<and> 3 \<le> t"
    then obtain t ys' where t: "ys = (t, False) # ys'" "words h (span xs + s) = 8 * t" "3 \<le> t" by auto
    let ?h = "setw (setw h (span xs) (8 * (s + t))) (span xs + (s + t) - 1) (8 * (s + t))"
    have ib': "inb h (span xs + s + t)" using sp(5) t by simp
    have "8 * (s + t) < 2 ^ 64" using small_span [OF inv] t by simp
    then have c: "coalesce h (blkp (span xs)) = Some ?h"
      using ib' prev s t by (intro coalesce_next) auto
    have "coalesces_loop h (blkp (span xs)) = coalesces_loop ?h (blkp (span (xs @ [(s + t, False)])))"
      using coalesces_loop_free [OF ib(1) s(2) c, of "s + t"] s(1) by simp
    moreover have "heap_inv ?h (xs @ [(s + t, False)] @ ys')"
      "same_heap h (xs @ [(s, False), (t, False)] @ ys') ?h (xs @ [(s + t, False)] @ ys')"
      by (rule same_heap_replace [where mid = "[(s, False), (t, False)]"]; use inv s t in \<open>auto intro!: foot_exact\<close>)+
    moreover have "words ?h (span (xs @ [(s + t, False)]) - 1) = 8 * (s + t)" by simp
    ultimately show ?thesis
      by (intro exI [of _ ?h] exI [of _ "xs @ [(s + t, False)]"] exI [of _ ys']) (simp add: at_block_def t)
  qed
qed


text \<open>
  A free block behind a free block with an exact footer. \<open>c\<close> describes the footer of the second block; it may
  reach back into the first one.
\<close>

lemma step_join:
  assumes inv: "heap_inv h0 (xs @ [(r, False), (s, False)] @ ys)"
    and brk: "mem_brk h = mem_brk h0" "total_free_size h = total_free_size h0"
    and fr: "\<And>j. j < span xs \<or> span xs + r + s \<le> j \<Longrightarrow> words h j = words h0 j"
    and w: "words h (span xs) = 8 * r" "words h (span xs + r - 1) = 8 * r" "words h (span xs + r) = 8 * s"
      "words h (span xs + r + s - 1) = 8 * c" "words h (span xs + r + s - c) = 8 * c" "2 \<le> c" "c < r + s"
  shows "(\<exists>h'. coalesces_loop h (blkp (span xs + r)) = coalesces_loop h' (blkp (span (xs @ [(r + s, False)]))) \<and>
      at_block h' (xs @ [(r + s, False)]) ys \<and>
      same_heap h0 (xs @ [(r, False), (s, False)] @ ys) h' (xs @ [(r + s, False)] @ ys)) \<or>
    (\<exists>h' t ys'. ys = (t, False) # ys' \<and>
      coalesces_loop h (blkp (span xs + r)) = coalesces_loop h' (blkp (span xs + (r + s + t) - t)) \<and>
      at_stale h' xs (r + s + t) c t ys' \<and>
      same_heap h0 (xs @ [(r, False), (s, False)] @ ys) h' (xs @ (r + s + t, False) # ys'))"
proof -
  note sp = heap_inv_split [OF inv]
  have rs: "3 \<le> r" "3 \<le> s" using sp(2) by auto
  have ib: "inb h j" if "j \<le> span xs + (r + s + span ys)" for j using sp(5) [of j] that brk by (simp add: inb_def)
  have nxt: "(\<exists>t ys'. ys = (t, False) # ys' \<and> words h (span xs + r + s) = 8 * t \<and> 3 \<le> t) \<or>
    word_alloc (words h (span xs + r + s)) \<noteq> 0 \<and> (\<forall>t ys'. ys \<noteq> (t, False) # ys')"
    using next_word [of h0 "xs @ [(r, False), (s, False)]" ys] inv fr [of "span xs + r + s"] by (auto simp: add.assoc)
  then show ?thesis
  proof
    assume na: "word_alloc (words h (span xs + r + s)) \<noteq> 0 \<and> (\<forall>t ys'. ys \<noteq> (t, False) # ys')"
    let ?h = "setw (setw h (span xs + r + s - 1) (8 * (s + r))) (span xs + r - r) (8 * (s + r))"
    have "8 * (s + r) < 2 ^ 64" using small_span [OF inv] by simp
    then have c: "coalesce h (blkp (span xs + r)) = Some ?h"
      using ib na w rs by (intro coalesce_prev) auto
    have "coalesces_loop h (blkp (span xs + r)) = coalesces_loop ?h (blkp (span xs + r + s))"
      using ib w rs by (intro coalesces_loop_free [OF _ _ c]) auto
    moreover have "heap_inv ?h (xs @ [(r + s, False)] @ ys)"
      "same_heap h0 (xs @ [(r, False), (s, False)] @ ys) ?h (xs @ [(r + s, False)] @ ys)"
    proof -
      have e: "8 * (s + r) = 8 * (r + s)" "span xs + r + s - 1 = span xs + (r + s) - 1" by simp_all
      have ti: "tiles (words ?h) (span xs) [(r + s, False)] (span xs + span [(r + s, False)])"
        unfolding e using rs by (auto intro!: foot_exact)
      have fj: "words ?h j = words h0 j" if "j < span xs \<or> span xs + span [(r, False), (s, False)] \<le> j" for j
        using that rs fr [of j] by auto
      show "heap_inv ?h (xs @ [(r + s, False)] @ ys)"
        "same_heap h0 (xs @ [(r, False), (s, False)] @ ys) ?h (xs @ [(r + s, False)] @ ys)"
        by (rule same_heap_replace [OF inv _ _ ti _ fj]; simp add: brk)+
    qed
    moreover have "at_block ?h (xs @ [(r + s, False)]) ys"
      using \<open>heap_inv ?h (xs @ [(r + s, False)] @ ys)\<close> na by (simp add: at_block_def)
    ultimately show ?thesis by (intro disjI1 exI [of _ ?h]) (simp add: add.assoc)
  next
    assume "\<exists>t ys'. ys = (t, False) # ys' \<and> words h (span xs + r + s) = 8 * t \<and> 3 \<le> t"
    then obtain t ys' where t: "ys = (t, False) # ys'" "words h (span xs + r + s) = 8 * t" "3 \<le> t" by auto
    let ?S = "8 * (s + (r + t))"
    let ?h = "setw (setw h (span xs + r - r) ?S) (span xs + r + s + t - 1) ?S"
    have "?S < 2 ^ 64" using small_span [OF inv] t by simp
    then have c: "coalesce h (blkp (span xs + r)) = Some ?h"
      using ib t w rs by (intro coalesce_both) auto
    have "coalesces_loop h (blkp (span xs + r)) = coalesces_loop ?h (blkp (span xs + r + s))"
      using ib w rs t by (intro coalesces_loop_free [OF _ _ c]) auto
    moreover have "heap_inv ?h (xs @ [(r + s + t, False)] @ ys')"
      "same_heap h0 (xs @ [(r, False), (s, False), (t, False)] @ ys') ?h (xs @ [(r + s + t, False)] @ ys')"
    proof -
      have i0: "heap_inv h0 (xs @ [(r, False), (s, False), (t, False)] @ ys')" using inv t(1) by simp
      have e: "?S = 8 * (r + s + t)" "span xs + r + s + t - 1 = span xs + (r + s + t) - 1" by simp_all
      have ti: "tiles (words ?h) (span xs) [(r + s + t, False)] (span xs + span [(r + s + t, False)])"
        unfolding e using rs by (auto intro!: foot_exact)
      have fj: "words ?h j = words h0 j" if "j < span xs \<or> span xs + span [(r, False), (s, False), (t, False)] \<le> j" for j
        using that rs fr [of j] by auto
      show "heap_inv ?h (xs @ [(r + s + t, False)] @ ys')"
        "same_heap h0 (xs @ [(r, False), (s, False), (t, False)] @ ys') ?h (xs @ [(r + s + t, False)] @ ys')"
        by (rule same_heap_replace [OF i0 _ _ ti _ fj]; simp add: brk)+
    qed
    moreover have "at_stale ?h xs (r + s + t) c t ys'"
      using \<open>heap_inv ?h (xs @ [(r + s + t, False)] @ ys')\<close> w t rs
      by (auto simp: at_stale_def add.commute add.left_commute)
    ultimately show ?thesis using t by (intro disjI2 exI [of _ ?h] exI [of _ t] exI [of _ ys']) (simp add: add.assoc)
  qed
qed

lemma step_second_free:
  assumes "at_block h (xs @ [(r, False)]) ((s, False) # ys)"
  shows "(\<exists>h' xs'. coalesces_loop h (blkp (span (xs @ [(r, False)]))) = coalesces_loop h' (blkp (span xs')) \<and>
      at_block h' xs' ys \<and> same_heap h (xs @ [(r, False), (s, False)] @ ys) h' (xs' @ ys)) \<or>
    (\<exists>h' u c t ys'. length ys' < length ys \<and>
      coalesces_loop h (blkp (span (xs @ [(r, False)]))) = coalesces_loop h' (blkp (span xs + u - t)) \<and>
      at_stale h' xs u c t ys' \<and> same_heap h (xs @ [(r, False), (s, False)] @ ys) h' (xs @ (u, False) # ys'))"
proof -
  have inv: "heap_inv h (xs @ [(r, False), (s, False)] @ ys)" using assms by (simp add: at_block_def)
  have ex: "words h (span xs + r - 1) = 8 * r" using assms by (simp add: at_block_def)
  have b: "3 \<le> r" "words h (span xs) = 8 * r" "words h (span xs + r) = 8 * s" "foot (words h) (span xs + r) s False"
    using heap_inv_split(2) [OF inv] by auto
  then obtain c where "2 \<le> c" "c \<le> s" "words h (span xs + r + s - 1) = 8 * c" "words h (span xs + r + s - c) = 8 * c"
    by (auto simp: foot_def)
  with step_join [OF inv refl refl refl b(2) ex b(3), of c] b(1) show ?thesis by fastforce
qed

text \<open>A step at the stale header of the last part of a free block that has just been merged.\<close>

lemma step_stale:
  assumes "at_stale h xs s c t ys"
  shows "(\<exists>h' xs' ys'. length ys' \<le> length ys \<and>
      coalesces_loop h (blkp (span xs + s - t)) = coalesces_loop h' (blkp (span xs')) \<and>
      at_block h' xs' ys' \<and> same_heap h (xs @ (s, False) # ys) h' (xs' @ ys')) \<or>
    (\<exists>h' u c' t' ys'. length ys' < length ys \<and>
      coalesces_loop h (blkp (span xs + s - t)) = coalesces_loop h' (blkp (span xs + u - t')) \<and>
      at_stale h' xs u c' t' ys' \<and> same_heap h (xs @ (s, False) # ys) h' (xs @ (u, False) # ys'))"
proof -
  define d where "d = span xs + s - t"
  have inv: "heap_inv h (xs @ (s, False) # ys)" and c: "2 \<le> c" "3 \<le> t" "c + t < s"
    and w0: "words h (span xs + s - t) = 8 * t" "words h (span xs + s - t - 1) = 8 * c"
      "words h (span xs + s - t - c) = 8 * c" "words h (span xs + s - 1) = 8 * s"
    using assms by (auto simp: at_stale_def)
  have d: "d + t = span xs + s" "span xs < d - c" "c \<le> d" using c by (auto simp: d_def)
  have w: "words h d = 8 * t" "words h (d - 1) = 8 * c" "words h (d - c) = 8 * c" "words h (d + t - 1) = 8 * s"
    using w0 unfolding d(1) by (simp_all add: d_def)
  note sp = heap_inv_split [OF inv]
  have A: "3 \<le> s" "words h (span xs) = 8 * s" using sp(2) by auto
  have ib: "inb h j" if "j \<le> span xs + (s + span ys)" for j using sp(5) that by simp
  have nxt: "(\<exists>u ys'. ys = (u, False) # ys' \<and> words h (d + t) = 8 * u \<and> 3 \<le> u) \<or>
    word_alloc (words h (d + t)) \<noteq> 0 \<and> (\<forall>u ys'. ys \<noteq> (u, False) # ys')"
    using next_word [of h "xs @ [(s, False)]" ys] inv d(1) by auto
  then show ?thesis
  proof
    assume na: "word_alloc (words h (d + t)) \<noteq> 0 \<and> (\<forall>u ys'. ys \<noteq> (u, False) # ys')"
    let ?h = "setw (setw h (d + t - 1) (8 * (t + c))) (d - c) (8 * (t + c))"
    have "8 * (t + c) < 2 ^ 64" using small_span [OF inv, of "t + c"] c by simp
    then have co: "coalesce h (blkp d) = Some ?h" using ib na w c d by (intro coalesce_prev) auto
    have "coalesces_loop h (blkp d) = coalesces_loop ?h (blkp (d + t))"
      using ib w c d by (intro coalesces_loop_free [OF _ _ co]) auto
    moreover have ft: "foot (words ?h) (span xs) s False"
      unfolding foot_def using c d by (auto intro!: exI [of _ "t + c"])
    have "heap_inv ?h (xs @ [(s, False)] @ ys)" "same_heap h (xs @ [(s, False)] @ ys) ?h (xs @ [(s, False)] @ ys)"
      by (rule same_heap_replace [where mid = "[(s, False)]"]; use inv A ft c d in auto)+
    moreover have "at_block ?h (xs @ [(s, False)]) ys"
      using \<open>heap_inv ?h (xs @ [(s, False)] @ ys)\<close> na by (simp add: at_block_def)
    ultimately show ?thesis
      by (intro disjI1 exI [of _ ?h] exI [of _ "xs @ [(s, False)]"] exI [of _ ys]) (simp add: d_def [symmetric] d(1))
  next
    assume "\<exists>u ys'. ys = (u, False) # ys' \<and> words h (d + t) = 8 * u \<and> 3 \<le> u"
    then obtain u ys' where u: "ys = (u, False) # ys'" "words h (d + t) = 8 * u" "3 \<le> u" by auto
    let ?S = "8 * (t + (c + u))"
    let ?h = "setw (setw h (d - c) ?S) (d + t + u - 1) ?S"
    have "?S < 2 ^ 64" using small_span [OF inv, of "t + (c + u)"] c u by simp
    then have co: "coalesce h (blkp d) = Some ?h" using ib w c d u by (intro coalesce_both) auto
    have l: "coalesces_loop h (blkp (span xs + s - t)) = coalesces_loop ?h (blkp (span xs + s))"
    proof -
      have "inb h d" "words ?h d = 8 * t" using ib [of d] d w c u by auto
      then show ?thesis using coalesces_loop_free [OF _ w(1) co, of t] unfolding d(1) [symmetric] d_def [symmetric] by simp
    qed
    have inv': "heap_inv h (xs @ [(s, False), (u, False)] @ ys')" using inv u by simp
    have e: "span xs + s + u - (t + (c + u)) = d - c" "span xs + s + u - 1 = d + t + u - 1" using d c by auto
    have w': "words ?h (span xs) = 8 * s" "words ?h (span xs + s - 1) = 8 * s" "words ?h (span xs + s) = 8 * u"
      "words ?h (span xs + s + u - 1) = ?S" "words ?h (span xs + s + u - (t + (c + u))) = ?S"
      unfolding e using A w u d c by auto
    have fr: "words ?h j = words h j" if "j < span xs \<or> span xs + s + u \<le> j" for j
      using that d c u by auto
    have "2 \<le> t + (c + u)" "t + (c + u) < s + u" using c by auto
    from step_join [OF inv' _ _ fr w' this] u l
    show ?thesis by fastforce
  qed
qed


lemma merged_via:
  assumes "\<exists>h''. coalesces_loop h' q' = Some h'' \<and> merged (allocs 0 bs') (span bs') h' h''"
    "coalesces_loop h q = coalesces_loop h' q'" "same_heap h bs h' bs'"
  shows "\<exists>h''. coalesces_loop h q = Some h'' \<and> merged (allocs 0 bs) (span bs) h h''"
  using assms merged_step by metis

lemma coalesces_loop_ok:
  "(\<forall>h xs ys. at_block h xs ys \<longrightarrow> 2 * length ys = n \<longrightarrow>
      (\<exists>h'. coalesces_loop h (blkp (span xs)) = Some h' \<and> merged (allocs 0 (xs @ ys)) (span (xs @ ys)) h h')) \<and>
   (\<forall>h xs s c t ys. at_stale h xs s c t ys \<longrightarrow> 2 * length ys + 1 = n \<longrightarrow>
      (\<exists>h'. coalesces_loop h (blkp (span xs + s - t)) = Some h' \<and>
        merged (allocs 0 (xs @ (s, False) # ys)) (span (xs @ (s, False) # ys)) h h'))"
proof (induction n rule: less_induct)
  case (less n)
  have blk: "\<exists>h'. coalesces_loop h (blkp (span xs)) = Some h' \<and> merged (allocs 0 (xs @ ys)) (span (xs @ ys)) h h'"
    if "at_block h xs ys" "2 * length ys < n" for h xs ys using less that by blast
  have stl: "\<exists>h'. coalesces_loop h (blkp (span xs + s - t)) = Some h' \<and>
      merged (allocs 0 (xs @ (s, False) # ys)) (span (xs @ (s, False) # ys)) h h'"
    if "at_stale h xs s c t ys" "2 * length ys + 1 < n" for h xs s c t ys using less that by blast
  show ?case
  proof (intro conjI allI impI)
    fix h xs ys
    assume b: "at_block h xs ys" and n: "2 * length ys = n"
    show "\<exists>h'. coalesces_loop h (blkp (span xs)) = Some h' \<and> merged (allocs 0 (xs @ ys)) (span (xs @ ys)) h h'"
    proof (cases ys)
      case Nil
      then have inv: "heap_inv h xs" using b by (simp add: at_block_def)
      then have "coalesces_loop h (blkp (span xs)) = Some h"
        by (subst coalesces_loop.simps) (simp add: heap_inv_def inb_def)
      then show ?thesis using inv Nil by (auto simp: merged_def heap_inv_def)
    next
      case (Cons y ys')
      obtain s a where y: "y = (s, a)" by (cases y)
      consider (al) "a" | (first) "\<not> a" "\<forall>xs' r. xs \<noteq> xs' @ [(r, False)]" | (second) xs' r where "\<not> a" "xs = xs' @ [(r, False)]"
        by blast
      then show ?thesis
      proof cases
        case al
        then show ?thesis
          using step_alloc [of h xs s ys'] blk [of h "xs @ [(s, True)]" ys'] b n Cons y by auto
      next
        case first
        with b Cons y obtain h' xs' ys'' where
          st: "coalesces_loop h (blkp (span xs)) = coalesces_loop h' (blkp (span xs'))" "at_block h' xs' ys''"
            "same_heap h (xs @ ys) h' (xs' @ ys'')" "length ys'' \<le> length ys'"
          using step_first_free [of h xs s ys'] by auto
        then have "2 * length ys'' < n" using n Cons by simp
        from merged_via [OF blk [OF st(2) this] st(1,3)] show ?thesis .
      next
        case second
        then have "at_block h (xs' @ [(r, False)]) ((s, False) # ys')" using b Cons y by simp
        from step_second_free [OF this] show ?thesis
        proof (elim disjE exE conjE)
          fix h' xs''
          assume *: "coalesces_loop h (blkp (span (xs' @ [(r, False)]))) = coalesces_loop h' (blkp (span xs''))"
            "at_block h' xs'' ys'" "same_heap h (xs' @ [(r, False), (s, False)] @ ys') h' (xs'' @ ys')"
          have "2 * length ys' < n" using n Cons by simp
          from merged_via [OF blk [OF *(2) this] *(1,3)] show ?thesis using Cons y second by simp
        next
          fix h' u c t ys''
          assume *: "coalesces_loop h (blkp (span (xs' @ [(r, False)]))) = coalesces_loop h' (blkp (span xs' + u - t))"
            "at_stale h' xs' u c t ys''" "same_heap h (xs' @ [(r, False), (s, False)] @ ys') h' (xs' @ (u, False) # ys'')"
            "length ys'' < length ys'"
          have "2 * length ys'' + 1 < n" using n Cons *(4) by simp
          from merged_via [OF stl [OF *(2) this] *(1,3)] show ?thesis using Cons y second by simp
        qed
      qed
    qed
  next
    fix h xs s c t ys
    assume st: "at_stale h xs s c t ys" and n: "2 * length ys + 1 = n"
    show "\<exists>h'. coalesces_loop h (blkp (span xs + s - t)) = Some h' \<and>
        merged (allocs 0 (xs @ (s, False) # ys)) (span (xs @ (s, False) # ys)) h h'"
      using step_stale [OF st]
    proof (elim disjE exE conjE)
      fix h' xs' ys'
      assume *: "coalesces_loop h (blkp (span xs + s - t)) = coalesces_loop h' (blkp (span xs'))"
        "at_block h' xs' ys'" "same_heap h (xs @ (s, False) # ys) h' (xs' @ ys')" "length ys' \<le> length ys"
      have "2 * length ys' < n" using n *(4) by simp
      from merged_via [OF blk [OF *(2) this] *(1,3)] show ?thesis .
    next
      fix h' u c' t' ys'
      assume *: "coalesces_loop h (blkp (span xs + s - t)) = coalesces_loop h' (blkp (span xs + u - t'))"
        "at_stale h' xs u c' t' ys'" "same_heap h (xs @ (s, False) # ys) h' (xs @ (u, False) # ys')" "length ys' < length ys"
      have "2 * length ys' + 1 < n" using n *(4) by simp
      from merged_via [OF stl [OF *(2) this] *(1,3)] show ?thesis .
    qed
  qed
qed

lemma coalesces_ok:
  assumes "heap_inv h bs"
  shows "\<exists>h' bs'. coalesces h = Some h' \<and> heap_inv h' bs' \<and> same_heap h bs h' bs'"
proof -
  have "at_block h [] bs" using assms by (simp add: at_block_def)
  then have "\<exists>h'. coalesces_loop h (blkp (span [])) = Some h' \<and> merged (allocs 0 ([] @ bs)) (span ([] @ bs)) h h'"
    using coalesces_loop_ok [of "2 * length bs"] by blast
  then obtain h' where h': "coalesces h = Some h'" "merged (allocs 0 bs) (span bs) h h'"
    unfolding coalesces_def int_blkp_0 by auto
  then obtain zs where zs: "tiles (words h') 0 zs (span bs)" "allocs 0 zs = allocs 0 bs" by (auto simp: merged_def)
  have "span zs = span bs" using tiles_span [OF zs(1)] by simp
  with h' zs assms show ?thesis by (intro exI [of _ h'] exI [of _ zs]) (auto simp: merged_def heap_inv_def same_heap_def)
qed

declare distrib_left_numeral [simp]

end
