(* ===== verification/MmSpec.thy ===== *)
theory MmSpec
  imports MmInv
begin

text \<open>
  What the operations of \<open>mm.c\<close> do to a tiled heap: first fit, placing, extending, \<open>mm_malloc\<close>, \<open>mm_free\<close> and
  \<open>mm_realloc\<close>. A live block is a pair of its header word and its length in words.
\<close>

lemma find_fit_loop_ok:
  "heap_inv h (xs @ ys) \<Longrightarrow>
     find_fit_loop h (blkp (span xs)) n = Some None \<or>
     (\<exists>us s vs. ys = us @ (s, False) # vs \<and> n \<le> 8 * s \<and>
        find_fit_loop h (blkp (span xs)) n = Some (Some (blkp (span (xs @ us)))))"
proof (induction ys arbitrary: xs)
  case Nil
  then have "find_fit_loop h (blkp (span xs)) n = Some None"
    by (subst find_fit_loop.simps) (simp add: heap_inv_def inb_def)
  then show ?case ..
next
  case (Cons y ys)
  obtain s a where y: "y = (s, a)" by (cases y)
  note sp = heap_inv_split [OF Cons.prems]
  have w: "words h (span xs) = 8 * s + of_bool a" "inb h (span xs)" using sp(2,5) y by auto
  have ne: "(8 * s + of_bool a) mod 8 \<noteq> (7 :: nat)" by (cases a; simp; presburger)
  have nx: "NEXT_BLK h (blkp (span xs)) = Some (blkp (span (xs @ [y])))"
    using NEXT_BLK_ok [OF w(2), of s] w(1) y by simp
  show ?case
  proof (cases "\<not> a \<and> n \<le> 8 * s")
    case True
    then have "find_fit_loop h (blkp (span xs)) n = Some (Some (blkp (span xs)))"
      using w ne by (subst find_fit_loop.simps) simp
    then show ?thesis using True y by (intro disjI2 exI [of _ "[]"] exI [of _ s] exI [of _ ys]) simp
  next
    case False
    then have "find_fit_loop h (blkp (span xs)) n = find_fit_loop h (blkp (span (xs @ [y]))) n"
      using w ne nx by (subst find_fit_loop.simps) (auto simp: y)
    moreover have "heap_inv h ((xs @ [y]) @ ys)" using Cons.prems by simp
    note Cons.IH [OF this]
    ultimately show ?thesis
    proof (elim disjE exE conjE)
      fix us s vs
      assume "ys = us @ (s, False) # vs" "n \<le> 8 * s"
        "find_fit_loop h (blkp (span (xs @ [y]))) n = Some (Some (blkp (span ((xs @ [y]) @ us))))"
        "find_fit_loop h (blkp (span xs)) n = find_fit_loop h (blkp (span (xs @ [y]))) n"
      then show ?thesis by (intro disjI2 exI [of _ "y # us"] exI [of _ s] exI [of _ vs]) simp
    qed simp
  qed
qed

lemma find_fit_ok:
  assumes "heap_inv h bs"
  shows "find_fit_block h n = Some None \<or>
    (\<exists>us s vs. bs = us @ (s, False) # vs \<and> n \<le> 8 * s \<and> find_fit_block h n = Some (Some (blkp (span us))))"
  using find_fit_loop_ok [of h "[]" bs n] assms unfolding find_fit_block_def int_blkp_0 by simp

definition placed :: "nat \<Rightarrow> nat \<Rightarrow> (nat \<times> bool) list" where
  "placed n s = (if s - n > 2 then [(n, True), (s - n, False)] else [(s, True)])"

lemma span_placed [simp]: "n \<le> s \<Longrightarrow> span (placed n s) = s"
  by (simp add: placed_def)

lemma allocs_placed: "allocs i (placed n s) = {(i, if s - n > 2 then n else s)}"
  by (simp add: placed_def)

lemma place_ok:
  assumes inv: "heap_inv h (xs @ (s, a) # ys)" and n: "3 \<le> n" "n \<le> s"
  shows "\<exists>h'. place h (blkp (span xs)) (8 * n) = Some h' \<and> heap_inv h' (xs @ placed n s @ ys) \<and>
    same_on (allocs 0 xs \<union> allocs (span xs + s) ys) (words h) (words h') \<and> mem_brk h' = mem_brk h \<and>
    (\<forall>j. span xs < j \<longrightarrow> j < span xs + (n - 1) \<longrightarrow> words h' j = words h j)"
proof -
  note sp = heap_inv_split [OF inv]
  let ?i = "span xs"
  have w: "3 \<le> s" "words h ?i = 8 * s + of_bool a" using sp(2) by auto
  have ib: "inb h j" if "j \<le> ?i + s" for j using sp(5) that by simp
  have sz: "8 * s < 2 ^ 64" using small_span [OF inv, of s] by simp
  have gs: "GET_SIZE h (HDRP (blkp ?i)) = Some (8 * s)" using ib w by simp
  have rest: "(8 * s + 2 ^ 64 - 8 * n) mod 2 ^ 64 = 8 * (s - n)"
  proof -
    have "8 * s + 2 ^ 64 - 8 * n = 8 * (s - n) + 2 ^ 64" using n by (simp add: diff_mult_distrib2)
    moreover have "8 * (s - n) < 2 ^ 64" using sz by (simp add: diff_mult_distrib2)
    ultimately show ?thesis by simp
  qed
  have inv': "heap_inv h (xs @ [(s, a)] @ ys)" using inv by simp
  show ?thesis
  proof (cases "s - n > 2")
    case True
    let ?h1 = "setw (setw h ?i (8 * n + 1)) (?i + n - 1) (8 * n + 1)"
    let ?h2 = "setw (setw ?h1 (?i + n) (8 * (s - n))) (?i + n + (s - n) - 1) (8 * (s - n))"
    have pb1: "put_both h (blkp ?i) (PACK (8 * n) 1) = Some ?h1"
      using put_both_ok [of h ?i n "8 * n + 1"] ib n by simp
    have nx: "NEXT_BLK ?h1 (blkp ?i) = Some (blkp (?i + n))" using ib n by (intro NEXT_BLK_ok) auto
    have pb2: "put_both ?h1 (blkp (?i + n)) (PACK (8 * (s - n)) 0) = Some ?h2"
      using put_both_ok [of ?h1 "?i + n" "s - n" "8 * (s - n)"] ib [of "?i + n + (s - n) - 1"] n True by simp
    have pl: "place h (blkp ?i) (8 * n) = Some ?h2"
      using gs rest pb1 nx pb2 True by (simp add: place_def Let_def)
    have e: "?i + n + (s - n) - 1 = ?i + s - 1" using n by simp
    have t: "tiles (words ?h2) ?i (placed n s) (?i + span (placed n s))"
      using n True by (auto simp: placed_def foot_def intro!: exI [of _ "s - n"])
    have fr: "words ?h2 j = words h j" if "j < ?i \<or> ?i + span [(s, a)] \<le> j" for j
      unfolding e using that n True by auto
    have pay: "words ?h2 j = words h j" if "?i < j" "j < ?i + (n - 1)" for j
      unfolding e using that n True by auto
    note R = heap_inv_replace [OF inv' _ _ t fr, simplified]
    show ?thesis using pl R pay n by (intro exI [of _ ?h2]) simp
  next
    case False
    let ?h1 = "setw (setw h ?i (8 * s + 1)) (?i + s - 1) (8 * s + 1)"
    have pl: "place h (blkp ?i) (8 * n) = Some ?h1"
      using gs rest put_both_ok [of h ?i s "8 * s + 1"] ib w False by (simp add: place_def Let_def)
    have t: "tiles (words ?h1) ?i (placed n s) (?i + span (placed n s))"
      using n False by (auto simp: placed_def foot_def)
    have fr: "words ?h1 j = words h j" if "j < ?i \<or> ?i + span [(s, a)] \<le> j" for j
      using that n by auto
    have pay: "words ?h1 j = words h j" if "?i < j" "j < ?i + (n - 1)" for j
      using that n by auto
    note R = heap_inv_replace [OF inv' _ _ t fr, simplified]
    show ?thesis using pl R pay n by (intro exI [of _ ?h1]) simp
  qed
qed

lemma extend_ok:
  assumes inv: "heap_inv h bs" and n: "3 \<le> n" "mem_brk h + 8 * int n \<le> MAX_HEAP"
  shows "\<exists>h'. extend_heap h (8 * n) = Some (h', blkp (span bs)) \<and> heap_inv h' (bs @ [(n, True)]) \<and>
    same_on (allocs 0 bs) (words h) (words h') \<and> mem_brk h' = mem_brk h + 8 * int n"
proof -
  let ?e = "span bs"
  have b: "mem_brk h = 8 * (int ?e + 1)" "words h ?e = 7" "tiles (words h) 0 bs ?e" using inv by (auto simp: heap_inv_def)
  have "8 * int n + 8 * int (span bs) + 8 \<le> 20971520" using n b by (simp add: MAX_HEAP_def distrib_left)
  then have "8 * n < 2 ^ 31" by auto
  then have ci: "to_c_int (8 * n) = 8 * int n" by (simp add: to_c_int_small)
  let ?h1 = "h\<lparr>mem_brk := mem_brk h + 8 * int n\<rparr>"
  have sb: "mem_sbrk (to_c_int (8 * n)) h = (?h1, blkp ?e)"
    using n b by (simp add: ci mem_sbrk_ok blkp_def)
  have ib: "inb ?h1 j" if "j \<le> ?e + n" for j using b(1) that by (simp add: inb_def)
  let ?h2 = "setw (setw ?h1 ?e (8 * n + 1)) (?e + n - 1) (8 * n + 1)"
  have pb: "put_both ?h1 (blkp ?e) (PACK (8 * n) 1) = Some ?h2"
    using put_both_ok [of ?h1 ?e n "8 * n + 1"] ib n by simp
  have nx: "NEXT_BLK ?h2 (blkp ?e) = Some (blkp (?e + n))" using ib n by (intro NEXT_BLK_ok) auto
  let ?h3 = "setw ?h2 (?e + n) 7"
  have "extend_heap h (8 * n) = Some (?h3, blkp ?e)" using sb pb nx ib by (simp add: extend_heap_def)
  moreover have "tiles (words ?h3) 0 bs ?e" using n by (intro tiles_cong [OF _ b(3)]) auto
  then have "heap_inv ?h3 (bs @ [(n, True)])"
    using n b by (auto simp: heap_inv_def tiles_append foot_def)
  moreover have "same_on (allocs 0 bs) (words h) (words ?h3)"
    unfolding same_on_def using allocs_within [of _ _ 0 bs] n by fastforce
  ultimately show ?thesis by (intro exI [of _ ?h3]) simp
qed


subsection \<open>mm\_malloc and mm\_free\<close>

text \<open>The block length in words that a request of \<open>sz\<close> bytes needs.\<close>

definition req_words :: "nat \<Rightarrow> nat" where
  "req_words sz = (sz + 7) div 8 + 2"

lemma new_size_eq: "sz < 2 ^ 60 \<Longrightarrow> size_add (ALIGN sz) (2 * 8) = 8 * req_words sz"
proof -
  assume sz: "sz < 2 ^ 60"
  then have "ALIGN sz = 8 * ((sz + 7) div 8)" by (simp add: ALIGN_def)
  moreover have "8 * ((sz + 7) div 8) \<le> sz + 7" by simp
  ultimately show ?thesis using sz by (simp add: size_add_small req_words_def distrib_left)
qed

lemma req_words_ge: "0 < sz \<Longrightarrow> 3 \<le> req_words sz" "sz \<le> 8 * (req_words sz - 2)"
  by (simp_all add: req_words_def)

lemma final_free_size_ok:
  assumes "heap_inv h bs"
  shows "\<exists>n. final_free_size h = Some n"
proof (cases bs rule: rev_cases)
  case Nil
  then show ?thesis using assms by (simp add: final_free_size_def heap_inv_def mem_heapsize_def)
next
  case (snoc bs' y)
  have "0 < span bs" using assms snoc by (cases y) (auto simp: heap_inv_def tiles_append)
  then obtain k where k: "span bs = Suc k" by (cases "span bs") auto
  have "mem_heap_hi h + 1 - 16 = waddr k" "inb h k"
    using assms k by (auto simp: heap_inv_def mem_heap_hi_def waddr_def inb_def distrib_left)
  then show ?thesis by (simp add: final_free_size_def Let_def)
qed

definition keeps :: "(nat \<times> nat) set \<Rightarrow> heap \<Rightarrow> heap \<Rightarrow> bool" where
  "keeps A h h' \<longleftrightarrow> same_on A (words h) (words h')"

text \<open>The outcome of allocating \<open>n\<close> words: a new live block, nothing else changed.\<close>

definition allocated :: "heap \<Rightarrow> (nat \<times> bool) list \<Rightarrow> nat \<Rightarrow> heap \<Rightarrow> int \<Rightarrow> bool" where
  "allocated h bs n h' p \<longleftrightarrow> (\<exists>bs' k s. p = blkp k \<and> n \<le> s \<and> heap_inv h' bs' \<and> (\<forall>t. (k, t) \<notin> allocs 0 bs) \<and>
     allocs 0 bs' = insert (k, s) (allocs 0 bs) \<and> same_on (allocs 0 bs) (words h) (words h') \<and>
     mem_brk h \<le> mem_brk h' \<and> mem_brk h' \<le> mem_brk h + 8 * int n)"

lemma tiles_pos: "tiles m i bs e \<Longrightarrow> (s, a) \<in> set bs \<Longrightarrow> 3 \<le> s"
  by (induction m i bs e rule: tiles.induct) auto

lemma allocs_size: "tiles m i bs e \<Longrightarrow> (k, s) \<in> allocs i bs \<Longrightarrow> 3 \<le> s"
  by (induction m i bs e rule: tiles.induct) (auto split: if_splits)

lemma not_alloc_at:
  assumes "heap_inv h (us @ (s, False) # vs)"
  shows "(span us, t) \<notin> allocs 0 (us @ (s, False) # vs)"
proof
  assume a: "(span us, t) \<in> allocs 0 (us @ (s, False) # vs)"
  have t: "tiles (words h) 0 (us @ (s, False) # vs) (span (us @ (s, False) # vs))" using assms by (simp add: heap_inv_def)
  have "3 \<le> t" "3 \<le> s" using allocs_size [OF t a] tiles_pos [OF t] by auto
  moreover have "(span us, t) \<in> allocs 0 us \<or> (span us, t) \<in> allocs (span us + s) vs" using a by (simp add: allocs_append)
  ultimately show False using allocs_within [of "span us" t 0 us] allocs_within [of "span us" t "span us + s" vs] by auto
qed

lemma place_free_ok:
  assumes inv: "heap_inv h (us @ (s, False) # vs)" and n: "3 \<le> n" "8 * n \<le> 8 * s"
  shows "\<exists>h'. place h (blkp (span us)) (8 * n) = Some h' \<and> allocated h (us @ (s, False) # vs) n h' (blkp (span us))"
proof -
  have ns: "n \<le> s" using n by simp
  obtain h' where h': "place h (blkp (span us)) (8 * n) = Some h'" "heap_inv h' (us @ placed n s @ vs)"
    "same_on (allocs 0 us \<union> allocs (span us + s) vs) (words h) (words h')" "mem_brk h' = mem_brk h"
    using place_ok [OF inv n(1) ns] by blast
  have "allocs 0 (us @ placed n s @ vs) = insert (span us, if s - n > 2 then n else s) (allocs 0 (us @ (s, False) # vs))"
    using ns by (simp add: allocs_append allocs_placed)
  moreover have "n \<le> (if s - n > 2 then n else s)" using ns by simp
  moreover have "same_on (allocs 0 (us @ (s, False) # vs)) (words h) (words h')" using h'(3) by (simp add: allocs_append)
  moreover have "mem_brk h \<le> mem_brk h'" "mem_brk h' \<le> mem_brk h + 8 * int n" using h'(4) by simp_all
  ultimately have "allocated h (us @ (s, False) # vs) n h' (blkp (span us))"
    unfolding allocated_def using h'(2) not_alloc_at [OF inv] by blast
  with h'(1) show ?thesis by blast
qed

lemma extend_allocated:
  assumes inv: "heap_inv h bs" and n: "3 \<le> n" "mem_brk h + 8 * int n \<le> MAX_HEAP"
  shows "\<exists>h'. extend_heap h (8 * n) = Some (h', blkp (span bs)) \<and> allocated h bs n h' (blkp (span bs))"
proof -
  obtain h' where h': "extend_heap h (8 * n) = Some (h', blkp (span bs))" "heap_inv h' (bs @ [(n, True)])"
    "same_on (allocs 0 bs) (words h) (words h')" "mem_brk h' = mem_brk h + 8 * int n"
    using extend_ok [OF assms] by blast
  have "(span bs, t) \<notin> allocs 0 bs" for t
    using allocs_within [of "span bs" t 0 bs] allocs_size [of "words h" 0 bs "span bs" "span bs" t] inv
    by (auto simp: heap_inv_def)
  with h' show ?thesis unfolding allocated_def
    by (intro exI [of _ h'] conjI exI [of _ "bs @ [(n, True)]"] exI [of _ "span bs"] exI [of _ n]) (auto simp: allocs_append)
qed

lemma allocated_trans:
  "same_heap h bs h1 bs1 \<Longrightarrow> allocated h1 bs1 n h2 p \<Longrightarrow> allocated h bs n h2 p"
  unfolding same_heap_def allocated_def by (metis same_on_trans)

lemma same_heap_refl [simp]: "same_heap h bs h bs"
  by (simp add: same_heap_def)

text \<open>First fit, then the deferred merge and first fit again, then the break.\<close>

lemma mm_malloc_ok:
  assumes inv: "heap_inv h bs" and sz: "0 < sz" "mem_brk h + 8 * int (req_words sz) \<le> MAX_HEAP"
  shows "\<exists>h' p. mm_malloc h sz = Some (h', Some p) \<and> allocated h bs (req_words sz) h' p"
proof -
  let ?n = "req_words sz"
  have "int sz \<le> 8 * int ?n" using req_words_ge(2) [of sz] by linarith
  moreover have "0 \<le> mem_brk h" using inv by (simp add: heap_inv_def)
  ultimately have "sz < 2 ^ 60" using sz(2) by (simp add: MAX_HEAP_def)
  then have ns: "size_add (ALIGN sz) (2 * 8) = 8 * ?n" by (rule new_size_eq)
  have n3: "3 \<le> ?n" using req_words_ge sz by simp
  from find_fit_ok [OF inv, of "8 * ?n"] show ?thesis
  proof (elim disjE exE conjE)
    fix us s vs
    assume "bs = us @ (s, False) # vs" "8 * ?n \<le> 8 * s" "find_fit_block h (8 * ?n) = Some (Some (blkp (span us)))"
    with place_free_ok [of h us s vs ?n] inv n3 sz ns show ?thesis by (auto simp: mm_malloc_def Let_def)
  next
    assume none: "find_fit_block h (8 * ?n) = Some None"
    obtain h1 bs1 where 1: "(if total_free_size h \<ge> 8 * ?n then coalesces h else Some h) = Some h1"
      "heap_inv h1 bs1" "same_heap h bs h1 bs1"
      using coalesces_ok [OF inv] inv same_heap_refl by (cases "total_free_size h \<ge> 8 * ?n") auto
    have room: "mem_brk h1 + 8 * int ?n \<le> MAX_HEAP" using 1(3) sz by (simp add: same_heap_def)
    from find_fit_ok [OF 1(2), of "8 * ?n"] show ?thesis
    proof (elim disjE exE conjE)
      fix us s vs
      assume "bs1 = us @ (s, False) # vs" "8 * ?n \<le> 8 * s" "find_fit_block h1 (8 * ?n) = Some (Some (blkp (span us)))"
      with place_free_ok [of h1 us s vs ?n] 1 none n3 sz ns allocated_trans [OF 1(3)] show ?thesis
        by (fastforce simp: mm_malloc_def Let_def)
    next
      assume "find_fit_block h1 (8 * ?n) = Some None"
      with extend_allocated [OF 1(2) n3 room] final_free_size_ok [OF 1(2)] 1 none sz ns allocated_trans [OF 1(3)]
      show ?thesis by (fastforce simp: mm_malloc_def Let_def)
    qed
  qed
qed

lemma allocs_split:
  assumes "(k, s) \<in> allocs i bs"
  shows "\<exists>us vs. bs = us @ (s, True) # vs \<and> k = i + span us"
  using assms
proof (induction i bs rule: allocs.induct)
  case (2 i t a bs)
  then consider "a" "k = i" "s = t" | "(k, s) \<in> allocs (i + t) bs" by (auto split: if_splits)
  then show ?case
  proof cases
    case 1
    then show ?thesis by (intro exI [of _ "[]"] exI [of _ bs]) auto
  next
    case 2
    then obtain us vs where "bs = us @ (s, True) # vs" "k = i + t + span us" using "2.IH" by blast
    then show ?thesis by (intro exI [of _ "(t, a) # us"] exI [of _ vs]) simp
  qed
qed simp

lemma allocs_without:
  assumes "heap_inv h (us @ (s, True) # vs)"
  shows "allocs 0 us \<union> allocs (span us + s) vs = allocs 0 (us @ (s, True) # vs) - {(span us, s)}"
proof -
  have t: "tiles (words h) 0 (us @ (s, True) # vs) (span (us @ (s, True) # vs))" using assms by (simp add: heap_inv_def)
  have "3 \<le> s" using tiles_pos [OF t] by auto
  then have "(span us, s) \<notin> allocs 0 us" "(span us, s) \<notin> allocs (span us + s) vs"
    using allocs_within [of "span us" s 0 us] allocs_within [of "span us" s "span us + s" vs] by auto
  then show ?thesis by (auto simp: allocs_append)
qed

lemma mm_free_ok:
  assumes inv: "heap_inv h bs" and live: "(k, s) \<in> allocs 0 bs"
  shows "\<exists>h' bs'. mm_free h (Some (blkp k)) = Some h' \<and> heap_inv h' bs' \<and> allocs 0 bs' = allocs 0 bs - {(k, s)} \<and>
    same_on (allocs 0 bs - {(k, s)}) (words h) (words h') \<and> mem_brk h' = mem_brk h"
proof -
  obtain us vs where bs: "bs = us @ (s, True) # vs" "k = span us" using allocs_split [OF live] by auto
  have inv': "heap_inv h (us @ [(s, True)] @ vs)" using inv bs by simp
  note sp = heap_inv_split [OF inv']
  have w: "3 \<le> s" "words h k = 8 * s + 1" using sp(2) bs by auto
  have ib: "inb h j" if "j \<le> k + s" for j using sp(5) that bs by simp
  define h0 where "h0 = h\<lparr>total_free_size := size_add (total_free_size h) (8 * s)\<rparr>"
  have h0: "inb h0 j = inb h j" "words h0 = words h" "mem_brk h0 = mem_brk h" for j by (simp_all add: h0_def inb_def)
  let ?h = "setw (setw h0 k (8 * s)) (k + s - 1) (8 * s)"
  have "mm_free h (Some (blkp k)) = Some ?h"
    using ib w put_both_ok [of h0 k s "8 * s"] h0 by (simp add: mm_free_def h0_def [symmetric])
  moreover have t: "tiles (words ?h) (span us) [(s, False)] (span us + span [(s, False)])"
    using w bs by (auto intro!: foot_exact)
  have fr: "words ?h j = words h j" if "j < span us \<or> span us + span [(s, True)] \<le> j" for j
    using that w bs h0 by auto
  note R = heap_inv_replace [OF inv' _ _ t fr, simplified]
  have "heap_inv ?h (us @ (s, False) # vs)" "same_on (allocs 0 us \<union> allocs (span us + s) vs) (words h) (words ?h)"
    using R h0 by simp_all
  moreover have "allocs 0 (us @ (s, False) # vs) = allocs 0 bs - {(k, s)}"
    using allocs_without [of h us s vs] inv bs by (simp add: allocs_append)
  ultimately show ?thesis using allocs_without [of h us s vs] inv bs h0
    by (intro exI [of _ ?h] exI [of _ "us @ (s, False) # vs"]) simp
qed


lemma mm_free_header:
  assumes inv: "heap_inv h bs" and live: "(k, s) \<in> allocs 0 bs"
  shows "\<exists>h'. mm_free h (Some (blkp k)) = Some h' \<and> words h' k = 8 * s \<and> inb h' (k + s)"
proof -
  obtain us vs where bs: "bs = us @ (s, True) # vs" "k = span us" using allocs_split [OF live] by auto
  have inv': "heap_inv h (us @ [(s, True)] @ vs)" using inv bs by simp
  have w: "3 \<le> s" "words h k = 8 * s + 1" using heap_inv_split(2) [OF inv'] bs by auto
  have ib: "inb h j" if "j \<le> k + s" for j using heap_inv_split(5) [OF inv'] that bs by simp
  define h0 where "h0 = h\<lparr>total_free_size := size_add (total_free_size h) (8 * s)\<rparr>"
  have h0: "inb h0 j = inb h j" "words h0 = words h" for j by (simp_all add: h0_def inb_def)
  have "mm_free h (Some (blkp k)) = Some (setw (setw h0 k (8 * s)) (k + s - 1) (8 * s))"
    using ib w put_both_ok [of h0 k s "8 * s"] h0 by (simp add: mm_free_def h0_def [symmetric])
  then show ?thesis using w ib [of "k + s"] h0 by auto
qed

lemma extend_fail:
  assumes "8 * n < 2 ^ 31" "mem_brk h + 8 * int n > MAX_HEAP"
  shows "extend_heap h (8 * n) = None"
proof -
  have "mem_sbrk (to_c_int (8 * n)) h = (h, - 1)"
    using assms by (simp add: mem_sbrk_fail to_c_int_small)
  moreover have "put_both h (- 1) w = None" for w by (simp add: put_both_def put_def HDRP_def)
  ultimately show ?thesis by (simp add: extend_heap_def)
qed

end
