(* ===== verification/MmRealloc.thy ===== *)
theory MmRealloc
  imports MmSpec
begin

text \<open>\<open>mm_realloc\<close> of a live block: the copy, and the three ways to find the new block.\<close>

lemma blkp_waddr: "blkp k = waddr (Suc k)"
  by (simp add: blkp_def waddr_def)

lemma waddr_Suc: "waddr i + 8 = waddr (Suc i)"
  by (simp add: waddr_def)

lemma memcpy_words_ok:
  "inb h (a + n) \<Longrightarrow> inb h (b + n) \<Longrightarrow> a + n \<le> b \<or> b + n \<le> a \<Longrightarrow>
     memcpy_words h (waddr b) (waddr a) n =
       Some (h\<lparr>words := \<lambda>j. if b \<le> j \<and> j < b + n then words h (a + (j - b)) else words h j\<rparr>)"
proof (induction n arbitrary: h a b)
  case 0
  have "(\<lambda>j. if b \<le> j \<and> j < b + 0 then words h (a + (j - b)) else words h j) = words h" by auto
  then show ?case by simp
next
  case (Suc n)
  let ?h = "setw h b (words h a)"
  have ib: "inb h a" "inb h b" using Suc.prems by (auto intro: inb_mono)
  have "memcpy_words h (waddr b) (waddr a) (Suc n) = memcpy_words ?h (waddr (Suc b)) (waddr (Suc a)) n"
    using ib by (simp add: waddr_Suc)
  also have "\<dots> = Some (?h\<lparr>words := \<lambda>j. if Suc b \<le> j \<and> j < Suc b + n then words ?h (Suc a + (j - Suc b)) else words ?h j\<rparr>)"
    using Suc.prems by (intro Suc.IH) auto
  also have "(\<lambda>j. if Suc b \<le> j \<and> j < Suc b + n then words ?h (Suc a + (j - Suc b)) else words ?h j) =
      (\<lambda>j. if b \<le> j \<and> j < b + Suc n then words h (a + (j - b)) else words h j)"
  proof
    fix j
    show "(if Suc b \<le> j \<and> j < Suc b + n then words ?h (Suc a + (j - Suc b)) else words ?h j) =
      (if b \<le> j \<and> j < b + Suc n then words h (a + (j - b)) else words h j)"
    proof (cases "Suc b \<le> j \<and> j < Suc b + n")
      case True
      then have "Suc a + (j - Suc b) = a + (j - b)" "a + (j - b) \<noteq> b" using Suc.prems(3) by auto
      then show ?thesis using True by simp
    qed auto
  qed
  finally show ?case by simp
qed

lemma same_onD: "same_on A m m' \<Longrightarrow> (k, s) \<in> A \<Longrightarrow> k \<le> j \<Longrightarrow> j < k + s \<Longrightarrow> m' j = m j"
  by (auto simp: same_on_def)

lemma allocs_apart:
  "(k, s) \<in> allocs i bs \<Longrightarrow> (k', s') \<in> allocs i bs \<Longrightarrow> (k, s) \<noteq> (k', s') \<Longrightarrow> k + s \<le> k' \<or> k' + s' \<le> k"
proof (induction i bs rule: allocs.induct)
  case (2 i t a bs)
  then show ?case using allocs_within [of k s "i + t" bs] allocs_within [of k' s' "i + t" bs]
    by (auto split: if_splits)
qed simp

text \<open>Writes into the payload of a live block.\<close>

lemma payload_write:
  assumes inv: "heap_inv h bs" and live: "(k, s) \<in> allocs 0 bs" and brk: "mem_brk h' = mem_brk h"
    and fr: "\<And>j. \<not> (k < j \<and> j < k + s - 1) \<Longrightarrow> words h' j = words h j"
  shows "heap_inv h' bs" "same_on (allocs 0 bs - {(k, s)}) (words h) (words h')"
proof -
  obtain us vs where bs: "bs = us @ (s, True) # vs" "k = span us" using allocs_split [OF live] by auto
  have inv': "heap_inv h (us @ [(s, True)] @ vs)" using inv bs by simp
  have w: "3 \<le> s" "words h k = 8 * s + 1" "words h (k + s - 1) = 8 * s + 1"
    using heap_inv_split(2) [OF inv'] bs by (auto simp: foot_def)
  have t: "tiles (words h') (span us) [(s, True)] (span us + span [(s, True)])"
    using w bs fr [of k] fr [of "k + s - 1"] by (auto simp: foot_def)
  have fr': "words h' j = words h j" if "j < span us \<or> span us + span [(s, True)] \<le> j" for j
    by (rule fr) (use that bs in auto)
  note R = heap_inv_replace [OF inv' refl brk t fr', simplified]
  show "heap_inv h' bs" using R(1) bs by simp
  show "same_on (allocs 0 bs - {(k, s)}) (words h) (words h')"
    using R(2) allocs_without [of h us s vs] inv bs by simp
qed

text \<open>The outcome of \<open>mm_realloc\<close>: the old block replaced by one with the old contents.\<close>

definition reallocated :: "heap \<Rightarrow> (nat \<times> bool) list \<Rightarrow> nat \<Rightarrow> nat \<Rightarrow> nat \<Rightarrow> heap \<Rightarrow> int \<Rightarrow> bool" where
  "reallocated h bs k s n h' p \<longleftrightarrow> (\<exists>bs' k' s'. p = blkp k' \<and> n \<le> s' \<and> heap_inv h' bs' \<and>
     allocs 0 bs' = insert (k', s') (allocs 0 bs - {(k, s)}) \<and> (k', s') \<notin> allocs 0 bs - {(k, s)} \<and>
     same_on (allocs 0 bs - {(k, s)}) (words h) (words h') \<and>
     (\<forall>j. j < s - 2 \<longrightarrow> j < n - 2 \<longrightarrow> words h' (Suc k' + j) = words h (Suc k + j)) \<and>
     mem_brk h \<le> mem_brk h' \<and> mem_brk h' \<le> mem_brk h + 8 * int n)"

lemma reallocatedI:
  assumes "heap_inv h' bs'" "allocs 0 bs' = insert (k', s') (allocs 0 bs - {(k, s)})" "(k', s') \<notin> allocs 0 bs - {(k, s)}"
    "same_on (allocs 0 bs - {(k, s)}) (words h) (words h')" "n \<le> s'" "mem_brk h \<le> mem_brk h'" "mem_brk h' \<le> mem_brk h + 8 * int n"
    "\<And>j. j < s - 2 \<Longrightarrow> j < n - 2 \<Longrightarrow> words h' (Suc k' + j) = words h (Suc k + j)"
  shows "reallocated h bs k s n h' (blkp k')"
  unfolding reallocated_def using assms by blast

lemma move_block_ok:
  assumes inv: "heap_inv h bs" and live: "(k, s) \<in> allocs 0 bs" and n: "s < n"
    and al: "allocated h bs n h1 q"
  shows "\<exists>h'. move_block h1 q (blkp k) (8 * s - 16) = Some (h', Some q) \<and> reallocated h bs k s n h' q"
proof -
  obtain bs1 k' s' where q: "q = blkp k'" "n \<le> s'" "heap_inv h1 bs1" "\<forall>t. (k', t) \<notin> allocs 0 bs"
    "allocs 0 bs1 = insert (k', s') (allocs 0 bs)" "same_on (allocs 0 bs) (words h) (words h1)"
    "mem_brk h \<le> mem_brk h1" "mem_brk h1 \<le> mem_brk h + 8 * int n"
    using al by (auto simp: allocated_def)
  have s3: "3 \<le> s" using allocs_size [of "words h" 0 bs "span bs" k s] inv live by (auto simp: heap_inv_def)
  have ne: "(k, s) \<noteq> (k', s')" using q(4) live by auto
  have ap: "k + s \<le> k' \<or> k' + s' \<le> k" using allocs_apart [of k s 0 bs1 k' s'] q(5) live ne by auto
  have bnd: "k + s \<le> span bs1" "k' + s' \<le> span bs1"
    using allocs_within [of k s 0 bs1] allocs_within [of k' s' 0 bs1] q(5) live by auto
  have ib: "inb h1 j" if "j \<le> span bs1" for j using q(3) that by (auto simp: heap_inv_def inb_def)
  define m where "m = (\<lambda>j. if Suc k' \<le> j \<and> j < Suc k' + (s - 2) then words h1 (Suc k + (j - Suc k')) else words h1 j)"
  let ?h2 = "h1\<lparr>words := m\<rparr>"
  have cp: "memcpy_words h1 (waddr (Suc k')) (waddr (Suc k)) (s - 2) = Some ?h2"
    unfolding m_def using ib bnd ap s3 n q(2) by (intro memcpy_words_ok) auto
  have fr: "words ?h2 j = words h1 j" if "\<not> (k' < j \<and> j < k' + s' - 1)" for j
    using that n q(2) s3 by (auto simp: m_def)
  have inv2: "heap_inv ?h2 bs1" "same_on (allocs 0 bs1 - {(k', s')}) (words h1) (words ?h2)"
    using payload_write [OF q(3), of k' s' ?h2] q(5) fr by simp_all
  obtain h3 bs3 where f: "mm_free ?h2 (Some (blkp k)) = Some h3" "heap_inv h3 bs3"
    "allocs 0 bs3 = allocs 0 bs1 - {(k, s)}" "same_on (allocs 0 bs1 - {(k, s)}) (words ?h2) (words h3)"
    "mem_brk h3 = mem_brk ?h2"
    using mm_free_ok [OF inv2(1), of k s] q(5) live by auto
  have dsz: "(8 * s - 16) div 8 = s - 2" using s3 by simp
  have "move_block h1 q (blkp k) (8 * s - 16) = Some (h3, Some q)"
    using cp f(1) dsz q(1) by (simp add: move_block_def blkp_waddr)
  moreover have al3: "allocs 0 bs3 = insert (k', s') (allocs 0 bs - {(k, s)})" using f(3) q(5) ne by auto
  have sm3: "same_on (allocs 0 bs - {(k, s)}) (words h) (words h3)"
  proof -
    have "allocs 0 bs - {(k, s)} \<subseteq> allocs 0 bs1 - {(k', s')}" "allocs 0 bs - {(k, s)} \<subseteq> allocs 0 bs1 - {(k, s)}"
      using q(4,5) by auto
    then show ?thesis using same_on_trans same_on_subset [OF q(6)] same_on_subset [OF inv2(2)] same_on_subset [OF f(4)]
      by (metis Diff_subset)
  qed
  have w3: "words h3 (Suc k' + j) = words h (Suc k + j)" if j: "j < s - 2" for j
  proof -
    have "words h3 (Suc k' + j) = words ?h2 (Suc k' + j)"
    proof (rule same_onD [OF f(4)])
      show "(k', s') \<in> allocs 0 bs1 - {(k, s)}" using q(5) ne by auto
    qed (use j n q(2) in auto)
    also have "\<dots> = words h1 (Suc k + j)" using j by (auto simp: m_def)
    also have "\<dots> = words h (Suc k + j)" using j by (intro same_onD [OF q(6) live]) auto
    finally show ?thesis .
  qed
  have nl: "(k', s') \<notin> allocs 0 bs - {(k, s)}" using q(4) by blast
  have brk: "mem_brk h \<le> mem_brk h3" "mem_brk h3 \<le> mem_brk h + 8 * int n" using f(5) q(7,8) by simp_all
  have "reallocated h bs k s n h3 (blkp k')"
    using f(2) al3 nl sm3 q(2) brk w3 by (rule reallocatedI)
  ultimately show ?thesis using q(1) by blast
qed

lemma realloc_shrink:
  assumes inv: "heap_inv h bs" and live: "(k, s) \<in> allocs 0 bs" and n: "3 \<le> n" "n < s"
  shows "\<exists>h'. place h (blkp k) (8 * n) = Some h' \<and> reallocated h bs k s n h' (blkp k)"
proof -
  obtain us vs where bs: "bs = us @ (s, True) # vs" "k = span us" using allocs_split [OF live] by auto
  obtain h' where h': "place h (blkp k) (8 * n) = Some h'" "heap_inv h' (us @ placed n s @ vs)"
    "same_on (allocs 0 us \<union> allocs (span us + s) vs) (words h) (words h')" "mem_brk h' = mem_brk h"
    "\<forall>j. span us < j \<longrightarrow> j < span us + (n - 1) \<longrightarrow> words h' j = words h j"
    using place_ok [of h us s True vs n] inv n bs by auto
  let ?s = "if s - n > 2 then n else s"
  have al: "allocs 0 us \<union> allocs (span us + s) vs = allocs 0 bs - {(k, s)}"
    using allocs_without [of h us s vs] inv bs by simp
  then have al': "allocs 0 (us @ placed n s @ vs) = insert (k, ?s) (allocs 0 bs - {(k, s)})"
    using n bs(2) by (auto simp: allocs_append allocs_placed)
  have nl: "(k, ?s) \<notin> allocs 0 bs - {(k, s)}"
    using allocs_apart [OF live, of k ?s] n by auto
  have pay: "words h' (Suc k + j) = words h (Suc k + j)" if "j < n - 2" for j
    using h'(5) that bs(2) by auto
  have sm: "same_on (allocs 0 bs - {(k, s)}) (words h) (words h')" using h'(3) al by simp
  have "reallocated h bs k s n h' (blkp k)"
    using h'(2) al' nl sm by (rule reallocatedI) (use h'(4) n pay in auto)
  then show ?thesis using h'(1) by blast
qed

lemma mm_realloc_ok:
  assumes inv: "heap_inv h bs" and live: "(k, s) \<in> allocs 0 bs"
    and sz: "0 < sz" "mem_brk h + 8 * int (req_words sz) \<le> MAX_HEAP"
  shows "\<exists>h' p. mm_realloc h (Some (blkp k)) sz = Some (h', Some p) \<and> reallocated h bs k s (req_words sz) h' p"
proof -
  let ?n = "req_words sz"
  have "int sz \<le> 8 * int ?n" using req_words_ge(2) [of sz] by linarith
  moreover have "0 \<le> mem_brk h" using inv by (simp add: heap_inv_def)
  ultimately have "sz < 2 ^ 60" using sz(2) by (simp add: MAX_HEAP_def)
  then have ns: "size_add (ALIGN sz) (2 * 8) = 8 * ?n" by (rule new_size_eq)
  have n3: "3 \<le> ?n" using req_words_ge sz by simp
  obtain us vs where bs: "bs = us @ (s, True) # vs" "k = span us" using allocs_split [OF live] by auto
  have w: "3 \<le> s" "words h k = 8 * s + 1" "inb h k" "8 * s < 2 ^ 64"
    using heap_inv_split(2,5) [of h us "(s, True) # vs"] inv bs small_span [OF inv, of s] by auto
  have gs: "GET_SIZE h (HDRP (blkp k)) = Some (8 * s)" using w by simp
  have ds: "(8 * s + 2 ^ 64 - 2 * 8) mod 2 ^ 64 = 8 * s - 16"
  proof -
    have e: "8 * s + 2 ^ 64 - 2 * 8 = (8 * s - 16) + 2 ^ 64" using w by simp
    have l: "8 * s - 16 < 2 ^ 64" using w by simp
    show ?thesis unfolding e mod_add_self2 by (rule mod_less [OF l])
  qed
  have z: "(sz = 0) = False" using sz by simp
  have unf: "mm_realloc h (Some (blkp k)) sz =
    (if 8 * s = 8 * ?n then Some (h, Some (blkp k))
     else if 8 * s > 8 * ?n then do { h1 \<leftarrow> place h (blkp k) (8 * ?n); Some (h1, Some (blkp k)) }
     else do {
       np \<leftarrow> find_fit_block h (8 * ?n);
       case np of
         Some q \<Rightarrow> do { h1 \<leftarrow> place h q (8 * ?n); move_block h1 q (blkp k) (8 * s - 16) }
       | None \<Rightarrow> do {
           h1 \<leftarrow> (if total_free_size h > 8 * ?n then coalesces h else Some h);
           np1 \<leftarrow> find_fit_block h1 (8 * ?n);
           case np1 of
             Some q \<Rightarrow> do { h2 \<leftarrow> place h1 q (8 * ?n); move_block h2 q (blkp k) (8 * s - 16) }
           | None \<Rightarrow> do { (h2, q) \<leftarrow> extend_heap h1 (8 * ?n); move_block h2 q (blkp k) (8 * s - 16) } } })"
    unfolding mm_realloc_def Let_def ns z by (simp only: if_False bind.simps option.case gs ds)
  consider (eq) "s = ?n" | (less) "?n < s" | (grow) "s < ?n" by linarith
  then show ?thesis
  proof cases
    case eq
    then have "mm_realloc h (Some (blkp k)) sz = Some (h, Some (blkp k))" using sz by (simp add: unf)
    moreover have "reallocated h bs k s ?n h (blkp k)"
      using inv by (rule reallocatedI) (use live eq in auto)
    ultimately show ?thesis by blast
  next
    case less
    obtain h' where "place h (blkp k) (8 * ?n) = Some h'" "reallocated h bs k s ?n h' (blkp k)"
      using realloc_shrink [OF inv live n3 less] by blast
    then show ?thesis using sz less by (simp add: unf)
  next
    case grow
    have nf: "8 * s \<noteq> 8 * ?n" "\<not> 8 * s > 8 * ?n" using grow by auto
    from find_fit_ok [OF inv, of "8 * ?n"] show ?thesis
    proof (elim disjE exE conjE)
      fix us s' vs
      assume f: "bs = us @ (s', False) # vs" "8 * ?n \<le> 8 * s'" "find_fit_block h (8 * ?n) = Some (Some (blkp (span us)))"
      obtain h1 where h1: "place h (blkp (span us)) (8 * ?n) = Some h1" "allocated h bs ?n h1 (blkp (span us))"
        using place_free_ok [of h us s' vs ?n] inv n3 f by auto
      from move_block_ok [OF inv live grow h1(2)] h1(1) f(3) sz nf show ?thesis by (auto simp: unf)
    next
      assume none: "find_fit_block h (8 * ?n) = Some None"
      obtain h1 bs1 where 1: "(if total_free_size h > 8 * ?n then coalesces h else Some h) = Some h1"
        "heap_inv h1 bs1" "same_heap h bs h1 bs1"
        using coalesces_ok [OF inv] inv same_heap_refl by (cases "total_free_size h > 8 * ?n") auto
      have room: "mem_brk h1 + 8 * int ?n \<le> MAX_HEAP" using 1(3) sz by (simp add: same_heap_def)
      from find_fit_ok [OF 1(2), of "8 * ?n"] show ?thesis
      proof (elim disjE exE conjE)
        fix us s' vs
        assume f: "bs1 = us @ (s', False) # vs" "8 * ?n \<le> 8 * s'" "find_fit_block h1 (8 * ?n) = Some (Some (blkp (span us)))"
        obtain h2 where h2: "place h1 (blkp (span us)) (8 * ?n) = Some h2" "allocated h bs ?n h2 (blkp (span us))"
          using place_free_ok [of h1 us s' vs ?n] 1 n3 f allocated_trans by metis
        from move_block_ok [OF inv live grow h2(2)] h2(1) f(3) 1(1) none sz nf show ?thesis
          by (auto simp: unf)
      next
        assume none1: "find_fit_block h1 (8 * ?n) = Some None"
        obtain h2 q where h2: "extend_heap h1 (8 * ?n) = Some (h2, q)" "allocated h bs ?n h2 q"
          using extend_allocated [OF 1(2) n3 room] allocated_trans [OF 1(3)] by blast
        from move_block_ok [OF inv live grow h2(2)] h2(1) none1 1(1) none sz nf show ?thesis
          by (auto simp: unf)
      qed
    qed
  qed
qed

end
