(* ===== verification/Bytes.thy ===== *)
theory Bytes
  imports Memlib
begin

text \<open>
  Byte access to the word memory of \<open>Memlib\<close>, little endian: what the driver does through \<open>char*\<close>.
\<close>

definition byte_of :: "nat \<Rightarrow> nat \<Rightarrow> nat" where
  "byte_of w i = take_bit 8 (drop_bit (8 * i) w)"

definition with_byte :: "nat \<Rightarrow> nat \<Rightarrow> nat \<Rightarrow> nat" where
  "with_byte w i b =
     take_bit (8 * i) w OR push_bit (8 * i) (take_bit 8 b) OR push_bit (8 * i + 8) (drop_bit (8 * i + 8) w)"

definition get_byte :: "heap \<Rightarrow> int \<Rightarrow> nat option" where
  "get_byte h a = (if 0 \<le> a \<and> a < mem_brk h then Some (byte_of (words h (nat (a div 8))) (nat (a mod 8))) else None)"

definition put_byte :: "heap \<Rightarrow> int \<Rightarrow> nat \<Rightarrow> heap option" where
  "put_byte h a b =
     (if 0 \<le> a \<and> a < mem_brk h
      then Some (h\<lparr>words := (words h)(nat (a div 8) := with_byte (words h (nat (a div 8))) (nat (a mod 8)) b)\<rparr>)
      else None)"

lemma byte_same: "byte_of (with_byte w i b) i = take_bit 8 b"
  unfolding byte_of_def with_byte_def by (rule bit_eqI) (auto simp: bit_simps)

lemma byte_other: "i \<noteq> j \<Longrightarrow> byte_of (with_byte w i b) j = byte_of w j"
  unfolding byte_of_def with_byte_def by (rule bit_eqI) (auto simp: bit_simps)

lemma get_put_byte:
  assumes "put_byte h a b = Some h'" "b < 256"
  shows "get_byte h' a = Some b" "a' \<noteq> a \<Longrightarrow> get_byte h' a' = get_byte h a'"
proof -
  let ?w = "with_byte (words h (nat (a div 8))) (nat (a mod 8)) b"
  have h': "0 \<le> a" "a < mem_brk h" "h' = h\<lparr>words := (words h)(nat (a div 8) := ?w)\<rparr>"
    using assms(1) by (auto simp: put_byte_def split: if_splits)
  show "get_byte h' a = Some b"
    using h' assms(2) by (simp add: get_byte_def byte_same take_bit_nat_eq_self)
  show "get_byte h' a' = get_byte h a'" if "a' \<noteq> a"
  proof (cases "0 \<le> a' \<and> nat (a' div 8) = nat (a div 8)")
    case True
    then have "a' div 8 = a div 8" using h'(1) by (metis nat_eq_iff2 pos_imp_zdiv_nonneg_iff zero_less_numeral)
    then have "a' mod 8 \<noteq> a mod 8" using that by (metis mult_div_mod_eq)
    then have "nat (a' mod 8) \<noteq> nat (a mod 8)" by simp
    then show ?thesis using True h' by (simp add: get_byte_def byte_other)
  next
    case False
    then show ?thesis using h' by (auto simp: get_byte_def)
  qed
qed

end
