(* ===== verification/Allocator.thy ===== *)
theory Allocator
  imports Memlib
begin

text \<open>
  The interface between the trace driver and an allocator package: the functions of \<open>mm.h\<close> and of \<open>memlib.h\<close>
  that \<open>mdriver.c\<close> calls, and the contract they have to meet. \<open>rep h L\<close> says that the live payloads of state
  \<open>h\<close> are the blocks \<open>L\<close>, each an address with a length in bytes; \<open>room\<close> is what is left of the memory.
\<close>

record 'h pkg =
  pk_reset :: "'h \<Rightarrow> 'h"
  pk_init :: "'h \<Rightarrow> 'h option"
  pk_malloc :: "'h \<Rightarrow> nat \<Rightarrow> ('h \<times> ptr) option"
  pk_free :: "'h \<Rightarrow> ptr \<Rightarrow> 'h option"
  pk_realloc :: "'h \<Rightarrow> ptr \<Rightarrow> nat \<Rightarrow> ('h \<times> ptr) option"
  pk_rd :: "'h \<Rightarrow> int \<Rightarrow> nat option"
  pk_wr :: "'h \<Rightarrow> int \<Rightarrow> nat \<Rightarrow> 'h option"
  pk_size :: "'h \<Rightarrow> int"

definition in_block :: "(int \<times> nat) \<Rightarrow> int \<Rightarrow> bool" where
  "in_block B a \<longleftrightarrow> fst B \<le> a \<and> a < fst B + int (snd B)"

definition same_bytes :: "'h pkg \<Rightarrow> (int \<times> nat) set \<Rightarrow> 'h \<Rightarrow> 'h \<Rightarrow> bool" where
  "same_bytes P L h h' \<longleftrightarrow> (\<forall>B \<in> L. \<forall>a. in_block B a \<longrightarrow> pk_rd P h' a = pk_rd P h a)"

locale allocator =
  fixes P :: "'h pkg" and rep :: "'h \<Rightarrow> (int \<times> nat) set \<Rightarrow> bool" and room :: "'h \<Rightarrow> int" and need :: "nat \<Rightarrow> int"
    and capacity :: int
  assumes need_pos: "0 \<le> need sz"
    and init_ok: "\<exists>h'. pk_init P (pk_reset P h) = Some h' \<and> rep h' {} \<and> room h' = capacity"
    and size_nonneg: "rep h L \<Longrightarrow> 0 \<le> pk_size P h"
    and extent: "rep h L \<Longrightarrow> (p, n) \<in> L \<Longrightarrow> p mod 8 = 0 \<and> 0 \<le> p \<and> p + int n < pk_size P h \<and> 0 < n"
    and apart: "rep h L \<Longrightarrow> (p, n) \<in> L \<Longrightarrow> (q, k) \<in> L \<Longrightarrow> (p, n) \<noteq> (q, k) \<Longrightarrow> p + int n \<le> q \<or> q + int k \<le> p"
    and malloc_ok: "rep h L \<Longrightarrow> 0 < sz \<Longrightarrow> need sz \<le> room h \<Longrightarrow>
      \<exists>h' p n. pk_malloc P h sz = Some (h', Some p) \<and> rep h' (insert (p, n) L) \<and> (p, n) \<notin> L \<and> sz \<le> n \<and>
        room h \<le> room h' + need sz \<and> same_bytes P L h h' \<and> pk_size P h \<le> pk_size P h'"
    and free_ok: "rep h L \<Longrightarrow> (p, n) \<in> L \<Longrightarrow>
      \<exists>h'. pk_free P h (Some p) = Some h' \<and> rep h' (L - {(p, n)}) \<and> room h \<le> room h' \<and>
        same_bytes P (L - {(p, n)}) h h' \<and> pk_size P h \<le> pk_size P h'"
    and realloc_ok: "rep h L \<Longrightarrow> (p, n) \<in> L \<Longrightarrow> 0 < sz \<Longrightarrow> need sz \<le> room h \<Longrightarrow>
      \<exists>h' q k. pk_realloc P h (Some p) sz = Some (h', Some q) \<and> rep h' (insert (q, k) (L - {(p, n)})) \<and>
        (q, k) \<notin> L - {(p, n)} \<and> sz \<le> k \<and> room h \<le> room h' + need sz \<and> same_bytes P (L - {(p, n)}) h h' \<and>
        (\<forall>j. j < n \<longrightarrow> j < sz \<longrightarrow> pk_rd P h' (q + int j) = pk_rd P h (p + int j)) \<and> pk_size P h \<le> pk_size P h'"
    and rd_ok: "rep h L \<Longrightarrow> B \<in> L \<Longrightarrow> in_block B a \<Longrightarrow> \<exists>b<256. pk_rd P h a = Some b"
    and wr_ok: "rep h L \<Longrightarrow> B \<in> L \<Longrightarrow> in_block B a \<Longrightarrow> b < 256 \<Longrightarrow>
      \<exists>h'. pk_wr P h a b = Some h' \<and> rep h' L \<and> room h' = room h \<and> pk_rd P h' a = Some b \<and>
        (\<forall>a'. a' \<noteq> a \<longrightarrow> pk_rd P h' a' = pk_rd P h a') \<and> pk_size P h' = pk_size P h"

text \<open>\<open>memset(p, v, n)\<close> and the loop that compares \<open>n\<close> bytes with a value.\<close>

fun memset :: "'h pkg \<Rightarrow> 'h \<Rightarrow> int \<Rightarrow> nat \<Rightarrow> nat \<Rightarrow> 'h option" where
  "memset P h p v 0 = Some h"
| "memset P h p v (Suc n) = do { h1 \<leftarrow> pk_wr P h p v; memset P h1 (p + 1) v n }"

text \<open>A byte read through \<open>char\<close>, which is signed, compared with an \<open>int\<close>.\<close>

definition schar :: "nat \<Rightarrow> int" where
  "schar b = (if b < 128 then int b else int b - 256)"

fun bytes_equal :: "'h pkg \<Rightarrow> 'h \<Rightarrow> int \<Rightarrow> nat \<Rightarrow> nat \<Rightarrow> bool option" where
  "bytes_equal P h p v 0 = Some True"
| "bytes_equal P h p v (Suc n) =
     do { b \<leftarrow> pk_rd P h p; if schar b \<noteq> int v then Some False else bytes_equal P h (p + 1) v n }"

lemma bytes_equal_ok:
  "v < 128 \<Longrightarrow> (\<And>j. j < n \<Longrightarrow> pk_rd P h (p + int j) = Some v) \<Longrightarrow> bytes_equal P h p v n = Some True"
proof (induction n arbitrary: p)
  case (Suc n)
  have "pk_rd P h (p + 1 + int j) = Some v" if "j < n" for j
    using Suc.prems(2) [of "Suc j"] that by (simp add: add.assoc)
  then have "bytes_equal P h (p + 1) v n = Some True" using Suc by blast
  moreover have "pk_rd P h p = Some v" using Suc.prems(2) [of 0] by simp
  ultimately show ?case using Suc.prems(1) by (simp add: schar_def)
qed simp

context allocator
begin

lemma memset_ok:
  assumes "rep h L" "(p0, m) \<in> L" "p0 \<le> p" "p + int n \<le> p0 + int m" "v < 256"
  shows "\<exists>h'. memset P h p v n = Some h' \<and> rep h' L \<and> room h' = room h \<and> pk_size P h' = pk_size P h \<and>
    (\<forall>j<n. pk_rd P h' (p + int j) = Some v) \<and> (\<forall>a. a < p \<or> p + int n \<le> a \<longrightarrow> pk_rd P h' a = pk_rd P h a)"
  using assms
proof (induction n arbitrary: h p)
  case 0
  then show ?case by simp
next
  case (Suc n)
  have "in_block (p0, m) p" using Suc.prems by (simp add: in_block_def)
  then obtain h1 where h1: "pk_wr P h p v = Some h1" "rep h1 L" "room h1 = room h" "pk_rd P h1 p = Some v"
    "\<forall>a'. a' \<noteq> p \<longrightarrow> pk_rd P h1 a' = pk_rd P h a'" "pk_size P h1 = pk_size P h"
    using wr_ok Suc.prems by metis
  obtain h' where h': "memset P h1 (p + 1) v n = Some h'" "rep h' L" "room h' = room h1" "pk_size P h' = pk_size P h1"
    "\<forall>j<n. pk_rd P h' (p + 1 + int j) = Some v" "\<forall>a. a < p + 1 \<or> p + 1 + int n \<le> a \<longrightarrow> pk_rd P h' a = pk_rd P h1 a"
    using Suc.IH [OF h1(2) Suc.prems(2), of "p + 1"] Suc.prems by auto
  have "pk_rd P h' (p + int j) = Some v" if "j < Suc n" for j
  proof (cases j)
    case 0
    then show ?thesis using h1(4) h'(6) by simp
  next
    case (Suc i)
    then show ?thesis using h'(5) that by (simp add: add.assoc)
  qed
  moreover have "pk_rd P h' a = pk_rd P h a" if "a < p \<or> p + int (Suc n) \<le> a" for a
    using that h1(5) h'(6) by auto
  ultimately show ?case using h1 h' by auto
qed

text \<open>Live payloads are disjoint parts of the heap, so together they are no larger than it.\<close>

lemma live_total:
  assumes "rep h L" "finite L"
  shows "int (\<Sum>B \<in> L. snd B) \<le> pk_size P h"
proof -
  let ?I = "\<lambda>B. {fst B..<fst B + int (snd B)}"
  have disj: "\<forall>B \<in> L. \<forall>C \<in> L. B \<noteq> C \<longrightarrow> ?I B \<inter> ?I C = {}"
  proof (intro ballI impI)
    fix B C assume "B \<in> L" "C \<in> L" "B \<noteq> C"
    then have "fst B + int (snd B) \<le> fst C \<or> fst C + int (snd C) \<le> fst B"
      using apart [OF assms(1), of "fst B" "snd B" "fst C" "snd C"] by (metis prod.collapse)
    then show "?I B \<inter> ?I C = {}" by auto
  qed
  have "(\<Sum>B \<in> L. snd B) = (\<Sum>B \<in> L. card (?I B))" by simp
  also have "\<dots> = card (\<Union>B \<in> L. ?I B)" using card_UN_disjoint [OF assms(2), of ?I] disj by simp
  also have "\<dots> \<le> card {0..<pk_size P h}"
  proof (rule card_mono)
    show "(\<Union>B \<in> L. ?I B) \<subseteq> {0..<pk_size P h}" using extent [OF assms(1)] by fastforce
  qed simp
  finally show ?thesis using size_nonneg [OF assms(1)] by (simp add: le_nat_iff del: of_nat_sum)
qed

lemma live_total_indexed:
  assumes "rep h ((\<lambda>i. (p i, n i)) ` live)" "finite live" "inj_on p live" "\<And>i. i \<in> live \<Longrightarrow> z i \<le> n i"
  shows "(\<Sum>i \<in> live. int (z i)) \<le> pk_size P h"
proof -
  have "(\<Sum>i \<in> live. z i) \<le> (\<Sum>i \<in> live. n i)" using assms(4) by (rule sum_mono)
  also have "\<dots> = (\<Sum>B \<in> (\<lambda>i. (p i, n i)) ` live. snd B)"
    using assms(3) by (subst sum.reindex) (auto simp: inj_on_def)
  finally have "int (\<Sum>i \<in> live. z i) \<le> int (\<Sum>B \<in> (\<lambda>i. (p i, n i)) ` live. snd B)"
    by (simp only: of_nat_le_iff)
  also have "\<dots> \<le> pk_size P h" using assms(1,2) by (intro live_total) auto
  finally show ?thesis by simp
qed

end

end
