(* ===== verification/MDriver.thy ===== *)
theory MDriver
  imports Allocator
begin

text \<open>
  The trace driver \<open>homework/CSAPP/lab/malloclab-handout/mdriver.c\<close>: the range list that detects
  misplaced blocks and the three interpreters of a trace. They take the allocator package as an argument.
  Addresses are offsets from the start of the heap, whose base the C library aligns.
\<close>

subsection \<open>Data\<close>

datatype optype = ALLOC | FREE | REALLOC

record traceop =
  op_type :: optype
  op_index :: nat
  op_size :: nat

record 'h dstate =
  dheap :: 'h
  ranges :: "(int \<times> int) list"
  blocks :: "ptr list"
  block_sizes :: "nat list"
  derrors :: nat

subsection \<open>The range list\<close>

text \<open>\<open>None\<close> is a failed assertion; the boolean is the return value.\<close>

definition overlaps :: "int \<Rightarrow> int \<Rightarrow> int \<times> int \<Rightarrow> bool" where
  "overlaps lo hi r \<longleftrightarrow> lo \<ge> fst r \<and> lo \<le> snd r \<or> hi \<ge> fst r \<and> hi \<le> snd r"

definition add_range :: "int \<Rightarrow> (int \<times> int) list \<Rightarrow> int \<Rightarrow> nat \<Rightarrow> ((int \<times> int) list \<times> bool) option" where
  "add_range heap_hi rs lo sz =
     (let hi = lo + int sz - 1 in
      if sz = 0 then None
      else if lo mod 8 \<noteq> 0 then Some (rs, False)
      else if lo < 0 \<or> lo > heap_hi \<or> hi < 0 \<or> hi > heap_hi then Some (rs, False)
      else if list_ex (overlaps lo hi) rs then Some (rs, False)
      else Some ((lo, hi) # rs, True))"

fun remove_range :: "(int \<times> int) list \<Rightarrow> int \<Rightarrow> (int \<times> int) list" where
  "remove_range [] lo = []"
| "remove_range (r # rs) lo = (if fst r = lo then rs else r # remove_range rs lo)"

definition clear_ranges :: "(int \<times> int) list \<Rightarrow> (int \<times> int) list" where
  "clear_ranges rs = []"

subsection \<open>Interpreting a trace\<close>

definition malloc_error :: "'h dstate \<Rightarrow> 'h dstate" where
  "malloc_error st = st\<lparr>derrors := derrors st + 1\<rparr>"

text \<open>A pointer passed to \<open>add_range\<close> and \<open>memset\<close> is not null there.\<close>

definition check_range :: "'h pkg \<Rightarrow> 'h dstate \<Rightarrow> int \<Rightarrow> nat \<Rightarrow> ('h dstate \<times> bool) option" where
  "check_range P st p sz =
     do { (rs, ok) \<leftarrow> add_range (pk_size P (dheap st) - 1) (ranges st) p sz;
          Some (if ok then (st\<lparr>ranges := rs\<rparr>, True) else (malloc_error st, False)) }"

definition remember :: "'h dstate \<Rightarrow> nat \<Rightarrow> int \<Rightarrow> nat \<Rightarrow> 'h dstate option" where
  "remember st i p sz =
     do { bl \<leftarrow> vset (blocks st) i (Some p);
          bs \<leftarrow> vset (block_sizes st) i sz;
          Some (st\<lparr>blocks := bl, block_sizes := bs\<rparr>) }"

definition valid_alloc :: "'h pkg \<Rightarrow> nat \<Rightarrow> nat \<Rightarrow> 'h dstate \<Rightarrow> ('h dstate \<times> bool) option" where
  "valid_alloc P i sz st =
     do { (h, q) \<leftarrow> pk_malloc P (dheap st) sz;
          let st1 = st\<lparr>dheap := h\<rparr>;
          case q of
            None \<Rightarrow> Some (malloc_error st1, False)
          | Some p \<Rightarrow> do {
              (st2, ok) \<leftarrow> check_range P st1 p sz;
              if \<not> ok then Some (st2, False)
              else do { h' \<leftarrow> memset P (dheap st2) p (i mod 256) sz;
                        st3 \<leftarrow> remember (st2\<lparr>dheap := h'\<rparr>) i p sz;
                        Some (st3, True) } } }"

text \<open>\<open>remove_range\<close> of a null pointer finds nothing.\<close>

definition valid_realloc :: "'h pkg \<Rightarrow> nat \<Rightarrow> nat \<Rightarrow> 'h dstate \<Rightarrow> ('h dstate \<times> bool) option" where
  "valid_realloc P i sz st =
     do { oldp \<leftarrow> vget (blocks st) i;
          (h, q) \<leftarrow> pk_realloc P (dheap st) oldp sz;
          let st1 = st\<lparr>dheap := h\<rparr>;
          case q of
            None \<Rightarrow> Some (malloc_error st1, False)
          | Some newp \<Rightarrow> do {
              let st2 = st1\<lparr>ranges := (case oldp of None \<Rightarrow> ranges st1 | Some o' \<Rightarrow> remove_range (ranges st1) o')\<rparr>;
              (st3, ok) \<leftarrow> check_range P st2 newp sz;
              if \<not> ok then Some (st3, False)
              else do {
                z \<leftarrow> vget (block_sizes st3) i;
                let oldsize = (if sz < z then sz else z);
                eq \<leftarrow> bytes_equal P (dheap st3) newp (i mod 256) oldsize;
                if \<not> eq then Some (malloc_error st3, False)
                else do { h' \<leftarrow> memset P (dheap st3) newp (i mod 256) sz;
                          st4 \<leftarrow> remember (st3\<lparr>dheap := h'\<rparr>) i newp sz;
                          Some (st4, True) } } } }"

definition valid_free :: "'h pkg \<Rightarrow> nat \<Rightarrow> 'h dstate \<Rightarrow> ('h dstate \<times> bool) option" where
  "valid_free P i st =
     do { p \<leftarrow> vget (blocks st) i;
          h \<leftarrow> pk_free P (dheap st) p;
          Some (st\<lparr>dheap := h, ranges := (case p of None \<Rightarrow> ranges st | Some q \<Rightarrow> remove_range (ranges st) q)\<rparr>, True) }"

definition valid_op :: "'h pkg \<Rightarrow> traceop \<Rightarrow> 'h dstate \<Rightarrow> ('h dstate \<times> bool) option" where
  "valid_op P t st =
     (case op_type t of
        ALLOC \<Rightarrow> valid_alloc P (op_index t) (op_size t) st
      | REALLOC \<Rightarrow> valid_realloc P (op_index t) (op_size t) st
      | FREE \<Rightarrow> valid_free P (op_index t) st)"

primrec valid_loop :: "'h pkg \<Rightarrow> traceop list \<Rightarrow> 'h dstate \<Rightarrow> ('h dstate \<times> bool) option" where
  "valid_loop P [] st = Some (st, True)"
| "valid_loop P (t # ts) st =
     do { (st', ok) \<leftarrow> valid_op P t st; if ok then valid_loop P ts st' else Some (st', False) }"

definition eval_mm_valid :: "'h pkg \<Rightarrow> traceop list \<Rightarrow> 'h dstate \<Rightarrow> ('h dstate \<times> bool) option" where
  "eval_mm_valid P ops st =
     do { h \<leftarrow> pk_init P (pk_reset P (dheap st));
          valid_loop P ops (st\<lparr>dheap := h, ranges := clear_ranges (ranges st)\<rparr>) }"

subsection \<open>Space utilization and speed\<close>

text \<open>\<open>Inl\<close> is the exit through \<open>app_error\<close>. The two totals are kept beside the state.\<close>

record 'h ustate =
  uheap :: 'h
  ublocks :: "ptr list"
  usizes :: "nat list"
  total_size :: int
  max_total_size :: int

definition util_op :: "'h pkg \<Rightarrow> traceop \<Rightarrow> 'h ustate \<Rightarrow> (unit + 'h ustate) option" where
  "util_op P t st =
     (let i = op_index t; sz = op_size t in
      case op_type t of
        ALLOC \<Rightarrow> do {
          (h, q) \<leftarrow> pk_malloc P (uheap st) sz;
          case q of None \<Rightarrow> Some (Inl ())
          | Some p \<Rightarrow> do {
              bl \<leftarrow> vset (ublocks st) i (Some p);
              zs \<leftarrow> vset (usizes st) i sz;
              let tot = total_size st + int sz;
              Some (Inr \<lparr>uheap = h, ublocks = bl, usizes = zs, total_size = tot,
                max_total_size = (if tot > max_total_size st then tot else max_total_size st)\<rparr>) } }
      | REALLOC \<Rightarrow> do {
          oldsize \<leftarrow> vget (usizes st) i;
          oldp \<leftarrow> vget (ublocks st) i;
          (h, q) \<leftarrow> pk_realloc P (uheap st) oldp sz;
          case q of None \<Rightarrow> Some (Inl ())
          | Some p \<Rightarrow> do {
              bl \<leftarrow> vset (ublocks st) i (Some p);
              zs \<leftarrow> vset (usizes st) i sz;
              let tot = total_size st + (int sz - int oldsize);
              Some (Inr \<lparr>uheap = h, ublocks = bl, usizes = zs, total_size = tot,
                max_total_size = (if tot > max_total_size st then tot else max_total_size st)\<rparr>) } }
      | FREE \<Rightarrow> do {
          z \<leftarrow> vget (usizes st) i;
          p \<leftarrow> vget (ublocks st) i;
          h \<leftarrow> pk_free P (uheap st) p;
          Some (Inr (st\<lparr>uheap := h, total_size := total_size st - int z\<rparr>)) })"

primrec util_loop :: "'h pkg \<Rightarrow> traceop list \<Rightarrow> 'h ustate \<Rightarrow> (unit + 'h ustate) option" where
  "util_loop P [] st = Some (Inr st)"
| "util_loop P (t # ts) st =
     do { r \<leftarrow> util_op P t st; case r of Inl u \<Rightarrow> Some (Inl u) | Inr st' \<Rightarrow> util_loop P ts st' }"

text \<open>The result is the pair whose quotient the function returns.\<close>

definition eval_mm_util :: "'h pkg \<Rightarrow> traceop list \<Rightarrow> 'h \<Rightarrow> ptr list \<Rightarrow> nat list \<Rightarrow> (unit + int \<times> int) option" where
  "eval_mm_util P ops h0 bl zs =
     do { h \<leftarrow> pk_init P (pk_reset P h0);
          r \<leftarrow> util_loop P ops \<lparr>uheap = h, ublocks = bl, usizes = zs, total_size = 0, max_total_size = 0\<rparr>;
          Some (map_sum id (\<lambda>st. (max_total_size st, pk_size P (uheap st))) r) }"

definition speed_op :: "'h pkg \<Rightarrow> traceop \<Rightarrow> 'h \<times> ptr list \<Rightarrow> (unit + 'h \<times> ptr list) option" where
  "speed_op P t st =
     (let i = op_index t; sz = op_size t; h = fst st; bl = snd st in
      case op_type t of
        ALLOC \<Rightarrow> do {
          (h', q) \<leftarrow> pk_malloc P h sz;
          case q of None \<Rightarrow> Some (Inl ()) | Some p \<Rightarrow> do { bl' \<leftarrow> vset bl i (Some p); Some (Inr (h', bl')) } }
      | REALLOC \<Rightarrow> do {
          oldp \<leftarrow> vget bl i;
          (h', q) \<leftarrow> pk_realloc P h oldp sz;
          case q of None \<Rightarrow> Some (Inl ()) | Some p \<Rightarrow> do { bl' \<leftarrow> vset bl i (Some p); Some (Inr (h', bl')) } }
      | FREE \<Rightarrow> do { p \<leftarrow> vget bl i; h' \<leftarrow> pk_free P h p; Some (Inr (h', bl)) })"

primrec speed_loop :: "'h pkg \<Rightarrow> traceop list \<Rightarrow> 'h \<times> ptr list \<Rightarrow> (unit + 'h \<times> ptr list) option" where
  "speed_loop P [] st = Some (Inr st)"
| "speed_loop P (t # ts) st =
     do { r \<leftarrow> speed_op P t st; case r of Inl u \<Rightarrow> Some (Inl u) | Inr st' \<Rightarrow> speed_loop P ts st' }"

definition eval_mm_speed :: "'h pkg \<Rightarrow> traceop list \<Rightarrow> 'h \<Rightarrow> ptr list \<Rightarrow> (unit + 'h \<times> ptr list) option" where
  "eval_mm_speed P ops h0 bl = do { h \<leftarrow> pk_init P (pk_reset P h0); speed_loop P ops (h, bl) }"

end
