(* ===== verification/MDriverValid.thy ===== *)
theory MDriverValid
  imports MDriver
begin

text \<open>
  The trace driver accepts every allocator that meets the contract: on a well-formed trace that fits the
  memory, \<open>eval_mm_valid\<close> returns 1, \<open>eval_mm_util\<close> a ratio of at most one.
\<close>

subsection \<open>Well-formed traces\<close>

text \<open>
  Ids are allocated before they are resized or freed. The low byte of a resized id is below 128: the driver
  compares it with a \<open>char\<close>.
\<close>

fun trace_ok :: "nat \<Rightarrow> nat set \<Rightarrow> traceop list \<Rightarrow> bool" where
  "trace_ok N live [] \<longleftrightarrow> True"
| "trace_ok N live (t # ts) \<longleftrightarrow>
     (case op_type t of
        ALLOC \<Rightarrow> op_index t < N \<and> op_index t \<notin> live \<and> 0 < op_size t \<and> trace_ok N (insert (op_index t) live) ts
      | REALLOC \<Rightarrow> op_index t \<in> live \<and> 0 < op_size t \<and> op_index t mod 256 < 128 \<and> trace_ok N live ts
      | FREE \<Rightarrow> op_index t \<in> live \<and> trace_ok N (live - {op_index t}) ts)"

fun demand :: "(nat \<Rightarrow> int) \<Rightarrow> traceop list \<Rightarrow> int" where
  "demand need [] = 0"
| "demand need (t # ts) = (if op_type t = FREE then 0 else need (op_size t)) + demand need ts"

subsection \<open>The range list\<close>

lemma remove_range_set:
  "distinct (map fst rs) \<Longrightarrow> set (remove_range rs lo) = {r \<in> set rs. fst r \<noteq> lo} \<and> distinct (map fst (remove_range rs lo))"
  by (induction rs) (auto simp: rev_image_eqI)

definition range_of :: "(nat \<Rightarrow> int) \<Rightarrow> nat list \<Rightarrow> nat \<Rightarrow> int \<times> int" where
  "range_of p z i = (p i, p i + int (z ! i) - 1)"

definition drv_inv :: "'h pkg \<Rightarrow> ('h \<Rightarrow> (int \<times> nat) set \<Rightarrow> bool) \<Rightarrow> nat \<Rightarrow> nat set \<Rightarrow>
    (nat \<Rightarrow> int) \<Rightarrow> (nat \<Rightarrow> nat) \<Rightarrow> 'h dstate \<Rightarrow> bool" where
  "drv_inv P rep N live p n st \<longleftrightarrow> rep (dheap st) ((\<lambda>i. (p i, n i)) ` live) \<and> finite live \<and> live \<subseteq> {..<N} \<and>
     length (blocks st) = N \<and> length (block_sizes st) = N \<and> inj_on p live \<and>
     (\<forall>i \<in> live. blocks st ! i = Some (p i) \<and> 0 < block_sizes st ! i \<and> block_sizes st ! i \<le> n i \<and>
        (\<forall>j. j < block_sizes st ! i \<longrightarrow> pk_rd P (dheap st) (p i + int j) = Some (i mod 256))) \<and>
     set (ranges st) = range_of p (block_sizes st) ` live \<and> distinct (map fst (ranges st))"

lemma drv_invI:
  assumes "rep (dheap st) ((\<lambda>i. (p i, n i)) ` live)" "finite live" "live \<subseteq> {..<N}"
    "length (blocks st) = N" "length (block_sizes st) = N" "inj_on p live"
    "\<And>i. i \<in> live \<Longrightarrow> blocks st ! i = Some (p i) \<and> 0 < block_sizes st ! i \<and> block_sizes st ! i \<le> n i"
    "\<And>i j. i \<in> live \<Longrightarrow> j < block_sizes st ! i \<Longrightarrow> pk_rd P (dheap st) (p i + int j) = Some (i mod 256)"
    "set (ranges st) = range_of p (block_sizes st) ` live" "distinct (map fst (ranges st))"
  shows "drv_inv P rep N live p n st"
  using assms unfolding drv_inv_def by blast

lemma drv_invD:
  assumes "drv_inv P rep N live p n st"
  shows "rep (dheap st) ((\<lambda>i. (p i, n i)) ` live)" "finite live" "live \<subseteq> {..<N}"
    "length (blocks st) = N" "length (block_sizes st) = N" "inj_on p live"
    "\<And>i. i \<in> live \<Longrightarrow> blocks st ! i = Some (p i) \<and> 0 < block_sizes st ! i \<and> block_sizes st ! i \<le> n i"
    "\<And>i j. i \<in> live \<Longrightarrow> j < block_sizes st ! i \<Longrightarrow> pk_rd P (dheap st) (p i + int j) = Some (i mod 256)"
    "set (ranges st) = range_of p (block_sizes st) ` live" "distinct (map fst (ranges st))"
  using assms unfolding drv_inv_def by blast+

lemma image_upd: "i \<notin> live \<Longrightarrow> (\<lambda>k. ((p(i := q)) k, (n(i := m)) k)) ` live = (\<lambda>k. (p k, n k)) ` live"
  by (intro image_cong) auto

lemma image_remove: "inj_on p live \<Longrightarrow> i \<in> live \<Longrightarrow> (\<lambda>k. (p k, n k)) ` live - {(p i, n i)} = (\<lambda>k. (p k, n k)) ` (live - {i})"
  by (auto simp: inj_on_def)

context allocator
begin

text \<open>A new block passes the three checks of \<open>add_range\<close>.\<close>

lemma add_range_new:
  assumes rep: "rep h (insert (q, k) L)" and new: "(q, k) \<notin> L" and sz: "0 < sz" "sz \<le> k"
    and rs: "\<And>r. r \<in> set rs \<Longrightarrow> \<exists>m. (fst r, m) \<in> L \<and> snd r < fst r + int m"
  shows "add_range (pk_size P h - 1) rs q sz = Some ((q, q + int sz - 1) # rs, True)" "q \<notin> fst ` set rs"
proof -
  have ex: "q mod 8 = 0" "0 \<le> q" "q + int k < pk_size P h" using extent [OF rep, of q k] by auto
  have ap: "q + int k \<le> fst r \<or> snd r < q \<and> fst r < q" if "r \<in> set rs" for r
  proof -
    obtain m where m: "(fst r, m) \<in> L" "snd r < fst r + int m" using rs [OF \<open>r \<in> set rs\<close>] by blast
    then have "q + int k \<le> fst r \<or> fst r + int m \<le> q" using apart [OF rep, of q k "fst r" m] new by auto
    moreover have "0 < m" using extent [OF rep, of "fst r" m] m(1) by auto
    ultimately show ?thesis using m(2) by linarith
  qed
  then have "\<not> list_ex (overlaps q (q + int sz - 1)) rs"
    using sz by (fastforce simp: list_ex_iff overlaps_def)
  then show "add_range (pk_size P h - 1) rs q sz = Some ((q, q + int sz - 1) # rs, True)"
    using ex sz by (simp add: add_range_def Let_def)
  show "q \<notin> fst ` set rs" using ap sz by fastforce
qed

lemma keep_bytes:
  assumes "same_bytes P L h h'" "(p, n) \<in> L" "j < n"
  shows "pk_rd P h' (p + int j) = pk_rd P h (p + int j)"
  using assms unfolding same_bytes_def in_block_def by fastforce

text \<open>Filling the new block leaves the bytes of the others.\<close>

lemma fill_new:
  assumes rep: "rep h (insert (q, k) L)" and new: "(q, k) \<notin> L" and sz: "sz \<le> k" "v < 256"
  shows "\<exists>h'. memset P h q v sz = Some h' \<and> rep h' (insert (q, k) L) \<and> room h' = room h \<and>
    (\<forall>j. j < sz \<longrightarrow> pk_rd P h' (q + int j) = Some v) \<and>
    (\<forall>(p, n) \<in> L. \<forall>j<n. pk_rd P h' (p + int j) = pk_rd P h (p + int j))"
proof -
  obtain h' where h': "memset P h q v sz = Some h'" "rep h' (insert (q, k) L)" "room h' = room h"
    "\<forall>j. j < sz \<longrightarrow> pk_rd P h' (q + int j) = Some v"
    "\<forall>a. a < q \<or> q + int sz \<le> a \<longrightarrow> pk_rd P h' a = pk_rd P h a"
    using memset_ok [OF rep, of q k q sz v] sz by auto
  have "pk_rd P h' (p + int j) = pk_rd P h (p + int j)" if "(p, n) \<in> L" "j < n" for p n j
  proof -
    have "q + int k \<le> p \<or> p + int n \<le> q" using apart [OF rep, of q k p n] that new by auto
    then show ?thesis using h'(5) that sz by auto
  qed
  with h' show ?thesis by blast
qed

text \<open>Adding a block to the driver's tables: shared by \<open>ALLOC\<close> and \<open>REALLOC\<close>.\<close>

lemma enter_block:
  assumes inv: "drv_inv P rep N live p n st" and i: "i < N" "i \<notin> live"
    and rep: "rep h (insert (q, k) ((\<lambda>i. (p i, n i)) ` live))" and new: "(q, k) \<notin> (\<lambda>i. (p i, n i)) ` live"
    and sz: "0 < sz" "sz \<le> k"
    and keep: "same_bytes P ((\<lambda>i. (p i, n i)) ` live) (dheap st) h"
  shows "\<exists>h' st'. check_range P (st\<lparr>dheap := h\<rparr>) q sz = Some (st\<lparr>dheap := h, ranges := (q, q + int sz - 1) # ranges st\<rparr>, True) \<and>
    memset P h q (i mod 256) sz = Some h' \<and>
    remember (st\<lparr>ranges := (q, q + int sz - 1) # ranges st, dheap := h'\<rparr>) i q sz = Some st' \<and>
    drv_inv P rep N (insert i live) (p(i := q)) (n(i := k)) st' \<and> room (dheap st') = room h"
proof -
  note D = drv_invD [OF inv]
  let ?L = "(\<lambda>i. (p i, n i)) ` live"
  have rs: "\<exists>m. (fst r, m) \<in> ?L \<and> snd r < fst r + int m" if "r \<in> set (ranges st)" for r
    using that D(7,9) by (fastforce simp: range_of_def)
  note ar = add_range_new [OF rep new sz, of "ranges st", OF rs]
  have ck: "check_range P (st\<lparr>dheap := h\<rparr>) q sz = Some (st\<lparr>dheap := h, ranges := (q, q + int sz - 1) # ranges st\<rparr>, True)"
    using ar(1) by (simp add: check_range_def)
  obtain h' where h': "memset P h q (i mod 256) sz = Some h'" "rep h' (insert (q, k) ?L)" "room h' = room h"
    "\<forall>j. j < sz \<longrightarrow> pk_rd P h' (q + int j) = Some (i mod 256)"
    "\<forall>(p, n) \<in> ?L. \<forall>j<n. pk_rd P h' (p + int j) = pk_rd P h (p + int j)"
    using fill_new [OF rep new sz(2), of "i mod 256"] by auto
  let ?st = "st\<lparr>dheap := h', ranges := (q, q + int sz - 1) # ranges st, blocks := (blocks st)[i := Some q],
    block_sizes := (block_sizes st)[i := sz]\<rparr>"
  have rem: "remember (st\<lparr>ranges := (q, q + int sz - 1) # ranges st, dheap := h'\<rparr>) i q sz = Some ?st"
    using i D(4,5) by (simp add: remember_def)
  have notin: "p m \<noteq> q" if "m \<in> live" for m
    using that ar(2) D(9) by (auto simp: range_of_def image_image)
  have old: "pk_rd P h' (p m + int j) = Some (m mod 256)" if "m \<in> live" "j < block_sizes st ! m" for m j
  proof -
    have jn: "j < n m" "(p m, n m) \<in> ?L" using that D(7) [OF that(1)] by auto
    then have "pk_rd P h' (p m + int j) = pk_rd P h (p m + int j)" using h'(5) by blast
    also have "\<dots> = pk_rd P (dheap st) (p m + int j)" using keep_bytes [OF keep jn(2,1)] .
    finally show ?thesis using D(8) that by simp
  qed
  have "drv_inv P rep N (insert i live) (p(i := q)) (n(i := k)) ?st"
  proof (rule drv_invI)
    have "(\<lambda>m. ((p(i := q)) m, (n(i := k)) m)) ` insert i live = insert (q, k) ?L"
      using image_upd [OF i(2), of p q n k] by simp
    then show "rep (dheap ?st) ((\<lambda>m. ((p(i := q)) m, (n(i := k)) m)) ` insert i live)" using h'(2) by simp
    show "inj_on (p(i := q)) (insert i live)" using D(6) notin i by (auto simp: inj_on_def)
    show "pk_rd P (dheap ?st) ((p(i := q)) m + int j) = Some (m mod 256)"
      if "m \<in> insert i live" "j < block_sizes ?st ! m" for m j
      using that old h'(4) i D(5) by (auto simp: nth_list_update split: if_splits)
    have "range_of (p(i := q)) ((block_sizes st)[i := sz]) ` live = range_of p (block_sizes st) ` live"
      using i by (intro image_cong) (auto simp: range_of_def)
    then show "set (ranges ?st) = range_of (p(i := q)) (block_sizes ?st) ` insert i live"
      using D(5,9) i by (simp add: range_of_def)
    show "distinct (map fst (ranges ?st))" using D(10) ar(2) by simp
  qed (use D i sz in \<open>auto simp: nth_list_update\<close>)
  with ck h'(1,3) rem show ?thesis by auto
qed

lemma alloc_step:
  assumes inv: "drv_inv P rep N live p n st" and i: "i < N" "i \<notin> live" and sz: "0 < sz" "need sz \<le> room (dheap st)"
  shows "\<exists>st' p' n'. valid_alloc P i sz st = Some (st', True) \<and> drv_inv P rep N (insert i live) p' n' st' \<and>
    room (dheap st) \<le> room (dheap st') + need sz"
proof -
  obtain h q k where m: "pk_malloc P (dheap st) sz = Some (h, Some q)" "rep h (insert (q, k) ((\<lambda>i. (p i, n i)) ` live))"
    "(q, k) \<notin> (\<lambda>i. (p i, n i)) ` live" "sz \<le> k" "room (dheap st) \<le> room h + need sz"
    "same_bytes P ((\<lambda>i. (p i, n i)) ` live) (dheap st) h"
    using malloc_ok [OF drv_invD(1) [OF inv] sz] by blast
  obtain h' st' where e: "check_range P (st\<lparr>dheap := h\<rparr>) q sz = Some (st\<lparr>dheap := h, ranges := (q, q + int sz - 1) # ranges st\<rparr>, True)"
    "memset P h q (i mod 256) sz = Some h'"
    "remember (st\<lparr>ranges := (q, q + int sz - 1) # ranges st, dheap := h'\<rparr>) i q sz = Some st'"
    "drv_inv P rep N (insert i live) (p(i := q)) (n(i := k)) st'" "room (dheap st') = room h"
    using enter_block [OF inv i m(2,3) sz(1) m(4,6)] by blast
  have "valid_alloc P i sz st = Some (st', True)"
    using m(1) e(1-3) by (simp add: valid_alloc_def)
  then show ?thesis using e(4,5) m(5) by auto
qed

lemma leave_block:
  assumes inv: "drv_inv P rep N live p n st" and i: "i \<in> live"
    and rep: "rep h ((\<lambda>i. (p i, n i)) ` live - {(p i, n i)})"
    and keep: "same_bytes P ((\<lambda>i. (p i, n i)) ` live - {(p i, n i)}) (dheap st) h"
  shows "drv_inv P rep N (live - {i}) p n (st\<lparr>dheap := h, ranges := remove_range (ranges st) (p i)\<rparr>)"
proof (rule drv_invI)
  note D = drv_invD [OF inv]
  have L: "(\<lambda>i. (p i, n i)) ` live - {(p i, n i)} = (\<lambda>i. (p i, n i)) ` (live - {i})"
    using image_remove [OF D(6) i] .
  show "rep (dheap (st\<lparr>dheap := h, ranges := remove_range (ranges st) (p i)\<rparr>)) ((\<lambda>i. (p i, n i)) ` (live - {i}))"
    using rep L by simp
  show "pk_rd P (dheap (st\<lparr>dheap := h, ranges := remove_range (ranges st) (p i)\<rparr>)) (p m + int j) = Some (m mod 256)"
    if "m \<in> live - {i}" "j < block_sizes (st\<lparr>dheap := h, ranges := remove_range (ranges st) (p i)\<rparr>) ! m" for m j
  proof -
    have "j < n m" using that D(7) [of m] by auto
    then have "pk_rd P h (p m + int j) = pk_rd P (dheap st) (p m + int j)"
      using keep_bytes [OF keep, of "p m" "n m" j] that(1) unfolding L by blast
    then show ?thesis using that D(8) [of m j] by simp
  qed
  have "set (remove_range (ranges st) (p i)) = {r \<in> range_of p (block_sizes st) ` live. fst r \<noteq> p i}"
    using remove_range_set [OF D(10)] D(9) by auto
  also have "\<dots> = range_of p (block_sizes st) ` (live - {i})"
    using D(6) i by (auto simp: range_of_def inj_on_def)
  finally show "set (ranges (st\<lparr>dheap := h, ranges := remove_range (ranges st) (p i)\<rparr>)) =
      range_of p (block_sizes (st\<lparr>dheap := h, ranges := remove_range (ranges st) (p i)\<rparr>)) ` (live - {i})" by simp
  show "distinct (map fst (ranges (st\<lparr>dheap := h, ranges := remove_range (ranges st) (p i)\<rparr>)))"
    using remove_range_set [OF D(10)] by simp
  show "inj_on p (live - {i})" using D(6) by (auto intro: inj_on_subset)
qed (use drv_invD(2-5,7) [OF inv] in auto)

lemma free_step:
  assumes inv: "drv_inv P rep N live p n st" and i: "i \<in> live"
  shows "\<exists>st'. valid_free P i st = Some (st', True) \<and> drv_inv P rep N (live - {i}) p n st' \<and>
    room (dheap st) \<le> room (dheap st')"
proof -
  note D = drv_invD [OF inv]
  obtain h where h: "pk_free P (dheap st) (Some (p i)) = Some h" "rep h ((\<lambda>i. (p i, n i)) ` live - {(p i, n i)})"
    "room (dheap st) \<le> room h" "same_bytes P ((\<lambda>i. (p i, n i)) ` live - {(p i, n i)}) (dheap st) h"
    using free_ok [OF D(1), of "p i" "n i"] i by auto
  let ?st = "st\<lparr>dheap := h, ranges := remove_range (ranges st) (p i)\<rparr>"
  have "blocks st ! i = Some (p i)" "i < length (blocks st)" using D(3,4,7) i by auto
  then have "valid_free P i st = Some (?st, True)" using h(1) by (simp add: valid_free_def)
  then show ?thesis using leave_block [OF inv i h(2,4)] h(3) by auto
qed

lemma realloc_step:
  assumes inv: "drv_inv P rep N live p n st" and i: "i \<in> live" "i mod 256 < 128"
    and sz: "0 < sz" "need sz \<le> room (dheap st)"
  shows "\<exists>st' p' n'. valid_realloc P i sz st = Some (st', True) \<and> drv_inv P rep N live p' n' st' \<and>
    room (dheap st) \<le> room (dheap st') + need sz"
proof -
  note D = drv_invD [OF inv]
  let ?L = "(\<lambda>i. (p i, n i)) ` live - {(p i, n i)}"
  have L: "?L = (\<lambda>i. (p i, n i)) ` (live - {i})" using image_remove [OF D(6) i(1)] .
  obtain h q k where m: "pk_realloc P (dheap st) (Some (p i)) sz = Some (h, Some q)" "rep h (insert (q, k) ?L)"
    "(q, k) \<notin> ?L" "sz \<le> k" "room (dheap st) \<le> room h + need sz" "same_bytes P ?L (dheap st) h"
    "\<forall>j. j < n i \<longrightarrow> j < sz \<longrightarrow> pk_rd P h (q + int j) = pk_rd P (dheap st) (p i + int j)"
    using realloc_ok [OF D(1), of "p i" "n i" sz] i(1) sz by blast
  obtain h0 where h0: "pk_free P (dheap st) (Some (p i)) = Some h0" "rep h0 ?L" "same_bytes P ?L (dheap st) h0"
    using free_ok [OF D(1), of "p i" "n i"] i by auto
  let ?st = "st\<lparr>dheap := h0, ranges := remove_range (ranges st) (p i)\<rparr>"
  have inv0: "drv_inv P rep N (live - {i}) p n ?st" using leave_block [OF inv i(1) h0(2,3)] .
  have kp: "same_bytes P ((\<lambda>i. (p i, n i)) ` (live - {i})) (dheap ?st) h"
    using m(6) h0(3) unfolding L same_bytes_def by auto
  have iN: "i < N" "i \<notin> live - {i}" using i(1) D(3) by auto
  obtain h' st' where e:
    "check_range P (?st\<lparr>dheap := h\<rparr>) q sz = Some (?st\<lparr>dheap := h, ranges := (q, q + int sz - 1) # ranges ?st\<rparr>, True)"
    "memset P h q (i mod 256) sz = Some h'"
    "remember (?st\<lparr>ranges := (q, q + int sz - 1) # ranges ?st, dheap := h'\<rparr>) i q sz = Some st'"
    "drv_inv P rep N (insert i (live - {i})) (p(i := q)) (n(i := k)) st'" "room (dheap st') = room h"
    using enter_block [OF inv0 iN m(2,3) [unfolded L] sz(1) m(4) kp] by blast
  have v: "blocks st ! i = Some (p i)" "i < length (blocks st)" "i < length (block_sizes st)"
    using D(3,4,5,7) i by auto
  let ?o = "if sz < block_sizes st ! i then sz else block_sizes st ! i"
  have "pk_rd P h (q + int j) = Some (i mod 256)" if "j < ?o" for j
    using m(7) D(7) [OF i(1)] D(8) [OF i(1), of j] that by (auto split: if_splits)
  then have eq: "bytes_equal P h q (i mod 256) ?o = Some True" using i(2) by (intro bytes_equal_ok) auto
  have "valid_realloc P i sz st = Some (st', True)"
  proof -
    have ord: "st\<lparr>dheap := h, ranges := remove_range (ranges st) (p i)\<rparr> = ?st\<lparr>dheap := h\<rparr>" by (cases st) simp
    have "check_range P (st\<lparr>dheap := h, ranges := remove_range (ranges st) (p i)\<rparr>) q sz =
        Some (st\<lparr>dheap := h, ranges := (q, q + int sz - 1) # remove_range (ranges st) (p i)\<rparr>, True)"
      unfolding ord using e(1) by simp
    then show ?thesis using m(1) v e(2,3) eq by (simp add: valid_realloc_def Let_def)
  qed
  moreover have "insert i (live - {i}) = live" using i(1) by auto
  ultimately show ?thesis using e(4,5) m(5) by auto
qed

lemma valid_loop_ok:
  assumes "drv_inv P rep N live p n st" "trace_ok N live ops" "demand need ops \<le> room (dheap st)"
  shows "\<exists>st'. valid_loop P ops st = Some (st', True)"
  using assms
proof (induction ops arbitrary: live p n st)
  case Nil
  then show ?case by simp
next
  case (Cons t ts)
  have pos: "0 \<le> demand need ts" by (induction ts) (auto simp: need_pos)
  show ?case
  proof (cases "op_type t")
    case ALLOC
    then obtain st' p' n' where st': "valid_alloc P (op_index t) (op_size t) st = Some (st', True)"
      "drv_inv P rep N (insert (op_index t) live) p' n' st'" "room (dheap st) \<le> room (dheap st') + need (op_size t)"
      using alloc_step [OF Cons.prems(1), of "op_index t" "op_size t"] Cons.prems pos by auto
    then have "\<exists>st''. valid_loop P ts st' = Some (st'', True)" using Cons.IH [OF st'(2)] Cons.prems ALLOC by auto
    then show ?thesis using st'(1) ALLOC by (simp add: valid_op_def)
  next
    case FREE
    then obtain st' where st': "valid_free P (op_index t) st = Some (st', True)"
      "drv_inv P rep N (live - {op_index t}) p n st'" "room (dheap st) \<le> room (dheap st')"
      using free_step [OF Cons.prems(1), of "op_index t"] Cons.prems by auto
    then have "\<exists>st''. valid_loop P ts st' = Some (st'', True)" using Cons.IH [OF st'(2)] Cons.prems FREE by auto
    then show ?thesis using st'(1) FREE by (simp add: valid_op_def)
  next
    case REALLOC
    then obtain st' p' n' where st': "valid_realloc P (op_index t) (op_size t) st = Some (st', True)"
      "drv_inv P rep N live p' n' st'" "room (dheap st) \<le> room (dheap st') + need (op_size t)"
      using realloc_step [OF Cons.prems(1), of "op_index t" "op_size t"] Cons.prems pos by auto
    then have "\<exists>st''. valid_loop P ts st' = Some (st'', True)" using Cons.IH [OF st'(2)] Cons.prems REALLOC by auto
    then show ?thesis using st'(1) REALLOC by (simp add: valid_op_def)
  qed
qed

lemma eval_mm_valid_ok:
  assumes "trace_ok (length (blocks st)) {} ops" "length (block_sizes st) = length (blocks st)" "demand need ops \<le> capacity"
  shows "\<exists>st'. eval_mm_valid P ops st = Some (st', True)"
proof -
  obtain h where h: "pk_init P (pk_reset P (dheap st)) = Some h" "rep h {}" "room h = capacity" using init_ok by blast
  have "drv_inv P rep (length (blocks st)) {} (\<lambda>_. 0) (\<lambda>_. 0) (st\<lparr>dheap := h, ranges := clear_ranges (ranges st)\<rparr>)"
    using h(2) assms(2) by (simp add: drv_inv_def clear_ranges_def)
  from valid_loop_ok [OF this assms(1)] h show ?thesis using assms(3) by (simp add: eval_mm_valid_def)
qed

end

subsection \<open>Utilization\<close>

definition util_inv :: "'h pkg \<Rightarrow> ('h \<Rightarrow> (int \<times> nat) set \<Rightarrow> bool) \<Rightarrow> nat \<Rightarrow> nat set \<Rightarrow>
    (nat \<Rightarrow> int) \<Rightarrow> (nat \<Rightarrow> nat) \<Rightarrow> 'h ustate \<Rightarrow> bool" where
  "util_inv P rep N live p n st \<longleftrightarrow> rep (uheap st) ((\<lambda>i. (p i, n i)) ` live) \<and> finite live \<and> live \<subseteq> {..<N} \<and>
     length (ublocks st) = N \<and> length (usizes st) = N \<and> inj_on p live \<and>
     (\<forall>i \<in> live. ublocks st ! i = Some (p i) \<and> usizes st ! i \<le> n i) \<and>
     total_size st = (\<Sum>i \<in> live. int (usizes st ! i)) \<and> max_total_size st \<le> pk_size P (uheap st)"

context allocator
begin

lemma util_leave:
  assumes inv: "util_inv P rep N live p n st" and i: "i \<in> live" and h: "rep h ((\<lambda>i. (p i, n i)) ` (live - {i}))"
    "pk_size P (uheap st) \<le> pk_size P h"
  shows "util_inv P rep N (live - {i}) p n (st\<lparr>uheap := h, total_size := total_size st - int (usizes st ! i)\<rparr>)"
proof -
  have "(\<Sum>m \<in> live. int (usizes st ! m)) = int (usizes st ! i) + (\<Sum>m \<in> live - {i}. int (usizes st ! m))"
    using inv i by (intro sum.remove) (auto simp: util_inv_def)
  then show ?thesis using inv h by (auto simp: util_inv_def intro: inj_on_subset)
qed

lemma util_enter:
  assumes inv: "util_inv P rep N live p n st" and i: "i < N" "i \<notin> live"
    and h: "rep h (insert (q, k) ((\<lambda>i. (p i, n i)) ` live))" "(q, k) \<notin> (\<lambda>i. (p i, n i)) ` live" "sz \<le> k"
    and mx: "max_total_size st \<le> pk_size P h" and tot: "tot = total_size st + int sz"
  shows "util_inv P rep N (insert i live) (p(i := q)) (n(i := k))
    \<lparr>uheap = h, ublocks = (ublocks st)[i := Some q], usizes = (usizes st)[i := sz], total_size = tot,
     max_total_size = (if tot > max_total_size st then tot else max_total_size st)\<rparr>"
proof -
  let ?p = "p(i := q)" and ?n = "n(i := k)" and ?z = "(usizes st)[i := sz]"
  note D = inv [unfolded util_inv_def]
  have img: "(\<lambda>m. (?p m, ?n m)) ` insert i live = insert (q, k) ((\<lambda>i. (p i, n i)) ` live)"
    using image_upd [OF i(2), of p q n k] by simp
  have "p m \<noteq> q" if "m \<in> live" for m
  proof
    assume "p m = q"
    moreover have "(p m, n m) \<in> insert (q, k) ((\<lambda>i. (p i, n i)) ` live)" using that by auto
    moreover from this have "0 < n m" using extent [OF h(1)] by blast
    moreover have "0 < k" using extent [OF h(1), of q k] by simp
    ultimately show False using apart [OF h(1), of q k "p m" "n m"] h(2) that by auto
  qed
  then have inj: "inj_on ?p (insert i live)" using D i by (auto simp: inj_on_def)
  have le: "?z ! m \<le> ?n m" if "m \<in> insert i live" for m using that D i h(3) by (auto simp: nth_list_update)
  have "(\<Sum>m \<in> insert i live. int (?z ! m)) = int sz + (\<Sum>m \<in> live. int (?z ! m))"
    using D i by simp
  also have "(\<Sum>m \<in> live. int (?z ! m)) = total_size st" using D i by (auto intro!: sum.cong simp: nth_list_update)
  finally have sum: "tot = (\<Sum>m \<in> insert i live. int (?z ! m))" using tot by simp
  have lt: "tot \<le> pk_size P h"
    unfolding sum using D by (intro live_total_indexed [OF _ _ inj le]) (use h(1) img in auto)
  have rp: "rep h ((\<lambda>m. (?p m, ?n m)) ` insert i live)" unfolding img by (rule h(1))
  have bl: "\<forall>m \<in> insert i live. (ublocks st)[i := Some q] ! m = Some (?p m) \<and> ?z ! m \<le> ?n m"
    using D i le by (auto simp: nth_list_update)
  have st: "finite (insert i live)" "insert i live \<subseteq> {..<N}" "length ((ublocks st)[i := Some q]) = N" "length ?z = N"
    using D i by auto
  have mxn: "(if tot > max_total_size st then tot else max_total_size st) \<le> pk_size P h" using lt mx by simp
  show ?thesis unfolding util_inv_def ustate.select_convs
    using rp st inj bl sum mxn by (intro conjI) assumption+
qed

lemma util_op_ok:
  assumes inv: "util_inv P rep N live p n st" and ok: "trace_ok N live (t # ts)"
    and rm: "op_type t = FREE \<or> need (op_size t) \<le> room (uheap st)"
  shows "\<exists>st' live' p' n'. util_op P t st = Some (Inr st') \<and> util_inv P rep N live' p' n' st' \<and> trace_ok N live' ts \<and>
    room (uheap st) \<le> room (uheap st') + (if op_type t = FREE then 0 else need (op_size t))"
proof -
  let ?i = "op_index t" and ?sz = "op_size t"
  let ?L = "(\<lambda>i. (p i, n i)) ` live"
  note D = inv [unfolded util_inv_def]
  have inj: "inj_on p live" using D by simp
  have L: "?i \<in> live \<Longrightarrow> ?L - {(p ?i, n ?i)} = (\<lambda>i. (p i, n i)) ` (live - {?i})" using image_remove [OF inj] .
  show ?thesis
  proof (cases "op_type t")
    case ALLOC
    then have i: "?i < N" "?i \<notin> live" "0 < ?sz" "trace_ok N (insert ?i live) ts" using ok by auto
    obtain h q k where m: "pk_malloc P (uheap st) ?sz = Some (h, Some q)" "rep h (insert (q, k) ?L)" "(q, k) \<notin> ?L" "?sz \<le> k"
      "room (uheap st) \<le> room h + need ?sz" "pk_size P (uheap st) \<le> pk_size P h"
      using malloc_ok [of "uheap st" ?L ?sz] D i(3) rm ALLOC by auto
    have "max_total_size st \<le> pk_size P h" using D m(6) by linarith
    note e = util_enter [OF inv i(1,2) m(2,3,4) this refl]
    show ?thesis by (rule exI, rule exI, rule exI, rule exI, rule conjI [OF _ conjI [OF e]])
      (use m(1,5) i ALLOC D in \<open>simp_all add: util_op_def Let_def\<close>)
  next
    case FREE
    then have i: "?i \<in> live" "trace_ok N (live - {?i}) ts" using ok by auto
    obtain h where h: "pk_free P (uheap st) (Some (p ?i)) = Some h" "rep h (?L - {(p ?i, n ?i)})"
      "room (uheap st) \<le> room h" "pk_size P (uheap st) \<le> pk_size P h"
      using free_ok [of "uheap st" ?L "p ?i" "n ?i"] D i(1) by auto
    note e = util_leave [OF inv i(1) h(2) [unfolded L [OF i(1)]] h(4)]
    have v: "ublocks st ! ?i = Some (p ?i)" "?i < length (ublocks st)" "?i < length (usizes st)" using D i(1) by auto
    show ?thesis by (rule exI, rule exI, rule exI, rule exI, rule conjI [OF _ conjI [OF e]])
      (use h(1,3) i FREE v in \<open>simp_all add: util_op_def Let_def\<close>)
  next
    case REALLOC
    then have i: "?i \<in> live" "0 < ?sz" "trace_ok N live ts" using ok by auto
    have iN: "?i < N" "?i \<notin> live - {?i}" using D i(1) by auto
    obtain h q k where m: "pk_realloc P (uheap st) (Some (p ?i)) ?sz = Some (h, Some q)" "rep h (insert (q, k) (?L - {(p ?i, n ?i)}))"
      "(q, k) \<notin> ?L - {(p ?i, n ?i)}" "?sz \<le> k"
      "room (uheap st) \<le> room h + need ?sz" "pk_size P (uheap st) \<le> pk_size P h"
      using realloc_ok [of "uheap st" ?L "p ?i" "n ?i" ?sz] D i(1,2) rm REALLOC by auto
    obtain h0 where h0: "rep h0 (?L - {(p ?i, n ?i)})" "pk_size P (uheap st) \<le> pk_size P h0"
      using free_ok [of "uheap st" ?L "p ?i" "n ?i"] D i(1) by auto
    let ?s0 = "st\<lparr>uheap := h0, total_size := total_size st - int (usizes st ! ?i)\<rparr>"
    have inv0: "util_inv P rep N (live - {?i}) p n ?s0" using util_leave [OF inv i(1) h0(1) [unfolded L [OF i(1)]] h0(2)] .
    have mx: "max_total_size ?s0 \<le> pk_size P h" using D m(6) by simp
    have tot: "total_size st + (int ?sz - int (usizes st ! ?i)) = total_size ?s0 + int ?sz" by simp
    have ins: "insert ?i (live - {?i}) = live" using i(1) by auto
    note e = util_enter [OF inv0 iN m(2,3) [unfolded L [OF i(1)]] m(4) mx tot, unfolded ins]
    have v: "ublocks st ! ?i = Some (p ?i)" "?i < length (ublocks st)" "?i < length (usizes st)" using D i(1) by auto
    show ?thesis by (rule exI, rule exI, rule exI, rule exI, rule conjI [OF _ conjI [OF e]])
      (use m(1,5) i REALLOC v in \<open>simp_all add: util_op_def Let_def\<close>)
  qed
qed

lemma util_loop_ok:
  assumes "util_inv P rep N live p n st" "trace_ok N live ops" "demand need ops \<le> room (uheap st)"
  shows "\<exists>st'. util_loop P ops st = Some (Inr st') \<and> max_total_size st' \<le> pk_size P (uheap st')"
  using assms
proof (induction ops arbitrary: live p n st)
  case Nil
  then show ?case by (simp add: util_inv_def)
next
  case (Cons t ts)
  have "0 \<le> demand need ts" by (induction ts) (auto simp: need_pos)
  then have "op_type t = FREE \<or> need (op_size t) \<le> room (uheap st)" using Cons.prems(3) by (auto split: if_splits)
  from util_op_ok [OF Cons.prems(1,2) this] obtain st' live' p' n' where
    s: "util_op P t st = Some (Inr st')" "util_inv P rep N live' p' n' st'" "trace_ok N live' ts"
      "room (uheap st) \<le> room (uheap st') + (if op_type t = FREE then 0 else need (op_size t))" by blast
  have "demand need ts \<le> room (uheap st')" using Cons.prems(3) s(4) by simp
  from Cons.IH [OF s(2,3) this] s(1) show ?case by auto
qed

lemma eval_mm_util_ok:
  assumes "trace_ok (length bl) {} ops" "length zs = length bl" "demand need ops \<le> capacity"
  shows "\<exists>peak total. eval_mm_util P ops h0 bl zs = Some (Inr (peak, total)) \<and> peak \<le> total"
proof -
  obtain h where h: "pk_init P (pk_reset P h0) = Some h" "rep h {}" "room h = capacity" using init_ok by blast
  let ?st = "\<lparr>uheap = h, ublocks = bl, usizes = zs, total_size = 0, max_total_size = 0\<rparr>"
  have "util_inv P rep (length bl) {} (\<lambda>_. 0) (\<lambda>_. 0) ?st"
    using h(2) assms(2) size_nonneg [OF h(2)] by (simp add: util_inv_def)
  from util_loop_ok [OF this assms(1)] h assms(3) obtain st' where
    "util_loop P ops ?st = Some (Inr st')" "max_total_size st' \<le> pk_size P (uheap st')" by auto
  with h show ?thesis by (simp add: eval_mm_util_def)
qed

end

end
