(* ===== verification/MmPkg.thy ===== *)
theory MmPkg
  imports MmRealloc Bytes MDriverValid
begin

text \<open>
  \<open>mm.c\<close> meets the contract of the trace driver. The interpretation discharges every law of the locale
  \<open>allocator\<close> for the model of \<open>mm.c\<close> and \<open>memlib.c\<close>; the theorems about the driver run on \<open>mm.c\<close> follow.
\<close>

definition mm_pkg :: "heap pkg" where
  "mm_pkg = \<lparr>pk_reset = mem_reset_brk, pk_init = mm_init, pk_malloc = mm_malloc, pk_free = mm_free,
     pk_realloc = mm_realloc, pk_rd = get_byte, pk_wr = put_byte, pk_size = mem_heapsize\<rparr>"

lemma mm_pkg_simps [simp]:
  "pk_reset mm_pkg = mem_reset_brk" "pk_init mm_pkg = mm_init" "pk_malloc mm_pkg = mm_malloc"
  "pk_free mm_pkg = mm_free" "pk_realloc mm_pkg = mm_realloc" "pk_rd mm_pkg = get_byte"
  "pk_wr mm_pkg = put_byte" "pk_size mm_pkg = mem_brk"
  by (simp_all add: mm_pkg_def mem_heapsize_def fun_eq_iff)

text \<open>A live block as the driver sees it.\<close>

definition payload :: "nat \<times> nat \<Rightarrow> int \<times> nat" where
  "payload B = (blkp (fst B), 8 * (snd B - 2))"

definition mm_rep :: "heap \<Rightarrow> (int \<times> nat) set \<Rightarrow> bool" where
  "mm_rep h L \<longleftrightarrow> (\<exists>bs. heap_inv h bs \<and> L = payload ` allocs 0 bs)"

definition mm_room :: "heap \<Rightarrow> int" where
  "mm_room h = MAX_HEAP - mem_brk h"

definition mm_need :: "nat \<Rightarrow> int" where
  "mm_need sz = 8 * int (req_words sz)"

lemma mm_repI: "heap_inv h bs \<Longrightarrow> mm_rep h (payload ` allocs 0 bs)"
  by (auto simp: mm_rep_def)

lemma mm_block:
  assumes "heap_inv h bs" "(k, s) \<in> allocs 0 bs"
  shows "3 \<le> s" "k + s \<le> span bs"
  using assms allocs_size [of "words h" 0 bs "span bs" k s] allocs_within [of k s 0 bs] by (auto simp: heap_inv_def)

lemma payload_inj: "heap_inv h bs \<Longrightarrow> inj_on payload (allocs 0 bs)"
proof (rule inj_onI)
  fix B C
  assume inv: "heap_inv h bs" and B: "B \<in> allocs 0 bs" "C \<in> allocs 0 bs" "payload B = payload C"
  have "3 \<le> snd B" "3 \<le> snd C" using mm_block(1) [OF inv] B(1,2) by (metis prod.collapse)+
  then show "B = C" using B(3) by (auto simp: payload_def blkp_def prod_eq_iff)
qed

lemma payload_minus:
  "heap_inv h bs \<Longrightarrow> B \<in> allocs 0 bs \<Longrightarrow> payload ` allocs 0 bs - {payload B} = payload ` (allocs 0 bs - {B})"
  using payload_inj [of h bs] by (auto simp: inj_on_def)

text \<open>Bytes of a payload lie in its words.\<close>

lemma payload_word:
  assumes "in_block (payload (k, s)) a"
  shows "k < nat (a div 8)" "nat (a div 8) < k + s - 1" "0 \<le> a"
proof -
  have a: "8 * int k + 8 \<le> a" "a < 8 * int k + 8 + 8 * int (s - 2)"
    using assms by (auto simp: in_block_def payload_def blkp_def)
  then have "int k + 1 \<le> a div 8" "a div 8 < int k + 1 + int (s - 2)" by auto
  then show "k < nat (a div 8)" "nat (a div 8) < k + s - 1" by auto
  show "0 \<le> a" using a by linarith
qed

lemma payload_in_heap:
  assumes "heap_inv h bs" "(k, s) \<in> allocs 0 bs" "in_block (payload (k, s)) a"
  shows "a < mem_brk h"
  using assms(3) mm_block [OF assms(1,2)] assms(1) by (auto simp: in_block_def payload_def blkp_def heap_inv_def)

lemma same_on_bytes:
  assumes "heap_inv h bs" "heap_inv h' bs'" "A \<subseteq> allocs 0 bs" "A \<subseteq> allocs 0 bs'" "same_on A (words h) (words h')"
  shows "same_bytes mm_pkg (payload ` A) h h'"
  unfolding same_bytes_def
proof (intro ballI allI impI)
  fix B a assume "B \<in> payload ` A" "in_block B a"
  then obtain k s where B: "(k, s) \<in> A" "in_block (payload (k, s)) a" by auto
  have "words h' (nat (a div 8)) = words h (nat (a div 8))"
    using payload_word [OF B(2)] by (intro same_onD [OF assms(5) B(1)]) auto
  moreover have "a < mem_brk h" "a < mem_brk h'"
    using payload_in_heap [OF assms(1) _ B(2)] payload_in_heap [OF assms(2) _ B(2)] assms(3,4) B(1) by auto
  ultimately show "pk_rd mm_pkg h' a = pk_rd mm_pkg h a" by (simp add: get_byte_def)
qed

subsection \<open>The laws\<close>

lemma mm_init_law: "\<exists>h'. mm_init (mem_reset_brk h) = Some h' \<and> mm_rep h' {} \<and> mm_room h' = MAX_HEAP - 8"
proof -
  let ?h = "h\<lparr>mem_brk := 8, words := (words h)(0 := 7)\<rparr>"
  have "mm_init (mem_reset_brk h) = Some ?h"
    by (simp add: mm_init_def mem_reset_brk_def mem_sbrk_def MAX_HEAP_def put_def)
  moreover have "heap_inv ?h []" by (simp add: heap_inv_def MAX_HEAP_def)
  ultimately show ?thesis using mm_repI [of ?h "[]"] by (simp add: mm_room_def)
qed

lemma mm_extent_law:
  assumes "mm_rep h L" "(p, n) \<in> L"
  shows "p mod 8 = 0 \<and> 0 \<le> p \<and> p + int n < mem_brk h \<and> 0 < n"
proof -
  obtain bs k s where b: "heap_inv h bs" "(k, s) \<in> allocs 0 bs" "(p, n) = payload (k, s)"
    using assms by (auto simp: mm_rep_def)
  then show ?thesis using mm_block [OF b(1,2)] by (auto simp: payload_def blkp_def heap_inv_def)
qed

lemma mm_apart_law:
  assumes "mm_rep h L" "(p, n) \<in> L" "(q, m) \<in> L" "(p, n) \<noteq> (q, m)"
  shows "p + int n \<le> q \<or> q + int m \<le> p"
proof -
  obtain bs k s k' s' where b: "heap_inv h bs" "(k, s) \<in> allocs 0 bs" "(p, n) = payload (k, s)"
    "(k', s') \<in> allocs 0 bs" "(q, m) = payload (k', s')"
    using assms by (auto simp: mm_rep_def)
  have "(k, s) \<noteq> (k', s')" using b(3,5) assms(4) by auto
  from allocs_apart [OF b(2,4) this] mm_block [OF b(1,2)] mm_block [OF b(1,4)] b(3,5)
  show ?thesis by (auto simp: payload_def blkp_def)
qed

lemma mm_malloc_law:
  assumes "mm_rep h L" "0 < sz" "mm_need sz \<le> mm_room h"
  shows "\<exists>h' p n. mm_malloc h sz = Some (h', Some p) \<and> mm_rep h' (insert (p, n) L) \<and> (p, n) \<notin> L \<and> sz \<le> n \<and>
    mm_room h \<le> mm_room h' + mm_need sz \<and> same_bytes mm_pkg L h h' \<and> mem_brk h \<le> mem_brk h'"
proof -
  obtain bs where b: "heap_inv h bs" "L = payload ` allocs 0 bs" using assms(1) by (auto simp: mm_rep_def)
  obtain h' p where m: "mm_malloc h sz = Some (h', Some p)" "allocated h bs (req_words sz) h' p"
    using mm_malloc_ok [OF b(1) assms(2)] assms(3) by (auto simp: mm_need_def mm_room_def)
  then obtain bs' k s where a: "p = blkp k" "req_words sz \<le> s" "heap_inv h' bs'" "\<forall>t. (k, t) \<notin> allocs 0 bs"
    "allocs 0 bs' = insert (k, s) (allocs 0 bs)" "same_on (allocs 0 bs) (words h) (words h')"
    "mem_brk h' \<le> mem_brk h + 8 * int (req_words sz)" "mem_brk h \<le> mem_brk h'"
    by (auto simp: allocated_def)
  have "payload (k, s) \<notin> L" using a(4) b(2) by (auto simp: payload_def blkp_def)
  moreover have "mm_rep h' (insert (payload (k, s)) L)" using mm_repI [OF a(3)] a(5) b(2) by simp
  moreover have "same_bytes mm_pkg L h h'" unfolding b(2) using same_on_bytes [OF b(1) a(3) _ _ a(6)] a(5) by auto
  moreover have "sz \<le> 8 * (s - 2)" using req_words_ge(2) [of sz] a(2) by linarith
  moreover have "mm_room h \<le> mm_room h' + mm_need sz" using a(7) by (simp add: mm_room_def mm_need_def)
  ultimately show ?thesis using m(1) a(1,8) by (intro exI [of _ h'] exI [of _ p] exI [of _ "8 * (s - 2)"]) (simp add: payload_def)
qed

lemma mm_free_law:
  assumes "mm_rep h L" "(p, n) \<in> L"
  shows "\<exists>h'. mm_free h (Some p) = Some h' \<and> mm_rep h' (L - {(p, n)}) \<and> mm_room h \<le> mm_room h' \<and>
    same_bytes mm_pkg (L - {(p, n)}) h h' \<and> mem_brk h \<le> mem_brk h'"
proof -
  obtain bs k s where b: "heap_inv h bs" "L = payload ` allocs 0 bs" "(k, s) \<in> allocs 0 bs" "(p, n) = payload (k, s)"
    using assms by (auto simp: mm_rep_def)
  have p: "p = blkp k" using b(4) by (simp add: payload_def)
  obtain h' bs' where f: "mm_free h (Some (blkp k)) = Some h'" "heap_inv h' bs'" "allocs 0 bs' = allocs 0 bs - {(k, s)}"
    "same_on (allocs 0 bs - {(k, s)}) (words h) (words h')" "mem_brk h' = mem_brk h"
    using mm_free_ok [OF b(1,3)] by blast
  have L: "L - {(p, n)} = payload ` (allocs 0 bs - {(k, s)})" using payload_minus [OF b(1,3)] b(2,4) by simp
  show ?thesis unfolding L using f mm_repI [OF f(2)] same_on_bytes [OF b(1) f(2) _ _ f(4)] p
    by (auto simp: mm_room_def)
qed

lemma payload_byte: "(blkp k + int j) div 8 = int (Suc k + j div 8)" "(blkp k + int j) mod 8 = int (j mod 8)"
proof -
  have e: "blkp k + int j = int j + int (Suc k) * 8" by (simp add: blkp_def)
  show "(blkp k + int j) div 8 = int (Suc k + j div 8)" unfolding e by (simp add: zdiv_int)
  show "(blkp k + int j) mod 8 = int (j mod 8)" unfolding e mod_mult_self1 by (simp add: zmod_int)
qed

lemma mm_realloc_law:
  assumes "mm_rep h L" "(p, n) \<in> L" "0 < sz" "mm_need sz \<le> mm_room h"
  shows "\<exists>h' q m. mm_realloc h (Some p) sz = Some (h', Some q) \<and> mm_rep h' (insert (q, m) (L - {(p, n)})) \<and>
    (q, m) \<notin> L - {(p, n)} \<and> sz \<le> m \<and> mm_room h \<le> mm_room h' + mm_need sz \<and> same_bytes mm_pkg (L - {(p, n)}) h h' \<and>
    (\<forall>j. j < n \<longrightarrow> j < sz \<longrightarrow> get_byte h' (q + int j) = get_byte h (p + int j)) \<and> mem_brk h \<le> mem_brk h'"
proof -
  obtain bs k s where b: "heap_inv h bs" "L = payload ` allocs 0 bs" "(k, s) \<in> allocs 0 bs" "(p, n) = payload (k, s)"
    using assms by (auto simp: mm_rep_def)
  have p: "p = blkp k" "n = 8 * (s - 2)" using b(4) by (simp_all add: payload_def)
  obtain h' q where m: "mm_realloc h (Some (blkp k)) sz = Some (h', Some q)" "reallocated h bs k s (req_words sz) h' q"
    using mm_realloc_ok [OF b(1,3) assms(3)] assms(4) by (auto simp: mm_need_def mm_room_def)
  then obtain bs' k' s' where a: "q = blkp k'" "req_words sz \<le> s'" "heap_inv h' bs'"
    "allocs 0 bs' = insert (k', s') (allocs 0 bs - {(k, s)})" "(k', s') \<notin> allocs 0 bs - {(k, s)}"
    "same_on (allocs 0 bs - {(k, s)}) (words h) (words h')"
    "\<forall>j. j < s - 2 \<longrightarrow> j < req_words sz - 2 \<longrightarrow> words h' (Suc k' + j) = words h (Suc k + j)"
    "mem_brk h' \<le> mem_brk h + 8 * int (req_words sz)" "mem_brk h \<le> mem_brk h'"
    unfolding reallocated_def by blast
  have L: "L - {(p, n)} = payload ` (allocs 0 bs - {(k, s)})" using payload_minus [OF b(1,3)] b(2,4) by simp
  have L': "insert (payload (k', s')) (L - {(p, n)}) = payload ` allocs 0 bs'" unfolding L using a(4) by simp
  have new: "payload (k', s') \<notin> L - {(p, n)}"
    unfolding L using inj_on_image_mem_iff [OF payload_inj [OF a(3)], of "(k', s')" "allocs 0 bs - {(k, s)}"] a(4,5)
    by blast
  have byt: "get_byte h' (q + int j) = get_byte h (p + int j)" if j: "j < n" "j < sz" for j
  proof -
    have "j div 8 < s - 2" "j div 8 < req_words sz - 2" using j p(2) by (auto simp: req_words_def less_mult_imp_div_less)
    then have w: "words h' (Suc k' + j div 8) = words h (Suc k + j div 8)" using a(7) by blast
    have "sz \<le> 8 * (s' - 2)" using req_words_ge(2) [of sz] a(2) by linarith
    then have "in_block (payload (k', s')) (q + int j)" "in_block (payload (k, s)) (p + int j)"
      using j p a(1) by (auto simp: in_block_def payload_def)
    moreover have "(k', s') \<in> allocs 0 bs'" using a(4) by simp
    ultimately have "q + int j < mem_brk h'" "p + int j < mem_brk h" "0 \<le> q + int j" "0 \<le> p + int j"
      using payload_in_heap [OF a(3)] payload_in_heap [OF b(1,3)] payload_word(3) by blast+
    then show ?thesis using w unfolding p(1) a(1) get_byte_def payload_byte nat_int by simp
  qed
  have "same_bytes mm_pkg (L - {(p, n)}) h h'" unfolding L using same_on_bytes [OF b(1) a(3) _ _ a(6)] a(4) by auto
  moreover have "sz \<le> 8 * (s' - 2)" using req_words_ge(2) [of sz] a(2) by linarith
  moreover have "mm_room h \<le> mm_room h' + mm_need sz" using a(8) by (simp add: mm_room_def mm_need_def)
  moreover have "mm_rep h' (insert (payload (k', s')) (L - {(p, n)}))" unfolding L' by (rule mm_repI [OF a(3)])
  ultimately show ?thesis using m(1) p a(1,9) new byt
    by (intro exI [of _ h'] exI [of _ q] exI [of _ "8 * (s' - 2)"]) (simp add: payload_def)
qed


lemma mm_rd_law:
  assumes "mm_rep h L" "B \<in> L" "in_block B a"
  shows "\<exists>b<256. get_byte h a = Some b"
proof -
  obtain bs k s where b: "heap_inv h bs" "(k, s) \<in> allocs 0 bs" "B = payload (k, s)"
    using assms by (auto simp: mm_rep_def)
  then have "get_byte h a = Some (byte_of (words h (nat (a div 8))) (nat (a mod 8)))"
    using payload_in_heap [OF b(1,2), of a] payload_word(3) [of k s a] assms(3) by (simp add: get_byte_def)
  moreover have "byte_of (words h (nat (a div 8))) (nat (a mod 8)) < 2 ^ 8"
    unfolding byte_of_def by (rule take_bit_nat_less_exp)
  ultimately show ?thesis by auto
qed

lemma mm_wr_law:
  assumes "mm_rep h L" "B \<in> L" "in_block B a" "b < 256"
  shows "\<exists>h'. put_byte h a b = Some h' \<and> mm_rep h' L \<and> mm_room h' = mm_room h \<and> get_byte h' a = Some b \<and>
    (\<forall>a'. a' \<noteq> a \<longrightarrow> get_byte h' a' = get_byte h a') \<and> mem_brk h' = mem_brk h"
proof -
  obtain bs k s where bs: "heap_inv h bs" "L = payload ` allocs 0 bs" "(k, s) \<in> allocs 0 bs" "B = payload (k, s)"
    using assms by (auto simp: mm_rep_def)
  let ?i = "nat (a div 8)"
  let ?h = "h\<lparr>words := (words h)(?i := with_byte (words h ?i) (nat (a mod 8)) b)\<rparr>"
  have pw: "k < ?i" "?i < k + s - 1" "0 \<le> a" using payload_word assms(3) bs(4) by auto
  have put: "put_byte h a b = Some ?h"
    using payload_in_heap [OF bs(1,3), of a] assms(3) bs(4) pw(3) by (simp add: put_byte_def)
  have "heap_inv ?h bs" using pw by (intro payload_write(1) [OF bs(1,3)]) auto
  then have "mm_rep ?h L" unfolding bs(2) by (rule mm_repI)
  then show ?thesis using put get_put_byte [OF put assms(4)] by (simp add: mm_room_def)
qed

interpretation mm: allocator mm_pkg mm_rep mm_room mm_need "MAX_HEAP - 8"
proof unfold_locales
  show "0 \<le> mm_need sz" for sz by (simp add: mm_need_def)
  show "\<exists>h'. pk_init mm_pkg (pk_reset mm_pkg h) = Some h' \<and> mm_rep h' {} \<and> mm_room h' = MAX_HEAP - 8" for h
    using mm_init_law by simp
  show "0 \<le> pk_size mm_pkg h" if "mm_rep h L" for h L using that by (auto simp: mm_rep_def heap_inv_def)
qed (use mm_extent_law mm_apart_law mm_malloc_law mm_free_law mm_realloc_law mm_rd_law mm_wr_law in simp_all)

subsection \<open>The driver on \<open>mm.c\<close>\<close>

text \<open>
  C1. On every well-formed trace whose blocks, headers and footers included, fit the 20 MB heap even without
  any reuse, \<open>eval_mm_valid\<close> run on \<open>mm.c\<close> returns 1: no call fails or leaves the heap, every block is aligned,
  inside the heap and disjoint from all live blocks, and \<open>mm_realloc\<close> preserves the data.
\<close>

theorem mm_passes_driver:
  assumes "trace_ok (length (blocks st)) {} ops" "length (block_sizes st) = length (blocks st)"
    "demand mm_need ops \<le> MAX_HEAP - 8"
  shows "\<exists>st'. eval_mm_valid mm_pkg ops st = Some (st', True)"
  using assms by (rule mm.eval_mm_valid_ok)

theorem mm_passes_driver_witness:
  "\<exists>st'. eval_mm_valid mm_pkg
     [\<lparr>op_type = ALLOC, op_index = 0, op_size = 100\<rparr>, \<lparr>op_type = ALLOC, op_index = 1, op_size = 8\<rparr>,
      \<lparr>op_type = FREE, op_index = 1, op_size = 0\<rparr>, \<lparr>op_type = REALLOC, op_index = 0, op_size = 500\<rparr>]
     \<lparr>dheap = mem_init (\<lambda>_. 0), ranges = [], blocks = [None, None], block_sizes = [0, 0], derrors = 0\<rparr> = Some (st', True)"
  by (rule mm_passes_driver) (simp_all add: mm_need_def req_words_def MAX_HEAP_def)

text \<open>
  C4. On the same traces \<open>eval_mm_util\<close> reaches its end, and the utilization it computes for \<open>mm.c\<close>, the peak of the
  requested bytes over the final heap size, is at most one.
\<close>

theorem mm_utilization:
  assumes "trace_ok (length bl) {} ops" "length zs = length bl" "demand mm_need ops \<le> MAX_HEAP - 8"
  shows "\<exists>peak total. eval_mm_util mm_pkg ops h bl zs = Some (Inr (peak, total)) \<and> peak \<le> total"
  using assms by (rule mm.eval_mm_util_ok)

theorem mm_utilization_witness:
  "\<exists>peak total. eval_mm_util mm_pkg
     [\<lparr>op_type = ALLOC, op_index = 0, op_size = 100\<rparr>, \<lparr>op_type = FREE, op_index = 0, op_size = 0\<rparr>]
     (mem_init (\<lambda>_. 0)) [None] [0] = Some (Inr (peak, total)) \<and> peak \<le> total"
  by (rule mm_utilization) (simp_all add: mm_need_def req_words_def MAX_HEAP_def)

subsection \<open>Deviations\<close>

text \<open>
  A request that does not fit the memory is not answered with a null pointer: \<open>mem_sbrk\<close> reports failure
  with \<open>(void*)-1\<close>, \<open>mm_malloc\<close> only tests for null, and writes its header outside the heap.
\<close>

lemma malloc_beyond_memory:
  "\<exists>h. mm_init (mem_init w) = Some h \<and> mm_malloc h (20 * 2 ^ 20) = None"
proof -
  let ?sz = "20 * 2 ^ 20 :: nat" and ?h = "\<lparr>words = w(0 := 7), mem_brk = 8, total_free_size = 0\<rparr>"
  have init: "mm_init (mem_init w) = Some ?h"
    by (simp add: mm_init_def mem_init_def mem_sbrk_def MAX_HEAP_def put_def)
  have inv: "heap_inv ?h []" by (simp add: heap_inv_def MAX_HEAP_def)
  have ns: "size_add (ALIGN ?sz) (2 * 8) = 8 * 2621442" by (subst new_size_eq) (simp_all add: req_words_def)
  have ff: "find_fit_block ?h (8 * 2621442) = Some None" using find_fit_ok [OF inv] by simp
  have fin: "\<exists>n. final_free_size ?h = Some n" using final_free_size_ok [OF inv] .
  have ex: "extend_heap ?h (8 * 2621442) = None" by (rule extend_fail) (simp_all add: MAX_HEAP_def)
  have "mm_malloc ?h ?sz = None"
    unfolding mm_malloc_def Let_def ns using ff fin ex by (auto simp: Let_def)
  with init show ?thesis by blast
qed

text \<open>
  \<open>mm_realloc(p, 0)\<close> frees the block and then goes on: it returns \<open>p\<close>, not null, and the block is marked as
  allocated again.
\<close>

lemma realloc_to_zero:
  assumes "heap_inv h bs" "(k, s) \<in> allocs 0 bs" "s \<le> 4"
  shows "\<exists>h'. mm_realloc h (Some (blkp k)) 0 = Some (h', Some (blkp k)) \<and> GET_ALLOC h' (HDRP (blkp k)) = Some 1"
proof -
  obtain h1 where f: "mm_free h (Some (blkp k)) = Some h1" "words h1 k = 8 * s" "inb h1 (k + s)"
    using mm_free_header [OF assms(1,2)] by blast
  have s: "3 \<le> s" "s = 3 \<or> s = 4" using mm_block [OF assms(1,2)] assms(3) by auto
  have ib: "inb h1 k" "inb h1 (k + s - 1)" using f(3) by (auto intro: inb_mono)
  let ?h2 = "setw (setw h1 k (8 * s + 1)) (k + s - 1) (8 * s + 1)"
  have pb: "put_both h1 (blkp k) (8 * s + 1) = Some ?h2" using put_both_ok [OF ib(2), of "8 * s + 1"] s(1) by simp
  have gs: "GET_SIZE h1 (waddr k) = Some (8 * s)" using ib f(2) by simp
  have pl: "place h1 (blkp k) 16 = Some ?h2"
    using gs pb s(2) by (auto simp: place_def Let_def)
  have "mm_realloc h (Some (blkp k)) 0 = Some (?h2, Some (blkp k))"
    using f(1) gs pl s by (auto simp: mm_realloc_def Let_def ALIGN_def size_add_def)
  then show ?thesis using ib s(1) by auto
qed

text \<open>
  \<open>add_range\<close> compares only the two ends of the new payload with the recorded ranges, so a payload that
  encloses a recorded one is accepted.
\<close>

lemma enclosing_range_accepted: "add_range 100 [(16, 23)] 8 32 = Some ([(8, 39), (16, 23)], True)"
  by (simp add: add_range_def overlaps_def)

text \<open>
  \<open>eval_mm_valid\<close> compares a \<open>char\<close> with an \<open>int\<close>: the data check of a resized block rejects every id whose low
  byte is 128 or more, whatever the allocator does.
\<close>

lemma high_ids_rejected:
  assumes "128 \<le> v" "v < 256" "pk_rd P h p = Some v" "0 < n"
  shows "bytes_equal P h p v n = Some False"
  using assms by (cases n) (auto simp: schar_def)

text \<open>
  After four neighbouring blocks are freed, \<open>coalesces\<close> leaves the merged block with a header of 128 bytes and a
  footer of 64: the footer only describes the last two parts.
\<close>

lemma stale_footer:
  "\<exists>h. coalesces \<lparr>words = (\<lambda>_. 0)(0 := 32, 3 := 32, 4 := 32, 7 := 32, 8 := 32, 11 := 32, 12 := 32, 15 := 32, 16 := 7),
       mem_brk = 136, total_free_size = 128\<rparr> = Some h \<and>
     GET_SIZE h (HDRP 8) = Some 128 \<and> FTRP h 8 = Some 120 \<and> GET_SIZE h 120 = Some 64"
  by (simp add: coalesces_def mem_heap_lo_def coalesces_loop.simps [of _ 8] coalesces_loop.simps [of _ 72]
    coalesces_loop.simps [of _ 104] coalesces_loop.simps [of _ 136] coalesce_def IS_END_def IS_BEGIN_def GET_ALLOC_def
    GET_SIZE_def NEXT_BLK_def PREV_BLK_def FTRP_def HDRP_def put_both_def put_def get_def word_size_def word_alloc_def
    size_add_def)



end
