(* ===== verification/Crc32.thy ===== *)
theory Crc32
  imports Prelude
begin

text \<open>
  The CRC-32 functor of \<open>cpp/datastructure/hash/crc32.cc\<close>: the 256-entry table, the macros \<open>DO1\<close> to
  \<open>DO8\<close> and the call operator, over the bytes that the key points to. A read past those bytes is \<open>None\<close>.
  The reference is the bit-serial division by the reflected polynomial.
\<close>

unbundle bit_operations_syntax

type_synonym byte = "8 word"

definition crc_table :: "32 word list" where
  "crc_table = [
   0x00000000, 0x77073096, 0xee0e612c, 0x990951ba, 0x076dc419, 0x706af48f, 0xe963a535, 0x9e6495a3,
   0x0edb8832, 0x79dcb8a4, 0xe0d5e91e, 0x97d2d988, 0x09b64c2b, 0x7eb17cbd, 0xe7b82d07, 0x90bf1d91,
   0x1db71064, 0x6ab020f2, 0xf3b97148, 0x84be41de, 0x1adad47d, 0x6ddde4eb, 0xf4d4b551, 0x83d385c7,
   0x136c9856, 0x646ba8c0, 0xfd62f97a, 0x8a65c9ec, 0x14015c4f, 0x63066cd9, 0xfa0f3d63, 0x8d080df5,
   0x3b6e20c8, 0x4c69105e, 0xd56041e4, 0xa2677172, 0x3c03e4d1, 0x4b04d447, 0xd20d85fd, 0xa50ab56b,
   0x35b5a8fa, 0x42b2986c, 0xdbbbc9d6, 0xacbcf940, 0x32d86ce3, 0x45df5c75, 0xdcd60dcf, 0xabd13d59,
   0x26d930ac, 0x51de003a, 0xc8d75180, 0xbfd06116, 0x21b4f4b5, 0x56b3c423, 0xcfba9599, 0xb8bda50f,
   0x2802b89e, 0x5f058808, 0xc60cd9b2, 0xb10be924, 0x2f6f7c87, 0x58684c11, 0xc1611dab, 0xb6662d3d,
   0x76dc4190, 0x01db7106, 0x98d220bc, 0xefd5102a, 0x71b18589, 0x06b6b51f, 0x9fbfe4a5, 0xe8b8d433,
   0x7807c9a2, 0x0f00f934, 0x9609a88e, 0xe10e9818, 0x7f6a0dbb, 0x086d3d2d, 0x91646c97, 0xe6635c01,
   0x6b6b51f4, 0x1c6c6162, 0x856530d8, 0xf262004e, 0x6c0695ed, 0x1b01a57b, 0x8208f4c1, 0xf50fc457,
   0x65b0d9c6, 0x12b7e950, 0x8bbeb8ea, 0xfcb9887c, 0x62dd1ddf, 0x15da2d49, 0x8cd37cf3, 0xfbd44c65,
   0x4db26158, 0x3ab551ce, 0xa3bc0074, 0xd4bb30e2, 0x4adfa541, 0x3dd895d7, 0xa4d1c46d, 0xd3d6f4fb,
   0x4369e96a, 0x346ed9fc, 0xad678846, 0xda60b8d0, 0x44042d73, 0x33031de5, 0xaa0a4c5f, 0xdd0d7cc9,
   0x5005713c, 0x270241aa, 0xbe0b1010, 0xc90c2086, 0x5768b525, 0x206f85b3, 0xb966d409, 0xce61e49f,
   0x5edef90e, 0x29d9c998, 0xb0d09822, 0xc7d7a8b4, 0x59b33d17, 0x2eb40d81, 0xb7bd5c3b, 0xc0ba6cad,
   0xedb88320, 0x9abfb3b6, 0x03b6e20c, 0x74b1d29a, 0xead54739, 0x9dd277af, 0x04db2615, 0x73dc1683,
   0xe3630b12, 0x94643b84, 0x0d6d6a3e, 0x7a6a5aa8, 0xe40ecf0b, 0x9309ff9d, 0x0a00ae27, 0x7d079eb1,
   0xf00f9344, 0x8708a3d2, 0x1e01f268, 0x6906c2fe, 0xf762575d, 0x806567cb, 0x196c3671, 0x6e6b06e7,
   0xfed41b76, 0x89d32be0, 0x10da7a5a, 0x67dd4acc, 0xf9b9df6f, 0x8ebeeff9, 0x17b7be43, 0x60b08ed5,
   0xd6d6a3e8, 0xa1d1937e, 0x38d8c2c4, 0x4fdff252, 0xd1bb67f1, 0xa6bc5767, 0x3fb506dd, 0x48b2364b,
   0xd80d2bda, 0xaf0a1b4c, 0x36034af6, 0x41047a60, 0xdf60efc3, 0xa867df55, 0x316e8eef, 0x4669be79,
   0xcb61b38c, 0xbc66831a, 0x256fd2a0, 0x5268e236, 0xcc0c7795, 0xbb0b4703, 0x220216b9, 0x5505262f,
   0xc5ba3bbe, 0xb2bd0b28, 0x2bb45a92, 0x5cb36a04, 0xc2d7ffa7, 0xb5d0cf31, 0x2cd99e8b, 0x5bdeae1d,
   0x9b64c2b0, 0xec63f226, 0x756aa39c, 0x026d930a, 0x9c0906a9, 0xeb0e363f, 0x72076785, 0x05005713,
   0x95bf4a82, 0xe2b87a14, 0x7bb12bae, 0x0cb61b38, 0x92d28e9b, 0xe5d5be0d, 0x7cdcefb7, 0x0bdbdf21,
   0x86d3d2d4, 0xf1d4e242, 0x68ddb3f8, 0x1fda836e, 0x81be16cd, 0xf6b9265b, 0x6fb077e1, 0x18b74777,
   0x88085ae6, 0xff0f6a70, 0x66063bca, 0x11010b5c, 0x8f659eff, 0xf862ae69, 0x616bffd3, 0x166ccf45,
   0xa00ae278, 0xd70dd2ee, 0x4e048354, 0x3903b3c2, 0xa7672661, 0xd06016f7, 0x4969474d, 0x3e6e77db,
   0xaed16a4a, 0xd9d65adc, 0x40df0b66, 0x37d83bf0, 0xa9bcae53, 0xdebb9ec5, 0x47b2cf7f, 0x30b5ffe9,
   0xbdbdf21c, 0xcabac28a, 0x53b39330, 0x24b4a3a6, 0xbad03605, 0xcdd70693, 0x54de5729, 0x23d967bf,
   0xb3667a2e, 0xc4614ab8, 0x5d681b02, 0x2a6f2b94, 0xb40bbe37, 0xc30c8ea1, 0x5a05df1b, 0x2d02ef8d]"

text \<open>The macros advance \<open>buf\<close> and update \<open>crc\<close>.\<close>

fun DO1 :: "32 word \<times> byte list \<Rightarrow> (32 word \<times> byte list) option" where
  "DO1 (crc, []) = None"
| "DO1 (crc, b # buf) = Some (crc_table ! unat ((crc XOR ucast b) AND 0xff) XOR drop_bit 8 crc, buf)"

definition DO2 :: "32 word \<times> byte list \<Rightarrow> (32 word \<times> byte list) option" where
  "DO2 s = Option.bind (DO1 s) DO1"

definition DO4 :: "32 word \<times> byte list \<Rightarrow> (32 word \<times> byte list) option" where
  "DO4 s = Option.bind (DO2 s) DO2"

definition DO8 :: "32 word \<times> byte list \<Rightarrow> (32 word \<times> byte list) option" where
  "DO8 s = Option.bind (DO4 s) DO4"

text \<open>\<open>while (len >= 8)\<close> returns the remaining length.\<close>

function crc_blocks :: "32 word \<times> byte list \<Rightarrow> int \<Rightarrow> ((32 word \<times> byte list) \<times> int) option" where
  "crc_blocks s len =
     (if len \<ge> 8 then (case DO8 s of None \<Rightarrow> None | Some s' \<Rightarrow> crc_blocks s' (len - 8))
      else Some (s, len))"
  by auto
termination by (relation "measure (\<lambda>(s, len). nat len)") auto

text \<open>\<open>while (len--)\<close>: with a negative \<open>len\<close> the loop runs on until it leaves the key.\<close>

lemma DO1_shorter [simp]: "DO1 (crc, buf) = Some (crc', buf') \<Longrightarrow> length buf' < length buf"
  by (cases buf) auto

function crc_rest :: "32 word \<times> byte list \<Rightarrow> int \<Rightarrow> (32 word \<times> byte list) option" where
  "crc_rest s len =
     (if len = 0 then Some s else case DO1 s of None \<Rightarrow> None | Some s' \<Rightarrow> crc_rest s' (len - 1))"
  by auto
termination by (relation "measure (\<lambda>(s, len). length (snd s))") auto

definition crc32 :: "32 word \<Rightarrow> byte list \<Rightarrow> int \<Rightarrow> 32 word option" where
  "crc32 seed key len =
     (case crc_blocks (seed XOR 0xffffffff, key) len of None \<Rightarrow> None
      | Some (s, len') \<Rightarrow>
          (case crc_rest s len' of None \<Rightarrow> None
           | Some (crc, buf) \<Rightarrow> Some (crc XOR 0xffffffff)))"

subsection \<open>The bit-serial reference\<close>

definition crc_bit :: "32 word \<Rightarrow> 32 word" where
  "crc_bit c = (if bit c 0 then drop_bit 1 c XOR 0xEDB88320 else drop_bit 1 c)"

definition crc_byte :: "32 word \<Rightarrow> byte \<Rightarrow> 32 word" where
  "crc_byte c b = (crc_bit ^^ 8) (c XOR ucast b)"

definition crc_ref :: "32 word \<Rightarrow> byte list \<Rightarrow> 32 word" where
  "crc_ref seed bs = foldl crc_byte (seed XOR 0xffffffff) bs XOR 0xffffffff"


subsection \<open>Linearity\<close>

lemma crc_bit_xor: "crc_bit (x XOR y) = crc_bit x XOR crc_bit y"
  by (auto simp: crc_bit_def bit_xor_iff ac_simps)

lemma crc_bits_xor: "(crc_bit ^^ n) (x XOR y) = (crc_bit ^^ n) x XOR (crc_bit ^^ n) y"
  by (induction n) (simp_all add: crc_bit_xor)

lemma crc_bits_zero [simp]: "(crc_bit ^^ n) 0 = 0"
  by (induction n) (simp_all add: crc_bit_def)

text \<open>A word whose low bits are clear is only shifted.\<close>

lemma crc_bits_shift: "take_bit n c = 0 \<Longrightarrow> (crc_bit ^^ n) c = drop_bit n c"
proof (induction n)
  case (Suc n)
  have clear: "\<not> bit c k" if "k < Suc n" for k
    using Suc.prems that bit_take_bit_iff [of "Suc n" c k] by simp
  then have low: "take_bit n c = 0" "\<not> bit c n"
    by (auto intro!: bit_eqI simp: bit_take_bit_iff)
  have "crc_bit (drop_bit n c) = drop_bit 1 (drop_bit n c)"
    using low(2) by (simp add: crc_bit_def bit_drop_bit_eq)
  then show ?case using Suc.IH [OF low(1)] by (simp add: add.commute)
qed simp

subsection \<open>The table\<close>

text \<open>The table of a linear function, doubled for each basis vector.\<close>

fun xor_table :: "32 word list \<Rightarrow> 32 word list" where
  "xor_table [] = [0]"
| "xor_table (b # bs) = (let t = xor_table bs in t @ map (\<lambda>x. b XOR x) t)"

lemma of_nat_add_power_xor:
  assumes "i < 2 ^ n" "n < 32"
  shows "of_nat (2 ^ n + i) = (of_nat (2 ^ n) XOR of_nat i :: 32 word)"
proof -
  have "(of_nat (2 ^ n) :: 32 word) AND of_nat i = 0"
    using assms by (intro bit_eqI) (auto simp: bit_and_iff bit_exp_iff bit_of_nat_iff bit_nat_def)
  then show ?thesis by (simp add: disjunctive_xor_eq_or disjunctive_add_eq_or)
qed

lemma xor_table_linear:
  fixes f :: "32 word \<Rightarrow> 32 word"
  assumes lin: "\<And>x y. f (x XOR y) = f x XOR f y" and zero: "f 0 = 0"
  shows "n < 32 \<Longrightarrow> xor_table (rev (map (\<lambda>k. f (of_nat (2 ^ k))) [0..<n])) = map (\<lambda>i. f (of_nat i)) [0..<2 ^ n]"
proof (induction n)
  case (Suc n)
  have "map (\<lambda>i. f (of_nat i)) [2 ^ n..<2 ^ Suc n] = map (\<lambda>i. f (of_nat (2 ^ n + i))) [0..<2 ^ n]"
    by (rule nth_equalityI) auto
  also have "\<dots> = map (\<lambda>i. f (of_nat (2 ^ n)) XOR f (of_nat i)) [0..<2 ^ n]"
    using Suc.prems by (intro map_cong refl) (simp add: of_nat_add_power_xor lin [symmetric] del: of_nat_add of_nat_power)
  finally show ?case
    using Suc upt_add_eq_append [of 0 "2 ^ n" "2 ^ n"] by (simp add: Let_def comp_def mult_2)
qed (simp add: zero)

lemma crc_basis:
  "map (\<lambda>k. (crc_bit ^^ 8) (of_nat (2 ^ k))) [0..<8] =
     [0x77073096, 0xee0e612c, 0x076dc419, 0x0edb8832, 0x1db71064, 0x3b6e20c8, 0x76dc4190, 0xedb88320]"
  by code_simp

lemma crc_table_xor_table:
  "crc_table = xor_table
     [0xedb88320, 0x76dc4190, 0x3b6e20c8, 0x1db71064, 0x0edb8832, 0x076dc419, 0xee0e612c, 0x77073096]"
  by (simp add: crc_table_def Let_def)

lemma crc_table_entries: "crc_table = map (\<lambda>i. (crc_bit ^^ 8) (of_nat i)) [0..<2 ^ 8]"
  unfolding crc_table_xor_table
  using xor_table_linear [of "\<lambda>x. (crc_bit ^^ 8) x" 8, OF crc_bits_xor crc_bits_zero]
  by (simp only: crc_basis) simp

lemma crc_table_nth: "i < 256 \<Longrightarrow> crc_table ! i = (crc_bit ^^ 8) (of_nat i)"
  by (simp add: crc_table_entries)

text \<open>One table step is eight steps of the division.\<close>

lemma crc_table_step:
  "crc_table ! unat ((crc XOR ucast b) AND 0xff) XOR drop_bit 8 crc = crc_byte crc b"
proof -
  define x :: "32 word" where "x = crc XOR ucast b"
  have mask: "x AND 0xff = take_bit 8 x" by (simp add: take_bit_eq_mask mask_eq_exp_minus_1)
  have "unat (take_bit 8 x) < 256"
    using take_bit_nat_less_exp [of 8 "unat x"] by (simp add: unsigned_take_bit_eq)
  then have lo: "crc_table ! unat (x AND 0xff) = (crc_bit ^^ 8) (take_bit 8 x)"
    by (simp add: mask crc_table_nth)
  define y where "y = x XOR take_bit 8 x"
  have "take_bit 8 y = 0" by (simp add: y_def)
  moreover have "drop_bit 8 y = drop_bit 8 crc"
    by (rule bit_eqI) (auto simp: y_def x_def bit_drop_bit_eq bit_xor_iff bit_take_bit_iff bit_ucast_iff
      dest: bit_imp_le_length)
  ultimately have hi: "(crc_bit ^^ 8) y = drop_bit 8 crc" by (simp only: crc_bits_shift)
  have "take_bit 8 x XOR y = x" by (simp add: y_def ac_simps)
  then have "crc_byte crc b = (crc_bit ^^ 8) (take_bit 8 x XOR y)" by (simp only: crc_byte_def x_def)
  then show ?thesis by (simp only: crc_bits_xor lo hi x_def [symmetric])
qed

lemma DO1_step [simp]: "DO1 (crc, b # buf) = Some (crc_byte crc b, buf)"
  by (simp add: crc_table_step)

declare DO1.simps(2) [simp del]

lemma DO8_step:
  "length xs = 8 \<Longrightarrow> DO8 (crc, xs @ buf) = Some (foldl crc_byte crc xs, buf)"
  by (auto simp: DO8_def DO4_def DO2_def numeral_eq_Suc length_Suc_conv)

lemma crc_rest_ok:
  "crc_rest (crc, bs @ buf) (int (length bs)) = Some (foldl crc_byte crc bs, buf)"
  by (induction bs arbitrary: crc) auto

lemma crc_blocks_ok:
  "crc_blocks (crc, bs @ buf) (int (length bs)) =
     Some ((foldl crc_byte crc (take (8 * (length bs div 8)) bs), drop (8 * (length bs div 8)) bs @ buf),
           int (length bs mod 8))"
proof (induction "length bs" arbitrary: bs crc rule: less_induct)
  case less
  show ?case
  proof (cases "length bs < 8")
    case False
    define xs ys where "xs = take 8 bs" and "ys = drop 8 bs"
    have len: "length xs = 8" "length ys = length bs - 8" "length ys < length bs"
      using False by (auto simp: xs_def ys_def)
    have bs: "bs = xs @ ys" by (simp add: xs_def ys_def)
    have "length bs div 8 = Suc (length ys div 8)" "length bs mod 8 = length ys mod 8"
      by (simp_all add: bs len(1))
    moreover have "DO8 (crc, bs @ buf) = Some (foldl crc_byte crc xs, ys @ buf)"
      using DO8_step [OF len(1), of crc "ys @ buf"] by (simp add: bs)
    moreover have "int (length bs) - 8 = int (length ys)" using False len(2) by simp
    ultimately show ?thesis
      using less [of ys "foldl crc_byte crc xs", OF len(3)] False len(1) by (simp add: bs)
  qed simp
qed

lemma crc32_eq_ref: "crc32 seed key (int (length key)) = Some (crc_ref seed key)"
proof -
  define k where "k = 8 * (length key div 8)"
  have "int (length key mod 8) = int (length (drop k key))"
    by (simp add: k_def minus_mult_div_eq_mod)
  moreover have "foldl crc_byte (foldl crc_byte c (take k key)) (drop k key) = foldl crc_byte c key" for c
    by (metis append_take_drop_id foldl_append)
  ultimately show ?thesis
    using crc_blocks_ok [of "seed XOR 0xffffffff" key "[]"]
      crc_rest_ok [of "foldl crc_byte (seed XOR 0xffffffff) (take k key)" "drop k key" "[]"]
    by (simp add: crc32_def crc_ref_def k_def [symmetric] del: crc_blocks.simps crc_rest.simps)
qed

text \<open>
  C32. For every seed and key, the table-driven call operator with its unrolled loop reads exactly the
  key and returns the remainder of the bit-serial division, and hashing a second key with the first
  result as its seed hashes the concatenation.
\<close>

theorem crc32_correct:
  "crc32 seed key (int (length key)) = Some (crc_ref seed key) \<and>
   Option.bind (crc32 seed key (int (length key))) (\<lambda>c. crc32 c key' (int (length key'))) =
     crc32 seed (key @ key') (int (length (key @ key')))"
  unfolding crc32_eq_ref by (simp add: crc_ref_def xor.assoc)

lemma crc32_test_vector: "crc32 7621 (map of_char ''this is a test line'') 19 = Some 0x49f2cf0a"
  by code_simp

end
