(* ===== verification/Murmur.thy ===== *)
theory Murmur
  imports Prelude
begin

text \<open>
  MurmurHash3 (x64, 128 bits) of \<open>cpp/datastructure/hash/murmurhash.cc\<close>. The key is the list of the bytes it
  points to; a read outside them is \<open>None\<close>. A \<open>uint64_t\<close> is a 64-bit word, loaded little-endian as on
  the machines the repository builds for.
\<close>

unbundle bit_operations_syntax

type_synonym u64 = "64 word"

definition rotl64 :: "u64 \<Rightarrow> nat \<Rightarrow> u64" where
  "rotl64 x r = (push_bit r x OR drop_bit (64 - r) x)"

definition fmix64 :: "u64 \<Rightarrow> u64" where
  "fmix64 k0 =
     (let k = k0 XOR drop_bit 33 k0;
          k = k * 0xff51afd7ed558ccd;
          k = k XOR drop_bit 33 k;
          k = k * 0xc4ceb9fe1a85ec53
      in k XOR drop_bit 33 k)"

definition c1 :: u64 where "c1 = 0x87c37b91114253d5"

definition c2 :: u64 where "c2 = 0x4cf5ad432745937f"

text \<open>The little-endian value of a list of bytes, and \<open>blocks[i]\<close>.\<close>

fun le64 :: "8 word list \<Rightarrow> u64" where
  "le64 [] = 0"
| "le64 (b # bs) = ucast b XOR push_bit 8 (le64 bs)"

definition load64 :: "8 word list \<Rightarrow> int \<Rightarrow> u64 option" where
  "load64 key i =
     (if 0 \<le> i \<and> 8 * nat i + 8 \<le> length key then Some (le64 (take 8 (drop (8 * nat i) key))) else None)"

text \<open>The mixing of a key word, shared by the body and the tail.\<close>

definition mix_k1 :: "u64 \<Rightarrow> u64" where
  "mix_k1 k1 = rotl64 (k1 * c1) 31 * c2"

definition mix_k2 :: "u64 \<Rightarrow> u64" where
  "mix_k2 k2 = rotl64 (k2 * c2) 33 * c1"

definition body_step :: "u64 \<times> u64 \<Rightarrow> u64 \<Rightarrow> u64 \<Rightarrow> u64 \<times> u64" where
  "body_step h k1 k2 =
     (let h1 = fst h XOR mix_k1 k1;
          h1 = rotl64 h1 27 + snd h;
          h1 = h1 * 5 + 0x52dce729;
          h2 = snd h XOR mix_k2 k2;
          h2 = rotl64 h2 31 + h1;
          h2 = h2 * 5 + 0x38495ab5
      in (h1, h2))"

function murmur_body :: "8 word list \<Rightarrow> int \<Rightarrow> int \<Rightarrow> u64 \<times> u64 \<Rightarrow> (u64 \<times> u64) option" where
  "murmur_body key nblocks i h =
     (if i < nblocks then
        case load64 key (i * 2) of None \<Rightarrow> None
        | Some k1 \<Rightarrow> (case load64 key (i * 2 + 1) of None \<Rightarrow> None
            | Some k2 \<Rightarrow> murmur_body key nblocks (i + 1) (body_step h k1 k2))
      else Some h)"
  by auto
termination by (relation "measure (\<lambda>(key, nblocks, i, h). nat (nblocks - i))") auto

text \<open>A \<open>case n:\<close> of the tail switch, reached by falling through from every \<open>r \<ge> n\<close>.\<close>

definition tail_case :: "8 word list \<Rightarrow> int \<Rightarrow> int \<Rightarrow> nat \<Rightarrow> nat \<Rightarrow> nat \<Rightarrow> u64 \<Rightarrow> u64 option" where
  "tail_case key tail r n i s k =
     (if int n \<le> r then case ivget key (tail + int i) of None \<Rightarrow> None | Some b \<Rightarrow> Some (k XOR push_bit s (ucast b))
      else Some k)"

definition murmur_tail :: "8 word list \<Rightarrow> int \<Rightarrow> int \<Rightarrow> u64 \<times> u64 \<Rightarrow> (u64 \<times> u64) option" where
  "murmur_tail key tail r h =
     do {
       k2 \<leftarrow> tail_case key tail r 15 14 48 0;
       k2 \<leftarrow> tail_case key tail r 14 13 40 k2;
       k2 \<leftarrow> tail_case key tail r 13 12 32 k2;
       k2 \<leftarrow> tail_case key tail r 12 11 24 k2;
       k2 \<leftarrow> tail_case key tail r 11 10 16 k2;
       k2 \<leftarrow> tail_case key tail r 10 9 8 k2;
       k2 \<leftarrow> tail_case key tail r 9 8 0 k2;
       let h2 = (if 9 \<le> r then snd h XOR mix_k2 k2 else snd h);
       k1 \<leftarrow> tail_case key tail r 8 7 56 0;
       k1 \<leftarrow> tail_case key tail r 7 6 48 k1;
       k1 \<leftarrow> tail_case key tail r 6 5 40 k1;
       k1 \<leftarrow> tail_case key tail r 5 4 32 k1;
       k1 \<leftarrow> tail_case key tail r 4 3 24 k1;
       k1 \<leftarrow> tail_case key tail r 3 2 16 k1;
       k1 \<leftarrow> tail_case key tail r 2 1 8 k1;
       k1 \<leftarrow> tail_case key tail r 1 0 0 k1;
       let h1 = (if 1 \<le> r then fst h XOR mix_k1 k1 else fst h);
       Some (h1, h2)
     }"

definition murmur_final :: "int \<Rightarrow> u64 \<times> u64 \<Rightarrow> u64 \<times> u64" where
  "murmur_final len h =
     (let h1 = fst h XOR of_int len;
          h2 = snd h XOR of_int len;
          h1 = h1 + h2;
          h2 = h2 + h1;
          h1 = fmix64 h1;
          h2 = fmix64 h2;
          h1 = h1 + h2;
          h2 = h2 + h1
      in (h1, h2))"

definition murmur :: "32 word \<Rightarrow> 8 word list \<Rightarrow> int \<Rightarrow> (u64 \<times> u64) option" where
  "murmur seed key len =
     (let nblocks = cdiv len 16; h = (ucast seed, ucast seed)
      in case murmur_body key nblocks 0 h of None \<Rightarrow> None
         | Some h \<Rightarrow> (case murmur_tail key (nblocks * 16) (len mod 16) h of None \<Rightarrow> None
             | Some h \<Rightarrow> Some (murmur_final len h)))"

lemma murmur_test_vector:
  "murmur 7621 (map of_char ''this is a test line'') 19 = Some (0xb3c8e4d2b3806183, 0xbc117d2cd9cf9a3e)"
  by code_simp

subsection \<open>The reference: whole blocks, then the zero-padded rest\<close>

function ref_body :: "u64 \<times> u64 \<Rightarrow> 8 word list \<Rightarrow> (u64 \<times> u64) \<times> 8 word list" where
  "ref_body h key =
     (if length key < 16 then (h, key)
      else ref_body (body_step h (le64 (take 8 key)) (le64 (take 8 (drop 8 key)))) (drop 16 key))"
  by auto
termination by (relation "measure (\<lambda>(h, key). length key)") auto

declare ref_body.simps [simp del] murmur_body.simps [simp del]

definition murmur_ref :: "32 word \<Rightarrow> 8 word list \<Rightarrow> u64 \<times> u64" where
  "murmur_ref seed key =
     (let (h, t) = ref_body (ucast seed, ucast seed) key
      in murmur_final (int (length key)) (fst h XOR mix_k1 (le64 (take 8 t)), snd h XOR mix_k2 (le64 (drop 8 t))))"

lemma ref_body_rest: "snd (ref_body h key) = drop (16 * (length key div 16)) key"
proof (induction h key rule: ref_body.induct)
  case (1 h key)
  show ?case
  proof (cases "length key < 16")
    case False
    then have "length key div 16 = Suc ((length key - 16) div 16)" by (simp add: le_div_geq)
    then show ?thesis using False 1 by (subst ref_body.simps) (simp add: add.commute)
  qed (simp add: ref_body.simps)
qed

lemma murmur_body_ref:
  assumes "key = pre @ rest" "length pre = 16 * i" "nblocks = int (length key div 16)"
  shows "murmur_body key nblocks (int i) h = Some (fst (ref_body h rest))"
  using assms
proof (induction h rest arbitrary: pre i rule: ref_body.induct)
  case (1 h rest)
  have nb: "nblocks = int i + int (length rest div 16)"
    using "1.prems" by (simp add: div_mult_self1 add.commute)
  show ?case
  proof (cases "length rest < 16")
    case True
    then show ?thesis using nb by (simp add: murmur_body.simps ref_body.simps)
  next
    case False
    then have pos: "int i < nblocks" using nb by (simp add: div_greater_zero_iff)
    have loads: "load64 key (int i * 2) = Some (le64 (take 8 rest))"
      "load64 key (int i * 2 + 1) = Some (le64 (take 8 (drop 8 rest)))"
      using False "1.prems"(1,2) by (auto simp: load64_def nat_mult_distrib nat_add_distrib)
    have "murmur_body key nblocks (int (Suc i)) (body_step h (le64 (take 8 rest)) (le64 (take 8 (drop 8 rest)))) =
        Some (fst (ref_body (body_step h (le64 (take 8 rest)) (le64 (take 8 (drop 8 rest)))) (drop 16 rest)))"
      using False "1.prems" by (intro "1.IH" [where pre = "pre @ take 16 rest"]) auto
    then show ?thesis
      using pos loads False by (subst murmur_body.simps, subst ref_body.simps) (simp add: add.commute)
  qed
qed

subsection \<open>The fall-through tail\<close>

definition byte_or_0 :: "8 word list \<Rightarrow> nat \<Rightarrow> u64" where
  "byte_or_0 t i = (if i < length t then ucast (t ! i) else 0)"

lemma tail_case_byte:
  "n = Suc i \<Longrightarrow> tail_case (pre @ t) (int (length pre)) (int (length t)) n i s k =
     Some (k XOR push_bit s (byte_or_0 t i))"
  by (auto simp: tail_case_def byte_or_0_def nat_add_distrib)

lemma le64_step: "le64 t = byte_or_0 t 0 XOR push_bit 8 (le64 (drop 1 t))"
  by (cases t) (auto simp: byte_or_0_def)

lemma byte_or_0_drop: "byte_or_0 (drop n t) i = byte_or_0 t (n + i)"
  by (auto simp: byte_or_0_def)

lemma le64_8:
  assumes "length t \<le> 8"
  shows "le64 t = byte_or_0 t 0 XOR push_bit 8 (byte_or_0 t 1) XOR push_bit 16 (byte_or_0 t 2) XOR
    push_bit 24 (byte_or_0 t 3) XOR push_bit 32 (byte_or_0 t 4) XOR push_bit 40 (byte_or_0 t 5) XOR
    push_bit 48 (byte_or_0 t 6) XOR push_bit 56 (byte_or_0 t 7)"
proof -
  have step: "le64 (drop n t) = byte_or_0 t n XOR push_bit 8 (le64 (drop (Suc n) t))" for n
    using le64_step [of "drop n t"] by (simp add: byte_or_0_drop)
  have "le64 (drop 8 t) = 0" using assms by simp
  then show ?thesis
    using step [of 0] step [of 1] step [of 2] step [of 3] step [of 4] step [of 5] step [of 6] step [of 7]
    by (simp add: push_bit_xor xor.assoc numeral_2_eq_2 [symmetric])
qed

lemma mix_zero [simp]: "mix_k1 0 = 0" "mix_k2 0 = 0"
  by (simp_all add: mix_k1_def mix_k2_def rotl64_def)

lemma murmur_tail_ok:
  assumes "length t < 16"
  shows "murmur_tail (pre @ t) (int (length pre)) (int (length t)) h =
     Some (fst h XOR mix_k1 (le64 (take 8 t)), snd h XOR mix_k2 (le64 (drop 8 t)))"
proof -
  have lo: "byte_or_0 (take 8 t) i = byte_or_0 t i" if "i < 8" for i
    using that by (simp add: byte_or_0_def)
  have "byte_or_0 t 15 = 0" using assms by (simp add: byte_or_0_def)
  then have k2: "le64 (drop 8 t) = byte_or_0 t 8 XOR push_bit 8 (byte_or_0 t 9) XOR push_bit 16 (byte_or_0 t 10) XOR
    push_bit 24 (byte_or_0 t 11) XOR push_bit 32 (byte_or_0 t 12) XOR push_bit 40 (byte_or_0 t 13) XOR
    push_bit 48 (byte_or_0 t 14)"
    using le64_8 [of "drop 8 t"] assms by (simp add: byte_or_0_drop)
  have k1: "le64 (take 8 t) = byte_or_0 t 0 XOR push_bit 8 (byte_or_0 t 1) XOR push_bit 16 (byte_or_0 t 2) XOR
    push_bit 24 (byte_or_0 t 3) XOR push_bit 32 (byte_or_0 t 4) XOR push_bit 40 (byte_or_0 t 5) XOR
    push_bit 48 (byte_or_0 t 6) XOR push_bit 56 (byte_or_0 t 7)"
    using le64_8 [of "take 8 t"] by (simp add: lo)
  have small: "\<not> 9 \<le> length t \<Longrightarrow> le64 (drop 8 t) = 0" "\<not> 1 \<le> length t \<Longrightarrow> le64 (take 8 t) = 0"
    by (auto simp: not_le)
  show ?thesis
    unfolding murmur_tail_def
    by (simp add: tail_case_byte Let_def xor.left_commute xor.commute xor.assoc) (use k1 k2 small in \<open>auto simp: ac_simps\<close>)
qed

lemma murmur_eq_ref: "murmur seed key (int (length key)) = Some (murmur_ref seed key)"
proof -
  define n where "n = 16 * (length key div 16)"
  define h :: "u64 \<times> u64" where "h = (ucast seed, ucast seed)"
  have key: "key = take n key @ drop n key" "length (take n key) = n" by (auto simp: n_def)
  have r: "int (length key) mod 16 = int (length (drop n key))"
    by (simp add: n_def minus_mult_div_eq_mod zmod_int)
  have body: "murmur_body key (int (length key div 16)) 0 h = Some (fst (ref_body h key))"
    using murmur_body_ref [of key "[]" key 0 "int (length key div 16)" h] by simp
  have "murmur_tail (take n key @ drop n key) (int (length (take n key))) (int (length (drop n key))) g =
     Some (fst g XOR mix_k1 (le64 (take 8 (drop n key))), snd g XOR mix_k2 (le64 (drop 8 (drop n key))))" for g
    by (rule murmur_tail_ok) (simp add: n_def minus_mult_div_eq_mod)
  then have tail: "murmur_tail key (int n) (int (length (drop n key))) g =
     Some (fst g XOR mix_k1 (le64 (take 8 (drop n key))), snd g XOR mix_k2 (le64 (drop 8 (drop n key))))" for g
    using key by simp
  have "cdiv (int (length key)) 16 = int (length key div 16)" "int (length key div 16) * 16 = int n"
    by (simp_all add: n_def zdiv_int)
  then show ?thesis
    using body tail r ref_body_rest [of h key]
    by (simp add: murmur_def murmur_ref_def h_def [symmetric] n_def [symmetric] Let_def split_beta)
qed

subsection \<open>No information of the state is lost\<close>

lemma rotl64_word_rotl:
  assumes "0 < r" "r < 64"
  shows "rotl64 x r = word_rotl r x"
proof (rule bit_word_eqI)
  fix n assume n: "n < LENGTH(64)"
  show "bit (rotl64 x r) n = bit (word_rotl r x) n"
  proof (cases "r \<le> n")
    case True
    then have "(n + 64 - r) mod 64 = n - r" using n assms by (simp add: mod_if)
    moreover have "\<not> bit x (64 + n - r)" using True bit_imp_le_length [of x "64 + n - r"] by auto
    ultimately show ?thesis
      using True n assms by (simp add: rotl64_def bit_or_iff bit_push_bit_iff bit_drop_bit_eq bit_word_rotl_iff)
  next
    case False
    then have "(n + 64 - r) mod 64 = 64 - r + n" using n assms by simp
    then show ?thesis
      using False n assms by (simp add: rotl64_def bit_or_iff bit_push_bit_iff bit_drop_bit_eq bit_word_rotl_iff)
  qed
qed

lemma rotl64_eq_iff [simp]: "0 < r \<Longrightarrow> r < 64 \<Longrightarrow> rotl64 x r = rotl64 y r \<longleftrightarrow> x = y"
  by (metis rotl64_word_rotl word_rot_lr)

lemma mult_eq_iff: 
  assumes inv: "(c :: u64) * d = 1"
  shows "x * c = y * c \<longleftrightarrow> x = y"
proof
  assume eq: "x * c = y * c"
  have "z * c * d = z" for z by (simp only: mult.assoc inv mult_1_right)
  with eq show "x = y" by metis
qed simp

lemma mult_inverse: "(c :: u64) * d = 1 \<Longrightarrow> k * c * d = k \<and> k * d * c = k"
proof -
  assume "c * d = 1"
  then have "k * (c * d) = k" "k * (d * c) = k" by (simp_all add: mult.commute [of d c])
  then show ?thesis by (simp only: mult.assoc)
qed

lemma xor_eq_iff [simp]: "x XOR z = y XOR z \<longleftrightarrow> x = (y :: u64)"
proof
  assume "x XOR z = y XOR z"
  then have "(x XOR z) XOR z = (y XOR z) XOR z" by simp
  then show "x = y" by (simp add: xor.assoc)
qed simp

text \<open>The inverse of the finalizer: each xor-shift undoes itself, each factor has an inverse.\<close>

definition fmix64_inv :: "u64 \<Rightarrow> u64" where
  "fmix64_inv k0 =
     (let k = k0 XOR drop_bit 33 k0;
          k = k * 0x9cb4b2f8129337db;
          k = k XOR drop_bit 33 k;
          k = k * 0x4f74430c22a54005
      in k XOR drop_bit 33 k)"

lemma xorshift_involution: "32 \<le> r \<Longrightarrow> (k XOR drop_bit r k) XOR drop_bit r (k XOR drop_bit r k) = (k :: u64)"
proof -
  assume "32 \<le> r"
  then have "drop_bit r (drop_bit r k) = 0"
    by (intro bit_word_eqI) (auto simp: bit_drop_bit_eq dest: bit_imp_le_length)
  then show ?thesis by (simp add: xor.assoc)
qed

lemma fmix64_factors:
  "k * 0xff51afd7ed558ccd * 0x4f74430c22a54005 = (k :: u64) \<and> k * 0x4f74430c22a54005 * 0xff51afd7ed558ccd = k"
  "k * 0xc4ceb9fe1a85ec53 * 0x9cb4b2f8129337db = k \<and> k * 0x9cb4b2f8129337db * 0xc4ceb9fe1a85ec53 = k"
  by (rule mult_inverse, simp)+

lemma fmix64_inverse: "fmix64_inv (fmix64 k) = k" "fmix64 (fmix64_inv k) = k"
  unfolding fmix64_inv_def fmix64_def Let_def
  by (simp_all only: xorshift_involution conjunct1 [OF fmix64_factors(1)] conjunct1 [OF fmix64_factors(2)]
    conjunct2 [OF fmix64_factors(1)] conjunct2 [OF fmix64_factors(2)] order_refl numeral_le_iff semiring_norm)

lemma fmix64_eq_iff [simp]: "fmix64 x = fmix64 y \<longleftrightarrow> x = y"
  by (metis fmix64_inverse(1))

lemma add_pair_eq_iff:
  "a + b = c + d \<and> b + (a + b) = d + (c + d) \<longleftrightarrow> a = c \<and> (b :: u64) = d"
  by (metis add_left_cancel add_right_cancel)

lemma murmur_final_eq_iff: "murmur_final len h = murmur_final len g \<longleftrightarrow> h = g"
  by (simp only: murmur_final_def Let_def prod.inject add_pair_eq_iff fmix64_eq_iff xor_eq_iff fst_conv snd_conv prod_eq_iff)

lemma round_eq_iff:
  "0 < r \<Longrightarrow> r < 64 \<Longrightarrow>
     (rotl64 (x XOR k) r + a) * 5 + c = (rotl64 (y XOR k) r + a) * 5 + c \<longleftrightarrow> x = y"
proof -
  have five: "u * 5 = v * 5 \<longleftrightarrow> u = v" for u v :: u64
    by (rule mult_eq_iff [of _ "0xcccccccccccccccd"]) simp
  show "0 < r \<Longrightarrow> r < 64 \<Longrightarrow> ?thesis"
    by (simp only: add_right_cancel five rotl64_eq_iff xor_eq_iff)
qed

lemma body_step_eq_iff: "body_step h k1 k2 = body_step g k1 k2 \<longleftrightarrow> h = g"
proof
  assume eq: "body_step h k1 k2 = body_step g k1 k2"
  define e where "e = fst (body_step h k1 k2)"
  have "snd (body_step h k1 k2) = (rotl64 (snd h XOR mix_k2 k2) 31 + e) * 5 + 0x38495ab5"
    "snd (body_step g k1 k2) = (rotl64 (snd g XOR mix_k2 k2) 31 + e) * 5 + 0x38495ab5"
    by (simp add: e_def body_step_def Let_def) (simp add: e_def eq, simp add: body_step_def Let_def)
  with eq have two: "snd h = snd g" by (simp only: round_eq_iff)
  have "(rotl64 (fst h XOR mix_k1 k1) 27 + snd h) * 5 + 0x52dce729 =
      (rotl64 (fst g XOR mix_k1 k1) 27 + snd h) * 5 + 0x52dce729"
    using eq by (simp only: body_step_def Let_def prod.inject two)
  then have "fst h = fst g" by (simp only: round_eq_iff)
  with two show "h = g" by (simp add: prod_eq_iff)
qed simp

lemma ref_body_eq_iff: "fst (ref_body h key) = fst (ref_body g key) \<longleftrightarrow> h = g"
proof (induction h key arbitrary: g rule: ref_body.induct)
  case (1 h key)
  then show ?case
    by (subst ref_body.simps, subst (2) ref_body.simps) (simp add: body_step_eq_iff)
qed

lemma widen_inverse: "(ucast (ucast x :: u64) :: 32 word) = x"
  by (rule bit_word_eqI) (simp add: bit_ucast_iff)

lemma murmur_ref_eq_iff: "murmur_ref seed key = murmur_ref seed' key \<longleftrightarrow> seed = seed'"
proof -
  have "murmur_ref seed key = murmur_ref seed' key \<longleftrightarrow>
      fst (ref_body (ucast seed, ucast seed) key) = fst (ref_body (ucast seed', ucast seed') key)"
    by (simp add: murmur_ref_def split_beta murmur_final_eq_iff ref_body_rest) (auto simp: prod_eq_iff)
  also have "\<dots> \<longleftrightarrow> (ucast seed :: u64) = ucast seed'" by (simp add: ref_body_eq_iff)
  also have "\<dots> \<longleftrightarrow> seed = seed'" by (metis widen_inverse)
  finally show ?thesis .
qed

text \<open>
  C33. For every seed and key the call operator reads exactly the key and computes MurmurHash3: the
  mixing of its 16-byte blocks, then of the zero-padded rest that the fall-through switch
  assembles. Two functors agree on a key only if their seeds agree, so the distinct seeds of a Bloom
  filter give pairwise different hashes of every key.
\<close>

theorem murmur_correct:
  "murmur seed key (int (length key)) = Some (murmur_ref seed key) \<and>
   (murmur seed key (int (length key)) = murmur seed' key (int (length key)) \<longleftrightarrow> seed = seed')"
  by (simp add: murmur_eq_ref murmur_ref_eq_iff)

end
