(* ===== verification/Bloom.thy ===== *)
theory Bloom
  imports Murmur
begin

text \<open>
  \<open>cpp/examples/bloom_filter.cc\<close> and \<open>bloom_filter.h\<close>: the plain and the counting Bloom filter over MurmurHash. The
  number of buckets and of hash functions that the constructors compute in floating point are arguments, and so
  are the numbers that the random engine draws. A key is \<open>None\<close> for \<open>nullptr\<close>; a remainder by zero is \<open>None\<close>.
\<close>

section \<open>Definitions\<close>

record bloom =
  bucket_size :: nat
  hash_seeds :: "32 word list"
  bits :: "bool list"

record cbloom =
  cbucket_size :: nat
  chash_seeds :: "32 word list"
  counts :: "nat list"
  count_max :: nat

text \<open>Seeds are drawn until there are enough different ones; a \<open>std::set\<close> is traversed in ascending order.\<close>

fun draw_seeds :: "nat \<Rightarrow> 32 word set \<Rightarrow> 32 word list \<Rightarrow> 32 word set option" where
  "draw_seeds k S [] = (if card S = k then Some S else None)"
| "draw_seeds k S (d # ds) = (if card S = k then Some S else draw_seeds k (insert d S) ds)"

definition bloom_new :: "nat \<Rightarrow> nat \<Rightarrow> 32 word list \<Rightarrow> bloom option" where
  "bloom_new m k draws =
     map_option (\<lambda>S. \<lparr>bucket_size = m, hash_seeds = sorted_list_of_set S, bits = replicate m False\<rparr>) (draw_seeds k {} draws)"

definition cbloom_new :: "nat \<Rightarrow> nat \<Rightarrow> nat \<Rightarrow> 32 word list \<Rightarrow> cbloom option" where
  "cbloom_new tmax m k draws =
     map_option (\<lambda>S. \<lparr>cbucket_size = m, chash_seeds = sorted_list_of_set S, counts = replicate m 0, count_max = tmax\<rparr>)
       (draw_seeds k {} draws)"

definition hash_index :: "32 word \<Rightarrow> 8 word list \<Rightarrow> int \<Rightarrow> nat \<Rightarrow> nat option" where
  "hash_index seed key len m = Option.bind (murmur seed key len) (\<lambda>h. if m = 0 then None else Some (unat (snd h) mod m))"

fun bloom_set_all :: "32 word list \<Rightarrow> 8 word list \<Rightarrow> int \<Rightarrow> nat \<Rightarrow> bool list \<Rightarrow> bool list option" where
  "bloom_set_all [] key len m buf = Some buf"
| "bloom_set_all (s # ss) key len m buf =
     do { i \<leftarrow> hash_index s key len m; buf \<leftarrow> vset buf i True; bloom_set_all ss key len m buf }"

definition bloom_insert :: "bloom \<Rightarrow> 8 word list option \<Rightarrow> int \<Rightarrow> bloom option" where
  "bloom_insert f key len =
     (case key of None \<Rightarrow> Some f
      | Some k \<Rightarrow> map_option (\<lambda>b. f\<lparr>bits := b\<rparr>) (bloom_set_all (hash_seeds f) k len (bucket_size f) (bits f)))"

fun bloom_test_all :: "32 word list \<Rightarrow> 8 word list \<Rightarrow> int \<Rightarrow> nat \<Rightarrow> bool list \<Rightarrow> bool option" where
  "bloom_test_all [] key len m buf = Some True"
| "bloom_test_all (s # ss) key len m buf =
     do { i \<leftarrow> hash_index s key len m; b \<leftarrow> vget buf i; if b = False then Some False else bloom_test_all ss key len m buf }"

definition bloom_exists :: "bloom \<Rightarrow> 8 word list option \<Rightarrow> int \<Rightarrow> bool option" where
  "bloom_exists f key len =
     (case key of None \<Rightarrow> Some False | Some k \<Rightarrow> bloom_test_all (hash_seeds f) k len (bucket_size f) (bits f))"

definition bloom_inserted_lookup :: "bloom \<Rightarrow> 8 word list option \<Rightarrow> int \<Rightarrow> (bloom \<times> bool) option" where
  "bloom_inserted_lookup f key len = do { f \<leftarrow> bloom_insert f key len; b \<leftarrow> bloom_exists f key len; Some (f, b) }"

fun cbloom_add_all :: "32 word list \<Rightarrow> 8 word list \<Rightarrow> int \<Rightarrow> nat \<Rightarrow> nat \<Rightarrow> nat list \<Rightarrow> nat list option" where
  "cbloom_add_all [] key len m tmax buf = Some buf"
| "cbloom_add_all (s # ss) key len m tmax buf =
     do {
       i \<leftarrow> hash_index s key len m;
       c \<leftarrow> vget buf i;
       buf \<leftarrow> (if c \<noteq> tmax then vset buf i (c + 1) else Some buf);
       cbloom_add_all ss key len m tmax buf
     }"

definition cbloom_insert :: "cbloom \<Rightarrow> 8 word list option \<Rightarrow> int \<Rightarrow> cbloom option" where
  "cbloom_insert f key len =
     (case key of None \<Rightarrow> Some f
      | Some k \<Rightarrow> map_option (\<lambda>b. f\<lparr>counts := b\<rparr>)
          (cbloom_add_all (chash_seeds f) k len (cbucket_size f) (count_max f) (counts f)))"

fun cbloom_test_all :: "32 word list \<Rightarrow> 8 word list \<Rightarrow> int \<Rightarrow> nat \<Rightarrow> nat \<Rightarrow> nat list \<Rightarrow> bool option" where
  "cbloom_test_all [] key len m max_count buf = Some True"
| "cbloom_test_all (s # ss) key len m max_count buf =
     do {
       i \<leftarrow> hash_index s key len m;
       c \<leftarrow> vget buf i;
       if c < max_count then Some False else cbloom_test_all ss key len m max_count buf
     }"

definition cbloom_exists :: "cbloom \<Rightarrow> 8 word list option \<Rightarrow> int \<Rightarrow> nat \<Rightarrow> bool option" where
  "cbloom_exists f key len max_count =
     (if max_count = 0 then Some True
      else case key of None \<Rightarrow> Some False
        | Some k \<Rightarrow> cbloom_test_all (chash_seeds f) k len (cbucket_size f) max_count (counts f))"

definition cbloom_inserted_lookup :: "cbloom \<Rightarrow> 8 word list option \<Rightarrow> int \<Rightarrow> nat \<Rightarrow> (cbloom \<times> bool) option" where
  "cbloom_inserted_lookup f key len max_count =
     do { f \<leftarrow> cbloom_insert f key len; b \<leftarrow> cbloom_exists f key len max_count; Some (f, b) }"

section \<open>The plain filter\<close>

definition slot :: "nat \<Rightarrow> 8 word list \<Rightarrow> 32 word \<Rightarrow> nat" where
  "slot m key s = unat (snd (murmur_ref s key)) mod m"

lemma hash_index_slot: "0 < m \<Longrightarrow> hash_index s key (int (length key)) m = Some (slot m key s)"
  by (simp add: hash_index_def murmur_eq_ref slot_def)

lemma slot_less: "0 < m \<Longrightarrow> slot m key s < m"
  by (simp add: slot_def)

lemma set_all_ok:
  "0 < m \<Longrightarrow> length buf = m \<Longrightarrow>
     \<exists>buf'. bloom_set_all ss key (int (length key)) m buf = Some buf' \<and> length buf' = m \<and>
       (\<forall>j<m. buf' ! j = (buf ! j \<or> j \<in> slot m key ` set ss))"
proof (induction ss arbitrary: buf)
  case (Cons s ss)
  let ?b = "buf[slot m key s := True]"
  obtain buf' where b: "bloom_set_all ss key (int (length key)) m ?b = Some buf'" "length buf' = m"
    "\<forall>j<m. buf' ! j = (?b ! j \<or> j \<in> slot m key ` set ss)" using Cons.IH [of ?b] Cons.prems by auto
  have "buf' ! j = (buf ! j \<or> j \<in> slot m key ` set (s # ss))" if "j < m" for j
    using b(3) that Cons.prems(2) by (cases "j = slot m key s") auto
  then show ?case using b(1,2) hash_index_slot [OF Cons.prems(1)] slot_less [OF Cons.prems(1)] Cons.prems(2) by auto
qed simp

lemma test_all_ok:
  "0 < m \<Longrightarrow> length buf = m \<Longrightarrow>
     bloom_test_all ss key (int (length key)) m buf = Some (\<forall>s\<in>set ss. buf ! slot m key s)"
  by (induction ss) (auto simp: hash_index_slot slot_less)

fun bloom_insert_many :: "bloom \<Rightarrow> 8 word list list \<Rightarrow> bloom option" where
  "bloom_insert_many f [] = Some f"
| "bloom_insert_many f (k # ks) = Option.bind (bloom_insert f (Some k) (int (length k))) (\<lambda>f. bloom_insert_many f ks)"

lemma insert_many_ok:
  "0 < bucket_size f \<Longrightarrow> length (bits f) = bucket_size f \<Longrightarrow>
     \<exists>f'. bloom_insert_many f keys = Some f' \<and> bucket_size f' = bucket_size f \<and> hash_seeds f' = hash_seeds f \<and>
       length (bits f') = bucket_size f \<and>
       (\<forall>j<bucket_size f. bits f' ! j = (bits f ! j \<or> (\<exists>k\<in>set keys. j \<in> slot (bucket_size f) k ` set (hash_seeds f))))"
proof (induction keys arbitrary: f)
  case (Cons k ks)
  obtain b where b: "bloom_set_all (hash_seeds f) k (int (length k)) (bucket_size f) (bits f) = Some b"
    "length b = bucket_size f"
    "\<forall>j<bucket_size f. b ! j = (bits f ! j \<or> j \<in> slot (bucket_size f) k ` set (hash_seeds f))"
    using set_all_ok [OF Cons.prems] by blast
  then show ?case using Cons.IH [of "f\<lparr>bits := b\<rparr>"] Cons.prems(1) by (auto simp: bloom_insert_def)
qed simp

section \<open>The counting filter\<close>

lemma add_all_ok:
  "0 < m \<Longrightarrow> length buf = m \<Longrightarrow> \<forall>j<m. buf ! j \<le> tmax \<Longrightarrow>
     \<exists>buf'. cbloom_add_all ss key (int (length key)) m tmax buf = Some buf' \<and> length buf' = m \<and>
       (\<forall>j<m. buf' ! j \<le> tmax \<and> buf ! j \<le> buf' ! j) \<and> (\<forall>s\<in>set ss. min tmax (Suc (buf ! slot m key s)) \<le> buf' ! slot m key s)"
proof (induction ss arbitrary: buf)
  case (Cons s ss)
  let ?i = "slot m key s"
  let ?b = "if buf ! ?i \<noteq> tmax then buf[?i := buf ! ?i + 1] else buf"
  have i: "?i < m" using slot_less Cons.prems(1) .
  have le: "\<forall>j<m. ?b ! j \<le> tmax \<and> buf ! j \<le> ?b ! j"
    using Cons.prems(2,3) i by (auto simp: nth_list_update le_less_trans Suc_le_eq order.not_eq_order_implies_strict)
  have si: "min tmax (Suc (buf ! ?i)) \<le> ?b ! ?i" using Cons.prems(2) i by simp
  have "length ?b = m" using Cons.prems(2) by simp
  then obtain buf' where b: "cbloom_add_all ss key (int (length key)) m tmax ?b = Some buf'" "length buf' = m"
    "\<forall>j<m. buf' ! j \<le> tmax \<and> ?b ! j \<le> buf' ! j"
    "\<forall>s\<in>set ss. min tmax (Suc (?b ! slot m key s)) \<le> buf' ! slot m key s"
    using Cons.IH [of ?b] Cons.prems(1) le by blast
  have mono: "\<forall>j<m. buf' ! j \<le> tmax \<and> buf ! j \<le> buf' ! j" using b(3) le by (meson le_trans)
  have "min tmax (Suc (buf ! slot m key t)) \<le> buf' ! slot m key t" if "t \<in> set (s # ss)" for t
  proof (cases "t = s")
    case True
    then show ?thesis using si b(3) i by (meson le_trans)
  next
    case False
    have "buf ! slot m key t \<le> ?b ! slot m key t" using le slot_less [OF Cons.prems(1)] by blast
    then have "min tmax (Suc (buf ! slot m key t)) \<le> min tmax (Suc (?b ! slot m key t))" by simp
    then show ?thesis using b(4) that False by (meson le_trans set_ConsD)
  qed
  moreover have "cbloom_add_all (s # ss) key (int (length key)) m tmax buf = Some buf'"
    using b(1) hash_index_slot [OF Cons.prems(1)] i Cons.prems(2) by (cases "buf ! ?i = tmax") simp_all
  ultimately show ?case using b(2) mono by blast
qed simp

lemma ctest_all_ok:
  "0 < m \<Longrightarrow> length buf = m \<Longrightarrow>
     cbloom_test_all ss key (int (length key)) m c buf = Some (\<forall>s\<in>set ss. c \<le> buf ! slot m key s)"
  by (induction ss) (auto simp: hash_index_slot slot_less not_le)

fun cbloom_insert_many :: "cbloom \<Rightarrow> 8 word list list \<Rightarrow> cbloom option" where
  "cbloom_insert_many f [] = Some f"
| "cbloom_insert_many f (k # ks) = Option.bind (cbloom_insert f (Some k) (int (length k))) (\<lambda>f. cbloom_insert_many f ks)"

lemma cinsert_many_ok:
  "0 < cbucket_size f \<Longrightarrow> length (counts f) = cbucket_size f \<Longrightarrow> \<forall>j<cbucket_size f. counts f ! j \<le> count_max f \<Longrightarrow>
     \<exists>f'. cbloom_insert_many f keys = Some f' \<and> cbucket_size f' = cbucket_size f \<and> chash_seeds f' = chash_seeds f \<and>
       length (counts f') = cbucket_size f \<and> (\<forall>j<cbucket_size f. counts f' ! j \<le> count_max f) \<and>
       (\<forall>key. \<forall>s\<in>set (chash_seeds f).
          min (count_max f) (counts f ! slot (cbucket_size f) key s + count_list keys key) \<le> counts f' ! slot (cbucket_size f) key s)"
proof (induction keys arbitrary: f)
  case Nil
  then show ?case by simp
next
  case (Cons k ks)
  let ?m = "cbucket_size f" and ?ss = "chash_seeds f"
  obtain b where b: "cbloom_add_all ?ss k (int (length k)) ?m (count_max f) (counts f) = Some b" "length b = ?m"
    "\<forall>j<?m. b ! j \<le> count_max f \<and> counts f ! j \<le> b ! j"
    "\<forall>s\<in>set ?ss. min (count_max f) (Suc (counts f ! slot ?m k s)) \<le> b ! slot ?m k s"
    using add_all_ok [OF Cons.prems] by blast
  obtain f' where f': "cbloom_insert_many (f\<lparr>counts := b\<rparr>) ks = Some f'" "cbucket_size f' = ?m" "chash_seeds f' = ?ss"
    "length (counts f') = ?m" "\<forall>j<?m. counts f' ! j \<le> count_max f"
    "\<forall>key. \<forall>s\<in>set ?ss. min (count_max f) (b ! slot ?m key s + count_list ks key) \<le> counts f' ! slot ?m key s"
    using Cons.IH [of "f\<lparr>counts := b\<rparr>"] Cons.prems(1) b(2,3) by auto
  have "min (count_max f) (counts f ! slot ?m key s + count_list (k # ks) key) \<le> counts f' ! slot ?m key s"
    if s: "s \<in> set ?ss" for key s
  proof -
    have "counts f ! slot ?m key s \<le> b ! slot ?m key s" using b(3) slot_less [OF Cons.prems(1)] by blast
    moreover have "min (count_max f) (Suc (counts f ! slot ?m k s)) \<le> b ! slot ?m k s" using b(4) s by blast
    ultimately have "min (count_max f) (counts f ! slot ?m key s + count_list (k # ks) key) \<le>
        min (count_max f) (b ! slot ?m key s + count_list ks key)" by (cases "k = key") auto
    then show ?thesis using f'(6) s by (meson le_trans)
  qed
  then show ?case using b(1) f' by (auto simp: cbloom_insert_def)
qed

section \<open>No false negatives\<close>

lemma draw_seeds_card: "draw_seeds k S ds = Some T \<Longrightarrow> finite S \<Longrightarrow> finite T \<and> card T = k"
  by (induction k S ds rule: draw_seeds.induct) (auto split: if_splits)

lemma bloom_newD:
  assumes "bloom_new m k draws = Some f"
  shows "bucket_size f = m" "bits f = replicate m False" "length (hash_seeds f) = k" "distinct (hash_seeds f)"
  using assms draw_seeds_card [of k "{}" draws] by (auto simp: bloom_new_def)

lemma cbloom_newD:
  assumes "cbloom_new tmax m k draws = Some f"
  shows "cbucket_size f = m" "counts f = replicate m 0" "length (chash_seeds f) = k" "count_max f = tmax"
  using assms draw_seeds_card [of k "{}" draws] by (auto simp: cbloom_new_def)

text \<open>
  C30. A Bloom filter has no false negatives: after inserting any keys without leaving the bit array, \<open>Exists\<close> is
  true for each of them; a new filter with at least one hash function contains no key, and the seeds of its
  hash functions are pairwise different.
\<close>

theorem bloom_no_false_negatives:
  assumes "bloom_new m k draws = Some f" "0 < m"
  shows "distinct (hash_seeds f) \<and> length (hash_seeds f) = k \<and>
    bloom_exists f (Some key) (int (length key)) = Some (k = 0) \<and>
    (\<exists>f'. bloom_insert_many f keys = Some f' \<and>
       (\<forall>x\<in>set keys. bloom_exists f' (Some x) (int (length x)) = Some True))"
proof -
  note n = bloom_newD [OF assms(1)]
  have len: "0 < bucket_size f" "length (bits f) = bucket_size f" using n assms(2) by simp_all
  have "(\<forall>s\<in>set (hash_seeds f). bits f ! slot m key s) = (k = 0)"
    using n(2,3) slot_less [OF assms(2)] by (cases "hash_seeds f") auto
  then have "bloom_exists f (Some key) (int (length key)) = Some (k = 0)"
    using test_all_ok [OF len] n(1) by (simp add: bloom_exists_def)
  moreover obtain f' where f': "bloom_insert_many f keys = Some f'" "bucket_size f' = m" "hash_seeds f' = hash_seeds f"
    "length (bits f') = m" "\<forall>j<m. bits f' ! j = (bits f ! j \<or> (\<exists>k\<in>set keys. j \<in> slot m k ` set (hash_seeds f)))"
    using insert_many_ok [OF len, of keys] n(1) by auto
  moreover have "bloom_exists f' (Some x) (int (length x)) = Some True" if "x \<in> set keys" for x
    using test_all_ok [of m "bits f'"] f' that slot_less [OF assms(2)] assms(2) by (auto simp: bloom_exists_def)
  ultimately show ?thesis using n(3,4) by blast
qed

theorem bloom_no_false_negatives_witness:
  "\<exists>f f'. bloom_new 64 2 [7, 7, 3] = Some f \<and> bloom_insert_many f [[1], [2, 3]] = Some f' \<and>
    bloom_exists f' (Some [2, 3]) 2 = Some True"
proof -
  have "draw_seeds 2 {} [7, 7, 3] = Some {7, 3}" by (simp add: insert_commute)
  then obtain f where f: "bloom_new 64 2 [7, 7, 3] = Some f" by (simp add: bloom_new_def)
  from bloom_no_false_negatives [OF this, of "[]" "[[1], [2, 3]]"] show ?thesis using f by auto
qed

text \<open>
  C31. The counting filter never undercounts: after inserting any keys, \<open>Exists\<close> with a threshold that the number of
  insertions of a key reaches is true, as long as the threshold fits the counter type; a threshold above the
  largest counter value is never reached. Counters saturate and never wrap.
\<close>

theorem counting_bloom_counts:
  assumes "cbloom_new tmax m k draws = Some f" "0 < m" "0 < k"
  shows "\<exists>f'. cbloom_insert_many f keys = Some f' \<and> (\<forall>j<m. counts f' ! j \<le> tmax) \<and>
    (\<forall>x c. c \<le> count_list keys x \<and> c \<le> tmax \<longrightarrow> cbloom_exists f' (Some x) (int (length x)) c = Some True) \<and>
    (\<forall>x c. tmax < c \<longrightarrow> cbloom_exists f' (Some x) (int (length x)) c = Some False)"
proof -
  note n = cbloom_newD [OF assms(1)]
  have len: "0 < cbucket_size f" "length (counts f) = cbucket_size f" "\<forall>j<cbucket_size f. counts f ! j \<le> count_max f"
    using n assms(2) by simp_all
  obtain f' where f': "cbloom_insert_many f keys = Some f'" "cbucket_size f' = m" "chash_seeds f' = chash_seeds f"
    "length (counts f') = m" "\<forall>j<m. counts f' ! j \<le> tmax"
    "\<forall>key. \<forall>s\<in>set (chash_seeds f). min tmax (counts f ! slot m key s + count_list keys key) \<le> counts f' ! slot m key s"
    using cinsert_many_ok [OF len, of keys] n(1,4) by auto
  have ex: "cbloom_exists f' (Some x) (int (length x)) c = Some (c = 0 \<or> (\<forall>s\<in>set (chash_seeds f). c \<le> counts f' ! slot m x s))"
    for x c using ctest_all_ok [of m "counts f'"] f'(2-4) assms(2) by (auto simp: cbloom_exists_def)
  have "c \<le> counts f' ! slot m x s" if "c \<le> count_list keys x" "c \<le> tmax" "s \<in> set (chash_seeds f)" for x c s
  proof -
    have "c \<le> min tmax (counts f ! slot m x s + count_list keys x)" using that by simp
    then show ?thesis using f'(6) that(3) by (meson le_trans)
  qed
  then have "c \<le> count_list keys x \<and> c \<le> tmax \<longrightarrow> cbloom_exists f' (Some x) (int (length x)) c = Some True" for x c
    using ex by simp
  moreover have "chash_seeds f \<noteq> []" using n(3) assms(3) by auto
  then obtain s where s: "s \<in> set (chash_seeds f)" by (meson last_in_set)
  have top: "counts f' ! slot m x s \<le> tmax" for x using f'(5) slot_less [OF assms(2)] by blast
  have "tmax < c \<longrightarrow> cbloom_exists f' (Some x) (int (length x)) c = Some False" for x c
  proof
    assume c: "tmax < c"
    then have "\<not> c \<le> counts f' ! slot m x s" "c \<noteq> 0" using top [of x] by linarith+
    then show "cbloom_exists f' (Some x) (int (length x)) c = Some False" using ex [of x c] s by auto
  qed
  ultimately show ?thesis using f'(1,5) by blast
qed

theorem counting_bloom_counts_witness:
  "\<exists>f f'. cbloom_new 255 64 2 [7, 3] = Some f \<and> cbloom_insert_many f [[1], [2], [1]] = Some f' \<and>
    cbloom_exists f' (Some [1]) 1 2 = Some True \<and> cbloom_exists f' (Some [1]) 1 300 = Some False"
proof -
  have "draw_seeds 2 {} [7, 3] = Some {7, 3}" by (simp add: insert_commute)
  then obtain f where f: "cbloom_new 255 64 2 [7, 3] = Some f" by (simp add: cbloom_new_def)
  have pos: "0 < (64 :: nat)" "0 < (2 :: nat)" by simp_all
  obtain f' where f': "cbloom_insert_many f [[1], [2], [1]] = Some f'"
    "\<forall>x c. c \<le> count_list [[1], [2], [1]] x \<and> c \<le> 255 \<longrightarrow> cbloom_exists f' (Some x) (int (length x)) c = Some True"
    "\<forall>x c. 255 < c \<longrightarrow> cbloom_exists f' (Some x) (int (length x)) c = Some False"
    using counting_bloom_counts [OF f pos, of "[[1], [2], [1]]"] by blast
  have "cbloom_exists f' (Some [1]) 1 2 = Some True" using f'(2) [rule_format, of 2 "[1]"] by simp
  moreover have "cbloom_exists f' (Some [1]) 1 300 = Some False" using f'(3) [rule_format, of 300 "[1]"] by simp
  ultimately show ?thesis using f f'(1) by blast
qed

end
