(* ===== verification/Md5.thy ===== *)
theory Md5
  imports Prelude
begin

text \<open>
  MD5 of \<open>cpp/datastructure/hash/md5.cc\<close>. The source keeps its registers in \<open>unsigned long\<close>, which has 64
  bits on the machines the repository builds for, and lets the upper halves fill with carries;
  the model keeps them at that width. The fields \<open>ipad\<close> and \<open>opad\<close> belong to HMAC functions that the
  file declares and never defines. \<open>input\<close> is the list of the \<open>ilen\<close> bytes that the argument points to.

  The reference is RFC 1321 on 32-bit words, in its loop form. The theorem is that the incremental
  64-bit code computes it.
\<close>

unbundle bit_operations_syntax

type_synonym ulong = "64 word"

record md5_context =
  total0 :: ulong
  total1 :: ulong
  state :: "ulong \<times> ulong \<times> ulong \<times> ulong"
  buffer :: "8 word list"

subsection \<open>Little-endian access\<close>

definition GET_ULONG_LE :: "8 word list \<Rightarrow> nat \<Rightarrow> ulong" where
  "GET_ULONG_LE b i =
     ucast (b ! i) OR push_bit 8 (ucast (b ! (i + 1))) OR push_bit 16 (ucast (b ! (i + 2))) OR
     push_bit 24 (ucast (b ! (i + 3)))"

definition PUT_ULONG_LE :: "ulong \<Rightarrow> 8 word list" where
  "PUT_ULONG_LE n = [ucast n, ucast (drop_bit 8 n), ucast (drop_bit 16 n), ucast (drop_bit 24 n)]"

subsection \<open>The block function\<close>

definition md5_starts :: "md5_context \<Rightarrow> md5_context" where
  "md5_starts ctx = ctx\<lparr>total0 := 0, total1 := 0,
     state := (0x67452301, 0xEFCDAB89, 0x98BADCFE, 0x10325476)\<rparr>"

definition S :: "ulong \<Rightarrow> nat \<Rightarrow> ulong" where
  "S x n = (push_bit n x OR drop_bit (32 - n) (x AND 0xFFFFFFFF))"

text \<open>The four redefinitions of the macro \<open>F\<close>.\<close>

definition F1 :: "ulong \<Rightarrow> ulong \<Rightarrow> ulong \<Rightarrow> ulong" where
  "F1 x y z = z XOR (x AND (y XOR z))"

definition F2 :: "ulong \<Rightarrow> ulong \<Rightarrow> ulong \<Rightarrow> ulong" where
  "F2 x y z = y XOR (z AND (x XOR y))"

definition F3 :: "ulong \<Rightarrow> ulong \<Rightarrow> ulong \<Rightarrow> ulong" where
  "F3 x y z = x XOR y XOR z"

definition F4 :: "ulong \<Rightarrow> ulong \<Rightarrow> ulong \<Rightarrow> ulong" where
  "F4 x y z = y XOR (x OR NOT z)"

text \<open>The macro \<open>P(a, b, c, d, k, s, t)\<close>: the new value of \<open>a\<close>.\<close>

definition P :: "(ulong \<Rightarrow> ulong \<Rightarrow> ulong \<Rightarrow> ulong) \<Rightarrow> ulong list \<Rightarrow> ulong \<Rightarrow> ulong \<Rightarrow> ulong \<Rightarrow> ulong \<Rightarrow>
    nat \<times> nat \<times> ulong \<Rightarrow> ulong" where
  "P F X a b c d l = (case l of (k, s, t) \<Rightarrow> S (a + (F b c d + X ! k + t)) s + b)"

text \<open>
  The lines of a round come in fours, \<open>P(A,B,C,D,\<dots>); P(D,A,B,C,\<dots>); P(C,D,A,B,\<dots>); P(B,C,D,A,\<dots>)\<close>;
  a round is the list of the remaining arguments \<open>(k, s, t)\<close> of its sixteen lines.
\<close>

fun md5_round :: "(ulong \<Rightarrow> ulong \<Rightarrow> ulong \<Rightarrow> ulong) \<Rightarrow> ulong list \<Rightarrow> (nat \<times> nat \<times> ulong) list \<Rightarrow>
    ulong \<times> ulong \<times> ulong \<times> ulong \<Rightarrow> ulong \<times> ulong \<times> ulong \<times> ulong" where
  "md5_round F X (l1 # l2 # l3 # l4 # ls) (A, B, C, D) =
     (let A = P F X A B C D l1;
          D = P F X D A B C l2;
          C = P F X C D A B l3;
          B = P F X B C D A l4
      in md5_round F X ls (A, B, C, D))"
| "md5_round F X ls r = r"

definition round1 :: "(nat \<times> nat \<times> ulong) list" where
  "round1 = [
    (0, 7, 0xD76AA478), (1, 12, 0xE8C7B756), (2, 17, 0x242070DB), (3, 22, 0xC1BDCEEE),
    (4, 7, 0xF57C0FAF), (5, 12, 0x4787C62A), (6, 17, 0xA8304613), (7, 22, 0xFD469501),
    (8, 7, 0x698098D8), (9, 12, 0x8B44F7AF), (10, 17, 0xFFFF5BB1), (11, 22, 0x895CD7BE),
    (12, 7, 0x6B901122), (13, 12, 0xFD987193), (14, 17, 0xA679438E), (15, 22, 0x49B40821)]"

definition round2 :: "(nat \<times> nat \<times> ulong) list" where
  "round2 = [
    (1, 5, 0xF61E2562), (6, 9, 0xC040B340), (11, 14, 0x265E5A51), (0, 20, 0xE9B6C7AA),
    (5, 5, 0xD62F105D), (10, 9, 0x02441453), (15, 14, 0xD8A1E681), (4, 20, 0xE7D3FBC8),
    (9, 5, 0x21E1CDE6), (14, 9, 0xC33707D6), (3, 14, 0xF4D50D87), (8, 20, 0x455A14ED),
    (13, 5, 0xA9E3E905), (2, 9, 0xFCEFA3F8), (7, 14, 0x676F02D9), (12, 20, 0x8D2A4C8A)]"

definition round3 :: "(nat \<times> nat \<times> ulong) list" where
  "round3 = [
    (5, 4, 0xFFFA3942), (8, 11, 0x8771F681), (11, 16, 0x6D9D6122), (14, 23, 0xFDE5380C),
    (1, 4, 0xA4BEEA44), (4, 11, 0x4BDECFA9), (7, 16, 0xF6BB4B60), (10, 23, 0xBEBFBC70),
    (13, 4, 0x289B7EC6), (0, 11, 0xEAA127FA), (3, 16, 0xD4EF3085), (6, 23, 0x04881D05),
    (9, 4, 0xD9D4D039), (12, 11, 0xE6DB99E5), (15, 16, 0x1FA27CF8), (2, 23, 0xC4AC5665)]"

definition round4 :: "(nat \<times> nat \<times> ulong) list" where
  "round4 = [
    (0, 6, 0xF4292244), (7, 10, 0x432AFF97), (14, 15, 0xAB9423A7), (5, 21, 0xFC93A039),
    (12, 6, 0x655B59C3), (3, 10, 0x8F0CCC92), (10, 15, 0xFFEFF47D), (1, 21, 0x85845DD1),
    (8, 6, 0x6FA87E4F), (15, 10, 0xFE2CE6E0), (6, 15, 0xA3014314), (13, 21, 0x4E0811A1),
    (4, 6, 0xF7537E82), (11, 10, 0xBD3AF235), (2, 15, 0x2AD7D2BB), (9, 21, 0xEB86D391)]"

definition md5_process :: "md5_context \<Rightarrow> 8 word list \<Rightarrow> md5_context" where
  "md5_process ctx data =
     (let X = map (\<lambda>i. GET_ULONG_LE data (4 * i)) [0..<16];
          r = md5_round F1 X round1 (state ctx);
          r = md5_round F2 X round2 r;
          r = md5_round F3 X round3 r;
          r = md5_round F4 X round4 r
      in case (state ctx, r) of ((s0, s1, s2, s3), (A, B, C, D)) \<Rightarrow>
           ctx\<lparr>state := (s0 + A, s1 + B, s2 + C, s3 + D)\<rparr>)"

subsection \<open>Incremental hashing\<close>

function md5_blocks :: "md5_context \<Rightarrow> 8 word list \<Rightarrow> md5_context \<times> 8 word list" where
  "md5_blocks ctx input =
     (if length input \<ge> 64 then md5_blocks (md5_process ctx (take 64 input)) (drop 64 input) else (ctx, input))"
  by auto
termination by (relation "measure (\<lambda>(ctx, input). length input)") auto

definition md5_count :: "md5_context \<Rightarrow> nat \<Rightarrow> md5_context" where
  "md5_count ctx ilen =
     (let t = (total0 ctx + of_nat ilen) AND 0xFFFFFFFF
      in ctx\<lparr>total0 := t, total1 := (if t < of_nat ilen then total1 ctx + 1 else total1 ctx)\<rparr>)"

definition md5_update :: "md5_context \<Rightarrow> 8 word list \<Rightarrow> md5_context" where
  "md5_update ctx input =
     (if length input = 0 then ctx
      else
        let left = unat (total0 ctx AND 0x3F);
            fill = 64 - left;
            ctx = md5_count ctx (length input);
            (ctx, input, left) =
              (if left \<noteq> 0 \<and> length input \<ge> fill then
                 let buf = take left (buffer ctx) @ take fill input
                 in (md5_process (ctx\<lparr>buffer := buf\<rparr>) buf, drop fill input, 0)
               else (ctx, input, left));
            (ctx, input) = md5_blocks ctx input
        in if length input > 0 then
             ctx\<lparr>buffer := take left (buffer ctx) @ input @ drop (left + length input) (buffer ctx)\<rparr>
           else ctx)"

definition md5_padding :: "8 word list" where
  "md5_padding = 0x80 # replicate 63 0"

definition md5_finish :: "md5_context \<Rightarrow> 8 word list" where
  "md5_finish ctx =
     (let high = drop_bit 29 (total0 ctx) OR push_bit 3 (total1 ctx);
          low = push_bit 3 (total0 ctx);
          msglen = PUT_ULONG_LE low @ PUT_ULONG_LE high;
          last = unat (total0 ctx AND 0x3F);
          padn = (if last < 56 then 56 - last else 120 - last);
          ctx = md5_update ctx (take padn md5_padding);
          ctx = md5_update ctx msglen
      in case state ctx of (s0, s1, s2, s3) \<Rightarrow>
           PUT_ULONG_LE s0 @ PUT_ULONG_LE s1 @ PUT_ULONG_LE s2 @ PUT_ULONG_LE s3)"

datatype md5_type = md5_32 | md5_128

text \<open>The call operator; \<open>ctx\<close> is the uninitialised local context.\<close>

definition md5 :: "md5_context \<Rightarrow> 8 word list \<Rightarrow> md5_type \<Rightarrow> 8 word list" where
  "md5 ctx input ty =
     (let ctx = md5_starts ctx;
          ctx = md5_update ctx input;
          output = md5_finish ctx
      in if ty = md5_32 then take 4 output else output)"

lemma md5_test_vector:
  "md5 \<lparr>total0 = 0, total1 = 0, state = (0, 0, 0, 0), buffer = replicate 64 0\<rparr> [] md5_128 =
     [0xd4, 0x1d, 0x8c, 0xd9, 0x8f, 0x00, 0xb2, 0x04, 0xe9, 0x80, 0x09, 0x98, 0xec, 0xf8, 0x42, 0x7e]"
  by code_simp

subsection \<open>The reference: RFC 1321\<close>

type_synonym regs32 = "32 word \<times> 32 word \<times> 32 word \<times> 32 word"

definition rfc_K :: "32 word list" where
  "rfc_K = [
    0xD76AA478, 0xE8C7B756, 0x242070DB, 0xC1BDCEEE, 0xF57C0FAF, 0x4787C62A, 0xA8304613, 0xFD469501,
    0x698098D8, 0x8B44F7AF, 0xFFFF5BB1, 0x895CD7BE, 0x6B901122, 0xFD987193, 0xA679438E, 0x49B40821,
    0xF61E2562, 0xC040B340, 0x265E5A51, 0xE9B6C7AA, 0xD62F105D, 0x02441453, 0xD8A1E681, 0xE7D3FBC8,
    0x21E1CDE6, 0xC33707D6, 0xF4D50D87, 0x455A14ED, 0xA9E3E905, 0xFCEFA3F8, 0x676F02D9, 0x8D2A4C8A,
    0xFFFA3942, 0x8771F681, 0x6D9D6122, 0xFDE5380C, 0xA4BEEA44, 0x4BDECFA9, 0xF6BB4B60, 0xBEBFBC70,
    0x289B7EC6, 0xEAA127FA, 0xD4EF3085, 0x04881D05, 0xD9D4D039, 0xE6DB99E5, 0x1FA27CF8, 0xC4AC5665,
    0xF4292244, 0x432AFF97, 0xAB9423A7, 0xFC93A039, 0x655B59C3, 0x8F0CCC92, 0xFFEFF47D, 0x85845DD1,
    0x6FA87E4F, 0xFE2CE6E0, 0xA3014314, 0x4E0811A1, 0xF7537E82, 0xBD3AF235, 0x2AD7D2BB, 0xEB86D391]"

text \<open>The auxiliary functions F, G, H, I, the message word and the rotation of step \<open>i\<close>.\<close>

definition rfc_f :: "nat \<Rightarrow> 32 word \<Rightarrow> 32 word \<Rightarrow> 32 word \<Rightarrow> 32 word" where
  "rfc_f i x y z =
     (if i < 16 then (x AND y) OR (NOT x AND z)
      else if i < 32 then (x AND z) OR (y AND NOT z)
      else if i < 48 then x XOR y XOR z
      else y XOR (x OR NOT z))"

definition rfc_g :: "nat \<Rightarrow> nat" where
  "rfc_g i =
     (if i < 16 then i
      else if i < 32 then (5 * i + 1) mod 16
      else if i < 48 then (3 * i + 5) mod 16
      else (7 * i) mod 16)"

definition rfc_s :: "nat \<Rightarrow> nat" where
  "rfc_s i = [[7, 12, 17, 22], [5, 9, 14, 20], [4, 11, 16, 23], [6, 10, 15, 21]] ! (i div 16) ! (i mod 4)"

definition step32 :: "(32 word \<Rightarrow> 32 word \<Rightarrow> 32 word \<Rightarrow> 32 word) \<Rightarrow> 32 word list \<Rightarrow> regs32 \<Rightarrow>
    nat \<times> nat \<times> 32 word \<Rightarrow> regs32" where
  "step32 f M r l =
     (case (r, l) of ((a, b, c, d), (k, s, t)) \<Rightarrow> (d, b + word_rotl s (a + f b c d + M ! k + t), b, c))"

definition rfc_step :: "32 word list \<Rightarrow> regs32 \<Rightarrow> nat \<Rightarrow> regs32" where
  "rfc_step M r i = step32 (rfc_f i) M r (rfc_g i, rfc_s i, rfc_K ! i)"

definition le32 :: "8 word list \<Rightarrow> 32 word" where
  "le32 b = ucast (b ! 0) OR push_bit 8 (ucast (b ! 1)) OR push_bit 16 (ucast (b ! 2)) OR push_bit 24 (ucast (b ! 3))"

definition add32 :: "regs32 \<Rightarrow> regs32 \<Rightarrow> regs32" where
  "add32 r q = (case (r, q) of ((a, b, c, d), (a', b', c', d')) \<Rightarrow> (a + a', b + b', c + c', d + d'))"

definition rfc_compress :: "regs32 \<Rightarrow> 8 word list \<Rightarrow> regs32" where
  "rfc_compress h blk =
     (let M = map (\<lambda>i. le32 (drop (4 * i) blk)) [0..<16] in add32 h (foldl (rfc_step M) h [0..<64]))"

function rfc_blocks :: "regs32 \<Rightarrow> 8 word list \<Rightarrow> regs32" where
  "rfc_blocks h m = (if length m < 64 then h else rfc_blocks (rfc_compress h (take 64 m)) (drop 64 m))"
  by auto
termination by (relation "measure (\<lambda>(h, m). length m)") auto

declare rfc_blocks.simps [simp del] md5_blocks.simps [simp del]

definition rfc_iv :: regs32 where
  "rfc_iv = (0x67452301, 0xEFCDAB89, 0x98BADCFE, 0x10325476)"

definition put32 :: "32 word \<Rightarrow> 8 word list" where
  "put32 w = map (\<lambda>i. ucast (drop_bit (8 * i) w)) [0..<4]"

definition put64 :: "64 word \<Rightarrow> 8 word list" where
  "put64 w = map (\<lambda>i. ucast (drop_bit (8 * i) w)) [0..<8]"

text \<open>A one bit, zeros up to a length of 56 modulo 64, and the length in bits.\<close>

definition rfc_pad :: "8 word list \<Rightarrow> 8 word list" where
  "rfc_pad m = m @ [0x80] @ replicate ((55 + 64 - length m mod 64) mod 64) 0 @ put64 (of_nat (8 * length m))"

definition rfc_md5 :: "8 word list \<Rightarrow> 8 word list" where
  "rfc_md5 m =
     (case rfc_blocks rfc_iv (rfc_pad m) of (a, b, c, d) \<Rightarrow> put32 a @ put32 b @ put32 c @ put32 d)"

subsection \<open>64-bit registers against 32-bit registers\<close>

abbreviation low :: "ulong \<Rightarrow> 32 word" where
  "low x \<equiv> ucast x"

definition lows :: "ulong \<times> ulong \<times> ulong \<times> ulong \<Rightarrow> regs32" where
  "lows r = (case r of (a, b, c, d) \<Rightarrow> (low a, low b, low c, low d))"

lemma low_add [simp]: "low (x + y) = low x + low y"
proof -
  have "unat (low (x + y)) = unat (low x + low y)"
    by (simp add: unsigned_ucast_eq unat_word_ariths take_bit_eq_mod mod_mod_cancel mod_add_eq)
  then show ?thesis by (rule unsigned_word_eqI)
qed

lemma low_xor [simp]: "low (x XOR y) = low x XOR low y"
  and low_and [simp]: "low (x AND y) = low x AND low y"
  and low_or [simp]: "low (x OR y) = low x OR low y"
  and low_not [simp]: "low (NOT x) = NOT (low x)"
  by (auto intro!: bit_word_eqI simp: bit_ucast_iff bit_xor_iff bit_and_iff bit_or_iff bit_not_iff)

lemma low_S:
  assumes "0 < n" "n < 32"
  shows "low (S x n) = word_rotl n (low x)"
proof (rule bit_word_eqI)
  fix i assume i: "i < LENGTH(32)"
  have mask: "x AND 0xFFFFFFFF = take_bit 32 x" by (simp add: take_bit_eq_mask mask_eq_exp_minus_1)
  show "bit (low (S x n)) i = bit (word_rotl n (low x)) i"
  proof (cases "n \<le> i")
    case True
    then have "(i + 32 - n) mod 32 = i - n" using i assms by (simp add: mod_if)
    moreover have "\<not> 32 + i - n < 32" "i - n < 32" using True i by auto
    ultimately show ?thesis
      using True i assms
      by (simp add: S_def mask bit_ucast_iff bit_or_iff bit_push_bit_iff bit_drop_bit_eq bit_take_bit_iff bit_word_rotl_iff)
  next
    case False
    then have "(i + 32 - n) mod 32 = 32 - n + i" using i assms by simp
    then show ?thesis
      using False i assms
      by (simp add: S_def mask bit_ucast_iff bit_or_iff bit_push_bit_iff bit_drop_bit_eq bit_take_bit_iff bit_word_rotl_iff)
  qed
qed

text \<open>A line is a step of the reference, whose registers are renamed.\<close>

definition low_line :: "nat \<times> nat \<times> ulong \<Rightarrow> nat \<times> nat \<times> 32 word" where
  "low_line l = (case l of (k, s, t) \<Rightarrow> (k, s, low t))"

definition line_ok :: "nat \<times> nat \<times> ulong \<Rightarrow> bool" where
  "line_ok l = (case l of (k, s, t) \<Rightarrow> k < 16 \<and> 0 < s \<and> s < 32)"

lemma step32_low:
  assumes f: "\<And>x y z. f (low x) (low y) (low z) = low (F x y z)" and "line_ok l" "length X = 16"
  shows "step32 f (map low X) (low a, low b, low c, low d) (low_line l) = (low d, low (P F X a b c d l), low b, low c)"
  using assms(2,3) by (cases l) (simp add: step32_def low_line_def line_ok_def P_def low_S f ac_simps)

lemma md5_round_low:
  assumes "\<And>x y z. f (low x) (low y) (low z) = low (F x y z)" "length X = 16"
  shows "4 dvd length ls \<Longrightarrow> \<forall>l \<in> set ls. line_ok l \<Longrightarrow>
    lows (md5_round F X ls r) = foldl (step32 f (map low X)) (lows r) (map low_line ls)"
  using assms
proof (induction F X ls r rule: md5_round.induct)
  case (1 F X l1 l2 l3 l4 ls A B C D)
  have ok: "line_ok l1" "line_ok l2" "line_ok l3" "line_ok l4" "\<forall>l \<in> set ls. line_ok l" "4 dvd length ls"
    using "1.prems" by (auto simp: dvd_def) presburger
  show ?case
    using "1.IH" [OF refl refl refl refl ok(6,5) "1.prems"(3,4)] ok
    by (simp add: Let_def lows_def step32_low [where f = f and F = F, OF "1.prems"(3)] "1.prems"(4))
qed (simp_all add: dvd_eq_mod_eq_0)

subsection \<open>A block\<close>

lemmas F_defs = F1_def F2_def F3_def F4_def

lemma rfc_f_low:
  "i < 16 \<Longrightarrow> rfc_f i (low x) (low y) (low z) = low (F1 x y z)"
  "16 \<le> i \<Longrightarrow> i < 32 \<Longrightarrow> rfc_f i (low x) (low y) (low z) = low (F2 x y z)"
  "32 \<le> i \<Longrightarrow> i < 48 \<Longrightarrow> rfc_f i (low x) (low y) (low z) = low (F3 x y z)"
  "48 \<le> i \<Longrightarrow> rfc_f i (low x) (low y) (low z) = low (F4 x y z)"
  by (auto simp: rfc_f_def F_defs bit_and_iff bit_or_iff bit_xor_iff bit_not_iff intro!: bit_word_eqI)

lemma foldl_rfc_step:
  assumes "\<And>i. i \<in> set is \<Longrightarrow> rfc_f i = f"
  shows "foldl (rfc_step M) r is = foldl (step32 f M) r (map (\<lambda>i. (rfc_g i, rfc_s i, rfc_K ! i)) is)"
  using assms by (induction "is" arbitrary: r) (auto simp: rfc_step_def)

lemma round_tables:
  "map low_line round1 = map (\<lambda>i. (rfc_g i, rfc_s i, rfc_K ! i)) [0..<16]"
  "map low_line round2 = map (\<lambda>i. (rfc_g i, rfc_s i, rfc_K ! i)) [16..<32]"
  "map low_line round3 = map (\<lambda>i. (rfc_g i, rfc_s i, rfc_K ! i)) [32..<48]"
  "map low_line round4 = map (\<lambda>i. (rfc_g i, rfc_s i, rfc_K ! i)) [48..<64]"
  by code_simp+

lemma round_lines:
  "4 dvd length round1 \<and> list_all line_ok round1" "4 dvd length round2 \<and> list_all line_ok round2"
  "4 dvd length round3 \<and> list_all line_ok round3" "4 dvd length round4 \<and> list_all line_ok round4"
  by code_simp+

lemma rfc_f_range:
  "i \<in> set [0..<16] \<Longrightarrow> rfc_f i = rfc_f 0" "i \<in> set [16..<32] \<Longrightarrow> rfc_f i = rfc_f 16"
  "i \<in> set [32..<48] \<Longrightarrow> rfc_f i = rfc_f 32" "i \<in> set [48..<64] \<Longrightarrow> rfc_f i = rfc_f 48"
  by (auto simp: rfc_f_def fun_eq_iff)

lemma md5_round_rfc:
  assumes "\<And>i. i \<in> set is \<Longrightarrow> rfc_f i = f" "\<And>x y z. f (low x) (low y) (low z) = low (F x y z)"
    and "4 dvd length ls \<and> list_all line_ok ls" "map low_line ls = map (\<lambda>i. (rfc_g i, rfc_s i, rfc_K ! i)) is"
    and "length X = 16"
  shows "lows (md5_round F X ls r) = foldl (rfc_step (map low X)) (lows r) is"
proof -
  have "lows (md5_round F X ls r) = foldl (step32 f (map low X)) (lows r) (map low_line ls)"
    using assms(3) by (intro md5_round_low assms(2,5)) (auto simp: list_all_iff)
  then show ?thesis using foldl_rfc_step [of "is" f, OF assms(1)] by (simp only: assms(4))
qed

lemma md5_rounds_low:
  assumes "length X = 16"
  shows "lows (md5_round F4 X round4 (md5_round F3 X round3 (md5_round F2 X round2 (md5_round F1 X round1 r)))) =
    foldl (rfc_step (map low X)) (lows r) [0..<64]"
proof -
  have split: "[0..<64] = [0..<16] @ [16..<32] @ [32..<48] @ [48..<64]" by (simp add: upt_rec)
  show ?thesis
    unfolding split
    by (simp only: foldl_append
      md5_round_rfc [OF rfc_f_range(1) rfc_f_low(1) round_lines(1) round_tables(1) assms]
      md5_round_rfc [OF rfc_f_range(2) rfc_f_low(2) round_lines(2) round_tables(2) assms]
      md5_round_rfc [OF rfc_f_range(3) rfc_f_low(3) round_lines(3) round_tables(3) assms]
      md5_round_rfc [OF rfc_f_range(4) rfc_f_low(4) round_lines(4) round_tables(4) assms]
      zero_less_numeral order_refl numeral_less_iff rel_simps)
qed

lemma low_GET: "low (GET_ULONG_LE data i) = le32 (drop i data)" if "i + 4 \<le> length data"
proof -
  have byte: "low (push_bit n (ucast (b :: 8 word))) = push_bit n (ucast b)" for n b
    by (rule bit_word_eqI) (auto simp: bit_ucast_iff bit_push_bit_iff)
  have "low (ucast (b :: 8 word)) = ucast b" for b
    by (rule bit_word_eqI) (auto simp: bit_ucast_iff)
  then show ?thesis using that by (simp add: GET_ULONG_LE_def le32_def byte)
qed

lemma md5_process_low:
  assumes "length data = 64"
  shows "lows (state (md5_process ctx data)) = rfc_compress (lows (state ctx)) data"
proof -
  define X where "X = map (\<lambda>i. GET_ULONG_LE data (4 * i)) [0..<16]"
  have X: "length X = 16" "map low X = map (\<lambda>i. le32 (drop (4 * i) data)) [0..<16]"
    using assms by (auto simp: X_def low_GET)
  define r where "r = md5_round F4 X round4 (md5_round F3 X round3 (md5_round F2 X round2 (md5_round F1 X round1 (state ctx))))"
  have "lows (state (md5_process ctx data)) = add32 (lows (state ctx)) (lows r)"
    by (simp add: md5_process_def X_def [symmetric] r_def [symmetric] Let_def add32_def lows_def split: prod.split)
  also have "lows r = foldl (rfc_step (map low X)) (lows (state ctx)) [0..<64]"
    unfolding r_def by (rule md5_rounds_low) (rule X)
  finally show ?thesis by (simp add: rfc_compress_def X(2) Let_def)
qed

lemma md5_process_fields [simp]:
  "total0 (md5_process ctx data) = total0 ctx" "total1 (md5_process ctx data) = total1 ctx"
  "buffer (md5_process ctx data) = buffer ctx"
  by (simp_all add: md5_process_def Let_def split: prod.split)

subsection \<open>The context represents the bytes hashed so far\<close>

definition rest64 :: "8 word list \<Rightarrow> 8 word list" where
  "rest64 m = drop (64 * (length m div 64)) m"

definition md5_repr :: "md5_context \<Rightarrow> 8 word list \<Rightarrow> bool" where
  "md5_repr ctx m \<longleftrightarrow>
     total0 ctx = of_nat (length m mod 2 ^ 32) \<and> total1 ctx = of_nat (length m div 2 ^ 32) \<and>
     lows (state ctx) = rfc_blocks rfc_iv m \<and> length (buffer ctx) = 64 \<and>
     take (length m mod 64) (buffer ctx) = rest64 m"

lemma length_rest64 [simp]: "length (rest64 m) = length m mod 64"
  by (simp add: rest64_def minus_mult_div_eq_mod)

lemma rest64_short: "length m < 64 \<Longrightarrow> rest64 m = m"
  by (simp add: rest64_def)

lemma rest64_block: "length a = 64 \<Longrightarrow> rest64 (a @ b) = rest64 b"
  using div_add_self1 [of 64 "length b"] by (simp add: rest64_def del: div_add_self1)

lemma rest64_append: "rest64 (a @ b) = rest64 (rest64 a @ b)"
proof -
  define k where "k = length a div 64"
  have "length (take (64 * k) a) = 64 * k" by (simp add: k_def)
  then have "rest64 (take (64 * k) a @ c) = rest64 c" for c
    by (simp add: rest64_def div_mult_self4 distrib_left)
  then have "rest64 ((take (64 * k) a @ rest64 a) @ b) = rest64 (rest64 a @ b)" by simp
  then show ?thesis by (simp add: rest64_def [of a] k_def)
qed

lemma rfc_blocks_append: "rfc_blocks h (a @ b) = rfc_blocks (rfc_blocks h a) (rest64 a @ b)"
proof (induction h a rule: rfc_blocks.induct)
  case (1 h m)
  show ?case
  proof (cases "length m < 64")
    case True
    then show ?thesis by (simp add: rest64_short rfc_blocks.simps [of h m])
  next
    case False
    then have "rest64 m = rest64 (drop 64 m)" using rest64_block [of "take 64 m" "drop 64 m"] by simp
    then show ?thesis
      using 1 False by (simp add: rfc_blocks.simps [of h m] rfc_blocks.simps [of h "m @ b"])
  qed
qed

lemma rfc_blocks_short: "length m < 64 \<Longrightarrow> rfc_blocks h m = h"
  by (simp add: rfc_blocks.simps)

lemma rfc_blocks_block: "length a = 64 \<Longrightarrow> rfc_blocks h (a @ b) = rfc_blocks (rfc_compress h a) b"
  by (simp add: rfc_blocks.simps [of h "a @ b"])

lemma md5_blocks_ok:
  "md5_blocks ctx input = (ctx', rest) \<Longrightarrow>
     rest = rest64 input \<and> lows (state ctx') = rfc_blocks (lows (state ctx)) input \<and>
     total0 ctx' = total0 ctx \<and> total1 ctx' = total1 ctx \<and> buffer ctx' = buffer ctx"
proof (induction ctx input rule: md5_blocks.induct)
  case (1 ctx input)
  show ?case
  proof (cases "length input < 64")
    case True
    then show ?thesis using "1.prems" by (auto simp: md5_blocks.simps rest64_short rfc_blocks_short)
  next
    case False
    then have "md5_blocks (md5_process ctx (take 64 input)) (drop 64 input) = (ctx', rest)"
      using "1.prems" by (simp add: md5_blocks.simps [of ctx])
    then show ?thesis
      using "1.IH" False rest64_block [of "take 64 input" "drop 64 input"]
        rfc_blocks_block [of "take 64 input" "lows (state ctx)" "drop 64 input"]
      by (simp add: md5_process_low)
  qed
qed

subsection \<open>The byte count\<close>

lemma of_nat_mask32: "(of_nat k :: ulong) AND 0xFFFFFFFF = of_nat (k mod 2 ^ 32)"
proof -
  have "(of_nat k :: ulong) AND 0xFFFFFFFF = take_bit 32 (of_nat k)"
    by (simp add: take_bit_eq_mask mask_eq_exp_minus_1)
  then show ?thesis by (simp only: take_bit_of_nat take_bit_nat_def)
qed

text \<open>A sum wrapped exactly when it is less than a summand, as the source tests.\<close>

lemma wrapped_sum:
  fixes n M L :: nat
  assumes "n < M"
  shows "(L + n) div M = (if (L + n) mod M < n then Suc (L div M) else L div M)"
proof -
  define q r where "q = L div M" and "r = L mod M"
  have L: "L = r + q * M" "r < M" using assms by (auto simp: q_def r_def)
  show ?thesis
  proof (cases "r + n < M")
    case True
    have sum: "L + n = (r + n) + q * M" using L(1) by simp
    have "(L + n) div M = q" "(L + n) mod M = r + n" unfolding sum using True by simp_all
    then show ?thesis by (simp add: q_def [symmetric])
  next
    case False
    then have "L + n = (r + n - M) + Suc q * M" "r + n - M < M" using L assms by auto
    then have "(L + n) div M = Suc q" "(L + n) mod M = r + n - M"
      using assms by (simp_all del: mult_Suc)
    moreover have "r + n - M < n" using False L(2) assms by linarith
    ultimately show ?thesis by (simp add: q_def [symmetric])
  qed
qed

lemma md5_count_ok:
  assumes "total0 ctx = of_nat (L mod 2 ^ 32)" "total1 ctx = of_nat (L div 2 ^ 32)" "n < 2 ^ 32"
  shows "total0 (md5_count ctx n) = of_nat ((L + n) mod 2 ^ 32)"
    "total1 (md5_count ctx n) = of_nat ((L + n) div 2 ^ 32)"
proof -
  define M :: nat where "M = 2 ^ 32"
  have M: "2 ^ 32 = M" by (simp add: M_def)
  have t: "(total0 ctx + of_nat n) AND 0xFFFFFFFF = of_nat ((L + n) mod M)"
    using assms(1) of_nat_mask32 [of "L mod M + n"] by (simp add: M_def mod_add_left_eq)
  then show "total0 (md5_count ctx n) = of_nat ((L + n) mod 2 ^ 32)"
    by (simp add: md5_count_def Let_def M_def)
  have small: "unat (of_nat k :: ulong) = k" if "k < M" for k
    using that by (simp add: unsigned_of_nat M_def take_bit_eq_mod)
  have "(of_nat ((L + n) mod M) :: ulong) < of_nat n \<longleftrightarrow> (L + n) mod M < n"
    using assms(3) small [of "(L + n) mod M"] small [of n] by (simp add: word_less_nat_alt M_def)
  moreover have "(L + n) div M = (if (L + n) mod M < n then Suc (L div M) else L div M)"
    by (rule wrapped_sum) (use assms(3) in \<open>simp add: M_def\<close>)
  ultimately show "total1 (md5_count ctx n) = of_nat ((L + n) div 2 ^ 32)"
    using assms(2) by (auto simp: md5_count_def Let_def t add.commute simp del: power_numeral simp add: M)
qed

lemma md5_count_fields [simp]: "state (md5_count ctx n) = state ctx" "buffer (md5_count ctx n) = buffer ctx"
  by (simp_all add: md5_count_def Let_def)

subsection \<open>Every operation keeps the representation\<close>

lemma md5_starts_repr: "length (buffer ctx) = 64 \<Longrightarrow> md5_repr (md5_starts ctx) []"
  by (simp add: md5_repr_def md5_starts_def rest64_def rfc_blocks_short lows_def rfc_iv_def)

lemma total_left:
  assumes "total0 ctx = of_nat (L mod 2 ^ 32)"
  shows "unat (total0 ctx AND 0x3F) = L mod 64"
proof -
  have "total0 ctx AND 0x3F = take_bit 6 (total0 ctx)"
    by (simp add: take_bit_eq_mask mask_eq_exp_minus_1)
  also have "\<dots> = of_nat (L mod 64)"
    unfolding assms take_bit_of_nat by (simp add: take_bit_nat_def mod_mod_cancel)
  finally show ?thesis by (simp add: unsigned_of_nat take_bit_eq_mod)
qed

text \<open>The buffer after the trailing copy of an update.\<close>

lemma trailing_copy:
  assumes "length buf = 64" "left + length input \<le> 64" "buf' =
    (if length input > 0 then take left buf @ input @ drop (left + length input) buf else buf)"
  shows "length buf' = 64" "take (left + length input) buf' = take left buf @ input"
  using assms by auto

lemma md5_update_repr:
  assumes r: "md5_repr ctx m" and small: "length input < 2 ^ 32"
  shows "md5_repr (md5_update ctx input) (m @ input)"
proof (cases "input = []")
  case False
  define left where "left = length m mod 64"
  have lefteq: "unat (total0 ctx AND 0x3F) = left"
    using r unfolding md5_repr_def left_def by (blast intro: total_left)
  define c1 where "c1 = md5_count ctx (length input)"
  have c1: "total0 c1 = of_nat (length (m @ input) mod 2 ^ 32)" "total1 c1 = of_nat (length (m @ input) div 2 ^ 32)"
    using r small md5_count_ok [of ctx "length m" "length input"] unfolding md5_repr_def c1_def by simp_all
  have buf: "length (buffer c1) = 64" "take left (buffer c1) = rest64 m" "lows (state c1) = rfc_blocks rfc_iv m"
    using r by (simp_all add: c1_def md5_repr_def left_def)
  define full where "full \<longleftrightarrow> 0 < left \<and> length input \<ge> 64 - left"
  define buf1 where "buf1 = take left (buffer c1) @ take (64 - left) input"
  define c2 where "c2 = (if full then md5_process (c1\<lparr>buffer := buf1\<rparr>) buf1 else c1)"
  define in2 where "in2 = (if full then drop (64 - left) input else input)"
  define left2 where "left2 = (if full then 0 else left)"
  obtain c3 in3 where c3: "md5_blocks c2 in2 = (c3, in3)" by (cases "md5_blocks c2 in2")
  note c3_ok = md5_blocks_ok [OF c3]
  have upd: "md5_update ctx input = c3\<lparr>buffer := (if length in3 > 0 then
      take left2 (buffer c3) @ in3 @ drop (left2 + length in3) (buffer c3) else buffer c3)\<rparr>"
    using False c3 by (cases full) (simp_all add: md5_update_def lefteq Let_def c1_def [symmetric] full_def [symmetric]
        buf1_def [symmetric] c2_def in2_def left2_def)
  have left64: "left < 64" by (simp add: left_def)
  have len1: "length buf1 = 64" if full
    using that buf(1) left64 by (simp add: buf1_def full_def)
  have join: "rest64 m @ input = (if full then buf1 @ in2 else rest64 m @ in2)"
    by (simp add: buf1_def in2_def buf(2))
  have empty: "rest64 m = []" if "left = 0" using that by (simp add: left_def flip: length_0_conv)
  have short: "length in2 + left < 64" if "\<not> full" "left \<noteq> 0"
    using that left64 by (auto simp: full_def in2_def)
  have "rfc_blocks (rfc_blocks rfc_iv m) (rest64 m @ input) = lows (state c3) \<and>
      rest64 (rest64 m @ input) = take left2 (buffer c2) @ in3 \<and> left2 + length in3 < 64"
  proof (cases full)
    case True
    then have "lows (state c2) = rfc_compress (rfc_blocks rfc_iv m) buf1"
      by (simp add: c2_def md5_process_low [OF len1 [OF True]] buf(3))
    then show ?thesis
      using True join c3_ok len1 by (simp add: rfc_blocks_block rest64_block left2_def)
  next
    case False
    then have c2: "c2 = c1" and jn: "rest64 m @ input = rest64 m @ in2" and l2: "left2 = left"
      using join by (simp_all add: c2_def left2_def)
    show ?thesis
    proof (cases "left = 0")
      case True
      then show ?thesis unfolding jn c2 l2 using c3_ok empty by (simp add: c2 buf(3))
    next
      case lf: False
      then have len: "length in2 < 64" "length (rest64 m @ in2) < 64"
        using short [OF False lf] by (simp_all add: left_def)
      then have "in3 = in2" "lows (state c3) = lows (state c2)"
        using c3_ok by (simp_all add: rest64_short rfc_blocks_short)
      then show ?thesis
        unfolding jn l2 rest64_short [OF len(2)] rfc_blocks_short [OF len(2)]
        using short [OF False lf] by (simp add: c2 buf)
    qed
  qed
  then have blocks: "rfc_blocks (rfc_blocks rfc_iv m) (rest64 m @ input) = lows (state c3)"
    and joined: "rest64 (rest64 m @ input) = take left2 (buffer c2) @ in3" and small3: "left2 + length in3 < 64"
    by blast+
  note rest = trans [OF rest64_append joined] small3
  have len2: "length (buffer c3) = 64" using c3_ok len1 buf(1) by (simp add: c2_def)
  have "length (m @ input) mod 64 = left2 + length in3"
    using rest(1) rest(2) len2 c3_ok length_rest64 [of "m @ input"] by simp
  moreover have "rfc_blocks rfc_iv (m @ input) = lows (state c3)"
    by (rule trans [OF rfc_blocks_append blocks])
  ultimately show ?thesis
    using trailing_copy [OF len2 less_imp_le [OF rest(2)] refl] c1 c3_ok rest(1)
    by (simp add: md5_repr_def upd c2_def)
qed (use r in \<open>simp add: md5_update_def\<close>)

lemma PUT_low: "PUT_ULONG_LE n = put32 (low n)"
proof -
  have "(ucast (drop_bit k n) :: 8 word) = ucast (drop_bit k (low n))" if "k + 8 \<le> 32" for k
    using that by (intro bit_word_eqI) (auto simp: bit_ucast_iff bit_drop_bit_eq)
  from this [of 0] this [of 8] this [of 16] this [of 24] show ?thesis
    by (simp add: PUT_ULONG_LE_def put32_def upt_rec)
qed

lemma put64_halves: "put64 w = put32 (low w) @ put32 (low (drop_bit 32 w))"
  unfolding PUT_low [symmetric] by (simp add: PUT_ULONG_LE_def put64_def upt_rec)

lemma msglen_ok:
  assumes "t0 = of_nat (L mod 2 ^ 32)" "t1 = of_nat (L div 2 ^ 32)"
  shows "PUT_ULONG_LE (push_bit 3 t0) @ PUT_ULONG_LE (drop_bit 29 t0 OR push_bit 3 t1) = put64 (of_nat (8 * L))"
proof -
  have t0: "bit t0 i \<longleftrightarrow> i < 32 \<and> bit L i" for i
    unfolding assms(1) by (auto simp: bit_of_nat_iff take_bit_nat_def [symmetric] bit_take_bit_iff simp del: power_numeral)
  have t1: "bit t1 i \<longleftrightarrow> i < 64 \<and> bit L (32 + i)" for i
    unfolding assms(2) by (auto simp: bit_of_nat_iff drop_bit_nat_def [symmetric] bit_drop_bit_eq simp del: power_numeral)
  have w: "(of_nat (8 * L) :: ulong) = push_bit 3 (of_nat L)" by (simp add: push_bit_eq_mult)
  have "low (push_bit 3 t0) = low (of_nat (8 * L))"
    unfolding w by (rule bit_word_eqI) (auto simp: bit_ucast_iff bit_push_bit_iff bit_of_nat_iff t0)
  moreover have "low (drop_bit 29 t0 OR push_bit 3 t1) = low (drop_bit 32 (of_nat (8 * L)))"
    unfolding w
  proof (rule bit_word_eqI)
    fix i assume "i < LENGTH(32)"
    then show "bit (low (drop_bit 29 t0 OR push_bit 3 t1)) i = bit (low (drop_bit 32 (push_bit 3 (of_nat L)))) i"
      by (cases "i < 3") (auto simp: bit_ucast_iff bit_push_bit_iff bit_drop_bit_eq bit_or_iff bit_of_nat_iff t0 t1)
  qed
  ultimately show ?thesis by (simp add: put64_halves PUT_low)
qed

lemma padding_ok:
  "take (if length m mod 64 < 56 then 56 - length m mod 64 else 120 - length m mod 64) md5_padding =
     [0x80] @ replicate ((55 + 64 - length m mod 64) mod 64) 0"
proof -
  define r where "r = length m mod 64"
  have "r < 64" by (simp add: r_def)
  define n where "n = (55 + 64 - r) mod 64"
  have "(if r < 56 then 56 - r else 120 - r) = Suc n" "n \<le> 63"
    using \<open>r < 64\<close> by (auto simp: n_def mod_if)
  then show ?thesis unfolding r_def [symmetric] n_def [symmetric] by (simp add: md5_padding_def min_def)
qed

lemma md5_finish_ok:
  assumes r: "md5_repr ctx m"
  shows "md5_finish ctx = rfc_md5 m"
proof -
  define pad where "pad = [0x80] @ replicate ((55 + 64 - length m mod 64) mod 64) (0 :: 8 word)"
  define len where "len = put64 (of_nat (8 * length m))"
  have last: "unat (total0 ctx AND 0x3F) = length m mod 64"
    using r unfolding md5_repr_def by (blast intro: total_left)
  have len: "PUT_ULONG_LE (push_bit 3 (total0 ctx)) @ PUT_ULONG_LE (drop_bit 29 (total0 ctx) OR push_bit 3 (total1 ctx)) = len"
    using r unfolding md5_repr_def len_def by (blast intro: msglen_ok)
  have "length pad \<le> 64" "length len = 8" by (simp_all add: pad_def len_def put64_def)
  then have "md5_repr (md5_update (md5_update ctx pad) len) ((m @ pad) @ len)"
    by (intro md5_update_repr r) simp_all
  then have "lows (state (md5_update (md5_update ctx pad) len)) = rfc_blocks rfc_iv (rfc_pad m)"
    by (simp add: md5_repr_def rfc_pad_def pad_def len_def)
  then show ?thesis
    unfolding md5_finish_def Let_def last padding_ok len [symmetric] rfc_md5_def
    by (auto simp: pad_def len lows_def PUT_low split: prod.splits)
qed

lemma md5_updates_repr:
  "md5_repr c m \<Longrightarrow> list_all (\<lambda>piece. length piece < 2 ^ 31) ps \<Longrightarrow> md5_repr (foldl md5_update c ps) (m @ concat ps)"
proof (induction ps arbitrary: c m)
  case (Cons p ps)
  then have "length p < 2 ^ 32" by simp
  then show ?case using Cons.IH [OF md5_update_repr [OF Cons.prems(1)]] Cons.prems(2) by simp
qed simp

text \<open>
  C10. MD5 with 64-bit registers is the MD5 of RFC 1321: whatever the uninitialised context holds, and however an input
  is cut into pieces whose lengths fit the \<open>int\<close> parameter, starting, updating with each piece and finishing gives the
  digest of the whole input. The call operator does so with one piece and returns the digest, or its first four bytes.
\<close>

theorem md5_correct:
  assumes "length (buffer ctx) = 64" "list_all (\<lambda>piece. length piece < 2 ^ 31) pieces"
  shows "md5_finish (foldl md5_update (md5_starts ctx) pieces) = rfc_md5 (concat pieces) \<and>
    (\<forall>input. pieces = [input] \<longrightarrow> md5 ctx input md5_128 = rfc_md5 input \<and> md5 ctx input md5_32 = take 4 (rfc_md5 input))"
proof -
  have "md5_repr (foldl md5_update (md5_starts ctx) pieces) (concat pieces)"
    using md5_updates_repr [OF md5_starts_repr [OF assms(1)] assms(2)] by simp
  then show ?thesis by (auto simp: md5_def md5_finish_ok)
qed

theorem md5_correct_witness:
  "md5_finish (foldl md5_update (md5_starts \<lparr>total0 = 7, total1 = 7, state = (1, 2, 3, 4), buffer = replicate 64 9\<rparr>) [[0x61], [], [0x62, 0x63]]) = rfc_md5 [0x61, 0x62, 0x63] \<and>
     md5 \<lparr>total0 = 7, total1 = 7, state = (1, 2, 3, 4), buffer = replicate 64 9\<rparr> [0x61, 0x62] md5_128 = rfc_md5 [0x61, 0x62]"
  using md5_correct [of "\<lparr>total0 = 7, total1 = 7, state = (1, 2, 3, 4), buffer = replicate 64 9\<rparr>" "[[0x61], [], [0x62, 0x63]]"]
    md5_correct [of "\<lparr>total0 = 7, total1 = 7, state = (1, 2, 3, 4), buffer = replicate 64 9\<rparr>" "[[0x61, 0x62]]"] by simp

end
