(* ===== verification/RbTree.thy ===== *)
theory RbTree
  imports Prelude
begin

text \<open>
  The red-black tree of \<open>cpp/datastructure/tree/red_black_tree.h\<close> as it is written: nodes in a heap, linked by
  \<open>left\<close>, \<open>right\<close> and \<open>parent\<close> pointers, with one shared \<open>null_node_\<close> below every leaf and above the root.

  A pointer is a number, 0 is \<open>nullptr\<close>. Every operation returns an option: \<open>None\<close> is a dereference of
  \<open>nullptr\<close> or of a deleted node, or a loop that does not end. \<open>new\<close> takes the next unused number, so
  a stale pointer is never revived.
\<close>

datatype color = RED | BLACK

record ('k, 'v) node =
  key :: 'k
  val_of :: 'v
  color :: color
  left :: nat
  right :: nat
  parent :: nat

record ('k, 'v) rbtree =
  heap :: "nat \<Rightarrow> ('k, 'v) node option"
  next_free :: nat
  null_node :: nat
  rb_root :: nat

subsection \<open>Dereferencing\<close>

definition lft :: "('k, 'v) rbtree \<Rightarrow> nat \<Rightarrow> nat option" where
  "lft s p = map_option left (heap s p)"

definition rgt :: "('k, 'v) rbtree \<Rightarrow> nat \<Rightarrow> nat option" where
  "rgt s p = map_option right (heap s p)"

definition par :: "('k, 'v) rbtree \<Rightarrow> nat \<Rightarrow> nat option" where
  "par s p = map_option parent (heap s p)"

definition col :: "('k, 'v) rbtree \<Rightarrow> nat \<Rightarrow> color option" where
  "col s p = map_option color (heap s p)"

definition key_at :: "('k, 'v) rbtree \<Rightarrow> nat \<Rightarrow> 'k option" where
  "key_at s p = map_option key (heap s p)"

definition upd :: "('k, 'v) rbtree \<Rightarrow> nat \<Rightarrow> (('k, 'v) node \<Rightarrow> ('k, 'v) node) \<Rightarrow> ('k, 'v) rbtree option" where
  "upd s p f = (case heap s p of None \<Rightarrow> None | Some n \<Rightarrow> Some (s\<lparr>heap := (heap s)(p \<mapsto> f n)\<rparr>))"

definition set_lft :: "('k, 'v) rbtree \<Rightarrow> nat \<Rightarrow> nat \<Rightarrow> ('k, 'v) rbtree option" where
  "set_lft s p q = upd s p (\<lambda>n. n\<lparr>left := q\<rparr>)"

definition set_rgt :: "('k, 'v) rbtree \<Rightarrow> nat \<Rightarrow> nat \<Rightarrow> ('k, 'v) rbtree option" where
  "set_rgt s p q = upd s p (\<lambda>n. n\<lparr>right := q\<rparr>)"

definition set_par :: "('k, 'v) rbtree \<Rightarrow> nat \<Rightarrow> nat \<Rightarrow> ('k, 'v) rbtree option" where
  "set_par s p q = upd s p (\<lambda>n. n\<lparr>parent := q\<rparr>)"

definition set_col :: "('k, 'v) rbtree \<Rightarrow> nat \<Rightarrow> color \<Rightarrow> ('k, 'v) rbtree option" where
  "set_col s p c = upd s p (\<lambda>n. n\<lparr>color := c\<rparr>)"

text \<open>\<open>delete\<close>; deleting what is not allocated is undefined.\<close>

definition del_node :: "('k, 'v) rbtree \<Rightarrow> nat \<Rightarrow> ('k, 'v) rbtree option" where
  "del_node s p = (if heap s p = None then None else Some (s\<lparr>heap := (heap s)(p := None)\<rparr>))"

subsection \<open>Construction, search\<close>

text \<open>The constructor; \<open>k0\<close>, \<open>v0\<close> are the indeterminate key and value of the null node.\<close>

definition rb_new :: "'k \<Rightarrow> 'v \<Rightarrow> ('k, 'v) rbtree" where
  "rb_new k0 v0 = \<lparr>heap = [1 \<mapsto> \<lparr>key = k0, val_of = v0, color = BLACK, left = 1, right = 1, parent = 1\<rparr>],
     next_free = 2, null_node = 1, rb_root = 1\<rparr>"

definition rb_empty :: "('k, 'v) rbtree \<Rightarrow> bool" where
  "rb_empty s \<longleftrightarrow> null_node s = rb_root s"

text \<open>\<open>find\<close>, whose result \<open>nullptr\<close> is 0.\<close>

partial_function (option) find_loop :: "('k :: linorder, 'v) rbtree \<Rightarrow> 'k \<Rightarrow> nat \<Rightarrow> nat option" where
  "find_loop s k p =
     (if p \<noteq> null_node s then
        Option.bind (key_at s p) (\<lambda>pk.
          if pk = k then Some p
          else if pk < k then Option.bind (rgt s p) (find_loop s k)
          else Option.bind (lft s p) (find_loop s k))
      else Some 0)"

definition rb_find :: "('k :: linorder, 'v) rbtree \<Rightarrow> 'k \<Rightarrow> nat option" where
  "rb_find s k = find_loop s k (rb_root s)"

subsection \<open>Rotations\<close>

definition rotate_left :: "('k, 'v) rbtree \<Rightarrow> nat \<Rightarrow> ('k, 'v) rbtree option" where
  "rotate_left s rotate_node =
     do {
       replace_node \<leftarrow> rgt s rotate_node;
       q \<leftarrow> lft s replace_node;
       s \<leftarrow> set_rgt s rotate_node q;
       q \<leftarrow> lft s replace_node;
       s \<leftarrow> (if q \<noteq> null_node s then set_par s q rotate_node else Some s);
       g \<leftarrow> par s rotate_node;
       s \<leftarrow> set_par s replace_node g;
       g \<leftarrow> par s rotate_node;
       s \<leftarrow> (if g = null_node s then Some (s\<lparr>rb_root := replace_node\<rparr>)
             else do {
               gl \<leftarrow> lft s g;
               if rotate_node = gl then set_lft s g replace_node else set_rgt s g replace_node
             });
       s \<leftarrow> set_lft s replace_node rotate_node;
       set_par s rotate_node replace_node
     }"

definition rotate_right :: "('k, 'v) rbtree \<Rightarrow> nat \<Rightarrow> ('k, 'v) rbtree option" where
  "rotate_right s rotate_node =
     do {
       replace_node \<leftarrow> lft s rotate_node;
       q \<leftarrow> rgt s replace_node;
       s \<leftarrow> set_lft s rotate_node q;
       q \<leftarrow> rgt s replace_node;
       s \<leftarrow> (if q \<noteq> null_node s then set_par s q rotate_node else Some s);
       g \<leftarrow> par s rotate_node;
       s \<leftarrow> set_par s replace_node g;
       g \<leftarrow> par s rotate_node;
       s \<leftarrow> (if g = null_node s then Some (s\<lparr>rb_root := replace_node\<rparr>)
             else do {
               gl \<leftarrow> lft s g;
               if rotate_node = gl then set_lft s g replace_node else set_rgt s g replace_node
             });
       s \<leftarrow> set_rgt s replace_node rotate_node;
       set_par s rotate_node replace_node
     }"

subsection \<open>Insertion\<close>

text \<open>
  One iteration of \<open>_insert_fixup\<close> for \<open>iter_node\<close>, its parent \<open>p\<close> and its grandparent \<open>g\<close>; the result
  is the state and the new \<open>iter_node\<close>. First the branch for a parent that is a left child.
\<close>

definition insert_fixup_left :: "('k, 'v) rbtree \<Rightarrow> nat \<Rightarrow> nat \<Rightarrow> nat \<Rightarrow> (('k, 'v) rbtree \<times> nat) option" where
  "insert_fixup_left s iter_node p g =
     do {
       uncle_node \<leftarrow> rgt s g;
       uc \<leftarrow> col s uncle_node;
       if uc = RED then do {
         s \<leftarrow> set_col s p BLACK;
         s \<leftarrow> set_col s uncle_node BLACK;
         s \<leftarrow> set_col s g RED;
         Some (s, g)
       } else do {
         pr \<leftarrow> rgt s p;
         if iter_node = pr then do {
           s \<leftarrow> rotate_left s p;
           Some (s, p)
         } else do {
           s \<leftarrow> set_col s p BLACK;
           s \<leftarrow> set_col s g RED;
           s \<leftarrow> rotate_right s g;
           Some (s, iter_node)
         }
       }
     }"

definition insert_fixup_right :: "('k, 'v) rbtree \<Rightarrow> nat \<Rightarrow> nat \<Rightarrow> nat \<Rightarrow> (('k, 'v) rbtree \<times> nat) option" where
  "insert_fixup_right s iter_node p g =
     do {
       uncle_node \<leftarrow> lft s g;
       uc \<leftarrow> col s uncle_node;
       if uc = RED then do {
         s \<leftarrow> set_col s p BLACK;
         s \<leftarrow> set_col s uncle_node BLACK;
         s \<leftarrow> set_col s g RED;
         Some (s, g)
       } else do {
         pl \<leftarrow> lft s p;
         if iter_node = pl then do {
           s \<leftarrow> rotate_right s p;
           Some (s, p)
         } else do {
           s \<leftarrow> set_col s p BLACK;
           s \<leftarrow> set_col s g RED;
           s \<leftarrow> rotate_left s g;
           Some (s, iter_node)
         }
       }
     }"

partial_function (option) insert_fixup_loop :: "('k, 'v) rbtree \<Rightarrow> nat \<Rightarrow> ('k, 'v) rbtree option" where
  "insert_fixup_loop s iter_node =
     do {
       p \<leftarrow> par s iter_node;
       c \<leftarrow> col s p;
       if c = RED then do {
         g \<leftarrow> par s p;
         gl \<leftarrow> lft s g;
         (s, iter_node) \<leftarrow> (if p = gl then insert_fixup_left s iter_node p g else insert_fixup_right s iter_node p g);
         insert_fixup_loop s iter_node
       } else Some s
     }"

definition insert_fixup :: "('k, 'v) rbtree \<Rightarrow> nat \<Rightarrow> ('k, 'v) rbtree option" where
  "insert_fixup s insert_node =
     do {
       s \<leftarrow> insert_fixup_loop s insert_node;
       set_col s (rb_root s) BLACK
     }"

text \<open>The descent of \<open>insert\<close>: the parent for the new node, or \<open>None\<close> inside when the key is present.\<close>

partial_function (option) insert_descend :: "('k :: linorder, 'v) rbtree \<Rightarrow> 'k \<Rightarrow> nat \<Rightarrow> nat \<Rightarrow> nat option option" where
  "insert_descend s k iter_node insert_parent_node =
     (if iter_node \<noteq> null_node s then
        Option.bind (key_at s iter_node) (\<lambda>ik.
          if k < ik then Option.bind (lft s iter_node) (\<lambda>q. insert_descend s k q iter_node)
          else if k > ik then Option.bind (rgt s iter_node) (\<lambda>q. insert_descend s k q iter_node)
          else Some None)
      else Some (Some insert_parent_node))"

definition insert_node_at :: "('k :: linorder, 'v) rbtree \<Rightarrow> 'k \<Rightarrow> 'v \<Rightarrow> nat \<Rightarrow> ('k, 'v) rbtree option" where
  "insert_node_at s k v insert_parent_node =
     (let insert_node = next_free s;
          s = s\<lparr>heap := (heap s)(insert_node \<mapsto> \<lparr>key = k, val_of = v, color = RED, left = null_node s,
                right = null_node s, parent = insert_parent_node\<rparr>), next_free := Suc (next_free s)\<rparr>
      in do {
        s \<leftarrow> (if insert_parent_node = null_node s then Some (s\<lparr>rb_root := insert_node\<rparr>)
              else do {
                pk \<leftarrow> key_at s insert_parent_node;
                if k < pk then set_lft s insert_parent_node insert_node
                else set_rgt s insert_parent_node insert_node
              });
        insert_fixup s insert_node
      })"

subsection \<open>Deletion\<close>

definition rb_transplant :: "('k, 'v) rbtree \<Rightarrow> nat \<Rightarrow> nat \<Rightarrow> ('k, 'v) rbtree option" where
  "rb_transplant s origin_subtree new_subtree =
     do {
       p \<leftarrow> par s origin_subtree;
       s \<leftarrow> (if p = null_node s then Some (s\<lparr>rb_root := new_subtree\<rparr>)
             else do {
               pl \<leftarrow> lft s p;
               if origin_subtree = pl then set_lft s p new_subtree else set_rgt s p new_subtree
             });
       p \<leftarrow> par s origin_subtree;
       set_par s new_subtree p
     }"

partial_function (option) tree_minimum :: "('k, 'v) rbtree \<Rightarrow> nat \<Rightarrow> nat option" where
  "tree_minimum s p =
     Option.bind (lft s p) (\<lambda>q. if q \<noteq> null_node s then tree_minimum s q else Some p)"

text \<open>
  The loop of \<open>_erase_fixup\<close>, first for a \<open>fixup_node\<close> that is a left child; the result is the state and
  the new \<open>fixup_node\<close>.
\<close>

definition erase_fixup_left :: "('k, 'v) rbtree \<Rightarrow> nat \<Rightarrow> nat \<Rightarrow> (('k, 'v) rbtree \<times> nat) option" where
  "erase_fixup_left s fixup_node p =
     do {
       brother \<leftarrow> rgt s p;
       bc \<leftarrow> col s brother;
       (s, brother) \<leftarrow> (if bc = RED then do {
           s \<leftarrow> set_col s brother BLACK;
           s \<leftarrow> set_col s p RED;
           s \<leftarrow> rotate_left s p;
           p \<leftarrow> par s fixup_node;
           brother \<leftarrow> rgt s p;
           Some (s, brother)
         } else Some (s, brother));
       p \<leftarrow> par s fixup_node;
       bl \<leftarrow> lft s brother;
       br \<leftarrow> rgt s brother;
       blc \<leftarrow> col s bl;
       brc \<leftarrow> col s br;
       if blc = BLACK \<and> brc = BLACK then do {
         s \<leftarrow> set_col s brother RED;
         Some (s, p)
       } else if brc = BLACK then do {
         s \<leftarrow> set_col s bl BLACK;
         s \<leftarrow> set_col s brother RED;
         s \<leftarrow> rotate_right s brother;
         Some (s, fixup_node)
       } else do {
         pc \<leftarrow> col s p;
         s \<leftarrow> set_col s brother pc;
         s \<leftarrow> set_col s p BLACK;
         s \<leftarrow> set_col s br BLACK;
         s \<leftarrow> rotate_left s p;
         Some (s, rb_root s)
       }
     }"

definition erase_fixup_right :: "('k, 'v) rbtree \<Rightarrow> nat \<Rightarrow> nat \<Rightarrow> (('k, 'v) rbtree \<times> nat) option" where
  "erase_fixup_right s fixup_node p =
     do {
       brother \<leftarrow> lft s p;
       bc \<leftarrow> col s brother;
       (s, brother) \<leftarrow> (if bc = RED then do {
           s \<leftarrow> set_col s brother BLACK;
           s \<leftarrow> set_col s p RED;
           s \<leftarrow> rotate_right s p;
           p \<leftarrow> par s fixup_node;
           brother \<leftarrow> lft s p;
           Some (s, brother)
         } else Some (s, brother));
       p \<leftarrow> par s fixup_node;
       bl \<leftarrow> lft s brother;
       br \<leftarrow> rgt s brother;
       blc \<leftarrow> col s bl;
       brc \<leftarrow> col s br;
       if blc = BLACK \<and> brc = BLACK then do {
         s \<leftarrow> set_col s brother RED;
         Some (s, p)
       } else if blc = BLACK then do {
         s \<leftarrow> set_col s br BLACK;
         s \<leftarrow> set_col s brother RED;
         s \<leftarrow> rotate_left s brother;
         Some (s, fixup_node)
       } else do {
         pc \<leftarrow> col s p;
         s \<leftarrow> set_col s brother pc;
         s \<leftarrow> set_col s p BLACK;
         s \<leftarrow> set_col s bl BLACK;
         s \<leftarrow> rotate_right s p;
         Some (s, rb_root s)
       }
     }"

partial_function (option) erase_fixup_loop :: "('k, 'v) rbtree \<Rightarrow> nat \<Rightarrow> (('k, 'v) rbtree \<times> nat) option" where
  "erase_fixup_loop s fixup_node =
     (if fixup_node \<noteq> rb_root s then
        do {
          c \<leftarrow> col s fixup_node;
          if c = BLACK then do {
            p \<leftarrow> par s fixup_node;
            pl \<leftarrow> lft s p;
            (s, fixup_node) \<leftarrow> (if fixup_node = pl then erase_fixup_left s fixup_node p else erase_fixup_right s fixup_node p);
            erase_fixup_loop s fixup_node
          } else Some (s, fixup_node)
        }
      else Some (s, fixup_node))"

definition erase_fixup :: "('k, 'v) rbtree \<Rightarrow> nat \<Rightarrow> ('k, 'v) rbtree option" where
  "erase_fixup s fixup_node =
     do {
       (s, fixup_node) \<leftarrow> erase_fixup_loop s fixup_node;
       set_col s fixup_node BLACK
     }"

text \<open>The three cases of \<open>erase\<close>: the state, \<open>start_fixup_node\<close> and \<open>origin_color\<close>.\<close>

definition erase_unlink :: "('k, 'v) rbtree \<Rightarrow> nat \<Rightarrow> (('k, 'v) rbtree \<times> nat \<times> color) option" where
  "erase_unlink s erase_node =
     do {
       origin_color \<leftarrow> col s erase_node;
       l \<leftarrow> lft s erase_node;
       r \<leftarrow> rgt s erase_node;
       if l = null_node s then do {
         s \<leftarrow> rb_transplant s erase_node r;
         Some (s, r, origin_color)
       } else if r = null_node s then do {
         s \<leftarrow> rb_transplant s erase_node l;
         Some (s, l, origin_color)
       } else do {
         replace_node \<leftarrow> tree_minimum s r;
         origin_color \<leftarrow> col s replace_node;
         start_fixup_node \<leftarrow> rgt s replace_node;
         rp \<leftarrow> par s replace_node;
         s \<leftarrow> (if rp = erase_node then set_par s start_fixup_node replace_node
               else do {
                 rr \<leftarrow> rgt s replace_node;
                 s \<leftarrow> rb_transplant s replace_node rr;
                 er \<leftarrow> rgt s erase_node;
                 s \<leftarrow> set_rgt s replace_node er;
                 rr \<leftarrow> rgt s replace_node;
                 set_par s rr replace_node
               });
         s \<leftarrow> rb_transplant s erase_node replace_node;
         el \<leftarrow> lft s erase_node;
         s \<leftarrow> set_lft s replace_node el;
         rl \<leftarrow> lft s replace_node;
         s \<leftarrow> set_par s rl replace_node;
         ec \<leftarrow> col s erase_node;
         s \<leftarrow> set_col s replace_node ec;
         Some (s, start_fixup_node, origin_color)
       }
     }"

definition rb_erase :: "('k :: linorder, 'v) rbtree \<Rightarrow> 'k \<Rightarrow> (('k, 'v) rbtree \<times> bool) option" where
  "rb_erase s k =
     do {
       erase_node \<leftarrow> rb_find s k;
       if erase_node = 0 then Some (s, False)
       else do {
         (s, start_fixup_node, origin_color) \<leftarrow> erase_unlink s erase_node;
         s \<leftarrow> (if origin_color = BLACK then erase_fixup s start_fixup_node else Some s);
         s \<leftarrow> del_node s erase_node;
         Some (s, True)
       }
     }"

text \<open>The destructor: the recursive \<open>_destroy\<close>, then the null node.\<close>

partial_function (option) destroy_from :: "('k, 'v) rbtree \<Rightarrow> nat \<Rightarrow> ('k, 'v) rbtree option" where
  "destroy_from s p =
     (if p = null_node s then Some s
      else
        Option.bind (lft s p) (\<lambda>l. Option.bind (destroy_from s l) (\<lambda>s.
        Option.bind (rgt s p) (\<lambda>r. Option.bind (destroy_from s r) (\<lambda>s. del_node s p)))))"

definition rb_destroy :: "('k, 'v) rbtree \<Rightarrow> ('k, 'v) rbtree option" where
  "rb_destroy s = do { s \<leftarrow> destroy_from s (rb_root s); del_node s (null_node s) }"

text \<open>\<open>insert\<close>: a key that is present is erased and inserted again.\<close>

partial_function (option) rb_insert :: "('k :: linorder, 'v) rbtree \<Rightarrow> 'k \<Rightarrow> 'v \<Rightarrow> ('k, 'v) rbtree option" where
  "rb_insert s k v =
     Option.bind (insert_descend s k (rb_root s) (null_node s)) (\<lambda>r.
       case r of
         None \<Rightarrow> Option.bind (rb_erase s k) (\<lambda>(s', b). rb_insert s' k v)
       | Some insert_parent_node \<Rightarrow> insert_node_at s k v insert_parent_node)"

end
