(* ===== verification/RbZip.thy ===== *)
theory RbZip
  imports RbTree
begin

text \<open>
  The heap of a red-black tree represents a tree of addresses, and each pointer operation of the source
  acts on it as a local change at a zipper position. Both mirror images of the source are covered by one
  proof over a direction.
\<close>

section \<open>Trees of addresses and contexts\<close>

datatype ('k, 'v) tr = Lf | Nd "('k, 'v) tr" "nat \<times> color \<times> 'k \<times> 'v" "('k, 'v) tr"

datatype dir = L | R

fun opp :: "dir \<Rightarrow> dir" where
  "opp L = R"
| "opp R = L"

lemma opp_opp [simp]: "opp (opp d) = d"
  by (cases d) auto

text \<open>The node with \<open>d\<close>-child \<open>a\<close> and other child \<open>b\<close>.\<close>

definition nd :: "dir \<Rightarrow> ('k, 'v) tr \<Rightarrow> nat \<times> color \<times> 'k \<times> 'v \<Rightarrow> ('k, 'v) tr \<Rightarrow> ('k, 'v) tr" where
  "nd d a x b = (if d = L then Nd a x b else Nd b x a)"

lemma nd_opp: "nd (opp d) a x b = nd d b x a"
  by (cases d) (auto simp: nd_def)

lemma nd_neq_Lf [simp]: "nd d a x b \<noteq> Lf" "Lf \<noteq> nd d a x b"
  by (auto simp: nd_def)

lemma nd_inject [simp]: "nd d a x b = nd d a' x' b' \<longleftrightarrow> a = a' \<and> x = x' \<and> b = b'"
  by (auto simp: nd_def)

lemma tr_nd_cases [case_names Lf nd]:
  assumes "t = Lf \<Longrightarrow> P" "\<And>a x b. t = nd d a x b \<Longrightarrow> P"
  shows P
  using assms by (cases t; cases d) (auto simp: nd_def)

type_synonym ('k, 'v) frame = "dir \<times> (nat \<times> color \<times> 'k \<times> 'v) \<times> ('k, 'v) tr"

fun plug :: "('k, 'v) frame list \<Rightarrow> ('k, 'v) tr \<Rightarrow> ('k, 'v) tr" where
  "plug [] t = t"
| "plug ((d, (a, c, k, v), s) # cs) t = plug cs (nd d t (a, c, k, v) s)"

fun adr :: "nat \<Rightarrow> ('k, 'v) tr \<Rightarrow> nat" where
  "adr nl Lf = nl"
| "adr nl (Nd l (a, c, k, v) r) = a"

fun addrs :: "('k, 'v) tr \<Rightarrow> nat list" where
  "addrs Lf = []"
| "addrs (Nd l (a, c, k, v) r) = addrs l @ a # addrs r"

fun tcol :: "('k, 'v) tr \<Rightarrow> color" where
  "tcol Lf = BLACK"
| "tcol (Nd l (a, c, k, v) r) = c"

fun paint :: "color \<Rightarrow> ('k, 'v) tr \<Rightarrow> ('k, 'v) tr" where
  "paint c Lf = Lf"
| "paint c (Nd l (a, c', k, v) r) = Nd l (a, c, k, v) r"

fun caddrs :: "('k, 'v) frame list \<Rightarrow> nat list" where
  "caddrs [] = []"
| "caddrs ((d, (a, c, k, v), s) # cs) = a # addrs s @ caddrs cs"

fun cpar :: "nat \<Rightarrow> ('k, 'v) frame list \<Rightarrow> nat" where
  "cpar nl [] = nl"
| "cpar nl ((d, (a, c, k, v), s) # cs) = a"

fun croot :: "('k, 'v) frame list \<Rightarrow> nat \<Rightarrow> nat" where
  "croot [] p = p"
| "croot ((d, (a, c, k, v), s) # cs) p = croot cs a"

lemma nd_simps [simp]:
  "adr nl (nd d l (a, c, k, v) r) = a" "tcol (nd d l (a, c, k, v) r) = c"
  "set (addrs (nd d l (a, c, k, v) r)) = insert a (set (addrs l) \<union> set (addrs r))"
  "distinct (addrs (nd d l (a, c, k, v) r)) \<longleftrightarrow> a \<notin> set (addrs l) \<and> a \<notin> set (addrs r) \<and>
     distinct (addrs l) \<and> distinct (addrs r) \<and> set (addrs l) \<inter> set (addrs r) = {}"
  by (auto simp: nd_def)

lemma paint_nd [simp]: "paint c (nd d l (a, c', k, v) r) = nd d l (a, c, k, v) r"
  by (simp add: nd_def)

lemma tcol_paint [simp]: "t \<noteq> Lf \<Longrightarrow> tcol (paint c t) = c"
  by (cases t rule: tr_nd_cases [where d = L]) auto

lemma adr_plug [simp]: "adr nl (plug cs t) = croot cs (adr nl t)"
  by (induction cs t rule: plug.induct) auto

lemma set_addrs_plug [simp]: "set (addrs (plug cs t)) = set (caddrs cs) \<union> set (addrs t)"
  by (induction cs t rule: plug.induct) auto

lemma distinct_addrs_plug [simp]:
  "distinct (addrs (plug cs t)) \<longleftrightarrow>
     distinct (caddrs cs) \<and> distinct (addrs t) \<and> set (caddrs cs) \<inter> set (addrs t) = {}"
  by (induction cs t rule: plug.induct) auto

section \<open>The representation\<close>

definition mk_node :: "dir \<Rightarrow> color \<Rightarrow> 'k \<Rightarrow> 'v \<Rightarrow> nat \<Rightarrow> nat \<Rightarrow> nat \<Rightarrow> ('k, 'v) node" where
  "mk_node d c k v p q g = \<lparr>key = k, val_of = v, color = c, left = (if d = L then p else q),
     right = (if d = L then q else p), parent = g\<rparr>"

fun tree_at :: "(nat \<Rightarrow> ('k, 'v) node option) \<Rightarrow> nat \<Rightarrow> nat \<Rightarrow> ('k, 'v) tr \<Rightarrow> bool" where
  "tree_at h nl g Lf = True"
| "tree_at h nl g (Nd l (a, c, k, v) r) \<longleftrightarrow>
     h a = Some (mk_node L c k v (adr nl l) (adr nl r) g) \<and> tree_at h nl a l \<and> tree_at h nl a r"

fun ctx_at :: "(nat \<Rightarrow> ('k, 'v) node option) \<Rightarrow> nat \<Rightarrow> nat \<Rightarrow> ('k, 'v) frame list \<Rightarrow> bool" where
  "ctx_at h nl p [] = True"
| "ctx_at h nl p ((d, (a, c, k, v), s) # cs) \<longleftrightarrow>
     h a = Some (mk_node d c k v p (adr nl s) (cpar nl cs)) \<and> tree_at h nl a s \<and> ctx_at h nl a cs"

lemma mk_node_R: "mk_node R c k v p q g = mk_node L c k v q p g"
  by (simp add: mk_node_def)

lemma tree_at_nd [simp]:
  "tree_at h nl g (nd d l (a, c, k, v) r) \<longleftrightarrow>
     h a = Some (mk_node d c k v (adr nl l) (adr nl r) g) \<and> tree_at h nl a l \<and> tree_at h nl a r"
  by (cases d) (auto simp: nd_def mk_node_R)

lemma tree_at_plug [simp]:
  "tree_at h nl nl (plug cs t) \<longleftrightarrow> ctx_at h nl (adr nl t) cs \<and> tree_at h nl (cpar nl cs) t"
  by (induction cs t rule: plug.induct) auto

lemma tree_at_upd [simp]: "a \<notin> set (addrs t) \<Longrightarrow> tree_at (h(a := n)) nl g t = tree_at h nl g t"
  by (induction h nl g t rule: tree_at.induct) auto

lemma ctx_at_upd [simp]: "a \<notin> set (caddrs cs) \<Longrightarrow> ctx_at (h(a := n)) nl p cs = ctx_at h nl p cs"
  by (induction h nl p cs rule: ctx_at.induct) auto

lemma tree_at_cong: "(\<And>a. a \<in> set (addrs t) \<Longrightarrow> h' a = h a) \<Longrightarrow> tree_at h' nl g t = tree_at h nl g t"
  by (induction h nl g t rule: tree_at.induct) auto

lemma ctx_at_cong: "(\<And>a. a \<in> set (caddrs cs) \<Longrightarrow> h' a = h a) \<Longrightarrow> ctx_at h' nl p cs = ctx_at h nl p cs"
  by (induction h nl p cs rule: ctx_at.induct) (auto cong: tree_at_cong)

text \<open>
  The state \<open>s\<close> represents \<open>t\<close>; \<open>D\<close> are allocated nodes outside the tree. The addresses below \<open>next_free\<close>
  and above \<open>nullptr\<close> are the allocated ones.
\<close>

definition rb_repr :: "nat set \<Rightarrow> ('k, 'v) rbtree \<Rightarrow> ('k, 'v) tr \<Rightarrow> bool" where
  "rb_repr D s t \<longleftrightarrow>
     tree_at (heap s) (null_node s) (null_node s) t \<and> rb_root s = adr (null_node s) t \<and> distinct (addrs t) \<and>
     null_node s \<notin> set (addrs t) \<and> map_option color (heap s (null_node s)) = Some BLACK \<and>
     D \<inter> insert (null_node s) (set (addrs t)) = {} \<and>
     dom (heap s) = D \<union> insert (null_node s) (set (addrs t)) \<and> (\<forall>a \<in> dom (heap s). 0 < a \<and> a < next_free s)"

text \<open>Two states agree on the null node and on what is allocated outside the tree.\<close>

definition same_rest :: "nat set \<Rightarrow> ('k, 'v) rbtree \<Rightarrow> ('k, 'v) rbtree \<Rightarrow> bool" where
  "same_rest D s s' \<longleftrightarrow> null_node s' = null_node s \<and> next_free s' = next_free s \<and>
     heap s' (null_node s) = heap s (null_node s) \<and> (\<forall>a \<in> D. heap s' a = heap s a)"

lemma same_rest_refl [simp]: "same_rest D s s"
  by (simp add: same_rest_def)

lemma same_rest_trans: "same_rest D s s' \<Longrightarrow> same_rest D s' s'' \<Longrightarrow> same_rest D s s''"
  by (simp add: same_rest_def)

lemma same_rest_null: "same_rest D s s' \<Longrightarrow> null_node s' = null_node s"
  by (simp add: same_rest_def)

section \<open>Reading\<close>

definition chd :: "dir \<Rightarrow> ('k, 'v) rbtree \<Rightarrow> nat \<Rightarrow> nat option" where
  "chd d s p = (if d = L then lft s p else rgt s p)"

definition set_chd :: "dir \<Rightarrow> ('k, 'v) rbtree \<Rightarrow> nat \<Rightarrow> nat \<Rightarrow> ('k, 'v) rbtree option" where
  "set_chd d s p q = (if d = L then set_lft s p q else set_rgt s p q)"

lemma chd_cases: "lft = chd L" "rgt = chd R" "set_lft = set_chd L" "set_rgt = set_chd R"
  by (auto simp: chd_def set_chd_def fun_eq_iff)

lemmas get_defs = lft_def rgt_def par_def col_def key_at_def chd_def
lemmas set_defs = set_lft_def set_rgt_def set_par_def set_col_def set_chd_def upd_def

lemma read_node:
  assumes "rb_repr D s (plug cs (nd d l (a, c, k, v) r))"
  shows "chd d s a = Some (adr (null_node s) l)" "chd (opp d) s a = Some (adr (null_node s) r)"
    "par s a = Some (cpar (null_node s) cs)" "col s a = Some c" "key_at s a = Some k" "a \<noteq> null_node s" "a \<noteq> 0"
    "heap s a = Some (mk_node d c k v (adr (null_node s) l) (adr (null_node s) r) (cpar (null_node s) cs))"
  using assms by (cases d; auto simp: rb_repr_def get_defs mk_node_def)+

lemma read_color:
  assumes "rb_repr D s (plug cs t)"
  shows "col s (adr (null_node s) t) = Some (tcol t)"
  using assms by (cases t rule: tr_nd_cases [where d = L]) (auto simp: rb_repr_def get_defs mk_node_def)

lemma adr_eq_null:
  assumes "rb_repr D s (plug cs t)"
  shows "adr (null_node s) t = null_node s \<longleftrightarrow> t = Lf"
  using assms by (cases t rule: tr_nd_cases [where d = L]) (auto simp: rb_repr_def)

lemma cpar_eq_null:
  assumes "rb_repr D s (plug cs t)"
  shows "cpar (null_node s) cs = null_node s \<longleftrightarrow> cs = []"
  using assms by (cases cs) (auto simp: rb_repr_def)

text \<open>A child's address tells on which side it hangs, unless both children are leaves.\<close>

lemma read_side:
  assumes "rb_repr D s (plug ((d, (a, c, k, v), r) # cs) t)" "t \<noteq> Lf \<or> r \<noteq> Lf"
  shows "lft s a = Some (adr (null_node s) t) \<longleftrightarrow> d = L"
proof -
  have "adr (null_node s) t \<noteq> adr (null_node s) r"
    using assms by (cases t rule: tr_nd_cases [where d = L]; cases r rule: tr_nd_cases [where d = L])
      (auto simp: rb_repr_def)
  then show ?thesis using read_node(1,2) [of D s cs d t a c k v r] assms(1) by (cases d) (auto simp: chd_def)
qed

section \<open>Writing\<close>

lemma set_mk_node:
  assumes "heap s a = Some (mk_node d c k v p q g)"
  shows "set_chd d s a p' = Some (s\<lparr>heap := (heap s)(a \<mapsto> mk_node d c k v p' q g)\<rparr>)"
    "set_chd (opp d) s a q' = Some (s\<lparr>heap := (heap s)(a \<mapsto> mk_node d c k v p q' g)\<rparr>)"
    "set_par s a g' = Some (s\<lparr>heap := (heap s)(a \<mapsto> mk_node d c k v p q g')\<rparr>)"
    "set_col s a c' = Some (s\<lparr>heap := (heap s)(a \<mapsto> mk_node d c' k v p q g)\<rparr>)"
  using assms by (cases d; simp add: set_defs mk_node_def)+

lemma set_col_node:
  assumes "rb_repr D s (plug cs (nd d l (a, c, k, v) r))"
  shows "\<exists>s'. set_col s a c' = Some s' \<and> rb_repr D s' (plug cs (nd d l (a, c', k, v) r)) \<and> same_rest D s s'"
proof -
  let ?n = "mk_node d c' k v (adr (null_node s) l) (adr (null_node s) r) (cpar (null_node s) cs)"
  have "set_col s a c' = Some (s\<lparr>heap := (heap s)(a \<mapsto> ?n)\<rparr>)"
    using read_node(8) [OF assms] by (simp add: set_defs mk_node_def)
  moreover have "rb_repr D (s\<lparr>heap := (heap s)(a \<mapsto> ?n)\<rparr>) (plug cs (nd d l (a, c', k, v) r))"
    using assms by (auto simp: rb_repr_def)
  moreover have "same_rest D s (s\<lparr>heap := (heap s)(a \<mapsto> ?n)\<rparr>)"
    using assms by (auto simp: rb_repr_def same_rest_def)
  ultimately show ?thesis by blast
qed

lemma set_col_tree:
  assumes "rb_repr D s (plug cs t)" "t \<noteq> Lf"
  shows "\<exists>s'. set_col s (adr (null_node s) t) c = Some s' \<and> rb_repr D s' (plug cs (paint c t)) \<and> same_rest D s s'"
proof -
  obtain l a c' k v r where "t = nd L l (a, c', k, v) r"
    using assms(2) by (cases t rule: tr_nd_cases [where d = L]) auto
  then show ?thesis using set_col_node [of D s cs L l a c' k v r c] assms(1) by simp
qed

text \<open>The pointer to a subtree in its parent, or the root pointer, redirected to \<open>y\<close>.\<close>

definition replace_child :: "('k, 'v) rbtree \<Rightarrow> nat \<Rightarrow> nat \<Rightarrow> nat \<Rightarrow> ('k, 'v) rbtree option" where
  "replace_child s g x y =
     (if g = null_node s then Some (s\<lparr>rb_root := y\<rparr>)
      else do { gl \<leftarrow> lft s g; if x = gl then set_lft s g y else set_rgt s g y })"

lemma replace_child_ok:
  assumes "ctx_at (heap s) (null_node s) x cs" "distinct (caddrs cs)" "null_node s \<notin> set (caddrs cs)"
    "x \<notin> set (caddrs cs)" "x \<noteq> null_node s"
  shows "\<exists>s'. replace_child s (cpar (null_node s) cs) x y = Some s' \<and> ctx_at (heap s') (null_node s) y cs \<and>
    null_node s' = null_node s \<and> next_free s' = next_free s \<and> dom (heap s') = dom (heap s) \<and>
    (rb_root s = croot cs x \<longrightarrow> rb_root s' = croot cs y) \<and> (\<forall>a. a \<notin> set (caddrs cs) \<longrightarrow> heap s' a = heap s a)"
proof (cases cs)
  case Nil
  then show ?thesis by (simp add: replace_child_def)
next
  case (Cons f cs')
  obtain d a c k v r where f: "f = (d, (a, c, k, v), r)" by (cases f) auto
  have ne: "adr (null_node s) r \<noteq> x"
    using assms(4,5) Cons f by (cases r rule: tr_nd_cases [where d = L]) auto
  let ?s' = "s\<lparr>heap := (heap s)(a \<mapsto> mk_node d c k v y (adr (null_node s) r) (cpar (null_node s) cs'))\<rparr>"
  have "replace_child s (cpar (null_node s) cs) x y = Some ?s'"
    using assms(1,3) Cons f ne by (cases d) (auto simp: replace_child_def get_defs set_defs mk_node_def)
  then show ?thesis
    using assms Cons f by (intro exI [of _ ?s']) auto
qed

definition rot :: "dir \<Rightarrow> ('k, 'v) rbtree \<Rightarrow> nat \<Rightarrow> ('k, 'v) rbtree option" where
  "rot d s x =
     do {
       y \<leftarrow> chd (opp d) s x;
       q \<leftarrow> chd d s y;
       s \<leftarrow> set_chd (opp d) s x q;
       q \<leftarrow> chd d s y;
       s \<leftarrow> (if q \<noteq> null_node s then set_par s q x else Some s);
       g \<leftarrow> par s x;
       s \<leftarrow> set_par s y g;
       g \<leftarrow> par s x;
       s \<leftarrow> replace_child s g x y;
       s \<leftarrow> set_chd d s y x;
       set_par s x y
     }"

lemma rotate_rot: "rotate_left = rot L" "rotate_right = rot R"
  by (simp_all add: fun_eq_iff rotate_left_def rotate_right_def rot_def replace_child_def chd_cases cong: if_cong)

lemma rot_node:
  assumes repr: "rb_repr D s (plug cs (nd d a (x, cx, kx, vx) (nd d b (y, cy, ky, vy) e)))"
  shows "\<exists>s'. rot d s x = Some s' \<and> same_rest D s s' \<and>
    rb_repr D s' (plug cs (nd d (nd d a (x, cx, kx, vx) b) (y, cy, ky, vy) e))"
proof -
  define nl where "nl = null_node s"
  define g where "g = cpar nl cs"
  note rd = repr [unfolded rb_repr_def, simplified, folded nl_def]
  have hx: "heap s x = Some (mk_node d cx kx vx (adr nl a) y g)"
    and hy: "heap s y = Some (mk_node d cy ky vy (adr nl b) (adr nl e) x)"
    and ctx: "ctx_at (heap s) nl x cs" and ta: "tree_at (heap s) nl x a" and tb: "tree_at (heap s) nl y b"
    and te: "tree_at (heap s) nl y e"
    using rd by (auto simp: g_def)
  have dis: "x \<noteq> y" "x \<notin> set (caddrs cs)" "y \<notin> set (caddrs cs)" "set (caddrs cs) \<inter> set (addrs b) = {}"
      "x \<notin> set (addrs a)" "y \<notin> set (addrs a)" "set (addrs a) \<inter> set (addrs b) = {}" "set (addrs a) \<inter> set (caddrs cs) = {}"
      "x \<notin> set (addrs e)" "y \<notin> set (addrs e)" "set (addrs e) \<inter> set (addrs b) = {}" "set (addrs e) \<inter> set (caddrs cs) = {}"
      "x \<notin> set (addrs b)" "y \<notin> set (addrs b)" "set (addrs e) \<inter> set (addrs a) = {}"
    using rd by auto
  have out: "p \<noteq> x" "p \<noteq> y" "p \<notin> set (addrs b)" "p \<notin> set (caddrs cs)" if "p = nl \<or> p \<in> D" for p
    using that rd by auto
  define s1 where "s1 = s\<lparr>heap := (heap s)(x \<mapsto> mk_node d cx kx vx (adr nl a) (adr nl b) g)\<rparr>"
  have 1: "chd (opp d) s x = Some y" "chd d s y = Some (adr nl b)" "set_chd (opp d) s x (adr nl b) = Some s1"
    "chd d s1 y = Some (adr nl b)" "par s1 x = Some g"
    using hx hy rd by (cases d; auto simp: s1_def get_defs set_defs mk_node_def)+
  define s2 where "s2 = (if b = Lf then s1 else
      s1\<lparr>heap := (heap s1)(adr nl b := map_option (\<lambda>n. n\<lparr>parent := x\<rparr>) (heap s1 (adr nl b)))\<rparr>)"
  have 2: "(if adr nl b \<noteq> null_node s1 then set_par s1 (adr nl b) x else Some s1) = Some s2"
    "tree_at (heap s2) nl x b" "par s2 x = Some g"
    using tb rd hx by (cases b rule: tr_nd_cases [where d = L]; auto simp: s1_def s2_def nl_def get_defs set_defs mk_node_def)+
  define s3 where "s3 = s2\<lparr>heap := (heap s2)(y \<mapsto> mk_node d cy ky vy (adr nl b) (adr nl e) g)\<rparr>"
  have b_out: "b \<noteq> Lf \<Longrightarrow> adr nl b \<in> set (addrs b)" by (cases b rule: tr_nd_cases [where d = L]) auto
  have off: "heap s3 p = heap s p" if "p \<noteq> x" "p \<noteq> y" "p \<notin> set (addrs b)" for p
    using that b_out by (auto simp: s3_def s2_def s1_def)
  have "heap s2 y = heap s y" "heap s2 x = Some (mk_node d cx kx vx (adr nl a) (adr nl b) g)"
    using rd b_out by (auto simp: s2_def s1_def)
  then have 3: "set_par s2 y g = Some s3" "par s3 x = Some g" "null_node s3 = nl" "rb_root s3 = rb_root s"
    "heap s3 x = Some (mk_node d cx kx vx (adr nl a) (adr nl b) g)" "next_free s3 = next_free s"
    using hx hy rd b_out by (auto simp: s3_def s2_def s1_def nl_def get_defs set_defs mk_node_def)
  have "b \<noteq> Lf \<Longrightarrow> \<exists>n. heap s (adr nl b) = Some n" using b_out rd by blast
  then have dom3: "dom (heap s3) = dom (heap s)"
    using hx hy by (cases "b = Lf") (auto simp: s3_def s2_def s1_def)
  have "heap s3 p = heap s p" if "p \<in> set (caddrs cs)" for p
    by (rule off) (use dis(2-4) that in auto)
  then have ctx3: "ctx_at (heap s3) nl x cs" using ctx ctx_at_cong by metis
  have pre: "distinct (caddrs cs)" "nl \<notin> set (caddrs cs)" "x \<noteq> nl" using rd by auto
  obtain s4 where 4: "replace_child s3 (cpar nl cs) x y = Some s4" "ctx_at (heap s4) nl y cs" "null_node s4 = nl"
      "next_free s4 = next_free s" "dom (heap s4) = dom (heap s)"
      "rb_root s = croot cs x \<longrightarrow> rb_root s4 = croot cs y" "\<forall>p. p \<notin> set (caddrs cs) \<longrightarrow> heap s4 p = heap s3 p"
    using replace_child_ok [of s3 x cs y, unfolded 3(3) 3(4) 3(6) dom3, OF ctx3 pre(1,2) dis(2) pre(3)]
    by (elim exE conjE) (rule that)
  define s5 where "s5 = s4\<lparr>heap := (heap s4)(y \<mapsto> mk_node d cy ky vy x (adr nl e) g)\<rparr>"
  define s6 where "s6 = s5\<lparr>heap := (heap s5)(x \<mapsto> mk_node d cx kx vx (adr nl a) (adr nl b) y)\<rparr>"
  have "heap s4 y = Some (mk_node d cy ky vy (adr nl b) (adr nl e) g)" "heap s4 x = heap s3 x"
    using 4(7) dis(2,3) by (auto simp: s3_def)
  then have 5: "set_chd d s4 y x = Some s5" "set_par s5 x y = Some s6"
    using 3(5) dis(1) by (simp_all add: s5_def s6_def set_mk_node)
  have run: "rot d s x = Some s6"
    using 1 2 3(1,2) 4(1) [folded g_def] 5 by (simp add: rot_def)
  have off6: "heap s6 p = heap s p" if "p \<noteq> x" "p \<noteq> y" "p \<notin> set (addrs b)" "p \<notin> set (caddrs cs)" for p
    using that off [of p] 4(7) [rule_format, of p] by (auto simp: s6_def s5_def)
  have b6: "heap s6 p = heap s2 p" if "p \<in> set (addrs b)" for p
  proof -
    have "p \<notin> set (caddrs cs)" "p \<noteq> x" "p \<noteq> y" using that dis by auto
    then show ?thesis using 4(7) by (simp add: s6_def s5_def s3_def)
  qed
  have "ctx_at (heap s6) nl y cs" using 4(2) dis(2,3) by (simp add: s6_def s5_def)
  moreover have "tree_at (heap s6) nl x a" "tree_at (heap s6) nl y e" "tree_at (heap s6) nl x b"
    by (rule iffD2 [OF tree_at_cong ta], rule off6, use dis in auto)
      (rule iffD2 [OF tree_at_cong te], rule off6, use dis in auto, rule iffD2 [OF tree_at_cong 2(2)], rule b6)
  moreover have "heap s6 x = Some (mk_node d cx kx vx (adr nl a) (adr nl b) y)"
    "heap s6 y = Some (mk_node d cy ky vy x (adr nl e) g)"
    using dis(1) by (simp_all add: s6_def s5_def)
  moreover have "dom (heap s6) = dom (heap s)" "next_free s6 = next_free s" "null_node s6 = nl" "rb_root s6 = croot cs y"
  proof -
    have "x \<in> dom (heap s)" "y \<in> dom (heap s)" using hx hy by auto
    then show "dom (heap s6) = dom (heap s)" by (simp add: s6_def s5_def 4(5) insert_absorb)
    have "rb_root s = croot cs x" using rd by simp
    then show "rb_root s6 = croot cs y" using 4(6) by (simp add: s6_def s5_def)
  qed (simp_all add: s6_def s5_def 4(3,4))
  moreover have "heap s6 nl = heap s nl" "\<And>p. p \<in> D \<Longrightarrow> heap s6 p = heap s p"
    by (rule off6; rule out; simp)+
  ultimately have "rb_repr D s6 (plug cs (nd d (nd d a (x, cx, kx, vx) b) (y, cy, ky, vy) e))" "same_rest D s s6"
    using rd dis(7,11,15) by (simp_all add: rb_repr_def same_rest_def nl_def [symmetric] g_def Un_ac Int_Un_distrib Int_Un_distrib2 insert_commute)
  with run show ?thesis by blast
qed

end
