(* ===== verification/RbInsert.thy ===== *)
theory RbInsert
  imports RbZip
begin

text \<open>
  The red-black invariant of trees and of contexts, and the insertion of
  \<open>cpp/datastructure/tree/red_black_tree.h\<close>: the fixup ends, keeps the entries and their order, and restores the
  invariant.
\<close>

section \<open>The invariant\<close>

fun ents :: "('k, 'v) tr \<Rightarrow> ('k \<times> 'v) list" where
  "ents Lf = []"
| "ents (Nd l (a, c, k, v) r) = ents l @ (k, v) # ents r"

text \<open>Black height \<open>n\<close>, and no red node with a red child.\<close>

fun rbn :: "nat \<Rightarrow> ('k, 'v) tr \<Rightarrow> bool" where
  "rbn n Lf \<longleftrightarrow> n = 0"
| "rbn n (Nd l (a, c, k, v) r) \<longleftrightarrow>
     (case c of BLACK \<Rightarrow> n \<noteq> 0 \<and> rbn (n - 1) l \<and> rbn (n - 1) r
      | RED \<Rightarrow> rbn n l \<and> rbn n r \<and> tcol l = BLACK \<and> tcol r = BLACK)"

definition rb_tree :: "('k, 'v) tr \<Rightarrow> bool" where
  "rb_tree t \<longleftrightarrow> (\<exists>n. rbn n t) \<and> tcol t = BLACK"

fun tblack :: "('k, 'v) frame list \<Rightarrow> bool" where
  "tblack [] = False"
| "tblack ((d, (a, c, k, v), s) # cs) \<longleftrightarrow> c = BLACK"

text \<open>The context completes a subtree of black height \<open>n\<close> to a red-black tree.\<close>

fun rbc :: "nat \<Rightarrow> ('k, 'v) frame list \<Rightarrow> bool" where
  "rbc n [] = True"
| "rbc n ((d, (a, c, k, v), s) # cs) \<longleftrightarrow> rbn n s \<and>
     (case c of BLACK \<Rightarrow> rbc (Suc n) cs | RED \<Rightarrow> tcol s = BLACK \<and> tblack cs \<and> rbc n cs)"

lemma rbn_nd [simp]:
  "rbn n (nd d l (a, BLACK, k, v) r) \<longleftrightarrow> n \<noteq> 0 \<and> rbn (n - 1) l \<and> rbn (n - 1) r"
  "rbn n (nd d l (a, RED, k, v) r) \<longleftrightarrow> rbn n l \<and> rbn n r \<and> tcol l = BLACK \<and> tcol r = BLACK"
  by (auto simp: nd_def)

lemma rb_tree_plug:
  "rbn n t \<Longrightarrow> rbc n cs \<Longrightarrow> tcol t = BLACK \<or> tblack cs \<Longrightarrow> rb_tree (plug cs t)"
proof (induction cs t arbitrary: n rule: plug.induct)
  case (2 d a c k v s cs t)
  show ?case
  proof (cases c)
    case RED
    then show ?thesis using "2.prems" "2.IH" [of n] by simp
  next
    case BLACK
    then show ?thesis using "2.prems" "2.IH" [of "Suc n"] by simp
  qed
qed (auto simp: rb_tree_def)

lemma rb_tree_plugE:
  "rb_tree (plug cs t) \<Longrightarrow> \<exists>n. rbn n t \<and> rbc n cs \<and> (tcol t = BLACK \<or> tblack cs)"
proof (induction cs t rule: plug.induct)
  case (2 d a c k v s cs t)
  obtain n where n: "rbn n (nd d t (a, c, k, v) s)" "rbc n cs" "c = BLACK \<or> tblack cs"
    using "2.IH" "2.prems" by auto
  show ?case
  proof (cases c)
    case RED
    then show ?thesis using n by auto
  next
    case BLACK
    then show ?thesis using n by (intro exI [of _ "n - 1"]) auto
  qed
qed (auto simp: rb_tree_def)

lemma ents_plug_cong: "ents t = ents t' \<Longrightarrow> ents (plug cs t) = ents (plug cs t')"
proof (induction cs t arbitrary: t' rule: plug.induct)
  case (2 d a c k v s cs t)
  have "ents (nd d t (a, c, k, v) s) = ents (nd d t' (a, c, k, v) s)" using "2.prems" by (simp add: nd_def)
  then show ?case using "2.IH" by simp
qed simp

lemma ents_nd_color: "ents (nd d l (a, c, k, v) r) = ents (nd d l (a, c', k, v) r)"
  by (simp add: nd_def)

lemma ents_rot: "ents (nd d (nd d a (x, cx, kx, vx) b) (y, cy, ky, vy) e) =
    ents (nd d a (x, cx', kx, vx) (nd d b (y, cy', ky, vy) e))"
  by (cases d) (auto simp: nd_def)

section \<open>One iteration of the fixup\<close>

definition insert_side :: "dir \<Rightarrow> ('k, 'v) rbtree \<Rightarrow> nat \<Rightarrow> nat \<Rightarrow> nat \<Rightarrow> (('k, 'v) rbtree \<times> nat) option" where
  "insert_side d s iter_node p g =
     do {
       uncle_node \<leftarrow> chd (opp d) s g;
       uc \<leftarrow> col s uncle_node;
       if uc = RED then do {
         s \<leftarrow> set_col s p BLACK;
         s \<leftarrow> set_col s uncle_node BLACK;
         s \<leftarrow> set_col s g RED;
         Some (s, g)
       } else do {
         q \<leftarrow> chd (opp d) s p;
         if iter_node = q then do {
           s \<leftarrow> rot d s p;
           Some (s, p)
         } else do {
           s \<leftarrow> set_col s p BLACK;
           s \<leftarrow> set_col s g RED;
           s \<leftarrow> rot (opp d) s g;
           Some (s, iter_node)
         }
       }
     }"

lemma insert_fixup_side: "insert_fixup_left = insert_side L" "insert_fixup_right = insert_side R"
  by (simp_all add: fun_eq_iff insert_fixup_left_def insert_fixup_right_def insert_side_def rotate_rot chd_cases
    cong: if_cong)

lemma insert_loop_exit:
  assumes "rb_repr D s (plug cs (nd d l (a, c, k, v) r))" "cs = [] \<or> tblack cs"
  shows "insert_fixup_loop s a = Some s"
proof -
  have "col s (cpar (null_node s) cs) = Some BLACK"
  proof (cases cs)
    case Nil
    then show ?thesis using assms(1) by (auto simp: rb_repr_def get_defs)
  next
    case (Cons f cs')
    then obtain d' p kp vp u where "f = (d', (p, BLACK, kp, vp), u)" using assms(2) by (cases f) auto
    then show ?thesis using read_node(4) [of D s cs' d' "nd d l (a, c, k, v) r" p BLACK kp vp u] assms(1) Cons by simp
  qed
  then show ?thesis
    using read_node(3) [OF assms(1)] by (simp add: insert_fixup_loop.simps)
qed

lemma insert_loop_step:
  assumes repr: "rb_repr D s (plug ((d, (p, RED, kp, vp), b) # (d', (g, cg, kg, vg), u) # cs) t)"
    and t: "t = nd e l (a, RED, k, v) r"
  shows "insert_fixup_loop s a = Option.bind (insert_side d' s a p g) (\<lambda>(s, x). insert_fixup_loop s x)"
proof -
  have up: "rb_repr D s (plug ((d', (g, cg, kg, vg), u) # cs) (nd d t (p, RED, kp, vp) b))" using repr by simp
  have "par s a = Some p" using read_node(3) [OF repr [unfolded t]] by simp
  moreover have "col s p = Some RED" "par s p = Some g"
    using read_node(3,4) [OF up] by simp_all
  moreover have "\<exists>gl. lft s g = Some gl \<and> (p = gl \<longleftrightarrow> d' = L)"
    using read_side [OF up] read_node(8) [of D s cs d' _ g cg kg vg u] up by (auto simp: get_defs)
  ultimately show ?thesis
    by (subst insert_fixup_loop.simps) (cases d'; auto simp: insert_fixup_side)
qed

lemma ents_paint [simp]: "ents (paint c t) = ents t"
  by (cases t rule: tr_nd_cases [where d = L]) (auto simp: nd_def)

text \<open>Case 1: the uncle is red.\<close>

lemma insert_side_red:
  assumes repr: "rb_repr D s (plug ((d, (p, RED, kp, vp), b) # (d', (g, BLACK, kg, vg), u) # cs) t)"
    and u: "tcol u = RED"
  shows "\<exists>s'. insert_side d' s a p g = Some (s', g) \<and> same_rest D s s' \<and>
    rb_repr D s' (plug cs (nd d' (nd d t (p, BLACK, kp, vp) b) (g, RED, kg, vg) (paint BLACK u)))"
proof -
  let ?nl = "null_node s"
  have p: "rb_repr D s (plug ((d', (g, BLACK, kg, vg), u) # cs) (nd d t (p, RED, kp, vp) b))" using repr by simp
  then have g: "rb_repr D s (plug cs (nd d' (nd d t (p, RED, kp, vp) b) (g, BLACK, kg, vg) u))" by simp
  obtain s1 where s1: "set_col s p BLACK = Some s1" "same_rest D s s1"
      "rb_repr D s1 (plug ((opp d', (g, BLACK, kg, vg), nd d t (p, BLACK, kp, vp) b) # cs) u)"
    using set_col_node [OF p, of BLACK] by (auto simp: nd_opp)
  have "u \<noteq> Lf" using u by auto
  then obtain s2 where s2: "set_col s1 (adr ?nl u) BLACK = Some s2" "same_rest D s1 s2"
      "rb_repr D s2 (plug cs (nd d' (nd d t (p, BLACK, kp, vp) b) (g, BLACK, kg, vg) (paint BLACK u)))"
    using set_col_tree [OF s1(3), of BLACK] same_rest_null [OF s1(2)] by (auto simp: nd_opp)
  obtain s3 where s3: "set_col s2 g RED = Some s3" "same_rest D s2 s3"
      "rb_repr D s3 (plug cs (nd d' (nd d t (p, BLACK, kp, vp) b) (g, RED, kg, vg) (paint BLACK u)))"
    using set_col_node [OF s2(3), of RED] by auto
  have "chd (opp d') s g = Some (adr ?nl u)" using read_node(2) [OF g] .
  moreover have "col s (adr ?nl u) = Some RED"
    using read_color [of D s "(opp d', (g, BLACK, kg, vg), nd d t (p, RED, kp, vp) b) # cs" u] g u
    by (simp add: nd_opp)
  ultimately have "insert_side d' s a p g = Some (s3, g)"
    using s1(1) s2(1) s3(1) by (simp add: insert_side_def)
  then show ?thesis using s3 same_rest_trans [OF same_rest_trans [OF s1(2) s2(2)] s3(2)] by blast
qed

lemma read_uncle:
  assumes "rb_repr D s (plug ((d, x, b) # (d', (g, cg, kg, vg), u) # cs) t)"
  shows "chd (opp d') s g = Some (adr (null_node s) u)" "col s (adr (null_node s) u) = Some (tcol u)"
proof -
  obtain p c k v where x: "x = (p, c, k, v)" by (cases x) auto
  have g: "rb_repr D s (plug cs (nd d' (nd d t x b) (g, cg, kg, vg) u))" using assms x by simp
  show "chd (opp d') s g = Some (adr (null_node s) u)" using read_node(2) [OF g] .
  show "col s (adr (null_node s) u) = Some (tcol u)"
    using read_color [of D s "(opp d', (g, cg, kg, vg), nd d t x b) # cs" u] g by (simp add: nd_opp)
qed

text \<open>Case 2: the uncle is black and \<open>iter_node\<close> is an inner grandchild; the rotation makes it an outer one.\<close>

lemma insert_side_inner:
  assumes repr: "rb_repr D s (plug ((opp d, (p, RED, kp, vp), b) # (d, (g, BLACK, kg, vg), u) # cs)
      (nd d t1 (a, RED, k, v) t2))"
    and u: "tcol u = BLACK"
  shows "\<exists>s'. insert_side d s a p g = Some (s', p) \<and> same_rest D s s' \<and>
    rb_repr D s' (plug ((d, (a, RED, k, v), t2) # (d, (g, BLACK, kg, vg), u) # cs) (nd d b (p, RED, kp, vp) t1))"
proof -
  have p: "rb_repr D s (plug ((d, (g, BLACK, kg, vg), u) # cs) (nd d b (p, RED, kp, vp) (nd d t1 (a, RED, k, v) t2)))"
    using repr by (simp add: nd_opp)
  obtain s' where s': "rot d s p = Some s'" "same_rest D s s'"
      "rb_repr D s' (plug ((d, (g, BLACK, kg, vg), u) # cs) (nd d (nd d b (p, RED, kp, vp) t1) (a, RED, k, v) t2))"
    using rot_node [OF p] by blast
  have "chd (opp d) s p = Some a" using read_node(2) [OF p] by simp
  then have "insert_side d s a p g = Some (s', p)"
    using read_uncle [OF repr] u s'(1) by (simp add: insert_side_def)
  then show ?thesis using s' by auto
qed

text \<open>Case 3: the uncle is black and \<open>iter_node\<close> is an outer grandchild.\<close>

lemma insert_side_outer:
  assumes repr: "rb_repr D s (plug ((d, (p, RED, kp, vp), b) # (d, (g, BLACK, kg, vg), u) # cs)
      (nd e t1 (a, RED, k, v) t2))"
    and u: "tcol u = BLACK"
  shows "\<exists>s'. insert_side d s a p g = Some (s', a) \<and> same_rest D s s' \<and>
    rb_repr D s' (plug ((d, (p, BLACK, kp, vp), nd d b (g, RED, kg, vg) u) # cs) (nd e t1 (a, RED, k, v) t2))"
proof -
  let ?t = "nd e t1 (a, RED, k, v) t2"
  have p: "rb_repr D s (plug ((d, (g, BLACK, kg, vg), u) # cs) (nd d ?t (p, RED, kp, vp) b))" using repr by simp
  obtain s1 where s1: "set_col s p BLACK = Some s1" "same_rest D s s1"
      "rb_repr D s1 (plug cs (nd d (nd d ?t (p, BLACK, kp, vp) b) (g, BLACK, kg, vg) u))"
    using set_col_node [OF p, of BLACK] by auto
  obtain s2 where s2: "set_col s1 g RED = Some s2" "same_rest D s1 s2"
      "rb_repr D s2 (plug cs (nd (opp d) u (g, RED, kg, vg) (nd (opp d) b (p, BLACK, kp, vp) ?t)))"
    using set_col_node [OF s1(3), of RED] by (auto simp: nd_opp)
  obtain s3 where s3: "rot (opp d) s2 g = Some s3" "same_rest D s2 s3"
      "rb_repr D s3 (plug cs (nd d ?t (p, BLACK, kp, vp) (nd d b (g, RED, kg, vg) u)))"
    using rot_node [OF s2(3)] by (auto simp: nd_opp)
  have "chd (opp d) s p = Some (adr (null_node s) b)" using read_node(2) [OF p] .
  moreover have "a \<noteq> adr (null_node s) b"
    using repr by (cases b rule: tr_nd_cases [where d = L]) (auto simp: rb_repr_def)
  ultimately have "insert_side d s a p g = Some (s3, a)"
    using read_uncle [OF repr] u s1(1) s2(1) s3(1) by (simp add: insert_side_def)
  then show ?thesis using s3 same_rest_trans [OF same_rest_trans [OF s1(2) s2(2)] s3(2)] by auto
qed

section \<open>The fixup\<close>

text \<open>What a run of the loop achieves: the same entries in a tree that is red-black once its root is black.\<close>

definition fixed :: "nat set \<Rightarrow> ('k, 'v) rbtree \<Rightarrow> ('k, 'v) tr \<Rightarrow> ('k, 'v) rbtree option \<Rightarrow> bool" where
  "fixed D s t res \<longleftrightarrow> (\<exists>s' t'. res = Some s' \<and> same_rest D s s' \<and> rb_repr D s' t' \<and> t' \<noteq> Lf \<and>
     ents t' = ents t \<and> rb_tree (paint BLACK t'))"

lemma fixedI:
  "res = Some s' \<Longrightarrow> same_rest D s s' \<Longrightarrow> rb_repr D s' t' \<Longrightarrow> t' \<noteq> Lf \<Longrightarrow> ents t' = ents t \<Longrightarrow>
     rb_tree (paint BLACK t') \<Longrightarrow> fixed D s t res"
  unfolding fixed_def by blast

lemma fixed_step:
  "fixed D s' t' res \<Longrightarrow> same_rest D s s' \<Longrightarrow> ents t' = ents t \<Longrightarrow> fixed D s t res"
  unfolding fixed_def using same_rest_trans by metis

lemma paint_black: "tcol t = c \<Longrightarrow> paint c t = t"
  by (cases t rule: tr_nd_cases [where d = L]) auto

lemma plug_neq_Lf: "t \<noteq> Lf \<Longrightarrow> plug cs t \<noteq> Lf"
  by (induction cs t rule: plug.induct) auto

lemma fixed_exit:
  assumes "rb_repr D s (plug cs (nd e l (a, c, k, v) r))" "tblack cs" "rbn n (nd e l (a, c, k, v) r)" "rbc n cs"
  shows "fixed D s (plug cs (nd e l (a, c, k, v) r)) (insert_fixup_loop s a)"
proof -
  have "rb_tree (plug cs (nd e l (a, c, k, v) r))" using assms by (intro rb_tree_plug) auto
  then have "rb_tree (paint BLACK (plug cs (nd e l (a, c, k, v) r)))"
    by (metis paint_black rb_tree_def)
  then show ?thesis
    using assms(2) by (intro fixedI [OF insert_loop_exit [OF assms(1)] same_rest_refl assms(1) plug_neq_Lf refl]) simp_all
qed

lemma fixed_outer:
  assumes repr: "rb_repr D s (plug ((d, (p, RED, kp, vp), b) # (d, (g, BLACK, kg, vg), u) # cs) t)"
    and t: "t = nd e t1 (a, RED, k, v) t2" and u: "tcol u = BLACK" "tcol b = BLACK"
    and rb: "rbn n t" "rbn n b" "rbn n u" "rbc (Suc n) cs"
  shows "fixed D s (plug ((d, (p, RED, kp, vp), b) # (d, (g, BLACK, kg, vg), u) # cs) t) (insert_fixup_loop s a)"
proof -
  obtain s' where s': "insert_side d s a p g = Some (s', a)" "same_rest D s s'"
      "rb_repr D s' (plug ((d, (p, BLACK, kp, vp), nd d b (g, RED, kg, vg) u) # cs) t)"
    using insert_side_outer [OF repr [unfolded t] u(1)] unfolding t by blast
  have fx: "fixed D s' (plug ((d, (p, BLACK, kp, vp), nd d b (g, RED, kg, vg) u) # cs) t) (insert_fixup_loop s' a)"
    unfolding t by (rule fixed_exit [where n = n]) (use s'(3) rb u in \<open>simp_all add: t\<close>)
  have en: "ents (plug ((d, (p, BLACK, kp, vp), nd d b (g, RED, kg, vg) u) # cs) t) =
      ents (plug ((d, (p, RED, kp, vp), b) # (d, (g, BLACK, kg, vg), u) # cs) t)"
    by (simp, rule ents_plug_cong) (simp add: nd_def)
  have eq: "insert_fixup_loop s a = insert_fixup_loop s' a" using insert_loop_step [OF repr t] s'(1) by simp
  show ?thesis unfolding eq by (rule fixed_step [OF fx s'(2) en])
qed

lemma rbn_paint: "rbn n t \<Longrightarrow> tcol t = RED \<Longrightarrow> rbn (Suc n) (paint BLACK t)"
  by (cases t rule: tr_nd_cases [where d = L]) auto

lemma nd_turn: "\<exists>t1 t2. nd e l x r = nd d t1 x t2"
  by (cases e; cases d) (auto simp: nd_def)

lemma insert_loop_ok:
  assumes "rb_repr D s (plug cs (nd e l (a, RED, k, v) r))" "rbn n (nd e l (a, RED, k, v) r)" "rbc n cs"
  shows "fixed D s (plug cs (nd e l (a, RED, k, v) r)) (insert_fixup_loop s a)"
  using assms
proof (induction "length cs" arbitrary: cs s e l a k v r n rule: less_induct)
  case less
  let ?t = "nd e l (a, RED, k, v) r"
  show ?case
  proof (cases cs)
    case Nil
    then have "rb_tree (paint BLACK ?t)" using less.prems(2) by (auto simp: rb_tree_def intro!: exI [of _ "Suc n"])
    then show ?thesis using less.prems(1) insert_loop_exit [OF less.prems(1)] Nil by (auto simp: fixed_def)
  next
    case (Cons f cs')
    obtain d p c kp vp b where f: "f = (d, (p, c, kp, vp), b)" by (cases f) auto
    show ?thesis
    proof (cases c)
      case BLACK
      then show ?thesis using less.prems Cons f by (intro fixed_exit) auto
    next
      case RED
      then obtain d' g kg vg u cs'' where cs': "cs' = (d', (g, BLACK, kg, vg), u) # cs''"
        using less.prems(3) Cons f by (cases cs' rule: tblack.cases) auto
      have rb: "rbn n b" "tcol b = BLACK" "rbn n u" "rbc (Suc n) cs''"
        using less.prems(3) by (auto simp: Cons f RED cs')
      have repr: "rb_repr D s (plug ((d, (p, RED, kp, vp), b) # (d', (g, BLACK, kg, vg), u) # cs'') ?t)"
        using less.prems(1) by (simp add: Cons f RED cs')
      note step = insert_loop_step [OF repr refl]
      show ?thesis
      proof (cases "tcol u")
        case u: RED
        let ?t' = "nd d' (nd d ?t (p, BLACK, kp, vp) b) (g, RED, kg, vg) (paint BLACK u)"
        obtain s' where s': "insert_side d' s a p g = Some (s', g)" "same_rest D s s'" "rb_repr D s' (plug cs'' ?t')"
          using insert_side_red [OF repr u] by blast
        have "u \<noteq> Lf" using u by auto
        then have fx: "fixed D s' (plug cs'' ?t') (insert_fixup_loop s' g)"
          using s'(3) less.prems(2) rb u by (intro less.hyps [where n = "Suc n"]) (auto simp: Cons cs' rbn_paint)
        have en: "ents (plug cs'' ?t') = ents (plug cs ?t)"
          by (simp add: Cons f cs', rule ents_plug_cong) (simp add: nd_def)
        have eq: "insert_fixup_loop s a = insert_fixup_loop s' g" using step s'(1) by simp
        show ?thesis unfolding eq by (rule fixed_step [OF fx s'(2) en])
      next
        case u: BLACK
        show ?thesis
        proof (cases "d = d'")
          case True
          then show ?thesis using fixed_outer [OF repr [unfolded True] refl u rb(2) less.prems(2) rb(1,3,4)]
            by (simp add: Cons f cs' RED)
        next
          case False
          then have d: "d = opp d'" by (cases d; cases d') auto
          obtain t1 t2 where t: "?t = nd d' t1 (a, RED, k, v) t2" using nd_turn by blast
          have rbt: "rbn n t1" "rbn n t2" "tcol t1 = BLACK" "tcol t2 = BLACK" using less.prems(2) unfolding t by auto
          let ?cs = "(d', (a, RED, k, v), t2) # (d', (g, BLACK, kg, vg), u) # cs''"
          obtain s' where s': "insert_side d' s a p g = Some (s', p)" "same_rest D s s'"
              "rb_repr D s' (plug ?cs (nd d' b (p, RED, kp, vp) t1))"
            using insert_side_inner [OF repr [unfolded t d] u] by blast
          have fx: "fixed D s' (plug ?cs (nd d' b (p, RED, kp, vp) t1)) (insert_fixup_loop s' p)"
            using rbt rb by (intro fixed_outer [OF s'(3) refl u, where n = n]) auto
          have en: "ents (plug ?cs (nd d' b (p, RED, kp, vp) t1)) = ents (plug cs ?t)"
            unfolding t by (simp add: Cons f cs' d, rule ents_plug_cong) (cases d'; simp add: nd_def)
          have eq: "insert_fixup_loop s a = insert_fixup_loop s' p" using step s'(1) by simp
          show ?thesis unfolding eq by (rule fixed_step [OF fx s'(2) en])
        qed
      qed
    qed
  qed
qed

lemma insert_fixup_ok:
  assumes "rb_repr D s (plug cs (nd e l (a, RED, k, v) r))" "rbn n (nd e l (a, RED, k, v) r)" "rbc n cs"
  shows "\<exists>s' t'. insert_fixup s a = Some s' \<and> same_rest D s s' \<and> rb_repr D s' t' \<and> rb_tree t' \<and>
    ents t' = ents (plug cs (nd e l (a, RED, k, v) r))"
proof -
  obtain s1 t1 where s1: "insert_fixup_loop s a = Some s1" "same_rest D s s1" "rb_repr D s1 t1" "t1 \<noteq> Lf"
      "ents t1 = ents (plug cs (nd e l (a, RED, k, v) r))" "rb_tree (paint BLACK t1)"
    using insert_loop_ok [OF assms] unfolding fixed_def by blast
  have "rb_root s1 = adr (null_node s1) t1" using s1(3) by (simp add: rb_repr_def)
  then obtain s' where "set_col s1 (rb_root s1) BLACK = Some s'" "rb_repr D s' (paint BLACK t1)" "same_rest D s1 s'"
    using set_col_tree [of D s1 "[]" t1 BLACK] s1(3,4) by auto
  then show ?thesis
    using s1 same_rest_trans [OF s1(2)] by (intro exI [of _ s'] exI [of _ "paint BLACK t1"]) (auto simp: insert_fixup_def)
qed

section \<open>The search tree order\<close>

fun lents :: "('k, 'v) frame list \<Rightarrow> ('k \<times> 'v) list" where
  "lents [] = []"
| "lents ((L, x, s) # cs) = lents cs"
| "lents ((R, (a, c, k, v), s) # cs) = lents cs @ ents s @ [(k, v)]"

fun rents :: "('k, 'v) frame list \<Rightarrow> ('k \<times> 'v) list" where
  "rents [] = []"
| "rents ((L, (a, c, k, v), s) # cs) = (k, v) # ents s @ rents cs"
| "rents ((R, x, s) # cs) = rents cs"

lemma ents_plug: "ents (plug cs t) = lents cs @ ents t @ rents cs"
proof (induction cs t rule: plug.induct)
  case (2 d a c k v s cs t)
  then show ?case by (cases d) (auto simp: nd_def)
qed simp

definition keys :: "('k, 'v) tr \<Rightarrow> 'k list" where
  "keys t = map fst (ents t)"

definition sorted_tree :: "('k :: linorder, 'v) tr \<Rightarrow> bool" where
  "sorted_tree t \<longleftrightarrow> sorted_wrt (<) (keys t)"

text \<open>The descent of \<open>insert\<close> as a walk of the zipper; \<open>None\<close> when the key is met.\<close>

fun descend :: "'k :: linorder \<Rightarrow> ('k, 'v) frame list \<Rightarrow> ('k, 'v) tr \<Rightarrow> ('k, 'v) frame list option" where
  "descend k cs Lf = Some cs"
| "descend k cs (Nd l (a, c, k', v') r) =
     (if k < k' then descend k ((L, (a, c, k', v'), r) # cs) l
      else if k > k' then descend k ((R, (a, c, k', v'), l) # cs) r
      else None)"

lemma insert_descend_zip:
  "rb_repr D s (plug cs t) \<Longrightarrow>
     insert_descend s k (adr (null_node s) t) (cpar (null_node s) cs) = Some (map_option (cpar (null_node s)) (descend k cs t))"
proof (induction k cs t rule: descend.induct)
  case (1 k cs)
  then show ?case by (simp add: insert_descend.simps)
next
  case (2 k cs l a c k' v' r)
  have node: "Nd l (a, c, k', v') r = nd L l (a, c, k', v') r" by (simp add: nd_def)
  note rd = read_node [OF "2.prems" [unfolded node]]
  have "plug ((R, (a, c, k', v'), l) # cs) r = plug cs (Nd l (a, c, k', v') r)"
    "plug ((L, (a, c, k', v'), r) # cs) l = plug cs (Nd l (a, c, k', v') r)"
    by (simp_all add: nd_def)
  then show ?case
    using "2.IH" "2.prems" rd by (subst insert_descend.simps) (auto simp: chd_def)
qed

lemma descend_plug: "descend k cs t = Some cs' \<Longrightarrow> plug cs' Lf = plug cs t"
  by (induction k cs t rule: descend.induct) (auto simp: nd_def split: if_splits)

definition bounds_ok :: "'k :: linorder \<Rightarrow> ('k, 'v) frame list \<Rightarrow> bool" where
  "bounds_ok k cs \<longleftrightarrow> (\<forall>p \<in> set (lents cs). fst p < k) \<and> (\<forall>p \<in> set (rents cs). k < fst p) \<and>
     (\<forall>d x s cs'. cs = (d, x, s) # cs' \<longrightarrow> (d = L \<longleftrightarrow> k < fst (snd (snd x))))"

lemma sorted_tree_plug:
  "sorted_tree (plug cs t) \<Longrightarrow> sorted_wrt (<) (map fst (lents cs)) \<and> sorted_tree t \<and> sorted_wrt (<) (map fst (rents cs))"
  by (auto simp: sorted_tree_def keys_def ents_plug sorted_wrt_append)

lemma descend_bounds:
  "sorted_tree t \<Longrightarrow> bounds_ok k cs \<Longrightarrow> descend k cs t = Some cs' \<Longrightarrow> bounds_ok k cs'"
proof (induction k cs t rule: descend.induct)
  case (2 k cs l a c k' v' r)
  have st: "sorted_tree l" "sorted_tree r" "\<forall>p \<in> set (ents l). fst p < k'" "\<forall>p \<in> set (ents r). k' < fst p"
    using "2.prems"(1) by (auto simp: sorted_tree_def keys_def sorted_wrt_append)
  show ?case
  proof (cases "k < k'")
    case True
    have "bounds_ok k ((L, (a, c, k', v'), r) # cs)"
      using "2.prems"(2) st(4) True by (force simp: bounds_ok_def)
    then show ?thesis using "2.IH"(1) [OF True st(1)] "2.prems"(3) True by simp
  next
    case False
    then have gt: "k > k'" using "2.prems"(3) by (auto split: if_splits)
    have "bounds_ok k ((R, (a, c, k', v'), l) # cs)"
      using "2.prems"(2) st(3) gt by (force simp: bounds_ok_def)
    then show ?thesis using "2.IH"(2) [OF False gt st(2)] "2.prems"(3) gt False by simp
  qed
qed simp

lemma descend_None: "sorted_tree t \<Longrightarrow> descend k cs t = None \<longleftrightarrow> k \<in> set (keys t)"
  by (induction k cs t rule: descend.induct) (auto simp: sorted_tree_def keys_def sorted_wrt_append)

end
