(* ===== verification/RbSpec.thy ===== *)
theory RbSpec
  imports RbInsert
begin

text \<open>
  Search and insertion against the entries of the tree: the invariant of the whole structure is a
  red-black search tree that the heap represents and that holds every allocated node.
\<close>

definition rb_inv :: "('k :: linorder, 'v) rbtree \<Rightarrow> ('k, 'v) tr \<Rightarrow> bool" where
  "rb_inv s t \<longleftrightarrow> rb_repr {} s t \<and> rb_tree t \<and> sorted_tree t"

lemma rb_new_inv: "rb_inv (rb_new k0 v0) Lf"
  by (auto simp: rb_inv_def rb_repr_def rb_new_def rb_tree_def sorted_tree_def keys_def)

section \<open>Search\<close>

text \<open>The node that holds a key in a search tree.\<close>

fun node_of :: "'k :: linorder \<Rightarrow> ('k, 'v) tr \<Rightarrow> nat option" where
  "node_of k Lf = None"
| "node_of k (Nd l (a, c, k', v') r) = (if k' = k then Some a else if k' < k then node_of k r else node_of k l)"

lemma find_loop_zip:
  "rb_repr D s (plug cs t) \<Longrightarrow>
     find_loop s k (adr (null_node s) t) = Some (case node_of k t of None \<Rightarrow> 0 | Some a \<Rightarrow> a)"
proof (induction k t arbitrary: cs rule: node_of.induct)
  case (1 k)
  then show ?case by (simp add: find_loop.simps)
next
  case (2 k l a c k' v' r)
  have node: "Nd l (a, c, k', v') r = nd L l (a, c, k', v') r" by (simp add: nd_def)
  note rd = read_node [OF "2.prems" [unfolded node]]
  have "plug ((R, (a, c, k', v'), l) # cs) r = plug cs (Nd l (a, c, k', v') r)"
    "plug ((L, (a, c, k', v'), r) # cs) l = plug cs (Nd l (a, c, k', v') r)"
    by (simp_all add: nd_def)
  then show ?case
    using "2.IH"(1) [of "(R, (a, c, k', v'), l) # cs"] "2.IH"(2) [of "(L, (a, c, k', v'), r) # cs"] "2.prems" rd
    by (subst find_loop.simps) (auto simp: chd_def)
qed

lemma rb_find_ok:
  assumes "rb_repr D s t"
  shows "rb_find s k = Some (case node_of k t of None \<Rightarrow> 0 | Some a \<Rightarrow> a)"
  using find_loop_zip [of D s "[]" t k] assms by (simp add: rb_find_def rb_repr_def)

lemma node_of_None: "sorted_tree t \<Longrightarrow> node_of k t = None \<longleftrightarrow> k \<notin> set (keys t)"
  by (induction k t rule: node_of.induct) (auto simp: sorted_tree_def keys_def sorted_wrt_append)

lemma node_of_zip:
  "node_of k t = Some a \<Longrightarrow> \<exists>cs l c v r. t = plug cs (nd L l (a, c, k, v) r)"
proof (induction k t rule: node_of.induct)
  case (2 k l a' c' k' v' r)
  have up: "\<exists>cs l c v r. Nd l0 (a', c', k', v') r0 = plug cs (nd L l (a, c, k, v) r)"
    if "t = plug cs (nd L l (a, c, k, v) r)" "plug [(d, (a', c', k', v'), u)] t = Nd l0 (a', c', k', v') r0"
    for t cs l c v r d u l0 r0
  proof -
    have "plug (cs @ [(d, (a', c', k', v'), u)]) x = nd d (plug cs x) (a', c', k', v') u" for x
      by (induction cs x rule: plug.induct) auto
    then show ?thesis using that by (metis plug.simps)
  qed
  show ?case
  proof (cases "k' = k")
    case True
    then show ?thesis using "2.prems" by (intro exI [of _ "[]"]) (auto simp: nd_def)
  next
    case False
    then show ?thesis
      using "2.prems" "2.IH" up [of r _ _ _ _ _ R l l r] up [of l _ _ _ _ _ L r l r]
      by (auto simp: nd_def split: if_splits)
  qed
qed simp

text \<open>The value stored in the node that \<open>find\<close> returns.\<close>

definition find_value :: "('k :: linorder, 'v) rbtree \<Rightarrow> 'k \<Rightarrow> 'v option option" where
  "find_value s k = map_option (\<lambda>a. if a = 0 then None else map_option val_of (heap s a)) (rb_find s k)"

lemma map_of_sorted_entry:
  "sorted_wrt (<) (map fst xs) \<Longrightarrow> (k :: 'k :: linorder, v) \<in> set xs \<Longrightarrow> map_of xs k = Some v"
  by (rule map_of_is_SomeI) (auto simp: strict_sorted_iff)

lemma find_value_ok:
  assumes "rb_repr D s t" "sorted_tree t"
  shows "find_value s k = Some (map_of (ents t) k)"
proof (cases "node_of k t")
  case None
  then have "k \<notin> fst ` set (ents t)" using node_of_None [OF assms(2)] by (simp add: keys_def)
  then show ?thesis using rb_find_ok [OF assms(1)] None by (simp add: find_value_def map_of_eq_None_iff [symmetric])
next
  case (Some a)
  then obtain cs l c v r where t: "t = plug cs (nd L l (a, c, k, v) r)" using node_of_zip by blast
  have "(k, v) \<in> set (ents t)" by (auto simp: t ents_plug nd_def)
  then have "map_of (ents t) k = Some v"
    using assms(2) by (intro map_of_sorted_entry) (simp_all add: sorted_tree_def keys_def)
  then show ?thesis
    using rb_find_ok [OF assms(1)] Some read_node(7,8) [OF assms(1) [unfolded t]] by (simp add: find_value_def mk_node_def)
qed

section \<open>Insertion of a new key\<close>

lemma link_new:
  fixes v :: 'v
  assumes repr: "rb_repr D (s :: ('k :: linorder, 'v) rbtree) (plug cs Lf)" and b: "bounds_ok k cs"
  defines "a \<equiv> next_free s"
  defines "s1 \<equiv> s\<lparr>heap := (heap s)(a \<mapsto> \<lparr>key = k, val_of = v, color = RED, left = null_node s,
                right = null_node s, parent = cpar (null_node s) cs\<rparr>), next_free := Suc a\<rparr>"
  shows "\<exists>s'. (if cpar (null_node s) cs = null_node s1 then Some (s1\<lparr>rb_root := a\<rparr>)
      else do { pk \<leftarrow> key_at s1 (cpar (null_node s) cs);
                if k < pk then set_lft s1 (cpar (null_node s) cs) a else set_rgt s1 (cpar (null_node s) cs) a }) = Some s' \<and>
    rb_repr D s' (plug cs (nd L Lf (a, RED, k, v) Lf))"
proof -
  have fresh: "heap s a = None" "a \<noteq> null_node s" "a \<notin> set (caddrs cs)" "a \<notin> D" "0 < a"
    using repr by (auto simp: rb_repr_def a_def dom_def)
  have nf: "next_free s = a" by (simp add: a_def)
  have node: "\<lparr>key = k, val_of = v, color = RED, left = n, right = n, parent = g\<rparr> = mk_node L RED k v n n g" for n g
    by (simp add: mk_node_def)
  show ?thesis
  proof (cases cs)
    case Nil
    then show ?thesis
      using repr fresh by (auto simp: s1_def rb_repr_def node nf less_Suc_eq)
  next
    case (Cons f cs')
    obtain d p c kp vp u where f: "f = (d, (p, c, kp, vp), u)" by (cases f) auto
    have side: "d = L \<longleftrightarrow> k < kp" using b by (simp add: bounds_ok_def Cons f)
    have hp: "heap s1 p = Some (mk_node d c kp vp (null_node s) (adr (null_node s) u) (cpar (null_node s) cs'))"
      "p \<noteq> null_node s1" "p \<noteq> a"
      using repr fresh by (auto simp: rb_repr_def Cons f s1_def)
    let ?s' = "s1\<lparr>heap := (heap s1)(p \<mapsto> mk_node d c kp vp a (adr (null_node s) u) (cpar (null_node s) cs'))\<rparr>"
    have "(if k < kp then set_lft s1 p a else set_rgt s1 p a) = Some ?s'"
      using set_mk_node(1) [OF hp(1), of a] side by (cases d) (auto simp: chd_cases)
    moreover have "key_at s1 p = Some kp" using hp(1) by (simp add: get_defs mk_node_def)
    moreover have "rb_repr D ?s' (plug cs (nd L Lf (a, RED, k, v) Lf))"
      using repr fresh hp(2,3) by (auto simp: rb_repr_def Cons f s1_def node nf less_Suc_eq)
    ultimately show ?thesis using hp(2) by (intro exI [of _ ?s']) (simp add: Cons f split: if_splits)
  qed
qed

lemma rb_insert_new:
  assumes inv: "rb_inv s t" and new: "k \<notin> set (keys t)"
  shows "\<exists>s' t'. rb_insert s k v = Some s' \<and> rb_inv s' t' \<and> map_of (ents t') = (map_of (ents t))(k \<mapsto> v)"
proof -
  have repr: "rb_repr {} s (plug [] t)" and st: "sorted_tree t" and rb: "rb_tree t" using inv by (auto simp: rb_inv_def)
  obtain cs where cs: "descend k [] t = Some cs" using descend_None [OF st] new by (cases "descend k [] t") auto
  have plug: "plug cs Lf = t" using descend_plug [OF cs] by simp
  have b: "bounds_ok k cs" by (rule descend_bounds [OF st _ cs]) (simp add: bounds_ok_def)
  obtain n where n: "rbn n (Lf :: ('a, 'b) tr)" "rbc n cs" using rb_tree_plugE [of cs Lf] rb plug by auto
  let ?a = "next_free s"
  obtain s1 where s1: "insert_node_at s k v (cpar (null_node s) cs) = insert_fixup s1 ?a"
      "rb_repr {} s1 (plug cs (nd L Lf (?a, RED, k, v) Lf))"
    using link_new [of "{}" s cs k v] repr plug b by (auto simp: insert_node_at_def Let_def)
  obtain s' t' where s': "insert_fixup s1 ?a = Some s'" "rb_repr {} s' t'" "rb_tree t'"
      "ents t' = ents (plug cs (nd L Lf (?a, RED, k, v) Lf))"
    using insert_fixup_ok [OF s1(2), of n] n by auto
  have ents: "ents t' = lents cs @ (k, v) # rents cs" "ents t = lents cs @ rents cs"
    using s'(4) plug [symmetric] by (simp_all add: ents_plug nd_def)
  have "sorted_tree t'"
    using b st by (auto simp: sorted_tree_def keys_def ents bounds_ok_def sorted_wrt_append)
  moreover have "map_of (ents t') = (map_of (ents t))(k \<mapsto> v)"
  proof -
    have "k \<notin> fst ` set (lents cs)" using b by (auto simp: bounds_ok_def)
    then have "map_of (lents cs) k = None" by (simp add: map_of_eq_None_iff)
    then show ?thesis by (auto simp: ents map_add_def fun_eq_iff split: option.split)
  qed
  moreover have "rb_insert s k v = Some s'"
    using insert_descend_zip [OF repr, of k] repr cs s1(1) s'(1)
    by (subst rb_insert.simps) (simp add: rb_repr_def)
  ultimately show ?thesis using s'(2,3) by (auto simp: rb_inv_def)
qed

end
