(* ===== verification/RbErase.thy ===== *)
theory RbErase
  imports RbSpec
begin

text \<open>
  Deletion in \<open>cpp/datastructure/tree/red_black_tree.h\<close>: the rebalancing of \<open>_erase_fixup\<close> at a subtree that lacks one
  black node.
\<close>

section \<open>The deficient position\<close>

text \<open>When the current subtree is empty, the loop finds its parent through the null node.\<close>

definition focused :: "('k, 'v) rbtree \<Rightarrow> ('k, 'v) frame list \<Rightarrow> ('k, 'v) tr \<Rightarrow> bool" where
  "focused s cs t \<longleftrightarrow> (t = Lf \<longrightarrow> par s (null_node s) = Some (cpar (null_node s) cs))"

text \<open>The context wants black height \<open>m\<close>; a red subtree gives it once painted black, a black one lacks one.\<close>

definition deficient :: "nat \<Rightarrow> ('k, 'v) frame list \<Rightarrow> ('k, 'v) tr \<Rightarrow> bool" where
  "deficient m cs t \<longleftrightarrow> rbc m cs \<and>
     (case tcol t of RED \<Rightarrow> rbn m (paint BLACK t) | BLACK \<Rightarrow> 0 < m \<and> rbn (m - 1) t)"

lemma focused_same: "focused s cs t \<Longrightarrow> same_rest D s s' \<Longrightarrow> cpar (null_node s) cs' = cpar (null_node s) cs \<Longrightarrow> focused s' cs' t"
  by (simp add: focused_def same_rest_def get_defs)

lemma par_focus:
  assumes "rb_repr D s (plug cs t)" "focused s cs t"
  shows "par s (adr (null_node s) t) = Some (cpar (null_node s) cs)"
proof (cases t rule: tr_nd_cases [where d = L])
  case Lf
  then show ?thesis using assms(2) by (simp add: focused_def)
next
  case (nd a x b)
  then show ?thesis using read_node(3) assms(1) by (cases x) auto
qed

lemma croot_in: "cs \<noteq> [] \<Longrightarrow> croot cs p \<in> set (caddrs cs)"
proof (induction cs p rule: croot.induct)
  case (2 d a c k v s cs p)
  then show ?case by (cases cs) auto
qed simp

lemma focus_not_root:
  assumes "rb_repr D s (plug cs t)" "cs \<noteq> []"
  shows "adr (null_node s) t \<noteq> rb_root s"
proof -
  have "rb_root s \<in> set (caddrs cs)" using assms croot_in [OF assms(2)] by (simp add: rb_repr_def)
  moreover have "adr (null_node s) t \<notin> set (caddrs cs)"
    using assms(1) by (cases t rule: tr_nd_cases [where d = L]) (auto simp: rb_repr_def)
  ultimately show ?thesis by metis
qed

section \<open>One iteration of the fixup\<close>

definition erase_side :: "dir \<Rightarrow> ('k, 'v) rbtree \<Rightarrow> nat \<Rightarrow> nat \<Rightarrow> (('k, 'v) rbtree \<times> nat) option" where
  "erase_side d s x p =
     do {
       brother \<leftarrow> chd (opp d) s p;
       bc \<leftarrow> col s brother;
       (s, brother) \<leftarrow> (if bc = RED then do {
           s \<leftarrow> set_col s brother BLACK;
           s \<leftarrow> set_col s p RED;
           s \<leftarrow> rot d s p;
           p \<leftarrow> par s x;
           brother \<leftarrow> chd (opp d) s p;
           Some (s, brother)
         } else Some (s, brother));
       p \<leftarrow> par s x;
       bl \<leftarrow> lft s brother;
       br \<leftarrow> rgt s brother;
       blc \<leftarrow> col s bl;
       brc \<leftarrow> col s br;
       if blc = BLACK \<and> brc = BLACK then do {
         s \<leftarrow> set_col s brother RED;
         Some (s, p)
       } else if (if d = L then brc else blc) = BLACK then do {
         s \<leftarrow> set_col s (if d = L then bl else br) BLACK;
         s \<leftarrow> set_col s brother RED;
         s \<leftarrow> rot (opp d) s brother;
         Some (s, x)
       } else do {
         pc \<leftarrow> col s p;
         s \<leftarrow> set_col s brother pc;
         s \<leftarrow> set_col s p BLACK;
         s \<leftarrow> set_col s (if d = L then br else bl) BLACK;
         s \<leftarrow> rot d s p;
         Some (s, rb_root s)
       }
     }"

lemma erase_fixup_side: "erase_fixup_left = erase_side L" "erase_fixup_right = erase_side R"
  by (simp_all add: fun_eq_iff erase_fixup_left_def erase_fixup_right_def erase_side_def rotate_rot chd_cases
    cong: if_cong)

text \<open>The second half of an iteration, once the brother is black.\<close>

definition erase_black :: "dir \<Rightarrow> ('k, 'v) rbtree \<Rightarrow> nat \<Rightarrow> nat \<Rightarrow> nat \<Rightarrow> (('k, 'v) rbtree \<times> nat) option" where
  "erase_black d s x p brother =
     do {
       n \<leftarrow> chd d s brother;
       f \<leftarrow> chd (opp d) s brother;
       nc \<leftarrow> col s n;
       fc \<leftarrow> col s f;
       if nc = BLACK \<and> fc = BLACK then do {
         s \<leftarrow> set_col s brother RED;
         Some (s, p)
       } else if fc = BLACK then do {
         s \<leftarrow> set_col s n BLACK;
         s \<leftarrow> set_col s brother RED;
         s \<leftarrow> rot (opp d) s brother;
         Some (s, x)
       } else do {
         pc \<leftarrow> col s p;
         s \<leftarrow> set_col s brother pc;
         s \<leftarrow> set_col s p BLACK;
         s \<leftarrow> set_col s f BLACK;
         s \<leftarrow> rot d s p;
         Some (s, rb_root s)
       }
     }"

lemma erase_side_black:
  assumes "chd (opp d) s p = Some brother" "col s brother = Some BLACK" "par s x = Some p"
    "chd d s brother = Some n" "chd (opp d) s brother = Some f" "col s n = Some nc" "col s f = Some fc"
  shows "erase_side d s x p = erase_black d s x p brother"
  using assms by (cases d) (auto simp: erase_side_def erase_black_def chd_cases)

lemma erase_side_red:
  assumes "chd (opp d) s p = Some b" "col s b = Some RED" "set_col s b BLACK = Some s1" "set_col s1 p RED = Some s2"
    "rot d s2 p = Some s3" "par s3 x = Some p"
    "chd (opp d) s3 p = Some b'" "col s3 b' = Some BLACK"
    "chd d s3 b' = Some n" "chd (opp d) s3 b' = Some f" "col s3 n = Some nc" "col s3 f = Some fc"
  shows "erase_side d s x p = erase_black d s3 x p b'"
  using assms by (cases d) (auto simp: erase_side_def erase_black_def chd_cases)

lemma erase_fixup_step:
  assumes repr: "rb_repr D s (plug ((d, (p, c, kp, vp), b) # cs) t)" and t: "tcol t = BLACK" "b \<noteq> Lf"
    and f: "focused s ((d, (p, c, kp, vp), b) # cs) t"
  shows "erase_fixup s (adr (null_node s) t) =
    Option.bind (erase_side d s (adr (null_node s) t) p) (\<lambda>(s, x). erase_fixup s x)"
proof -
  let ?x = "adr (null_node s) t"
  have "?x \<noteq> rb_root s" using focus_not_root [OF repr] by simp
  moreover have "col s ?x = Some BLACK" using read_color [OF repr] t(1) by simp
  moreover have "par s ?x = Some p" using par_focus [OF repr f] by simp
  moreover have "\<exists>pl. lft s p = Some pl \<and> (?x = pl \<longleftrightarrow> d = L)"
    using read_side [OF repr] t(2) read_node(8) [of D s cs d t p c kp vp b] repr by (auto simp: get_defs)
  ultimately have "erase_fixup_loop s ?x = Option.bind (erase_side d s ?x p) (\<lambda>(s, x). erase_fixup_loop s x)"
    by (subst erase_fixup_loop.simps) (cases d; auto simp: erase_fixup_side)
  then show ?thesis by (simp add: erase_fixup_def split_beta' Option.bind_assoc)
qed

section \<open>The cases of a black brother\<close>

text \<open>The brother as the position, below the parent.\<close>

lemma at_brother:
  "plug ((d, x, b) # cs) t = plug ((opp d, x, t) # cs) b"
  by (cases x) (simp add: nd_opp)

lemma read_brother:
  assumes "rb_repr D s (plug ((d, (p, c, kp, vp), nd d bn (w, cw, kw, vw) bf) # cs) t)"
  shows "chd (opp d) s p = Some w" "col s p = Some c" "col s w = Some cw"
    "chd d s w = Some (adr (null_node s) bn)" "chd (opp d) s w = Some (adr (null_node s) bf)"
    "col s (adr (null_node s) bn) = Some (tcol bn)" "col s (adr (null_node s) bf) = Some (tcol bf)"
proof -
  have p: "rb_repr D s (plug cs (nd d t (p, c, kp, vp) (nd d bn (w, cw, kw, vw) bf)))" using assms by simp
  have w: "rb_repr D s (plug ((opp d, (p, c, kp, vp), t) # cs) (nd d bn (w, cw, kw, vw) bf))"
    using assms by (simp add: nd_opp)
  show "chd (opp d) s p = Some w" "col s p = Some c" using read_node(2,4) [OF p] by simp_all
  show "col s w = Some cw" "chd d s w = Some (adr (null_node s) bn)" "chd (opp d) s w = Some (adr (null_node s) bf)"
    using read_node(1,2,4) [OF w] by simp_all
  show "col s (adr (null_node s) bn) = Some (tcol bn)"
    using read_color [of D s "(d, (w, cw, kw, vw), bf) # (opp d, (p, c, kp, vp), t) # cs" bn] w by simp
  show "col s (adr (null_node s) bf) = Some (tcol bf)"
    using read_color [of D s "(opp d, (w, cw, kw, vw), bn) # (opp d, (p, c, kp, vp), t) # cs" bf] w by (simp add: nd_opp)
qed

text \<open>Case 2: both children of the brother are black; the parent lacks a black node instead.\<close>

lemma erase_black_2:
  assumes repr: "rb_repr D s (plug ((d, (p, c, kp, vp), nd d bn (w, BLACK, kw, vw) bf) # cs) t)"
    and "tcol bn = BLACK" "tcol bf = BLACK"
  shows "\<exists>s'. erase_black d s x p w = Some (s', p) \<and> same_rest D s s' \<and>
    rb_repr D s' (plug cs (nd d t (p, c, kp, vp) (nd d bn (w, RED, kw, vw) bf)))"
proof -
  have w: "rb_repr D s (plug ((opp d, (p, c, kp, vp), t) # cs) (nd d bn (w, BLACK, kw, vw) bf))"
    using repr by (simp add: nd_opp)
  obtain s1 where "set_col s w RED = Some s1" "same_rest D s s1"
      "rb_repr D s1 (plug cs (nd d t (p, c, kp, vp) (nd d bn (w, RED, kw, vw) bf)))"
    using set_col_node [OF w, of RED] by (auto simp: nd_opp)
  then show ?thesis using read_brother [OF repr] assms(2,3) by (auto simp: erase_black_def)
qed

text \<open>Case 3: only the near child is red; a rotation brings a red far child.\<close>

lemma erase_black_3:
  assumes repr: "rb_repr D s (plug ((d, (p, c, kp, vp), nd d (nd d n1 (q, RED, kq, vq) n2) (w, BLACK, kw, vw) bf) # cs) t)"
    and "tcol bf = BLACK"
  shows "\<exists>s'. erase_black d s x p w = Some (s', x) \<and> same_rest D s s' \<and>
    rb_repr D s' (plug ((d, (p, c, kp, vp), nd d n1 (q, BLACK, kq, vq) (nd d n2 (w, RED, kw, vw) bf)) # cs) t)"
proof -
  let ?cs = "(opp d, (p, c, kp, vp), t) # cs"
  have q: "rb_repr D s (plug ((d, (w, BLACK, kw, vw), bf) # ?cs) (nd d n1 (q, RED, kq, vq) n2))"
    using repr by (simp add: nd_opp)
  obtain s1 where s1: "set_col s q BLACK = Some s1" "same_rest D s s1"
      "rb_repr D s1 (plug ?cs (nd d (nd d n1 (q, BLACK, kq, vq) n2) (w, BLACK, kw, vw) bf))"
    using set_col_node [OF q, of BLACK] by auto
  obtain s2 where s2: "set_col s1 w RED = Some s2" "same_rest D s1 s2"
      "rb_repr D s2 (plug ?cs (nd (opp d) bf (w, RED, kw, vw) (nd (opp d) n2 (q, BLACK, kq, vq) n1)))"
    using set_col_node [OF s1(3), of RED] by (auto simp: nd_opp)
  obtain s3 where s3: "rot (opp d) s2 w = Some s3" "same_rest D s2 s3"
      "rb_repr D s3 (plug ?cs (nd d n1 (q, BLACK, kq, vq) (nd d n2 (w, RED, kw, vw) bf)))"
    using rot_node [OF s2(3)] by (auto simp: nd_opp)
  have "erase_black d s x p w = Some (s3, x)"
    using read_brother [OF repr] assms(2) s1(1) s2(1) s3(1) by (simp add: erase_black_def)
  moreover have "same_rest D s s3" using same_rest_trans [OF same_rest_trans [OF s1(2) s2(2)] s3(2)] .
  ultimately show ?thesis using s3(3) by (auto simp: nd_opp)
qed

text \<open>Case 4: the far child is red; a rotation of the parent supplies the missing black node.\<close>

lemma erase_black_4:
  assumes repr: "rb_repr D s (plug ((d, (p, c, kp, vp), nd d bn (w, BLACK, kw, vw) bf) # cs) t)"
    and "tcol bf = RED"
  shows "\<exists>s'. erase_black d s x p w = Some (s', rb_root s') \<and> same_rest D s s' \<and>
    rb_repr D s' (plug cs (nd d (nd d t (p, BLACK, kp, vp) bn) (w, c, kw, vw) (paint BLACK bf)))"
proof -
  let ?nl = "null_node s"
  have "bf \<noteq> Lf" using assms(2) by auto
  have w: "rb_repr D s (plug ((opp d, (p, c, kp, vp), t) # cs) (nd d bn (w, BLACK, kw, vw) bf))"
    using repr by (simp add: nd_opp)
  obtain s1 where s1: "set_col s w c = Some s1" "same_rest D s s1"
      "rb_repr D s1 (plug cs (nd d t (p, c, kp, vp) (nd d bn (w, c, kw, vw) bf)))"
    using set_col_node [OF w, of c] by (auto simp: nd_opp)
  obtain s2 where s2: "set_col s1 p BLACK = Some s2" "same_rest D s1 s2"
      "rb_repr D s2 (plug ((opp d, (w, c, kw, vw), bn) # (opp d, (p, BLACK, kp, vp), t) # cs) bf)"
    using set_col_node [OF s1(3), of BLACK] by (auto simp: nd_opp)
  have nl2: "null_node s2 = ?nl" using same_rest_null [OF same_rest_trans [OF s1(2) s2(2)]] .
  obtain s3 where s3: "set_col s2 (adr ?nl bf) BLACK = Some s3" "same_rest D s2 s3"
      "rb_repr D s3 (plug cs (nd d t (p, BLACK, kp, vp) (nd d bn (w, c, kw, vw) (paint BLACK bf))))"
    using set_col_tree [OF s2(3) \<open>bf \<noteq> Lf\<close>, of BLACK] nl2 by (auto simp: nd_opp)
  obtain s4 where s4: "rot d s3 p = Some s4" "same_rest D s3 s4"
      "rb_repr D s4 (plug cs (nd d (nd d t (p, BLACK, kp, vp) bn) (w, c, kw, vw) (paint BLACK bf)))"
    using rot_node [OF s3(3)] by blast
  have "erase_black d s x p w = Some (s4, rb_root s4)"
    using read_brother [OF repr] assms(2) s1(1) s2(1) s3(1) s4(1) by (simp add: erase_black_def)
  moreover have "same_rest D s s4"
    using same_rest_trans [OF same_rest_trans [OF same_rest_trans [OF s1(2) s2(2)] s3(2)] s4(2)] .
  ultimately show ?thesis using s4(3) by blast
qed

section \<open>The fixup\<close>

definition erased :: "nat set \<Rightarrow> ('k, 'v) rbtree \<Rightarrow> ('k, 'v) tr \<Rightarrow> ('k, 'v) rbtree option \<Rightarrow> bool" where
  "erased D s t res \<longleftrightarrow> (\<exists>s' t'. res = Some s' \<and> same_rest D s s' \<and> rb_repr D s' t' \<and> rb_tree t' \<and> ents t' = ents t)"

lemma erased_step: "erased D s' t' res \<Longrightarrow> same_rest D s s' \<Longrightarrow> ents t' = ents t \<Longrightarrow> erased D s t res"
  unfolding erased_def using same_rest_trans by metis

lemma erased_exit:
  assumes repr: "rb_repr D s (plug cs t)" and m: "deficient m cs t" and stop: "cs = [] \<or> tcol t = RED"
  shows "erased D s (plug cs t) (erase_fixup s (adr (null_node s) t))"
proof -
  let ?x = "adr (null_node s) t"
  have root: "cs = [] \<Longrightarrow> ?x = rb_root s" using repr by (auto simp: rb_repr_def)
  have loop: "erase_fixup_loop s ?x = Some (s, ?x)"
    using stop root read_color [OF repr] by (subst erase_fixup_loop.simps) auto
  show ?thesis
  proof (cases "t = Lf")
    case True
    obtain n where n: "heap s (null_node s) = Some n" "color n = BLACK" using repr by (auto simp: rb_repr_def)
    have same: "n\<lparr>color := BLACK\<rparr> = n" using n(2) by (cases n) simp
    have "set_col s (null_node s) BLACK = Some s"
      using n(1) by (simp add: set_defs same fun_upd_idem)
    then show ?thesis
      using loop True stop repr by (auto simp: erase_fixup_def erased_def rb_tree_def)
  next
    case False
    obtain s' where s': "set_col s ?x BLACK = Some s'" "rb_repr D s' (plug cs (paint BLACK t))" "same_rest D s s'"
      using set_col_tree [OF repr False] by blast
    have "rb_tree (plug cs (paint BLACK t))"
    proof (cases "tcol t")
      case RED
      then show ?thesis using m False by (intro rb_tree_plug [of m]) (auto simp: deficient_def)
    next
      case BLACK
      then show ?thesis using m stop paint_black [of t BLACK] by (auto simp: deficient_def rb_tree_def)
    qed
    moreover have "ents (plug cs (paint BLACK t)) = ents (plug cs t)" by (rule ents_plug_cong) simp
    ultimately show ?thesis using loop s' by (auto simp: erase_fixup_def erased_def)
  qed
qed

lemma erase_far_red:
  assumes repr: "rb_repr D s (plug ((d, (p, c, kp, vp), nd d bn (w, BLACK, kw, vw) bf) # cs) t)"
    and "tcol bf = RED" and rb: "rbn n t" "rbc (Suc n) ((d, (p, c, kp, vp), nd d bn (w, BLACK, kw, vw) bf) # cs)"
  shows "erased D s (plug ((d, (p, c, kp, vp), nd d bn (w, BLACK, kw, vw) bf) # cs) t)
    (Option.bind (erase_black d s x p w) (\<lambda>(s, x). erase_fixup s x))"
proof -
  let ?t = "nd d (nd d t (p, BLACK, kp, vp) bn) (w, c, kw, vw) (paint BLACK bf)"
  obtain s' where s': "erase_black d s x p w = Some (s', rb_root s')" "same_rest D s s'" "rb_repr D s' (plug cs ?t)"
    using erase_black_4 [OF repr assms(2)] by blast
  have "bf \<noteq> Lf" using assms(2) by auto
  then have "rb_tree (plug cs ?t)"
    using rb assms(2) rbn_paint [of n bf]
    by (cases c) (auto intro: rb_tree_plug [of "Suc n"] rb_tree_plug [of "Suc (Suc n)"])
  then obtain k where "rbn k (plug cs ?t)" "tcol (plug cs ?t) = BLACK" by (auto simp: rb_tree_def)
  then have "erased D s' (plug cs ?t) (erase_fixup s' (rb_root s'))"
    using erased_exit [of D s' "[]" "plug cs ?t" "Suc k"] s'(3) by (auto simp: deficient_def rb_repr_def)
  moreover have "ents (plug cs ?t) = ents (plug ((d, (p, c, kp, vp), nd d bn (w, BLACK, kw, vw) bf) # cs) t)"
    by (simp, rule ents_plug_cong) (cases d; simp add: nd_def)
  ultimately show ?thesis using s'(1,2) by (auto intro: erased_step)
qed

lemma erase_black_ok:
  assumes repr: "rb_repr D s (plug ((d, (p, c, kp, vp), nd d bn (w, BLACK, kw, vw) bf) # cs) t)"
    and t: "tcol t = BLACK" and f: "focused s ((d, (p, c, kp, vp), nd d bn (w, BLACK, kw, vw) bf) # cs) t"
    and rb: "rbn n t" "rbc (Suc n) ((d, (p, c, kp, vp), nd d bn (w, BLACK, kw, vw) bf) # cs)"
    and IH: "\<And>s' t'. c = BLACK \<Longrightarrow> rb_repr D s' (plug cs t') \<Longrightarrow> deficient (Suc (Suc n)) cs t' \<Longrightarrow> t' \<noteq> Lf \<Longrightarrow>
      erased D s' (plug cs t') (erase_fixup s' (adr (null_node s') t'))"
  shows "erased D s (plug ((d, (p, c, kp, vp), nd d bn (w, BLACK, kw, vw) bf) # cs) t)
    (Option.bind (erase_black d s (adr (null_node s) t) p w) (\<lambda>(s, x). erase_fixup s x))"
proof (cases "tcol bf")
  case RED
  then show ?thesis using erase_far_red [OF repr] rb by blast
next
  case bf: BLACK
  show ?thesis
  proof (cases "tcol bn")
    case BLACK
    let ?t = "nd d t (p, c, kp, vp) (nd d bn (w, RED, kw, vw) bf)"
    obtain s' where s': "erase_black d s (adr (null_node s) t) p w = Some (s', p)" "same_rest D s s'"
        "rb_repr D s' (plug cs ?t)"
      using erase_black_2 [OF repr BLACK bf] by blast
    have "erased D s' (plug cs ?t) (erase_fixup s' p)"
    proof (cases c)
      case RED
      then show ?thesis
        using erased_exit [OF s'(3), of "Suc n"] rb BLACK bf by (simp add: deficient_def)
    next
      case c: BLACK
      then show ?thesis using IH [OF c s'(3)] rb t BLACK bf by (simp add: deficient_def)
    qed
    moreover have "ents (plug cs ?t) = ents (plug ((d, (p, c, kp, vp), nd d bn (w, BLACK, kw, vw) bf) # cs) t)"
      by (simp, rule ents_plug_cong) (cases d; simp add: nd_def)
    ultimately show ?thesis using s'(1,2) by (auto intro: erased_step)
  next
    case RED
    then obtain n1 q kq vq n2 where bn: "bn = nd d n1 (q, RED, kq, vq) n2"
      by (cases bn rule: tr_nd_cases [where d = d]) auto
    let ?b = "nd d n1 (q, BLACK, kq, vq) (nd d n2 (w, RED, kw, vw) bf)"
    let ?x = "adr (null_node s) t"
    obtain s' where s': "erase_black d s ?x p w = Some (s', ?x)" "same_rest D s s'"
        "rb_repr D s' (plug ((d, (p, c, kp, vp), ?b) # cs) t)"
      using erase_black_3 [OF repr [unfolded bn] bf] by blast
    have f': "focused s' ((d, (p, c, kp, vp), ?b) # cs) t" using focused_same [OF f s'(2)] by simp
    have x: "?x = adr (null_node s') t" using same_rest_null [OF s'(2)] by simp
    have "erase_fixup s' ?x = Option.bind (erase_black d s' ?x p q) (\<lambda>(s, x). erase_fixup s x)"
      unfolding x using erase_fixup_step [OF s'(3) t _ f'] read_brother [OF s'(3)] par_focus [OF s'(3) f']
      by (simp add: erase_side_black)
    moreover have "erased D s' (plug ((d, (p, c, kp, vp), ?b) # cs) t)
        (Option.bind (erase_black d s' ?x p q) (\<lambda>(s, x). erase_fixup s x))"
      using rb bf bn by (intro erase_far_red [OF s'(3), of n]) (auto split: color.splits)
    moreover have "ents (plug ((d, (p, c, kp, vp), ?b) # cs) t) =
        ents (plug ((d, (p, c, kp, vp), nd d bn (w, BLACK, kw, vw) bf) # cs) t)"
      by (simp add: bn, rule ents_plug_cong) (cases d; simp add: nd_def)
    ultimately show ?thesis using s'(1,2) by (auto intro: erased_step)
  qed
qed

text \<open>A red brother is first rotated up.\<close>

lemma erase_brother_red:
  assumes repr: "rb_repr D s (plug ((d, (p, BLACK, kp, vp), nd d (nd d bn (u, BLACK, ku, vu) bf) (w, RED, kw, vw) b2) # cs) t)"
    and f: "focused s ((d, (p, BLACK, kp, vp), nd d (nd d bn (u, BLACK, ku, vu) bf) (w, RED, kw, vw) b2) # cs) t"
  shows "\<exists>s'. erase_side d s (adr (null_node s) t) p = erase_black d s' (adr (null_node s) t) p u \<and> same_rest D s s' \<and>
    rb_repr D s' (plug ((d, (p, RED, kp, vp), nd d bn (u, BLACK, ku, vu) bf) # (d, (w, BLACK, kw, vw), b2) # cs) t)"
proof -
  let ?b1 = "nd d bn (u, BLACK, ku, vu) bf"
  have w: "rb_repr D s (plug ((opp d, (p, BLACK, kp, vp), t) # cs) (nd d ?b1 (w, RED, kw, vw) b2))"
    using repr by (simp add: nd_opp)
  obtain s1 where s1: "set_col s w BLACK = Some s1" "same_rest D s s1"
      "rb_repr D s1 (plug cs (nd d t (p, BLACK, kp, vp) (nd d ?b1 (w, BLACK, kw, vw) b2)))"
    using set_col_node [OF w, of BLACK] by (auto simp: nd_opp)
  obtain s2 where s2: "set_col s1 p RED = Some s2" "same_rest D s1 s2"
      "rb_repr D s2 (plug cs (nd d t (p, RED, kp, vp) (nd d ?b1 (w, BLACK, kw, vw) b2)))"
    using set_col_node [OF s1(3), of RED] by auto
  obtain s3 where s3: "rot d s2 p = Some s3" "same_rest D s2 s3"
      "rb_repr D s3 (plug ((d, (p, RED, kp, vp), ?b1) # (d, (w, BLACK, kw, vw), b2) # cs) t)"
    using rot_node [OF s2(3)] by auto
  have rest: "same_rest D s s3" using same_rest_trans [OF same_rest_trans [OF s1(2) s2(2)] s3(2)] .
  have "par s3 (adr (null_node s) t) = Some p"
    using par_focus [OF s3(3) focused_same [OF f rest]] same_rest_null [OF rest] by simp
  then have "erase_side d s (adr (null_node s) t) p = erase_black d s3 (adr (null_node s) t) p u"
    using erase_side_red [OF read_brother(1,3) [OF repr] s1(1) s2(1) s3(1) _ read_brother(1,3-7) [OF s3(3)]] by simp
  then show ?thesis using rest s3(3) by blast
qed

lemma erase_fixup_ok:
  assumes "rb_repr D s (plug cs t)" "deficient m cs t" "focused s cs t"
  shows "erased D s (plug cs t) (erase_fixup s (adr (null_node s) t))"
  using assms
proof (induction "length cs" arbitrary: cs s t m rule: less_induct)
  case less
  show ?case
  proof (cases "cs = [] \<or> tcol t = RED")
    case False
    then have t: "tcol t = BLACK" by (cases "tcol t") auto
    obtain d p c kp vp b cs' where cs: "cs = (d, (p, c, kp, vp), b) # cs'"
      using False by (cases cs rule: tblack.cases) auto
    obtain n where m: "m = Suc n" "rbn n t" "rbc (Suc n) cs"
      using less.prems(2) t by (cases m) (auto simp: deficient_def)
    have "b \<noteq> Lf" using m(3) by (auto simp: cs)
    then obtain bn w cw kw vw bf where b: "b = nd d bn (w, cw, kw, vw) bf"
      by (cases b rule: tr_nd_cases [where d = d]) auto
    note repr = less.prems(1) [unfolded cs b] and f = less.prems(3) [unfolded cs b]
    note step = erase_fixup_step [OF repr t _ f, simplified]
    show ?thesis
    proof (cases cw)
      case BLACK
      have "erase_side d s (adr (null_node s) t) p = erase_black d s (adr (null_node s) t) p w"
        using erase_side_black [OF read_brother(1) [OF repr] _ par_focus [OF repr f, simplified] read_brother(4-7) [OF repr]]
          read_brother(3) [OF repr] BLACK by simp
      moreover have "erased D s (plug ((d, (p, c, kp, vp), nd d bn (w, BLACK, kw, vw) bf) # cs') t)
          (Option.bind (erase_black d s (adr (null_node s) t) p w) (\<lambda>(s, x). erase_fixup s x))"
        using repr f BLACK t m cs b
        by (intro erase_black_ok [where n = n] less.hyps) (auto simp: focused_def)
      ultimately show ?thesis using step BLACK by (simp add: cs b)
    next
      case RED
      have c: "c = BLACK" using m(3) RED by (cases c) (auto simp: cs b)
      then have rb: "rbn (Suc n) bn" "tcol bn = BLACK" "rbn (Suc n) bf" "rbc (Suc (Suc n)) cs'"
        using m(3) RED by (auto simp: cs b)
      then obtain b1 u ku vu b2 where bn: "bn = nd d b1 (u, BLACK, ku, vu) b2"
        by (cases bn rule: tr_nd_cases [where d = d]) auto
      let ?cs = "(d, (p, RED, kp, vp), bn) # (d, (w, BLACK, kw, vw), bf) # cs'"
      obtain s' where s': "erase_side d s (adr (null_node s) t) p = erase_black d s' (adr (null_node s) t) p u"
          "same_rest D s s'" "rb_repr D s' (plug ?cs t)"
        using erase_brother_red [OF repr [unfolded c RED bn] f [unfolded c RED bn]] unfolding bn by blast
      have x: "adr (null_node s) t = adr (null_node s') t" using same_rest_null [OF s'(2)] by simp
      have "focused s' ?cs t" using focused_same [OF f s'(2)] by simp
      then have "erased D s' (plug ?cs t) (Option.bind (erase_black d s' (adr (null_node s) t) p u) (\<lambda>(s, x). erase_fixup s x))"
        using s'(3) t m(2) rb unfolding x bn by (intro erase_black_ok [where n = n]) auto
      moreover have "ents (plug ?cs t) = ents (plug cs t)"
        by (simp add: cs b, rule ents_plug_cong) (cases d; simp add: nd_def)
      ultimately show ?thesis using step s'(1,2) by (auto simp: cs b intro: erased_step)
    qed
  qed (use less.prems erased_exit in blast)
qed

end
