(* ===== verification/RbUnlink.thy ===== *)
theory RbUnlink
  imports RbErase
begin

text \<open>
  The unlinking of a node in \<open>erase\<close> of \<open>cpp/datastructure/tree/red_black_tree.h\<close>, and the whole operation. Between
  the unlinking and the \<open>delete\<close>, the erased node is allocated but outside the tree.
\<close>

section \<open>Replacing a node by its only child\<close>

lemma rb_transplant_replace:
  "rb_transplant s x y = do { p \<leftarrow> par s x; s \<leftarrow> replace_child s p x y; p \<leftarrow> par s x; set_par s y p }"
  by (simp add: rb_transplant_def replace_child_def cong: if_cong)

lemma transplant_child:
  assumes repr: "rb_repr D s (plug cs (nd d Lf (x, c, k, v) t))"
  shows "\<exists>s'. rb_transplant s x (adr (null_node s) t) = Some s' \<and> rb_repr (insert x D) s' (plug cs t) \<and>
    focused s' cs t \<and> null_node s' = null_node s \<and> next_free s' = next_free s \<and> heap s' x = heap s x"
proof -
  define nl where "nl = null_node s"
  note rd = repr [unfolded rb_repr_def, simplified, folded nl_def]
  have hx: "heap s x = Some (mk_node d c k v nl (adr nl t) (cpar nl cs))"
    and ctx: "ctx_at (heap s) nl x cs" and tt: "tree_at (heap s) nl x t" using rd by auto
  have pre: "distinct (caddrs cs)" "nl \<notin> set (caddrs cs)" "x \<notin> set (caddrs cs)" "x \<noteq> nl"
    "x \<notin> set (addrs t)" "set (addrs t) \<inter> set (caddrs cs) = {}" "nl \<notin> set (addrs t)" "rb_root s = croot cs x"
    "distinct (addrs t)"
    using rd by auto
  obtain s1 where s1: "replace_child s (cpar nl cs) x (adr nl t) = Some s1" "ctx_at (heap s1) nl (adr nl t) cs"
      "null_node s1 = nl" "next_free s1 = next_free s" "dom (heap s1) = dom (heap s)"
      "rb_root s = croot cs x \<longrightarrow> rb_root s1 = croot cs (adr nl t)" "\<forall>a. a \<notin> set (caddrs cs) \<longrightarrow> heap s1 a = heap s a"
    using replace_child_ok [of s x cs "adr nl t", folded nl_def, OF ctx pre(1-4)] by (elim exE conjE) (rule that)
  have hx1: "heap s1 x = heap s x" using s1(7) pre(3) by simp
  have t1: "tree_at (heap s1) nl x t"
    using tt tree_at_cong [of t "heap s1" "heap s" nl x] s1(7) pre(6) by blast
  have par: "par s x = Some (cpar nl cs)" "par s1 x = Some (cpar nl cs)" using hx hx1 by (auto simp: get_defs mk_node_def)
  show ?thesis
  proof (cases t rule: tr_nd_cases [where d = L])
    case Lf
    obtain z where z: "heap s1 nl = Some z" "color z = BLACK" using rd s1(7) pre(2) by auto
    let ?s' = "s1\<lparr>heap := (heap s1)(nl \<mapsto> z\<lparr>parent := cpar nl cs\<rparr>)\<rparr>"
    have "rb_transplant s x (adr nl t) = Some ?s'"
      using par s1(1) z by (simp add: rb_transplant_replace Lf set_defs)
    moreover have "rb_repr (insert x D) ?s' (plug cs t)"
      using rd s1 pre z by (auto simp: rb_repr_def Lf)
    moreover have "focused ?s' cs t" "null_node ?s' = nl" "next_free ?s' = next_free s" "heap ?s' x = heap s x"
      using s1(3,4) hx1 pre(4) by (simp_all add: focused_def get_defs)
    ultimately show ?thesis unfolding nl_def by blast
  next
    case (nd t1 y t2)
    obtain a ca ka va where y: "y = (a, ca, ka, va)" by (cases y) auto
    have ha: "heap s1 a = Some (mk_node L ca ka va (adr nl t1) (adr nl t2) x)" using t1 nd y by simp
    let ?s' = "s1\<lparr>heap := (heap s1)(a \<mapsto> mk_node L ca ka va (adr nl t1) (adr nl t2) (cpar nl cs))\<rparr>"
    have "rb_transplant s x (adr nl t) = Some ?s'"
      using par s1(1) ha by (simp add: rb_transplant_replace nd y set_mk_node(3))
    moreover have "rb_repr (insert x D) ?s' (plug cs t)"
      using rd s1 pre t1 nd y by (auto simp: rb_repr_def)
    moreover have "focused ?s' cs t" "null_node ?s' = nl" "next_free ?s' = next_free s" "heap ?s' x = heap s x"
      using s1(3,4) hx1 pre(5) nd y by (auto simp: focused_def)
    ultimately show ?thesis unfolding nl_def by blast
  qed
qed

section \<open>Replacing a node by its successor\<close>

text \<open>The end of the third case: \<open>y\<close>, which already has the right subtree, takes the place of \<open>x\<close>.\<close>

definition take_place :: "('k, 'v) rbtree \<Rightarrow> nat \<Rightarrow> nat \<Rightarrow> ('k, 'v) rbtree option" where
  "take_place s x y =
     do {
       s \<leftarrow> rb_transplant s x y;
       el \<leftarrow> lft s x;
       s \<leftarrow> set_lft s y el;
       rl \<leftarrow> lft s y;
       s \<leftarrow> set_par s rl y;
       ec \<leftarrow> col s x;
       set_col s y ec
     }"

lemma take_place_ok:
  fixes s :: "('k, 'v) rbtree"
  defines "nl \<equiv> null_node s"
  assumes ctx: "ctx_at (heap s) nl x cs" and hx: "heap s x = Some (mk_node L cx kx vx (adr nl l) xr (cpar nl cs))"
    and tl: "tree_at (heap s) nl x l" "l \<noteq> Lf" and tr: "tree_at (heap s) nl y r"
    and hy: "heap s y = Some (mk_node L cy ky vy yl (adr nl r) yp)"
    and dis: "distinct (caddrs cs)" "distinct (addrs l)" "distinct (addrs r)" "distinct [x, y, nl]"
      "{x, y, nl} \<inter> (set (caddrs cs) \<union> set (addrs l) \<union> set (addrs r)) = {}"
      "set (caddrs cs) \<inter> set (addrs l) = {}" "set (caddrs cs) \<inter> set (addrs r) = {}" "set (addrs l) \<inter> set (addrs r) = {}"
    and root: "rb_root s = croot cs x" and black: "map_option color (heap s nl) = Some BLACK"
    and dom: "dom (heap s) = {x, y, nl} \<union> set (caddrs cs) \<union> set (addrs l) \<union> set (addrs r)"
      "\<forall>a \<in> dom (heap s). 0 < a \<and> a < next_free s"
  shows "\<exists>s'. take_place s x y = Some s' \<and> rb_repr {x} s' (plug cs (nd L l (y, cx, ky, vy) r)) \<and>
    null_node s' = nl \<and> heap s' nl = heap s nl"
proof -
  have pre: "nl \<notin> set (caddrs cs)" "x \<notin> set (caddrs cs)" "x \<noteq> nl" "y \<notin> set (caddrs cs)" "x \<noteq> y" "y \<noteq> nl"
    using dis by auto
  obtain s1 where s1: "replace_child s (cpar nl cs) x y = Some s1" "ctx_at (heap s1) nl y cs"
      "null_node s1 = nl" "next_free s1 = next_free s" "dom (heap s1) = dom (heap s)"
      "rb_root s = croot cs x \<longrightarrow> rb_root s1 = croot cs y" "\<forall>a. a \<notin> set (caddrs cs) \<longrightarrow> heap s1 a = heap s a"
    using replace_child_ok [of s x cs y, folded nl_def, OF ctx dis(1) pre(1,2,3)] by (elim exE conjE) (rule that)
  have h1: "heap s1 x = heap s x" "heap s1 y = heap s y" "heap s1 nl = heap s nl" using s1(7) pre by simp_all
  have t1: "tree_at (heap s1) nl x l" "tree_at (heap s1) nl y r"
    using tl(1) tr tree_at_cong [of l "heap s1" "heap s" nl x] tree_at_cong [of r "heap s1" "heap s" nl y] s1(7) dis(6,7)
    by (metis Int_iff empty_iff)+
  have par: "par s x = Some (cpar nl cs)" "par s1 x = Some (cpar nl cs)" using hx h1 by (auto simp: get_defs mk_node_def)
  obtain l1 a ca ka va l2 where l: "l = nd L l1 (a, ca, ka, va) l2" using tl(2) by (cases l rule: tr_nd_cases [where d = L]) auto
  have ha: "heap s1 a = Some (mk_node L ca ka va (adr nl l1) (adr nl l2) x)" using t1(1) l by simp
  have a: "a \<noteq> x" "a \<noteq> y" "a \<noteq> nl" "a \<notin> set (addrs r)" "a \<notin> set (caddrs cs)" using dis l by auto
  let ?h2 = "(heap s1)(y \<mapsto> mk_node L cy ky vy yl (adr nl r) (cpar nl cs))"
  let ?h3 = "?h2(y \<mapsto> mk_node L cy ky vy a (adr nl r) (cpar nl cs))"
  let ?h4 = "?h3(a \<mapsto> mk_node L ca ka va (adr nl l1) (adr nl l2) y)"
  let ?h5 = "?h4(y \<mapsto> mk_node L cx ky vy a (adr nl r) (cpar nl cs))"
  have "rb_transplant s x y = Some (s1\<lparr>heap := ?h2\<rparr>)"
    using par s1(1) hy h1 by (simp add: rb_transplant_replace set_mk_node(3))
  moreover have "lft (s1\<lparr>heap := ?h2\<rparr>) x = Some a" using h1 hx l pre by (simp add: get_defs mk_node_def)
  moreover have "set_lft (s1\<lparr>heap := ?h2\<rparr>) y a = Some (s1\<lparr>heap := ?h3\<rparr>)"
    using set_mk_node(1) [of "s1\<lparr>heap := ?h2\<rparr>" y L] by (simp add: chd_cases)
  moreover have "lft (s1\<lparr>heap := ?h3\<rparr>) y = Some a" by (simp add: get_defs mk_node_def)
  moreover have "set_par (s1\<lparr>heap := ?h3\<rparr>) a y = Some (s1\<lparr>heap := ?h4\<rparr>)"
    using set_mk_node(3) [of "s1\<lparr>heap := ?h3\<rparr>" a L] ha a by simp
  moreover have "col (s1\<lparr>heap := ?h4\<rparr>) x = Some cx" using h1 hx a pre by (simp add: get_defs mk_node_def)
  moreover have "set_col (s1\<lparr>heap := ?h4\<rparr>) y cx = Some (s1\<lparr>heap := ?h5\<rparr>)"
    using set_mk_node(4) [of "s1\<lparr>heap := ?h4\<rparr>" y L] a by simp
  ultimately have run: "take_place s x y = Some (s1\<lparr>heap := ?h5\<rparr>)" by (simp add: take_place_def)
  have "dom ?h5 = dom (heap s)" using ha hy h1 s1(5) by (auto simp: dom_def)
  moreover have "tree_at ?h5 nl y l"
    using t1(1) dis l a by (simp add: insert_Collect Int_Un_distrib)
  moreover have "tree_at ?h5 nl y r" "ctx_at ?h5 nl y cs" "?h5 nl = heap s nl"
    using t1(2) s1(2) dis a pre h1 by (simp_all add: Int_Un_distrib)
  ultimately have "rb_repr {x} (s1\<lparr>heap := ?h5\<rparr>) (plug cs (nd L l (y, cx, ky, vy) r))"
    using s1(3,4,6) root black dom dis l by (auto simp: rb_repr_def)
  then show ?thesis using run s1(3) \<open>?h5 nl = heap s nl\<close> by auto
qed

lemma plug_append: "plug (ms @ cs) t = plug cs (plug ms t)"
  by (induction ms t rule: plug.induct) auto

lemma cpar_append: "cpar nl (ms @ cs) = (if ms = [] then cpar nl cs else cpar nl ms)"
  by (cases ms rule: tblack.cases) auto

lemma tree_minimum_zip:
  assumes "rb_repr D s (plug cs t)" "t \<noteq> Lf"
  shows "\<exists>ms y cy ky vy e. t = plug ms (nd L Lf (y, cy, ky, vy) e) \<and> lents ms = [] \<and>
    tree_minimum s (adr (null_node s) t) = Some y"
  using assms
proof (induction t arbitrary: cs)
  case (Nd l x r)
  obtain a c k v where x: "x = (a, c, k, v)" by (cases x) auto
  have nd: "Nd l x r = nd L l (a, c, k, v) r" by (simp add: nd_def x)
  have rd: "lft s a = Some (adr (null_node s) l)" using read_node(1) [OF Nd.prems(1) [unfolded nd]] by (simp add: chd_def)
  have below: "rb_repr D s (plug ((L, (a, c, k, v), r) # cs) l)" using Nd.prems(1) nd by simp
  show ?case
  proof (cases "l = Lf")
    case True
    then show ?thesis
      using rd nd by (intro exI [of _ "[]"]) (auto simp: tree_minimum.simps [of s a])
  next
    case False
    then obtain ms y cy ky vy e where l: "l = plug ms (nd L Lf (y, cy, ky, vy) e)" "lents ms = []"
        "tree_minimum s (adr (null_node s) l) = Some y"
      using Nd.IH(1) [OF below] by blast
    have "lents (ms @ [(L, x', r')]) = lents ms" for x' r'
      by (induction ms rule: lents.induct) auto
    moreover have "adr (null_node s) l \<noteq> null_node s" using adr_eq_null [OF below] False by simp
    ultimately show ?thesis
      using rd nd l by (intro exI [of _ "ms @ [(L, (a, c, k, v), r)]"])
        (auto simp: tree_minimum.simps [of s a] plug_append)
  qed
qed simp

text \<open>The third case before \<open>y\<close> takes the place of \<open>x\<close>: \<open>y\<close> gets the right subtree of \<open>x\<close> without itself.\<close>

definition detach_min :: "('k, 'v) rbtree \<Rightarrow> nat \<Rightarrow> nat \<Rightarrow> ('k, 'v) rbtree option" where
  "detach_min s x y =
     do {
       f \<leftarrow> rgt s y;
       rp \<leftarrow> par s y;
       if rp = x then set_par s f y
       else do {
         rr \<leftarrow> rgt s y;
         s \<leftarrow> rb_transplant s y rr;
         er \<leftarrow> rgt s x;
         s \<leftarrow> set_rgt s y er;
         rr \<leftarrow> rgt s y;
         set_par s rr y
       }
     }"

text \<open>The state between the two: \<open>y\<close> holds \<open>r\<close> and is outside the tree, whose position \<open>x\<close> still occupies.\<close>

definition detached :: "('k, 'v) rbtree \<Rightarrow> nat \<Rightarrow> nat \<Rightarrow> ('k, 'v) rbtree \<Rightarrow> ('k, 'v) frame list \<Rightarrow> nat \<Rightarrow> color \<Rightarrow>
    ('k, 'v) tr \<Rightarrow> nat \<Rightarrow> 'k \<Rightarrow> 'v \<Rightarrow> ('k, 'v) tr \<Rightarrow> bool" where
  "detached s0 nl nf s cs x cx l y ky vy r \<longleftrightarrow>
     null_node s = nl \<and> next_free s = nf \<and> ctx_at (heap s) nl x cs \<and>
     (\<exists>kx vx xr. heap s x = Some (mk_node L cx kx vx (adr nl l) xr (cpar nl cs))) \<and>
     tree_at (heap s) nl x l \<and> tree_at (heap s) nl y r \<and>
     (\<exists>cy yl yp. heap s y = Some (mk_node L cy ky vy yl (adr nl r) yp)) \<and>
     rb_root s = croot cs x \<and> map_option color (heap s nl) = Some BLACK \<and> dom (heap s) = dom (heap s0)"

lemma detach_min_child:
  assumes repr: "rb_repr {} s (plug cs (nd L l (x, cx, kx, vx) (nd L Lf (y, cy, ky, vy) e)))"
  shows "\<exists>s'. detach_min s x y = Some s' \<and> detached s (null_node s) (next_free s) s' cs x cx l y ky vy e \<and>
    focused s' ((R, (y, cx, ky, vy), l) # cs) e"
proof -
  define nl where "nl = null_node s"
  note rd = repr [unfolded rb_repr_def, simplified, folded nl_def]
  have hy: "heap s y = Some (mk_node L cy ky vy nl (adr nl e) x)" using rd by auto
  then have reads: "rgt s y = Some (adr nl e)" "par s y = Some x" by (auto simp: get_defs mk_node_def)
  show ?thesis
  proof (cases e rule: tr_nd_cases [where d = L])
    case Lf
    obtain z where z: "heap s nl = Some z" "color z = BLACK" using rd by auto
    let ?s' = "s\<lparr>heap := (heap s)(nl \<mapsto> z\<lparr>parent := y\<rparr>)\<rparr>"
    have "detach_min s x y = Some ?s'" using reads z Lf by (simp add: detach_min_def set_defs)
    moreover have "detached s nl (next_free s) ?s' cs x cx l y ky vy e"
      using rd z Lf hy by (auto simp: detached_def nl_def)
    moreover have "focused ?s' ((R, (y, cx, ky, vy), l) # cs) e" by (simp add: focused_def get_defs nl_def)
    ultimately show ?thesis unfolding nl_def by blast
  next
    case (nd e1 u e2)
    obtain a ca ka va where u: "u = (a, ca, ka, va)" by (cases u) auto
    have ha: "heap s a = Some (mk_node L ca ka va (adr nl e1) (adr nl e2) y)" using rd nd u by auto
    have "set_par s a y = Some s" using set_mk_node(3) [OF ha, of y] ha by (simp add: fun_upd_idem)
    then have "detach_min s x y = Some s" using reads nd u by (simp add: detach_min_def)
    moreover have "detached s nl (next_free s) s cs x cx l y ky vy e"
      using rd by (auto simp: detached_def nl_def)
    moreover have "focused s ((R, (y, cx, ky, vy), l) # cs) e" using nd by (simp add: focused_def)
    ultimately show ?thesis unfolding nl_def by blast
  qed
qed

lemma detach_min_deep:
  assumes repr: "rb_repr {} s (plug (ms @ (R, (x, cx, kx, vx), l) # cs) (nd L Lf (y, cy, ky, vy) e))" and ms: "ms \<noteq> []"
  shows "\<exists>s'. detach_min s x y = Some s' \<and> detached s (null_node s) (next_free s) s' cs x cx l y ky vy (plug ms e) \<and>
    focused s' (ms @ (R, (y, cx, ky, vy), l) # cs) e"
proof -
  define nl where "nl = null_node s"
  let ?X = "ms @ (R, (x, cx, kx, vx), l) # cs"
  have y: "rgt s y = Some (adr nl e)" "par s y = Some (cpar nl ms)"
    "heap s y = Some (mk_node L cy ky vy nl (adr nl e) (cpar nl ms))"
    using read_node(2,3,8) [OF repr] ms by (auto simp: chd_def cpar_append nl_def)
  have px: "cpar nl ms \<noteq> x"
    using repr ms by (cases ms rule: tblack.cases) (auto simp: rb_repr_def plug_append)
  obtain s1 where s1: "rb_transplant s y (adr nl e) = Some s1" "rb_repr {y} s1 (plug ?X e)" "focused s1 ?X e"
      "null_node s1 = nl" "heap s1 y = heap s y" "next_free s1 = next_free s"
    using transplant_child [OF repr] unfolding nl_def by blast
  have x1: "rb_repr {y} s1 (plug cs (nd L l (x, cx, kx, vx) (plug ms e)))"
    using s1(2) nd_opp [of L "plug ms e" "(x, cx, kx, vx)" l] by (simp add: plug_append)
  have "plug ms e \<noteq> Lf" using ms by (cases ms rule: tblack.cases) (simp_all add: plug_neq_Lf)
  then obtain r1 a ca ka va r2 where r: "plug ms e = nd L r1 (a, ca, ka, va) r2"
    by (cases "plug ms e" rule: tr_nd_cases [where d = L]) auto
  have rx: "rgt s1 x = Some a" using read_node(2) [OF x1] r by (simp add: chd_def)
  note rd = x1 [unfolded rb_repr_def r, simplified, unfolded s1(4)]
  have hy1: "heap s1 y = Some (mk_node L cy ky vy nl (adr nl e) (cpar nl ms))" using s1(5) y(3) by simp
  let ?h2 = "(heap s1)(y \<mapsto> mk_node L cy ky vy nl a (cpar nl ms))"
  let ?h3 = "?h2(a \<mapsto> mk_node L ca ka va (adr nl r1) (adr nl r2) y)"
  have "a \<noteq> y" using rd by auto
  have 2: "set_rgt s1 y a = Some (s1\<lparr>heap := ?h2\<rparr>)" using set_mk_node(2) [OF hy1, of a] by (simp add: chd_cases)
  have 3: "rgt (s1\<lparr>heap := ?h2\<rparr>) y = Some a" by (simp add: get_defs mk_node_def)
  have ha: "heap s1 a = Some (mk_node L ca ka va (adr nl r1) (adr nl r2) x)" using rd by auto
  have 4: "set_par (s1\<lparr>heap := ?h2\<rparr>) a y = Some (s1\<lparr>heap := ?h3\<rparr>)"
    using set_mk_node(3) [of "s1\<lparr>heap := ?h2\<rparr>" a L ca ka va] ha \<open>a \<noteq> y\<close> by simp
  have run: "detach_min s x y = Some (s1\<lparr>heap := ?h3\<rparr>)"
    using y(1,2) px s1(1) rx 2 3 4 by (simp add: detach_min_def)
  have dom: "dom (heap s1) = dom (heap s)"
    using repr s1(2,4) by (auto simp: rb_repr_def nl_def)
  have "detached s nl (next_free s) (s1\<lparr>heap := ?h3\<rparr>) cs x cx l y ky vy (plug ms e)"
    unfolding r detached_def using rd s1(4,6) ha hy1 dom by (auto simp: insert_absorb)
  moreover have "focused (s1\<lparr>heap := ?h3\<rparr>) (ms @ (R, (y, cx, ky, vy), l) # cs) e"
    using s1(3,4) ms rd by (auto simp: focused_def get_defs cpar_append)
  ultimately show ?thesis using run unfolding nl_def by blast
qed

lemma take_place_detached:
  assumes det: "detached s (null_node s) (next_free s) s1 cs x cx l y ky vy r" and l: "l \<noteq> Lf"
    and repr: "rb_repr {} s (plug cs (nd L l (x, cx, kx, vx) r0))"
    and r0: "set (addrs r0) = insert y (set (addrs r))" "distinct (addrs r)" "y \<notin> set (addrs r)"
  shows "\<exists>s'. take_place s1 x y = Some s' \<and> rb_repr {x} s' (plug cs (nd L l (y, cx, ky, vy) r)) \<and>
    null_node s' = null_node s \<and> heap s' (null_node s) = heap s1 (null_node s)"
proof -
  note rd = repr [unfolded rb_repr_def, simplified]
  have y: "y \<noteq> x" "y \<noteq> null_node s" "y \<notin> set (caddrs cs)" "y \<notin> set (addrs l)" using rd r0(1) by auto
  have sub: "set (addrs r) \<subseteq> set (addrs r0)" using r0(1) by auto
  have nl: "null_node s1 = null_node s" using det by (simp add: detached_def)
  show ?thesis
    using det l rd y sub r0 unfolding detached_def
    by (elim exE conjE) (rule take_place_ok [of s1, unfolded nl]; (assumption | auto))
qed

section \<open>The three cases together\<close>

lemma remove_rb:
  assumes "rb_tree (plug cs (nd d Lf (x, c, k, v) t))"
  shows "c = BLACK \<Longrightarrow> \<exists>m. deficient m cs t" "c = RED \<Longrightarrow> rb_tree (plug cs t)"
proof -
  obtain n where n: "rbn n (nd d Lf (x, c, k, v) t)" "rbc n cs" using rb_tree_plugE [OF assms] by blast
  show "\<exists>m. deficient m cs t" if "c = BLACK"
  proof -
    have "n = Suc 0" "rbn 0 t" using n(1) that by auto
    then show ?thesis
      using n(2) rbn_paint [of 0 t] by (intro exI [of _ "Suc 0"]) (auto simp: deficient_def split: color.split)
  qed
  show "rb_tree (plug cs t)" if "c = RED"
    using n that by (intro rb_tree_plug [of n]) auto
qed

text \<open>Only colours matter to the invariant.\<close>

lemma tblack_swap: "tblack (ms @ (d, (x, c, kx, vx), l) # cs) = tblack (ms @ (d, (y, c, ky, vy), l) # cs)"
  by (cases ms rule: tblack.cases) auto

lemma rbc_swap: "rbc n (ms @ (d, (x, c, kx, vx), l) # cs) = rbc n (ms @ (d, (y, c, ky, vy), l) # cs)"
proof (induction n ms rule: rbc.induct)
  case (2 n d' a c' k v s ms)
  then show ?case using tblack_swap [of ms d x c kx vx l cs y ky vy] by (cases c') simp_all
qed (cases c; simp)

lemma deficient_swap:
  "deficient m (ms @ (d, (x, c, kx, vx), l) # cs) t = deficient m (ms @ (d, (y, c, ky, vy), l) # cs) t"
  unfolding deficient_def using rbc_swap by metis

lemma rb_tree_swap:
  "rb_tree (plug (ms @ (d, (x, c, kx, vx), l) # cs) t) \<Longrightarrow> rb_tree (plug (ms @ (d, (y, c, ky, vy), l) # cs) t)"
  using rb_tree_plugE rb_tree_plug rbc_swap tblack_swap by metis

definition unlinked :: "('k, 'v) rbtree \<Rightarrow> nat \<Rightarrow> ('k \<times> 'v) list \<Rightarrow> (('k, 'v) rbtree \<times> nat \<times> color) option \<Rightarrow> bool" where
  "unlinked s x es res \<longleftrightarrow> (\<exists>s' c cs t. res = Some (s', adr (null_node s') t, c) \<and> null_node s' = null_node s \<and>
     rb_repr {x} s' (plug cs t) \<and> focused s' cs t \<and> ents (plug cs t) = es \<and>
     (c = BLACK \<longrightarrow> (\<exists>m. deficient m cs t)) \<and> (c = RED \<longrightarrow> rb_tree (plug cs t)))"

lemma unlinkedI:
  assumes "res = Some (s', adr (null_node s') t, c)" "null_node s' = null_node s" "rb_repr {x} s' (plug cs t)"
    "focused s' cs t" "ents (plug cs t) = es" "c = BLACK \<Longrightarrow> \<exists>m. deficient m cs t" "c = RED \<Longrightarrow> rb_tree (plug cs t)"
  shows "unlinked s x es res"
  unfolding unlinked_def using assms by blast

lemma erase_unlink_third:
  assumes "lft s x = Some l" "rgt s x = Some r" "l \<noteq> null_node s" "r \<noteq> null_node s" "tree_minimum s r = Some y"
    "col s x = Some cx" "col s y = Some cy" "rgt s y = Some f" "par s y = Some q"
  shows "erase_unlink s x = Option.bind (detach_min s x y) (\<lambda>s. Option.bind (take_place s x y) (\<lambda>s. Some (s, f, cy)))"
  using assms
  by (cases "q = x") (simp_all add: erase_unlink_def detach_min_def take_place_def Option.bind_assoc)

lemma erase_unlink_two:
  assumes repr: "rb_repr {} s (plug cs (nd L l (x, cx, kx, vx) r))" and rb: "rb_tree (plug cs (nd L l (x, cx, kx, vx) r))"
    and ne: "l \<noteq> Lf" "r \<noteq> Lf"
  shows "unlinked s x (lents cs @ ents l @ ents r @ rents cs) (erase_unlink s x)"
proof -
  define nl where "nl = null_node s"
  have below: "plug ((R, (x, cx, kx, vx), l) # cs) r = plug cs (nd L l (x, cx, kx, vx) r)"
    using nd_opp [of L r "(x, cx, kx, vx)" l] by simp
  obtain ms y cy ky vy e where r: "r = plug ms (nd L Lf (y, cy, ky, vy) e)" "lents ms = []" "tree_minimum s (adr nl r) = Some y"
    using tree_minimum_zip [of "{}" s "(R, (x, cx, kx, vx), l) # cs" r] repr ne(2) below unfolding nl_def by auto
  let ?X = "ms @ (R, (x, cx, kx, vx), l) # cs" and ?Y = "ms @ (R, (y, cx, ky, vy), l) # cs"
  have at_y: "plug ?X (nd L Lf (y, cy, ky, vy) e) = plug cs (nd L l (x, cx, kx, vx) r)"
    using below r(1) by (simp add: plug_append)
  note y = read_node [OF repr [folded at_y], folded nl_def] and x = read_node [OF repr, folded nl_def]
  obtain s1 where s1: "detach_min s x y = Some s1" "detached s nl (next_free s) s1 cs x cx l y ky vy (plug ms e)"
      "focused s1 ?Y e"
  proof (cases "ms = []")
    case True
    then show ?thesis using that detach_min_child [of s cs l x cx kx vx y cy ky vy e] repr r(1) by (auto simp: nl_def)
  next
    case False
    then show ?thesis using that detach_min_deep [OF repr [folded at_y]] unfolding nl_def by blast
  qed
  have sets: "set (addrs r) = insert y (set (addrs (plug ms e)))" "distinct (addrs (plug ms e))" "y \<notin> set (addrs (plug ms e))"
    using repr by (auto simp: r(1) rb_repr_def)
  obtain s2 where s2: "take_place s1 x y = Some s2" "rb_repr {x} s2 (plug cs (nd L l (y, cx, ky, vy) (plug ms e)))"
      "null_node s2 = nl" "heap s2 nl = heap s1 nl"
    using take_place_detached [OF s1(2) [unfolded nl_def] ne(1) repr sets] unfolding nl_def by blast
  have at_e: "plug ?Y e = plug cs (nd L l (y, cx, ky, vy) (plug ms e))"
    using nd_opp [of L "plug ms e" "(y, cx, ky, vy)" l] by (simp add: plug_append)
  have children: "lft s x = Some (adr nl l)" "rgt s x = Some (adr nl r)" "rgt s y = Some (adr nl e)"
    using x(1,2) y(2) by (simp_all add: chd_def)
  have "adr nl l \<noteq> nl" "adr nl r \<noteq> nl"
    using adr_eq_null [of "{}" s "(L, (x, cx, kx, vx), r) # cs" l] adr_eq_null [of "{}" s "(R, (x, cx, kx, vx), l) # cs" r]
      repr ne below by (simp_all add: nl_def)
  then have run: "erase_unlink s x = Some (s2, adr (null_node s2) e, cy)"
    using erase_unlink_third [OF children(1,2) _ _ r(3) x(4) y(4) children(3) y(3)] s1(1) s2(1,3) by (simp add: nl_def)
  show ?thesis
  proof (rule unlinkedI [OF run])
    show "null_node s2 = null_node s" using s2(3) by (simp add: nl_def)
    show "rb_repr {x} s2 (plug ?Y e)" using s2(2) at_e by simp
    show "focused s2 ?Y e" using s1(2,3) s2(3,4) by (simp add: focused_def detached_def get_defs)
    show "ents (plug ?Y e) = lents cs @ ents l @ ents r @ rents cs"
      using r(2) by (simp add: at_e ents_plug r(1) nd_def)
    show "\<exists>m. deficient m ?Y e" if "cy = BLACK"
      using remove_rb(1) [OF rb [folded at_y] that] deficient_swap [of _ ms R x cx kx vx l cs e y ky vy] by blast
    show "rb_tree (plug ?Y e)" if "cy = RED"
      using remove_rb(2) [OF rb [folded at_y] that] by (rule rb_tree_swap)
  qed
qed

lemma erase_unlink_ok:
  assumes repr: "rb_repr {} s (plug cs (nd L l (x, cx, kx, vx) r))" and rb: "rb_tree (plug cs (nd L l (x, cx, kx, vx) r))"
  shows "unlinked s x (lents cs @ ents l @ ents r @ rents cs) (erase_unlink s x)"
proof (cases "l = Lf \<or> r = Lf")
  case False
  then show ?thesis using erase_unlink_two [OF repr rb] by blast
next
  case True
  then obtain d t where t: "nd L l (x, cx, kx, vx) r = nd d Lf (x, cx, kx, vx) t" "ents t = ents l @ ents r"
      "(if l = Lf then r else l) = t"
  proof (cases "l = Lf")
    case True
    then show ?thesis using that [of L r] by simp
  next
    case False
    then show ?thesis using that [of R l] \<open>l = Lf \<or> r = Lf\<close> by (simp add: nd_def)
  qed
  note x = read_node [OF repr]
  obtain s' where s': "rb_transplant s x (adr (null_node s) t) = Some s'" "rb_repr {x} s' (plug cs t)" "focused s' cs t"
      "null_node s' = null_node s"
    using transplant_child [OF repr [unfolded t(1)]] by auto
  have "adr (null_node s) l = null_node s \<longleftrightarrow> l = Lf"
    using adr_eq_null [of "{}" s "(L, (x, cx, kx, vx), r) # cs" l] repr by simp
  then have run: "erase_unlink s x = Some (s', adr (null_node s') t, cx)"
    using x(1,2,4) s'(1,4) t(3) True by (auto simp: erase_unlink_def chd_def split: if_splits)
  show ?thesis
    by (rule unlinkedI [OF run s'(4,2,3) _ remove_rb [OF rb [unfolded t(1)]]]) (simp_all add: ents_plug t(2))
qed

section \<open>Erase and insert\<close>

lemma map_of_remove:
  fixes k :: "'k :: linorder"
  assumes "sorted_wrt (<) (map fst (A @ (k, v) # B))"
  shows "map_of (A @ B) = (map_of (A @ (k, v) # B))(k := None)" "sorted_wrt (<) (map fst (A @ B))"
proof -
  have "k \<notin> fst ` set A" "k \<notin> fst ` set B" using assms by (auto simp: sorted_wrt_append)
  then have "map_of A k = None" "map_of B k = None" by (simp_all add: map_of_eq_None_iff)
  then show "map_of (A @ B) = (map_of (A @ (k, v) # B))(k := None)"
    by (auto simp: fun_eq_iff map_add_def split: option.split)
  show "sorted_wrt (<) (map fst (A @ B))" using assms by (auto simp: sorted_wrt_append)
qed

lemma del_node_ok:
  assumes "rb_repr {x} s t"
  shows "del_node s x = Some (s\<lparr>heap := (heap s)(x := None)\<rparr>)" "rb_repr {} (s\<lparr>heap := (heap s)(x := None)\<rparr>) t"
proof -
  have "x \<noteq> null_node s" "x \<notin> set (addrs t)" "x \<in> dom (heap s)" using assms by (auto simp: rb_repr_def)
  then show "del_node s x = Some (s\<lparr>heap := (heap s)(x := None)\<rparr>)"
    "rb_repr {} (s\<lparr>heap := (heap s)(x := None)\<rparr>) t"
    using assms by (auto simp: rb_repr_def del_node_def)
qed

lemma rb_erase_ok:
  assumes inv: "rb_inv s t"
  shows "\<exists>s' t'. rb_erase s k = Some (s', k \<in> set (keys t)) \<and> rb_inv s' t' \<and> map_of (ents t') = (map_of (ents t))(k := None)"
proof (cases "node_of k t")
  case None
  have st: "sorted_tree t" "rb_repr {} s t" using inv by (auto simp: rb_inv_def)
  have no: "k \<notin> set (keys t)" using node_of_None [OF st(1)] None by simp
  then have "map_of (ents t) k = None" by (simp add: map_of_eq_None_iff keys_def)
  then have "map_of (ents t) = (map_of (ents t))(k := None)" by (auto simp: fun_eq_iff)
  then show ?thesis using rb_find_ok [OF st(2), of k] None no inv by (auto simp: rb_erase_def)
next
  case (Some x)
  have st: "sorted_tree t" "rb_repr {} s t" "rb_tree t" using inv by (auto simp: rb_inv_def)
  obtain cs l c v r where t: "t = plug cs (nd L l (x, c, k, v) r)" using node_of_zip [OF Some] by blast
  define A B where "A = lents cs @ ents l" and "B = ents r @ rents cs"
  have et: "ents t = A @ (k, v) # B" by (simp add: t ents_plug nd_def A_def B_def)
  have sorted: "sorted_wrt (<) (map fst (A @ (k, v) # B))" using st(1) by (simp add: sorted_tree_def keys_def et)
  have "unlinked s x (A @ B) (erase_unlink s x)"
    using erase_unlink_ok [of s cs l x c k v r] st(2,3) by (simp add: t A_def B_def)
  then obtain s1 oc cs1 t1 where s1: "erase_unlink s x = Some (s1, adr (null_node s1) t1, oc)" "rb_repr {x} s1 (plug cs1 t1)"
      "focused s1 cs1 t1" "ents (plug cs1 t1) = A @ B" "oc = BLACK \<Longrightarrow> \<exists>m. deficient m cs1 t1"
      "oc = RED \<Longrightarrow> rb_tree (plug cs1 t1)"
    unfolding unlinked_def by blast
  have "\<exists>s2 t2. (if oc = BLACK then erase_fixup s1 (adr (null_node s1) t1) else Some s1) = Some s2 \<and>
      rb_repr {x} s2 t2 \<and> rb_tree t2 \<and> ents t2 = A @ B"
  proof (cases oc)
    case RED
    then show ?thesis using s1 by auto
  next
    case BLACK
    then obtain m where m: "deficient m cs1 t1" using s1(5) by blast
    show ?thesis using erase_fixup_ok [OF s1(2) m s1(3)] s1(4) BLACK unfolding erased_def by auto
  qed
  then obtain s2 t2 where s2: "(if oc = BLACK then erase_fixup s1 (adr (null_node s1) t1) else Some s1) = Some s2"
      "rb_repr {x} s2 t2" "rb_tree t2" "ents t2 = A @ B" by blast
  have "x \<noteq> 0" using read_node(7) st(2) t by metis
  then have "rb_erase s k = Some (s2\<lparr>heap := (heap s2)(x := None)\<rparr>, True)"
    using rb_find_ok [OF st(2), of k] Some s1(1) s2(1) del_node_ok(1) [OF s2(2)] by (simp add: rb_erase_def)
  moreover have "rb_inv (s2\<lparr>heap := (heap s2)(x := None)\<rparr>) t2"
    using del_node_ok(2) [OF s2(2)] s2(3,4) map_of_remove(2) [OF sorted] by (simp add: rb_inv_def sorted_tree_def keys_def)
  moreover have "k \<in> set (keys t)" by (simp add: keys_def et)
  ultimately show ?thesis using map_of_remove(1) [OF sorted] s2(4) et by auto
qed

lemma rb_insert_ok:
  assumes inv: "rb_inv s t"
  shows "\<exists>s' t'. rb_insert s k v = Some s' \<and> rb_inv s' t' \<and> map_of (ents t') = (map_of (ents t))(k \<mapsto> v)"
proof (cases "k \<in> set (keys t)")
  case False
  then show ?thesis using rb_insert_new [OF inv] by blast
next
  case True
  have st: "sorted_tree t" "rb_repr {} s (plug [] t)" using inv by (auto simp: rb_inv_def)
  obtain s1 t1 where s1: "rb_erase s k = Some (s1, True)" "rb_inv s1 t1" "map_of (ents t1) = (map_of (ents t))(k := None)"
    using rb_erase_ok [OF inv, of k] True by auto
  have "k \<notin> set (keys t1)" using s1(3) by (simp add: keys_def map_of_eq_None_iff [symmetric])
  then obtain s' t' where "rb_insert s1 k v = Some s'" "rb_inv s' t'" "map_of (ents t') = (map_of (ents t1))(k \<mapsto> v)"
    using rb_insert_new [OF s1(2)] by blast
  moreover have "rb_insert s k v = rb_insert s1 k v"
    using insert_descend_zip [OF st(2), of k] descend_None [OF st(1), of k "[]"] True s1(1) st(2)
    by (subst rb_insert.simps) (simp add: rb_repr_def)
  ultimately show ?thesis using s1(3) by auto
qed

end
