(* ===== verification/MapIface.thy ===== *)
theory MapIface
  imports Prelude
begin

text \<open>
  The contract of a finite map as a client sees it: insertion and deletion return, keep the
  provider's invariant and act on the represented map, and deletion reports whether the key was there.
  The clients' lemma is about sequences of operations.
\<close>

datatype ('k, 'v) map_op = Insert 'k 'v | Erase 'k

text \<open>The specification: the map after a sequence, and the answers of its deletions.\<close>

fun spec_ops :: "('k \<rightharpoonup> 'v) \<Rightarrow> ('k, 'v) map_op list \<Rightarrow> ('k \<rightharpoonup> 'v) \<times> bool list" where
  "spec_ops m [] = (m, [])"
| "spec_ops m (Insert k v # ops) = spec_ops (m(k \<mapsto> v)) ops"
| "spec_ops m (Erase k # ops) = (let (m', bs) = spec_ops (m(k := None)) ops in (m', (m k \<noteq> None) # bs))"

locale finite_map =
  fixes inv :: "'s \<Rightarrow> bool"
    and abs :: "'s \<Rightarrow> 'k \<rightharpoonup> 'v"
    and ins :: "'s \<Rightarrow> 'k \<Rightarrow> 'v \<Rightarrow> 's option"
    and del :: "'s \<Rightarrow> 'k \<Rightarrow> ('s \<times> bool) option"
    and look :: "'s \<Rightarrow> 'k \<Rightarrow> 'v option option"
  assumes ins_ok: "inv s \<Longrightarrow> \<exists>s'. ins s k v = Some s' \<and> inv s' \<and> abs s' = (abs s)(k \<mapsto> v)"
    and del_ok: "inv s \<Longrightarrow> \<exists>s'. del s k = Some (s', abs s k \<noteq> None) \<and> inv s' \<and> abs s' = (abs s)(k := None)"
    and look_ok: "inv s \<Longrightarrow> look s k = Some (abs s k)"
begin

fun run_ops :: "'s \<Rightarrow> ('k, 'v) map_op list \<Rightarrow> ('s \<times> bool list) option" where
  "run_ops s [] = Some (s, [])"
| "run_ops s (Insert k v # ops) = Option.bind (ins s k v) (\<lambda>s'. run_ops s' ops)"
| "run_ops s (Erase k # ops) =
     Option.bind (del s k) (\<lambda>(s', b). map_option (\<lambda>(s'', bs). (s'', b # bs)) (run_ops s' ops))"

lemma run_ops_ok:
  "inv s \<Longrightarrow> \<exists>s'. run_ops s ops = Some (s', snd (spec_ops (abs s) ops)) \<and> inv s' \<and> abs s' = fst (spec_ops (abs s) ops)"
proof (induction ops arbitrary: s)
  case (Cons a ops)
  show ?case
  proof (cases a)
    case (Insert k v)
    obtain s1 where s1: "ins s k v = Some s1" "inv s1" "abs s1 = (abs s)(k \<mapsto> v)" using ins_ok [OF Cons.prems] by blast
    show ?thesis
      unfolding Insert run_ops.simps spec_ops.simps s1(1) Option.bind.bind_lunit s1(3) [symmetric] by (rule Cons.IH [OF s1(2)])
  next
    case (Erase k)
    obtain s1 where s1: "del s k = Some (s1, abs s k \<noteq> None)" "inv s1" "abs s1 = (abs s)(k := None)"
      using del_ok [OF Cons.prems] by blast
    show ?thesis
      unfolding Erase run_ops.simps spec_ops.simps s1(1) Option.bind.bind_lunit s1(3) [symmetric]
      using Cons.IH [OF s1(2)] by (auto simp: Let_def split_beta)
  qed
qed simp

lemma look_after:
  assumes "inv s" "run_ops s ops = Some (s', bs)"
  shows "look s' k = Some (fst (spec_ops (abs s) ops) k)" "bs = snd (spec_ops (abs s) ops)"
  using run_ops_ok [OF assms(1), of ops] assms(2) look_ok by auto

end

end
