(* ===== verification/RbMap.thy ===== *)
theory RbMap
  imports RbUnlink MapIface
begin

text \<open>
  The red-black tree is a finite map: the interpretation of the map interface, the bound on its
  height, and its destructor.
\<close>

section \<open>The map interface\<close>

definition rb_ok :: "('k :: linorder, 'v) rbtree \<Rightarrow> bool" where
  "rb_ok s \<longleftrightarrow> (\<exists>t. rb_inv s t)"

definition rb_abs :: "('k :: linorder, 'v) rbtree \<Rightarrow> 'k \<rightharpoonup> 'v" where
  "rb_abs s k = the (find_value s k)"

lemma rb_abs_inv: "rb_inv s t \<Longrightarrow> rb_abs s = map_of (ents t)"
  using find_value_ok by (fastforce simp: rb_abs_def rb_inv_def fun_eq_iff)

interpretation rb: finite_map rb_ok rb_abs rb_insert rb_erase find_value
proof
  fix s :: "('k :: linorder, 'v) rbtree" and k :: 'k and v :: 'v
  assume "rb_ok s"
  then obtain t where t: "rb_inv s t" by (auto simp: rb_ok_def)
  obtain s1 t1 where i: "rb_insert s k v = Some s1" "rb_inv s1 t1" "map_of (ents t1) = (map_of (ents t))(k \<mapsto> v)"
    using rb_insert_ok [OF t] by blast
  then show "\<exists>s'. rb_insert s k v = Some s' \<and> rb_ok s' \<and> rb_abs s' = (rb_abs s)(k \<mapsto> v)"
    using rb_abs_inv [OF t] rb_abs_inv [OF i(2)] by (auto simp: rb_ok_def)
  have "k \<in> set (keys t) \<longleftrightarrow> rb_abs s k \<noteq> None"
    by (simp add: rb_abs_inv [OF t] keys_def map_of_eq_None_iff)
  then obtain s2 t2 where e: "rb_erase s k = Some (s2, rb_abs s k \<noteq> None)" "rb_inv s2 t2"
      "map_of (ents t2) = (map_of (ents t))(k := None)"
    using rb_erase_ok [OF t, of k] by auto
  then show "\<exists>s'. rb_erase s k = Some (s', rb_abs s k \<noteq> None) \<and> rb_ok s' \<and> rb_abs s' = (rb_abs s)(k := None)"
    using rb_abs_inv [OF t] rb_abs_inv [OF e(2)] by (auto simp: rb_ok_def)
  show "find_value s k = Some (rb_abs s k)"
    using find_value_ok t rb_abs_inv [OF t] by (auto simp: rb_inv_def)
qed

lemma rb_new_ok: "rb_ok (rb_new k0 v0)" "rb_abs (rb_new k0 v0) = Map.empty"
  using rb_new_inv [of k0 v0] rb_abs_inv [OF rb_new_inv [of k0 v0]] by (auto simp: rb_ok_def)

fun rb_run :: "('k :: linorder, 'v) rbtree \<Rightarrow> ('k, 'v) map_op list \<Rightarrow> (('k, 'v) rbtree \<times> bool list) option" where
  "rb_run s [] = Some (s, [])"
| "rb_run s (Insert k v # ops) = Option.bind (rb_insert s k v) (\<lambda>s'. rb_run s' ops)"
| "rb_run s (Erase k # ops) =
     Option.bind (rb_erase s k) (\<lambda>(s', b). map_option (\<lambda>(s'', bs). (s'', b # bs)) (rb_run s' ops))"

lemma rb_run_ops: "rb_run s ops = rb.run_ops s ops"
  by (induction s ops rule: rb_run.induct) (auto intro!: Option.bind_cong)

section \<open>Balance\<close>

fun height :: "('k, 'v) tr \<Rightarrow> nat" where
  "height Lf = 0"
| "height (Nd l x r) = Suc (max (height l) (height r))"

lemma rbn_size: "rbn n t \<Longrightarrow> 2 ^ n \<le> length (ents t) + 1"
proof (induction n t rule: rbn.induct)
  case (2 n l a c k v r)
  show ?case
  proof (cases c)
    case RED
    then show ?thesis using 2 by simp
  next
    case BLACK
    then obtain m where m: "n = Suc m" using "2.prems" by (cases n) auto
    then show ?thesis using 2 BLACK by simp
  qed
qed simp

lemma rbn_height: "rbn n t \<Longrightarrow> height t \<le> 2 * n + (if tcol t = RED then 1 else 0)"
proof (induction n t rule: rbn.induct)
  case (2 n l a c k v r)
  show ?case
  proof (cases c)
    case RED
    then show ?thesis using 2 by simp
  next
    case BLACK
    then obtain m where m: "n = Suc m" using "2.prems" by (cases n) auto
    then have "height l \<le> 2 * m + 1" "height r \<le> 2 * m + 1"
      using 2 BLACK by (auto split: if_splits)
    then show ?thesis using m BLACK by simp
  qed
qed simp

lemma rb_tree_height:
  assumes "rb_tree t"
  shows "2 ^ ((height t + 1) div 2) \<le> length (ents t) + 1"
proof -
  obtain n where n: "rbn n t" "tcol t = BLACK" using assms by (auto simp: rb_tree_def)
  then have "(height t + 1) div 2 \<le> n" using rbn_height by fastforce
  then have "(2 :: nat) ^ ((height t + 1) div 2) \<le> 2 ^ n" by (rule power_increasing) simp
  then show ?thesis using rbn_size [OF n(1)] by (rule order_trans)
qed

section \<open>The destructor\<close>

lemma destroy_from_ok:
  assumes "tree_at (heap s) (null_node s) g t" "distinct (addrs t)" "null_node s \<notin> set (addrs t)"
  shows "destroy_from s (adr (null_node s) t) =
    Some (s\<lparr>heap := (\<lambda>a. if a \<in> set (addrs t) then None else heap s a)\<rparr>)"
  using assms
proof (induction t arbitrary: s g)
  case Lf
  then show ?case by (simp add: destroy_from.simps)
next
  case (Nd l x r)
  obtain a c k v where x: "x = (a, c, k, v)" by (cases x) auto
  let ?nl = "null_node s"
  define s1 where "s1 = s\<lparr>heap := (\<lambda>p. if p \<in> set (addrs l) then None else heap s p)\<rparr>"
  define s2 where "s2 = s1\<lparr>heap := (\<lambda>p. if p \<in> set (addrs r) then None else heap s1 p)\<rparr>"
  have h: "heap s a = Some (mk_node L c k v (adr ?nl l) (adr ?nl r) g)" and dis: "a \<notin> set (addrs l)" "a \<notin> set (addrs r)"
      "set (addrs l) \<inter> set (addrs r) = {}" "a \<noteq> ?nl"
    using Nd.prems by (auto simp: x)
  have "destroy_from s (adr ?nl l) = Some s1"
    unfolding s1_def using Nd.prems by (intro Nd.IH(1) [where g = a]) (auto simp: x)
  moreover have "tree_at (heap s1) ?nl a r"
  proof (rule iffD2 [OF tree_at_cong])
    show "tree_at (heap s) ?nl a r" using Nd.prems by (simp add: x)
    show "heap s1 p = heap s p" if "p \<in> set (addrs r)" for p using that dis(3) by (auto simp: s1_def)
  qed
  then have "destroy_from s1 (adr ?nl r) = Some s2"
    unfolding s2_def using Nd.IH(2) [of s1 a] Nd.prems by (simp add: x s1_def)
  moreover have "lft s a = Some (adr ?nl l)" "rgt s1 a = Some (adr ?nl r)" "heap s2 a \<noteq> None"
    using h dis by (simp_all add: s1_def s2_def get_defs mk_node_def)
  ultimately have "destroy_from s a = Some (s2\<lparr>heap := (heap s2)(a := None)\<rparr>)"
    using dis(4) by (subst destroy_from.simps) (simp add: del_node_def)
  moreover have "(heap s2)(a := None) = (\<lambda>p. if p \<in> set (addrs (Nd l x r)) then None else heap s p)"
    by (auto simp: s2_def s1_def x fun_eq_iff)
  ultimately show ?case by (simp add: x s2_def s1_def)
qed

lemma rb_destroy_ok:
  assumes "rb_inv s t"
  shows "rb_destroy s = Some (s\<lparr>heap := Map.empty\<rparr>)"
proof -
  have r: "rb_repr {} s t" using assms by (simp add: rb_inv_def)
  let ?s1 = "s\<lparr>heap := (\<lambda>a. if a \<in> set (addrs t) then None else heap s a)\<rparr>"
  have "destroy_from s (rb_root s) = Some ?s1"
    using r destroy_from_ok [of s "null_node s" t] by (simp add: rb_repr_def)
  moreover have "heap ?s1 (null_node s) \<noteq> None" using r by (auto simp: rb_repr_def)
  moreover have "(heap ?s1)(null_node s := None) = Map.empty"
    using r by (auto simp: rb_repr_def fun_eq_iff dom_def)
  ultimately show ?thesis by (simp add: rb_destroy_def del_node_def)
qed

section \<open>Properties\<close>

text \<open>
  C3. Any sequence of insertions and deletions on a new tree returns, so no loop runs on and no deleted or
  null pointer is followed; the deletions report whether their key was present; and a search for any
  key then returns the value that the map of the operations gives it.
\<close>

theorem rb_tree_is_map:
  "\<exists>s. rb_run (rb_new k0 v0) ops = Some (s, snd (spec_ops Map.empty ops)) \<and>
     (\<forall>k. find_value s k = Some (fst (spec_ops Map.empty ops) k))"
  using rb.run_ops_ok [OF rb_new_ok(1), of k0 v0 ops] rb.look_ok unfolding rb_run_ops rb_new_ok(2) by metis

text \<open>
  C5. Every tree that a sequence of operations reaches represents a search tree without red-red edges,
  with equal black heights and a black root; its height is logarithmic in its size, and its nodes and the
  null node are all that is allocated. The destructor then frees each of them exactly once.
\<close>

theorem rb_tree_invariant:
  "\<exists>s bs t. rb_run (rb_new k0 v0) ops = Some (s, bs) \<and> rb_repr {} s t \<and> rb_tree t \<and> sorted_tree t \<and>
     2 ^ ((height t + 1) div 2) \<le> length (ents t) + 1 \<and> dom (heap s) = insert (null_node s) (set (addrs t)) \<and>
     map_option heap (rb_destroy s) = Some Map.empty"
proof -
  obtain s bs where s: "rb_run (rb_new k0 v0) ops = Some (s, bs)" "rb_ok s"
    using rb.run_ops_ok [OF rb_new_ok(1), of k0 v0 ops] unfolding rb_run_ops by blast
  then obtain t where t: "rb_inv s t" by (auto simp: rb_ok_def)
  then have r: "rb_repr {} s t" "rb_tree t" "sorted_tree t" by (simp_all add: rb_inv_def)
  have "dom (heap s) = insert (null_node s) (set (addrs t))" using r(1) by (simp add: rb_repr_def)
  moreover have "map_option heap (rb_destroy s) = Some Map.empty" using rb_destroy_ok [OF t] by simp
  ultimately show ?thesis using s(1) r rb_tree_height by blast
qed

end
