(* ===== verification/PoolIface.thy ===== *)
theory PoolIface
  imports Prelude
begin

text \<open>
  The contract of a pool allocator, as the shared-memory queue relies on it: blocks of a memory region are
  handed out and taken back by address and size; \<open>inv s L\<close> says that \<open>L\<close> maps the addresses of the live blocks
  to the sizes that were asked for.
\<close>

text \<open>The memory of the pool: copies into it and out of it.\<close>

definition mem_write :: "(nat \<Rightarrow> 8 word) \<Rightarrow> nat \<Rightarrow> 8 word list \<Rightarrow> (nat \<Rightarrow> 8 word)" where
  "mem_write mem a bs = (\<lambda>x. if a \<le> x \<and> x < a + length bs then bs ! (x - a) else mem x)"

definition mem_read :: "(nat \<Rightarrow> 8 word) \<Rightarrow> nat \<Rightarrow> nat \<Rightarrow> 8 word list" where
  "mem_read mem a n = map (\<lambda>i. mem (a + i)) [0..<n]"

lemma length_mem_read [simp]: "length (mem_read mem a n) = n"
  by (simp add: mem_read_def)

lemma mem_read_write [simp]: "mem_read (mem_write mem a bs) a (length bs) = bs"
  by (rule nth_equalityI) (simp_all add: mem_read_def mem_write_def)

lemma mem_read_other:
  "{a..<a + length bs} \<inter> {b..<b + n} = {} \<Longrightarrow> mem_read (mem_write mem a bs) b n = mem_read mem b n"
  by (rule nth_equalityI) (auto simp: mem_read_def mem_write_def disjoint_iff)

locale pool_allocator =
  fixes alloc :: "'s \<Rightarrow> nat \<Rightarrow> ('s \<times> nat) option" and dealloc :: "'s \<Rightarrow> nat \<Rightarrow> nat \<Rightarrow> 's option"
    and inv :: "'s \<Rightarrow> (nat \<rightharpoonup> nat) \<Rightarrow> bool" and lo hi limit :: nat
  assumes alloc_total: "inv s L \<Longrightarrow> sz \<le> limit \<Longrightarrow> \<exists>s' a. alloc s sz = Some (s', a)"
    and alloc_null: "inv s L \<Longrightarrow> sz \<le> limit \<Longrightarrow> alloc s sz = Some (s', 0) \<Longrightarrow> inv s' L"
    and alloc_new: "inv s L \<Longrightarrow> sz \<le> limit \<Longrightarrow> alloc s sz = Some (s', a) \<Longrightarrow> a \<noteq> 0 \<Longrightarrow>
      L a = None \<and> inv s' (L(a \<mapsto> sz))"
    and dealloc_live: "inv s L \<Longrightarrow> L a = Some sz \<Longrightarrow> \<exists>s'. dealloc s a sz = Some s' \<and> inv s' (L(a := None))"
    and inside: "inv s L \<Longrightarrow> L a = Some sz \<Longrightarrow> {a..<a + sz} \<subseteq> {lo..<hi}"
    and apart: "inv s L \<Longrightarrow> L a = Some sz \<Longrightarrow> L b = Some sz' \<Longrightarrow> a \<noteq> b \<Longrightarrow> {a..<a + sz} \<inter> {b..<b + sz'} = {}"
begin

text \<open>Filling one live block leaves the content of every other one as it is.\<close>

lemma write_isolated:
  assumes "inv s L" "L a = Some (length bs)" "L b = Some n" "a \<noteq> b"
  shows "mem_read (mem_write mem a bs) b n = mem_read mem b n"
  using apart [OF assms] by (rule mem_read_other)

lemma alloc_cases:
  assumes "inv s L" "sz \<le> limit"
  shows "(\<exists>s'. alloc s sz = Some (s', 0) \<and> inv s' L) \<or>
    (\<exists>s' a. a \<noteq> 0 \<and> alloc s sz = Some (s', a) \<and> L a = None \<and> inv s' (L(a \<mapsto> sz)))"
  using alloc_total [OF assms] alloc_null [OF assms] alloc_new [OF assms] by (metis (full_types))

lemma dealloc_alloc:
  assumes "inv s L" "sz \<le> limit" "alloc s sz = Some (s', a)" "a \<noteq> 0"
  shows "\<exists>s''. dealloc s' a sz = Some s'' \<and> inv s'' L"
proof -
  have n: "L a = None" "inv s' (L(a \<mapsto> sz))" using alloc_new [OF assms] by blast+
  moreover have "(L(a \<mapsto> sz))(a := None) = L" using n(1) by auto
  ultimately show ?thesis using dealloc_live [OF n(2), of a sz] by simp
qed

end

end
