(* ===== verification/ObjBuilder.thy ===== *)
theory ObjBuilder
  imports Prelude
begin

text \<open>
  \<open>cpp/examples/object_builder.h\<close> and \<open>cpp/examples/pointer.h\<close>: objects laid out in a byte buffer, little
  endian, and pointers that store the distance from themselves to their target. A position in the buffer is an
  integer; a load or store that leaves the buffer is \<open>None\<close>.
\<close>

type_synonym buffer = "8 word list"

unbundle bit_operations_syntax

subsection \<open>Little-endian loads and stores\<close>

fun le_nat :: "8 word list \<Rightarrow> nat" where
  "le_nat [] = 0"
| "le_nat (b # bs) = unat b + 256 * le_nat bs"

fun to_le :: "nat \<Rightarrow> nat \<Rightarrow> 8 word list" where
  "to_le 0 v = []"
| "to_le (Suc n) v = word_of_nat v # to_le n (v div 256)"

definition ld :: "nat \<Rightarrow> buffer \<Rightarrow> int \<Rightarrow> nat option" where
  "ld n buf a = (if 0 \<le> a \<and> nat a + n \<le> length buf then Some (le_nat (take n (drop (nat a) buf))) else None)"

definition st :: "nat \<Rightarrow> buffer \<Rightarrow> int \<Rightarrow> nat \<Rightarrow> buffer option" where
  "st n buf a v =
     (if 0 \<le> a \<and> nat a + n \<le> length buf then Some (take (nat a) buf @ to_le n v @ drop (nat a + n) buf) else None)"

definition sext32 :: "nat \<Rightarrow> int" where
  "sext32 v = signed_take_bit 31 (int v)"

definition trunc32 :: "int \<Rightarrow> nat" where
  "trunc32 x = nat (x mod 2 ^ 32)"

lemma le_nat_less: "le_nat bs < 256 ^ length bs"
proof (induction bs)
  case (Cons b bs)
  have "unat b < 256" using unsigned_less [of b] by simp
  then have "unat b + 256 * le_nat bs < 256 * (le_nat bs + 1)" by simp
  also have "\<dots> \<le> 256 * 256 ^ length bs" using Cons by (intro mult_le_mono2) simp
  finally show ?case by simp
qed simp

lemma length_to_le [simp]: "length (to_le n v) = n"
  by (induction n arbitrary: v) simp_all

lemma le_nat_to_le: "le_nat (to_le n v) = v mod 256 ^ n"
proof (induction n arbitrary: v)
  case (Suc n)
  have "unat (word_of_nat v :: 8 word) = v mod 256" by (simp add: unat_of_nat)
  then have "le_nat (to_le (Suc n) v) = v mod 256 + 256 * (v div 256 mod 256 ^ n)" using Suc by simp
  also have "\<dots> = v mod (256 * 256 ^ n)" by (simp add: mod_mult2_eq)
  finally show ?case by simp
qed simp

lemma le_nat_zero: "le_nat (replicate n 0) = 0"
  by (induction n) simp_all

subsection \<open>Reading after writing\<close>

lemma ld_less: "ld n buf a = Some v \<Longrightarrow> v < 256 ^ n"
  unfolding ld_def using le_nat_less [of "take n (drop (nat a) buf)"] by (auto split: if_splits)

text \<open>Two buffers that agree outside \<open>[lo, hi)\<close>.\<close>

definition same_outside :: "buffer \<Rightarrow> buffer \<Rightarrow> int \<Rightarrow> int \<Rightarrow> bool" where
  "same_outside buf buf' lo hi \<longleftrightarrow>
     length buf' = length buf \<and> (\<forall>j < length buf. int j < lo \<or> hi \<le> int j \<longrightarrow> buf' ! j = buf ! j)"

lemma same_outside_refl [simp]: "same_outside buf buf lo hi"
  by (simp add: same_outside_def)

lemma same_outside_trans: "same_outside a b lo hi \<Longrightarrow> same_outside b c lo hi \<Longrightarrow> same_outside a c lo hi"
  by (simp add: same_outside_def)

lemma same_outside_mono: "same_outside a b lo hi \<Longrightarrow> lo' \<le> lo \<Longrightarrow> hi \<le> hi' \<Longrightarrow> same_outside a b lo' hi'"
  by (auto simp: same_outside_def)

lemma ld_same_outside:
  assumes "same_outside buf buf' lo hi" "a + int n \<le> lo \<or> hi \<le> a"
  shows "ld n buf' a = ld n buf a"
proof (cases "0 \<le> a \<and> nat a + n \<le> length buf")
  case True
  have "take n (drop (nat a) buf') = take n (drop (nat a) buf)"
    using True assms by (intro nth_equalityI) (auto simp: same_outside_def)
  then show ?thesis using assms(1) by (simp add: ld_def same_outside_def)
qed (use assms(1) in \<open>auto simp: ld_def same_outside_def\<close>)

lemma st_ok:
  assumes "0 \<le> a" "nat a + n \<le> length buf"
  shows "\<exists>buf'. st n buf a v = Some buf' \<and> ld n buf' a = Some (v mod 256 ^ n) \<and> same_outside buf buf' a (a + int n)"
proof -
  let ?b = "take (nat a) buf @ to_le n v @ drop (nat a + n) buf"
  have len: "length (take (nat a) buf) = nat a" using assms(2) by simp
  have "take n (drop (nat a) ?b) = to_le n v" using len by simp
  then have "ld n ?b a = Some (v mod 256 ^ n)" using assms le_nat_to_le by (simp add: ld_def)
  moreover have "same_outside buf ?b a (a + int n)"
    unfolding same_outside_def using assms by (auto simp: nth_append)
  ultimately show ?thesis using assms by (simp add: st_def)
qed

lemma ld_Some_range: "ld n buf a = Some v \<Longrightarrow> 0 \<le> a \<and> nat a + n \<le> length buf"
  by (auto simp: ld_def split: if_splits)

lemma st_over:
  assumes "ld n buf a = Some w" "v < 256 ^ n"
  shows "\<exists>buf'. st n buf a v = Some buf' \<and> ld n buf' a = Some v \<and> same_outside buf buf' a (a + int n)"
  using st_ok [of a n buf v] ld_Some_range [OF assms(1)] assms(2) by simp

lemma ld_shift:
  assumes "ld n buf a = Some v"
  shows "ld n (xs @ buf @ ys) (int (length xs) + a) = Some v"
proof -
  have r: "0 \<le> a" "nat a + n \<le> length buf" using ld_Some_range [OF assms] by blast+
  then have "nat (int (length xs) + a) = length xs + nat a" by simp
  then show ?thesis using assms r by (simp add: ld_def)
qed

lemma sext_trunc: "- (2 ^ 31) \<le> x \<Longrightarrow> x < 2 ^ 31 \<Longrightarrow> sext32 (trunc32 x) = x"
proof -
  assume x: "- (2 ^ 31) \<le> x" "x < 2 ^ 31"
  have "int (trunc32 x) = take_bit 32 x" unfolding trunc32_def take_bit_eq_mod by (intro int_nat_eq [THEN trans]) simp
  then have "sext32 (trunc32 x) = signed_take_bit 31 (take_bit 32 x)" unfolding sext32_def by simp
  also have "\<dots> = signed_take_bit 31 x" by (simp add: signed_take_bit_take_bit)
  also have "\<dots> = x" by (rule signed_take_bit_int_eq_self [OF x])
  finally show ?thesis .
qed

subsection \<open>\<open>ObjectBuilder\<close>\<close>

text \<open>\<open>align\<close> is a power of two.\<close>

definition compute_aligned_size :: "nat \<Rightarrow> nat \<Rightarrow> nat" where
  "compute_aligned_size sz align = unat (((word_of_nat sz :: 64 word) + (word_of_nat align - 1)) AND NOT (word_of_nat align - 1))"

text \<open>
  Space for \<open>num\<close> elements of \<open>sizeof(T) = sz\<close> bytes: the offset is an \<open>int32_t\<close>; a negative sum is a huge
  \<open>size_t\<close>, for which \<open>resize\<close> throws.
\<close>

definition builder_allocate :: "nat \<Rightarrow> nat \<Rightarrow> nat \<Rightarrow> buffer \<Rightarrow> (int \<times> buffer) option" where
  "builder_allocate sz align num buf =
     (let off = sext32 (compute_aligned_size (length buf) align mod 2 ^ 32); total = off + int (sz * num)
      in if total < 0 then None else Some (off, take (nat total) buf @ replicate (nat total - length buf) 0))"

text \<open>The pointer member at distance \<open>inner\<close> in the object is set to point to \<open>off\<close>.\<close>

definition update_object_pointer_member :: "buffer \<Rightarrow> int \<Rightarrow> int \<Rightarrow> int \<Rightarrow> buffer option" where
  "update_object_pointer_member buf obj inner off =
     (let pointer_address = obj + inner in st 4 buf pointer_address (trunc32 (off - pointer_address)))"

definition update_object_normal_member :: "nat \<Rightarrow> buffer \<Rightarrow> int \<Rightarrow> int \<Rightarrow> nat \<Rightarrow> buffer option" where
  "update_object_normal_member n buf obj pos v = st n buf (obj + pos) v"

subsection \<open>\<open>Pointer\<close>\<close>

definition ptr_address :: "buffer \<Rightarrow> int \<Rightarrow> int option" where
  "ptr_address buf p = map_option (\<lambda>o'. p + sext32 o') (ld 4 buf p)"

text \<open>\<open>operator[]\<close> for elements of \<open>n\<close> bytes.\<close>

definition ptr_index :: "nat \<Rightarrow> buffer \<Rightarrow> int \<Rightarrow> int \<Rightarrow> nat option" where
  "ptr_index n buf p i = Option.bind (ptr_address buf p) (\<lambda>a. ld n buf (a + int n * i))"

lemma and_not_7: "unat (x AND NOT 7 :: 64 word) = unat x div 8 * 8"
proof -
  have "x AND NOT (x AND 7) = x AND NOT 7" by (rule bit_word_eqI) (auto simp: bit_simps)
  then have "x AND NOT 7 = x - (x AND 7)" by (subst disjunctive_diff) (auto simp: bit_simps)
  moreover have "x AND 7 \<le> x" by (rule word_and_le2)
  ultimately have "unat (x AND NOT 7) = unat x - unat (x AND 7)" by (simp add: unat_sub)
  moreover have "x AND 7 = take_bit 3 x" by (simp add: take_bit_eq_mask mask_numeral)
  then have "unat (x AND 7) = unat x mod 8" by (simp add: unsigned_take_bit_eq take_bit_nat_def)
  ultimately show ?thesis by (simp add: minus_mod_eq_div_mult)
qed

lemma compute_aligned_size_8:
  assumes "n < 2 ^ 63"
  shows "compute_aligned_size n 8 = (n + 7) div 8 * 8"
proof -
  have "unat (word_of_nat n + (word_of_nat 8 - 1) :: 64 word) = n + 7"
  proof -
    have "(word_of_nat n + (word_of_nat 8 - 1) :: 64 word) = word_of_nat (n + 7)" by simp
    moreover have "n + 7 < 2 ^ 64" using assms by simp
    ultimately show ?thesis by (simp only: unat_of_nat) simp
  qed
  moreover have "(word_of_nat 8 - 1 :: 64 word) = 7" by simp
  ultimately show ?thesis unfolding compute_aligned_size_def using and_not_7 by metis
qed

end
