(* ===== verification/Buddy.thy ===== *)
theory Buddy
  imports Prelude
begin

text \<open>
  The buddy allocator of \<open>cpp/examples/buddy_memory_allocator.cc\<close>. A \<open>size_t\<close> is a natural number; the only
  value that can leave 64 bits is the power of two of \<open>rounded_up\<close>, whose shift wraps here as it does there.
  \<open>pool_\<close> is the array of the complete binary tree; an access outside it and a failed \<open>CHECK\<close> are \<open>None\<close>.
  The spin lock around the operations makes each of them one step.
\<close>

record buddy =
  pool_addr :: nat
  pool_size :: nat
  num_order :: nat
  min_block_size :: nat
  pool :: "nat list"

subsection \<open>Sizes and levels\<close>

function block_size_loop :: "nat \<Rightarrow> nat \<Rightarrow> nat \<Rightarrow> nat \<Rightarrow> nat" where
  "block_size_loop block_idx block_size tmp order_block_count =
     (let tmp = tmp + order_block_count
      in if order_block_count > 0 \<and> tmp \<le> block_idx
         then block_size_loop block_idx (block_size div 2) tmp (order_block_count * 2) else block_size)"
  by auto
termination by (relation "measure (\<lambda>(i, b, t, c). i - t)") (auto simp: Let_def)

definition compute_block_size :: "nat \<Rightarrow> nat \<Rightarrow> nat" where
  "compute_block_size psize block_idx = block_size_loop block_idx psize 0 1"

text \<open>\<open>value <<= 1\<close> on 64 bits: the loop does not end for a size above \<open>2\<^sup>6\<^sup>3\<close>.\<close>

partial_function (option) rounded_up_loop :: "nat \<Rightarrow> nat \<Rightarrow> nat option" where
  "rounded_up_loop sz v = (if v < sz then rounded_up_loop sz ((v * 2) mod 2 ^ 64) else Some v)"

definition rounded_up :: "nat \<Rightarrow> nat option" where
  "rounded_up sz = rounded_up_loop sz 1"

definition rounded_up_to_min_block_size :: "nat \<Rightarrow> nat \<Rightarrow> nat option" where
  "rounded_up_to_min_block_size sz mn = map_option (\<lambda>v. max v mn) (rounded_up sz)"

text \<open>\<open>block_size\<close> is positive in every call.\<close>

function compute_level :: "nat \<Rightarrow> nat \<Rightarrow> nat" where
  "compute_level psize bsize = (if 0 < bsize \<and> psize div 2 \<ge> bsize then Suc (compute_level (psize div 2) bsize) else 0)"
  by auto
termination by (relation "measure fst") auto

declare block_size_loop.simps [simp del] compute_level.simps [simp del]

subsection \<open>The pool\<close>

text \<open>\<open>init_pool\<close>: order by order, \<open>2^order\<close> entries of the block size of that order.\<close>

fun init_orders :: "nat \<Rightarrow> nat \<Rightarrow> nat \<Rightarrow> nat list \<times> nat" where
  "init_orders 0 order bsize = ([], bsize)"
| "init_orders (Suc k) order bsize =
     (let (xs, b) = init_orders k (Suc order) (bsize div 2) in (replicate (2 ^ order) bsize @ xs, b))"

definition buddy_new :: "nat \<Rightarrow> nat \<Rightarrow> nat \<Rightarrow> buddy" where
  "buddy_new addr psize order =
     (let (xs, b) = init_orders order 0 psize
      in \<lparr>pool_addr = addr, pool_size = psize, num_order = order, min_block_size = b * 2,
          pool = xs @ replicate (2 ^ order - length xs) 0\<rparr>)"

function update_loop :: "nat list \<Rightarrow> nat \<Rightarrow> nat \<Rightarrow> nat list option" where
  "update_loop ps block_idx block_size =
     (if block_idx \<noteq> 0 then
        (let parent_idx = (block_idx - 1) div 2; parent_block_size = block_size * 2
         in Option.bind (vget ps (parent_idx * 2 + 1)) (\<lambda>l.
            Option.bind (vget ps (parent_idx * 2 + 2)) (\<lambda>r.
            Option.bind (vset ps parent_idx (if l + r = parent_block_size then parent_block_size else max l r)) (\<lambda>ps.
            update_loop ps parent_idx parent_block_size))))
      else Some ps)"
  by auto
termination by (relation "measure (\<lambda>(ps, i, b). i)") auto

declare update_loop.simps [simp del]

definition update_pool :: "buddy \<Rightarrow> nat \<Rightarrow> buddy option" where
  "update_pool s block_idx =
     map_option (\<lambda>ps. s\<lparr>pool := ps\<rparr>) (update_loop (pool s) block_idx (compute_block_size (pool_size s) block_idx))"

text \<open>\<open>search_suitable_block\<close>, with the remaining number of levels.\<close>

fun search_block :: "nat list \<Rightarrow> nat \<Rightarrow> nat \<Rightarrow> nat \<Rightarrow> nat \<Rightarrow> nat \<Rightarrow> (nat \<times> nat) option" where
  "search_block ps 0 sz addr block_size block_idx = Some (block_idx, addr)"
| "search_block ps (Suc n) sz addr block_size block_idx =
     Option.bind (vget ps (block_idx * 2 + 1)) (\<lambda>l.
       if l \<ge> sz then search_block ps n sz addr (block_size div 2) (block_idx * 2 + 1)
       else Option.bind (vget ps (block_idx * 2 + 2)) (\<lambda>r.
         if r \<ge> sz then search_block ps n sz (addr + block_size div 2) (block_size div 2) (block_idx * 2 + 2) else None))"

text \<open>\<open>allocate\<close> returns the address, 0 for \<open>nullptr\<close>.\<close>

definition allocate :: "buddy \<Rightarrow> nat \<Rightarrow> (buddy \<times> nat) option" where
  "allocate s sz =
     do {
       bs \<leftarrow> rounded_up_to_min_block_size sz (min_block_size s);
       let level = compute_level (pool_size s) bs;
       top \<leftarrow> vget (pool s) 0;
       if top < bs then Some (s, 0)
       else do {
         (idx, addr) \<leftarrow> search_block (pool s) level bs (pool_addr s) (pool_size s) 0;
         if addr = 0 then None
         else do {
           ps \<leftarrow> vset (pool s) idx 0;
           s \<leftarrow> update_pool (s\<lparr>pool := ps\<rparr>) idx;
           Some (s, addr)
         }
       }
     }"

fun dealloc_walk :: "nat \<Rightarrow> nat \<Rightarrow> nat \<Rightarrow> nat \<Rightarrow> nat \<Rightarrow> nat \<times> nat" where
  "dealloc_walk 0 off block_idx block_size cur = (block_idx, block_size)"
| "dealloc_walk (Suc n) off block_idx block_size cur =
     (if off < cur + block_size div 2 then dealloc_walk n off (block_idx * 2 + 1) (block_size div 2) cur
      else dealloc_walk n off (block_idx * 2 + 2) (block_size div 2) (cur + block_size div 2))"

definition deallocate :: "buddy \<Rightarrow> nat \<Rightarrow> nat \<Rightarrow> buddy option" where
  "deallocate s addr sz =
     do {
       bs \<leftarrow> rounded_up_to_min_block_size sz (min_block_size s);
       let level = compute_level (pool_size s) bs;
       let (idx, bsize) = dealloc_walk level (addr - pool_addr s) 0 (pool_size s) 0;
       ps \<leftarrow> vset (pool s) idx bsize;
       update_pool (s\<lparr>pool := ps\<rparr>) idx
     }"

end
