(* ===== verification/BuddyTree.thy ===== *)
theory BuddyTree
  imports Buddy
begin

text \<open>
  The complete binary tree behind the buddy allocator: levels, block sizes and offsets of its nodes, and the
  content that the pool must have for a given set of allocated nodes.
\<close>

section \<open>Nodes\<close>

function lev :: "nat \<Rightarrow> nat" where
  "lev i = (if i = 0 then 0 else Suc (lev ((i - 1) div 2)))"
  by auto
termination by (relation "measure id") auto

declare lev.simps [simp del]

lemma lev_0 [simp]: "lev 0 = 0"
  by (simp add: lev.simps)

lemma lev_child [simp]: "lev (2 * i + 1) = Suc (lev i)" "lev (2 * i + 2) = Suc (lev i)" "lev (Suc (2 * i)) = Suc (lev i)"
  "lev (Suc (Suc (2 * i))) = Suc (lev i)"
  by (subst lev.simps; simp)+

lemma node_cases [case_names root left right]:
  fixes i :: nat
  assumes "i = 0 \<Longrightarrow> P" "\<And>j. i = 2 * j + 1 \<Longrightarrow> P" "\<And>j. i = 2 * j + 2 \<Longrightarrow> P"
  shows P
proof -
  have "i = 0 \<or> (\<exists>j. i = 2 * j + 1) \<or> (\<exists>j. i = 2 * j + 2)" by presburger
  then show P using assms by blast
qed

lemma node_induct [case_names root left right]:
  fixes i :: nat
  assumes "P 0" "\<And>j. P j \<Longrightarrow> P (2 * j + 1)" "\<And>j. P j \<Longrightarrow> P (2 * j + 2)"
  shows "P i"
proof (induction i rule: less_induct)
  case (less i)
  show ?case
  proof (cases i rule: node_cases)
    case root
    then show ?thesis using assms(1) by simp
  next
    case (left j)
    then show ?thesis using assms(2) less by simp
  next
    case (right j)
    then show ?thesis using assms(3) less by simp
  qed
qed

lemma lev_bounds: "2 ^ lev i \<le> i + 1 \<and> i + 1 < 2 ^ Suc (lev i)"
  by (induction i rule: node_induct) auto

lemma lev_less_iff: "lev i < n \<longleftrightarrow> i + 1 < 2 ^ n"
proof
  assume "lev i < n"
  then have "(2 :: nat) ^ Suc (lev i) \<le> 2 ^ n" by (intro power_increasing) auto
  then show "i + 1 < 2 ^ n" using lev_bounds [of i] by simp
next
  assume "i + 1 < 2 ^ n"
  then have "(2 :: nat) ^ lev i < 2 ^ n" using lev_bounds [of i] by linarith
  then show "lev i < n" by simp
qed

definition bsz :: "nat \<Rightarrow> nat \<Rightarrow> nat" where
  "bsz p i = p div 2 ^ lev i"

lemma bsz_child [simp]: "bsz p (2 * i + 1) = bsz p i div 2" "bsz p (2 * i + 2) = bsz p i div 2" "bsz p 0 = p"
  "bsz p (Suc (2 * i)) = bsz p i div 2" "bsz p (Suc (Suc (2 * i))) = bsz p i div 2"
proof -
  have "p div 2 ^ Suc k = p div 2 ^ k div 2" for k by (metis div_mult2_eq power_Suc2)
  then show "bsz p (2 * i + 1) = bsz p i div 2" "bsz p (2 * i + 2) = bsz p i div 2" "bsz p 0 = p"
    "bsz p (Suc (2 * i)) = bsz p i div 2" "bsz p (Suc (Suc (2 * i))) = bsz p i div 2"
    by (simp_all only: bsz_def lev_child lev_0) simp
qed

text \<open>The offset of the block of a node in the pool.\<close>

function boff :: "nat \<Rightarrow> nat \<Rightarrow> nat" where
  "boff p i = (if i = 0 then 0 else boff p ((i - 1) div 2) + (if even i then bsz p i else 0))"
  by auto
termination by (relation "measure snd") auto

declare boff.simps [simp del]

lemma boff_0 [simp]: "boff p 0 = 0"
  by (simp add: boff.simps)

lemma boff_child [simp]: "boff p (2 * i + 1) = boff p i" "boff p (2 * i + 2) = boff p i + bsz p i div 2"
  "boff p (Suc (2 * i)) = boff p i" "boff p (Suc (Suc (2 * i))) = boff p i + bsz p i div 2"
  by (subst boff.simps; simp)+

text \<open>The nodes below \<open>i\<close>, \<open>i\<close> included, down to \<open>d\<close> more levels.\<close>

fun sub :: "nat \<Rightarrow> nat \<Rightarrow> nat set" where
  "sub 0 i = {i}"
| "sub (Suc d) i = insert i (sub d (2 * i + 1) \<union> sub d (2 * i + 2))"

lemma sub_self [simp]: "i \<in> sub d i"
  by (cases d) auto

lemma sub_lev: "j \<in> sub d i \<Longrightarrow> lev i \<le> lev j \<and> lev j \<le> lev i + d"
  by (induction d arbitrary: i) fastforce+

lemma sub_child: "j \<in> sub d i \<Longrightarrow> 2 * j + 1 \<in> sub (Suc d) i \<and> 2 * j + 2 \<in> sub (Suc d) i"
proof (induction d arbitrary: i)
  case (Suc d)
  consider "j = i" | "j \<in> sub d (2 * i + 1)" | "j \<in> sub d (2 * i + 2)" using Suc.prems by auto
  then show ?case
  proof cases
    case 1
    then show ?thesis by (simp only: sub.simps(2) [of "Suc d" i]) simp
  next
    case 2
    then show ?thesis using Suc.IH by (simp only: sub.simps(2) [of "Suc d" i]) blast
  next
    case 3
    then show ?thesis using Suc.IH by (simp only: sub.simps(2) [of "Suc d" i]) blast
  qed
qed simp

lemma sub_mono: "d \<le> d' \<Longrightarrow> sub d i \<subseteq> sub d' i"
proof -
  have "sub d i \<subseteq> sub (Suc d) i" for d i
  proof (induction d arbitrary: i)
    case (Suc d)
    show ?case using Suc [of "2 * i + 1"] Suc [of "2 * i + 2"] unfolding sub.simps(2) [of _ i] by blast
  qed simp
  then show "d \<le> d' \<Longrightarrow> sub d i \<subseteq> sub d' i" by (rule lift_Suc_mono_le)
qed

lemma sub_root: "lev j \<le> d \<Longrightarrow> j \<in> sub d 0"
proof -
  have "j \<in> sub (lev j) 0"
    by (induction j rule: node_induct) (simp, (simp only: lev_child sub_child)+)
  then show "lev j \<le> d \<Longrightarrow> j \<in> sub d 0" using sub_mono by blast
qed

subsection \<open>Blocks\<close>

definition block :: "nat \<Rightarrow> nat \<Rightarrow> nat set" where
  "block p i = {boff p i..<boff p i + bsz p i}"

lemma block_child: "block p (2 * i + 1) \<subseteq> block p i" "block p (2 * i + 2) \<subseteq> block p i"
  "block p (2 * i + 1) \<inter> block p (2 * i + 2) = {}"
  by (auto simp: block_def)

lemma sub_block: "j \<in> sub d i \<Longrightarrow> block p j \<subseteq> block p i"
proof (induction d arbitrary: i)
  case (Suc d)
  then show ?case using block_child [of p i] by (auto; blast)
qed simp

text \<open>Nodes of which neither is below the other have disjoint blocks.\<close>

lemma unrelated_blocks:
  assumes "a \<in> sub d i" "b \<in> sub d i" "a \<notin> sub (d + lev i - lev b) b" "b \<notin> sub (d + lev i - lev a) a"
  shows "block p a \<inter> block p b = {}"
  using assms
proof (induction d arbitrary: i)
  case 0
  then show ?case by auto
next
  case (Suc d)
  let ?l = "2 * i + 1" and ?r = "2 * i + 2"
  have ne: "a \<noteq> i" "b \<noteq> i" using Suc.prems by auto
  have same: "Suc d + lev i = d + lev ?l" "Suc d + lev i = d + lev ?r" by simp_all
  consider "a \<in> sub d ?l" "b \<in> sub d ?l" | "a \<in> sub d ?r" "b \<in> sub d ?r"
    | "a \<in> sub d ?l" "b \<in> sub d ?r" | "a \<in> sub d ?r" "b \<in> sub d ?l"
    using Suc.prems(1,2) ne by auto
  then show ?case
  proof cases
    case 1
    then show ?thesis using Suc.IH Suc.prems(3,4) unfolding same(1) by blast
  next
    case 2
    then show ?thesis using Suc.IH Suc.prems(3,4) unfolding same(2) by blast
  qed (use sub_block [of _ d _ p] block_child(3) [of p i] in blast)+
qed

section \<open>The content of the pool\<close>

definition comb :: "nat \<Rightarrow> nat \<Rightarrow> nat \<Rightarrow> nat" where
  "comb S l r = (if l + r = S then S else max l r)"

text \<open>The largest free block below node \<open>i\<close> when the nodes of \<open>A\<close> are allocated.\<close>

fun bval :: "nat set \<Rightarrow> nat \<Rightarrow> nat \<Rightarrow> nat \<Rightarrow> nat" where
  "bval A 0 S i = (if i \<in> A then 0 else S)"
| "bval A (Suc d) S i = (if i \<in> A then 0 else comb S (bval A d (S div 2) (2 * i + 1)) (bval A d (S div 2) (2 * i + 2)))"

lemma bval_cong: "A \<inter> sub d i = A' \<inter> sub d i \<Longrightarrow> bval A d S i = bval A' d S i"
proof (induction d arbitrary: S i)
  case (Suc d)
  have "A \<inter> sub d (2 * i + 1) = A' \<inter> sub d (2 * i + 1)" "A \<inter> sub d (2 * i + 2) = A' \<inter> sub d (2 * i + 2)"
    "i \<in> A \<longleftrightarrow> i \<in> A'"
    using Suc.prems by auto
  then show ?case using Suc.IH by (simp only: bval.simps)
qed auto

lemma bval_le: "bval A d S i \<le> S"
proof (induction d arbitrary: S i)
  case (Suc d)
  have "bval A d (S div 2) (2 * i + 1) \<le> S div 2" "bval A d (S div 2) (2 * i + 2) \<le> S div 2" using Suc by blast+
  then show ?case by (auto simp: comb_def)
qed auto

lemma bval_full: "2 ^ d dvd S \<Longrightarrow> A \<inter> sub d i = {} \<Longrightarrow> bval A d S i = S"
proof (induction d arbitrary: S i)
  case (Suc d)
  have "2 ^ d dvd S div 2" "even S" using Suc.prems(1) by (auto simp: dvd_div_iff_mult mult.commute elim: dvd_mult_right)
  then show ?case using Suc by (auto simp: comb_def Int_Un_distrib)
qed auto

lemma bval_less: "0 < S \<Longrightarrow> A \<inter> sub d i \<noteq> {} \<Longrightarrow> 2 ^ d dvd S \<Longrightarrow> bval A d S i < S"
  and bval_half: "0 < S \<Longrightarrow> A \<inter> sub d i \<noteq> {} \<Longrightarrow> 2 ^ d dvd S \<Longrightarrow> bval A d S i \<le> S div 2"
proof -
  have "bval A d S i \<le> S div 2" if "0 < S" "A \<inter> sub d i \<noteq> {}" "2 ^ d dvd S"
    using that
  proof (induction d arbitrary: S i)
    case (Suc d)
    let ?h = "S div 2" and ?l = "2 * i + 1" and ?r = "2 * i + 2"
    have h: "2 ^ d dvd ?h" "0 < ?h" "2 * ?h = S"
      using Suc.prems(1,3) by (auto simp: dvd_div_iff_mult mult.commute elim: dvd_mult_right)
    show ?case
    proof (cases "i \<in> A")
      case False
      then have "A \<inter> sub d ?l \<noteq> {} \<or> A \<inter> sub d ?r \<noteq> {}" using Suc.prems(2) by auto
      then have "bval A d ?h ?l \<le> ?h div 2 \<or> bval A d ?h ?r \<le> ?h div 2" using Suc.IH h by blast
      moreover have "bval A d ?h ?l \<le> ?h" "bval A d ?h ?r \<le> ?h" by (rule bval_le)+
      moreover have "?h div 2 < ?h" using h(2) by simp
      ultimately show ?thesis using h(3) by (auto simp: comb_def)
    qed simp
  qed auto
  then show "0 < S \<Longrightarrow> A \<inter> sub d i \<noteq> {} \<Longrightarrow> 2 ^ d dvd S \<Longrightarrow> bval A d S i < S"
    "0 < S \<Longrightarrow> A \<inter> sub d i \<noteq> {} \<Longrightarrow> 2 ^ d dvd S \<Longrightarrow> bval A d S i \<le> S div 2"
    by (simp_all add: le_less_trans)
qed

end
