(* ===== verification/BuddyInv.thy ===== *)
theory BuddyInv
  imports BuddyTree
begin

text \<open>
  The invariant of the buddy allocator: the pool holds exactly the largest free blocks for an antichain of
  allocated nodes. Allocation adds a free node to it, deallocation removes a node.
\<close>

definition pool_ok :: "nat \<Rightarrow> nat \<Rightarrow> bool" where
  "pool_ok p n \<longleftrightarrow> 0 < n \<and> 0 < p \<and> 2 ^ (n - 1) dvd p"

definition below :: "nat \<Rightarrow> nat \<Rightarrow> nat set" where
  "below n i = sub (n - 1 - lev i) i"

definition val :: "nat \<Rightarrow> nat \<Rightarrow> nat set \<Rightarrow> nat \<Rightarrow> nat" where
  "val p n A i = bval A (n - 1 - lev i) (bsz p i) i"

lemma bsz_dvd:
  assumes "pool_ok p n" "lev i < n"
  shows "2 ^ (n - 1 - lev i) dvd bsz p i" "0 < bsz p i"
proof -
  have e: "n - 1 = lev i + (n - 1 - lev i)" using assms(2) by simp
  obtain k where k: "p = 2 ^ (n - 1) * k" using assms(1) by (auto simp: pool_ok_def dvd_def)
  have "p = 2 ^ lev i * (2 ^ (n - 1 - lev i) * k)" using k e by (metis mult.assoc power_add)
  then have b: "bsz p i = 2 ^ (n - 1 - lev i) * k" unfolding bsz_def by (metis nonzero_mult_div_cancel_left power_not_zero zero_neq_numeral)
  then show "2 ^ (n - 1 - lev i) dvd bsz p i" by simp
  have "0 < k" using assms(1) k by (auto simp: pool_ok_def)
  then show "0 < bsz p i" using b by simp
qed

lemma bsz_even: "pool_ok p n \<Longrightarrow> Suc (lev i) < n \<Longrightarrow> bsz p i div 2 * 2 = bsz p i"
proof -
  assume "pool_ok p n" "Suc (lev i) < n"
  then have "2 ^ (n - 1 - lev i) dvd bsz p i" "0 < n - 1 - lev i" using bsz_dvd(1) [of p n i] by auto
  then have "even (bsz p i)" by (meson dvd_power dvd_trans)
  then show ?thesis by simp
qed

lemma val_rec:
  assumes "Suc (lev i) < n" "i \<notin> A"
  shows "val p n A i = comb (bsz p i) (val p n A (2 * i + 1)) (val p n A (2 * i + 2))"
proof -
  have "n - 1 - lev i = Suc (n - 1 - Suc (lev i))" using assms(1) by simp
  then show ?thesis using assms(2) by (simp only: val_def lev_child bsz_child bval.simps if_False)
qed

lemma val_in: "i \<in> A \<Longrightarrow> val p n A i = 0"
  by (cases "n - 1 - lev i") (simp_all add: val_def)

lemma val_cong: "A \<inter> below n i = A' \<inter> below n i \<Longrightarrow> val p n A i = val p n A' i"
  unfolding val_def below_def by (rule bval_cong)

lemma val_le: "val p n A i \<le> bsz p i"
  unfolding val_def by (rule bval_le)

lemma val_full: "pool_ok p n \<Longrightarrow> lev i < n \<Longrightarrow> A \<inter> below n i = {} \<Longrightarrow> val p n A i = bsz p i"
  unfolding val_def below_def by (intro bval_full bsz_dvd)

lemma val_half:
  assumes "pool_ok p n" "lev i < n" "A \<inter> below n i \<noteq> {}"
  shows "val p n A i \<le> bsz p i div 2"
  using bval_half [OF bsz_dvd(2) [OF assms(1,2)] assms(3) [unfolded below_def] bsz_dvd(1) [OF assms(1,2)]]
  unfolding val_def .

section \<open>Ancestors\<close>

lemma below_self [simp]: "i \<in> below n i"
  by (simp add: below_def)

lemma below_same_lev: "j \<in> below n i \<Longrightarrow> lev j = lev i \<Longrightarrow> j = i"
proof -
  have "j \<in> sub d i \<Longrightarrow> lev j = lev i \<Longrightarrow> j = i" for d
    by (cases d) (auto dest!: sub_lev)
  then show "j \<in> below n i \<Longrightarrow> lev j = lev i \<Longrightarrow> j = i" by (simp add: below_def)
qed

lemma below_lev: "j \<in> below n i \<Longrightarrow> lev i \<le> lev j"
  unfolding below_def using sub_lev by blast

lemma sub_parent: "c \<in> sub d k \<Longrightarrow> c \<noteq> k \<Longrightarrow> c = 2 * j + 1 \<or> c = 2 * j + 2 \<Longrightarrow> j \<in> sub d k"
proof (induction d arbitrary: k)
  case (Suc d)
  show ?case
  proof (cases "c = 2 * k + 1 \<or> c = 2 * k + 2")
    case True
    then have "j = k" using Suc.prems(3) by presburger
    then show ?thesis by simp
  next
    case False
    then have "c \<in> sub d (2 * k + 1) \<and> c \<noteq> 2 * k + 1 \<or> c \<in> sub d (2 * k + 2) \<and> c \<noteq> 2 * k + 2"
      using Suc.prems(1,2) by auto
    then show ?thesis using Suc.IH Suc.prems(3) unfolding sub.simps(2) by blast
  qed
qed simp

lemma below_parent: "c \<in> below n k \<Longrightarrow> c \<noteq> k \<Longrightarrow> c = 2 * j + 1 \<or> c = 2 * j + 2 \<Longrightarrow> j \<in> below n k"
  unfolding below_def by (rule sub_parent)

lemma below_child:
  assumes "Suc (lev j) < n"
  shows "below n j = insert j (below n (2 * j + 1) \<union> below n (2 * j + 2))"
proof -
  have "n - 1 - lev j = Suc (n - 1 - Suc (lev j))" using assms by simp
  then show ?thesis by (simp only: below_def lev_child sub.simps)
qed

lemma sub_depth: "j \<in> sub d i \<Longrightarrow> lev j \<le> lev i + d' \<Longrightarrow> j \<in> sub d' i"
proof (induction d arbitrary: i d')
  case (Suc d)
  show ?case
  proof (cases "j = i")
    case False
    then have j: "j \<in> sub d (2 * i + 1) \<or> j \<in> sub d (2 * i + 2)" using Suc.prems(1) by auto
    then have "Suc (lev i) \<le> lev j" using sub_lev [of j d "2 * i + 1"] sub_lev [of j d "2 * i + 2"] by auto
    then obtain e where e: "d' = Suc e" using Suc.prems(2) by (cases d') auto
    have "lev j \<le> lev (2 * i + 1) + e" "lev j \<le> lev (2 * i + 2) + e" using Suc.prems(2) e by simp_all
    then show ?thesis using j Suc.IH unfolding e sub.simps by blast
  qed simp
qed simp

lemma below_children:
  assumes "j \<in> below n k" "Suc (lev j) < n"
  shows "2 * j + 1 \<in> below n k" "2 * j + 2 \<in> below n k"
proof -
  have "lev k \<le> lev j" using below_lev assms(1) .
  then have b: "lev (2 * j + 1) \<le> lev k + (n - 1 - lev k)" "lev (2 * j + 2) \<le> lev k + (n - 1 - lev k)"
    using assms(2) by simp_all
  then show "2 * j + 1 \<in> below n k" "2 * j + 2 \<in> below n k"
    using sub_depth [OF sub_child [OF assms(1) [unfolded below_def], THEN conjunct1] b(1)]
      sub_depth [OF sub_child [OF assms(1) [unfolded below_def], THEN conjunct2] b(2)]
    unfolding below_def by blast+
qed

lemma below_root: "lev j < n \<Longrightarrow> j \<in> below n 0"
  unfolding below_def by (rule sub_root) simp

lemma below_block: "j \<in> below n i \<Longrightarrow> block p j \<subseteq> block p i"
  unfolding below_def by (rule sub_block)

lemma unrelated:
  assumes "lev a < n" "lev b < n" "a \<notin> below n b" "b \<notin> below n a"
  shows "block p a \<inter> block p b = {}"
proof (rule unrelated_blocks [where d = "n - 1" and i = 0])
  show "a \<in> sub (n - 1) 0" "b \<in> sub (n - 1) 0" using assms(1,2) by (auto intro!: sub_root)
  show "a \<notin> sub (n - 1 + lev 0 - lev b) b" "b \<notin> sub (n - 1 + lev 0 - lev a) a"
    using assms(3,4) by (simp_all add: below_def)
qed

section \<open>Sizes and levels\<close>

lemma block_size_loop_lev:
  "l \<le> lev i \<Longrightarrow> block_size_loop i (p div 2 ^ l) (2 ^ l - 1) (2 ^ l) = p div 2 ^ lev i"
proof (induction "lev i - l" arbitrary: l)
  case 0
  then have "l = lev i" by simp
  moreover have "\<not> (2 :: nat) ^ lev i - 1 + 2 ^ lev i \<le> i" using lev_bounds [of i] unfolding power_Suc by linarith
  ultimately show ?case by (subst block_size_loop.simps) (simp only: Let_def if_False simp_thms)
next
  case (Suc d)
  have "(2 :: nat) ^ Suc l \<le> 2 ^ lev i" using Suc by (intro power_increasing) auto
  then have c: "(2 :: nat) ^ l - 1 + 2 ^ l \<le> i" using lev_bounds [of i] unfolding power_Suc by linarith
  have e: "p div 2 ^ l div 2 = p div 2 ^ Suc l" by (metis div_mult2_eq power_Suc2)
  have t: "(2 :: nat) ^ l - 1 + 2 ^ l = 2 ^ Suc l - 1" "(2 :: nat) ^ l * 2 = 2 ^ Suc l" by simp_all
  have "block_size_loop i (p div 2 ^ l) (2 ^ l - 1) (2 ^ l) =
      block_size_loop i (p div 2 ^ l div 2) (2 ^ l - 1 + 2 ^ l) (2 ^ l * 2)"
    using c by (subst block_size_loop.simps) (simp only: Let_def, simp)
  also have "\<dots> = p div 2 ^ lev i" unfolding e t using Suc by (intro Suc.hyps(1)) auto
  finally show ?case .
qed

lemma compute_block_size_eq: "compute_block_size p i = bsz p i"
  using block_size_loop_lev [of 0 i p] by (simp add: compute_block_size_def bsz_def)

lemma div_pow_Suc: "p div 2 ^ l div 2 = p div 2 ^ Suc l" for p :: nat
  by (metis div_mult2_eq power_Suc2)

lemma compute_level_bounds:
  assumes "0 < b"
  shows "p div 2 ^ Suc (compute_level p b) < b" "b \<le> p \<Longrightarrow> b \<le> p div 2 ^ compute_level p b"
proof -
  have "p div 2 ^ Suc (compute_level p b) < b \<and> (b \<le> p \<longrightarrow> b \<le> p div 2 ^ compute_level p b)"
    using assms
  proof (induction p b rule: compute_level.induct)
    case (1 p b)
    show ?case
    proof (cases "p div 2 \<ge> b")
      case True
      then have l: "compute_level p b = Suc (compute_level (p div 2) b)" using 1 by (subst compute_level.simps) simp
      have "p div 2 div 2 ^ k = p div 2 ^ Suc k" for k by (metis div_mult2_eq power_Suc)
      then show ?thesis unfolding l using 1 True by metis
    next
      case False
      then have "compute_level p b = 0" by (subst compute_level.simps) simp
      then show ?thesis using False by simp
    qed
  qed
  then show "p div 2 ^ Suc (compute_level p b) < b" "b \<le> p \<Longrightarrow> b \<le> p div 2 ^ compute_level p b" by blast+
qed

lemma compute_level_less:
  assumes "0 < b" "b \<le> p" "p div 2 ^ n < b"
  shows "compute_level p b < n"
proof (rule ccontr)
  assume "\<not> compute_level p b < n"
  then have "(2 :: nat) ^ n \<le> 2 ^ compute_level p b" by (intro power_increasing) auto
  then have "p div 2 ^ compute_level p b \<le> p div 2 ^ n" by (intro div_le_mono2) simp_all
  then show False using compute_level_bounds(2) [OF assms(1,2)] assms(3) by simp
qed

end
