(* ===== verification/BuddyOps.thy ===== *)
theory BuddyOps
  imports BuddyInv
begin

text \<open>
  The operations of the buddy allocator keep the invariant \<open>buddy_inv\<close>: the pool holds the largest free block
  below every node, for an antichain of allocated nodes.
\<close>

definition pool_holds :: "nat \<Rightarrow> nat \<Rightarrow> nat set \<Rightarrow> nat list \<Rightarrow> bool" where
  "pool_holds p n A ps \<longleftrightarrow> length ps = 2 ^ n \<and> (\<forall>i. lev i < n \<longrightarrow> ps ! i = val p n A i)"

definition antichain :: "nat \<Rightarrow> nat set \<Rightarrow> bool" where
  "antichain n A \<longleftrightarrow> (\<forall>i\<in>A. lev i < n) \<and> (\<forall>i\<in>A. \<forall>j\<in>A. i \<in> below n j \<longrightarrow> i = j)"

section \<open>Updating the ancestors\<close>

lemma lev_length: "length ps = 2 ^ n \<Longrightarrow> lev i < n \<Longrightarrow> i < length ps"
  by (simp add: lev_less_iff)

lemma update_loop_step:
  assumes "pool_ok p n" "length ps = 2 ^ n" "Suc (lev j) < n" "c = 2 * j + 1 \<or> c = 2 * j + 2"
  shows "update_loop ps c (bsz p c) =
    update_loop (ps[j := comb (bsz p j) (ps ! (2 * j + 1)) (ps ! (2 * j + 2))]) j (bsz p j)"
proof -
  have c: "c \<noteq> 0" "(c - 1) div 2 = j" "bsz p c * 2 = bsz p j"
    using assms(4) bsz_even [OF assms(1,3)] by auto
  have "lev (2 * j + 1) < n" "lev (2 * j + 2) < n" "lev j < n" using assms(3) by simp_all
  then have "2 * j + 1 < length ps" "2 * j + 2 < length ps" "j < length ps"
    using lev_length [OF assms(2)] by blast+
  then show ?thesis
    by (subst update_loop.simps) (use c in \<open>simp add: Let_def comb_def mult.commute\<close>)
qed

text \<open>The pool is right except perhaps at the strict ancestors of \<open>idx\<close>.\<close>

definition near :: "nat \<Rightarrow> nat \<Rightarrow> nat set \<Rightarrow> nat \<Rightarrow> nat list \<Rightarrow> bool" where
  "near p n A idx ps \<longleftrightarrow>
     length ps = 2 ^ n \<and> (\<forall>i. lev i < n \<longrightarrow> idx \<notin> below n i \<or> i = idx \<longrightarrow> ps ! i = val p n A i)"

lemma near_parent:
  assumes "near p n A c ps" "Suc (lev j) < n" "c = 2 * j + 1 \<or> c = 2 * j + 2" "j \<notin> A"
  shows "near p n A j (ps[j := comb (bsz p j) (ps ! (2 * j + 1)) (ps ! (2 * j + 2))])"
proof -
  let ?v = "comb (bsz p j) (ps ! (2 * j + 1)) (ps ! (2 * j + 2))"
  have len: "length ps = 2 ^ n" and at: "\<And>i. lev i < n \<Longrightarrow> c \<notin> below n i \<or> i = c \<Longrightarrow> ps ! i = val p n A i"
    using assms(1) unfolding near_def by blast+
  have lc: "lev c = Suc (lev j)" using assms(3) lev_child(1,2) by blast
  have "c \<notin> below n d \<or> d = c" if "lev d = lev c" for d using below_same_lev [of c n d] that by force
  moreover have "lev (2 * j + 1) = lev c" "lev (2 * j + 2) = lev c" "lev c < n" using lc assms(2) by simp_all
  ultimately have "ps ! (2 * j + 1) = val p n A (2 * j + 1)" "ps ! (2 * j + 2) = val p n A (2 * j + 2)"
    using at by metis+
  then have v: "?v = val p n A j" using val_rec [OF assms(2,4)] by simp
  have "j < length ps" using lev_length [OF len] assms(2) by simp
  moreover have "ps ! i = val p n A i" if "lev i < n" "j \<notin> below n i" for i
    using at [OF that(1)] below_parent [of c n i j] that(2) assms(3) by blast
  ultimately show ?thesis using len v unfolding near_def by (auto simp: nth_list_update)
qed

lemma near_root: "near p n A 0 ps \<Longrightarrow> pool_holds p n A ps"
proof -
  assume a: "near p n A 0 ps"
  have "0 \<notin> below n i \<or> i = 0" for i using below_lev [of 0 n i] below_same_lev [of 0 n i] by force
  then show ?thesis using a unfolding near_def pool_holds_def by blast
qed

lemma update_loop_ok:
  "pool_ok p n \<Longrightarrow> lev idx < n \<Longrightarrow> near p n A idx ps \<Longrightarrow> \<forall>k\<in>A. idx \<in> below n k \<longrightarrow> k = idx \<Longrightarrow>
     \<exists>ps'. update_loop ps idx (bsz p idx) = Some ps' \<and> pool_holds p n A ps'"
proof (induction idx arbitrary: ps rule: less_induct)
  case (less c)
  have step: ?case if c: "c = 2 * j + 1 \<or> c = 2 * j + 2" for j
  proof -
    have j: "j < c" "j \<noteq> c" "Suc (lev j) < n" "lev j < n" "length ps = 2 ^ n"
      using c less.prems(2,3) unfolding near_def by auto
    have up: "c \<in> below n k" if "j \<in> below n k" for k using below_children [OF that j(3)] c by blast
    then have "j \<notin> A" using less.prems(4) j(2) below_self by blast
    moreover have "\<forall>k\<in>A. j \<in> below n k \<longrightarrow> k = j"
    proof (intro ballI impI)
      fix k assume k: "k \<in> A" "j \<in> below n k"
      then have "k = c" using less.prems(4) up by blast
      then show "k = j" using k(2) below_lev [of j n k] c by auto
    qed
    ultimately show ?thesis
      using less.IH [OF j(1) less.prems(1) j(4) near_parent [OF less.prems(3) j(3) c]]
        update_loop_step [OF less.prems(1) j(5,3) c] by simp
  qed
  show ?case
  proof (cases c rule: node_cases)
    case root
    then show ?thesis using near_root less.prems(3) by (simp add: update_loop.simps)
  qed (use step in blast)+
qed

section \<open>The invariant\<close>

definition buddy_inv :: "buddy \<Rightarrow> nat set \<Rightarrow> bool" where
  "buddy_inv s A \<longleftrightarrow> pool_ok (pool_size s) (num_order s) \<and> 0 < pool_addr s \<and>
     min_block_size s = pool_size s div 2 ^ num_order s * 2 \<and>
     pool_holds (pool_size s) (num_order s) A (pool s) \<and> antichain (num_order s) A"

definition free_node :: "nat \<Rightarrow> nat set \<Rightarrow> nat \<Rightarrow> bool" where
  "free_node n A i \<longleftrightarrow> lev i < n \<and> A \<inter> below n i = {} \<and> (\<forall>k\<in>A. i \<notin> below n k)"

lemma update_pool_ok:
  assumes "pool_ok (pool_size s) (num_order s)" "lev idx < num_order s" "near (pool_size s) (num_order s) A idx (pool s)"
    "\<forall>k\<in>A. idx \<in> below (num_order s) k \<longrightarrow> k = idx"
  shows "\<exists>ps. update_pool s idx = Some (s\<lparr>pool := ps\<rparr>) \<and> pool_holds (pool_size s) (num_order s) A ps"
  using update_loop_ok [OF assms] by (auto simp: update_pool_def compute_block_size_eq)

lemma mark_ok:
  assumes "buddy_inv s A" "lev idx < num_order s" "antichain (num_order s) A'" "A' - {idx} = A - {idx}"
    "v = val (pool_size s) (num_order s) A' idx" "\<forall>k\<in>A'. idx \<in> below (num_order s) k \<longrightarrow> k = idx"
  shows "\<exists>s'. Option.bind (vset (pool s) idx v) (\<lambda>ps. update_pool (s\<lparr>pool := ps\<rparr>) idx) = Some s' \<and>
    buddy_inv s' A' \<and> s' = s\<lparr>pool := pool s'\<rparr>"
proof -
  let ?p = "pool_size s" and ?n = "num_order s" and ?ps = "(pool s)[idx := v]"
  have ok: "pool_ok ?p ?n" and len: "length (pool s) = 2 ^ ?n"
    and at: "\<And>i. lev i < ?n \<Longrightarrow> pool s ! i = val ?p ?n A i"
    using assms(1) unfolding buddy_inv_def pool_holds_def by blast+
  have idx: "idx < length (pool s)" using lev_length [OF len assms(2)] .
  have "?ps ! i = val ?p ?n A' i" if "lev i < ?n" "idx \<notin> below ?n i \<or> i = idx" for i
  proof (cases "i = idx")
    case False
    then have "A' \<inter> below ?n i = A \<inter> below ?n i" using that(2) assms(4) by blast
    then have "val ?p ?n A' i = val ?p ?n A i" by (rule val_cong)
    then show ?thesis using False at [OF that(1)] by simp
  qed (use idx assms(5) in simp)
  then have "near ?p ?n A' idx ?ps" using len unfolding near_def by simp
  then obtain ps where "update_pool (s\<lparr>pool := ?ps\<rparr>) idx = Some (s\<lparr>pool := ps\<rparr>)" "pool_holds ?p ?n A' ps"
    using update_pool_ok [of "s\<lparr>pool := ?ps\<rparr>" idx A'] ok assms(2,6) by auto
  then show ?thesis using idx assms(1,3) unfolding buddy_inv_def by simp
qed

lemma alloc_mark:
  assumes "buddy_inv s A" "free_node (num_order s) A idx"
  shows "\<exists>s'. Option.bind (vset (pool s) idx 0) (\<lambda>ps. update_pool (s\<lparr>pool := ps\<rparr>) idx) = Some s' \<and>
    buddy_inv s' (insert idx A) \<and> s' = s\<lparr>pool := pool s'\<rparr>"
proof (rule mark_ok [OF assms(1)])
  show "lev idx < num_order s" using assms(2) unfolding free_node_def by blast
  show "antichain (num_order s) (insert idx A)"
    using assms unfolding buddy_inv_def antichain_def free_node_def by blast
  show "0 = val (pool_size s) (num_order s) (insert idx A) idx" by (simp add: val_in)
  show "\<forall>k\<in>insert idx A. idx \<in> below (num_order s) k \<longrightarrow> k = idx" using assms(2) unfolding free_node_def by blast
qed blast

lemma free_mark:
  assumes "buddy_inv s A" "idx \<in> A"
  shows "\<exists>s'. Option.bind (vset (pool s) idx (bsz (pool_size s) idx)) (\<lambda>ps. update_pool (s\<lparr>pool := ps\<rparr>) idx) = Some s' \<and>
    buddy_inv s' (A - {idx}) \<and> s' = s\<lparr>pool := pool s'\<rparr>"
proof (rule mark_ok [OF assms(1)])
  have ac: "antichain (num_order s) A" and ok: "pool_ok (pool_size s) (num_order s)"
    using assms(1) unfolding buddy_inv_def by blast+
  show l: "lev idx < num_order s" using ac assms(2) unfolding antichain_def by blast
  show "antichain (num_order s) (A - {idx})" using ac unfolding antichain_def by blast
  have "(A - {idx}) \<inter> below (num_order s) idx = {}" using ac assms(2) unfolding antichain_def by blast
  then show "bsz (pool_size s) idx = val (pool_size s) (num_order s) (A - {idx}) idx"
    using val_full [OF ok l] by simp
  show "\<forall>k\<in>A - {idx}. idx \<in> below (num_order s) k \<longrightarrow> k = idx" using ac assms(2) unfolding antichain_def by blast
qed blast

end
