(* ===== verification/BuddyAlloc.thy ===== *)
theory BuddyAlloc
  imports BuddyOps
begin

text \<open>
  Correctness of the buddy allocator: the search finds a free node of the wanted level whenever there is one,
  deallocation finds the node that was allocated, and along any sequence of operations the live blocks are
  disjoint, large enough and inside the pool.
\<close>

section \<open>Rounding up\<close>

lemma rounded_up_loop_finds:
  "j \<le> 63 \<Longrightarrow> sz \<le> 2 ^ 63 \<Longrightarrow> (j = 0 \<or> 2 ^ (j - 1) < sz) \<Longrightarrow>
     \<exists>k\<le>63. rounded_up_loop sz (2 ^ j) = Some (2 ^ k) \<and> sz \<le> 2 ^ k \<and> (k = 0 \<or> 2 ^ (k - 1) < sz)"
proof (induction "63 - j" arbitrary: j)
  case 0
  then have j: "j = 63" by simp
  then show ?case using 0 by (intro exI [of _ 63]) (subst rounded_up_loop.simps, simp)
next
  case (Suc d)
  show ?case
  proof (cases "2 ^ j < sz")
    case True
    have "j \<noteq> 63" using True Suc.prems(2) by auto
    then have j: "Suc j \<le> 63" using Suc.prems(1) by simp
    then have "(2 :: nat) ^ Suc j \<le> 2 ^ 63" by (intro power_increasing) simp_all
    then have "(2 :: nat) ^ Suc j < 2 ^ 64" by simp
    then have m: "2 ^ j * 2 mod 2 ^ 64 = (2 :: nat) ^ Suc j" by (simp add: mult.commute)
    have "rounded_up_loop sz (2 ^ j) = rounded_up_loop sz (2 ^ Suc j)"
      using True m by (subst rounded_up_loop.simps) (simp only: if_True)
    then show ?thesis using Suc.hyps(1) [of "Suc j"] Suc.hyps(2) Suc.prems(2) True j by simp
  next
    case False
    then have "rounded_up_loop sz (2 ^ j) = Some (2 ^ j)" by (subst rounded_up_loop.simps) simp
    then show ?thesis using False Suc.prems by auto
  qed
qed

lemma rounded_up_finds:
  assumes "sz \<le> 2 ^ 63"
  shows "\<exists>k\<le>63. rounded_up sz = Some (2 ^ k) \<and> sz \<le> 2 ^ k \<and> (k = 0 \<or> 2 ^ (k - 1) < sz)"
  using rounded_up_loop_finds [of 0 sz] assms unfolding rounded_up_def by simp

lemma rounded_up_loop_stuck:
  assumes "rounded_up_loop sz v = Some w"
  shows "2 ^ 63 < sz \<longrightarrow> \<not> (v = 0 \<or> (\<exists>k\<le>63. v = 2 ^ k))"
proof (rule rounded_up_loop.raw_induct [where P = "\<lambda>sz v w. 2 ^ 63 < sz \<longrightarrow> \<not> (v = 0 \<or> (\<exists>k\<le>63. v = 2 ^ k))"])
  fix loop and sz v w :: nat
  assume IH: "\<And>sz v w. loop sz v = Some w \<Longrightarrow> 2 ^ 63 < sz \<longrightarrow> \<not> (v = 0 \<or> (\<exists>k\<le>63. v = 2 ^ k))"
    and eq: "(if v < sz then loop sz (v * 2 mod 2 ^ 64) else Some v) = Some w"
  show "2 ^ 63 < sz \<longrightarrow> \<not> (v = 0 \<or> (\<exists>k\<le>63. v = 2 ^ k))"
  proof (intro impI notI)
    assume sz: "2 ^ 63 < sz" and v: "v = 0 \<or> (\<exists>k\<le>63. v = 2 ^ k)"
    have "(2 :: nat) ^ k \<le> 2 ^ 63" if "k \<le> 63" for k using that by (intro power_increasing) simp_all
    then have "v \<le> 2 ^ 63" using v by auto
    then have "v < sz" using sz by simp
    then have r: "loop sz (v * 2 mod 2 ^ 64) = Some w" using eq by (simp only: if_True)
    have "v * 2 mod 2 ^ 64 = 0 \<or> (\<exists>k\<le>63. v * 2 mod 2 ^ 64 = 2 ^ k)"
    proof (cases "v = 0 \<or> v = 2 ^ 63")
      case False
      then obtain k where k: "v = 2 ^ k" "k \<le> 63" using v by blast
      moreover have "k \<noteq> 63" using False k(1) by blast
      ultimately have "(2 :: nat) ^ Suc k \<le> 2 ^ 63" by (intro power_increasing) simp_all
      then have "v * 2 mod 2 ^ 64 = 2 ^ Suc k" unfolding k(1) by (simp add: mult.commute)
      then show ?thesis using k \<open>k \<noteq> 63\<close> by (intro disjI2 exI [of _ "Suc k"]) simp
    qed auto
    then show False using IH [OF r] sz by metis
  qed
qed (rule assms)

text \<open>A size above \<open>2\<^sup>6\<^sup>3\<close> shifts the bit out and loops forever on zero.\<close>

lemma rounded_up_diverges: "2 ^ 63 < sz \<Longrightarrow> rounded_up sz = None"
proof -
  assume "2 ^ 63 < sz"
  moreover have "\<exists>k\<le>63. (1 :: nat) = 2 ^ k" by (rule exI [of _ 0]) simp
  ultimately have "rounded_up_loop sz 1 \<noteq> Some w" for w using rounded_up_loop_stuck by blast
  then show ?thesis unfolding rounded_up_def by (cases "rounded_up_loop sz 1") blast+
qed

definition want :: "buddy \<Rightarrow> nat \<Rightarrow> nat" where
  "want s sz = the (rounded_up_to_min_block_size sz (min_block_size s))"

definition level_of :: "buddy \<Rightarrow> nat \<Rightarrow> nat" where
  "level_of s sz = compute_level (pool_size s) (want s sz)"

lemma want_ok:
  assumes "sz \<le> 2 ^ 63"
  shows "rounded_up_to_min_block_size sz (min_block_size s) = Some (want s sz)" "sz \<le> want s sz" "0 < want s sz"
    "min_block_size s \<le> want s sz"
proof -
  obtain k where k: "rounded_up sz = Some (2 ^ k)" "sz \<le> 2 ^ k" using rounded_up_finds [OF assms] by blast
  then have w: "want s sz = max (2 ^ k) (min_block_size s)" by (simp add: want_def rounded_up_to_min_block_size_def)
  show "rounded_up_to_min_block_size sz (min_block_size s) = Some (want s sz)"
    using k w by (simp add: rounded_up_to_min_block_size_def)
  have "(0 :: nat) < 2 ^ k" by simp
  then show "sz \<le> want s sz" "0 < want s sz" "min_block_size s \<le> want s sz"
    unfolding w using k(2) by (simp_all only: le_max_iff_disj less_max_iff_disj) simp_all
qed

lemma level_ok:
  assumes "buddy_inv s A" "sz \<le> 2 ^ 63" "want s sz \<le> pool_size s"
  shows "level_of s sz < num_order s" "want s sz \<le> pool_size s div 2 ^ level_of s sz"
    "pool_size s div 2 ^ Suc (level_of s sz) < want s sz"
proof -
  have m: "min_block_size s = pool_size s div 2 ^ num_order s * 2" using assms(1) unfolding buddy_inv_def by blast
  have "pool_size s div 2 ^ num_order s < want s sz" using want_ok(3,4) [OF assms(2), of s] m by linarith
  then show "level_of s sz < num_order s"
    unfolding level_of_def using compute_level_less want_ok(3) [OF assms(2)] assms(3) by blast
  show "want s sz \<le> pool_size s div 2 ^ level_of s sz" "pool_size s div 2 ^ Suc (level_of s sz) < want s sz"
    unfolding level_of_def using compute_level_bounds want_ok(3) [OF assms(2)] assms(3) by blast+
qed

section \<open>The search\<close>

lemma search_block_ok:
  assumes "pool_ok p n" "pool_holds p n A ps" "0 < bs"
  shows "lev i + l < n \<Longrightarrow> bs \<le> p div 2 ^ (lev i + l) \<Longrightarrow> bs \<le> val p n A i \<Longrightarrow> \<forall>k\<in>A. i \<notin> below n k \<Longrightarrow>
    \<exists>idx. search_block ps l bs (a + boff p i) (bsz p i) i = Some (idx, a + boff p idx) \<and> lev idx = lev i + l \<and>
      bs \<le> val p n A idx \<and> (\<forall>k\<in>A. idx \<notin> below n k)"
proof (induction l arbitrary: i)
  case (Suc l)
  let ?l = "2 * i + 1" and ?r = "2 * i + 2"
  have len: "length ps = 2 ^ n" and at: "\<And>i. lev i < n \<Longrightarrow> ps ! i = val p n A i"
    using assms(2) unfolding pool_holds_def by blast+
  have l: "Suc (lev i) < n" "lev ?l < n" "lev ?r < n" using Suc.prems(1) by simp_all
  have "i \<notin> A" using Suc.prems(4) below_self by blast
  then have v: "val p n A i = comb (bsz p i) (val p n A ?l) (val p n A ?r)" using val_rec l(1) by blast
  have in_l: "?l < length ps" "?r < length ps" using lev_length [OF len] l by blast+
  have child: "\<forall>k\<in>A. c \<notin> below n k" if "c = ?l \<or> c = ?r" "bs \<le> val p n A c" for c
  proof (intro ballI notI)
    fix k assume k: "k \<in> A" "c \<in> below n k"
    have "c \<noteq> k" using that(2) assms(3) val_in [OF k(1)] by auto
    then have "i \<in> below n k" using below_parent [OF k(2) _ that(1)] by blast
    then show False using Suc.prems(4) k(1) by blast
  qed
  have next_l: "lev ?l + l < n" "lev ?r + l < n" "bs \<le> p div 2 ^ (lev ?l + l)" "bs \<le> p div 2 ^ (lev ?r + l)"
    using Suc.prems(1,2) by (simp_all del: power_Suc)
  show ?case
  proof (cases "bs \<le> val p n A ?l")
    case True
    then show ?thesis using Suc.IH [OF next_l(1,3) True child [OF _ True]] in_l at [OF l(2)] by (simp add: mult.commute [of i 2])
  next
    case False
    have "p div 2 ^ (lev ?l + l) \<le> p div 2 ^ lev ?l" by (intro div_le_mono2 power_increasing) simp_all
    then have "bs \<le> bsz p i div 2" using next_l(3) bsz_def [of p ?l] bsz_child(1) [of p i] by linarith
    moreover have "val p n A ?l \<le> bsz p i div 2" "val p n A ?r \<le> bsz p i div 2"
      using val_le [of p n A ?l] val_le [of p n A ?r] bsz_child(1,2) [of p i] by simp_all
    moreover have "bsz p i div 2 * 2 = bsz p i" using bsz_even [OF assms(1) l(1)] .
    ultimately have r: "bs \<le> val p n A ?r"
      using False Suc.prems(3) v unfolding comb_def by (simp split: if_splits)
    have "search_block ps (Suc l) bs (a + boff p i) (bsz p i) i =
        search_block ps l bs (a + boff p ?r) (bsz p ?r) ?r"
      using False r in_l at [OF l(2)] at [OF l(3)] by (simp add: mult.commute [of i 2] add.assoc)
    then show ?thesis using Suc.IH [OF next_l(2,4) r child [OF _ r]] by simp
  qed
qed simp

text \<open>The largest free block of a subtree is at most that of the whole tree.\<close>

lemma val_up:
  assumes "pool_ok p n"
  shows "lev i < n \<Longrightarrow> \<forall>k\<in>A. i \<notin> below n k \<Longrightarrow> val p n A i \<le> val p n A 0"
proof (induction i rule: less_induct)
  case (less c)
  have step: ?case if c: "c = 2 * j + 1 \<or> c = 2 * j + 2" for j
  proof -
    have j: "j < c" "lev j < n" "Suc (lev j) < n" using c less.prems(1) by auto
    have nb: "\<forall>k\<in>A. j \<notin> below n k" using below_children [OF _ j(3)] c less.prems(2) by blast
    then have "j \<notin> A" using below_self by blast
    then have v: "val p n A j = comb (bsz p j) (val p n A (2 * j + 1)) (val p n A (2 * j + 2))"
      using val_rec [OF j(3)] by blast
    have "val p n A c \<le> comb (bsz p j) (val p n A (2 * j + 1)) (val p n A (2 * j + 2))"
      using c unfolding comb_def by auto
    then show ?thesis using less.IH [OF j(1,2) nb] unfolding v by (rule le_trans)
  qed
  show ?case
  proof (cases c rule: node_cases)
    case root
    then show ?thesis by simp
  qed (use step in blast)+
qed

section \<open>Allocation\<close>

lemma top_eq: "buddy_inv s A \<Longrightarrow> vget (pool s) 0 = Some (val (pool_size s) (num_order s) A 0)"
  by (auto simp: buddy_inv_def pool_holds_def pool_ok_def)

lemma allocate_null:
  assumes "buddy_inv s A" "sz \<le> 2 ^ 63" "val (pool_size s) (num_order s) A 0 < want s sz"
  shows "allocate s sz = Some (s, 0)"
  using want_ok(1) [OF assms(2)] top_eq [OF assms(1)] assms(3) by (simp add: allocate_def)

lemma allocate_block:
  assumes "buddy_inv s A" "sz \<le> 2 ^ 63" "want s sz \<le> val (pool_size s) (num_order s) A 0"
  shows "\<exists>s' idx. allocate s sz = Some (s', pool_addr s + boff (pool_size s) idx) \<and>
    free_node (num_order s) A idx \<and> lev idx = level_of s sz \<and> want s sz \<le> bsz (pool_size s) idx \<and>
    buddy_inv s' (insert idx A) \<and> s' = s\<lparr>pool := pool s'\<rparr>"
proof -
  let ?p = "pool_size s" and ?n = "num_order s" and ?l = "level_of s sz" and ?b = "want s sz"
  have ok: "pool_ok ?p ?n" and h: "pool_holds ?p ?n A (pool s)" and ad: "0 < pool_addr s"
    using assms(1) unfolding buddy_inv_def by blast+
  have bp: "?b \<le> ?p" using assms(3) val_le [of ?p ?n A 0] by simp
  note lv = level_ok [OF assms(1,2) bp]
  have "0 \<notin> A" using assms(3) val_in [of 0 A ?p ?n] want_ok(3) [OF assms(2), of s] by auto
  then have root: "\<forall>k\<in>A. 0 \<notin> below ?n k" using below_lev [of 0 ?n] below_same_lev [of 0 ?n] by force
  obtain idx where idx: "search_block (pool s) ?l ?b (pool_addr s) ?p 0 = Some (idx, pool_addr s + boff ?p idx)"
    "lev idx = ?l" "?b \<le> val ?p ?n A idx" "\<forall>k\<in>A. idx \<notin> below ?n k"
    using search_block_ok [OF ok h want_ok(3) [OF assms(2), of s], where i = 0 and l = ?l and a = "pool_addr s"] lv assms(3) root by auto
  have "?p div 2 ^ Suc ?l = bsz ?p idx div 2" unfolding bsz_def idx(2) div_pow_Suc ..
  then have "A \<inter> below ?n idx = {}" using val_half [OF ok, of idx A] idx(2,3) lv(1,3) by force
  then have fr: "free_node ?n A idx" using idx lv(1) unfolding free_node_def by simp
  then obtain s' where s': "Option.bind (vset (pool s) idx 0) (\<lambda>ps. update_pool (s\<lparr>pool := ps\<rparr>) idx) = Some s'"
    "buddy_inv s' (insert idx A)" "s' = s\<lparr>pool := pool s'\<rparr>" using alloc_mark [OF assms(1)] by blast
  obtain ps where ps: "vset (pool s) idx 0 = Some ps" "update_pool (s\<lparr>pool := ps\<rparr>) idx = Some s'"
    using s'(1) by (auto simp: bind_eq_Some_conv)
  have "allocate s sz = Some (s', pool_addr s + boff ?p idx)"
    using want_ok(1) [OF assms(2)] top_eq [OF assms(1)] assms(3) idx(1) ad ps
    by (simp add: allocate_def level_of_def [symmetric])
  moreover have "?b \<le> bsz ?p idx" using idx(3) val_le [of ?p ?n A idx] by simp
  ultimately show ?thesis using fr idx(2) s'(2,3) by blast
qed

section \<open>Deallocation\<close>

lemma dealloc_walk_ok:
  assumes "pool_ok p n" "lev idx < n"
  shows "idx \<in> below n i \<Longrightarrow> lev idx = lev i + l \<Longrightarrow>
    dealloc_walk l (boff p idx) i (bsz p i) (boff p i) = (idx, bsz p idx)"
proof (induction l arbitrary: i)
  case 0
  then show ?case using below_same_lev [of idx n i] by simp
next
  case (Suc l)
  let ?l = "2 * i + 1" and ?r = "2 * i + 2"
  have "Suc (lev i) < n" "idx \<noteq> i" using Suc.prems(2) assms(2) by auto
  then have "idx \<in> below n ?l \<or> idx \<in> below n ?r" using below_child [of i n] Suc.prems(1) by blast
  moreover have "boff p idx \<in> block p idx" using bsz_dvd(2) [OF assms] by (simp add: block_def)
  ultimately consider "idx \<in> below n ?l" "boff p idx \<in> block p ?l" | "idx \<in> below n ?r" "boff p idx \<in> block p ?r"
    using below_block by blast
  then show ?case
  proof cases
    case 1
    then have "dealloc_walk (Suc l) (boff p idx) i (bsz p i) (boff p i) =
        dealloc_walk l (boff p idx) ?l (bsz p ?l) (boff p ?l)" by (simp add: block_def mult.commute [of i 2])
    then show ?thesis using Suc.IH [OF 1(1)] Suc.prems(2) by simp
  next
    case 2
    then have "dealloc_walk (Suc l) (boff p idx) i (bsz p i) (boff p i) =
        dealloc_walk l (boff p idx) ?r (bsz p ?r) (boff p ?r)" by (simp add: block_def mult.commute [of i 2])
    then show ?thesis using Suc.IH [OF 2(1)] Suc.prems(2) by simp
  qed
qed

lemma deallocate_ok:
  assumes "buddy_inv s A" "idx \<in> A" "sz \<le> 2 ^ 63" "lev idx = level_of s sz"
  shows "\<exists>s'. deallocate s (pool_addr s + boff (pool_size s) idx) sz = Some s' \<and>
    buddy_inv s' (A - {idx}) \<and> s' = s\<lparr>pool := pool s'\<rparr>"
proof -
  let ?p = "pool_size s" and ?n = "num_order s"
  have ok: "pool_ok ?p ?n" and l: "lev idx < ?n"
    using assms(1,2) unfolding buddy_inv_def antichain_def by blast+
  have "dealloc_walk (level_of s sz) (boff ?p idx) 0 ?p 0 = (idx, bsz ?p idx)"
    using dealloc_walk_ok [OF ok l below_root [OF l], of "level_of s sz"] assms(4) by simp
  then show ?thesis using free_mark [OF assms(1,2)] want_ok(1) [OF assms(3), of s]
    by (simp add: deallocate_def level_of_def [symmetric])
qed

end
