(* ===== verification/BuddySpec.thy ===== *)
theory BuddySpec
  imports BuddyAlloc
begin

text \<open>
  The states that a client of the buddy allocator can reach, with the map of its live allocations, and what
  holds in all of them.
\<close>

section \<open>The initial state\<close>

lemma init_orders_eq:
  "init_orders k o' b = (xs, b') \<Longrightarrow> b' = b div 2 ^ k \<and> length xs = 2 ^ o' * (2 ^ k - 1) \<and>
     (\<forall>i. o' \<le> lev i \<longrightarrow> lev i < o' + k \<longrightarrow> xs ! (i + 1 - 2 ^ o') = b div 2 ^ (lev i - o'))"
proof (induction k arbitrary: o' b xs b')
  case (Suc k)
  obtain ys c where ys: "init_orders k (Suc o') (b div 2) = (ys, c)" by (cases "init_orders k (Suc o') (b div 2)")
  note IH = Suc.IH [OF ys]
  have xs: "xs = replicate (2 ^ o') b @ ys" "b' = c" using Suc.prems ys by auto
  have d: "b div 2 div 2 ^ j = b div 2 ^ Suc j" for j by (metis div_mult2_eq power_Suc)
  have "xs ! (i + 1 - 2 ^ o') = b div 2 ^ (lev i - o')" if i: "o' \<le> lev i" "lev i < o' + Suc k" for i
  proof (cases "lev i = o'")
    case True
    then have "i + 1 < 2 ^ o' + 2 ^ o'" using lev_bounds [of i] by simp
    then have "i + 1 - 2 ^ o' < 2 ^ o'" by (metis less_diff_conv2 lev_bounds True)
    then show ?thesis using True xs(1) by (simp add: nth_append)
  next
    case False
    then have s: "Suc o' \<le> lev i" "lev i < Suc o' + k" using i by auto
    then have "(2 :: nat) ^ Suc o' \<le> 2 ^ lev i" by (intro power_increasing) simp_all
    then have "(2 :: nat) ^ Suc o' \<le> i + 1" using lev_bounds [of i] by linarith
    then have "\<not> i + 1 - 2 ^ o' < 2 ^ o'" "i + 1 - 2 ^ o' - 2 ^ o' = i + 1 - 2 ^ Suc o'" by auto
    then have "xs ! (i + 1 - 2 ^ o') = ys ! (i + 1 - 2 ^ Suc o')" using xs(1) by (simp add: nth_append)
    also have "\<dots> = b div 2 ^ Suc (lev i - Suc o')" using IH s d by metis
    also have "Suc (lev i - Suc o') = lev i - o'" using s by simp
    finally show ?thesis .
  qed
  moreover have "length xs = 2 ^ o' * (2 ^ Suc k - 1)"
    using IH xs(1) by (simp add: algebra_simps)
  ultimately show ?case using IH xs(2) d by simp
qed simp

lemma init_orders_ex:
  "\<exists>xs. init_orders n 0 p = (xs, p div 2 ^ n) \<and> length xs = 2 ^ n - 1 \<and> (\<forall>i. lev i < n \<longrightarrow> xs ! i = bsz p i)"
proof -
  obtain xs b where x: "init_orders n 0 p = (xs, b)" by (cases "init_orders n 0 p")
  show ?thesis using init_orders_eq [OF x] x by (auto simp: bsz_def)
qed

lemma buddy_new_inv:
  assumes "pool_ok p n" "0 < a"
  shows "buddy_inv (buddy_new a p n) {}" "pool_addr (buddy_new a p n) = a" "pool_size (buddy_new a p n) = p"
    "num_order (buddy_new a p n) = n"
proof -
  obtain xs where xs: "init_orders n 0 p = (xs, p div 2 ^ n)" "length xs = 2 ^ n - 1" "\<And>i. lev i < n \<Longrightarrow> xs ! i = bsz p i"
    using init_orders_ex [of n p] by blast
  have "i < length xs" if "lev i < n" for i using that xs(2) lev_less_iff by auto
  then have "(xs @ replicate (2 ^ n - length xs) 0) ! i = val p n {} i" if "lev i < n" for i
    using that xs(3) val_full [OF assms(1)] by (simp add: nth_append)
  then have "pool_holds p n {} (xs @ replicate (2 ^ n - length xs) 0)" using xs(2) by (simp add: pool_holds_def)
  then show "buddy_inv (buddy_new a p n) {}"
    using assms xs(1) by (simp add: buddy_new_def buddy_inv_def antichain_def)
  show "pool_addr (buddy_new a p n) = a" "pool_size (buddy_new a p n) = p" "num_order (buddy_new a p n) = n"
    using xs(1,2) by (simp_all add: buddy_new_def nth_append)
qed

section \<open>Reachable states\<close>

text \<open>A client allocates, and gives back a live block with the size it asked for; sizes are at most \<open>2\<^sup>6\<^sup>3\<close>.\<close>

inductive buddy_reach :: "nat \<Rightarrow> nat \<Rightarrow> nat \<Rightarrow> buddy \<Rightarrow> (nat \<rightharpoonup> nat) \<Rightarrow> bool" for addr p n where
  reach_new: "buddy_reach addr p n (buddy_new addr p n) Map.empty"
| reach_alloc: "buddy_reach addr p n s L \<Longrightarrow> sz \<le> 2 ^ 63 \<Longrightarrow> allocate s sz = Some (s', a) \<Longrightarrow> a \<noteq> 0 \<Longrightarrow>
    buddy_reach addr p n s' (L(a \<mapsto> sz))"
| reach_full: "buddy_reach addr p n s L \<Longrightarrow> sz \<le> 2 ^ 63 \<Longrightarrow> allocate s sz = Some (s', 0) \<Longrightarrow> buddy_reach addr p n s' L"
| reach_free: "buddy_reach addr p n s L \<Longrightarrow> L a = Some sz \<Longrightarrow> deallocate s a sz = Some s' \<Longrightarrow>
    buddy_reach addr p n s' (L(a := None))"

text \<open>Every live address is the start of the block of its node.\<close>

definition live_inv :: "nat \<Rightarrow> nat \<Rightarrow> nat \<Rightarrow> buddy \<Rightarrow> (nat \<rightharpoonup> nat) \<Rightarrow> (nat \<Rightarrow> nat) \<Rightarrow> bool" where
  "live_inv addr p n s L nd \<longleftrightarrow> pool_addr s = addr \<and> pool_size s = p \<and> num_order s = n \<and> buddy_inv s (nd ` dom L) \<and>
     (\<forall>a sz. L a = Some sz \<longrightarrow>
        sz \<le> 2 ^ 63 \<and> want s sz \<le> bsz p (nd a) \<and> lev (nd a) = level_of s sz \<and> a = addr + boff p (nd a))"

lemma same_shape:
  assumes "s' = s\<lparr>pool := ps\<rparr>"
  shows "pool_addr s' = pool_addr s" "pool_size s' = pool_size s" "num_order s' = num_order s"
    "want s' sz = want s sz" "level_of s' sz = level_of s sz"
  using assms by (simp_all add: want_def level_of_def)

lemma live_nodes_inj: "live_inv addr p n s L nd \<Longrightarrow> L a = Some sz \<Longrightarrow> L b = Some sz' \<Longrightarrow> nd a = nd b \<Longrightarrow> a = b"
  unfolding live_inv_def by metis

lemma live_alloc:
  assumes "live_inv addr p n s L nd" "sz \<le> 2 ^ 63" "allocate s sz = Some (s', a)" "a \<noteq> 0"
  shows "L a = None \<and> (\<exists>nd'. live_inv addr p n s' (L(a \<mapsto> sz)) nd')"
proof -
  have i: "buddy_inv s (nd ` dom L)" "pool_addr s = addr" "pool_size s = p" "num_order s = n"
    using assms(1) unfolding live_inv_def by blast+
  have "want s sz \<le> val (pool_size s) (num_order s) (nd ` dom L) 0"
    using allocate_null [OF i(1) assms(2)] assms(3,4) by fastforce
  then obtain idx where idx: "a = addr + boff p idx" "free_node n (nd ` dom L) idx" "lev idx = level_of s sz"
    "want s sz \<le> bsz p idx" "buddy_inv s' (insert idx (nd ` dom L))" "s' = s\<lparr>pool := pool s'\<rparr>"
    using allocate_block [OF i(1) assms(2)] assms(3) i by auto
  note sh = same_shape [OF idx(6)]
  have la: "L a = None"
  proof (rule ccontr)
    assume "L a \<noteq> None"
    then obtain y where y: "L a = Some y" by blast
    then have "a \<in> dom L" by blast
    moreover have "a = addr + boff p (nd a)" using assms(1) y unfolding live_inv_def by blast
    then have "boff p (nd a) = boff p idx" using idx(1) by simp
    moreover have ok: "pool_ok p n" "lev idx < n" "lev (nd a) < n" "idx \<notin> below n (nd a)" "nd a \<notin> below n idx"
      using idx(2) i \<open>a \<in> dom L\<close> unfolding free_node_def buddy_inv_def antichain_def by blast+
    moreover have "block p idx \<inter> block p (nd a) = {}" by (rule unrelated [OF ok(2-5)])
    moreover have "0 < bsz p idx" "0 < bsz p (nd a)" using bsz_dvd(2) [OF ok(1)] ok(2,3) by blast+
    ultimately show False by (auto simp: block_def)
  qed
  have "(nd(a := idx)) ` dom (L(a \<mapsto> sz)) = insert idx (nd ` dom L)" using la by auto
  then have "live_inv addr p n s' (L(a \<mapsto> sz)) (nd(a := idx))"
    using assms(1,2) idx i sh unfolding live_inv_def by (simp del: dom_fun_upd)
  then show ?thesis using la by blast
qed

lemma live_null:
  assumes "live_inv addr p n s L nd" "sz \<le> 2 ^ 63" "allocate s sz = Some (s', 0)"
  shows "s' = s"
proof -
  have i: "buddy_inv s (nd ` dom L)" "0 < pool_addr s" using assms(1) unfolding live_inv_def buddy_inv_def by blast+
  then show ?thesis
    using allocate_null [OF i(1) assms(2)] allocate_block [OF i(1) assms(2)] assms(3)
    by (cases "want s sz \<le> val (pool_size s) (num_order s) (nd ` dom L) 0") auto
qed

lemma live_alloc_total:
  assumes "live_inv addr p n s L nd" "sz \<le> 2 ^ 63"
  shows "\<exists>s' a. allocate s sz = Some (s', a)"
proof -
  have i: "buddy_inv s (nd ` dom L)" using assms(1) unfolding live_inv_def by blast
  show ?thesis using allocate_null [OF i assms(2)] allocate_block [OF i assms(2)]
    by (cases "want s sz \<le> val (pool_size s) (num_order s) (nd ` dom L) 0") (auto simp: not_le)
qed

lemma live_free:
  assumes "live_inv addr p n s L nd" "L a = Some sz"
  shows "\<exists>s'. deallocate s a sz = Some s' \<and> live_inv addr p n s' (L(a := None)) nd"
proof -
  have i: "buddy_inv s (nd ` dom L)" "pool_addr s = addr" "pool_size s = p" "num_order s = n"
    and a: "sz \<le> 2 ^ 63" "lev (nd a) = level_of s sz" "a = addr + boff p (nd a)"
    using assms unfolding live_inv_def by blast+
  obtain s' where s': "deallocate s a sz = Some s'" "buddy_inv s' (nd ` dom L - {nd a})" "s' = s\<lparr>pool := pool s'\<rparr>"
    using deallocate_ok [OF i(1) _ a(1,2)] assms(2) i a(3) by auto
  have "nd ` dom L - {nd a} = nd ` dom (L(a := None))"
    using live_nodes_inj [OF assms(1) assms(2)] by (auto simp: eq_commute)
  then show ?thesis using s' assms(1) same_shape [OF s'(3)] unfolding live_inv_def by auto
qed

lemma reach_inv: "buddy_reach addr p n s L \<Longrightarrow> pool_ok p n \<Longrightarrow> 0 < addr \<Longrightarrow> \<exists>nd. live_inv addr p n s L nd"
proof (induction rule: buddy_reach.induct)
  case reach_new
  then show ?case using buddy_new_inv by (simp add: live_inv_def)
next
  case (reach_alloc s L sz s' a)
  then show ?case using live_alloc by blast
next
  case (reach_full s L sz s')
  then show ?case using live_null by blast
next
  case (reach_free s L a sz s')
  then obtain nd where "live_inv addr p n s L nd" by blast
  from live_free [OF this reach_free.hyps(2)] show ?case using reach_free.hyps(3) by (auto simp del: fun_upd_apply)
qed

section \<open>What a client relies on\<close>

lemma live_block:
  assumes "live_inv addr p n s L nd" "L a = Some sz"
  shows "a = addr + boff p (nd a)" "sz \<le> bsz p (nd a)" "lev (nd a) < n" "nd a \<in> nd ` dom L"
    "{a..<a + sz} \<subseteq> (+) addr ` block p (nd a)"
proof -
  have f: "sz \<le> 2 ^ 63" "want s sz \<le> bsz p (nd a)" "buddy_inv s (nd ` dom L)" "num_order s = n"
    and a: "a = addr + boff p (nd a)"
    using assms unfolding live_inv_def by blast+
  show "a = addr + boff p (nd a)" by (rule a)
  show sz: "sz \<le> bsz p (nd a)" using want_ok(2) [OF f(1), of s] f(2) by simp
  show d: "nd a \<in> nd ` dom L" using assms(2) by blast
  show "lev (nd a) < n" using f(3,4) d unfolding buddy_inv_def antichain_def by blast
  show "{a..<a + sz} \<subseteq> (+) addr ` block p (nd a)"
  proof
    fix x assume "x \<in> {a..<a + sz}"
    then have "x = addr + (x - addr)" "x - addr \<in> block p (nd a)" using a sz unfolding block_def by auto
    then show "x \<in> (+) addr ` block p (nd a)" by (rule image_eqI)
  qed
qed

lemma reach_disjoint:
  assumes "live_inv addr p n s L nd" "L a = Some sz" "L b = Some sz'" "a \<noteq> b"
  shows "{a..<a + sz} \<inter> {b..<b + sz'} = {}"
proof -
  note A = live_block [OF assms(1,2)] and B = live_block [OF assms(1,3)]
  have ac: "antichain n (nd ` dom L)" using assms(1) unfolding live_inv_def buddy_inv_def by blast
  have "nd a \<noteq> nd b" using live_nodes_inj [OF assms(1-3)] assms(4) by blast
  then have "nd a \<notin> below n (nd b)" "nd b \<notin> below n (nd a)"
    using ac A(4) B(4) unfolding antichain_def by metis+
  then have "block p (nd a) \<inter> block p (nd b) = {}" by (intro unrelated [OF A(3) B(3)])
  then have "(+) addr ` block p (nd a) \<inter> (+) addr ` block p (nd b) = {}" by auto
  then show ?thesis using A(5) B(5) by blast
qed

lemma reach_inside:
  assumes "live_inv addr p n s L nd" "L a = Some sz"
  shows "{a..<a + sz} \<subseteq> {addr..<addr + p}"
proof -
  note A = live_block [OF assms]
  have "block p (nd a) \<subseteq> block p 0" by (rule below_block [OF below_root [OF A(3)]])
  then have "(+) addr ` block p (nd a) \<subseteq> {addr..<addr + p}" by (auto simp: block_def)
  then show ?thesis using A(5) by blast
qed

text \<open>
  C7. In every reachable state of the allocator the live blocks lie inside the pool, each with all the bytes
  that were asked for, and two different ones never overlap.
\<close>

theorem buddy_blocks_safe:
  assumes "buddy_reach addr p n s L" "pool_ok p n" "0 < addr"
  shows "(\<forall>a sz. L a = Some sz \<longrightarrow> {a..<a + sz} \<subseteq> {addr..<addr + p}) \<and>
    (\<forall>a b sz sz'. L a = Some sz \<longrightarrow> L b = Some sz' \<longrightarrow> a \<noteq> b \<longrightarrow> {a..<a + sz} \<inter> {b..<b + sz'} = {})"
proof -
  obtain nd where nd: "live_inv addr p n s L nd" using reach_inv [OF assms] by blast
  show ?thesis using reach_inside [OF nd] reach_disjoint [OF nd] by simp
qed


lemma boff_eq:
  assumes "pool_ok p n"
  shows "lev i < n \<Longrightarrow> boff p i = (i + 1 - 2 ^ lev i) * bsz p i"
proof (induction i rule: node_induct)
  case (left j)
  have b: "bsz p j = 2 * (bsz p j div 2)" using bsz_even [OF assms, of j] left.prems by simp
  have "2 * j + 1 + 1 - 2 ^ lev (2 * j + 1) = 2 * (j + 1 - 2 ^ lev j)" by simp
  then have "(2 * j + 1 + 1 - 2 ^ lev (2 * j + 1)) * bsz p (2 * j + 1) = (j + 1 - 2 ^ lev j) * (2 * (bsz p j div 2))"
    by (simp only: bsz_child)
  then show ?case using left b by simp
next
  case (right j)
  have b: "bsz p j = 2 * (bsz p j div 2)" using bsz_even [OF assms, of j] right.prems by simp
  have "2 ^ lev j \<le> j + 1" using lev_bounds by blast
  then have "2 * j + 2 + 1 - 2 ^ lev (2 * j + 2) = 2 * (j + 1 - 2 ^ lev j) + 1" by (simp add: Suc_diff_le)
  then have "(2 * j + 2 + 1 - 2 ^ lev (2 * j + 2)) * bsz p (2 * j + 2)
      = (j + 1 - 2 ^ lev j) * (2 * (bsz p j div 2)) + bsz p j div 2"
    by (simp only: bsz_child) (simp add: algebra_simps)
  then show ?case using right b by simp
qed simp

lemma node_at:
  assumes "k < 2 ^ l"
  shows "lev (k + 2 ^ l - 1) = l"
proof -
  have "lev (k + 2 ^ l - 1) < Suc l" using assms by (simp add: lev_less_iff)
  moreover have "\<not> lev (k + 2 ^ l - 1) < l" by (simp add: lev_less_iff)
  ultimately show ?thesis by simp
qed


text \<open>
  C29. The loop of \<open>rounded_up\<close> ends exactly for sizes up to \<open>2\<^sup>6\<^sup>3\<close>, with the least power of two that is
  large enough; above that the shifted value becomes zero and the loop never ends.
\<close>

theorem rounded_up_terminates_iff:
  "(\<exists>v. rounded_up sz = Some v) = (sz \<le> 2 ^ 63) \<and>
   (rounded_up sz = Some v \<longrightarrow> (\<exists>k. v = 2 ^ k) \<and> sz \<le> v \<and> (\<forall>j. sz \<le> 2 ^ j \<longrightarrow> v \<le> 2 ^ j))"
proof (cases "sz \<le> 2 ^ 63")
  case True
  then obtain k where k: "rounded_up sz = Some (2 ^ k)" "sz \<le> 2 ^ k" "k = 0 \<or> 2 ^ (k - 1) < sz"
    using rounded_up_finds by blast
  have "(2 :: nat) ^ k \<le> 2 ^ j" if "sz \<le> 2 ^ j" for j
  proof (cases "k = 0")
    case False
    then have "(2 :: nat) ^ (k - 1) < 2 ^ j" using k(3) that by linarith
    then show ?thesis using False by (intro power_increasing) simp_all
  qed simp
  then show ?thesis using k True by auto
next
  case False
  then have "2 ^ 63 < sz" by linarith
  then show ?thesis using rounded_up_diverges False by simp
qed

section \<open>A concrete run\<close>

lemma rounded_up_small: "rounded_up 1 = Some 1" "rounded_up 2 = Some 2" "rounded_up 3 = Some 4" "rounded_up (Suc 0) = Some (Suc 0)"
  by (simp_all add: rounded_up_def rounded_up_loop.simps)

lemmas buddy_eval = rounded_up_small rounded_up_to_min_block_size_def compute_level.simps compute_block_size_def
  block_size_loop.simps update_loop.simps update_pool_def allocate_def deallocate_def Let_def

abbreviation run_state :: "nat list \<Rightarrow> buddy" where
  "run_state ps \<equiv> \<lparr>pool_addr = 1, pool_size = 8, num_order = 2, min_block_size = 4, pool = ps\<rparr>"

lemma run_new: "buddy_new 1 8 2 = run_state [8, 4, 4, 0]"
  by code_simp

lemma run_ok: "pool_ok 8 2"
  by (simp add: pool_ok_def)

lemma run_steps:
  "allocate (run_state [8, 4, 4, 0]) 3 = Some (run_state [4, 0, 4, 0], 1)"
  "allocate (run_state [4, 0, 4, 0]) 1 = Some (run_state [0, 0, 0, 0], 5)"
  "allocate (run_state [0, 0, 0, 0]) 2 = Some (run_state [0, 0, 0, 0], 0)"
  by (simp_all add: buddy_eval)

lemma run_reach: "buddy_reach 1 8 2 (run_state [0, 0, 0, 0]) (Map.empty(1 \<mapsto> 3, 5 \<mapsto> 1))"
proof -
  have "buddy_reach 1 8 2 (run_state [8, 4, 4, 0]) Map.empty" using reach_new [of 1 8 2] unfolding run_new .
  then have "buddy_reach 1 8 2 (run_state [4, 0, 4, 0]) (Map.empty(1 \<mapsto> 3))"
    by (rule reach_alloc [OF _ _ run_steps(1)]) simp_all
  then show ?thesis by (rule reach_alloc [OF _ _ run_steps(2)]) simp_all
qed

theorem buddy_blocks_safe_witness: "{1..<1 + 3} \<inter> {5..<5 + 1} = ({} :: nat set) \<and> {5..<5 + 1} \<subseteq> {1..<1 + (8 :: nat)}"
proof -
  note safe = buddy_blocks_safe [OF run_reach run_ok zero_less_one]
  have "{5..<5 + 1} \<subseteq> {1..<1 + (8 :: nat)}" using safe [THEN conjunct1, rule_format, of 5 1] by simp
  moreover have "{1..<1 + 3} \<inter> {5..<5 + 1} = ({} :: nat set)"
    using safe [THEN conjunct2, rule_format, of 1 3 5 1] by simp
  ultimately show ?thesis by blast
qed



theorem rounded_up_terminates_iff_witness: "3 \<le> (4 :: nat) \<and> (\<exists>k. (4 :: nat) = 2 ^ k) \<and> rounded_up 3 = Some 4"
  using rounded_up_terminates_iff [of 3 4] rounded_up_small(3) by simp

text \<open>
  A pool whose size is not a multiple of \<open>2\<^sup>n\<^sup>-\<^sup>1\<close> never merges completely: the sizes of \<open>init_pool\<close> round down
  level by level, those of \<open>update_pool\<close> double level by level.
\<close>

lemma odd_pool_shrinks:
  "Option.bind (allocate (buddy_new 1 6 3) 1) (\<lambda>(s, a). map_option (\<lambda>s'. (hd (pool (buddy_new 1 6 3)), hd (pool s'))) (deallocate s a 1))
     = Some (6, 3)"
proof -
  have "buddy_new 1 6 3 =
    \<lparr>pool_addr = 1, pool_size = 6, num_order = 3, min_block_size = 0, pool = [6, 3, 3, 1, 1, 1, 1, 0]\<rparr>" by code_simp
  then show ?thesis by (simp add: buddy_eval)
qed

end
