(* ===== verification/ObjBuddy.thy ===== *)
theory ObjBuddy
  imports ObjBuilder BuddySpec
begin

text \<open>
  \<open>cpp/examples/buddy_memory_allocator_base_object_builder.cc\<close>: the same allocator with all its state in the bytes
  of an object-builder buffer, so that it can be placed in shared memory. The sizes and levels are computed by
  the same four helper functions. Every byte-level operation simulates the one on the vector.
\<close>

section \<open>Layout\<close>

text \<open>The members of the class on the 64-bit ABI, and \<open>sizeof\<close>; the alignment is 8.\<close>

abbreviation (input) off_mutex :: int where "off_mutex \<equiv> 0"
abbreviation (input) off_pool_addr :: int where "off_pool_addr \<equiv> 8"
abbreviation (input) off_pool_size :: int where "off_pool_size \<equiv> 16"
abbreviation (input) off_num_order :: int where "off_num_order \<equiv> 24"
abbreviation (input) off_min_block :: int where "off_min_block \<equiv> 32"
abbreviation (input) off_pool :: int where "off_pool \<equiv> 40"
abbreviation (input) sizeof_allocator :: nat where "sizeof_allocator \<equiv> 48"

text \<open>The members that the constructor initialises, in order; \<open>pool_\<close> stays as it is.\<close>

definition ob_construct :: "buffer \<Rightarrow> int \<Rightarrow> nat \<Rightarrow> nat \<Rightarrow> nat \<Rightarrow> buffer option" where
  "ob_construct buf obj addr psize order =
     do {
       buf \<leftarrow> st 1 buf (obj + off_mutex) 0;
       buf \<leftarrow> st 8 buf (obj + off_pool_addr) addr;
       buf \<leftarrow> st 8 buf (obj + off_pool_size) psize;
       buf \<leftarrow> st 4 buf (obj + off_num_order) order;
       st 8 buf (obj + off_min_block) 0
     }"

section \<open>Operations\<close>

definition pool_get :: "buffer \<Rightarrow> int \<Rightarrow> nat \<Rightarrow> nat option" where
  "pool_get buf pl i = ld 8 buf (pl + 8 * int i)"

definition pool_set :: "buffer \<Rightarrow> int \<Rightarrow> nat \<Rightarrow> nat \<Rightarrow> buffer option" where
  "pool_set buf pl i v = st 8 buf (pl + 8 * int i) v"

text \<open>\<open>while (order_block_count--) *pool++ = order_block_size\<close>, then the same for each order.\<close>

fun fill_order :: "nat \<Rightarrow> nat \<Rightarrow> buffer \<Rightarrow> int \<Rightarrow> nat \<Rightarrow> (buffer \<times> nat) option" where
  "fill_order 0 v buf pl i = Some (buf, i)"
| "fill_order (Suc n) v buf pl i = Option.bind (pool_set buf pl i v) (\<lambda>buf. fill_order n v buf pl (Suc i))"

fun fill_orders :: "nat \<Rightarrow> nat \<Rightarrow> nat \<Rightarrow> buffer \<Rightarrow> int \<Rightarrow> nat \<Rightarrow> (buffer \<times> nat) option" where
  "fill_orders 0 order bsize buf pl i = Some (buf, bsize)"
| "fill_orders (Suc k) order bsize buf pl i =
     Option.bind (fill_order (2 ^ order) bsize buf pl i) (\<lambda>(buf, i). fill_orders k (Suc order) (bsize div 2) buf pl i)"

definition ob_init_pool :: "buffer \<Rightarrow> int \<Rightarrow> buffer option" where
  "ob_init_pool buf obj =
     do {
       pl \<leftarrow> ptr_address buf (obj + off_pool);
       psize \<leftarrow> ld 8 buf (obj + off_pool_size);
       order \<leftarrow> ld 4 buf (obj + off_num_order);
       (buf, bsize) \<leftarrow> fill_orders order 0 psize buf pl 0;
       st 8 buf (obj + off_min_block) (bsize * 2)
     }"

definition ob_create :: "buffer \<Rightarrow> nat \<Rightarrow> nat \<Rightarrow> nat \<Rightarrow> (int \<times> buffer) option" where
  "ob_create buf addr psize order =
     do {
       (obj, buf) \<leftarrow> builder_allocate sizeof_allocator 8 1 buf;
       buf \<leftarrow> ob_construct buf obj addr psize order;
       (pool_offset, buf) \<leftarrow> builder_allocate 8 8 (2 ^ order) buf;
       buf \<leftarrow> update_object_pointer_member buf obj off_pool pool_offset;
       buf \<leftarrow> ob_init_pool buf obj;
       Some (obj, buf)
     }"

function ob_update_loop :: "buffer \<Rightarrow> int \<Rightarrow> nat \<Rightarrow> nat \<Rightarrow> buffer option" where
  "ob_update_loop buf pl block_idx block_size =
     (if block_idx \<noteq> 0 then
        (let parent_idx = (block_idx - 1) div 2; parent_block_size = block_size * 2
         in Option.bind (pool_get buf pl (parent_idx * 2 + 1)) (\<lambda>l.
            Option.bind (pool_get buf pl (parent_idx * 2 + 2)) (\<lambda>r.
            Option.bind (pool_set buf pl parent_idx (if l + r = parent_block_size then parent_block_size else max l r)) (\<lambda>buf.
            ob_update_loop buf pl parent_idx parent_block_size))))
      else Some buf)"
  by auto
termination by (relation "measure (\<lambda>(ps, p, i, b). i)") auto

declare ob_update_loop.simps [simp del]

definition ob_update_pool :: "buffer \<Rightarrow> int \<Rightarrow> nat \<Rightarrow> buffer option" where
  "ob_update_pool buf obj block_idx =
     do {
       pl \<leftarrow> ptr_address buf (obj + off_pool);
       psize \<leftarrow> ld 8 buf (obj + off_pool_size);
       ob_update_loop buf pl block_idx (compute_block_size psize block_idx)
     }"

fun ob_search_block :: "buffer \<Rightarrow> int \<Rightarrow> nat \<Rightarrow> nat \<Rightarrow> nat \<Rightarrow> nat \<Rightarrow> nat \<Rightarrow> (nat \<times> nat) option" where
  "ob_search_block buf pl 0 sz addr block_size block_idx = Some (block_idx, addr)"
| "ob_search_block buf pl (Suc n) sz addr block_size block_idx =
     Option.bind (pool_get buf pl (block_idx * 2 + 1)) (\<lambda>l.
       if l \<ge> sz then ob_search_block buf pl n sz addr (block_size div 2) (block_idx * 2 + 1)
       else Option.bind (pool_get buf pl (block_idx * 2 + 2)) (\<lambda>r.
         if r \<ge> sz then ob_search_block buf pl n sz (addr + block_size div 2) (block_size div 2) (block_idx * 2 + 2) else None))"

text \<open>\<open>lock_guard\<close> on the \<open>SpinLock\<close> in the object: taking a lock that is held spins forever.\<close>

definition ob_lock :: "buffer \<Rightarrow> int \<Rightarrow> buffer option" where
  "ob_lock buf obj = Option.bind (ld 1 buf (obj + off_mutex)) (\<lambda>l. if l = 0 then st 1 buf (obj + off_mutex) 1 else None)"

definition ob_unlock :: "buffer \<Rightarrow> int \<Rightarrow> buffer option" where
  "ob_unlock buf obj = st 1 buf (obj + off_mutex) 0"

definition ob_allocate :: "buffer \<Rightarrow> int \<Rightarrow> nat \<Rightarrow> (buffer \<times> nat) option" where
  "ob_allocate buf obj sz =
     do {
       mn \<leftarrow> ld 8 buf (obj + off_min_block);
       bs \<leftarrow> rounded_up_to_min_block_size sz mn;
       psize \<leftarrow> ld 8 buf (obj + off_pool_size);
       let level = compute_level psize bs;
       pl \<leftarrow> ptr_address buf (obj + off_pool);
       buf \<leftarrow> ob_lock buf obj;
       top \<leftarrow> pool_get buf pl 0;
       if top < bs then do { buf \<leftarrow> ob_unlock buf obj; Some (buf, 0) }
       else do {
         addr \<leftarrow> ld 8 buf (obj + off_pool_addr);
         (idx, a) \<leftarrow> ob_search_block buf pl level bs addr psize 0;
         if a = 0 then None
         else do {
           buf \<leftarrow> pool_set buf pl idx 0;
           buf \<leftarrow> ob_update_pool buf obj idx;
           buf \<leftarrow> ob_unlock buf obj;
           Some (buf, a)
         }
       }
     }"

definition ob_deallocate :: "buffer \<Rightarrow> int \<Rightarrow> nat \<Rightarrow> nat \<Rightarrow> buffer option" where
  "ob_deallocate buf obj a sz =
     do {
       mn \<leftarrow> ld 8 buf (obj + off_min_block);
       bs \<leftarrow> rounded_up_to_min_block_size sz mn;
       psize \<leftarrow> ld 8 buf (obj + off_pool_size);
       let level = compute_level psize bs;
       addr \<leftarrow> ld 8 buf (obj + off_pool_addr);
       buf \<leftarrow> ob_lock buf obj;
       let (idx, bsize) = dealloc_walk level (a - addr) 0 psize 0;
       pl \<leftarrow> ptr_address buf (obj + off_pool);
       buf \<leftarrow> pool_set buf pl idx bsize;
       buf \<leftarrow> ob_update_pool buf obj idx;
       ob_unlock buf obj
     }"

section \<open>Simulation\<close>

definition pool_view :: "buffer \<Rightarrow> int \<Rightarrow> nat list \<Rightarrow> bool" where
  "pool_view buf pl ps \<longleftrightarrow> (\<forall>i<length ps. pool_get buf pl i = Some (ps ! i))"

definition ob_head :: "buffer \<Rightarrow> int \<Rightarrow> int \<Rightarrow> nat \<Rightarrow> buddy \<Rightarrow> bool" where
  "ob_head buf obj pl l s \<longleftrightarrow> ld 1 buf obj = Some l \<and> ld 8 buf (obj + 8) = Some (pool_addr s) \<and>
     ld 8 buf (obj + 16) = Some (pool_size s) \<and> ld 4 buf (obj + 24) = Some (num_order s) \<and>
     ld 8 buf (obj + 32) = Some (min_block_size s) \<and> ptr_address buf (obj + 40) = Some pl \<and> obj + 48 \<le> pl"

definition ob_rep :: "buffer \<Rightarrow> int \<Rightarrow> buddy \<Rightarrow> bool" where
  "ob_rep buf obj s \<longleftrightarrow> (\<exists>p. ob_head buf obj p 0 s \<and> pool_view buf p (pool s))"

lemma pool_view_get: "pool_view buf p ps \<Longrightarrow> vget ps i = Some v \<Longrightarrow> pool_get buf p i = Some v"
  by (auto simp: pool_view_def)

lemma pool_get_same: "same_outside buf buf' lo hi \<Longrightarrow> p + 8 * int i + 8 \<le> lo \<or> hi \<le> p + 8 * int i \<Longrightarrow>
    pool_get buf' p i = pool_get buf p i"
  unfolding pool_get_def by (rule ld_same_outside) auto

lemma pool_set_view:
  assumes "pool_view buf p ps" "vset ps i v = Some ps'" "v < 2 ^ 64"
  shows "\<exists>buf'. pool_set buf p i v = Some buf' \<and> pool_view buf' p ps' \<and> same_outside buf buf' p (p + 8 * int (length ps'))"
proof -
  have i: "i < length ps" "ps' = ps[i := v]" using assms(2) by auto
  have "pool_get buf p i = Some (ps ! i)" using assms(1) i(1) by (simp add: pool_view_def)
  then obtain buf' where b: "st 8 buf (p + 8 * int i) v = Some buf'" "ld 8 buf' (p + 8 * int i) = Some v"
    "same_outside buf buf' (p + 8 * int i) (p + 8 * int i + 8)"
    using st_over [of 8 buf "p + 8 * int i" "ps ! i" v] assms(3) by (auto simp: pool_get_def)
  have "pool_get buf' p j = Some (ps' ! j)" if "j < length ps'" for j
  proof (cases "j = i")
    case False
    then have "pool_get buf' p j = pool_get buf p j" using b(3) by (intro pool_get_same) auto
    then show ?thesis using False assms(1) that i by (simp add: pool_view_def)
  qed (use b(2) i in \<open>simp add: pool_get_def\<close>)
  moreover have "same_outside buf buf' p (p + 8 * int (length ps'))"
    using b(3) i by (elim same_outside_mono) auto
  ultimately show ?thesis using b(1) by (simp add: pool_set_def pool_view_def)
qed

lemma ob_head_same:
  assumes "ob_head buf obj p l s" "same_outside buf buf' p hi"
  shows "ob_head buf' obj p l s"
proof -
  have "obj + 48 \<le> p" using assms(1) by (simp add: ob_head_def)
  then have "ld n buf' (obj + k) = ld n buf (obj + k)" if "k + int n \<le> 48" for n k
    using that by (intro ld_same_outside [OF assms(2)]) simp
  from this [of 0 1] this [of 8 8] this [of 16 8] this [of 24 4] this [of 32 8] this [of 40 4]
  show ?thesis using assms(1) by (simp add: ob_head_def ptr_address_def)
qed

lemma pool_view_same:
  "pool_view buf p ps \<Longrightarrow> same_outside buf buf' lo hi \<Longrightarrow> hi \<le> p \<Longrightarrow> pool_view buf' p ps"
  unfolding pool_view_def using pool_get_same by auto

lemma pool_view_less: "pool_view buf p ps \<Longrightarrow> i < length ps \<Longrightarrow> ps ! i < 2 ^ 64"
  unfolding pool_view_def pool_get_def using ld_less by fastforce

text \<open>Everything in front of position \<open>obj\<close> stays as it is.\<close>

definition keeps_front :: "buffer \<Rightarrow> buffer \<Rightarrow> int \<Rightarrow> bool" where
  "keeps_front buf buf' obj \<longleftrightarrow> same_outside buf buf' obj (int (length buf))"

lemma keeps_frontI: "same_outside buf buf' lo hi \<Longrightarrow> obj \<le> lo \<Longrightarrow> keeps_front buf buf' obj"
  unfolding keeps_front_def same_outside_def by auto

lemma keeps_front_trans: "keeps_front a b obj \<Longrightarrow> keeps_front b c obj \<Longrightarrow> keeps_front a c obj"
  unfolding keeps_front_def same_outside_def by auto

lemma keeps_front_ld: "keeps_front buf buf' obj \<Longrightarrow> a + int n \<le> obj \<Longrightarrow> ld n buf' a = ld n buf a"
  unfolding keeps_front_def using ld_same_outside by blast

lemma ob_rep_after:
  assumes "ob_rep buf obj s" "same_outside buf buf' lo hi" "hi \<le> obj"
  shows "ob_rep buf' obj s"
proof -
  obtain p where p: "ob_head buf obj p 0 s" "pool_view buf p (pool s)" using assms(1) unfolding ob_rep_def by blast
  have "ld n buf' (obj + k) = ld n buf (obj + k)" if "0 \<le> k" for n k
    using that assms(3) by (intro ld_same_outside [OF assms(2)]) simp
  from this [of 0 1] this [of 8 8] this [of 16 8] this [of 24 4] this [of 32 8] this [of 40 4]
  have "ob_head buf' obj p 0 s" using p(1) by (simp add: ob_head_def ptr_address_def)
  moreover have "pool_view buf' p (pool s)"
    using pool_view_same [OF p(2) assms(2)] p(1) assms(3) by (simp add: ob_head_def)
  ultimately show ?thesis unfolding ob_rep_def by blast
qed

lemma update_loop_sim:
  "pool_view buf p ps \<Longrightarrow> update_loop ps idx b = Some ps' \<Longrightarrow> b * 2 ^ lev idx < 2 ^ 64 \<Longrightarrow>
     \<exists>buf'. ob_update_loop buf p idx b = Some buf' \<and> pool_view buf' p ps' \<and> length ps' = length ps \<and>
       same_outside buf buf' p (p + 8 * int (length ps))"
proof (induction ps idx b arbitrary: buf ps' rule: update_loop.induct)
  case (1 ps idx b)
  show ?case
  proof (cases "idx = 0")
    case True
    then show ?thesis using "1.prems" by (simp add: update_loop.simps ob_update_loop.simps)
  next
    case False
    define j where "j = (idx - 1) div 2"
    have lj: "lev idx = Suc (lev j)" using False by (subst lev.simps) (simp add: j_def)
    let ?l = "ps ! (j * 2 + 1)" and ?r = "ps ! (j * 2 + 2)"
    let ?v = "if ?l + ?r = b * 2 then b * 2 else max ?l ?r"
    have in_range: "j * 2 + 1 < length ps" "j * 2 + 2 < length ps" "j < length ps"
      and rest: "update_loop (ps[j := ?v]) j (b * 2) = Some ps'"
      using "1.prems"(2) False
      by (subst (asm) update_loop.simps, force simp: Let_def j_def bind_eq_Some_conv simp del: One_nat_def)+
    have "b * 2 * 2 ^ lev j < 2 ^ 64" using "1.prems"(3) lj by (simp add: mult.assoc)
    moreover have "b * 2 \<le> b * 2 * 2 ^ lev j" by simp
    ultimately have b: "b * 2 * 2 ^ lev j < 2 ^ 64" "b * 2 < 2 ^ 64" by linarith+
    have "?v < 2 ^ 64" using b(2) pool_view_less [OF "1.prems"(1)] in_range by simp
    then obtain buf1 where s1: "pool_set buf p j ?v = Some buf1" "pool_view buf1 p (ps[j := ?v])"
      "same_outside buf buf1 p (p + 8 * int (length ps))"
      using pool_set_view [OF "1.prems"(1), of j ?v] in_range(3) by auto
    obtain buf2 where s2: "ob_update_loop buf1 p j (b * 2) = Some buf2" "pool_view buf2 p ps'" "length ps' = length ps"
      "same_outside buf1 buf2 p (p + 8 * int (length ps))"
      using "1.IH" [OF False j_def refl, of ?l ?r "ps[j := ?v]" buf1 ps'] s1(2) rest b(1) in_range by auto
    have "pool_get buf p (j * 2 + 1) = Some ?l" "pool_get buf p (j * 2 + 2) = Some ?r"
      using "1.prems"(1) in_range unfolding pool_view_def by blast+
    then have "ob_update_loop buf p idx b = Some buf2"
      using False s1(1) s2(1)
      by (subst ob_update_loop.simps) (simp only: Let_def j_def [symmetric] Option.bind.simps if_True simp_thms)
    then show ?thesis using s2 same_outside_trans [OF s1(3) s2(4)] by blast
  qed
qed

lemma search_block_sim:
  "pool_view buf p ps \<Longrightarrow> search_block ps n sz a b i = Some r \<Longrightarrow> ob_search_block buf p n sz a b i = Some r"
proof (induction n arbitrary: a b i)
  case (Suc n)
  obtain l where l: "vget ps (i * 2 + 1) = Some l"
    using Suc.prems(2) by (auto simp: bind_eq_Some_conv simp del: vget_eq_Some)
  have pl: "pool_get buf p (i * 2 + 1) = Some l" by (rule pool_view_get [OF Suc.prems(1) l])
  show ?case
  proof (cases "sz \<le> l")
    case True
    then show ?thesis using Suc l pl by (simp del: vget_eq_Some)
  next
    case False
    then obtain r' where r: "vget ps (i * 2 + 2) = Some r'"
      using Suc.prems(2) l by (auto simp: bind_eq_Some_conv simp del: vget_eq_Some)
    have "pool_get buf p (i * 2 + 2) = Some r'" by (rule pool_view_get [OF Suc.prems(1) r])
    then show ?thesis using Suc l pl r False by (simp del: vget_eq_Some split: if_splits)
  qed
qed simp

lemma ob_lock_ok:
  assumes "ob_head buf obj p l s" "l' < 256"
  shows "\<exists>buf'. st 1 buf obj l' = Some buf' \<and> ob_head buf' obj p l' s \<and> same_outside buf buf' obj (obj + 1)"
proof -
  obtain buf' where b: "st 1 buf obj l' = Some buf'" "ld 1 buf' obj = Some l'" "same_outside buf buf' obj (obj + 1)"
    using st_over [of 1 buf obj l l'] assms unfolding ob_head_def by auto
  have "ld n buf' (obj + k) = ld n buf (obj + k)" if "1 \<le> k" for n k
    using that by (intro ld_same_outside [OF b(3)]) simp
  from this [of 8 8] this [of 16 8] this [of 24 4] this [of 32 8] this [of 40 4]
  show ?thesis using assms(1) b by (simp add: ob_head_def ptr_address_def)
qed

lemma block_size_bound: "compute_block_size p i * 2 ^ lev i \<le> p"
  by (simp add: compute_block_size_eq bsz_def)

lemma ob_mark:
  assumes "ob_head buf obj p 1 s" "pool_view buf p (pool s)" "v < 2 ^ 64"
    "Option.bind (vset (pool s) idx v) (\<lambda>ps. update_pool (s\<lparr>pool := ps\<rparr>) idx) = Some s'"
  shows "\<exists>buf1 buf2 buf'. pool_set buf p idx v = Some buf1 \<and> ob_update_pool buf1 obj idx = Some buf2 \<and>
    ob_unlock buf2 obj = Some buf' \<and> ob_rep buf' obj s' \<and> keeps_front buf buf' obj"
proof -
  obtain ps ps' where ps: "vset (pool s) idx v = Some ps"
    "update_loop ps idx (compute_block_size (pool_size s) idx) = Some ps'" "s' = s\<lparr>pool := ps'\<rparr>"
    using assms(4) by (auto simp: bind_eq_Some_conv update_pool_def)
  obtain buf1 where b1: "pool_set buf p idx v = Some buf1" "pool_view buf1 p ps"
    "same_outside buf buf1 p (p + 8 * int (length ps))" using pool_set_view [OF assms(2) ps(1) assms(3)] by blast
  have h1: "ob_head buf1 obj p 1 s" by (rule ob_head_same [OF assms(1) b1(3)])
  then have ad: "ptr_address buf1 (obj + 40) = Some p" "ld 8 buf1 (obj + 16) = Some (pool_size s)" "obj + 48 \<le> p"
    unfolding ob_head_def by blast+
  have "pool_size s < 2 ^ 64" using ld_less [OF ad(2)] by simp
  then have bd: "compute_block_size (pool_size s) idx * 2 ^ lev idx < 2 ^ 64"
    using block_size_bound [of "pool_size s" idx] by linarith
  obtain buf2 where b2: "ob_update_loop buf1 p idx (compute_block_size (pool_size s) idx) = Some buf2"
    "pool_view buf2 p ps'" "same_outside buf1 buf2 p (p + 8 * int (length ps))"
    using update_loop_sim [OF b1(2) ps(2) bd] by blast
  have "ob_head buf2 obj p 1 s'" using ob_head_same [OF h1 b2(3)] ps(3) by (simp add: ob_head_def)
  then obtain buf' where b3: "st 1 buf2 obj 0 = Some buf'" "ob_head buf' obj p 0 s'" "same_outside buf2 buf' obj (obj + 1)"
    using ob_lock_ok [of buf2 obj p 1 s' 0] by auto
  have "pool_view buf' p ps'" using pool_view_same [OF b2(2) b3(3)] ad(3) by simp
  then have "ob_rep buf' obj s'" using b3(2) ps(3) unfolding ob_rep_def by auto
  moreover have "keeps_front buf buf1 obj" "keeps_front buf1 buf2 obj" "keeps_front buf2 buf' obj"
    using keeps_frontI [OF b1(3)] keeps_frontI [OF b2(3)] keeps_frontI [OF b3(3)] ad(3) by simp_all
  then have "keeps_front buf buf' obj" using keeps_front_trans by blast
  moreover have "ob_update_pool buf1 obj idx = Some buf2" using ad b2(1) by (simp add: ob_update_pool_def)
  ultimately show ?thesis using b1(1) b3(1) by (simp add: ob_unlock_def)
qed

lemma ob_locked:
  assumes "ob_rep buf obj s"
  shows "\<exists>p buf1. ob_head buf obj p 0 s \<and> ob_lock buf obj = Some buf1 \<and> ob_head buf1 obj p 1 s \<and>
    pool_view buf1 p (pool s) \<and> keeps_front buf buf1 obj"
proof -
  obtain p where p: "ob_head buf obj p 0 s" "pool_view buf p (pool s)" using assms unfolding ob_rep_def by blast
  obtain buf1 where b: "st 1 buf obj 1 = Some buf1" "ob_head buf1 obj p 1 s" "same_outside buf buf1 obj (obj + 1)"
    using ob_lock_ok [OF p(1), of 1] by auto
  have "pool_view buf1 p (pool s)" using pool_view_same [OF p(2) b(3)] p(1) by (simp add: ob_head_def)
  moreover have "ob_lock buf obj = Some buf1" using p(1) b(1) by (simp add: ob_lock_def ob_head_def)
  ultimately show ?thesis using p(1) b(2) keeps_frontI [OF b(3)] by blast
qed

lemma ob_allocate_sim:
  assumes "ob_rep buf obj s" "allocate s sz = Some (s', a)"
  shows "\<exists>buf'. ob_allocate buf obj sz = Some (buf', a) \<and> ob_rep buf' obj s' \<and> keeps_front buf buf' obj"
proof -
  obtain p buf1 where h: "ob_head buf obj p 0 s" "ob_lock buf obj = Some buf1" "ob_head buf1 obj p 1 s"
    "pool_view buf1 p (pool s)" "keeps_front buf buf1 obj" using ob_locked [OF assms(1)] by blast
  note hd0 = h(1) [unfolded ob_head_def] and hd1 = h(3) [unfolded ob_head_def]
  obtain bs top where t: "rounded_up_to_min_block_size sz (min_block_size s) = Some bs" "vget (pool s) 0 = Some top"
    using assms(2) by (auto simp: allocate_def bind_eq_Some_conv Let_def)
  have top: "pool_get buf1 p 0 = Some top" by (rule pool_view_get [OF h(4) t(2)])
  show ?thesis
  proof (cases "top < bs")
    case True
    then have eq: "s' = s" "a = 0" using assms(2) t by (simp_all add: allocate_def Let_def)
    obtain buf' where b: "st 1 buf1 obj 0 = Some buf'" "ob_head buf' obj p 0 s" "same_outside buf1 buf' obj (obj + 1)"
      using ob_lock_ok [OF h(3), of 0] by auto
    have "pool_view buf' p (pool s)" using pool_view_same [OF h(4) b(3)] hd0 by simp
    then have "ob_rep buf' obj s" using b(2) unfolding ob_rep_def by blast
    moreover have "keeps_front buf buf' obj" using keeps_front_trans [OF h(5) keeps_frontI [OF b(3)]] by simp
    ultimately show ?thesis using hd0 t(1) h(2) top True b(1) eq by (simp add: ob_allocate_def Let_def ob_unlock_def)
  next
    case False
    let ?l = "compute_level (pool_size s) bs"
    obtain idx where i: "search_block (pool s) ?l bs (pool_addr s) (pool_size s) 0 = Some (idx, a)" "a \<noteq> 0"
      "Option.bind (vset (pool s) idx 0) (\<lambda>ps. update_pool (s\<lparr>pool := ps\<rparr>) idx) = Some s'"
      using assms(2) t False by (auto simp: allocate_def Let_def bind_eq_Some_conv split: if_splits)
    obtain b1 b2 buf' where b: "pool_set buf1 p idx 0 = Some b1" "ob_update_pool b1 obj idx = Some b2"
      "ob_unlock b2 obj = Some buf'" "ob_rep buf' obj s'" "keeps_front buf1 buf' obj"
      using ob_mark [OF h(3,4) _ i(3)] by auto
    note kf = keeps_front_trans [OF h(5) b(5)]
    have "ob_search_block buf1 p ?l bs (pool_addr s) (pool_size s) 0 = Some (idx, a)"
      by (rule search_block_sim [OF h(4) i(1)])
    then show ?thesis using hd0 hd1 t(1) h(2) top False i(2) b kf by (simp add: ob_allocate_def Let_def)
  qed
qed

lemma dealloc_walk_size: "snd (dealloc_walk l off i b c) \<le> b"
proof (induction l arbitrary: i b c)
  case (Suc l)
  have "snd (dealloc_walk l off j (b div 2) d) \<le> b" for j d using Suc [of j "b div 2" d] by linarith
  then show ?case by simp
qed simp

lemma ob_deallocate_sim:
  assumes "ob_rep buf obj s" "deallocate s a sz = Some s'"
  shows "\<exists>buf'. ob_deallocate buf obj a sz = Some buf' \<and> ob_rep buf' obj s' \<and> keeps_front buf buf' obj"
proof -
  obtain p buf1 where h: "ob_head buf obj p 0 s" "ob_lock buf obj = Some buf1" "ob_head buf1 obj p 1 s"
    "pool_view buf1 p (pool s)" "keeps_front buf buf1 obj" using ob_locked [OF assms(1)] by blast
  note hd0 = h(1) [unfolded ob_head_def] and hd1 = h(3) [unfolded ob_head_def]
  obtain bs where t: "rounded_up_to_min_block_size sz (min_block_size s) = Some bs"
    using assms(2) by (auto simp: deallocate_def bind_eq_Some_conv)
  obtain idx v where w: "dealloc_walk (compute_level (pool_size s) bs) (a - pool_addr s) 0 (pool_size s) 0 = (idx, v)"
    by (cases "dealloc_walk (compute_level (pool_size s) bs) (a - pool_addr s) 0 (pool_size s) 0")
  have i: "Option.bind (vset (pool s) idx v) (\<lambda>ps. update_pool (s\<lparr>pool := ps\<rparr>) idx) = Some s'"
    using assms(2) t w by (simp add: deallocate_def Let_def)
  have "v \<le> pool_size s" using dealloc_walk_size [of _ _ 0 "pool_size s" 0] w by (metis snd_conv)
  moreover have "pool_size s < 2 ^ 64" using ld_less [of 8 buf "obj + 16" "pool_size s"] hd0 by simp
  ultimately have "v < 2 ^ 64" by linarith
  then obtain b1 b2 buf' where b: "pool_set buf1 p idx v = Some b1" "ob_update_pool b1 obj idx = Some b2"
    "ob_unlock b2 obj = Some buf'" "ob_rep buf' obj s'" "keeps_front buf1 buf' obj" using ob_mark [OF h(3,4) _ i] by blast
  then show ?thesis using hd0 hd1 t h(2) w keeps_front_trans [OF h(5)] by (simp add: ob_deallocate_def Let_def)
qed

end
