(* ===== verification/ObjBuddySpec.thy ===== *)
theory ObjBuddySpec
  imports ObjBuddy
begin

text \<open>
  Creation of the allocator in a builder buffer, relocation of the finished buffer, and the refinement of the
  allocator on a vector by the allocator in the buffer.
\<close>

section \<open>Creation\<close>

lemma fill_order_ok:
  "pool_view buf p ps \<Longrightarrow> i + k \<le> length ps \<Longrightarrow> v < 2 ^ 64 \<Longrightarrow>
     \<exists>buf'. fill_order k v buf p i = Some (buf', i + k) \<and> pool_view buf' p (take i ps @ replicate k v @ drop (i + k) ps) \<and>
       same_outside buf buf' p (p + 8 * int (length ps))"
proof (induction k arbitrary: buf ps i)
  case (Suc k)
  have i: "i < length ps" "Suc i + k \<le> length ps" using Suc.prems(2) by simp_all
  obtain b1 where b1: "pool_set buf p i v = Some b1" "pool_view b1 p (ps[i := v])"
    "same_outside buf b1 p (p + 8 * int (length ps))"
    using pool_set_view [OF Suc.prems(1), of i v] i(1) Suc.prems(3) by auto
  have "take (Suc i) (ps[i := v]) = take i ps @ [v]" using take_Suc_update i(1) .
  moreover have "drop (Suc i + k) (ps[i := v]) = drop (i + Suc k) ps" by simp
  ultimately have eq: "take (Suc i) (ps[i := v]) @ replicate k v @ drop (Suc i + k) (ps[i := v]) =
      take i ps @ replicate (Suc k) v @ drop (i + Suc k) ps" by simp
  obtain b2 where b2: "fill_order k v b1 p (Suc i) = Some (b2, Suc i + k)"
    "pool_view b2 p (take i ps @ replicate (Suc k) v @ drop (i + Suc k) ps)"
    "same_outside b1 b2 p (p + 8 * int (length ps))"
    using Suc.IH [OF b1(2), of "Suc i"] i(2) Suc.prems(3) unfolding eq by auto
  then show ?case using b1 same_outside_trans by fastforce
qed simp

lemma fill_orders_ok:
  "pool_view buf p ps \<Longrightarrow> init_orders k o' b = (xs, b') \<Longrightarrow> i + length xs \<le> length ps \<Longrightarrow> b < 2 ^ 64 \<Longrightarrow>
     \<exists>buf'. fill_orders k o' b buf p i = Some (buf', b') \<and> pool_view buf' p (take i ps @ xs @ drop (i + length xs) ps) \<and>
       same_outside buf buf' p (p + 8 * int (length ps))"
proof (induction k arbitrary: buf ps i o' b xs b')
  case (Suc k)
  obtain ys where ys: "init_orders k (Suc o') (b div 2) = (ys, b')" "xs = replicate (2 ^ o') b @ ys"
    using Suc.prems(2) by (auto split: prod.splits)
  let ?m = "2 ^ o' :: nat" and ?ps = "take i ps @ replicate (2 ^ o') b @ drop (i + 2 ^ o') ps"
  have le: "i + ?m \<le> length ps" "i + ?m + length ys \<le> length ?ps" using Suc.prems(3) ys(2) by simp_all
  obtain b1 where b1: "fill_order ?m b buf p i = Some (b1, i + ?m)" "pool_view b1 p ?ps"
    "same_outside buf b1 p (p + 8 * int (length ps))" using fill_order_ok [OF Suc.prems(1) le(1) Suc.prems(4)] by blast
  have "take (i + ?m) ?ps = take i ps @ replicate ?m b" "drop (i + ?m + length ys) ?ps = drop (i + length xs) ps"
    using le(1) ys(2) by (simp_all add: ac_simps)
  then have eq: "take (i + ?m) ?ps @ ys @ drop (i + ?m + length ys) ?ps = take i ps @ xs @ drop (i + length xs) ps"
    using ys(2) by (simp only: append_assoc)
  have len: "length ?ps = length ps" using le(1) by simp
  have "b div 2 < 2 ^ 64" using Suc.prems(4) by simp
  from Suc.IH [OF b1(2) ys(1) le(2) this] obtain b2 where
    b2: "fill_orders k (Suc o') (b div 2) b1 p (i + ?m) = Some (b2, b')"
      "pool_view b2 p (take i ps @ xs @ drop (i + length xs) ps)" "same_outside b1 b2 p (p + 8 * int (length ps))"
    unfolding eq len by blast
  have "fill_orders (Suc k) o' b buf p i = Some (b2, b')" using b1(1) b2(1) by simp
  then show ?case using b2(2) same_outside_trans [OF b1(3) b2(3)] by blast
qed simp

lemma builder_allocate_ok:
  assumes "length buf + 8 + sz * num < 2 ^ 31"
  shows "\<exists>off. builder_allocate sz 8 num buf = Some (int off, buf @ replicate (off + sz * num - length buf) 0) \<and>
    length buf \<le> off \<and> off < length buf + 8 \<and> 8 dvd off"
proof -
  define off where "off = (length buf + 7) div 8 * 8"
  have off: "length buf \<le> off" "off < length buf + 8" unfolding off_def by presburger+
  then have lt: "off < 2 ^ 31" using assms by linarith
  have "compute_aligned_size (length buf) 8 = off" unfolding off_def using assms by (intro compute_aligned_size_8) simp
  then have "sext32 (compute_aligned_size (length buf) 8 mod 2 ^ 32) = int off"
    using lt by (simp add: sext32_def signed_take_bit_int_eq_self)
  moreover have "nat (int off + int (sz * num)) = off + sz * num" "\<not> int off + int (sz * num) < 0" by linarith+
  ultimately have "builder_allocate sz 8 num buf = Some (int off, take (off + sz * num) buf @ replicate (off + sz * num - length buf) 0)"
    unfolding builder_allocate_def Let_def by (simp only: if_False)
  moreover have "take (off + sz * num) buf = buf" "8 dvd off" using off unfolding off_def by simp_all
  ultimately show ?thesis using off by auto
qed

lemma ob_construct_ok:
  assumes "0 \<le> obj" "nat obj + 48 \<le> length buf" "addr < 2 ^ 64" "psize < 2 ^ 64" "order < 2 ^ 32"
  shows "\<exists>buf'. ob_construct buf obj addr psize order = Some buf' \<and> length buf' = length buf \<and>
    ld 1 buf' obj = Some 0 \<and> ld 8 buf' (obj + 8) = Some addr \<and> ld 8 buf' (obj + 16) = Some psize \<and>
    ld 4 buf' (obj + 24) = Some order \<and> ld 8 buf' (obj + 32) = Some 0"
proof -
  have go: "\<exists>b'. st n b (obj + k) v = Some b' \<and> ld n b' (obj + k) = Some v \<and>
      same_outside b b' (obj + k) (obj + e) \<and> length b' = length buf"
    if "e = k + int n" "length b = length buf" "0 \<le> k" "k + int n \<le> 48" "v < 256 ^ n" for b k n v e
  proof -
    have "0 \<le> obj + k" "nat (obj + k) + n \<le> length b" using that assms(1,2) by linarith+
    from st_ok [OF this, of v] show ?thesis using that(1,2,5) by (auto simp: same_outside_def add.assoc)
  qed
  obtain b1 where b1: "st 1 buf (obj + 0) 0 = Some b1" "ld 1 b1 (obj + 0) = Some 0" "length b1 = length buf"
    using go [of 1 0 1 buf 0] by auto
  obtain b2 where b2: "st 8 b1 (obj + 8) addr = Some b2" "ld 8 b2 (obj + 8) = Some addr" "length b2 = length buf"
    "same_outside b1 b2 (obj + 8) (obj + 16)" using go [of 16 8 8, OF _ b1(3), of addr] assms(3) by auto
  obtain b3 where b3: "st 8 b2 (obj + 16) psize = Some b3" "ld 8 b3 (obj + 16) = Some psize" "length b3 = length buf"
    "same_outside b2 b3 (obj + 16) (obj + 24)" using go [of 24 16 8, OF _ b2(3), of psize] assms(4) by auto
  obtain b4 where b4: "st 4 b3 (obj + 24) order = Some b4" "ld 4 b4 (obj + 24) = Some order" "length b4 = length buf"
    "same_outside b3 b4 (obj + 24) (obj + 28)" using go [of 28 24 4, OF _ b3(3), of order] assms(5) by auto
  obtain b5 where b5: "st 8 b4 (obj + 32) 0 = Some b5" "ld 8 b5 (obj + 32) = Some 0" "length b5 = length buf"
    "same_outside b4 b5 (obj + 32) (obj + 40)" using go [of 40 32 8, OF _ b4(3), of 0] by auto
  note keep = ld_same_outside [OF b2(4)] ld_same_outside [OF b3(4)] ld_same_outside [OF b4(4)] ld_same_outside [OF b5(4)]
  have "ld 1 b5 obj = Some 0" "ld 8 b5 (obj + 8) = Some addr" "ld 8 b5 (obj + 16) = Some psize" "ld 4 b5 (obj + 24) = Some order"
    using b1(2) b2(2) b3(2) b4(2) by (simp_all add: keep)
  then show ?thesis using b1(1) b2(1) b3(1) b4(1) b5 by (simp add: ob_construct_def)
qed

lemma pool_view_zero:
  assumes "0 \<le> p" "nat p + 8 * k = length buf + e" "length buf \<le> nat p"
  shows "pool_view (buf @ replicate e 0) p (replicate k 0)"
proof -
  have "take 8 (drop (nat p + 8 * i) (buf @ replicate e 0)) = replicate 8 0" if "i < k" for i
    using that assms by (intro nth_equalityI) (auto simp: nth_append)
  then have "ld 8 (buf @ replicate e 0) (p + 8 * int i) = Some 0" if "i < k" for i
  proof -
    have "nat (p + 8 * int i) = nat p + 8 * i" using assms(1) by linarith
    moreover have "nat p + 8 * i + 8 \<le> length (buf @ replicate e 0)" using that assms(2) by simp
    ultimately show ?thesis
      using \<open>\<And>i. i < k \<Longrightarrow> _\<close> [OF that] assms(1) le_nat_zero by (simp only: ld_def) simp
  qed
  then show ?thesis by (simp add: pool_view_def pool_get_def)
qed

lemma ob_init_pool_ok:
  assumes "0 < n" "ob_head buf obj p 0 (s\<lparr>pool_size := psize, num_order := n\<rparr>)" "pool_view buf p (replicate (2 ^ n) 0)"
    "psize < 2 ^ 64"
  shows "\<exists>buf'. ob_init_pool buf obj = Some buf' \<and> ob_rep buf' obj (buddy_new (pool_addr s) psize n)"
proof -
  obtain xs where xs: "init_orders n 0 psize = (xs, psize div 2 ^ n)" "length xs = 2 ^ n - 1"
    using init_orders_ex [of n psize] by blast
  let ?t = "buddy_new (pool_addr s) psize n"
  have t: "pool_addr ?t = pool_addr s" "pool_size ?t = psize" "num_order ?t = n" "min_block_size ?t = psize div 2 ^ n * 2"
    "pool ?t = xs @ replicate (2 ^ n - length xs) 0" using xs by (simp_all add: buddy_new_def)
  obtain b1 where b1: "fill_orders n 0 psize buf p 0 = Some (b1, psize div 2 ^ n)" "pool_view b1 p (pool ?t)"
    "same_outside buf b1 p (p + 8 * int (2 ^ n))"
    using fill_orders_ok [OF assms(3) xs(1), of 0] assms(4) xs(2) unfolding t by auto
  have h1: "ob_head b1 obj p 0 (s\<lparr>pool_size := psize, num_order := n\<rparr>)" by (rule ob_head_same [OF assms(2) b1(3)])
  then have old: "ld 8 b1 (obj + 32) = Some (min_block_size s)" "obj + 48 \<le> p" by (simp_all add: ob_head_def)
  have "(2 :: nat) ^ 1 \<le> 2 ^ n" using assms(1) by (intro power_increasing) simp_all
  then have "psize div 2 ^ n * 2 \<le> psize div 2 ^ n * 2 ^ n" by simp
  also have "\<dots> \<le> psize" by simp
  finally have "psize div 2 ^ n * 2 < 256 ^ 8" using assms(4) by simp
  then obtain b2 where b2: "st 8 b1 (obj + 32) (psize div 2 ^ n * 2) = Some b2"
    "ld 8 b2 (obj + 32) = Some (psize div 2 ^ n * 2)" "same_outside b1 b2 (obj + 32) (obj + 32 + int 8)"
    using st_over [OF old(1)] by blast
  have keep: "ld k b2 (obj + j) = ld k b1 (obj + j)" if "j + int k \<le> 32 \<or> 40 \<le> j" for k j
    using that by (intro ld_same_outside [OF b2(3)]) auto
  have "ob_head b2 obj p 0 ?t"
    using keep [of 0 1] keep [of 8 8] keep [of 16 8] keep [of 24 4] keep [of 40 4] h1 b2(2) old(2)
    unfolding ob_head_def t ptr_address_def by simp
  moreover have "pool_view b2 p (pool ?t)" using pool_view_same [OF b1(2) b2(3)] old(2) by simp
  ultimately have "ob_rep b2 obj ?t" unfolding ob_rep_def by blast
  moreover have "ob_init_pool buf obj = Some b2" using assms(2) b1(1) b2(1) by (simp add: ob_init_pool_def ob_head_def)
  ultimately show ?thesis by blast
qed

lemma ob_create_ok:
  assumes "length buf + 64 + 8 * 2 ^ n < 2 ^ 31" "0 < n" "addr < 2 ^ 64" "psize < 2 ^ 64"
  shows "\<exists>obj buf'. ob_create buf addr psize n = Some (obj, buf') \<and> ob_rep buf' obj (buddy_new addr psize n) \<and>
    int (length buf) \<le> obj \<and> obj < int (length buf) + 8 \<and> 8 dvd obj"
proof -
  obtain o1 where o1: "builder_allocate 48 8 1 buf = Some (int o1, buf @ replicate (o1 + 48 * 1 - length buf) 0)"
    "length buf \<le> o1" "o1 < length buf + 8" "8 dvd o1" using builder_allocate_ok [of buf 48 1] assms(1) by auto
  let ?b1 = "buf @ replicate (o1 + 48 * 1 - length buf) 0" and ?obj = "int o1"
  have len1: "length ?b1 = o1 + 48" using o1(2) by simp
  have "n < 2 ^ n" by simp
  moreover have "(2 :: nat) ^ 31 < 2 ^ 32" by simp
  ultimately have nb: "n < 2 ^ 32" using assms(1) by linarith
  obtain b2 where b2: "ob_construct ?b1 ?obj addr psize n = Some b2" "length b2 = o1 + 48"
    "ld 1 b2 ?obj = Some 0" "ld 8 b2 (?obj + 8) = Some addr" "ld 8 b2 (?obj + 16) = Some psize"
    "ld 4 b2 (?obj + 24) = Some n" "ld 8 b2 (?obj + 32) = Some 0"
    using ob_construct_ok [of ?obj ?b1 addr psize n] len1 assms(3,4) nb by auto
  have "length b2 + 8 + 8 * 2 ^ n < 2 ^ 31" using b2(2) o1(3) assms(1) by linarith
  then obtain o2 where o2: "builder_allocate 8 8 (2 ^ n) b2 = Some (int o2, b2 @ replicate (o2 + 8 * 2 ^ n - length b2) 0)"
    "length b2 \<le> o2" "o2 < length b2 + 8" using builder_allocate_ok by blast
  let ?b3 = "b2 @ replicate (o2 + 8 * 2 ^ n - length b2) 0"
  have z: "pool_view ?b3 (int o2) (replicate (2 ^ n) 0)" using o2(2) by (intro pool_view_zero) simp_all
  have old: "ld k ?b3 a = Some v" if "ld k b2 a = Some v" for k a v
    using ld_shift [OF that, of "[]"] by simp
  have "nat (?obj + 40) + 4 \<le> length ?b3" using b2(2) by simp
  then obtain b4 where b4: "st 4 ?b3 (?obj + 40) (trunc32 (int o2 - (?obj + 40))) = Some b4"
    "ld 4 b4 (?obj + 40) = Some (trunc32 (int o2 - (?obj + 40)) mod 256 ^ 4)"
    "same_outside ?b3 b4 (?obj + 40) (?obj + 40 + int 4)" using st_ok [of "?obj + 40" 4 ?b3] by force
  have "trunc32 x < 256 ^ 4" for x unfolding trunc32_def by (simp add: nat_less_iff)
  then have "ptr_address b4 (?obj + 40) = Some (?obj + 40 + sext32 (trunc32 (int o2 - (?obj + 40))))"
    using b4(2) by (simp add: ptr_address_def)
  also have "sext32 (trunc32 (int o2 - (?obj + 40))) = int o2 - (?obj + 40)"
    using b2(2) o2(2,3) by (intro sext_trunc) simp_all
  finally have pa: "ptr_address b4 (?obj + 40) = Some (int o2)" by simp
  have keep: "ld k b4 (?obj + j) = ld k ?b3 (?obj + j)" if "j + int k \<le> 40" for k j
    using that by (intro ld_same_outside [OF b4(3)]) auto
  let ?s = "\<lparr>pool_addr = addr, pool_size = psize, num_order = n, min_block_size = 0, pool = []\<rparr>"
  have "ob_head b4 ?obj (int o2) 0 ?s"
    using keep [of 0 1] keep [of 8 8] keep [of 16 8] keep [of 24 4] keep [of 32 8] b2(2-) o2(2) pa old
    unfolding ob_head_def by simp
  moreover have "pool_view b4 (int o2) (replicate (2 ^ n) 0)"
    using pool_view_same [OF z b4(3)] b2(2) o2(2) by simp
  ultimately obtain b5 where "ob_init_pool b4 ?obj = Some b5" "ob_rep b5 ?obj (buddy_new addr psize n)"
    using ob_init_pool_ok [where n = n and buf = b4 and obj = ?obj and p = "int o2" and s = ?s and psize = psize] assms(2,4) by auto
  then have "ob_create buf addr psize n = Some (?obj, b5)"
    using o1(1) b2(1) o2(1) b4(1) by (simp add: ob_create_def update_object_pointer_member_def Let_def)
  then show ?thesis using \<open>ob_rep b5 _ _\<close> o1(2,3,4) by auto
qed

text \<open>The finished buffer can be copied anywhere: all pointers in it are relative.\<close>

lemma ob_rep_shift:
  assumes "ob_rep buf obj s"
  shows "ob_rep (xs @ buf @ ys) (int (length xs) + obj) s"
proof -
  let ?b = "xs @ buf @ ys" and ?n = "int (length xs)"
  obtain p where p: "ob_head buf obj p 0 s" "pool_view buf p (pool s)" using assms unfolding ob_rep_def by blast
  have l: "ld k ?b (?n + obj + j) = Some v" if "ld k buf (obj + j) = Some v" for k j v
    using ld_shift [OF that, of xs ys] by (simp add: add.assoc)
  have "ob_head ?b (?n + obj) (?n + p) 0 s"
    using p(1) l [of 1 0] l [of 8 8] l [of 8 16] l [of 4 24] l [of 8 32] l [of 4 40]
    by (auto simp: ob_head_def ptr_address_def)
  moreover have "pool_view ?b (?n + p) (pool s)"
    using p(2) ld_shift [of 8 buf _ _ xs ys] by (auto simp: pool_view_def pool_get_def add.assoc)
  ultimately show ?thesis unfolding ob_rep_def by blast
qed

section \<open>Refinement\<close>

datatype buddy_op = Allocate nat | Deallocate nat nat

fun run_buddy :: "buddy_op list \<Rightarrow> buddy \<Rightarrow> (buddy \<times> nat list) option" where
  "run_buddy [] s = Some (s, [])"
| "run_buddy (Allocate sz # ops) s =
     do { (s, a) \<leftarrow> allocate s sz; (s, rs) \<leftarrow> run_buddy ops s; Some (s, a # rs) }"
| "run_buddy (Deallocate a sz # ops) s = do { s \<leftarrow> deallocate s a sz; run_buddy ops s }"

fun run_ob :: "buddy_op list \<Rightarrow> buffer \<Rightarrow> int \<Rightarrow> (buffer \<times> nat list) option" where
  "run_ob [] buf obj = Some (buf, [])"
| "run_ob (Allocate sz # ops) buf obj =
     do { (buf, a) \<leftarrow> ob_allocate buf obj sz; (buf, rs) \<leftarrow> run_ob ops buf obj; Some (buf, a # rs) }"
| "run_ob (Deallocate a sz # ops) buf obj = do { buf \<leftarrow> ob_deallocate buf obj a sz; run_ob ops buf obj }"

lemma run_ob_sim:
  "ob_rep buf obj s \<Longrightarrow> run_buddy ops s = Some (s', rs) \<Longrightarrow> \<exists>buf'. run_ob ops buf obj = Some (buf', rs) \<and> ob_rep buf' obj s'"
proof (induction ops s arbitrary: buf rs rule: run_buddy.induct)
  case (2 sz ops s)
  then obtain s1 a rs1 where a: "allocate s sz = Some (s1, a)" "run_buddy ops s1 = Some (s', rs1)" "rs = a # rs1"
    by (auto simp: bind_eq_Some_conv)
  obtain b1 where b1: "ob_allocate buf obj sz = Some (b1, a)" "ob_rep b1 obj s1"
    using ob_allocate_sim [OF "2.prems"(1) a(1)] by blast
  then show ?case using "2.IH" [OF a(1) refl b1(2) a(2)] a(3) by auto
next
  case (3 a sz ops s)
  then obtain s1 where a: "deallocate s a sz = Some s1" "run_buddy ops s1 = Some (s', rs)"
    by (auto simp: bind_eq_Some_conv)
  obtain b1 where b1: "ob_deallocate buf obj a sz = Some b1" "ob_rep b1 obj s1"
    using ob_deallocate_sim [OF "3.prems"(1) a(1)] by blast
  then show ?case using "3.IH" [OF a(1) b1(2) a(2)] by auto
qed auto

text \<open>
  C9. The allocator in shared memory refines the one on a vector: \<open>create\<close> succeeds on any builder buffer that
  stays below 2 GB, and from the finished buffer, copied to any place in memory, every sequence of operations
  returns the same addresses as the sequence on the vector.
\<close>

theorem ob_buddy_refines:
  assumes "length buf + 64 + 8 * 2 ^ n < 2 ^ 31" "0 < n" "addr < 2 ^ 64" "psize < 2 ^ 64"
    "run_buddy ops (buddy_new addr psize n) = Some (s, rs)"
  shows "\<exists>obj buf'. ob_create buf addr psize n = Some (obj, buf') \<and>
    (\<forall>xs ys. \<exists>buf''. run_ob ops (xs @ buf' @ ys) (int (length xs) + obj) = Some (buf'', rs))"
proof -
  obtain obj buf' where c: "ob_create buf addr psize n = Some (obj, buf')" "ob_rep buf' obj (buddy_new addr psize n)"
    using ob_create_ok [OF assms(1-4)] by blast
  have "\<exists>buf''. run_ob ops (xs @ buf' @ ys) (int (length xs) + obj) = Some (buf'', rs)" for xs ys
    using run_ob_sim [OF ob_rep_shift [OF c(2)] assms(5)] by blast
  then show ?thesis using c(1) by blast
qed

theorem ob_buddy_refines_witness:
  "\<exists>obj buf'. ob_create [] 1 8 2 = Some (obj, buf') \<and>
    (\<forall>xs ys. \<exists>buf''. run_ob [Allocate 3, Allocate 1, Allocate 2] (xs @ buf' @ ys) (int (length xs) + obj) = Some (buf'', [1, 5, 0]))"
proof -
  have "run_buddy [Allocate 3, Allocate 1, Allocate 2] (buddy_new 1 8 2) = Some (run_state [0, 0, 0, 0], [1, 5, 0])"
    unfolding run_new by (simp add: run_steps [unfolded One_nat_def] run_steps)
  then show ?thesis by (intro ob_buddy_refines) simp_all
qed

end
