(* ===== verification/BuddyPool.thy ===== *)
theory BuddyPool
  imports PoolIface ObjBuddySpec
begin

text \<open>Both buddy allocators meet the contract of a pool allocator.\<close>

interpretation vec_pool: pool_allocator allocate deallocate "\<lambda>s L. \<exists>nd. live_inv addr p n s L nd" addr "addr + p" "2 ^ 63"
  for addr p n
proof
  show "\<exists>s' a. allocate s sz = Some (s', a)" if "\<exists>nd. live_inv addr p n s L nd" "sz \<le> 2 ^ 63" for s L sz
    using that live_alloc_total by blast
  show "\<exists>nd. live_inv addr p n s' L nd"
    if "\<exists>nd. live_inv addr p n s L nd" "sz \<le> 2 ^ 63" "allocate s sz = Some (s', 0)" for s L sz s'
    using that live_null by blast
  show "L a = None \<and> (\<exists>nd. live_inv addr p n s' (L(a \<mapsto> sz)) nd)"
    if "\<exists>nd. live_inv addr p n s L nd" "sz \<le> 2 ^ 63" "allocate s sz = Some (s', a)" "a \<noteq> 0" for s L sz s' a
    using that live_alloc by blast
  show "\<exists>s'. deallocate s a sz = Some s' \<and> (\<exists>nd. live_inv addr p n s' (L(a := None)) nd)"
    if "\<exists>nd. live_inv addr p n s L nd" "L a = Some sz" for s L a sz
    using that live_free by blast
  show "{a..<a + sz} \<subseteq> {addr..<addr + p}" if "\<exists>nd. live_inv addr p n s L nd" "L a = Some sz" for s L a sz
    using that reach_inside by blast
  show "{a..<a + sz} \<inter> {b..<b + sz'} = {}"
    if "\<exists>nd. live_inv addr p n s L nd" "L a = Some sz" "L b = Some sz'" "a \<noteq> b" for s L a sz b sz'
    using that reach_disjoint by blast
qed

text \<open>The byte-level allocator at position \<open>obj\<close>, which also leaves the bytes in front of it alone.\<close>

definition ob_inv :: "int \<Rightarrow> nat \<Rightarrow> nat \<Rightarrow> nat \<Rightarrow> buffer \<Rightarrow> buffer \<Rightarrow> (nat \<rightharpoonup> nat) \<Rightarrow> bool" where
  "ob_inv obj addr p n front buf L \<longleftrightarrow>
     (\<exists>s nd. ob_rep buf obj s \<and> live_inv addr p n s L nd) \<and> keeps_front front buf obj"

interpretation ob_pool: pool_allocator "\<lambda>buf. ob_allocate buf obj" "\<lambda>buf. ob_deallocate buf obj"
  "ob_inv obj addr p n front" addr "addr + p" "2 ^ 63"
  for obj addr p n front
proof
  have sim: "\<exists>s nd s' a. ob_rep buf obj s \<and> live_inv addr p n s L nd \<and> allocate s sz = Some (s', a) \<and>
      (\<exists>buf'. ob_allocate buf obj sz = Some (buf', a) \<and> ob_rep buf' obj s' \<and> keeps_front front buf' obj)"
    if i: "ob_inv obj addr p n front buf L" and sz: "sz \<le> 2 ^ 63" for buf L sz
  proof -
    obtain s nd where s: "ob_rep buf obj s" "live_inv addr p n s L nd" "keeps_front front buf obj"
      using i unfolding ob_inv_def by blast
    obtain s' a where a: "allocate s sz = Some (s', a)" using live_alloc_total [OF s(2) sz] by blast
    then show ?thesis using ob_allocate_sim [OF s(1) a] s keeps_front_trans by blast
  qed
  fix buf L
  show "\<exists>s' a. ob_allocate buf obj sz = Some (s', a)" if "ob_inv obj addr p n front buf L" "sz \<le> 2 ^ 63" for sz
    using sim [OF that] by blast
  show "ob_inv obj addr p n front buf' L"
    if i: "ob_inv obj addr p n front buf L" "sz \<le> 2 ^ 63" and eq: "ob_allocate buf obj sz = Some (buf', 0)" for sz buf'
    using sim [OF i] eq live_null [OF _ i(2)] unfolding ob_inv_def by fastforce
  show "L a = None \<and> ob_inv obj addr p n front buf' (L(a \<mapsto> sz))"
    if i: "ob_inv obj addr p n front buf L" "sz \<le> 2 ^ 63" and eq: "ob_allocate buf obj sz = Some (buf', a)" "a \<noteq> 0" for sz buf' a
    using sim [OF i] eq live_alloc [OF _ i(2)] unfolding ob_inv_def by fastforce
  show "\<exists>buf'. ob_deallocate buf obj a sz = Some buf' \<and> ob_inv obj addr p n front buf' (L(a := None))"
    if i: "ob_inv obj addr p n front buf L" and a: "L a = Some sz" for a sz
  proof -
    obtain s nd where s: "ob_rep buf obj s" "live_inv addr p n s L nd" "keeps_front front buf obj"
      using i unfolding ob_inv_def by blast
    obtain s' where s': "deallocate s a sz = Some s'" "live_inv addr p n s' (L(a := None)) nd"
      using live_free [OF s(2) a] by blast
    then show ?thesis using ob_deallocate_sim [OF s(1) s'(1)] s(3) keeps_front_trans unfolding ob_inv_def by blast
  qed
  show "{a..<a + sz} \<subseteq> {addr..<addr + p}" if "ob_inv obj addr p n front buf L" "L a = Some sz" for a sz
    using that reach_inside unfolding ob_inv_def by blast
  show "{a..<a + sz} \<inter> {b..<b + sz'} = {}"
    if "ob_inv obj addr p n front buf L" "L a = Some sz" "L b = Some sz'" "a \<noteq> b" for a sz b sz'
    using that reach_disjoint unfolding ob_inv_def by blast
qed

end
