(* ===== verification/ShmQueue.thy ===== *)
theory ShmQueue
  imports BuddyPool
begin

text \<open>
  \<open>cpp/examples/shm_msg_queue.cc\<close>: a message queue in shared memory. Its chunk list keeps an array of nodes of
  which some are chained in a free list and some in the queue; the bytes of the messages are blocks of the
  byte-level buddy allocator, which lives in the control block behind a relative pointer. Node pointers are
  indices into the array. Every operation runs under the mutex of the control block and is one step; \<open>mmap\<close> is
  outside the model, the address it returns is an argument.
\<close>

section \<open>The chunk list\<close>

record chunk =
  ck_size :: nat
  ck_data :: nat
  ck_next :: "nat option"

record chunk_list =
  cl_nodes :: "chunk list"
  cl_head :: "nat option"
  cl_tail :: "nat option"
  cl_free :: "nat option"

text \<open>\<open>init\<close> writes \<open>nodes[capacity - 1]\<close> in every case: the capacity has to be positive.\<close>

definition init_nodes :: "nat \<Rightarrow> chunk list" where
  "init_nodes capacity = map (\<lambda>i. \<lparr>ck_size = 0, ck_data = 0, ck_next = Some (i + 1)\<rparr>) [0..<capacity - 1] @
     [\<lparr>ck_size = 0, ck_data = 0, ck_next = None\<rparr>]"

definition chunk_list_init :: "int \<Rightarrow> chunk_list option" where
  "chunk_list_init capacity =
     (if capacity \<le> 0 then None
      else Some \<lparr>cl_nodes = init_nodes (nat capacity), cl_head = None, cl_tail = None, cl_free = Some 0\<rparr>)"

definition allocate_node :: "chunk_list \<Rightarrow> (chunk_list \<times> nat option) option" where
  "allocate_node cl =
     (case cl_free cl of
        None \<Rightarrow> Some (cl, None)
      | Some i \<Rightarrow> map_option (\<lambda>nd. (cl\<lparr>cl_free := ck_next nd\<rparr>, Some i)) (vget (cl_nodes cl) i))"

definition deallocate_node :: "chunk_list \<Rightarrow> nat \<Rightarrow> chunk_list option" where
  "deallocate_node cl i =
     do {
       nd \<leftarrow> vget (cl_nodes cl) i;
       ns \<leftarrow> vset (cl_nodes cl) i (nd\<lparr>ck_next := cl_free cl\<rparr>);
       Some (cl\<lparr>cl_nodes := ns, cl_free := Some i\<rparr>)
     }"

definition chunk_put :: "chunk_list \<Rightarrow> nat \<Rightarrow> chunk_list option" where
  "chunk_put cl i =
     do {
       nd \<leftarrow> vget (cl_nodes cl) i;
       ns \<leftarrow> vset (cl_nodes cl) i (nd\<lparr>ck_next := None\<rparr>);
       ns \<leftarrow> (case cl_tail cl of
           None \<Rightarrow> Some ns
         | Some t \<Rightarrow> do { tn \<leftarrow> vget ns t; vset ns t (tn\<lparr>ck_next := Some i\<rparr>) });
       Some (cl\<lparr>cl_nodes := ns, cl_tail := Some i, cl_head := (if cl_head cl = None then Some i else cl_head cl)\<rparr>)
     }"

definition chunk_pop :: "chunk_list \<Rightarrow> (chunk_list \<times> nat option) option" where
  "chunk_pop cl =
     (case cl_head cl of
        None \<Rightarrow> Some (cl, None)
      | Some i \<Rightarrow> map_option (\<lambda>nd.
          (cl\<lparr>cl_head := ck_next nd, cl_tail := (if ck_next nd = None then None else cl_tail cl)\<rparr>, Some i))
          (vget (cl_nodes cl) i))"

section \<open>The queue\<close>

record shmq =
  q_list :: chunk_list
  q_ctl :: buffer
  q_mem :: "nat \<Rightarrow> 8 word"
  q_buf_size :: nat

definition kMinBlockSize :: nat where
  "kMinBlockSize = 512"

function compute_num_order :: "nat \<Rightarrow> nat \<Rightarrow> nat" where
  "compute_num_order pool_size' mn = (if 0 < mn \<and> pool_size' \<ge> mn then Suc (compute_num_order (pool_size' div 2) mn) else 0)"
  by auto
termination by (relation "measure fst") auto

declare compute_num_order.simps [simp del]

text \<open>Pages of 4096 bytes.\<close>

definition shm_aligned_size :: "nat \<Rightarrow> nat \<Rightarrow> nat" where
  "shm_aligned_size sz align = unat ((word_of_nat sz + word_of_nat align - 1 :: 64 word) AND NOT (word_of_nat align - 1))"

text \<open>
  \<open>MmapedControlBlock\<close>: the count at 0, the pointer to the allocator at 4, the mutex from 8 to 48; its
  alignment is 8.
\<close>

definition build_control_block :: "nat \<Rightarrow> nat \<Rightarrow> buffer option" where
  "build_control_block psize addr =
     do {
       (obj, buf) \<leftarrow> builder_allocate 48 8 1 [];
       (allocator_offset, buf) \<leftarrow> ob_create buf addr psize (compute_num_order psize kMinBlockSize);
       update_object_pointer_member buf obj 4 allocator_offset
     }"

text \<open>
  \<open>init\<close>: \<open>None\<close> when a check fails, \<open>Some None\<close> when it returns false because \<open>mmap\<close> of the buffer (\<open>addr\<close>) or
  of the control block (\<open>ctl_ok\<close>) failed.
\<close>

definition shm_init :: "nat \<Rightarrow> nat \<Rightarrow> nat option \<Rightarrow> bool \<Rightarrow> shmq option option" where
  "shm_init capacity buffer_size addr ctl_ok =
     do {
       cl \<leftarrow> chunk_list_init (sext32 (capacity mod 2 ^ 32));
       let psize = buffer_size * 1024 * 1024 mod 2 ^ 64;
       (case addr of
          None \<Rightarrow> Some None
        | Some a \<Rightarrow> do {
            cb \<leftarrow> build_control_block psize a;
            if \<not> ctl_ok then Some None
            else do {
              ctl \<leftarrow> st 4 (cb @ replicate (shm_aligned_size (length cb) 4096 - length cb) 0) 0 (trunc32 (- 1));
              Some (Some \<lparr>q_list = cl, q_ctl = ctl, q_mem = (\<lambda>_. 0), q_buf_size = psize\<rparr>)
            }
          })
     }"

text \<open>\<open>try_allocate\<close>: the chunk and its address, or nothing.\<close>

definition try_allocate :: "shmq \<Rightarrow> nat \<Rightarrow> (shmq \<times> (nat \<times> nat) option) option" where
  "try_allocate q sz =
     do {
       (cl, node) \<leftarrow> allocate_node (q_list q);
       (case node of
          None \<Rightarrow> Some (q\<lparr>q_list := cl\<rparr>, None)
        | Some i \<Rightarrow> do {
            obj \<leftarrow> ptr_address (q_ctl q) 4;
            (ctl, a) \<leftarrow> ob_allocate (q_ctl q) obj sz;
            if a \<noteq> 0 then do {
              nd \<leftarrow> vget (cl_nodes cl) i;
              ns \<leftarrow> vset (cl_nodes cl) i (nd\<lparr>ck_data := a, ck_size := sz\<rparr>);
              Some (q\<lparr>q_list := cl\<lparr>cl_nodes := ns\<rparr>, q_ctl := ctl\<rparr>, Some (i, a))
            } else do {
              cl \<leftarrow> deallocate_node cl i;
              Some (q\<lparr>q_list := cl, q_ctl := ctl\<rparr>, None)
            }
          })
     }"

text \<open>
  \<open>allocate\<close>, one round of its loop: without \<open>block\<close> a failed round ends the call with false, with it the
  call sleeps and tries again.
\<close>

definition shm_allocate :: "shmq \<Rightarrow> nat \<Rightarrow> (shmq \<times> (nat \<times> nat) option) option" where
  "shm_allocate q sz = (if sz \<le> q_buf_size q then try_allocate q sz else None)"

definition shm_enqueue :: "shmq \<Rightarrow> nat \<Rightarrow> shmq option" where
  "shm_enqueue q chunk_id = map_option (\<lambda>cl. q\<lparr>q_list := cl\<rparr>) (chunk_put (q_list q) chunk_id)"

text \<open>\<open>enqueue(msg, msg_size)\<close>, one round: \<open>False\<close> while no chunk is available.\<close>

definition shm_enqueue_msg :: "shmq \<Rightarrow> 8 word list \<Rightarrow> (shmq \<times> bool) option" where
  "shm_enqueue_msg q msg =
     do {
       (q, r) \<leftarrow> shm_allocate q (length msg);
       (case r of
          None \<Rightarrow> Some (q, False)
        | Some (chunk_id, a) \<Rightarrow>
            map_option (\<lambda>q. (q, True)) (shm_enqueue (q\<lparr>q_mem := mem_write (q_mem q) a msg\<rparr>) chunk_id))
     }"

datatype shm_status = Shm_ok | Shm_timeout | Shm_closed | Shm_unknown_error

text \<open>One round of the loop of \<open>dequeue\<close>, then the loop for a number of rounds until the deadline.\<close>

definition dequeue_poll :: "shmq \<Rightarrow> (shmq \<times> (shm_status \<times> nat \<times> nat \<times> nat) option) option" where
  "dequeue_poll q =
     do {
       (cl, node) \<leftarrow> chunk_pop (q_list q);
       (case node of
          Some i \<Rightarrow> map_option (\<lambda>nd. (q\<lparr>q_list := cl\<rparr>, Some (Shm_ok, i, ck_data nd, ck_size nd))) (vget (cl_nodes cl) i)
        | None \<Rightarrow> map_option (\<lambda>c. (q\<lparr>q_list := cl\<rparr>, if sext32 c = 0 then Some (Shm_closed, 0, 0, 0) else None))
            (ld 4 (q_ctl q) 0))
     }"

fun shm_dequeue :: "nat \<Rightarrow> shmq \<Rightarrow> (shmq \<times> shm_status \<times> nat \<times> nat \<times> nat) option" where
  "shm_dequeue 0 q = Some (q, Shm_timeout, 0, 0, 0)"
| "shm_dequeue (Suc k) q =
     do {
       (q, r) \<leftarrow> dequeue_poll q;
       (case r of Some res \<Rightarrow> Some (q, res) | None \<Rightarrow> shm_dequeue k q)
     }"

definition release_chunk :: "shmq \<Rightarrow> nat \<Rightarrow> shmq option" where
  "release_chunk q chunk_id =
     do {
       nd \<leftarrow> vget (cl_nodes (q_list q)) chunk_id;
       obj \<leftarrow> ptr_address (q_ctl q) 4;
       ctl \<leftarrow> ob_deallocate (q_ctl q) obj (ck_data nd) (ck_size nd);
       cl \<leftarrow> deallocate_node (q_list q) chunk_id;
       Some (q\<lparr>q_list := cl, q_ctl := ctl\<rparr>)
     }"

definition set_preducer_count :: "shmq \<Rightarrow> int \<Rightarrow> shmq option" where
  "set_preducer_count q n = map_option (\<lambda>ctl. q\<lparr>q_ctl := ctl\<rparr>) (st 4 (q_ctl q) 0 (trunc32 n))"

definition signal_preducing_complete :: "shmq \<Rightarrow> shmq option" where
  "signal_preducing_complete q =
     Option.bind (ld 4 (q_ctl q) 0) (\<lambda>c. map_option (\<lambda>ctl. q\<lparr>q_ctl := ctl\<rparr>) (st 4 (q_ctl q) 0 (trunc32 (sext32 c - 1))))"

definition shm_close :: "shmq \<Rightarrow> shmq option" where
  "shm_close q = signal_preducing_complete q"

end
