(* ===== verification/ShmList.thy ===== *)
theory ShmList
  imports ShmQueue
begin

text \<open>
  The chunk list keeps two disjoint chains in its array: the free nodes and the queued nodes. The remaining
  nodes are held by clients.
\<close>

fun chain :: "chunk list \<Rightarrow> nat option \<Rightarrow> nat list \<Rightarrow> bool" where
  "chain ns p [] \<longleftrightarrow> p = None"
| "chain ns p (i # is) \<longleftrightarrow> p = Some i \<and> i < length ns \<and> chain ns (ck_next (ns ! i)) is"

lemma chain_update [simp]: "j \<notin> set is \<Longrightarrow> chain (ns[j := x]) p is = chain ns p is"
  by (induction "is" arbitrary: p) auto

lemma chain_same_next:
  assumes "ck_next x = ck_next (ns ! i)"
  shows "chain (ns[i := x]) p is = chain ns p is"
proof -
  have "ck_next (ns[i := x] ! j) = ck_next (ns ! j)" if "j < length ns" for j
    using assms that by (cases "i = j") simp_all
  then show ?thesis by (induction "is" arbitrary: p) auto
qed

lemma chain_snoc:
  "chain ns p is \<Longrightarrow> is \<noteq> [] \<Longrightarrow> distinct is \<Longrightarrow> j \<notin> set is \<Longrightarrow> j < length ns \<Longrightarrow> ck_next (ns ! j) = None \<Longrightarrow>
     chain (ns[last is := (ns ! last is)\<lparr>ck_next := Some j\<rparr>]) p (is @ [j])"
proof (induction "is" arbitrary: p)
  case (Cons i "is")
  show ?case
  proof (cases "is = []")
    case True
    then show ?thesis using Cons.prems by simp
  next
    case False
    then have "last is \<in> set is" by simp
    then have "i \<noteq> last is" using Cons.prems(3) by auto
    then show ?thesis using Cons False by simp
  qed
qed simp

lemma chain_bounds: "chain ns p is \<Longrightarrow> i \<in> set is \<Longrightarrow> i < length ns"
  by (induction "is" arbitrary: p) auto

definition same_payload :: "chunk list \<Rightarrow> chunk list \<Rightarrow> bool" where
  "same_payload ns ns' \<longleftrightarrow> length ns' = length ns \<and>
     (\<forall>j<length ns. ck_size (ns' ! j) = ck_size (ns ! j) \<and> ck_data (ns' ! j) = ck_data (ns ! j))"

definition list_ok :: "chunk_list \<Rightarrow> nat list \<Rightarrow> nat list \<Rightarrow> nat set \<Rightarrow> bool" where
  "list_ok cl fs qs H \<longleftrightarrow> chain (cl_nodes cl) (cl_free cl) fs \<and> chain (cl_nodes cl) (cl_head cl) qs \<and>
     cl_tail cl = (if qs = [] then None else Some (last qs)) \<and> distinct (fs @ qs) \<and>
     H \<inter> (set fs \<union> set qs) = {} \<and> H \<union> set fs \<union> set qs = {..<length (cl_nodes cl)}"

lemma same_payload_update: "i < length ns \<Longrightarrow> ck_size x = ck_size (ns ! i) \<Longrightarrow> ck_data x = ck_data (ns ! i) \<Longrightarrow>
    same_payload ns (ns[i := x])"
  by (auto simp: same_payload_def nth_list_update)

lemma same_payload_trans: "same_payload a b \<Longrightarrow> same_payload b c \<Longrightarrow> same_payload a c"
  by (auto simp: same_payload_def)

lemma chain_init:
  "k \<le> c - 1 \<Longrightarrow> 0 < c \<Longrightarrow> chain (init_nodes c) (Some k) [k..<c]"
proof (induction "c - 1 - k" arbitrary: k)
  case 0
  then have "k = c - 1" by simp
  then have "[k..<c] = [k]" using 0 by (simp add: upt_rec)
  then show ?case using 0 \<open>k = c - 1\<close> by (simp add: init_nodes_def nth_append)
next
  case (Suc d)
  then have "[k..<c] = k # [Suc k..<c]" "k < c - 1" by (auto simp: upt_rec)
  moreover have "chain (init_nodes c) (Some (Suc k)) [Suc k..<c]" using Suc by simp
  ultimately show ?case by (simp add: init_nodes_def nth_append)
qed

lemma list_ok_init:
  assumes "chunk_list_init c = Some cl"
  shows "list_ok cl [0..<nat c] [] {}"
proof -
  have c: "0 < c" "cl = \<lparr>cl_nodes = init_nodes (nat c), cl_head = None, cl_tail = None, cl_free = Some 0\<rparr>"
    using assms by (auto simp: chunk_list_init_def split: if_splits)
  have "length (init_nodes (nat c)) = nat c" using c(1) by (simp add: init_nodes_def)
  then show ?thesis using c chain_init [of 0 "nat c"] by (auto simp: list_ok_def)
qed

lemma allocate_node_none: "list_ok cl [] qs H \<Longrightarrow> allocate_node cl = Some (cl, None)"
  by (simp add: list_ok_def allocate_node_def)

lemma allocate_node_some:
  assumes "list_ok cl (i # fs) qs H"
  shows "\<exists>cl'. allocate_node cl = Some (cl', Some i) \<and> list_ok cl' fs qs (insert i H) \<and> cl_nodes cl' = cl_nodes cl \<and>
    i < length (cl_nodes cl) \<and> i \<notin> H"
  using assms by (auto simp: list_ok_def allocate_node_def)

lemma held_bound: "list_ok cl fs qs H \<Longrightarrow> i \<in> H \<Longrightarrow> i < length (cl_nodes cl) \<and> i \<notin> set fs \<and> i \<notin> set qs"
  unfolding list_ok_def by blast

lemma deallocate_node_ok:
  assumes "list_ok cl fs qs H" "i \<in> H"
  shows "\<exists>cl'. deallocate_node cl i = Some cl' \<and> list_ok cl' (i # fs) qs (H - {i}) \<and>
    same_payload (cl_nodes cl) (cl_nodes cl')"
proof -
  note b = held_bound [OF assms]
  let ?ns = "(cl_nodes cl)[i := (cl_nodes cl ! i)\<lparr>ck_next := cl_free cl\<rparr>]"
  have "list_ok (cl\<lparr>cl_nodes := ?ns, cl_free := Some i\<rparr>) (i # fs) qs (H - {i})"
    using assms b unfolding list_ok_def by auto
  moreover have "same_payload (cl_nodes cl) ?ns" using b by (intro same_payload_update) simp_all
  ultimately show ?thesis using b by (simp add: deallocate_node_def)
qed

lemma chunk_put_ok:
  assumes "list_ok cl fs qs H" "i \<in> H"
  shows "\<exists>cl'. chunk_put cl i = Some cl' \<and> list_ok cl' fs (qs @ [i]) (H - {i}) \<and>
    same_payload (cl_nodes cl) (cl_nodes cl')"
proof -
  note b = held_bound [OF assms]
  have ok: "chain (cl_nodes cl) (cl_free cl) fs" "chain (cl_nodes cl) (cl_head cl) qs" "distinct (fs @ qs)"
    "cl_tail cl = (if qs = [] then None else Some (last qs))"
    "H \<inter> (set fs \<union> set qs) = {}" "H \<union> set fs \<union> set qs = {..<length (cl_nodes cl)}"
    using assms(1) unfolding list_ok_def by blast+
  let ?ns = "(cl_nodes cl)[i := (cl_nodes cl ! i)\<lparr>ck_next := None\<rparr>]"
  have p1: "same_payload (cl_nodes cl) ?ns" using b by (intro same_payload_update) simp_all
  show ?thesis
  proof (cases "qs = []")
    case True
    then have "list_ok (cl\<lparr>cl_nodes := ?ns, cl_tail := Some i, cl_head := Some i\<rparr>) fs (qs @ [i]) (H - {i})"
      using ok b assms(2) unfolding list_ok_def by auto
    then show ?thesis using True ok b p1 by (simp add: chunk_put_def)
  next
    case False
    let ?t = "last qs" and ?n2 = "?ns[last qs := (?ns ! last qs)\<lparr>ck_next := Some i\<rparr>]"
    have t: "?t \<in> set qs" using False by simp
    then have tl: "?t < length ?ns" "?t \<notin> set fs" using ok(2,3) chain_bounds by fastforce+
    have c: "chain ?ns (cl_head cl) qs" "chain ?ns (cl_free cl) fs" using ok(1,2) b by simp_all
    have "chain ?n2 (cl_head cl) (qs @ [i])" using ok(3) b False by (intro chain_snoc [OF c(1)]) simp_all
    moreover have "chain ?n2 (cl_free cl) fs" using c(2) tl(2) by simp
    ultimately have "list_ok (cl\<lparr>cl_nodes := ?n2, cl_tail := Some i\<rparr>) fs (qs @ [i]) (H - {i})"
      using ok(3-) b assms(2) unfolding list_ok_def by auto
    moreover have "cl_head cl \<noteq> None" using ok(2) False by (cases qs) auto
    moreover have "same_payload ?ns ?n2" using tl(1) by (intro same_payload_update) simp_all
    then have "same_payload (cl_nodes cl) ?n2" using p1 same_payload_trans by blast
    ultimately show ?thesis using False ok(4) b tl(1) by (auto simp: chunk_put_def)
  qed
qed

lemma chunk_pop_none: "list_ok cl fs [] H \<Longrightarrow> chunk_pop cl = Some (cl, None)"
  by (simp add: list_ok_def chunk_pop_def)

lemma chunk_pop_some:
  assumes "list_ok cl fs (i # qs) H"
  shows "\<exists>cl'. chunk_pop cl = Some (cl', Some i) \<and> list_ok cl' fs qs (insert i H) \<and> cl_nodes cl' = cl_nodes cl \<and>
    i < length (cl_nodes cl)"
proof -
  have n: "ck_next (cl_nodes cl ! i) = None \<longleftrightarrow> qs = []" using assms by (cases qs) (auto simp: list_ok_def)
  then show ?thesis using assms by (auto simp: list_ok_def chunk_pop_def)
qed

end
