(* ===== verification/ShmSpec.thy ===== *)
theory ShmSpec
  imports ShmList
begin

text \<open>
  The shared-memory queue implements a queue of messages: \<open>Q\<close> is the queue of chunks with their bytes, \<open>Hd\<close> the
  chunks that clients hold (allocated and not yet queued, or taken out and not yet released).
\<close>

section \<open>Abstraction\<close>

definition live_ok :: "chunk list \<Rightarrow> (nat \<rightharpoonup> nat) \<Rightarrow> nat set \<Rightarrow> bool" where
  "live_ok ns L B \<longleftrightarrow> inj_on (\<lambda>i. ck_data (ns ! i)) B \<and> dom L = (\<lambda>i. ck_data (ns ! i)) ` B \<and>
     (\<forall>i\<in>B. L (ck_data (ns ! i)) = Some (ck_size (ns ! i)))"

definition ctl_ok :: "shmq \<Rightarrow> int \<Rightarrow> bool" where
  "ctl_ok q obj \<longleftrightarrow> 8 \<le> obj \<and> ptr_address (q_ctl q) 4 = Some obj \<and> (\<exists>c. ld 4 (q_ctl q) 0 = Some c)"

definition chunk_bytes :: "shmq \<Rightarrow> nat \<Rightarrow> 8 word list" where
  "chunk_bytes q i = (let nd = cl_nodes (q_list q) ! i in mem_read (q_mem q) (ck_data nd) (ck_size nd))"

definition shm_rep :: "int \<Rightarrow> nat \<Rightarrow> nat \<Rightarrow> nat \<Rightarrow> shmq \<Rightarrow> (nat \<times> 8 word list) list \<Rightarrow> (nat \<rightharpoonup> 8 word list) \<Rightarrow> bool" where
  "shm_rep obj addr p n q Q Hd \<longleftrightarrow>
     (\<exists>fs L. list_ok (q_list q) fs (map fst Q) (dom Hd) \<and> live_ok (cl_nodes (q_list q)) L (fst ` set Q \<union> dom Hd) \<and>
        ob_inv obj addr p n (q_ctl q) (q_ctl q) L) \<and>
     ctl_ok q obj \<and> q_buf_size q = p \<and> p \<le> 2 ^ 63 \<and>
     (\<forall>(i, bs)\<in>set Q. chunk_bytes q i = bs) \<and> (\<forall>i bs. Hd i = Some bs \<longrightarrow> chunk_bytes q i = bs)"

text \<open>The blocks of the chunks in \<open>B\<close> stay where they are.\<close>

definition same_data :: "shmq \<Rightarrow> shmq \<Rightarrow> nat set \<Rightarrow> bool" where
  "same_data q q' B \<longleftrightarrow> (\<forall>i\<in>B. ck_data (cl_nodes (q_list q') ! i) = ck_data (cl_nodes (q_list q) ! i))"

lemma same_data_payload:
  "same_payload (cl_nodes (q_list q)) (cl_nodes (q_list q')) \<Longrightarrow> B \<subseteq> {..<length (cl_nodes (q_list q))} \<Longrightarrow> same_data q q' B"
  unfolding same_data_def same_payload_def by blast

lemma same_data_trans: "same_data a b B \<Longrightarrow> same_data b c B \<Longrightarrow> same_data a c B"
  by (simp add: same_data_def)

subsection \<open>The control block\<close>

lemma ob_inv_refl: "ob_inv obj addr p n front buf L \<Longrightarrow> ob_inv obj addr p n buf buf L"
  unfolding ob_inv_def keeps_front_def by simp

lemma ob_inv_front: "ob_inv obj addr p n front buf L \<Longrightarrow> keeps_front front buf obj"
  unfolding ob_inv_def by blast

lemma ctl_ok_keeps:
  assumes "ctl_ok q obj" "keeps_front (q_ctl q) ctl obj"
  shows "ctl_ok (q\<lparr>q_list := cl, q_ctl := ctl\<rparr>) obj"
  using assms keeps_front_ld [OF assms(2), of 4 4] keeps_front_ld [OF assms(2), of 0 4]
  unfolding ctl_ok_def ptr_address_def by simp

lemma count_store:
  assumes "ctl_ok q obj" "ob_inv obj addr p n (q_ctl q) (q_ctl q) L"
  shows "\<exists>ctl. st 4 (q_ctl q) 0 (trunc32 c) = Some ctl \<and> ctl_ok (q\<lparr>q_ctl := ctl\<rparr>) obj \<and>
    ob_inv obj addr p n ctl ctl L \<and> ld 4 ctl 0 = Some (trunc32 c)"
proof -
  have "trunc32 c < 256 ^ 4" unfolding trunc32_def by (simp add: nat_less_iff)
  then obtain ctl where c: "st 4 (q_ctl q) 0 (trunc32 c) = Some ctl" "ld 4 ctl 0 = Some (trunc32 c)"
    "same_outside (q_ctl q) ctl 0 (0 + int 4)" using st_over assms(1) unfolding ctl_ok_def by blast
  have "ld 4 ctl 4 = ld 4 (q_ctl q) 4" by (rule ld_same_outside [OF c(3)]) simp
  then have "ctl_ok (q\<lparr>q_ctl := ctl\<rparr>) obj" using assms(1) c(2) by (simp add: ctl_ok_def ptr_address_def)
  moreover have "8 \<le> obj" using assms(1) by (simp add: ctl_ok_def)
  then have "ob_inv obj addr p n ctl ctl L"
    using assms(2) ob_rep_after [OF _ c(3)] unfolding ob_inv_def keeps_front_def by fastforce
  ultimately show ?thesis using c by blast
qed

subsection \<open>Payloads\<close>

lemma live_ok_same: "same_payload ns ns' \<Longrightarrow> B \<subseteq> {..<length ns} \<Longrightarrow> live_ok ns L B \<Longrightarrow> live_ok ns' L B"
proof -
  assume a: "same_payload ns ns'" "B \<subseteq> {..<length ns}" "live_ok ns L B"
  have "ck_data (ns' ! i) = ck_data (ns ! i) \<and> ck_size (ns' ! i) = ck_size (ns ! i)" if "i \<in> B" for i
    using a(1,2) that unfolding same_payload_def by auto
  then show ?thesis using a(3) unfolding live_ok_def by (simp cong: inj_on_cong image_cong)
qed

lemma chunk_bytes_same:
  "same_payload (cl_nodes (q_list q)) (cl_nodes cl) \<Longrightarrow> i < length (cl_nodes (q_list q)) \<Longrightarrow>
     chunk_bytes (q\<lparr>q_list := cl, q_ctl := ctl\<rparr>) i = chunk_bytes q i"
  by (simp add: chunk_bytes_def same_payload_def Let_def)

lemma live_ok_alloc:
  assumes "live_ok ns L B" "i \<notin> B" "i < length ns" "L a = None" "B \<subseteq> {..<length ns}"
  shows "live_ok (ns[i := (ns ! i)\<lparr>ck_data := a, ck_size := sz\<rparr>]) (L(a \<mapsto> sz)) (insert i B)"
proof -
  let ?ns = "ns[i := (ns ! i)\<lparr>ck_data := a, ck_size := sz\<rparr>]"
  have old: "ck_data (?ns ! j) = ck_data (ns ! j)" "ck_size (?ns ! j) = ck_size (ns ! j)" if "j \<in> B" for j
  proof -
    have "i \<noteq> j" using that assms(2) by blast
    then show "ck_data (?ns ! j) = ck_data (ns ! j)" "ck_size (?ns ! j) = ck_size (ns ! j)" by simp_all
  qed
  have img: "(\<lambda>j. ck_data (?ns ! j)) ` B = dom L" using assms(1) old unfolding live_ok_def by auto
  have a: "a \<notin> dom L" using assms(4) by blast
  have "inj_on (\<lambda>j. ck_data (?ns ! j)) B" using assms(1) old unfolding live_ok_def by (simp cong: inj_on_cong)
  then have "inj_on (\<lambda>j. ck_data (?ns ! j)) (insert i B)" using assms(2,3) img a by auto
  moreover have "(L(a \<mapsto> sz)) (ck_data (?ns ! j)) = Some (ck_size (?ns ! j))" if "j \<in> B" for j
    using that assms(1) old [OF that] a img unfolding live_ok_def by force
  ultimately show ?thesis using assms(3) img unfolding live_ok_def by auto
qed

lemma live_ok_free:
  assumes "live_ok ns L B" "i \<in> B"
  shows "live_ok ns (L(ck_data (ns ! i) := None)) (B - {i})"
proof -
  have inj: "inj_on (\<lambda>i. ck_data (ns ! i)) B" using assms(1) unfolding live_ok_def by blast
  have ne: "ck_data (ns ! j) \<noteq> ck_data (ns ! i)" if "j \<in> B - {i}" for j using inj assms(2) that by (auto dest: inj_onD)
  have "inj_on (\<lambda>i. ck_data (ns ! i)) (B - {i})" using inj by (rule inj_on_subset) blast
  moreover have "dom (L(ck_data (ns ! i) := None)) = (\<lambda>i. ck_data (ns ! i)) ` (B - {i})"
    using assms ne unfolding live_ok_def by auto
  ultimately show ?thesis using assms(1) ne unfolding live_ok_def by simp
qed

lemma shm_repE:
  assumes "shm_rep obj addr p n q Q Hd"
  obtains fs L where "list_ok (q_list q) fs (map fst Q) (dom Hd)" "live_ok (cl_nodes (q_list q)) L (fst ` set Q \<union> dom Hd)"
    "ob_inv obj addr p n (q_ctl q) (q_ctl q) L" "ctl_ok q obj" "q_buf_size q = p" "p \<le> 2 ^ 63"
    "\<And>i bs. (i, bs) \<in> set Q \<Longrightarrow> chunk_bytes q i = bs" "\<And>i bs. Hd i = Some bs \<Longrightarrow> chunk_bytes q i = bs"
    "fst ` set Q \<union> dom Hd \<subseteq> {..<length (cl_nodes (q_list q))}"
proof -
  obtain fs L where f: "list_ok (q_list q) fs (map fst Q) (dom Hd)" "live_ok (cl_nodes (q_list q)) L (fst ` set Q \<union> dom Hd)"
    "ob_inv obj addr p n (q_ctl q) (q_ctl q) L" using assms unfolding shm_rep_def by blast
  have "fst ` set Q \<union> dom Hd \<subseteq> {..<length (cl_nodes (q_list q))}" using f(1) unfolding list_ok_def by auto
  then show thesis using assms unfolding shm_rep_def by (intro that [OF f]) auto
qed

lemma shm_repI:
  assumes "list_ok (q_list q) fs (map fst Q) (dom Hd)" "live_ok (cl_nodes (q_list q)) L (fst ` set Q \<union> dom Hd)"
    "ob_inv obj addr p n front (q_ctl q) L" "ctl_ok q obj" "q_buf_size q = p" "p \<le> 2 ^ 63"
    "\<And>i bs. (i, bs) \<in> set Q \<Longrightarrow> chunk_bytes q i = bs" "\<And>i bs. Hd i = Some bs \<Longrightarrow> chunk_bytes q i = bs"
  shows "shm_rep obj addr p n q Q Hd"
  unfolding shm_rep_def using assms(1,2,4-) ob_inv_refl [OF assms(3)] by blast

section \<open>The operations\<close>

text \<open>What the operations on the chunk list have in common: the payloads stay, nodes change their chain.\<close>

lemma shm_rep_relist:
  assumes "shm_rep obj addr p n q Q Hd" "list_ok cl fs (map fst Q') (dom Hd')"
    "same_payload (cl_nodes (q_list q)) (cl_nodes cl)" "ob_inv obj addr p n (q_ctl q) ctl L"
    "live_ok (cl_nodes (q_list q)) L (fst ` set Q' \<union> dom Hd')"
    "fst ` set Q' \<union> dom Hd' \<subseteq> {..<length (cl_nodes (q_list q))}"
    "\<And>i bs. (i, bs) \<in> set Q' \<Longrightarrow> chunk_bytes q i = bs" "\<And>i bs. Hd' i = Some bs \<Longrightarrow> chunk_bytes q i = bs"
  shows "shm_rep obj addr p n (q\<lparr>q_list := cl, q_ctl := ctl\<rparr>) Q' Hd'"
proof (rule shm_repI)
  let ?q = "q\<lparr>q_list := cl, q_ctl := ctl\<rparr>"
  have keep: "chunk_bytes ?q i = chunk_bytes q i" if "i \<in> fst ` set Q' \<union> dom Hd'" for i
    using chunk_bytes_same [OF assms(3), of i ctl] assms(6) that by auto
  show "list_ok (q_list ?q) fs (map fst Q') (dom Hd')" using assms(2) by simp
  show "live_ok (cl_nodes (q_list ?q)) L (fst ` set Q' \<union> dom Hd')" using live_ok_same [OF assms(3,6,5)] by simp
  show "ob_inv obj addr p n (q_ctl q) (q_ctl ?q) L" using assms(4) by simp
  have q: "ctl_ok q obj" "q_buf_size q = p" "p \<le> 2 ^ 63" using assms(1) unfolding shm_rep_def by blast+
  show "ctl_ok ?q obj" by (rule ctl_ok_keeps [OF q(1) ob_inv_front [OF assms(4)]])
  show "q_buf_size ?q = p" "p \<le> 2 ^ 63" using q by simp_all
  show "chunk_bytes ?q i = bs" if "(i, bs) \<in> set Q'" for i bs using that keep [of i] assms(7) by force
  show "chunk_bytes ?q i = bs" if "Hd' i = Some bs" for i bs using that keep [of i] assms(8) by auto
qed

lemma enqueue_ok:
  assumes "shm_rep obj addr p n q Q Hd" "Hd i = Some bs"
  shows "\<exists>q'. shm_enqueue q i = Some q' \<and> shm_rep obj addr p n q' (Q @ [(i, bs)]) (Hd(i := None)) \<and>
    same_data q q' (dom Hd)"
proof -
  obtain fs L where r: "list_ok (q_list q) fs (map fst Q) (dom Hd)" "live_ok (cl_nodes (q_list q)) L (fst ` set Q \<union> dom Hd)"
    "ob_inv obj addr p n (q_ctl q) (q_ctl q) L" "ctl_ok q obj" "q_buf_size q = p" "p \<le> 2 ^ 63"
    "\<And>i bs. (i, bs) \<in> set Q \<Longrightarrow> chunk_bytes q i = bs" "\<And>i bs. Hd i = Some bs \<Longrightarrow> chunk_bytes q i = bs"
    "fst ` set Q \<union> dom Hd \<subseteq> {..<length (cl_nodes (q_list q))}" using shm_repE [OF assms(1)] by blast
  have i: "i \<in> dom Hd" using assms(2) by blast
  obtain cl where cl: "chunk_put (q_list q) i = Some cl" "list_ok cl fs (map fst Q @ [i]) (dom Hd - {i})"
    "same_payload (cl_nodes (q_list q)) (cl_nodes cl)" using chunk_put_ok [OF r(1) i] by blast
  have B: "fst ` set (Q @ [(i, bs)]) \<union> dom (Hd(i := None)) = fst ` set Q \<union> dom Hd" using i by auto
  have "shm_rep obj addr p n (q\<lparr>q_list := cl, q_ctl := q_ctl q\<rparr>) (Q @ [(i, bs)]) (Hd(i := None))"
    by (rule shm_rep_relist [OF assms(1) _ cl(3) r(3)])
      (use cl(2) r assms(2) B in \<open>auto split: if_splits\<close>)
  moreover have "same_data q (q\<lparr>q_list := cl, q_ctl := q_ctl q\<rparr>) (dom Hd)"
    using same_data_payload cl(3) r(9) by simp
  ultimately show ?thesis using cl(1) by (simp add: shm_enqueue_def)
qed

lemma poll_some:
  assumes "shm_rep obj addr p n q ((i, bs) # Q) Hd"
  shows "\<exists>q' a. dequeue_poll q = Some (q', Some (Shm_ok, i, a, length bs)) \<and> mem_read (q_mem q') a (length bs) = bs \<and>
    shm_rep obj addr p n q' Q (Hd(i \<mapsto> bs)) \<and> cl_nodes (q_list q') = cl_nodes (q_list q) \<and>
    a = ck_data (cl_nodes (q_list q) ! i)"
proof -
  obtain fs L where r: "list_ok (q_list q) fs (map fst ((i, bs) # Q)) (dom Hd)"
    "live_ok (cl_nodes (q_list q)) L (fst ` set ((i, bs) # Q) \<union> dom Hd)" "ob_inv obj addr p n (q_ctl q) (q_ctl q) L" "ctl_ok q obj" "q_buf_size q = p" "p \<le> 2 ^ 63"
    "\<And>j b. (j, b) \<in> set ((i, bs) # Q) \<Longrightarrow> chunk_bytes q j = b" "\<And>j b. Hd j = Some b \<Longrightarrow> chunk_bytes q j = b"
    "fst ` set ((i, bs) # Q) \<union> dom Hd \<subseteq> {..<length (cl_nodes (q_list q))}" using shm_repE [OF assms] by blast
  obtain cl where cl: "chunk_pop (q_list q) = Some (cl, Some i)" "list_ok cl fs (map fst Q) (insert i (dom Hd))"
    "cl_nodes cl = cl_nodes (q_list q)" "i < length (cl_nodes (q_list q))" using chunk_pop_some r(1) by fastforce
  let ?q = "q\<lparr>q_list := cl, q_ctl := q_ctl q\<rparr>" and ?nd = "cl_nodes cl ! i"
  have bytes: "mem_read (q_mem q) (ck_data ?nd) (ck_size ?nd) = bs"
    using r(7) [of i bs] cl(3) by (simp add: chunk_bytes_def Let_def)
  then have len: "ck_size ?nd = length bs" using length_mem_read by metis
  have pay: "same_payload (cl_nodes (q_list q)) (cl_nodes cl)" using cl(3) by (simp add: same_payload_def)
  have "shm_rep obj addr p n ?q Q (Hd(i \<mapsto> bs))"
    by (rule shm_rep_relist [OF assms _ pay r(3)]) (use cl(2) r in \<open>auto split: if_splits\<close>)
  moreover have "dequeue_poll q = Some (?q, Some (Shm_ok, i, ck_data ?nd, length bs))"
    using cl(1,3,4) len by (simp add: dequeue_poll_def)
  ultimately show ?thesis using bytes len cl(3) by auto
qed

lemma poll_none:
  assumes "shm_rep obj addr p n q [] Hd" "ld 4 (q_ctl q) 0 = Some c"
  shows "dequeue_poll q = Some (q, if sext32 c = 0 then Some (Shm_closed, 0, 0, 0) else None)"
proof -
  obtain fs where "list_ok (q_list q) fs [] (dom Hd)" using assms(1) unfolding shm_rep_def by auto
  from chunk_pop_none [OF this] show ?thesis using assms(2) by (simp add: dequeue_poll_def)
qed

lemma release_ok:
  assumes "shm_rep obj addr p n q Q Hd" "Hd i = Some bs"
  shows "\<exists>q'. release_chunk q i = Some q' \<and> shm_rep obj addr p n q' Q (Hd(i := None)) \<and> same_data q q' (dom Hd)"
proof -
  obtain fs L where r: "list_ok (q_list q) fs (map fst Q) (dom Hd)" "live_ok (cl_nodes (q_list q)) L (fst ` set Q \<union> dom Hd)"
    "ob_inv obj addr p n (q_ctl q) (q_ctl q) L" "ctl_ok q obj" "q_buf_size q = p" "p \<le> 2 ^ 63"
    "\<And>i bs. (i, bs) \<in> set Q \<Longrightarrow> chunk_bytes q i = bs" "\<And>i bs. Hd i = Some bs \<Longrightarrow> chunk_bytes q i = bs"
    "fst ` set Q \<union> dom Hd \<subseteq> {..<length (cl_nodes (q_list q))}" using shm_repE [OF assms(1)] by blast
  let ?nd = "cl_nodes (q_list q) ! i" and ?B = "fst ` set Q \<union> dom Hd"
  have i: "i \<in> dom Hd" "i \<in> ?B" using assms(2) by blast+
  have "i \<notin> fst ` set Q" using held_bound [OF r(1) i(1)] by auto
  then have B: "fst ` set Q \<union> dom (Hd(i := None)) = ?B - {i}" by auto
  obtain cl where cl: "deallocate_node (q_list q) i = Some cl" "list_ok cl (i # fs) (map fst Q) (dom Hd - {i})"
    "same_payload (cl_nodes (q_list q)) (cl_nodes cl)" using deallocate_node_ok [OF r(1) i(1)] by blast
  have "L (ck_data ?nd) = Some (ck_size ?nd)" using r(2) i(2) unfolding live_ok_def by blast
  then obtain ctl where ctl: "ob_deallocate (q_ctl q) obj (ck_data ?nd) (ck_size ?nd) = Some ctl"
    "ob_inv obj addr p n (q_ctl q) ctl (L(ck_data ?nd := None))" using ob_pool.dealloc_live [OF r(3)] by blast
  have "shm_rep obj addr p n (q\<lparr>q_list := cl, q_ctl := ctl\<rparr>) Q (Hd(i := None))"
  proof (rule shm_rep_relist [OF assms(1) _ cl(3) ctl(2)])
    show "live_ok (cl_nodes (q_list q)) (L(ck_data ?nd := None)) (fst ` set Q \<union> dom (Hd(i := None)))"
      unfolding B by (rule live_ok_free [OF r(2) i(2)])
  qed (use cl(2) r in \<open>auto split: if_splits\<close>)
  moreover have "vget (cl_nodes (q_list q)) i = Some ?nd" "ptr_address (q_ctl q) 4 = Some obj"
    using r(4,9) i(2) unfolding ctl_ok_def by auto
  moreover have "same_data q (q\<lparr>q_list := cl, q_ctl := ctl\<rparr>) (dom Hd)"
    using same_data_payload cl(3) r(9) by simp
  ultimately show ?thesis using cl(1) ctl(1) by (simp add: release_chunk_def)
qed

lemma alloc_block_rep:
  assumes "shm_rep obj addr p n q Q Hd" "allocate_node (q_list q) = Some (cl, Some i)"
    "list_ok cl fs (map fst Q) (insert i (dom Hd))" "cl_nodes cl = cl_nodes (q_list q)" "i < length (cl_nodes cl)"
    "live_ok (cl_nodes cl) L (fst ` set Q \<union> dom Hd)" "i \<notin> fst ` set Q \<union> dom Hd" "L a = None"
    "ob_inv obj addr p n (q_ctl q) ctl (L(a \<mapsto> sz))"
  defines "ns \<equiv> (cl_nodes cl)[i := (cl_nodes cl ! i)\<lparr>ck_data := a, ck_size := sz\<rparr>]"
  shows "shm_rep obj addr p n (q\<lparr>q_list := cl\<lparr>cl_nodes := ns\<rparr>, q_ctl := ctl\<rparr>) Q (Hd(i \<mapsto> mem_read (q_mem q) a sz))"
    (is "shm_rep _ _ _ _ ?q Q ?H")
proof (rule shm_repI)
  obtain fs' L' where r: "list_ok (q_list q) fs' (map fst Q) (dom Hd)" "live_ok (cl_nodes (q_list q)) L' (fst ` set Q \<union> dom Hd)"
    "ob_inv obj addr p n (q_ctl q) (q_ctl q) L'" "ctl_ok q obj" "q_buf_size q = p" "p \<le> 2 ^ 63"
    "\<And>i bs. (i, bs) \<in> set Q \<Longrightarrow> chunk_bytes q i = bs" "\<And>i bs. Hd i = Some bs \<Longrightarrow> chunk_bytes q i = bs"
    "fst ` set Q \<union> dom Hd \<subseteq> {..<length (cl_nodes (q_list q))}" using shm_repE [OF assms(1)] by blast
  have keep: "chunk_bytes ?q j = chunk_bytes q j" if "j \<in> fst ` set Q \<union> dom Hd" for j
  proof -
    have "i \<noteq> j" using that assms(7) by blast
    then show ?thesis using assms(4) by (simp add: chunk_bytes_def Let_def ns_def)
  qed
  have "chain ns x is = chain (cl_nodes cl) x is" for x "is" unfolding ns_def by (rule chain_same_next) simp
  then show "list_ok (q_list ?q) fs (map fst Q) (dom ?H)" using assms(3) by (simp add: list_ok_def ns_def)
  show "live_ok (cl_nodes (q_list ?q)) (L(a \<mapsto> sz)) (fst ` set Q \<union> dom ?H)"
    using live_ok_alloc [OF assms(6,7,5,8), of sz] r(9) assms(4) by (simp add: ns_def)
  show "ob_inv obj addr p n (q_ctl q) (q_ctl ?q) (L(a \<mapsto> sz))" using assms(9) by simp
  show "ctl_ok ?q obj" by (rule ctl_ok_keeps [OF r(4) ob_inv_front [OF assms(9)]])
  show "q_buf_size ?q = p" "p \<le> 2 ^ 63" using r by simp_all
  show "chunk_bytes ?q j = b" if "(j, b) \<in> set Q" for j b using that keep [of j] r(7) by force
  show "chunk_bytes ?q j = b" if "?H j = Some b" for j b
    using that keep [of j] r(8) assms(5) by (auto split: if_splits simp: chunk_bytes_def Let_def ns_def)
qed

lemma allocate_ok:
  assumes "shm_rep obj addr p n q Q Hd" "sz \<le> p"
  shows "(\<exists>q'. shm_allocate q sz = Some (q', None) \<and> shm_rep obj addr p n q' Q Hd \<and> same_data q q' (dom Hd)) \<or>
    (\<exists>q' i a. shm_allocate q sz = Some (q', Some (i, a)) \<and> i \<notin> fst ` set Q \<union> dom Hd \<and> same_data q q' (dom Hd) \<and>
       ck_data (cl_nodes (q_list q') ! i) = a \<and> shm_rep obj addr p n q' Q (Hd(i \<mapsto> mem_read (q_mem q') a sz)))"
proof -
  obtain fs L where r: "list_ok (q_list q) fs (map fst Q) (dom Hd)" "live_ok (cl_nodes (q_list q)) L (fst ` set Q \<union> dom Hd)"
    "ob_inv obj addr p n (q_ctl q) (q_ctl q) L" "ctl_ok q obj" "q_buf_size q = p" "p \<le> 2 ^ 63"
    "\<And>i bs. (i, bs) \<in> set Q \<Longrightarrow> chunk_bytes q i = bs" "\<And>i bs. Hd i = Some bs \<Longrightarrow> chunk_bytes q i = bs"
    "fst ` set Q \<union> dom Hd \<subseteq> {..<length (cl_nodes (q_list q))}" using shm_repE [OF assms(1)] by blast
  have sz: "sz \<le> q_buf_size q" "sz \<le> 2 ^ 63" using assms(2) r(5,6) by simp_all
  have obj: "ptr_address (q_ctl q) 4 = Some obj" using r(4) by (simp add: ctl_ok_def)
  show ?thesis
  proof (cases fs)
    case Nil
    then have "allocate_node (q_list q) = Some (q_list q, None)" using allocate_node_none r(1) by blast
    then show ?thesis using sz(1) assms(1) by (simp add: shm_allocate_def try_allocate_def same_data_def)
  next
    case (Cons i fs')
    obtain cl where cl: "allocate_node (q_list q) = Some (cl, Some i)" "list_ok cl fs' (map fst Q) (insert i (dom Hd))"
      "cl_nodes cl = cl_nodes (q_list q)" "i < length (cl_nodes cl)" "i \<notin> dom Hd"
      using allocate_node_some r(1) Cons by metis
    have iB: "i \<notin> fst ` set Q \<union> dom Hd" using r(1) Cons unfolding list_ok_def by auto
    consider (null) ctl where "ob_allocate (q_ctl q) obj sz = Some (ctl, 0)" "ob_inv obj addr p n (q_ctl q) ctl L"
      | (block) ctl a where "a \<noteq> 0" "ob_allocate (q_ctl q) obj sz = Some (ctl, a)" "L a = None"
          "ob_inv obj addr p n (q_ctl q) ctl (L(a \<mapsto> sz))"
      using ob_pool.alloc_cases [OF r(3) sz(2)] by blast
    then show ?thesis
    proof cases
      case null
      obtain cl' where cl': "deallocate_node cl i = Some cl'" "list_ok cl' (i # fs') (map fst Q) (dom Hd)"
        "same_payload (cl_nodes (q_list q)) (cl_nodes cl')"
        using deallocate_node_ok [OF cl(2), of i] cl(3,5) by auto
      have "shm_rep obj addr p n (q\<lparr>q_list := cl', q_ctl := ctl\<rparr>) Q Hd"
        by (rule shm_rep_relist [OF assms(1) cl'(2,3) null(2) r(2) r(9) r(7) r(8)])
      moreover have "same_data q (q\<lparr>q_list := cl', q_ctl := ctl\<rparr>) (dom Hd)"
        using same_data_payload cl'(3) r(9) by simp
      ultimately show ?thesis using sz(1) cl(1) obj null(1) cl'(1) by (simp add: shm_allocate_def try_allocate_def)
    next
      case block
      note rep = alloc_block_rep [OF assms(1) cl(1-4) r(2) [folded cl(3)] iB block(3,4)]
      have "ck_data ((cl_nodes cl)[i := x] ! j) = ck_data (cl_nodes (q_list q) ! j)" if "j \<in> dom Hd" for x j
        using that iB cl(3) by (cases "i = j") auto
      then show ?thesis using rep sz(1) cl(1,4) obj block(1,2) iB
        by (simp add: shm_allocate_def try_allocate_def same_data_def)
    qed
  qed
qed

lemma write_ok:
  assumes "shm_rep obj addr p n q Q Hd" "Hd i = Some bs" "length bs' = length bs"
  shows "shm_rep obj addr p n (q\<lparr>q_mem := mem_write (q_mem q) (ck_data (cl_nodes (q_list q) ! i)) bs'\<rparr>) Q (Hd(i \<mapsto> bs'))"
    (is "shm_rep obj addr p n ?q Q ?H")
proof -
  obtain fs L where r: "list_ok (q_list q) fs (map fst Q) (dom Hd)" "live_ok (cl_nodes (q_list q)) L (fst ` set Q \<union> dom Hd)"
    "ob_inv obj addr p n (q_ctl q) (q_ctl q) L" "ctl_ok q obj" "q_buf_size q = p" "p \<le> 2 ^ 63"
    "\<And>i bs. (i, bs) \<in> set Q \<Longrightarrow> chunk_bytes q i = bs" "\<And>i bs. Hd i = Some bs \<Longrightarrow> chunk_bytes q i = bs"
    "fst ` set Q \<union> dom Hd \<subseteq> {..<length (cl_nodes (q_list q))}" using shm_repE [OF assms(1)] by blast
  let ?B = "fst ` set Q \<union> dom Hd" and ?ns = "cl_nodes (q_list q)"
  have i: "i \<in> dom Hd" "i \<in> ?B" using assms(2) by blast+
  have nq: "i \<notin> fst ` set Q" using held_bound [OF r(1) i(1)] by auto
  have si: "ck_size (?ns ! i) = length bs'"
    using r(8) [OF assms(2)] assms(3) length_mem_read unfolding chunk_bytes_def Let_def by metis
  have live: "L (ck_data (?ns ! j)) = Some (ck_size (?ns ! j))" if "j \<in> ?B" for j
    using r(2) that unfolding live_ok_def by blast
  have keep: "chunk_bytes ?q j = chunk_bytes q j" if "j \<in> ?B" "j \<noteq> i" for j
  proof -
    have "ck_data (?ns ! i) \<noteq> ck_data (?ns ! j)" using r(2) i(2) that unfolding live_ok_def by (auto dest: inj_onD)
    then show ?thesis using ob_pool.write_isolated [OF r(3) live [OF i(2), unfolded si] live [OF that(1)]]
      by (simp add: chunk_bytes_def Let_def)
  qed
  show ?thesis
  proof (rule shm_repI)
    show "list_ok (q_list ?q) fs (map fst Q) (dom ?H)" using r(1) i(1) by (simp add: insert_absorb)
    show "live_ok (cl_nodes (q_list ?q)) L (fst ` set Q \<union> dom ?H)" using r(2) i(1) by (simp add: insert_absorb)
    show "ob_inv obj addr p n (q_ctl q) (q_ctl ?q) L" "ctl_ok ?q obj" using r(3,4) by (simp_all add: ctl_ok_def)
    show "chunk_bytes ?q j = b" if "(j, b) \<in> set Q" for j b
      using that nq keep [of j] r(7) by force
    show "chunk_bytes ?q j = b" if "?H j = Some b" for j b
      using that keep [of j] r(8) si by (auto split: if_splits simp: chunk_bytes_def Let_def)
  qed (use r in simp_all)
qed

lemma enqueue_msg_ok:
  assumes "shm_rep obj addr p n q Q Hd" "length msg \<le> p"
  shows "\<exists>q'. (shm_enqueue_msg q msg = Some (q', False) \<and> shm_rep obj addr p n q' Q Hd \<and> same_data q q' (dom Hd)) \<or>
    (shm_enqueue_msg q msg = Some (q', True) \<and> (\<exists>i. shm_rep obj addr p n q' (Q @ [(i, msg)]) Hd) \<and> same_data q q' (dom Hd))"
proof -
  consider (no) q' where "shm_allocate q (length msg) = Some (q', None)" "shm_rep obj addr p n q' Q Hd" "same_data q q' (dom Hd)"
    | (yes) q' i a where "shm_allocate q (length msg) = Some (q', Some (i, a))" "i \<notin> fst ` set Q \<union> dom Hd"
      "ck_data (cl_nodes (q_list q') ! i) = a" "shm_rep obj addr p n q' Q (Hd(i \<mapsto> mem_read (q_mem q') a (length msg)))"
      "same_data q q' (dom Hd)"
    using allocate_ok [OF assms] by blast
  then show ?thesis
  proof cases
    case no
    then show ?thesis by (auto simp: shm_enqueue_msg_def)
  next
    case yes
    let ?q = "q'\<lparr>q_mem := mem_write (q_mem q') a msg\<rparr>"
    have w: "shm_rep obj addr p n ?q Q (Hd(i \<mapsto> msg))"
      using write_ok [OF yes(4), of i "mem_read (q_mem q') a (length msg)" msg] yes(3) by simp
    obtain q2 where q2: "shm_enqueue ?q i = Some q2" "shm_rep obj addr p n q2 (Q @ [(i, msg)]) ((Hd(i \<mapsto> msg))(i := None))"
      "same_data ?q q2 (dom (Hd(i \<mapsto> msg)))"
      using enqueue_ok [OF w, of i msg] by auto
    moreover have "(Hd(i \<mapsto> msg))(i := None) = Hd" using yes(2) by auto
    moreover have "same_data q q2 (dom Hd)" using yes(5) q2(3) by (simp add: same_data_def)
    ultimately show ?thesis using yes(1) by (auto simp: shm_enqueue_msg_def)
  qed
qed

end
