(* ===== verification/ShmTop.thy ===== *)
theory ShmTop
  imports ShmSpec
begin

text \<open>
  The queue from its creation on: \<open>init\<close> establishes the representation, and any interleaving of senders and
  receivers sees a first-in first-out queue whose messages arrive unchanged.
\<close>

section \<open>Creation\<close>

lemma num_order_bound: "0 < compute_num_order p m \<Longrightarrow> 2 ^ (compute_num_order p m - 1) * m \<le> p"
proof (induction p m rule: compute_num_order.induct)
  case (1 p m)
  show ?case
  proof (cases "0 < m \<and> m \<le> p")
    case True
    then have c: "compute_num_order p m = Suc (compute_num_order (p div 2) m)" by (subst compute_num_order.simps) simp
    show ?thesis
    proof (cases "compute_num_order (p div 2) m")
      case 0
      then show ?thesis using c True by simp
    next
      case (Suc k)
      then have "2 ^ k * m \<le> p div 2" using 1 True by simp
      then have "2 * (2 ^ k * m) \<le> p" by linarith
      then show ?thesis using c Suc by (simp add: mult.assoc)
    qed
  next
    case False
    then have "compute_num_order p m = 0" by (subst compute_num_order.simps) auto
    then show ?thesis using 1 by simp
  qed
qed

text \<open>Below one gigabyte every number of megabytes is a valid pool size.\<close>

lemma num_order_ok:
  assumes "0 < k" "k < 1024"
  defines "p \<equiv> k * 2 ^ 20"
  shows "pool_ok p (compute_num_order p 512)" "compute_num_order p 512 \<le> 21" "0 < compute_num_order p 512"
proof -
  let ?n = "compute_num_order p 512"
  have "512 \<le> p" using assms by simp
  then show pos: "0 < ?n" by (subst compute_num_order.simps) simp
  have "2 ^ (?n - 1) * 512 \<le> p" by (rule num_order_bound [OF pos])
  also have "p < 1024 * 2 ^ 20" using assms by simp
  also have "1024 * 2 ^ 20 = (2 :: nat) ^ 21 * 512" by simp
  finally have "(2 :: nat) ^ (?n - 1) < 2 ^ 21" by simp
  then have le: "?n - 1 < 21" by (rule power_less_imp_less_exp [rotated]) simp
  then show "?n \<le> 21" by simp
  have "(2 :: nat) ^ (?n - 1) dvd 2 ^ 20" using le by (intro le_imp_power_dvd) simp
  then show "pool_ok p ?n" using pos assms by (simp add: pool_ok_def)
qed

lemma build_control_block_ok:
  assumes "0 < k" "k < 1024" "0 < a" "a < 2 ^ 64"
  defines "p \<equiv> k * 2 ^ 20"
  shows "\<exists>cb obj. build_control_block p a = Some cb \<and> 48 \<le> obj \<and> ptr_address cb 4 = Some obj \<and>
    ob_rep cb obj (buddy_new a p (compute_num_order p 512)) \<and> 8 \<le> length cb"
proof -
  let ?n = "compute_num_order p 512"
  note no = num_order_ok [OF assms(1,2), folded p_def]
  obtain o1 where o1: "builder_allocate 48 8 1 [] = Some (int o1, replicate (o1 + 48) 0)" "o1 < 8" "8 dvd o1"
    using builder_allocate_ok [of "[]" 48 1] by auto
  then have "o1 = 0" by auto
  let ?b = "replicate 48 0 :: buffer"
  have "(2 :: nat) ^ ?n \<le> 2 ^ 21" using no(2) by (intro power_increasing) simp_all
  then have "length ?b + 64 + 8 * 2 ^ ?n < 2 ^ 31" by simp
  moreover have "p < 2 ^ 64" using assms by simp
  ultimately obtain obj cb where c: "ob_create ?b a p ?n = Some (obj, cb)" "ob_rep cb obj (buddy_new a p ?n)"
    "48 \<le> obj" "obj < 56" using ob_create_ok [of ?b ?n a p] no(3) assms(4) by auto
  have "0 \<le> obj \<and> nat obj + 1 \<le> length cb" using c(2) ld_Some_range unfolding ob_rep_def ob_head_def by blast
  then have len: "8 \<le> length cb" using c(3) by linarith
  have tr: "trunc32 x < 256 ^ 4" for x unfolding trunc32_def by (simp add: nat_less_iff)
  obtain cb' where s: "st 4 cb 4 (trunc32 (obj - 4)) = Some cb'" "ld 4 cb' 4 = Some (trunc32 (obj - 4))"
    "same_outside cb cb' 4 (4 + int 4)" using st_ok [of 4 4 cb "trunc32 (obj - 4)"] len tr [of "obj - 4"] by auto
  have "sext32 (trunc32 (obj - 4)) = obj - 4" using c(3,4) by (intro sext_trunc) simp_all
  then have "ptr_address cb' 4 = Some obj" using s(2) by (simp add: ptr_address_def)
  moreover have "ob_rep cb' obj (buddy_new a p ?n)" using ob_rep_after [OF c(2) s(3)] c(3) by simp
  moreover have "length cb' = length cb" using s(3) by (simp add: same_outside_def)
  moreover have "build_control_block p a = Some cb'"
    using o1(1) \<open>o1 = 0\<close> c(1) s(1)
    by (simp add: build_control_block_def kMinBlockSize_def update_object_pointer_member_def Let_def)
  ultimately show ?thesis using c(3) len by auto
qed

lemma shm_init_ok:
  assumes "0 < cap" "cap < 2 ^ 31" "0 < k" "k < 1024" "0 < a" "a < 2 ^ 64"
  defines "p \<equiv> k * 2 ^ 20"
  shows "\<exists>q obj. shm_init cap k (Some a) True = Some (Some q) \<and>
    shm_rep obj a p (compute_num_order p 512) q [] Map.empty \<and> ld 4 (q_ctl q) 0 = Some (trunc32 (- 1))"
proof -
  let ?n = "compute_num_order p 512" and ?s = "buddy_new a p (compute_num_order p 512)"
  note no = num_order_ok [OF assms(3,4), folded p_def]
  have "sext32 (cap mod 2 ^ 32) = int cap"
    using assms(2) by (simp add: sext32_def signed_take_bit_int_eq_self)
  then obtain cl where cl: "chunk_list_init (sext32 (cap mod 2 ^ 32)) = Some cl"
    using assms(1) by (simp add: chunk_list_init_def)
  obtain cb obj where cb: "build_control_block p a = Some cb" "48 \<le> obj" "ptr_address cb 4 = Some obj"
    "ob_rep cb obj ?s" "8 \<le> length cb" using build_control_block_ok [OF assms(3-6)] unfolding p_def by blast
  let ?b = "cb @ replicate (shm_aligned_size (length cb) 4096 - length cb) 0"
  have rep: "ob_rep ?b obj ?s" using ob_rep_shift [OF cb(4), of "[]"] by simp
  obtain v where v: "ld 4 cb 4 = Some v" "obj = 4 + sext32 v" using cb(3) by (auto simp: ptr_address_def)
  then have pa: "ptr_address ?b 4 = Some obj" using ld_shift [OF v(1), of "[]"] by (simp add: ptr_address_def)
  let ?q0 = "\<lparr>q_list = cl, q_ctl = ?b, q_mem = (\<lambda>_. 0), q_buf_size = p\<rparr>"
  have "\<exists>c. ld 4 ?b 0 = Some c" using cb(5) by (simp add: ld_def)
  then have c0: "ctl_ok ?q0 obj" using cb(2) pa by (simp add: ctl_ok_def)
  have "live_inv a p ?n ?s Map.empty (\<lambda>_. 0)" using buddy_new_inv [OF no(1) assms(5)] by (simp add: live_inv_def)
  then have i0: "ob_inv obj a p ?n (q_ctl ?q0) (q_ctl ?q0) Map.empty"
    using rep unfolding ob_inv_def keeps_front_def by auto
  obtain ctl where ctl: "st 4 ?b 0 (trunc32 (- 1)) = Some ctl" "ctl_ok (?q0\<lparr>q_ctl := ctl\<rparr>) obj"
    "ob_inv obj a p ?n ctl ctl Map.empty" "ld 4 ctl 0 = Some (trunc32 (- 1))"
    using count_store [OF c0 i0, of "- 1"] by auto
  let ?q = "\<lparr>q_list = cl, q_ctl = ctl, q_mem = (\<lambda>_. 0), q_buf_size = p\<rparr>"
  have "shm_rep obj a p ?n ?q [] Map.empty"
  proof (rule shm_repI)
    show "list_ok (q_list ?q) [0..<nat (sext32 (cap mod 2 ^ 32))] (map fst []) (dom Map.empty)"
      using list_ok_init [OF cl] by simp
    show "live_ok (cl_nodes (q_list ?q)) Map.empty (fst ` set [] \<union> dom Map.empty)" by (simp add: live_ok_def)
    show "ob_inv obj a p ?n ctl (q_ctl ?q) Map.empty" "ctl_ok ?q obj" using ctl(2,3) by simp_all
    show "p \<le> 2 ^ 63" using assms(4) by (simp add: p_def)
  qed simp_all
  moreover have "k * 1024 * 1024 mod 2 ^ 64 = p" using assms(4) by (simp add: p_def)
  then have "shm_init cap k (Some a) True = Some (Some ?q)"
    using cl cb(1) ctl(1) by (simp add: shm_init_def Let_def)
  ultimately show ?thesis using ctl(4) by auto
qed

section \<open>Clients\<close>

text \<open>
  What the clients of a queue do, in any order: send a message (one round of the blocking loop), take the next
  message out, look at the \<open>k\<close>-th message that is taken and not released, release it. \<open>held\<close> lists the taken
  messages: chunk, address and size.
\<close>

datatype shm_op = Send "8 word list" | Take | Look nat | Release nat
datatype shm_out = Sent bool | Taken "8 word list option" | Seen "8 word list" | Released

definition drop_nth :: "nat \<Rightarrow> 'a list \<Rightarrow> 'a list" where
  "drop_nth k xs = take k xs @ drop (Suc k) xs"

fun shm_client :: "shm_op \<Rightarrow> shmq \<Rightarrow> (nat \<times> nat \<times> nat) list \<Rightarrow> (shmq \<times> (nat \<times> nat \<times> nat) list \<times> shm_out) option" where
  "shm_client (Send msg) q held = map_option (\<lambda>(q, b). (q, held, Sent b)) (shm_enqueue_msg q msg)"
| "shm_client Take q held =
     map_option (\<lambda>(q, st, i, a, n). if st = Shm_ok then (q, held @ [(i, a, n)], Taken (Some (mem_read (q_mem q) a n)))
         else (q, held, Taken None)) (shm_dequeue 1 q)"
| "shm_client (Look k) q held = (case held ! k of (i, a, n) \<Rightarrow> Some (q, held, Seen (mem_read (q_mem q) a n)))"
| "shm_client (Release k) q held =
     (case held ! k of (i, a, n) \<Rightarrow> map_option (\<lambda>q. (q, drop_nth k held, Released)) (release_chunk q i))"

text \<open>The abstract queue, and the operations that are allowed in a state of it.\<close>

fun fifo_step :: "8 word list list \<Rightarrow> 8 word list list \<Rightarrow> shm_op \<Rightarrow> shm_out \<Rightarrow> (8 word list list \<times> 8 word list list) option" where
  "fifo_step Q H (Send msg) (Sent b) = Some (if b then Q @ [msg] else Q, H)"
| "fifo_step (m # Q) H Take (Taken (Some r)) = (if r = m then Some (Q, H @ [m]) else None)"
| "fifo_step [] H Take (Taken None) = Some ([], H)"
| "fifo_step Q H (Look k) (Seen r) = (if r = H ! k then Some (Q, H) else None)"
| "fifo_step Q H (Release k) Released = Some (Q, drop_nth k H)"
| "fifo_step Q H _ _ = None"

fun op_allowed :: "nat \<Rightarrow> 8 word list list \<Rightarrow> shm_op \<Rightarrow> bool" where
  "op_allowed limit H (Send msg) = (length msg \<le> limit)"
| "op_allowed limit H Take = True"
| "op_allowed limit H (Look k) = (k < length H)"
| "op_allowed limit H (Release k) = (k < length H)"

text \<open>A run checks every step against the abstract queue; it ends when an operation is not allowed.\<close>

fun shm_run :: "shm_op list \<Rightarrow> shmq \<Rightarrow> (nat \<times> nat \<times> nat) list \<Rightarrow> 8 word list list \<Rightarrow> 8 word list list \<Rightarrow> bool" where
  "shm_run [] q held Q H = True"
| "shm_run (x # ops) q held Q H =
     (op_allowed (q_buf_size q) H x \<longrightarrow>
        (case shm_client x q held of None \<Rightarrow> False | Some (q', held', out) \<Rightarrow>
          (case fifo_step Q H x out of None \<Rightarrow> False | Some (Q', H') \<Rightarrow> shm_run ops q' held' Q' H')))"

text \<open>The link between the two: taken chunks are held, with their address, and hold their message.\<close>

definition shm_sim :: "int \<Rightarrow> nat \<Rightarrow> nat \<Rightarrow> nat \<Rightarrow> shmq \<Rightarrow> (nat \<times> nat \<times> nat) list \<Rightarrow> 8 word list list \<Rightarrow> 8 word list list \<Rightarrow> bool" where
  "shm_sim obj addr p n q held Q H \<longleftrightarrow>
     (\<exists>R. map snd R = Q \<and> length held = length H \<and> distinct (map fst held) \<and>
        shm_rep obj addr p n q R (map_of (zip (map fst held) H)) \<and>
        (\<forall>k<length H. snd (held ! k) = (ck_data (cl_nodes (q_list q) ! fst (held ! k)), length (H ! k))))"

end
