(* ===== verification/ShmFifo.thy ===== *)
theory ShmFifo
  imports ShmTop
begin

text \<open>Every step of the clients agrees with the abstract queue.\<close>

section \<open>The held messages as a map\<close>

lemma map_of_drop_nth:
  assumes "distinct (map fst zs)" "k < length zs"
  shows "map_of (drop_nth k zs) = (map_of zs)(fst (zs ! k) := None)"
proof
  fix x
  have zs: "zs = take k zs @ zs ! k # drop (Suc k) zs" using assms(2) by (rule id_take_nth_drop)
  define A B z where "A = take k zs" and "B = drop (Suc k) zs" and "z = zs ! k"
  have eq: "zs = A @ z # B" using zs unfolding A_def B_def z_def .
  have "fst z \<notin> fst ` set A" "fst z \<notin> fst ` set B" using assms(1) unfolding eq by auto
  then have "map_of A (fst z) = None" "map_of B (fst z) = None" by (simp_all add: map_of_eq_None_iff)
  then show "map_of (drop_nth k zs) x = ((map_of zs)(fst (zs ! k) := None)) x"
    unfolding drop_nth_def A_def [symmetric] B_def [symmetric] z_def [symmetric]
    by (subst eq) (cases z, auto simp: map_add_def split: option.splits)
qed

lemma drop_nth_zip: "length xs = length ys \<Longrightarrow> drop_nth k (zip xs ys) = zip (drop_nth k xs) (drop_nth k ys)"
  by (simp add: drop_nth_def take_zip drop_zip)

lemma map_drop_nth: "map f (drop_nth k xs) = drop_nth k (map f xs)"
  by (simp add: drop_nth_def take_map drop_map)

lemma length_drop_nth: "k < length xs \<Longrightarrow> length (drop_nth k xs) = length xs - 1"
  by (simp add: drop_nth_def)

lemma nth_drop_nth: "j < length xs - 1 \<Longrightarrow> k < length xs \<Longrightarrow> drop_nth k xs ! j = xs ! (if j < k then j else Suc j)"
  by (auto simp: drop_nth_def nth_append)

lemma distinct_drop_nth: "distinct xs \<Longrightarrow> distinct (drop_nth k xs)"
  using set_take_disj_set_drop_if_distinct [of xs k "Suc k"] by (auto simp: drop_nth_def)

definition held_map :: "(nat \<times> nat \<times> nat) list \<Rightarrow> 8 word list list \<Rightarrow> (nat \<rightharpoonup> 8 word list)" where
  "held_map held H = map_of (zip (map fst held) H)"

lemma held_map_nth:
  "distinct (map fst held) \<Longrightarrow> length held = length H \<Longrightarrow> k < length H \<Longrightarrow> held_map held H (fst (held ! k)) = Some (H ! k)"
  unfolding held_map_def using map_of_zip_nth [of "map fst held" H k] by simp

lemma dom_held_map: "length held = length H \<Longrightarrow> dom (held_map held H) = fst ` set held"
  unfolding held_map_def by simp

lemma held_map_snoc:
  assumes "length held = length H" "i \<notin> fst ` set held"
  shows "held_map (held @ [(i, a, n)]) (H @ [m]) = (held_map held H)(i \<mapsto> m)"
proof -
  have "held_map held H i = None" using dom_held_map [OF assms(1)] assms(2) by blast
  moreover have "held_map (held @ [(i, a, n)]) (H @ [m]) = map_of [(i, m)] ++ held_map held H"
    using assms(1) unfolding held_map_def by simp
  ultimately show ?thesis by (auto simp: map_add_def split: option.splits)
qed

lemma held_map_drop:
  assumes "distinct (map fst held)" "length held = length H" "k < length H"
  shows "held_map (drop_nth k held) (drop_nth k H) = (held_map held H)(fst (held ! k) := None)"
proof -
  let ?z = "zip (map fst held) H"
  have "map fst ?z = map fst held" using assms(2) by (simp add: map_fst_zip)
  then have "map_of (drop_nth k ?z) = (map_of ?z)(fst (?z ! k) := None)"
    using assms by (intro map_of_drop_nth) simp_all
  moreover have "drop_nth k ?z = zip (map fst (drop_nth k held)) (drop_nth k H)"
    using assms(2) by (simp add: drop_nth_zip map_drop_nth)
  ultimately show ?thesis using assms(2,3) by (simp add: held_map_def)
qed

section \<open>Steps\<close>

lemma shm_simE:
  assumes "shm_sim obj addr p n q held Q H"
  obtains R where "map snd R = Q" "length held = length H" "distinct (map fst held)"
    "shm_rep obj addr p n q R (held_map held H)"
    "\<And>k. k < length H \<Longrightarrow> snd (held ! k) = (ck_data (cl_nodes (q_list q) ! fst (held ! k)), length (H ! k))"
  using assms unfolding shm_sim_def held_map_def by blast

lemma shm_simI:
  assumes "map snd R = Q" "length held = length H" "distinct (map fst held)" "shm_rep obj addr p n q R (held_map held H)"
    "\<And>k. k < length H \<Longrightarrow> snd (held ! k) = (ck_data (cl_nodes (q_list q) ! fst (held ! k)), length (H ! k))"
  shows "shm_sim obj addr p n q held Q H"
  using assms unfolding shm_sim_def held_map_def by blast

lemma data_kept:
  assumes "\<And>k. k < length H \<Longrightarrow> snd (held ! k) = (ck_data (cl_nodes (q_list q) ! fst (held ! k)), length (H ! k))"
    "same_data q q' (fst ` set held)" "length held = length H" "k < length H"
  shows "snd (held ! k) = (ck_data (cl_nodes (q_list q') ! fst (held ! k)), length (H ! k))"
proof -
  have "held ! k \<in> set held" using assms(3,4) by simp
  then show ?thesis using assms(1) [OF assms(4)] assms(2) unfolding same_data_def by auto
qed

lemma send_step:
  assumes "shm_sim obj addr p n q held Q H" "length msg \<le> p"
  shows "\<exists>q' b. shm_enqueue_msg q msg = Some (q', b) \<and> shm_sim obj addr p n q' held (if b then Q @ [msg] else Q) H"
proof -
  obtain R where r: "map snd R = Q" "length held = length H" "distinct (map fst held)"
    "shm_rep obj addr p n q R (held_map held H)"
    "\<And>k. k < length H \<Longrightarrow> snd (held ! k) = (ck_data (cl_nodes (q_list q) ! fst (held ! k)), length (H ! k))"
    using shm_simE [OF assms(1)] by blast
  note d = dom_held_map [OF r(2)]
  obtain q' b R' where q': "shm_enqueue_msg q msg = Some (q', b)" "shm_rep obj addr p n q' R' (held_map held H)"
    "map snd R' = (if b then Q @ [msg] else Q)" "same_data q q' (fst ` set held)"
    using enqueue_msg_ok [OF r(4) assms(2)] r(1) d by fastforce
  then show ?thesis using shm_simI [OF q'(3) r(2,3) q'(2) data_kept [OF r(5) q'(4) r(2)]] by blast
qed

lemma take_step_some:
  assumes "shm_sim obj addr p n q held (m # Q) H"
  shows "\<exists>q' i a. shm_dequeue 1 q = Some (q', Shm_ok, i, a, length m) \<and> mem_read (q_mem q') a (length m) = m \<and>
    shm_sim obj addr p n q' (held @ [(i, a, length m)]) Q (H @ [m])"
proof -
  obtain R where r: "map snd R = m # Q" "length held = length H" "distinct (map fst held)"
    "shm_rep obj addr p n q R (held_map held H)"
    "\<And>k. k < length H \<Longrightarrow> snd (held ! k) = (ck_data (cl_nodes (q_list q) ! fst (held ! k)), length (H ! k))"
    using shm_simE [OF assms] by blast
  obtain i R' where R: "R = (i, m) # R'" "map snd R' = Q" using r(1) by (cases R) auto
  obtain q' a where q': "dequeue_poll q = Some (q', Some (Shm_ok, i, a, length m))" "mem_read (q_mem q') a (length m) = m"
    "shm_rep obj addr p n q' R' ((held_map held H)(i \<mapsto> m))" "cl_nodes (q_list q') = cl_nodes (q_list q)"
    "a = ck_data (cl_nodes (q_list q) ! i)" using poll_some [OF r(4) [unfolded R(1)]] by blast
  have i: "i \<notin> fst ` set held"
  proof -
    obtain fs where "list_ok (q_list q) fs (map fst ((i, m) # R')) (dom (held_map held H))"
      using r(4) [unfolded R(1)] unfolding shm_rep_def by blast
    then show ?thesis unfolding list_ok_def dom_held_map [OF r(2)] by auto
  qed
  have "shm_sim obj addr p n q' (held @ [(i, a, length m)]) Q (H @ [m])"
  proof (rule shm_simI [OF R(2)])
    show "shm_rep obj addr p n q' R' (held_map (held @ [(i, a, length m)]) (H @ [m]))"
      using q'(3) held_map_snoc [OF r(2) i] by simp
    show "snd ((held @ [(i, a, length m)]) ! k) =
        (ck_data (cl_nodes (q_list q') ! fst ((held @ [(i, a, length m)]) ! k)), length ((H @ [m]) ! k))"
      if "k < length (H @ [m])" for k
      using that r(2,5) q'(4,5) by (cases "k = length H") (simp_all add: nth_append)
  qed (use r(2,3) i in auto)
  moreover have "shm_dequeue 1 q = Some (q', Shm_ok, i, a, length m)" using q'(1) by (simp add: One_nat_def)
  ultimately show ?thesis using q'(2) by blast
qed

lemma take_step_none:
  assumes "shm_sim obj addr p n q held [] H"
  shows "\<exists>s. shm_dequeue 1 q = Some (q, s, 0, 0, 0) \<and> s \<noteq> Shm_ok"
proof -
  have r: "shm_rep obj addr p n q [] (held_map held H)" using shm_simE [OF assms] by (metis Nil_is_map_conv)
  then obtain c where "ld 4 (q_ctl q) 0 = Some c" unfolding shm_rep_def ctl_ok_def by blast
  from poll_none [OF r this] show ?thesis by (auto simp: One_nat_def)
qed

lemma look_step:
  assumes "shm_sim obj addr p n q held Q H" "k < length H" "held ! k = (i, a, l)"
  shows "mem_read (q_mem q) a l = H ! k"
proof -
  obtain R where r: "map snd R = Q" "length held = length H" "distinct (map fst held)"
    "shm_rep obj addr p n q R (held_map held H)"
    "\<And>k. k < length H \<Longrightarrow> snd (held ! k) = (ck_data (cl_nodes (q_list q) ! fst (held ! k)), length (H ! k))"
    using shm_simE [OF assms(1)] by blast
  have "held_map held H i = Some (H ! k)" using held_map_nth [OF r(3,2) assms(2)] assms(3) by simp
  then have "chunk_bytes q i = H ! k" using r(4) unfolding shm_rep_def by blast
  then show ?thesis using r(5) [OF assms(2)] assms(3) length_mem_read unfolding chunk_bytes_def Let_def by (metis fst_conv snd_conv)
qed

lemma release_step:
  assumes "shm_sim obj addr p n q held Q H" "k < length H" "held ! k = (i, a, l)"
  shows "\<exists>q'. release_chunk q i = Some q' \<and> shm_sim obj addr p n q' (drop_nth k held) Q (drop_nth k H)"
proof -
  obtain R where r: "map snd R = Q" "length held = length H" "distinct (map fst held)"
    "shm_rep obj addr p n q R (held_map held H)"
    "\<And>k. k < length H \<Longrightarrow> snd (held ! k) = (ck_data (cl_nodes (q_list q) ! fst (held ! k)), length (H ! k))"
    using shm_simE [OF assms(1)] by blast
  have "held_map held H i = Some (H ! k)" using held_map_nth [OF r(3,2) assms(2)] assms(3) by simp
  then obtain q' where q': "release_chunk q i = Some q'" "shm_rep obj addr p n q' R ((held_map held H)(i := None))"
    "same_data q q' (fst ` set held)" using release_ok [OF r(4)] dom_held_map [OF r(2)] by metis
  note dk = data_kept [OF r(5) q'(3) r(2)]
  have "shm_sim obj addr p n q' (drop_nth k held) Q (drop_nth k H)"
  proof (rule shm_simI [OF r(1)])
    show "length (drop_nth k held) = length (drop_nth k H)" using r(2) assms(2) by (simp add: length_drop_nth)
    show "distinct (map fst (drop_nth k held))" using r(3) by (simp add: map_drop_nth distinct_drop_nth)
    show "shm_rep obj addr p n q' R (held_map (drop_nth k held) (drop_nth k H))"
      using q'(2) held_map_drop [OF r(3,2) assms(2)] assms(3) by simp
    show "snd (drop_nth k held ! j) =
        (ck_data (cl_nodes (q_list q') ! fst (drop_nth k held ! j)), length (drop_nth k H ! j))"
      if "j < length (drop_nth k H)" for j
      using that dk [of j] dk [of "Suc j"] assms(2) r(2)
      by (cases "j < k") (simp_all add: length_drop_nth nth_drop_nth)
  qed
  then show ?thesis using q'(1) by blast
qed

section \<open>The queue is first in, first out\<close>

lemma shm_client_step:
  assumes "shm_sim obj addr p n q held Q H" "op_allowed (q_buf_size q) H x"
  shows "\<exists>q' held' out Q' H'. shm_client x q held = Some (q', held', out) \<and> fifo_step Q H x out = Some (Q', H') \<and>
    shm_sim obj addr p n q' held' Q' H'"
proof (cases x)
  case (Send msg)
  have "q_buf_size q = p" using shm_simE [OF assms(1)] unfolding shm_rep_def by metis
  then have "length msg \<le> p" using assms(2) Send by simp
  then obtain q' b where "shm_enqueue_msg q msg = Some (q', b)" "shm_sim obj addr p n q' held (if b then Q @ [msg] else Q) H"
    using send_step [OF assms(1)] by blast
  then show ?thesis using Send by (intro exI [of _ q'] exI [of _ held] exI [of _ "Sent b"]) simp
next
  case Take
  show ?thesis
  proof (cases Q)
    case Nil
    then show ?thesis using take_step_none assms(1) Take by fastforce
  next
    case (Cons m Q')
    obtain q' i a where "shm_dequeue 1 q = Some (q', Shm_ok, i, a, length m)" "mem_read (q_mem q') a (length m) = m"
      "shm_sim obj addr p n q' (held @ [(i, a, length m)]) Q' (H @ [m])"
      using take_step_some [OF assms(1) [unfolded Cons]] by blast
    then show ?thesis using Take Cons by simp
  qed
next
  case (Look k)
  obtain i a l where "held ! k = (i, a, l)" using prod_cases3 by blast
  then show ?thesis using look_step [OF assms(1)] assms Look by simp
next
  case (Release k)
  obtain i a l where h: "held ! k = (i, a, l)" using prod_cases3 by blast
  then obtain q' where "release_chunk q i = Some q'" "shm_sim obj addr p n q' (drop_nth k held) Q (drop_nth k H)"
    using release_step [OF assms(1)] assms(2) Release by fastforce
  then show ?thesis using Release h by simp
qed

lemma shm_run_ok: "shm_sim obj addr p n q held Q H \<Longrightarrow> shm_run ops q held Q H"
proof (induction ops arbitrary: q held Q H)
  case (Cons x ops)
  show ?case using shm_client_step [OF Cons.prems] Cons.IH by (cases "op_allowed (q_buf_size q) H x") fastforce+
qed simp



section \<open>Closing, and messages that never fit\<close>

lemma shm_rep_count:
  assumes "shm_rep obj addr p n q Q Hd"
  shows "\<exists>ctl. st 4 (q_ctl q) 0 (trunc32 c) = Some ctl \<and> shm_rep obj addr p n (q\<lparr>q_ctl := ctl\<rparr>) Q Hd \<and>
    ld 4 ctl 0 = Some (trunc32 c)"
proof -
  obtain fs L where r: "list_ok (q_list q) fs (map fst Q) (dom Hd)" "live_ok (cl_nodes (q_list q)) L (fst ` set Q \<union> dom Hd)"
    "ob_inv obj addr p n (q_ctl q) (q_ctl q) L" "ctl_ok q obj" "q_buf_size q = p" "p \<le> 2 ^ 63"
    "\<And>i bs. (i, bs) \<in> set Q \<Longrightarrow> chunk_bytes q i = bs" "\<And>i bs. Hd i = Some bs \<Longrightarrow> chunk_bytes q i = bs"
    "fst ` set Q \<union> dom Hd \<subseteq> {..<length (cl_nodes (q_list q))}" using shm_repE [OF assms] by blast
  obtain ctl where ctl: "st 4 (q_ctl q) 0 (trunc32 c) = Some ctl" "ctl_ok (q\<lparr>q_ctl := ctl\<rparr>) obj"
    "ob_inv obj addr p n ctl ctl L" "ld 4 ctl 0 = Some (trunc32 c)" using count_store [OF r(4,3)] by blast
  have "shm_rep obj addr p n (q\<lparr>q_ctl := ctl\<rparr>) Q Hd"
    by (rule shm_repI) (use r ctl in \<open>simp_all add: chunk_bytes_def\<close>)
  then show ?thesis using ctl(1,4) by blast
qed

lemma dequeue_empty:
  assumes "shm_rep obj addr p n q [] Hd" "ld 4 (q_ctl q) 0 = Some c"
  shows "shm_dequeue k q = Some (q, if sext32 c = 0 \<and> 0 < k then Shm_closed else Shm_timeout, 0, 0, 0)"
  using poll_none [OF assms] by (induction k) auto

lemma sext_trunc_small: "sext32 (trunc32 (- 1)) = - 1" "sext32 (trunc32 (- 2)) = - 2" "sext32 (trunc32 1) = 1" "sext32 (trunc32 0) = 0"
  by (intro sext_trunc; simp)+

text \<open>
  \<open>close\<close> only counts a producer down. On a queue whose number of producers was never set, the count goes from
  -1 to -2 and \<open>dequeue\<close> never reports the queue as closed, however long it waits; after
  \<open>set_preducer_count(1)\<close>, \<open>close\<close> makes every \<open>dequeue\<close> on the empty queue return \<open>closed\<close> at once.
\<close>

lemma close_without_producers:
  assumes "0 < cap" "cap < 2 ^ 31" "0 < k" "k < 1024" "0 < a" "a < 2 ^ 64"
  shows "\<exists>q. shm_init cap k (Some a) True = Some (Some q) \<and>
    (\<exists>q1. shm_close q = Some q1 \<and> (\<forall>m. shm_dequeue m q1 = Some (q1, Shm_timeout, 0, 0, 0))) \<and>
    (\<exists>q1 q2. set_preducer_count q 1 = Some q1 \<and> shm_close q1 = Some q2 \<and>
       (\<forall>m. shm_dequeue (Suc m) q2 = Some (q2, Shm_closed, 0, 0, 0)))"
proof -
  let ?p = "k * 2 ^ 20" let ?n = "compute_num_order ?p 512"
  obtain q obj where q: "shm_init cap k (Some a) True = Some (Some q)"
    "shm_rep obj a ?p ?n q [] Map.empty" "ld 4 (q_ctl q) 0 = Some (trunc32 (- 1))" using shm_init_ok [OF assms] by blast
  obtain c1 where c1: "st 4 (q_ctl q) 0 (trunc32 (- 2)) = Some c1" "shm_rep obj a ?p ?n (q\<lparr>q_ctl := c1\<rparr>) [] Map.empty"
    "ld 4 c1 0 = Some (trunc32 (- 2))" using shm_rep_count [OF q(2)] by blast
  obtain c2 where c2: "st 4 (q_ctl q) 0 (trunc32 1) = Some c2" "shm_rep obj a ?p ?n (q\<lparr>q_ctl := c2\<rparr>) [] Map.empty"
    "ld 4 c2 0 = Some (trunc32 1)" using shm_rep_count [OF q(2)] by blast
  obtain c3 where c3: "st 4 c2 0 (trunc32 0) = Some c3" "shm_rep obj a ?p ?n (q\<lparr>q_ctl := c3\<rparr>) [] Map.empty"
    "ld 4 c3 0 = Some (trunc32 0)" using shm_rep_count [OF c2(2), of 0] by auto
  have "shm_close q = Some (q\<lparr>q_ctl := c1\<rparr>)"
    using q(3) c1(1) by (simp add: shm_close_def signal_preducing_complete_def sext_trunc_small)
  moreover have "shm_dequeue m (q\<lparr>q_ctl := c1\<rparr>) = Some (q\<lparr>q_ctl := c1\<rparr>, Shm_timeout, 0, 0, 0)" for m
    using dequeue_empty [OF c1(2)] c1(3) by (simp add: sext_trunc_small)
  moreover have "set_preducer_count q 1 = Some (q\<lparr>q_ctl := c2\<rparr>)" using c2(1) by (simp add: set_preducer_count_def)
  moreover have "shm_close (q\<lparr>q_ctl := c2\<rparr>) = Some (q\<lparr>q_ctl := c3\<rparr>)"
    using c2(3) c3(1) by (simp add: shm_close_def signal_preducing_complete_def sext_trunc_small)
  moreover have "shm_dequeue (Suc m) (q\<lparr>q_ctl := c3\<rparr>) = Some (q\<lparr>q_ctl := c3\<rparr>, Shm_closed, 0, 0, 0)" for m
    using dequeue_empty [OF c3(2), of _ "Suc m"] c3(3) by (simp add: sext_trunc_small del: shm_dequeue.simps)
  ultimately show ?thesis using q(1) by blast
qed

text \<open>The blocking loop of \<open>enqueue(msg, size)\<close> for a number of rounds.\<close>

fun enqueue_blocking :: "nat \<Rightarrow> shmq \<Rightarrow> 8 word list \<Rightarrow> (shmq \<times> bool) option" where
  "enqueue_blocking 0 q msg = Some (q, False)"
| "enqueue_blocking (Suc r) q msg =
     Option.bind (shm_enqueue_msg q msg) (\<lambda>(q, b). if b then Some (q, True) else enqueue_blocking r q msg)"

lemma too_large_null:
  assumes "ob_inv obj addr p n front buf L" "rounded_up sz = Some v" "p < v" "sz \<le> 2 ^ 63"
  shows "\<exists>buf'. ob_allocate buf obj sz = Some (buf', 0)"
proof -
  obtain s nd where s: "ob_rep buf obj s" "live_inv addr p n s L nd" using assms(1) unfolding ob_inv_def by blast
  have i: "buddy_inv s (nd ` dom L)" "pool_size s = p" using s(2) unfolding live_inv_def by blast+
  have "want s sz = max v (min_block_size s)" using assms(2) by (simp add: want_def rounded_up_to_min_block_size_def)
  then have "val (pool_size s) (num_order s) (nd ` dom L) 0 < want s sz"
    using val_le [of "pool_size s" "num_order s" "nd ` dom L" 0] i(2) assms(3) by simp
  then have "allocate s sz = Some (s, 0)" by (rule allocate_null [OF i(1) assms(4)])
  then show ?thesis using ob_allocate_sim [OF s(1)] by blast
qed

lemma too_large_waits:
  assumes "shm_rep obj addr p n q Q Hd" "length msg \<le> p" "rounded_up (length msg) = Some v" "p < v"
  shows "\<exists>q'. shm_enqueue_msg q msg = Some (q', False) \<and> shm_rep obj addr p n q' Q Hd"
proof -
  obtain L where L: "ob_inv obj addr p n (q_ctl q) (q_ctl q) L" "ptr_address (q_ctl q) 4 = Some obj" "p \<le> 2 ^ 63"
    using assms(1) unfolding shm_rep_def ctl_ok_def by blast
  obtain ctl where "ob_allocate (q_ctl q) obj (length msg) = Some (ctl, 0)"
    using too_large_null [OF L(1) assms(3,4)] assms(2) L(3) by auto
  then have "shm_allocate q (length msg) \<noteq> Some (q', Some x)" for q' x
    using L(2) by (auto simp: shm_allocate_def try_allocate_def bind_eq_Some_conv split: if_splits option.splits)
  then obtain q' where "shm_allocate q (length msg) = Some (q', None)" "shm_rep obj addr p n q' Q Hd"
    using allocate_ok [OF assms(1,2)] by blast
  then show ?thesis by (simp add: shm_enqueue_msg_def)
qed

text \<open>
  A message can pass the size check of \<open>allocate\<close> and still never be sent: when the pool is not a power of
  two and the size of the message, rounded up to one, is larger than the pool, every round of the blocking loop
  fails, on the empty queue too.
\<close>

lemma message_beyond_pool:
  assumes "0 < cap" "cap < 2 ^ 31" "0 < k" "k < 1024" "0 < a" "a < 2 ^ 64"
    "length msg \<le> k * 2 ^ 20" "rounded_up (length msg) = Some v" "k * 2 ^ 20 < v"
  shows "\<exists>q. shm_init cap k (Some a) True = Some (Some q) \<and> (\<forall>r. \<exists>q'. enqueue_blocking r q msg = Some (q', False))"
proof -
  let ?p = "k * 2 ^ 20" let ?n = "compute_num_order ?p 512"
  obtain q obj where q: "shm_init cap k (Some a) True = Some (Some q)" "shm_rep obj a ?p ?n q [] Map.empty"
    using shm_init_ok [OF assms(1-6)] by blast
  have "\<exists>q'. enqueue_blocking r x msg = Some (q', False)" if "shm_rep obj a ?p ?n x [] Map.empty" for r x
    using that
  proof (induction r arbitrary: x)
    case (Suc r)
    then show ?case using too_large_waits [OF Suc.prems assms(7-9)] by fastforce
  qed simp
  then show ?thesis using q by blast
qed

text \<open>
  C40. Two ways to wait for ever. \<open>close\<close> only counts a producer down: on a queue whose number of producers was never
  set the count goes from -1 to -2 and \<open>dequeue\<close> never reports the queue as closed, however long it waits, while after
  \<open>set_preducer_count(1)\<close> it does at once. And a message can pass the size check of \<open>allocate\<close> and still never be
  sent: when its size, rounded up to a power of two, is larger than the pool, every round of the blocking loop
  fails, on the empty queue too.
\<close>

theorem shm_waits_for_ever:
  assumes "0 < cap" "cap < 2 ^ 31" "0 < k" "k < 1024" "0 < a" "a < 2 ^ 64"
  shows "(\<exists>q. shm_init cap k (Some a) True = Some (Some q) \<and>
      (\<exists>q1. shm_close q = Some q1 \<and> (\<forall>m. shm_dequeue m q1 = Some (q1, Shm_timeout, 0, 0, 0))) \<and>
      (\<exists>q1 q2. set_preducer_count q 1 = Some q1 \<and> shm_close q1 = Some q2 \<and>
         (\<forall>m. shm_dequeue (Suc m) q2 = Some (q2, Shm_closed, 0, 0, 0)))) \<and>
    (length msg \<le> k * 2 ^ 20 \<and> rounded_up (length msg) = Some v \<and> k * 2 ^ 20 < v \<longrightarrow>
      (\<exists>q. shm_init cap k (Some a) True = Some (Some q) \<and> (\<forall>r. \<exists>q'. enqueue_blocking r q msg = Some (q', False))))"
  using close_without_producers [OF assms] message_beyond_pool [OF assms] by blast

lemma rounded_up_above: "2 ^ 21 < sz \<Longrightarrow> sz \<le> 2 ^ 31 \<Longrightarrow> \<exists>v. rounded_up sz = Some v \<and> 3 * 2 ^ 20 < v"
proof -
  assume sz: "2 ^ 21 < sz" "sz \<le> 2 ^ 31"
  obtain j where j: "rounded_up sz = Some (2 ^ j)" "sz \<le> 2 ^ j" using rounded_up_finds [of sz] sz by auto
  have "\<not> j < 22"
  proof
    assume "j < 22"
    then have "(2 :: nat) ^ j \<le> 2 ^ 21" by (intro power_increasing) simp_all
    then show False using j(2) sz by simp
  qed
  then have "(2 :: nat) ^ 22 \<le> 2 ^ j" by (intro power_increasing) simp_all
  then show ?thesis using j(1) by simp
qed

theorem shm_waits_for_ever_witness:
  "\<exists>msg q. length msg = 2621440 \<and> shm_init 128 3 (Some 4096) True = Some (Some q) \<and>
    (\<forall>r. \<exists>q'. enqueue_blocking r q msg = Some (q', False))"
proof -
  let ?msg = "replicate 2621440 (0 :: 8 word)"
  obtain v where "rounded_up (length ?msg) = Some v" "3 * 2 ^ 20 < v" using rounded_up_above [of "length ?msg"] by auto
  then have "\<exists>q. shm_init 128 3 (Some 4096) True = Some (Some q) \<and> (\<forall>r. \<exists>q'. enqueue_blocking r q ?msg = Some (q', False))"
    using shm_waits_for_ever [of 128 3 4096 ?msg v] by simp
  then show ?thesis by (intro exI [of _ ?msg]) simp
qed

end
