(* ===== verification/SpinLock.thy ===== *)
theory SpinLock
  imports Prelude
begin

text \<open>
  \<open>cpp/examples/spin_lock.h\<close> as a step relation over any number of threads. A thread outside the lock may start to
  acquire it; each attempt is one atomic compare-and-exchange of \<open>lock_\<close>, whose failure leaves the flag in
  \<open>expected\<close>; the owner may release it.
\<close>

datatype spin_pc = Outside | Trying bool | Inside

record spin =
  lock_flag :: bool
  pcs :: "nat \<Rightarrow> spin_pc"

text \<open>\<open>compare_exchange_strong(expected, true)\<close>: the new flag, the new value of \<open>expected\<close> and the result.\<close>

definition compare_exchange :: "bool \<Rightarrow> bool \<Rightarrow> bool \<times> bool \<times> bool" where
  "compare_exchange flag expected = (if flag = expected then (True, expected, True) else (flag, flag, False))"

text \<open>One round of the loop of \<open>lock\<close>: \<open>expected\<close> is reset after a failure.\<close>

definition spin_try :: "bool \<Rightarrow> bool \<Rightarrow> bool \<times> spin_pc" where
  "spin_try flag expected =
     (let (flag, _, ok) = compare_exchange flag expected in (flag, if ok then Inside else Trying False))"

definition spin_unlock :: "bool" where
  "spin_unlock = False"

inductive spin_step :: "spin \<Rightarrow> nat \<Rightarrow> spin \<Rightarrow> bool" where
  enter: "pcs s t = Outside \<Longrightarrow> spin_step s t (s\<lparr>pcs := (pcs s)(t := Trying False)\<rparr>)"
| attempt: "pcs s t = Trying e \<Longrightarrow> spin_try (lock_flag s) e = (f, pc) \<Longrightarrow>
    spin_step s t (s\<lparr>lock_flag := f, pcs := (pcs s)(t := pc)\<rparr>)"
| leave: "pcs s t = Inside \<Longrightarrow> spin_step s t (s\<lparr>lock_flag := spin_unlock, pcs := (pcs s)(t := Outside)\<rparr>)"

definition spin_init :: spin where
  "spin_init = \<lparr>lock_flag = False, pcs = (\<lambda>_. Outside)\<rparr>"

inductive spin_reach :: "spin \<Rightarrow> bool" where
  start: "spin_reach spin_init"
| step: "spin_reach s \<Longrightarrow> spin_step s t s' \<Longrightarrow> spin_reach s'"

definition spin_inv :: "spin \<Rightarrow> bool" where
  "spin_inv s \<longleftrightarrow> (\<forall>t. pcs s t \<noteq> Trying True) \<and> (\<forall>t u. pcs s t = Inside \<longrightarrow> pcs s u = Inside \<longrightarrow> t = u) \<and>
     (lock_flag s \<longleftrightarrow> (\<exists>t. pcs s t = Inside))"

lemma spin_inv_step:
  assumes "spin_inv s" "spin_step s t s'"
  shows "spin_inv s'"
  using assms(2,1)
proof (induction rule: spin_step.induct)
  case (enter s t)
  let ?s = "s\<lparr>pcs := (pcs s)(t := Trying False)\<rparr>"
  have same: "pcs ?s u = Inside \<longleftrightarrow> pcs s u = Inside" for u using enter.hyps by simp
  have "pcs ?s u \<noteq> Trying True" for u using enter.prems unfolding spin_inv_def by simp
  then show ?case using enter.prems unfolding spin_inv_def same by simp
next
  case (attempt s t e f pc)
  have e: "e = False" using attempt.prems attempt.hyps(1) unfolding spin_inv_def by (cases e) auto
  show ?case
  proof (cases "lock_flag s")
    case True
    then have "f" "pc = Trying False" using attempt.hyps e by (auto simp: spin_try_def compare_exchange_def)
    obtain u where "pcs s u = Inside" using attempt.prems True unfolding spin_inv_def by blast
    then have same: "((pcs s)(t := pc)) v = Inside \<longleftrightarrow> pcs s v = Inside" for v
      using \<open>pc = Trying False\<close> attempt.hyps(1) by simp
    have "((pcs s)(t := pc)) v \<noteq> Trying True" for v
      using attempt.prems \<open>pc = Trying False\<close> unfolding spin_inv_def by simp
    then show ?thesis using attempt.prems True \<open>f\<close> same unfolding spin_inv_def by simp
  next
    case False
    then have "f" "pc = Inside" using attempt.hyps e by (auto simp: spin_try_def compare_exchange_def)
    then show ?thesis using attempt.prems False unfolding spin_inv_def by (auto split: if_splits)
  qed
next
  case (leave s t)
  then show ?case unfolding spin_inv_def spin_unlock_def by (auto split: if_splits)
qed

lemma spin_inv_reach: "spin_reach s \<Longrightarrow> spin_inv s"
proof (induction rule: spin_reach.induct)
  case start
  then show ?case by (simp add: spin_init_def spin_inv_def)
qed (rule spin_inv_step)

text \<open>
  C21. The spin lock gives mutual exclusion under every interleaving of any number of threads: two threads are
  never inside together, and the lock is never stuck: while no thread is inside, the next attempt of any
  waiting thread succeeds.
\<close>

theorem spin_lock_mutual_exclusion:
  assumes "spin_reach s"
  shows "(pcs s t = Inside \<and> pcs s u = Inside \<longrightarrow> t = u) \<and>
    ((\<forall>v. pcs s v \<noteq> Inside) \<and> pcs s t = Trying e \<longrightarrow> spin_try (lock_flag s) e = (True, Inside))"
proof -
  have i: "spin_inv s" using spin_inv_reach assms .
  have "e = False" if "pcs s t = Trying e" using i that unfolding spin_inv_def by (cases e) auto
  then show ?thesis using i unfolding spin_inv_def by (auto simp: spin_try_def compare_exchange_def)
qed

theorem spin_lock_mutual_exclusion_witness:
  "\<exists>s. spin_reach s \<and> pcs s 1 = Inside \<and> pcs s 2 = Trying False \<and> pcs s 2 \<noteq> Inside"
proof -
  define a where "a = spin_init\<lparr>pcs := (pcs spin_init)(1 := Trying False)\<rparr>"
  define b where "b = a\<lparr>pcs := (pcs a)(2 := Trying False)\<rparr>"
  define c where "c = b\<lparr>lock_flag := True, pcs := (pcs b)(1 := Inside)\<rparr>"
  have "spin_reach a" unfolding a_def by (rule step [OF start enter]) (simp add: spin_init_def)
  then have "spin_reach b" unfolding b_def by (rule step [OF _ enter]) (simp add: a_def spin_init_def)
  then have c: "spin_reach c" unfolding c_def
    by (rule step [OF _ attempt [where e = False]])
      (simp_all add: b_def a_def spin_init_def spin_try_def compare_exchange_def)
  moreover have "pcs c 1 = Inside" "pcs c 2 = Trying False" by (simp_all add: c_def b_def a_def)
  moreover have "pcs c 2 \<noteq> Inside" using spin_lock_mutual_exclusion [OF c, of 1 2] \<open>pcs c 1 = Inside\<close> by auto
  ultimately show ?thesis by blast
qed

end
