(* ===== verification/BlockingQueue.thy ===== *)
theory BlockingQueue
  imports Prelude
begin

text \<open>
  \<open>cpp/examples/blocking_queue.h\<close> as a step relation over any number of threads. A thread holds the mutex from
  the test of its waiting condition to its return or to the wait; that section is one step. A waiting thread sits
  in the wait set of one condition variable until it is notified, times out or wakes spuriously. \<open>bq_in\<close> and
  \<open>bq_out\<close> record the tasks that went in and came out.
\<close>

section \<open>The critical sections\<close>

datatype 'a bq_call =
    Enqueue 'a | ForceEnqueue 'a | TryEnqueue 'a | EnqueueFront 'a | Dequeue | TryDequeue | Full | Clear

datatype 'a bq_thread =
    Running "'a bq_call" | WaitFull "'a bq_call" | WaitEmpty "'a bq_call" | Waited "'a bq_call" | Returned bool "'a option"

record 'a bq_outcome =
  out_tasks :: "'a list"
  out_thread :: "'a bq_thread"
  notify_empty :: bool
  notify_full :: bool

definition quiet :: "'a list \<Rightarrow> 'a bq_thread \<Rightarrow> 'a bq_outcome" where
  "quiet ts th = \<lparr>out_tasks = ts, out_thread = th, notify_empty = False, notify_full = False\<rparr>"

definition put_outcome :: "'a list \<Rightarrow> 'a bq_outcome" where
  "put_outcome ts = \<lparr>out_tasks = ts, out_thread = Returned True None, notify_empty = True, notify_full = False\<rparr>"

definition bq_enqueue :: "nat \<Rightarrow> 'a list \<Rightarrow> 'a \<Rightarrow> 'a bq_outcome" where
  "bq_enqueue cap ts x = (if length ts < cap then put_outcome (ts @ [x]) else quiet ts (WaitFull (Enqueue x)))"

definition bq_force_enqueue :: "'a list \<Rightarrow> 'a \<Rightarrow> 'a bq_outcome" where
  "bq_force_enqueue ts x = put_outcome (ts @ [x])"

text \<open>\<open>waited\<close> is true once the time is up.\<close>

definition bq_try_enqueue :: "nat \<Rightarrow> bool \<Rightarrow> 'a list \<Rightarrow> 'a \<Rightarrow> 'a bq_outcome" where
  "bq_try_enqueue cap waited ts x =
     (if length ts < cap then put_outcome (ts @ [x])
      else if waited then quiet ts (Returned False None) else quiet ts (WaitFull (TryEnqueue x)))"

definition bq_enqueue_front :: "nat \<Rightarrow> 'a list \<Rightarrow> 'a \<Rightarrow> 'a bq_outcome" where
  "bq_enqueue_front cap ts x = (if length ts < cap then put_outcome (x # ts) else quiet ts (WaitFull (EnqueueFront x)))"

definition get_outcome :: "'a list \<Rightarrow> 'a bq_outcome" where
  "get_outcome ts =
     \<lparr>out_tasks = tl ts, out_thread = Returned True (Some (hd ts)), notify_empty = False, notify_full = True\<rparr>"

definition bq_dequeue :: "'a list \<Rightarrow> 'a bq_outcome" where
  "bq_dequeue ts = (if ts \<noteq> [] then get_outcome ts else quiet ts (WaitEmpty Dequeue))"

definition bq_try_dequeue :: "bool \<Rightarrow> 'a list \<Rightarrow> 'a bq_outcome" where
  "bq_try_dequeue waited ts =
     (if ts \<noteq> [] then get_outcome ts
      else if waited then quiet ts (Returned False None) else quiet ts (WaitEmpty TryDequeue))"

text \<open>\<open>Full\<close> waits once, without a condition.\<close>

definition bq_full :: "nat \<Rightarrow> bool \<Rightarrow> 'a list \<Rightarrow> 'a bq_outcome" where
  "bq_full cap waited ts =
     (if waited then quiet ts (Returned (length ts \<ge> cap) None)
      else if length ts < cap then quiet ts (Returned False None) else quiet ts (WaitFull Full))"

definition bq_clear :: "'a list \<Rightarrow> 'a bq_outcome" where
  "bq_clear ts = quiet [] (Returned True None)"

definition bq_size :: "'a list \<Rightarrow> nat" where
  "bq_size ts = length ts"

definition bq_empty :: "'a list \<Rightarrow> bool" where
  "bq_empty ts \<longleftrightarrow> bq_size ts = 0"

text \<open>
  \<open>ClearAndDelete\<close> loops while the queue is empty and then takes the front of the empty queue: \<open>None\<close>. On any
  other queue the loop does not start. The second component lists the tasks given to the deleter.
\<close>

definition bq_clear_and_delete :: "'a list \<Rightarrow> ('a list \<times> 'a list) option" where
  "bq_clear_and_delete ts = (if bq_empty ts then None else Some (ts, []))"

fun bq_run :: "nat \<Rightarrow> bool \<Rightarrow> 'a list \<Rightarrow> 'a bq_call \<Rightarrow> 'a bq_outcome" where
  "bq_run cap w ts (Enqueue x) = bq_enqueue cap ts x"
| "bq_run cap w ts (ForceEnqueue x) = bq_force_enqueue ts x"
| "bq_run cap w ts (TryEnqueue x) = bq_try_enqueue cap w ts x"
| "bq_run cap w ts (EnqueueFront x) = bq_enqueue_front cap ts x"
| "bq_run cap w ts Dequeue = bq_dequeue ts"
| "bq_run cap w ts TryDequeue = bq_try_dequeue w ts"
| "bq_run cap w ts Full = bq_full cap w ts"
| "bq_run cap w ts Clear = bq_clear ts"

section \<open>Threads\<close>

fun wake :: "bool \<Rightarrow> bool \<Rightarrow> 'a bq_thread \<Rightarrow> 'a bq_thread" where
  "wake e f (WaitEmpty c) = (if e then Running c else WaitEmpty c)"
| "wake e f (WaitFull c) = (if f then if c = Full then Waited c else Running c else WaitFull c)"
| "wake e f th = th"

fun timed :: "'a bq_call \<Rightarrow> bool" where
  "timed (TryEnqueue x) = True" | "timed TryDequeue = True" | "timed Full = True" | "timed c = False"

fun given :: "'a bq_thread \<Rightarrow> 'a list" where
  "given (Returned True (Some x)) = [x]" | "given th = []"

record 'a bq_sys =
  bq_tasks :: "'a list"
  bq_threads :: "nat \<Rightarrow> 'a bq_thread"
  bq_in :: "'a list"
  bq_out :: "'a list"

fun offered :: "'a bq_call \<Rightarrow> 'a bq_thread \<Rightarrow> 'a list" where
  "offered (Enqueue x) (Returned True r) = [x]"
| "offered (ForceEnqueue x) (Returned True r) = [x]"
| "offered (TryEnqueue x) (Returned True r) = [x]"
| "offered (EnqueueFront x) (Returned True r) = [x]"
| "offered c th = []"

definition bq_exec :: "nat \<Rightarrow> bool \<Rightarrow> 'a bq_sys \<Rightarrow> nat \<Rightarrow> 'a bq_call \<Rightarrow> 'a bq_sys" where
  "bq_exec cap w s t c =
     (let r = bq_run cap w (bq_tasks s) c
      in \<lparr>bq_tasks = out_tasks r,
          bq_threads = (\<lambda>u. if u = t then out_thread r else wake (notify_empty r) (notify_full r) (bq_threads s u)),
          bq_in = bq_in s @ offered c (out_thread r), bq_out = bq_out s @ given (out_thread r)\<rparr>)"

inductive bq_step :: "nat \<Rightarrow> ('a bq_call \<Rightarrow> bool) \<Rightarrow> 'a bq_sys \<Rightarrow> 'a bq_sys \<Rightarrow> bool" for cap allowed where
  call: "bq_threads s t = Returned b r \<Longrightarrow> allowed c \<Longrightarrow> bq_step cap allowed s (s\<lparr>bq_threads := (bq_threads s)(t := Running c)\<rparr>)"
| run: "bq_threads s t = Running c \<Longrightarrow> bq_step cap allowed s (bq_exec cap False s t c)"
| resume: "bq_threads s t = Waited c \<Longrightarrow> bq_step cap allowed s (bq_exec cap True s t c)"
| timeout: "bq_threads s t = WaitFull c \<or> bq_threads s t = WaitEmpty c \<Longrightarrow> timed c \<Longrightarrow>
    bq_step cap allowed s (s\<lparr>bq_threads := (bq_threads s)(t := Waited c)\<rparr>)"
| spurious: "bq_threads s t = WaitFull c \<or> bq_threads s t = WaitEmpty c \<Longrightarrow>
    bq_step cap allowed s (s\<lparr>bq_threads := (bq_threads s)(t := (if c = Full then Waited c else Running c))\<rparr>)"

definition bq_init :: "'a bq_sys" where
  "bq_init = \<lparr>bq_tasks = [], bq_threads = (\<lambda>_. Returned True None), bq_in = [], bq_out = []\<rparr>"

inductive bq_reach :: "nat \<Rightarrow> ('a bq_call \<Rightarrow> bool) \<Rightarrow> 'a bq_sys \<Rightarrow> bool" for cap allowed where
  start: "bq_reach cap allowed bq_init"
| step: "bq_reach cap allowed s \<Longrightarrow> bq_step cap allowed s s' \<Longrightarrow> bq_reach cap allowed s'"

section \<open>Invariants\<close>

lemmas bq_defs = bq_enqueue_def bq_force_enqueue_def bq_try_enqueue_def bq_enqueue_front_def bq_dequeue_def
  bq_try_dequeue_def bq_full_def bq_clear_def put_outcome_def get_outcome_def quiet_def

fun call_of :: "'a bq_thread \<Rightarrow> 'a bq_call option" where
  "call_of (Returned b r) = None" | "call_of (Running c) = Some c" | "call_of (WaitFull c) = Some c"
| "call_of (WaitEmpty c) = Some c" | "call_of (Waited c) = Some c"

definition bq_calls :: "('a bq_call \<Rightarrow> bool) \<Rightarrow> 'a bq_sys \<Rightarrow> bool" where
  "bq_calls allowed s \<longleftrightarrow> (\<forall>t c. call_of (bq_threads s t) = Some c \<longrightarrow> allowed c)"

text \<open>A thread waits only while the condition it waits for is false.\<close>

definition no_lost_wakeup :: "nat \<Rightarrow> 'a bq_sys \<Rightarrow> bool" where
  "no_lost_wakeup cap s \<longleftrightarrow>
     (\<forall>t c. bq_threads s t = WaitFull c \<longrightarrow> cap \<le> length (bq_tasks s)) \<and>
     (\<forall>t c. bq_threads s t = WaitEmpty c \<longrightarrow> bq_tasks s = [])"

lemma call_of_wake: "call_of (wake e f th) = call_of th"
  by (cases th) auto

lemma call_of_run: "call_of (out_thread (bq_run cap w ts c)) \<in> {None, Some c}"
  by (cases c) (auto simp: bq_defs)

lemma bq_calls_upd:
  "bq_calls allowed s \<Longrightarrow> (\<And>c. call_of th = Some c \<Longrightarrow> allowed c) \<Longrightarrow>
     bq_calls allowed (s\<lparr>bq_threads := (bq_threads s)(t := th)\<rparr>)"
  by (auto simp: bq_calls_def)

lemma bq_calls_wait: "bq_calls allowed s \<Longrightarrow> bq_threads s t = WaitFull c \<or> bq_threads s t = WaitEmpty c \<Longrightarrow> allowed c"
  unfolding bq_calls_def by (metis call_of.simps(3,4))

lemma bq_calls_reach: "bq_reach cap allowed s \<Longrightarrow> bq_calls allowed s"
proof (induction rule: bq_reach.induct)
  case start
  then show ?case by (simp add: bq_init_def bq_calls_def)
next
  case (step s s')
  have ex: "bq_calls allowed (bq_exec cap w s t c)" if "allowed c" for w t c
  proof -
    have "allowed d" if "call_of (out_thread (bq_run cap w (bq_tasks s) c)) = Some d" for d
      using that call_of_run [of cap w "bq_tasks s" c] \<open>allowed c\<close> by auto
    then show ?thesis using step.IH by (auto simp: bq_calls_def bq_exec_def Let_def call_of_wake)
  qed
  from step.hyps(2) show ?case
  proof cases
    case (run t c)
    then show ?thesis using ex step.IH unfolding bq_calls_def by (metis call_of.simps(2))
  next
    case (resume t c)
    then show ?thesis using ex step.IH unfolding bq_calls_def by (metis call_of.simps(5))
  next
    case (timeout t c)
    have "allowed c" by (rule bq_calls_wait [OF step.IH timeout(2)])
    then show ?thesis unfolding timeout(1) by (intro bq_calls_upd [OF step.IH]) simp
  next
    case (spurious t c)
    have "allowed c" by (rule bq_calls_wait [OF step.IH spurious(2)])
    then show ?thesis unfolding spurious(1) by (intro bq_calls_upd [OF step.IH]) (simp split: if_splits)
  next
    case (call t b r c)
    then show ?thesis unfolding call(1) by (intro bq_calls_upd [OF step.IH]) simp
  qed
qed

lemma wake_run:
  assumes "no_lost_wakeup cap s" "c \<noteq> Clear"
  shows "no_lost_wakeup cap (bq_exec cap w s t c)"
proof -
  let ?r = "bq_run cap w (bq_tasks s) c"
  have own: "(out_thread ?r = WaitFull d \<longrightarrow> cap \<le> length (out_tasks ?r)) \<and> (out_thread ?r = WaitEmpty d \<longrightarrow> out_tasks ?r = [])" for d
    by (cases c) (auto simp: bq_defs)
  have full: "notify_full ?r \<or> (cap \<le> length (bq_tasks s) \<longrightarrow> cap \<le> length (out_tasks ?r))"
    using assms(2) by (cases c) (auto simp: bq_defs)
  have empty: "notify_empty ?r \<or> (bq_tasks s = [] \<longrightarrow> out_tasks ?r = [])"
    by (cases c) (auto simp: bq_defs)
  have wf: "cap \<le> length (out_tasks ?r)" if "wake (notify_empty ?r) (notify_full ?r) (bq_threads s u) = WaitFull d" for u d
    using that full assms(1) unfolding no_lost_wakeup_def by (cases "bq_threads s u") (auto split: if_splits)
  have we: "out_tasks ?r = []" if "wake (notify_empty ?r) (notify_full ?r) (bq_threads s u) = WaitEmpty d" for u d
    using that empty assms(1) unfolding no_lost_wakeup_def by (cases "bq_threads s u") (auto split: if_splits)
  show ?thesis using own wf we unfolding no_lost_wakeup_def bq_exec_def Let_def by auto
qed

lemma no_lost_wakeup_reach:
  "bq_reach cap allowed s \<Longrightarrow> \<not> allowed Clear \<Longrightarrow> no_lost_wakeup cap s"
proof (induction rule: bq_reach.induct)
  case start
  then show ?case by (simp add: bq_init_def no_lost_wakeup_def)
next
  case (step s s')
  have calls: "bq_calls allowed s" using bq_calls_reach step.hyps(1) .
  from step.hyps(2) show ?case
  proof cases
    case (run t c)
    then have "c \<noteq> Clear" using calls step.prems unfolding bq_calls_def by (metis call_of.simps(2))
    then show ?thesis using wake_run step run by blast
  next
    case (resume t c)
    then have "c \<noteq> Clear" using calls step.prems unfolding bq_calls_def by (metis call_of.simps(5))
    then show ?thesis using wake_run step resume by blast
  qed (use step in \<open>auto simp: no_lost_wakeup_def split: if_splits\<close>)
qed

lemma fifo_run:
  assumes "bq_in s = bq_out s @ bq_tasks s" "\<And>x. c \<noteq> EnqueueFront x" "c \<noteq> Clear"
  shows "bq_in (bq_exec cap w s t c) = bq_out (bq_exec cap w s t c) @ bq_tasks (bq_exec cap w s t c)"
  using assms by (cases c) (auto simp: bq_exec_def Let_def bq_defs)

lemma bound_run:
  assumes "length (bq_tasks s) \<le> cap" "\<And>x. c \<noteq> ForceEnqueue x"
  shows "length (bq_tasks (bq_exec cap w s t c)) \<le> cap"
  using assms by (cases c) (auto simp: bq_exec_def Let_def bq_defs)

lemma bq_step_tasks:
  assumes "bq_step cap allowed s s'" "bq_calls allowed s"
  shows "(\<exists>w t c. allowed c \<and> s' = bq_exec cap w s t c) \<or>
    (bq_tasks s' = bq_tasks s \<and> bq_in s' = bq_in s \<and> bq_out s' = bq_out s)"
  using assms
proof (cases rule: bq_step.cases)
  case (run t c)
  then show ?thesis using assms(2) unfolding bq_calls_def by (metis call_of.simps(2))
next
  case (resume t c)
  then show ?thesis using assms(2) unfolding bq_calls_def by (metis call_of.simps(5))
qed auto

lemma fifo_reach:
  "bq_reach cap allowed s \<Longrightarrow> \<not> allowed Clear \<Longrightarrow> (\<And>x. \<not> allowed (EnqueueFront x)) \<Longrightarrow> bq_in s = bq_out s @ bq_tasks s"
proof (induction rule: bq_reach.induct)
  case (step s s')
  have IH: "bq_in s = bq_out s @ bq_tasks s" using step by blast
  from bq_step_tasks [OF step.hyps(2) bq_calls_reach [OF step.hyps(1)]] show ?case
  proof
    assume "\<exists>w t c. allowed c \<and> s' = bq_exec cap w s t c"
    then obtain w t c where "allowed c" "s' = bq_exec cap w s t c" by blast
    then show ?case using fifo_run [OF IH] step.prems by metis
  qed (use IH in simp)
qed (simp add: bq_init_def)

lemma bound_reach: "bq_reach cap allowed s \<Longrightarrow> (\<And>x. \<not> allowed (ForceEnqueue x)) \<Longrightarrow> length (bq_tasks s) \<le> cap"
proof (induction rule: bq_reach.induct)
  case (step s s')
  have IH: "length (bq_tasks s) \<le> cap" using step by blast
  from bq_step_tasks [OF step.hyps(2) bq_calls_reach [OF step.hyps(1)]] show ?case
  proof
    assume "\<exists>w t c. allowed c \<and> s' = bq_exec cap w s t c"
    then obtain w t c where "allowed c" "s' = bq_exec cap w s t c" by blast
    then show ?case using bound_run [OF IH] step.prems by metis
  qed (use IH in simp)
qed (simp add: bq_init_def)

section \<open>Properties\<close>

lemma bq_call_run:
  assumes "bq_reach cap allowed s" "bq_threads s t = Returned b r" "allowed c"
  shows "bq_reach cap allowed (bq_exec cap False (s\<lparr>bq_threads := (bq_threads s)(t := Running c)\<rparr>) t c)"
proof -
  have "bq_step cap allowed s (s\<lparr>bq_threads := (bq_threads s)(t := Running c)\<rparr>)"
    using assms(2,3) by (rule call)
  then show ?thesis by (rule step [OF step [OF assms(1)] run]) simp
qed

definition bq_do :: "nat \<Rightarrow> 'a bq_sys \<Rightarrow> nat \<Rightarrow> 'a bq_call \<Rightarrow> 'a bq_sys" where
  "bq_do cap s t c = bq_exec cap False (s\<lparr>bq_threads := (bq_threads s)(t := Running c)\<rparr>) t c"

lemmas bq_do_simps = bq_do_def bq_exec_def Let_def bq_defs bq_init_def

text \<open>A queue of one place: thread 1 fills it, thread 0 waits for room.\<close>

definition full_and_waiting :: "nat bq_sys" where
  "full_and_waiting = bq_do 1 (bq_do 1 bq_init 1 (Enqueue 7)) 0 (Enqueue 8)"

lemma full_and_waiting:
  "bq_tasks full_and_waiting = [7]" "bq_threads full_and_waiting 0 = WaitFull (Enqueue 8)"
  "bq_threads full_and_waiting 1 = Returned True None"
  by (simp_all add: full_and_waiting_def bq_do_simps)

lemma full_and_waiting_reach: "allowed (Enqueue 7) \<Longrightarrow> allowed (Enqueue 8) \<Longrightarrow> bq_reach 1 allowed full_and_waiting"
proof -
  assume a: "allowed (Enqueue 7)" "allowed (Enqueue 8)"
  have "bq_threads (bq_do 1 bq_init 1 (Enqueue 7)) 0 = Returned True None" by (simp add: bq_do_simps)
  moreover have "bq_reach 1 allowed (bq_do 1 bq_init 1 (Enqueue 7))"
    unfolding bq_do_def by (rule bq_call_run [OF start, where b = True and r = None]) (simp_all add: bq_init_def a)
  ultimately show ?thesis unfolding full_and_waiting_def bq_do_def [of 1 "bq_do 1 bq_init 1 (Enqueue 7)"]
    using bq_call_run a(2) by blast
qed

text \<open>
  \<open>Clear\<close> loses wake-ups: it empties the queue without notifying the threads that wait for room. A state is
  reachable in which the queue is empty and a producer still waits for room. \<open>ClearAndDelete\<close> deletes nothing:
  it takes the front of an empty queue, and leaves any other queue as it is.
\<close>

lemma clear_loses_wakeup:
  "(\<exists>s. bq_reach 1 (\<lambda>_. True) (s :: nat bq_sys) \<and> bq_tasks s = [] \<and> bq_threads s 0 = WaitFull (Enqueue 8)) \<and>
   bq_clear_and_delete ([] :: nat list) = None \<and> bq_clear_and_delete (x # xs) = Some (x # xs, [])"
proof -
  let ?s = "bq_do 1 full_and_waiting 1 Clear"
  have "bq_reach 1 (\<lambda>_. True) ?s"
    unfolding bq_do_def by (rule bq_call_run [OF full_and_waiting_reach full_and_waiting(3)]) simp_all
  moreover have "bq_tasks ?s = []" "bq_threads ?s 0 = WaitFull (Enqueue 8)"
    using full_and_waiting(2) by (simp_all add: bq_do_def bq_exec_def Let_def bq_defs)
  ultimately show ?thesis by (auto simp: bq_clear_and_delete_def bq_empty_def bq_size_def)
qed

text \<open>
  C20. In every state that threads can reach without \<open>Clear\<close>, whatever the order of their calls, time-outs and
  spurious wake-ups, no wake-up is lost: a thread waits for room only while the queue is full and for a task
  only while it is empty. Without \<open>EnqueueFront\<close> tasks come out in the order in which they went in, and without
  \<open>ForceEnqueue\<close> the queue never holds more than its capacity. \<open>Clear\<close> does lose wake-ups: with it a state is
  reachable in which the queue is empty and a producer still waits for room. \<open>ClearAndDelete\<close> deletes nothing: it takes
  the front of an empty queue, and leaves any other queue as it is.
\<close>

theorem blocking_queue_correct:
  assumes "bq_reach cap allowed s" "\<not> allowed Clear"
  shows "(\<forall>t c. bq_threads s t = WaitFull c \<longrightarrow> cap \<le> length (bq_tasks s)) \<and>
    (\<forall>t c. bq_threads s t = WaitEmpty c \<longrightarrow> bq_tasks s = []) \<and>
    ((\<forall>x. \<not> allowed (EnqueueFront x)) \<longrightarrow> bq_in s = bq_out s @ bq_tasks s) \<and>
    ((\<forall>x. \<not> allowed (ForceEnqueue x)) \<longrightarrow> length (bq_tasks s) \<le> cap) \<and>
    (\<exists>s. bq_reach 1 (\<lambda>_. True) (s :: nat bq_sys) \<and> bq_tasks s = [] \<and> bq_threads s 0 = WaitFull (Enqueue 8)) \<and>
    bq_clear_and_delete ([] :: nat list) = None \<and> bq_clear_and_delete (x # xs) = Some (x # xs, [])"
proof -
  have "(\<forall>t c. bq_threads s t = WaitFull c \<longrightarrow> cap \<le> length (bq_tasks s)) \<and>
    (\<forall>t c. bq_threads s t = WaitEmpty c \<longrightarrow> bq_tasks s = []) \<and>
    ((\<forall>x. \<not> allowed (EnqueueFront x)) \<longrightarrow> bq_in s = bq_out s @ bq_tasks s) \<and>
    ((\<forall>x. \<not> allowed (ForceEnqueue x)) \<longrightarrow> length (bq_tasks s) \<le> cap)"
    using no_lost_wakeup_reach [OF assms] fifo_reach [OF assms] bound_reach [OF assms(1)]
    unfolding no_lost_wakeup_def by blast
  from conjI [OF this clear_loses_wakeup] show ?thesis unfolding conj_assoc .
qed

theorem blocking_queue_correct_witness:
  "\<exists>s. bq_reach 1 (\<lambda>c. c \<noteq> Clear) (s :: nat bq_sys) \<and> bq_threads s 0 = WaitFull (Enqueue 8) \<and> 1 \<le> length (bq_tasks s)"
proof -
  have r: "bq_reach 1 (\<lambda>c. c \<noteq> Clear) full_and_waiting" by (rule full_and_waiting_reach) simp_all
  have "1 \<le> length (bq_tasks full_and_waiting)"
    using conjunct1 [OF blocking_queue_correct [OF r]] full_and_waiting(2) by blast
  then show ?thesis using r full_and_waiting(2) by blast
qed

end
