(* ===== verification/ThreadPool.thy ===== *)
theory ThreadPool
  imports Prelude
begin

text \<open>
  \<open>cpp/examples/thread_pool.cc\<close> as a step relation. A worker of \<open>Loop\<close> is ready to test its condition, asleep in
  \<open>wait\<close>, busy with a task, or has returned; test and wait are one step under the mutex. \<open>Run\<close> notifies one worker
  after it has released the mutex, so the notification is a step of its own; the destructor likewise sets the
  flag, then notifies all, then joins; no task is submitted once the destructor has begun. \<open>submitted\<close>, \<open>started\<close> and \<open>finished\<close> record the tasks.
\<close>

datatype 'a worker = Ready | Asleep | Busy 'a | Exited

record 'a pool =
  tp_tasks :: "'a list"
  tp_stop :: bool
  tp_workers :: "'a worker list"
  tp_notify_one :: nat
  tp_notify_all :: bool
  submitted :: "'a list"
  started :: "'a list"
  finished :: "'a list"

definition pool_new :: "nat \<Rightarrow> 'a pool" where
  "pool_new threads = \<lparr>tp_tasks = [], tp_stop = False, tp_workers = replicate threads Ready, tp_notify_one = 0,
     tp_notify_all = False, submitted = [], started = [], finished = []\<rparr>"

text \<open>What a ready worker does under the mutex.\<close>

definition loop_test :: "'a pool \<Rightarrow> nat \<Rightarrow> 'a pool" where
  "loop_test s w =
     (if \<not> (tp_stop s \<or> tp_tasks s \<noteq> []) then s\<lparr>tp_workers := (tp_workers s)[w := Asleep]\<rparr>
      else if tp_stop s \<and> tp_tasks s = [] then s\<lparr>tp_workers := (tp_workers s)[w := Exited]\<rparr>
      else s\<lparr>tp_workers := (tp_workers s)[w := Busy (hd (tp_tasks s))], tp_tasks := tl (tp_tasks s),
             started := started s @ [hd (tp_tasks s)]\<rparr>)"

definition pool_run :: "'a pool \<Rightarrow> 'a \<Rightarrow> 'a pool" where
  "pool_run s x = s\<lparr>tp_tasks := tp_tasks s @ [x], submitted := submitted s @ [x], tp_notify_one := tp_notify_one s + 1\<rparr>"

definition pool_stop :: "'a pool \<Rightarrow> 'a pool" where
  "pool_stop s = s\<lparr>tp_stop := True, tp_notify_all := True\<rparr>"

fun woken :: "'a worker \<Rightarrow> 'a worker" where
  "woken Asleep = Ready" | "woken w = w"

inductive pool_step :: "'a pool \<Rightarrow> 'a pool \<Rightarrow> bool" where
  test: "w < length (tp_workers s) \<Longrightarrow> tp_workers s ! w = Ready \<Longrightarrow> pool_step s (loop_test s w)"
| finish: "w < length (tp_workers s) \<Longrightarrow> tp_workers s ! w = Busy x \<Longrightarrow>
    pool_step s (s\<lparr>tp_workers := (tp_workers s)[w := Ready], finished := finished s @ [x]\<rparr>)"
| spurious: "w < length (tp_workers s) \<Longrightarrow> tp_workers s ! w = Asleep \<Longrightarrow> pool_step s (s\<lparr>tp_workers := (tp_workers s)[w := Ready]\<rparr>)"
| submit: "\<not> tp_stop s \<Longrightarrow> pool_step s (pool_run s x)"
| notify: "0 < tp_notify_one s \<Longrightarrow> w < length (tp_workers s) \<Longrightarrow> tp_workers s ! w = Asleep \<Longrightarrow>
    pool_step s (s\<lparr>tp_workers := (tp_workers s)[w := Ready], tp_notify_one := tp_notify_one s - 1\<rparr>)"
| notify_none: "0 < tp_notify_one s \<Longrightarrow> Asleep \<notin> set (tp_workers s) \<Longrightarrow> pool_step s (s\<lparr>tp_notify_one := tp_notify_one s - 1\<rparr>)"
| stop: "\<not> tp_stop s \<Longrightarrow> pool_step s (pool_stop s)"
| notify_all: "tp_notify_all s \<Longrightarrow> pool_step s (s\<lparr>tp_workers := map woken (tp_workers s), tp_notify_all := False\<rparr>)"

inductive pool_reach :: "nat \<Rightarrow> 'a pool \<Rightarrow> bool" for threads where
  start: "pool_reach threads (pool_new threads)"
| step: "pool_reach threads s \<Longrightarrow> pool_step s s' \<Longrightarrow> pool_reach threads s'"

section \<open>Counting workers\<close>

definition num :: "'a worker \<Rightarrow> 'a worker list \<Rightarrow> nat" where
  "num v ws = count (mset ws) v"

fun busy_with :: "'a worker \<Rightarrow> 'a multiset" where
  "busy_with (Busy x) = {#x#}" | "busy_with w = {#}"

definition in_work :: "'a worker list \<Rightarrow> 'a multiset" where
  "in_work ws = \<Sum>\<^sub># (image_mset busy_with (mset ws))"

lemma mset_update_add: "w < length ws \<Longrightarrow> mset (ws[w := u]) + {#ws ! w#} = mset ws + {#u#}"
  by (simp add: mset_update)

lemma num_update:
  assumes "w < length ws"
  shows "num v (ws[w := u]) + (if ws ! w = v then 1 else 0) = num v ws + (if u = v then 1 else 0)"
proof -
  have "count (mset (ws[w := u]) + {#ws ! w#}) v = count (mset ws + {#u#}) v" using mset_update_add [OF assms] by simp
  then show ?thesis unfolding num_def by (simp only: count_union count_single)
qed

lemma num_pos: "0 < num v ws \<longleftrightarrow> v \<in> set ws"
  by (simp add: num_def)

lemma in_work_update: "w < length ws \<Longrightarrow> in_work (ws[w := u]) + busy_with (ws ! w) = in_work ws + busy_with u"
proof -
  assume w: "w < length ws"
  have "\<Sum>\<^sub># (image_mset busy_with (mset (ws[w := u]) + {#ws ! w#})) = \<Sum>\<^sub># (image_mset busy_with (mset ws + {#u#}))"
    unfolding mset_update_add [OF w] ..
  then show ?thesis unfolding in_work_def by (simp only: image_mset_union sum_mset.union image_mset_single sum_mset.singleton)
qed

definition pool_inv :: "nat \<Rightarrow> 'a pool \<Rightarrow> bool" where
  "pool_inv threads s \<longleftrightarrow> length (tp_workers s) = threads \<and> submitted s = started s @ tp_tasks s \<and>
     mset (started s) = mset (finished s) + in_work (tp_workers s) \<and>
     (num Asleep (tp_workers s) = 0 \<or> length (tp_tasks s) \<le> num Ready (tp_workers s) + tp_notify_one s) \<and>
     (tp_stop s \<longrightarrow> num Asleep (tp_workers s) = 0 \<or> tp_notify_all s) \<and>
     (0 < num Exited (tp_workers s) \<longrightarrow> tp_stop s \<and> tp_tasks s = [])"

section \<open>The invariant is kept\<close>

lemma woken_counts: "num Asleep (map woken ws) = 0" "num Exited (map woken ws) = num Exited ws"
  "in_work (map woken ws) = in_work ws"
proof -
  have "num Asleep (map woken ws) = 0 \<and> num Exited (map woken ws) = num Exited ws \<and> in_work (map woken ws) = in_work ws"
  proof (induction ws)
    case (Cons v ws)
    then show ?case by (cases v) (auto simp: num_def in_work_def)
  qed (simp add: num_def in_work_def)
  then show "num Asleep (map woken ws) = 0" "num Exited (map woken ws) = num Exited ws"
    "in_work (map woken ws) = in_work ws" by blast+
qed

text \<open>A worker wakes up: asleep before, ready afterwards.\<close>

lemma wake_counts:
  assumes "w < length ws" "ws ! w = Asleep"
  shows "num Asleep ws = num Asleep (ws[w := Ready]) + 1" "num Ready (ws[w := Ready]) = num Ready ws + 1"
    "num Exited (ws[w := Ready]) = num Exited ws" "in_work (ws[w := Ready]) = in_work ws"
  using num_update [OF assms(1), of Asleep Ready] num_update [OF assms(1), of Ready Ready]
    num_update [OF assms(1), of Exited Ready] in_work_update [OF assms(1), of Ready] assms(2) by simp_all

text \<open>A ready worker moves on.\<close>

lemma move_counts:
  assumes "w < length ws" "ws ! w = Ready" "u \<noteq> Ready"
  shows "num Ready ws = num Ready (ws[w := u]) + 1" "num Asleep (ws[w := u]) = num Asleep ws + (if u = Asleep then 1 else 0)"
    "num Exited (ws[w := u]) = num Exited ws + (if u = Exited then 1 else 0)" "in_work (ws[w := u]) = in_work ws + busy_with u"
  using num_update [OF assms(1), of Asleep u] num_update [OF assms(1), of Ready u]
    num_update [OF assms(1), of Exited u] in_work_update [OF assms(1), of u] assms(2,3) by simp_all

lemma done_counts:
  assumes "w < length ws" "ws ! w = Busy x"
  shows "num Asleep (ws[w := Ready]) = num Asleep ws" "num Ready (ws[w := Ready]) = num Ready ws + 1"
    "num Exited (ws[w := Ready]) = num Exited ws" "in_work ws = add_mset x (in_work (ws[w := Ready]))"
  using num_update [OF assms(1), of Asleep Ready] num_update [OF assms(1), of Ready Ready]
    num_update [OF assms(1), of Exited Ready] in_work_update [OF assms(1), of Ready] assms(2) by simp_all

lemmas pool_simps = pool_inv_def

lemma inv_test:
  assumes "pool_inv n s" "w < length (tp_workers s)" "tp_workers s ! w = Ready"
  shows "pool_inv n (loop_test s w)"
proof -
  note mc = move_counts [OF assms(2,3)]
  consider "\<not> tp_stop s" "tp_tasks s = []" | "tp_stop s" "tp_tasks s = []" | x xs where "tp_tasks s = x # xs"
    by (cases "tp_tasks s") auto
  then show ?thesis
  proof cases
    case 1
    then show ?thesis using assms(1) mc [of Asleep] by (simp add: loop_test_def pool_simps)
  next
    case 2
    then show ?thesis using assms(1) mc [of Exited] by (auto simp: loop_test_def pool_simps)
  next
    case 3
    then show ?thesis using assms(1) mc [of "Busy x"] by (auto simp: loop_test_def pool_simps)
  qed
qed

lemma inv_step: "pool_step s s' \<Longrightarrow> pool_inv n s \<Longrightarrow> pool_inv n s'"
proof (induction rule: pool_step.induct)
  case (test w s)
  then show ?case by (intro inv_test)
next
  case (finish w s x)
  then show ?case using done_counts [OF finish.hyps] by (auto simp: pool_simps)
next
  case (spurious w s)
  then show ?case using wake_counts [OF spurious.hyps] by (auto simp: pool_simps)
next
  case (submit s x)
  then show ?case by (auto simp: pool_simps pool_run_def)
next
  case (notify s w)
  then show ?case using wake_counts [OF notify.hyps(2,3)] by (auto simp: pool_simps)
next
  case (notify_none s)
  then show ?case using num_pos [of Asleep "tp_workers s"] by (auto simp: pool_simps)
next
  case (stop s)
  then show ?case by (auto simp: pool_simps pool_stop_def)
next
  case (notify_all s)
  then show ?case using woken_counts [of "tp_workers s"] by (auto simp: pool_simps)
qed

lemma inv_reach: "pool_reach n s \<Longrightarrow> pool_inv n s"
proof (induction rule: pool_reach.induct)
  case start
  have "Exited \<notin> set (replicate n Ready)" "Asleep \<notin> set (replicate n Ready)" by auto
  moreover have "in_work (replicate n Ready) = {#}" by (induction n) (simp_all add: in_work_def)
  ultimately show ?case by (simp add: pool_new_def pool_inv_def num_def)
qed (rule inv_step)

section \<open>Properties\<close>

text \<open>
  C19. The thread pool never stalls and never loses a task. In every reachable state the submitted tasks are the
  started ones followed by the queued ones, and every started task is finished or in the hands of a worker. As
  long as tasks are queued, some worker of a pool that has workers is awake or about to be notified. When the
  destructor has joined all workers, every submitted task has been executed exactly once.
\<close>

theorem thread_pool_drains:
  assumes "pool_reach n s" "0 < n"
  shows "submitted s = started s @ tp_tasks s \<and> mset (started s) = mset (finished s) + in_work (tp_workers s) \<and>
    (tp_tasks s \<noteq> [] \<and> tp_notify_one s = 0 \<and> \<not> tp_notify_all s \<longrightarrow> (\<exists>v\<in>set (tp_workers s). v = Ready \<or> (\<exists>x. v = Busy x))) \<and>
    ((\<forall>v\<in>set (tp_workers s). v = Exited) \<longrightarrow> tp_tasks s = [] \<and> mset (finished s) = mset (submitted s))"
proof -
  have i: "pool_inv n s" by (rule inv_reach [OF assms(1)])
  then have base: "submitted s = started s @ tp_tasks s" "mset (started s) = mset (finished s) + in_work (tp_workers s)"
    and ne: "tp_workers s \<noteq> []" using assms(2) unfolding pool_inv_def by auto
  have awake: "\<exists>v\<in>set (tp_workers s). v = Ready \<or> (\<exists>x. v = Busy x)"
    if t: "tp_tasks s \<noteq> []" "tp_notify_one s = 0"
  proof -
    obtain v where v: "v \<in> set (tp_workers s)" using ne by (meson last_in_set)
    show ?thesis
    proof (cases v)
      case Asleep
      then have "0 < num Asleep (tp_workers s)" using v num_pos by blast
      then have "0 < num Ready (tp_workers s)" using i t unfolding pool_inv_def by (cases "tp_tasks s") auto
      then show ?thesis using num_pos by blast
    next
      case Exited
      then have "0 < num Exited (tp_workers s)" using v num_pos by blast
      then show ?thesis using i t unfolding pool_inv_def by blast
    qed (use v in blast)+
  qed
  have drained: "tp_tasks s = []" "mset (finished s) = mset (submitted s)" if ex: "\<forall>v\<in>set (tp_workers s). v = Exited"
  proof -
    have "0 < num Exited (tp_workers s)" using ex ne num_pos by (metis last_in_set)
    then show t: "tp_tasks s = []" using i unfolding pool_inv_def by blast
    have "tp_workers s = replicate (length (tp_workers s)) Exited" using ex by (metis replicate_eqI)
    moreover have "in_work (replicate k Exited) = {#}" for k by (induction k) (simp_all add: in_work_def)
    ultimately have "in_work (tp_workers s) = {#}" by metis
    then show "mset (finished s) = mset (submitted s)" using base t by simp
  qed
  show ?thesis using base awake drained by blast
qed

theorem thread_pool_drains_witness:
  "\<exists>s :: nat pool. pool_reach 1 s \<and> (\<forall>v\<in>set (tp_workers s). v = Exited) \<and> submitted s = [5] \<and> mset (finished s) = {#5#}"
proof -
  let ?b = "loop_test (pool_run (pool_new 1) (5 :: nat)) 0"
  let ?c = "?b\<lparr>tp_workers := (tp_workers ?b)[0 := Ready], finished := finished ?b @ [5 :: nat]\<rparr>"
  let ?d = "loop_test (pool_stop ?c) 0"
  note defs = pool_new_def pool_run_def pool_stop_def loop_test_def
  have "pool_reach 1 (pool_run (pool_new 1) (5 :: nat))" by (rule step [OF start submit]) (simp add: defs)
  then have "pool_reach 1 ?b" by (rule step [OF _ test]) (simp_all add: defs)
  then have "pool_reach 1 ?c" by (rule step [OF _ finish]) (simp_all add: defs)
  then have "pool_reach 1 (pool_stop ?c)" by (rule step [OF _ stop]) (simp add: defs)
  then have d: "pool_reach 1 ?d" by (rule step [OF _ test]) (simp_all add: defs)
  have e: "\<forall>v\<in>set (tp_workers ?d). v = Exited" "submitted ?d = [5]" by (simp_all add: defs)
  then have "mset (finished ?d) = {#5#}" using thread_pool_drains [OF d] by simp
  then show ?thesis using d e by blast
qed

end
