(* ===== verification/RingBuffer.thy ===== *)
theory RingBuffer
  imports ObjBuilder "HOL-Library.Monad_Syntax"
begin

text \<open>
  \<open>cpp/datastructure/queue/ringbuffer.h\<close> and \<open>ringbuffer.cc\<close>: messages of varying size in a cyclic byte buffer. A
  pointer into the mapping is its offset from \<open>buffer_\<close>, the null pointer is \<open>None\<close>. The mutex is held for the whole
  of \<open>push\<close> and \<open>pop\<close>, so each is one step. An access outside the mapping or outside the vector of a node, and the
  abort of \<open>LOG(FATAL)\<close>, give \<open>None\<close>. The system call \<open>mmap\<close> is an argument of the model.
\<close>

section \<open>The buffer\<close>

record rnode =
  node_size :: nat
  node_data :: "8 word list"

record ring =
  ring_capacity :: nat
  ring_mem :: buffer
  ring_write :: "nat option"
  ring_read :: "nat option"

definition ring_new :: ring where
  "ring_new = \<lparr>ring_capacity = 0, ring_mem = [], ring_write = None, ring_read = None\<rparr>"

definition evaluate_aligned_size :: "nat \<Rightarrow> nat" where
  "evaluate_aligned_size sz = unat ((word_of_nat sz + 7 :: 64 word) AND NOT 7)"

definition ring_init :: "(nat \<Rightarrow> buffer option) \<Rightarrow> ring \<Rightarrow> nat \<Rightarrow> bool \<times> ring" where
  "ring_init mmap r sz =
     (let capacity = evaluate_aligned_size sz
      in case mmap capacity of
           None \<Rightarrow> (False, r\<lparr>ring_capacity := capacity, ring_mem := []\<rparr>)
         | Some mem \<Rightarrow> (True, \<lparr>ring_capacity = capacity, ring_mem = mem, ring_write = None, ring_read = None\<rparr>))"

definition ring_empty :: "ring \<Rightarrow> bool" where
  "ring_empty r \<longleftrightarrow> ring_read r = None"

text \<open>The two sides of \<open>memcpy\<close>.\<close>

definition get_bytes :: "8 word list \<Rightarrow> nat \<Rightarrow> nat \<Rightarrow> 8 word list option" where
  "get_bytes xs a n = (if a + n \<le> length xs then Some (take n (drop a xs)) else None)"

definition put_bytes :: "buffer \<Rightarrow> nat \<Rightarrow> 8 word list \<Rightarrow> buffer option" where
  "put_bytes mem a bs = (if a + length bs \<le> length mem then Some (take a mem @ bs @ drop (a + length bs) mem) else None)"

text \<open>The loop of \<open>push\<close> that drops the oldest messages.\<close>

partial_function (option) ring_room :: "nat \<Rightarrow> buffer \<Rightarrow> nat \<Rightarrow> nat \<Rightarrow> nat \<Rightarrow> (nat \<times> nat) option" where
  "ring_room capacity mem sz rd wr =
     (if capacity - nat ((int wr - int rd + int capacity) mod 2 ^ 64) mod capacity < sz
      then do {
        node_data_size \<leftarrow> ld 8 mem (int rd);
        let off = (8 + evaluate_aligned_size node_data_size) mod 2 ^ 64;
        let left_size = capacity - rd;
        let rd = (if left_size < off then off - left_size else rd + off);
        let rd = (if rd = capacity then 0 else rd);
        if rd = wr then ring_room capacity mem sz 0 0 else ring_room capacity mem sz rd wr }
      else Some (rd, wr))"

definition ring_write_data :: "nat \<Rightarrow> buffer \<Rightarrow> nat \<Rightarrow> 8 word list \<Rightarrow> nat \<Rightarrow> (buffer \<times> nat) option" where
  "ring_write_data capacity mem wr xs data_size =
     (let free_size = capacity - wr
      in if free_size < data_size
         then do { front \<leftarrow> get_bytes xs 0 free_size;
                   mem \<leftarrow> put_bytes mem wr front;
                   rest \<leftarrow> get_bytes xs free_size (data_size - free_size);
                   mem \<leftarrow> put_bytes mem 0 rest;
                   Some (mem, data_size - free_size) }
         else do { bs \<leftarrow> get_bytes xs 0 data_size;
                   mem \<leftarrow> put_bytes mem wr bs;
                   Some (mem, wr + data_size) })"

definition ring_push :: "ring \<Rightarrow> rnode \<Rightarrow> ring option" where
  "ring_push r node =
     do { (rd, wr) \<leftarrow> (case ring_read r of None \<Rightarrow> Some (0, 0) | Some rd \<Rightarrow> do { wr \<leftarrow> ring_write r; Some (rd, wr) });
          let data_size = evaluate_aligned_size (node_size node);
          let sz = (8 + data_size) mod 2 ^ 64;
          if sz > ring_capacity r then None
          else do {
            (rd, wr) \<leftarrow> ring_room (ring_capacity r) (ring_mem r) sz rd wr;
            mem \<leftarrow> st 8 (ring_mem r) (int wr) (node_size node);
            (mem, wr) \<leftarrow> ring_write_data (ring_capacity r) mem (wr + 8) (node_data node) data_size;
            let wr = (if wr = ring_capacity r then 0 else wr);
            Some (r\<lparr>ring_mem := mem, ring_write := Some wr, ring_read := Some rd\<rparr>) } }"

definition ring_read_data :: "nat \<Rightarrow> buffer \<Rightarrow> nat \<Rightarrow> nat \<Rightarrow> (8 word list \<times> nat) option" where
  "ring_read_data capacity mem rd data_size =
     (let tail_offset = capacity - rd
      in if tail_offset < data_size
         then do { front \<leftarrow> get_bytes mem rd tail_offset;
                   rest \<leftarrow> get_bytes mem 0 (data_size - tail_offset);
                   Some (front @ rest, data_size - tail_offset) }
         else do { bs \<leftarrow> get_bytes mem rd data_size; Some (bs, rd + data_size) })"

definition ring_pop :: "ring \<Rightarrow> (rnode \<times> ring) option" where
  "ring_pop r =
     (case ring_read r of
        None \<Rightarrow> Some (\<lparr>node_size = 0, node_data = []\<rparr>, r)
      | Some rd \<Rightarrow> do {
          sz \<leftarrow> ld 8 (ring_mem r) (int rd);
          let data_size = evaluate_aligned_size sz;
          (bs, rd) \<leftarrow> ring_read_data (ring_capacity r) (ring_mem r) (rd + 8) data_size;
          let node = \<lparr>node_size = sz, node_data = take sz bs @ replicate (sz - length bs) 0\<rparr>;
          let rd = (if rd = ring_capacity r then 0 else rd);
          if Some rd = ring_write r then Some (node, r\<lparr>ring_read := None, ring_write := None\<rparr>)
          else Some (node, r\<lparr>ring_read := Some rd\<rparr>) })"

section \<open>What the buffer promises\<close>

definition al8 :: "nat \<Rightarrow> nat" where
  "al8 n = (n + 7) div 8 * 8"

text \<open>The bytes a message takes.\<close>

definition need :: "'a list \<Rightarrow> nat" where
  "need m = 8 + al8 (length m)"

definition used :: "'a list list \<Rightarrow> nat" where
  "used q = sum_list (map need q)"

text \<open>The oldest messages are dropped until a message of \<open>s\<close> bytes has room.\<close>

fun make_room :: "nat \<Rightarrow> nat \<Rightarrow> 'a list list \<Rightarrow> 'a list list" where
  "make_room c s [] = []"
| "make_room c s (m # q) = (if c - used (m # q) < s then make_room c s q else m # q)"

definition queue_push :: "nat \<Rightarrow> 'a list list \<Rightarrow> 'a list \<Rightarrow> 'a list list" where
  "queue_push c q m = (if used q = c then [m] else make_room c (need m) q @ [m])"

datatype ring_op = Ring_push rnode | Ring_pop

fun ring_run :: "ring \<Rightarrow> ring_op list \<Rightarrow> rnode list option" where
  "ring_run r [] = Some []"
| "ring_run r (Ring_push n # ops) = do { r \<leftarrow> ring_push r n; ring_run r ops }"
| "ring_run r (Ring_pop # ops) = do { (n, r) \<leftarrow> ring_pop r; ns \<leftarrow> ring_run r ops; Some (n # ns) }"

fun queue_run :: "nat \<Rightarrow> 8 word list list \<Rightarrow> ring_op list \<Rightarrow> 8 word list list" where
  "queue_run c q [] = []"
| "queue_run c q (Ring_push n # ops) = queue_run c (queue_push c q (take (node_size n) (node_data n))) ops"
| "queue_run c q (Ring_pop # ops) = (case q of [] \<Rightarrow> [] # queue_run c [] ops | m # q \<Rightarrow> m # queue_run c q ops)"

text \<open>A node may be pushed when it fits the buffer and its vector has room for the rounded size that is copied.\<close>

definition node_ok :: "nat \<Rightarrow> rnode \<Rightarrow> bool" where
  "node_ok c n \<longleftrightarrow> node_size n < 2 ^ 63 \<and> 8 + al8 (node_size n) \<le> c \<and> al8 (node_size n) \<le> length (node_data n)"

definition op_ok :: "nat \<Rightarrow> ring_op \<Rightarrow> bool" where
  "op_ok c op \<longleftrightarrow> (case op of Ring_push n \<Rightarrow> node_ok c n | Ring_pop \<Rightarrow> True)"

section \<open>Cyclic reads and writes\<close>

lemma aligned_size: "n < 2 ^ 63 \<Longrightarrow> evaluate_aligned_size n = al8 n"
proof -
  assume n: "n < 2 ^ 63"
  have "unat (word_of_nat n + 7 :: 64 word) = n + 7"
    using n by (subst unat_word_ariths) (simp add: unat_of_nat)
  then show ?thesis unfolding evaluate_aligned_size_def and_not_7 al8_def by simp
qed

lemma al8_ge: "n \<le> al8 n" "8 dvd al8 n" "al8 n < n + 8"
proof -
  have "(n + 7) div 8 * 8 + (n + 7) mod 8 = n + 7" by (rule div_mult_mod_eq)
  moreover have "(n + 7) mod 8 < 8" by simp
  ultimately show "n \<le> al8 n" "al8 n < n + 8" unfolding al8_def by linarith+
  show "8 dvd al8 n" by (simp add: al8_def)
qed

text \<open>\<open>n\<close> bytes from offset \<open>r\<close>, and the buffer with \<open>bs\<close> written from offset \<open>w\<close>.\<close>

definition cyc :: "buffer \<Rightarrow> nat \<Rightarrow> nat \<Rightarrow> 8 word list" where
  "cyc mem r n = map (\<lambda>i. mem ! ((r + i) mod length mem)) [0..<n]"

definition cdist :: "nat \<Rightarrow> nat \<Rightarrow> nat \<Rightarrow> nat" where
  "cdist c w j = nat ((int j - int w) mod int c)"

definition cput :: "buffer \<Rightarrow> nat \<Rightarrow> 8 word list \<Rightarrow> buffer" where
  "cput mem w bs = map (\<lambda>j. if cdist (length mem) w j < length bs then bs ! cdist (length mem) w j else mem ! j) [0..<length mem]"

lemma length_cyc [simp]: "length (cyc mem r n) = n"
  by (simp add: cyc_def)

lemma length_cput [simp]: "length (cput mem w bs) = length mem"
  by (simp add: cput_def)

lemma cyc_add: "cyc mem r (a + b) = cyc mem r a @ cyc mem ((r + a) mod length mem) b"
proof -
  have "[0..<a + b] = [0..<a] @ map (\<lambda>i. a + i) [0..<b]" by (induction b) simp_all
  then show ?thesis by (simp add: cyc_def mod_add_left_eq add.assoc)
qed

lemma cyc_straight:
  assumes "r + n \<le> length mem"
  shows "cyc mem r n = take n (drop r mem)"
  using assms by (intro nth_equalityI) (simp_all add: cyc_def)

lemma cdist_add: "c > 0 \<Longrightarrow> k < c \<Longrightarrow> cdist c ((r + n) mod c) ((r + k) mod c) = (if n \<le> k then k - n else c + k - n) mod c" if "n \<le> c"
proof -
  assume c: "c > 0" "k < c"
  have "(int ((r + k) mod c) - int ((r + n) mod c)) mod int c = (int (r + k) - int (r + n)) mod int c"
    by (simp add: of_nat_mod mod_diff_eq)
  also have "\<dots> = (int k - int n) mod int c" by simp
  also have "\<dots> = int ((if n \<le> k then k - n else c + k - n) mod c)"
  proof (cases "n \<le> k")
    case False
    have "(int k - int n) mod int c = (int k - int n + int c) mod int c" by simp
    also have "int k - int n + int c = int (c + k - n)" using that by simp
    finally show ?thesis using False by (simp add: of_nat_mod)
  qed (simp add: of_nat_mod of_nat_diff)
  finally show ?thesis by (simp add: cdist_def)
qed

lemma cyc_cput:
  assumes "n + length bs \<le> length mem" "mem \<noteq> []"
  shows "cyc (cput mem ((r + n) mod length mem) bs) r (n + length bs) = cyc mem r n @ bs"
proof (rule nth_equalityI)
  let ?c = "length mem" let ?w = "(r + n) mod length mem"
  fix k assume "k < length (cyc (cput mem ?w bs) r (n + length bs))"
  then have k: "k < n + length bs" "k < ?c" using assms(1) by simp_all
  have d: "cdist ?c ?w ((r + k) mod ?c) = (if n \<le> k then k - n else ?c + k - n) mod ?c"
    by (rule cdist_add) (use assms k in auto)
  have idx: "(r + k) mod ?c < ?c" using assms(2) by simp
  show "cyc (cput mem ?w bs) r (n + length bs) ! k = (cyc mem r n @ bs) ! k"
    using k d idx assms(1) by (auto simp: cyc_def cput_def nth_append)
qed simp

text \<open>The code writes in straight pieces.\<close>

lemma cdist_straight: "w \<le> j \<Longrightarrow> j < c \<Longrightarrow> cdist c w j = j - w"
  by (simp add: cdist_def flip: of_nat_diff)

lemma cdist_before: "j < w \<Longrightarrow> w \<le> c \<Longrightarrow> cdist c w j = c + j - w"
proof -
  assume a: "j < w" "w \<le> c"
  have "(int j - int w) mod int c = (int j - int w + int c) mod int c" by simp
  also have "int j - int w + int c = int (c + j - w)" using a by simp
  finally show ?thesis using a by (simp add: cdist_def)
qed

lemma put_cput:
  assumes "w + length bs \<le> length mem"
  shows "take w mem @ bs @ drop (w + length bs) mem = cput mem w bs"
proof (rule nth_equalityI)
  fix j assume "j < length (take w mem @ bs @ drop (w + length bs) mem)"
  then have j: "j < length mem" using assms by simp
  show "(take w mem @ bs @ drop (w + length bs) mem) ! j = cput mem w bs ! j"
    using j assms by (cases "j < w") (auto simp: cput_def nth_append cdist_straight cdist_before)
qed (use assms in simp)

lemma cput_cput:
  assumes "length xs + length ys \<le> length mem" "w < length mem"
  shows "cput (cput mem w xs) ((w + length xs) mod length mem) ys = cput mem w (xs @ ys)"
proof (rule nth_equalityI)
  let ?c = "length mem"
  fix j assume "j < length (cput (cput mem w xs) ((w + length xs) mod ?c) ys)"
  then have j: "j < ?c" by simp
  define k where "k = cdist ?c w j"
  have "0 < int ?c" using j by linarith
  then have m: "(int j - int w) mod int ?c < int ?c" "0 \<le> (int j - int w) mod int ?c" by (rule pos_mod_bound, rule pos_mod_sign)
  then have k: "k < ?c" unfolding k_def cdist_def by linarith
  have "int ((w + k) mod ?c) = (int w + (int j - int w) mod int ?c) mod int ?c" using m(2) by (simp add: k_def cdist_def of_nat_mod)
  also have "\<dots> = int j" using j by (simp add: mod_add_right_eq)
  finally have jk: "(w + k) mod ?c = j" by simp
  have "cdist ?c ((w + length xs) mod ?c) ((w + k) mod ?c) = (if length xs \<le> k then k - length xs else ?c + k - length xs) mod ?c"
    by (rule cdist_add) (use assms k in auto)
  then have d: "cdist ?c ((w + length xs) mod ?c) j = (if length xs \<le> k then k - length xs else ?c + k - length xs)"
    unfolding jk using k assms(1) by (auto split: if_splits)
  show "cput (cput mem w xs) ((w + length xs) mod ?c) ys ! j = cput mem w (xs @ ys) ! j"
    using j d k assms(1) by (auto simp: cput_def nth_append simp flip: k_def)
qed simp

section \<open>The messages in the buffer\<close>

text \<open>A message is stored as its length, its bytes and padding.\<close>

definition enc :: "8 word list \<Rightarrow> 8 word list \<Rightarrow> bool" where
  "enc m e \<longleftrightarrow> length e = need m \<and> (\<exists>pad. e = to_le 8 (length m) @ m @ pad)"

definition region :: "buffer \<Rightarrow> nat \<Rightarrow> nat \<Rightarrow> nat \<Rightarrow> 8 word list list \<Rightarrow> bool" where
  "region mem c rd wr q \<longleftrightarrow> length mem = c \<and> c < 2 ^ 63 \<and> 8 dvd c \<and> rd < c \<and> 8 dvd rd \<and> wr = (rd + used q) mod c \<and> used q \<le> c \<and>
     (\<exists>es. list_all2 enc q es \<and> cyc mem rd (used q) = concat es)"

lemma used_simps [simp]: "used [] = 0" "used (m # q) = need m + used q" "used (q @ p) = used q + used p"
  by (simp_all add: used_def)

lemma need_ge: "8 \<le> need m" "length m < need m" "8 dvd need m"
  using al8_ge [of "length m"] by (simp_all add: need_def)

lemma used_dvd: "8 dvd used q"
  by (induction q) (simp_all add: need_ge(3))

lemma used_0: "used q = 0 \<longleftrightarrow> q = []"
  by (cases q) (simp_all add: need_def)

lemma dvd_room: "8 dvd (x :: nat) \<Longrightarrow> 8 dvd c \<Longrightarrow> x < c \<Longrightarrow> x + 8 \<le> c"
  by (elim dvdE) simp

lemma region_start: "length mem = c \<Longrightarrow> c < 2 ^ 63 \<Longrightarrow> 8 dvd c \<Longrightarrow> rd < c \<Longrightarrow> 8 dvd rd \<Longrightarrow> region mem c rd rd []"
  by (simp add: region_def cyc_def)

lemma region_wr:
  assumes "region mem c rd wr q"
  shows "wr < c" "8 dvd wr" "wr + 8 \<le> c" "rd + 8 \<le> c"
proof -
  have c: "rd < c" "8 dvd c" "8 dvd rd" "wr = (rd + used q) mod c" using assms by (simp_all add: region_def)
  then show w: "wr < c" "8 dvd wr" using used_dvd [of q] by (simp_all add: dvd_mod)
  show "wr + 8 \<le> c" "rd + 8 \<le> c" using dvd_room w c by blast+
qed

lemma region_head:
  assumes "region mem c rd wr (m # q)"
  shows "ld 8 mem (int rd) = Some (length m)" "\<exists>pad. cyc mem ((rd + 8) mod c) (al8 (length m)) = m @ pad"
    "region mem c ((rd + need m) mod c) wr q" "length m < 2 ^ 63"
proof -
  have r: "length mem = c" "c < 2 ^ 63" "8 dvd c" "rd < c" "8 dvd rd" "wr = (rd + (need m + used q)) mod c" "need m + used q \<le> c"
    using assms by (simp_all add: region_def)
  obtain e es where e: "enc m e" "list_all2 enc q es" "cyc mem rd (need m + used q) = e @ concat es"
    using assms by (auto simp: region_def list_all2_Cons1)
  obtain pad where pad: "e = to_le 8 (length m) @ m @ pad" "length e = need m" using e(1) by (auto simp: enc_def)
  have split: "cyc mem rd (need m) = e" "cyc mem ((rd + need m) mod c) (used q) = concat es"
    using e(3) pad(2) r(1) by (simp_all add: cyc_add)
  have head: "cyc mem rd 8 = to_le 8 (length m)" "cyc mem ((rd + 8) mod c) (al8 (length m)) = m @ pad"
    using split(1) r(1) unfolding need_def pad(1) by (simp_all add: cyc_add)
  show "\<exists>pad. cyc mem ((rd + 8) mod c) (al8 (length m)) = m @ pad" using head(2) by blast
  show m: "length m < 2 ^ 63" using need_ge(2) [of m] r(2,7) by linarith
  have in8: "rd + 8 \<le> length mem" using region_wr(4) [OF assms] r(1) by simp
  then have "take 8 (drop rd mem) = to_le 8 (length m)" using head(1) by (simp add: cyc_straight)
  then show "ld 8 mem (int rd) = Some (length m)" using in8 m by (simp add: ld_def le_nat_to_le)
  have "8 dvd (rd + need m) mod c" using r(3,5) need_ge(3) [of m] by (simp add: dvd_mod)
  moreover have "wr = ((rd + need m) mod c + used q) mod c" using r(6) by (simp add: mod_add_left_eq add.assoc)
  ultimately show "region mem c ((rd + need m) mod c) wr q" unfolding region_def using r e(2) split(2) by auto
qed

text \<open>Moving a pointer forward by \<open>n\<close> bytes as the code does.\<close>

lemma move_wrap:
  assumes "(p :: nat) \<le> c" "n \<le> c" "p + n < 2 * c"
  shows "(let q = (if c - p < n then n - (c - p) else p + n) in if q = c then 0 else q) = (p + n) mod c"
proof (cases "p + n \<le> c")
  case False
  then have "(p + n) mod c = p + n - c" using assms by (simp add: mod_if [of "p + n"])
  then show ?thesis using False assms by (auto simp: Let_def)
qed (use assms in \<open>auto simp: Let_def\<close>)

lemma free_bytes:
  assumes "region mem c rd wr q" "used q < c"
  shows "c - nat ((int wr - int rd + int c) mod 2 ^ 64) mod c = c - used q"
proof -
  have r: "rd < c" "c < 2 ^ 63" "wr = (rd + used q) mod c" using assms(1) by (simp_all add: region_def)
  have "int wr < int c" using region_wr(1) [OF assms(1)] by simp
  then have "(int wr - int rd + int c) mod 2 ^ 64 = int wr - int rd + int c" using r(1,2) by (intro mod_pos_pos_trivial) simp_all
  then have "int (nat ((int wr - int rd + int c) mod 2 ^ 64) mod c) = (int wr - int rd + int c) mod int c"
    using r(1) \<open>int wr < int c\<close> by (simp add: of_nat_mod)
  also have "\<dots> = (int wr - int rd) mod int c" by simp
  also have "\<dots> = (int (rd + used q) - int rd) mod int c" unfolding r(3) of_nat_mod by (rule mod_diff_left_eq)
  also have "\<dots> = int (used q)" using assms(2) by simp
  finally show ?thesis by linarith
qed

lemma ring_room_ok:
  "region mem c rd wr q \<Longrightarrow> used q < c \<Longrightarrow> s \<le> c \<Longrightarrow>
     \<exists>rd' wr'. ring_room c mem s rd wr = Some (rd', wr') \<and> region mem c rd' wr' (make_room c s q) \<and> used (make_room c s q) + s \<le> c"
proof (induction q arbitrary: rd wr)
  case Nil
  then have "ring_room c mem s rd wr = Some (rd, wr)" using free_bytes [OF Nil(1,2)] by (simp add: ring_room.simps)
  then show ?case using Nil by simp
next
  case (Cons m q)
  note free = free_bytes [OF Cons.prems(1,2)]
  note h = region_head [OF Cons.prems(1)]
  have c: "c < 2 ^ 63" "rd < c" "length mem = c" "8 dvd c" using Cons.prems(1) by (simp_all add: region_def)
  have off: "(8 + evaluate_aligned_size (length m)) mod 2 ^ 64 = need m" "need m \<le> c"
    using Cons.prems(2) c(1) by (simp_all add: aligned_size [OF h(4)] need_def)
  have wrap: "(let q = (if c - rd < need m then need m - (c - rd) else rd + need m) in if q = c then 0 else q) = (rd + need m) mod c"
    using c off(2) by (intro move_wrap) simp_all
  show ?case
  proof (cases "c - used (m # q) < s")
    case False
    then have "ring_room c mem s rd wr = Some (rd, wr)" using free by (simp add: ring_room.simps)
    then show ?thesis using False Cons.prems by auto
  next
    case True
    have step: "ring_room c mem s rd wr = (if (rd + need m) mod c = wr then ring_room c mem s 0 0 else ring_room c mem s ((rd + need m) mod c) wr)"
      unfolding ring_room.simps [of c mem s rd wr] free h(1)
      by (simp only: True if_True Option.bind.bind_lunit Let_def off(1) wrap [unfolded Let_def])
    have lt: "used q < c" using Cons.prems(2) by simp
    have "wr = ((rd + need m) mod c + used q) mod c" using h(3) by (simp add: region_def)
    moreover have "(x + used q) mod c = x \<longleftrightarrow> q = []" if "x < c" for x
      using that lt used_0 [of q] by (auto simp: mod_if [of "x + used q"])
    moreover have "(rd + need m) mod c < c" using c(2) by simp
    ultimately have eq: "(rd + need m) mod c = wr \<longleftrightarrow> q = []" by metis
    have start: "region mem c 0 0 []" using c by (intro region_start) auto
    have room: "make_room c s (m # q) = make_room c s q" using True by simp
    show ?thesis
    proof (cases "q = []")
      case True
      then show ?thesis unfolding step room using eq Cons.IH [of 0 0] start Cons.prems(3) c(2) by simp
    next
      case False
      then show ?thesis unfolding step room using eq Cons.IH [OF h(3) lt Cons.prems(3)] by simp
    qed
  qed
qed

section \<open>Pushing\<close>

lemma cput_Nil [simp]: "cput mem w [] = mem"
  by (rule nth_equalityI) (simp_all add: cput_def)

lemma write_data_ok:
  assumes "length mem = c" "w \<le> c" "n + 8 \<le> c" "n \<le> length xs"
  shows "\<exists>w'. ring_write_data c mem w xs n = Some (cput mem (w mod c) (take n xs), w') \<and> (if w' = c then 0 else w') = (w + n) mod c"
proof -
  let ?f = "c - w" let ?w = "if ?f < n then n - ?f else w + n"
  have wrap: "(if ?w = c then 0 else ?w) = (w + n) mod c" using move_wrap [of w c n] assms by (simp add: Let_def)
  have "ring_write_data c mem w xs n = Some (cput mem (w mod c) (take n xs), ?w)"
  proof (cases "?f < n")
    case True
    have xs: "take ?f xs @ take (n - ?f) (drop ?f xs) = take n xs" using True by (metis le_add_diff_inverse less_imp_le take_add)
    have put1: "put_bytes mem w (take ?f xs) = Some (cput mem w (take ?f xs))"
      using True assms put_cput [of w "take ?f xs" mem] by (simp add: put_bytes_def)
    have put2: "put_bytes b 0 (take (n - ?f) (drop ?f xs)) = Some (cput b 0 (take (n - ?f) (drop ?f xs)))" if "length b = c" for b
      using True assms that put_cput [of 0 "take (n - ?f) (drop ?f xs)" b] by (simp add: put_bytes_def)
    have "cput (cput mem w (take ?f xs)) 0 (take (n - ?f) (drop ?f xs)) = cput mem (w mod c) (take n xs)"
    proof (cases "w = c")
      case False
      then show ?thesis using cput_cput [of "take ?f xs" "take (n - ?f) (drop ?f xs)" mem w] True assms xs by simp
    qed simp
    then show ?thesis using True assms put1 put2 by (simp add: ring_write_data_def get_bytes_def)
  next
    case False
    then have "w + n \<le> c" "w = c \<Longrightarrow> n = 0" using assms(2) by simp_all
    then have "cput mem w (take n xs) = cput mem (w mod c) (take n xs)" using assms(2) by (cases "w = c") simp_all
    then show ?thesis using False assms put_cput [of w "take n xs" mem] by (simp add: ring_write_data_def get_bytes_def put_bytes_def)
  qed
  then show ?thesis using wrap by blast
qed

definition ring_rep :: "nat \<Rightarrow> ring \<Rightarrow> 8 word list list \<Rightarrow> bool" where
  "ring_rep c r q \<longleftrightarrow> ring_capacity r = c \<and> length (ring_mem r) = c \<and> c < 2 ^ 63 \<and> 8 dvd c \<and>
     (case ring_read r of None \<Rightarrow> q = [] | Some rd \<Rightarrow> q \<noteq> [] \<and> (\<exists>wr. ring_write r = Some wr \<and> region (ring_mem r) c rd wr q))"

lemma enc_node:
  assumes "node_ok c n"
  defines "m \<equiv> take (node_size n) (node_data n)"
  shows "length m = node_size n" "enc m (to_le 8 (node_size n) @ take (al8 (node_size n)) (node_data n))" "need m = 8 + al8 (node_size n)"
proof -
  have n: "node_size n \<le> length (node_data n)" "al8 (node_size n) \<le> length (node_data n)" "node_size n \<le> al8 (node_size n)"
    using assms(1) al8_ge(1) [of "node_size n"] by (auto simp: node_ok_def)
  show l: "length m = node_size n" using n by (simp add: m_def)
  show need: "need m = 8 + al8 (node_size n)" unfolding need_def l ..
  have "take (al8 (node_size n)) (node_data n) = m @ take (al8 (node_size n) - node_size n) (drop (node_size n) (node_data n))"
    unfolding m_def using n(3) by (metis le_add_diff_inverse take_add)
  then show "enc m (to_le 8 (node_size n) @ take (al8 (node_size n)) (node_data n))" unfolding enc_def need using n l by simp
qed

text \<open>Writing a node behind the messages that are kept.\<close>

lemma push_region:
  assumes "region mem c rd wr q" "node_ok c n" "used q + (8 + al8 (node_size n)) \<le> c"
  shows "\<exists>mem1 mem2 w. st 8 mem (int wr) (node_size n) = Some mem1 \<and> ring_write_data c mem1 (wr + 8) (node_data n) (al8 (node_size n)) = Some (mem2, w) \<and>
    region mem2 c rd (if w = c then 0 else w) (q @ [take (node_size n) (node_data n)])"
proof -
  let ?h = "to_le 8 (node_size n)" let ?d = "take (al8 (node_size n)) (node_data n)" let ?m = "take (node_size n) (node_data n)"
  note e = enc_node [OF assms(2)]
  have r: "length mem = c" "c < 2 ^ 63" "8 dvd c" "rd < c" "8 dvd rd" "wr = (rd + used q) mod c" using assms(1) by (simp_all add: region_def)
  obtain es where es: "list_all2 enc q es" "cyc mem rd (used q) = concat es" using assms(1) by (auto simp: region_def)
  have n: "al8 (node_size n) + 8 \<le> c" "al8 (node_size n) \<le> length (node_data n)" using assms(2) by (simp_all add: node_ok_def)
  have w8: "wr + 8 \<le> c" "wr < c" using region_wr [OF assms(1)] by simp_all
  have mem1: "st 8 mem (int wr) (node_size n) = Some (cput mem wr ?h)" using w8 r(1) put_cput [of wr ?h mem] by (simp add: st_def)
  obtain w where w: "ring_write_data c (cput mem wr ?h) (wr + 8) (node_data n) (al8 (node_size n)) =
      Some (cput (cput mem wr ?h) ((wr + 8) mod c) ?d, w)" "(if w = c then 0 else w) = (wr + 8 + al8 (node_size n)) mod c"
    using write_data_ok [OF _ w8(1) n, of "cput mem wr ?h"] r(1) by auto
  have put: "cput (cput mem wr ?h) ((wr + 8) mod c) ?d = cput mem wr (?h @ ?d)"
    using cput_cput [of ?h ?d mem wr] n w8 r(1) by simp
  have len: "length (?h @ ?d) = need ?m" using n e(3) by simp
  have "cyc (cput mem wr (?h @ ?d)) rd (used q + need ?m) = concat (es @ [?h @ ?d])"
    using cyc_cput [of "used q" "?h @ ?d" mem rd] assms(3) r(1,4,6) es(2) len e(3) by fastforce
  moreover have "list_all2 enc (q @ [?m]) (es @ [?h @ ?d])" using es(1) e(2) by (simp add: list_all2_appendI)
  moreover have "(wr + 8 + al8 (node_size n)) mod c = (rd + used (q @ [?m])) mod c"
    unfolding r(6) using e(3) by (simp add: mod_add_left_eq add.assoc)
  ultimately have "region (cput mem wr (?h @ ?d)) c rd (if w = c then 0 else w) (q @ [?m])"
    unfolding region_def w(2) using r assms(3) e(3) by auto
  then show ?thesis using mem1 w(1) unfolding put by blast
qed

lemma ring_push_ok:
  assumes "ring_rep c r q" "node_ok c n"
  shows "\<exists>r'. ring_push r n = Some r' \<and> ring_rep c r' (queue_push c q (take (node_size n) (node_data n)))"
proof -
  let ?m = "take (node_size n) (node_data n)" let ?s = "8 + al8 (node_size n)"
  have r: "ring_capacity r = c" "length (ring_mem r) = c" "c < 2 ^ 63" "8 dvd c" using assms(1) by (simp_all add: ring_rep_def)
  have n: "node_size n < 2 ^ 63" "?s \<le> c" using assms(2) by (simp_all add: node_ok_def)
  have sz: "evaluate_aligned_size (node_size n) = al8 (node_size n)" "(8 + al8 (node_size n)) mod 2 ^ 64 = ?s"
    using aligned_size [OF n(1)] n(2) r(3) by simp_all
  obtain rd wr where p: "(case ring_read r of None \<Rightarrow> Some (0, 0) | Some rd \<Rightarrow> do { wr \<leftarrow> ring_write r; Some (rd, wr) }) = Some (rd, wr)"
    "region (ring_mem r) c rd wr q"
    using assms(1) r n(2) region_start [of "ring_mem r" c 0] by (cases "ring_read r") (auto simp: ring_rep_def)
  obtain rd' wr' q' where room: "ring_room c (ring_mem r) ?s rd wr = Some (rd', wr')" "region (ring_mem r) c rd' wr' q'"
    "used q' + ?s \<le> c" "queue_push c q ?m = q' @ [?m]"
  proof (cases "used q = c")
    case True
    have g: "rd < c" "8 dvd rd" "wr = rd" using p(2) True by (simp_all add: region_def)
    then have "ring_room c (ring_mem r) ?s rd wr = Some (rd, wr)" using r(3) n(2) by (simp add: ring_room.simps)
    then show thesis using that [of rd wr "[]"] region_start [OF r(2-4) g(1,2)] g(3) n(2) True by (simp add: queue_push_def)
  next
    case False
    then have "used q < c" using p(2) by (simp add: region_def)
    then show thesis using ring_room_ok [OF p(2) _ n(2)] that enc_node(3) [OF assms(2)] False by (auto simp: queue_push_def)
  qed
  obtain mem1 mem2 w where w: "st 8 (ring_mem r) (int wr') (node_size n) = Some mem1"
    "ring_write_data c mem1 (wr' + 8) (node_data n) (al8 (node_size n)) = Some (mem2, w)"
    "region mem2 c rd' (if w = c then 0 else w) (q' @ [?m])"
    using push_region [OF room(2) assms(2) room(3)] by blast
  have "ring_push r n = Some (r\<lparr>ring_mem := mem2, ring_write := Some (if w = c then 0 else w), ring_read := Some rd'\<rparr>)"
    unfolding ring_push_def p(1) using r(1) n(2) sz room(1) w(1,2) by (simp add: Let_def)
  moreover have "ring_rep c (r\<lparr>ring_mem := mem2, ring_write := Some (if w = c then 0 else w), ring_read := Some rd'\<rparr>) (q' @ [?m])"
    using w(3) r by (simp add: ring_rep_def region_def)
  ultimately show ?thesis using room(4) by metis
qed

section \<open>Popping\<close>

lemma read_data_ok:
  assumes "length mem = c" "w \<le> c" "n + 8 \<le> c"
  shows "\<exists>w'. ring_read_data c mem w n = Some (cyc mem (w mod c) n, w') \<and> (if w' = c then 0 else w') = (w + n) mod c"
proof -
  let ?f = "c - w" let ?w = "if ?f < n then n - ?f else w + n"
  have wrap: "(if ?w = c then 0 else ?w) = (w + n) mod c" using move_wrap [of w c n] assms by (simp add: Let_def)
  have "ring_read_data c mem w n = Some (cyc mem (w mod c) n, ?w)"
  proof (cases "?f < n")
    case True
    have "cyc mem (w mod c) n = take ?f (drop w mem) @ take (n - ?f) mem"
    proof (cases "w = c")
      case False
      have "cyc mem w (?f + (n - ?f)) = cyc mem w ?f @ cyc mem 0 (n - ?f)"
        using assms(1,2) cyc_add [of mem w ?f "n - ?f"] by simp
      then show ?thesis using False True assms by (simp add: cyc_straight)
    qed (use assms in \<open>simp add: cyc_straight\<close>)
    then show ?thesis using True assms by (simp add: ring_read_data_def get_bytes_def)
  next
    case False
    then have "w + n \<le> c" "w = c \<Longrightarrow> n = 0" using assms(2) by simp_all
    then have "cyc mem (w mod c) n = take n (drop w mem)" using assms(1,2) by (cases "w = c") (simp_all add: cyc_straight)
    then show ?thesis using False assms by (simp add: ring_read_data_def get_bytes_def)
  qed
  then show ?thesis using wrap by blast
qed

lemma ring_pop_empty: "ring_rep c r [] \<Longrightarrow> ring_pop r = Some (\<lparr>node_size = 0, node_data = []\<rparr>, r)"
  by (auto simp: ring_rep_def ring_pop_def split: option.splits)

lemma ring_pop_ok:
  assumes "ring_rep c r (m # q)"
  shows "\<exists>r'. ring_pop r = Some (\<lparr>node_size = length m, node_data = m\<rparr>, r') \<and> ring_rep c r' q"
proof -
  obtain rd wr where r: "ring_capacity r = c" "length (ring_mem r) = c" "c < 2 ^ 63" "8 dvd c" "ring_read r = Some rd" "ring_write r = Some wr"
    "region (ring_mem r) c rd wr (m # q)"
    using assms by (auto simp: ring_rep_def split: option.splits)
  note h = region_head [OF r(7)]
  obtain pad where pad: "cyc (ring_mem r) ((rd + 8) mod c) (al8 (length m)) = m @ pad" using h(2) by blast
  have n: "al8 (length m) + 8 \<le> c" "rd + 8 \<le> c" using r(7) region_wr(4) [OF r(7)] by (simp_all add: region_def need_def)
  obtain w where w: "ring_read_data c (ring_mem r) (rd + 8) (al8 (length m)) = Some (m @ pad, w)"
    "(if w = c then 0 else w) = (rd + 8 + al8 (length m)) mod c"
    using read_data_ok [OF r(2) n(2,1)] pad by auto
  let ?rd = "(rd + need m) mod c"
  have rd': "(if w = c then 0 else w) = ?rd" using w(2) by (simp add: need_def add.assoc)
  let ?r = "if ?rd = wr then r\<lparr>ring_read := None, ring_write := None\<rparr> else r\<lparr>ring_read := Some ?rd\<rparr>"
  have pop: "ring_pop r = Some (\<lparr>node_size = length m, node_data = m\<rparr>, ?r)"
    unfolding ring_pop_def r(1,5,6) option.case h(1) using w(1) rd' by (simp add: aligned_size [OF h(4)] Let_def)
  have lt: "used q < c" using r(7) need_ge(1) [of m] by (simp add: region_def)
  have "wr = (?rd + used q) mod c" "?rd < c" using h(3) by (simp_all add: region_def)
  moreover have "(x + used q) mod c = x \<longleftrightarrow> q = []" if "x < c" for x
    using that lt used_0 [of q] by (auto simp: mod_if [of "x + used q"])
  ultimately have "?rd = wr \<longleftrightarrow> q = []" by metis
  then have "ring_rep c ?r q" using h(3) r by (simp add: ring_rep_def)
  then show ?thesis using pop by blast
qed

lemma ring_run_ok:
  "ring_rep c r q \<Longrightarrow> list_all (op_ok c) ops \<Longrightarrow>
     ring_run r ops = Some (map (\<lambda>m. \<lparr>node_size = length m, node_data = m\<rparr>) (queue_run c q ops))"
proof (induction ops arbitrary: r q)
  case (Cons op ops)
  show ?case
  proof (cases op)
    case (Ring_push n)
    then have "node_ok c n" using Cons.prems(2) by (simp add: op_ok_def)
    then obtain r' where "ring_push r n = Some r'" "ring_rep c r' (queue_push c q (take (node_size n) (node_data n)))"
      using ring_push_ok [OF Cons.prems(1)] by blast
    then show ?thesis using Cons.IH Cons.prems(2) Ring_push by simp
  next
    case Ring_pop
    show ?thesis
    proof (cases q)
      case Nil
      then show ?thesis using Cons ring_pop_empty [of c r] Ring_pop by simp
    next
      case (Cons m q')
      then obtain r' where "ring_pop r = Some (\<lparr>node_size = length m, node_data = m\<rparr>, r')" "ring_rep c r' q'"
        using ring_pop_ok \<open>ring_rep c r q\<close> by blast
      then show ?thesis using Cons.IH Cons.prems(2) Ring_pop Cons by simp
    qed
  qed
qed simp

lemma push_overread:
  "ring_push \<lparr>ring_capacity = 32, ring_mem = replicate 32 0, ring_write = None, ring_read = None\<rparr> \<lparr>node_size = 5, node_data = [1, 2, 3, 4, 5]\<rparr> = None"
proof -
  have "evaluate_aligned_size 5 = 8" by (simp add: aligned_size al8_def)
  moreover have "ring_room 32 (replicate 32 0) 16 0 0 = Some (0, 0)" by (simp add: ring_room.simps [of 32 _ 16 0 0])
  moreover have "ring_write_data 32 mem 8 [1, 2, 3, 4, 5] 8 = None" for mem by (simp add: ring_write_data_def get_bytes_def)
  ultimately show ?thesis by (simp add: ring_push_def st_def)
qed

lemma make_room_least:
  assumes "s \<le> c" "used q \<le> c"
  shows "\<exists>k. make_room c s q = drop k q \<and> used (drop k q) + s \<le> c \<and> (\<forall>j<k. c < used (drop j q) + s)"
  using assms(2)
proof (induction q)
  case Nil
  show ?case using assms(1) by (intro exI [of _ 0]) simp
next
  case (Cons m q)
  show ?case
  proof (cases "c - used (m # q) < s")
    case True
    obtain k where k: "make_room c s q = drop k q" "used (drop k q) + s \<le> c" "\<forall>j<k. c < used (drop j q) + s" using Cons by auto
    have "c < used (drop j (m # q)) + s" if "j < Suc k" for j using k(3) True that Cons.prems by (cases j) simp_all
    then show ?thesis using k True by (intro exI [of _ "Suc k"]) simp
  next
    case False
    then show ?thesis using Cons.prems by (intro exI [of _ 0]) simp
  qed
qed

section \<open>Property\<close>

text \<open>
  C11. The ring buffer is a queue that drops its oldest messages. After a successful \<open>init\<close> every sequence of \<open>push\<close> and
  \<open>pop\<close> runs inside the mapping, with the wrap-around of sizes, data and pointers, and every \<open>pop\<close> returns the oldest
  message that is still held, byte for byte; a push drops the least number of oldest messages that gives the new one
  room. The exception is a buffer that is exactly full: its equal pointers are taken for an empty buffer and the next
  push drops every message. A node whose vector is no longer than its size of 5 bytes is read beyond the vector.
\<close>

theorem ring_buffer_refines_queue:
  assumes "\<And>k mem. mmap k = Some mem \<Longrightarrow> length mem = k" "sz < 2 ^ 62" "ring_init mmap ring_new sz = (True, r)"
    "list_all (op_ok (ring_capacity r)) ops" "need m \<le> c" "used q < c"
  shows "ring_run r ops = Some (map (\<lambda>m. \<lparr>node_size = length m, node_data = m\<rparr>) (queue_run (ring_capacity r) [] ops)) \<and>
    (\<exists>k. queue_push c q m = drop k q @ [m] \<and> used (drop k q) + need m \<le> c \<and> (\<forall>j<k. c < used (drop j q) + need m)) \<and>
    queue_push (used q) q m = [m] \<and>
    ring_push \<lparr>ring_capacity = 32, ring_mem = replicate 32 0, ring_write = None, ring_read = None\<rparr> \<lparr>node_size = 5, node_data = [1, 2, 3, 4, 5]\<rparr> = None"
proof (intro conjI)
  obtain mem where mem: "mmap (evaluate_aligned_size sz) = Some mem"
    "r = \<lparr>ring_capacity = evaluate_aligned_size sz, ring_mem = mem, ring_write = None, ring_read = None\<rparr>"
    using assms(3) by (auto simp: ring_init_def Let_def split: option.splits)
  have c: "evaluate_aligned_size sz = al8 sz" using assms(2) by (intro aligned_size) simp
  have "ring_rep (ring_capacity r) r []"
    using mem assms(1,2) al8_ge [of sz] by (simp add: ring_rep_def c)
  then show "ring_run r ops = Some (map (\<lambda>m. \<lparr>node_size = length m, node_data = m\<rparr>) (queue_run (ring_capacity r) [] ops))"
    using ring_run_ok assms(4) by blast
  show "\<exists>k. queue_push c q m = drop k q @ [m] \<and> used (drop k q) + need m \<le> c \<and> (\<forall>j<k. c < used (drop j q) + need m)"
    using make_room_least [OF assms(5), of q] assms(6) by (auto simp: queue_push_def)
  show "queue_push (used q) q m = [m]" by (simp add: queue_push_def)
  show "ring_push \<lparr>ring_capacity = 32, ring_mem = replicate 32 0, ring_write = None, ring_read = None\<rparr> \<lparr>node_size = 5, node_data = [1, 2, 3, 4, 5]\<rparr> = None"
    by (rule push_overread)
qed

text \<open>Three messages of 8 bytes in 40 bytes: the third drops the first; the last wraps around. Then a buffer of 32 bytes is filled.\<close>

theorem ring_buffer_refines_queue_witness:
  "\<exists>r. ring_init (\<lambda>k. Some (replicate k 0)) ring_new 37 = (True, r) \<and>
     ring_run r [Ring_push \<lparr>node_size = 8, node_data = [1, 2, 3, 4, 5, 6, 7, 8]\<rparr>, Ring_push \<lparr>node_size = 3, node_data = [9, 9, 9, 0, 0, 0, 0, 0]\<rparr>,
       Ring_push \<lparr>node_size = 1, node_data = [7, 0, 0, 0, 0, 0, 0, 0]\<rparr>, Ring_pop, Ring_pop, Ring_pop] =
     Some [\<lparr>node_size = 3, node_data = [9, 9, 9]\<rparr>, \<lparr>node_size = 1, node_data = [7]\<rparr>, \<lparr>node_size = 0, node_data = []\<rparr>] \<and>
     queue_push 32 [[1, 2, 3, 4, 5, 6, 7, 8], [9 :: 8 word]] [10] = [[10]]"
proof -
  let ?mmap = "\<lambda>k. Some (replicate k 0)"
  let ?ops = "[Ring_push \<lparr>node_size = 8, node_data = [1, 2, 3, 4, 5, 6, 7, 8]\<rparr>, Ring_push \<lparr>node_size = 3, node_data = [9, 9, 9, 0, 0, 0, 0, 0]\<rparr>,
       Ring_push \<lparr>node_size = 1, node_data = [7, 0, 0, 0, 0, 0, 0, 0]\<rparr>, Ring_pop, Ring_pop, Ring_pop]"
  let ?r = "\<lparr>ring_capacity = 40, ring_mem = replicate 40 0, ring_write = None, ring_read = None\<rparr>"
  have r: "ring_init ?mmap ring_new 37 = (True, ?r)" by (simp add: ring_init_def Let_def aligned_size al8_def)
  have mm: "length mem = k" if "?mmap k = Some mem" for k mem using that by auto
  have sz: "(37 :: nat) < 2 ^ 62" by simp
  have ok: "list_all (op_ok (ring_capacity ?r)) ?ops" by (simp add: op_ok_def node_ok_def al8_def)
  have q: "queue_run (ring_capacity ?r) [] ?ops = [[9, 9, 9], [7], []]" by (simp add: queue_push_def need_def al8_def)
  let ?q = "[[1, 2, 3, 4, 5, 6, 7, 8], [9 :: 8 word]]"
  have u: "need [10 :: 8 word] \<le> 40" "used ?q < 40" "used ?q = 32" by (simp_all add: need_def al8_def)
  note th = ring_buffer_refines_queue [OF mm sz r ok u(1,2)]
  have "queue_push (used ?q) ?q [10] = [[10]]" by (rule conjunct1 [OF conjunct2 [OF conjunct2 [OF th]]])
  with conjunct1 [OF th] show ?thesis using r unfolding q u(3) by (intro exI [of _ ?r]) simp
qed

end
