(* ===== verification/Trie.thy ===== *)
theory Trie
  imports Prelude "HOL-Library.Monad_Syntax" "HOL-Library.Sublist" "HOL-Library.Multiset"
begin

text \<open>
  \<open>cpp/datastructure/tree/trie.h\<close>: a prefix tree of nodes on the heap. A node has an address, the map of its children
  is a list of entries; in which order \<open>std::unordered_map\<close> delivers the entries to the destructor is an argument of the
  model. Following a pointer to no node gives \<open>None\<close>.
\<close>

section \<open>The operations\<close>

record tnode =
  tn_end :: bool
  tn_children :: "(char \<times> nat) list"

record trie =
  tr_nodes :: "nat \<rightharpoonup> tnode"
  tr_root :: nat
  tr_next :: nat

definition tnode_new :: tnode where
  "tnode_new = \<lparr>tn_end = False, tn_children = []\<rparr>"

definition trie_new :: trie where
  "trie_new = \<lparr>tr_nodes = [0 \<mapsto> tnode_new], tr_root = 0, tr_next = 1\<rparr>"

definition add_child :: "trie \<Rightarrow> nat \<Rightarrow> tnode \<Rightarrow> char \<Rightarrow> trie" where
  "add_child t tmp n ch =
     t\<lparr>tr_nodes := (tr_nodes t)(tr_next t \<mapsto> tnode_new, tmp \<mapsto> n\<lparr>tn_children := tn_children n @ [(ch, tr_next t)]\<rparr>),
       tr_next := Suc (tr_next t)\<rparr>"

fun trie_insert_loop :: "trie \<Rightarrow> nat \<Rightarrow> string \<Rightarrow> (trie \<times> nat) option" where
  "trie_insert_loop t tmp [] = Some (t, tmp)"
| "trie_insert_loop t tmp (ch # s) =
     do { n \<leftarrow> tr_nodes t tmp;
          let t = (if map_of (tn_children n) ch = None then add_child t tmp n ch else t);
          n \<leftarrow> tr_nodes t tmp;
          tmp \<leftarrow> map_of (tn_children n) ch;
          trie_insert_loop t tmp s }"

definition set_end :: "trie \<Rightarrow> nat \<Rightarrow> trie option" where
  "set_end t tmp = do { n \<leftarrow> tr_nodes t tmp; Some (t\<lparr>tr_nodes := (tr_nodes t)(tmp \<mapsto> n\<lparr>tn_end := True\<rparr>)\<rparr>) }"

definition trie_insert :: "trie \<Rightarrow> string \<Rightarrow> (bool \<times> trie) option" where
  "trie_insert t s =
     do { (t, tmp) \<leftarrow> trie_insert_loop t (tr_root t) s;
          t \<leftarrow> set_end t tmp;
          Some (True, t) }"

fun query_loop :: "trie \<Rightarrow> nat \<Rightarrow> string \<Rightarrow> bool option" where
  "query_loop t tmp [] = map_option tn_end (tr_nodes t tmp)"
| "query_loop t tmp (ch # s) =
     do { n \<leftarrow> tr_nodes t tmp;
          case map_of (tn_children n) ch of None \<Rightarrow> Some False | Some tmp \<Rightarrow> query_loop t tmp s }"

definition trie_query :: "trie \<Rightarrow> string \<Rightarrow> bool option" where
  "trie_query t s = query_loop t (tr_root t) s"

fun start_with_loop :: "trie \<Rightarrow> nat \<Rightarrow> string \<Rightarrow> bool option" where
  "start_with_loop t tmp [] = Some True"
| "start_with_loop t tmp (ch # s) =
     do { n \<leftarrow> tr_nodes t tmp;
          case map_of (tn_children n) ch of None \<Rightarrow> Some False | Some tmp \<Rightarrow> start_with_loop t tmp s }"

definition trie_start_with :: "trie \<Rightarrow> string \<Rightarrow> bool option" where
  "trie_start_with t s = start_with_loop t (tr_root t) s"

text \<open>\<open>_destroy\<close> on a list of siblings; the result is the heap and the sequence of deleted nodes.\<close>

partial_function (option) destroy_nodes ::
  "((char \<times> nat) list \<Rightarrow> (char \<times> nat) list) \<Rightarrow> (nat \<rightharpoonup> tnode) \<Rightarrow> nat list \<Rightarrow> ((nat \<rightharpoonup> tnode) \<times> nat list) option" where
  "destroy_nodes order h as =
     (case as of
        [] \<Rightarrow> Some (h, [])
      | a # as \<Rightarrow> do {
          n \<leftarrow> h a;
          (h, d) \<leftarrow> destroy_nodes order h (map snd (order (tn_children n)));
          (h, e) \<leftarrow> destroy_nodes order (h(a := None)) as;
          Some (h, d @ a # e) })"

definition trie_destroy :: "((char \<times> nat) list \<Rightarrow> (char \<times> nat) list) \<Rightarrow> trie \<Rightarrow> ((nat \<rightharpoonup> tnode) \<times> nat list) option" where
  "trie_destroy order t = destroy_nodes order (tr_nodes t) [tr_root t]"

section \<open>The tree in the heap\<close>

datatype tt = TT (ta: nat) (te: bool) (tk: "(char \<times> tt) list")

definition kids_of :: "(char \<times> tt) list \<Rightarrow> (char \<times> nat) list" where
  "kids_of ks = map (\<lambda>(c, x). (c, ta x)) ks"

fun tt_addrs :: "tt \<Rightarrow> nat list" where
  "tt_addrs (TT a e ks) = a # concat (map (\<lambda>(c, x). tt_addrs x) ks)"

fun tree_in :: "(nat \<rightharpoonup> tnode) \<Rightarrow> tt \<Rightarrow> bool" where
  "tree_in h (TT a e ks) \<longleftrightarrow> h a = Some \<lparr>tn_end = e, tn_children = kids_of ks\<rparr> \<and> distinct (map fst ks) \<and>
     (\<forall>(c, x)\<in>set ks. tree_in h x)"

text \<open>The words of a tree, and whether a string leads to a node.\<close>

primrec has_word :: "string \<Rightarrow> tt \<Rightarrow> bool" where
  "has_word [] x \<longleftrightarrow> te x"
| "has_word (c # s) x \<longleftrightarrow> (case map_of (tk x) c of None \<Rightarrow> False | Some y \<Rightarrow> has_word s y)"

primrec has_path :: "string \<Rightarrow> tt \<Rightarrow> bool" where
  "has_path [] x \<longleftrightarrow> True"
| "has_path (c # s) x \<longleftrightarrow> (case map_of (tk x) c of None \<Rightarrow> False | Some y \<Rightarrow> has_path s y)"

lemma map_of_kids: "map_of (kids_of ks) c = map_option ta (map_of ks c)"
  by (induction ks) (auto simp: kids_of_def)

lemma tree_in_node: "tree_in h x \<Longrightarrow> h (ta x) = Some \<lparr>tn_end = te x, tn_children = kids_of (tk x)\<rparr>"
  by (cases x) simp

lemma tree_in_kid: "tree_in h x \<Longrightarrow> map_of (tk x) c = Some y \<Longrightarrow> tree_in h y"
  by (cases x) (auto dest: map_of_SomeD)

lemma trie_query_ok: "tree_in (tr_nodes t) x \<Longrightarrow> query_loop t (ta x) s = Some (has_word s x)"
proof (induction s arbitrary: x)
  case (Cons c s)
  then show ?case using tree_in_node [OF Cons.prems] tree_in_kid [OF Cons.prems] by (auto simp: map_of_kids split: option.splits)
qed (simp add: tree_in_node)

lemma trie_start_with_ok: "tree_in (tr_nodes t) x \<Longrightarrow> start_with_loop t (ta x) s = Some (has_path s x)"
proof (induction s arbitrary: x)
  case (Cons c s)
  then show ?case using tree_in_node [OF Cons.prems] tree_in_kid [OF Cons.prems] by (auto simp: map_of_kids split: option.splits)
qed simp

lemma tree_in_cong: "(\<And>a. a \<in> set (tt_addrs x) \<Longrightarrow> h' a = h a) \<Longrightarrow> tree_in h' x = tree_in h x"
proof (induction x)
  case (TT a e ks)
  have "tree_in h' x = tree_in h x" if "(c, x) \<in> set ks" for c x
    by (rule TT.IH [of "(c, x)" x]) (use that TT.prems in force)+
  then show ?case using TT.prems [of a] by (auto simp: case_prod_beta)
qed

section \<open>Insertion\<close>

text \<open>\<open>x'\<close> in \<open>t'\<close> is \<open>x\<close> in \<open>t\<close> with the word \<open>s\<close>; the rest of the heap is as before and the new nodes are fresh.\<close>

definition grown :: "trie \<Rightarrow> tt \<Rightarrow> string \<Rightarrow> trie \<Rightarrow> tt \<Rightarrow> bool" where
  "grown t x s t' x' \<longleftrightarrow> tree_in (tr_nodes t') x' \<and> ta x' = ta x \<and> distinct (tt_addrs x') \<and> tr_next t \<le> tr_next t' \<and> tr_root t' = tr_root t \<and>
     set (tt_addrs x') = set (tt_addrs x) \<union> {tr_next t..<tr_next t'} \<and> dom (tr_nodes t') = dom (tr_nodes t) \<union> {tr_next t..<tr_next t'} \<and>
     (\<forall>a. a \<notin> set (tt_addrs x) \<longrightarrow> a < tr_next t \<longrightarrow> tr_nodes t' a = tr_nodes t a) \<and>
     (\<forall>w. has_word w x' \<longleftrightarrow> w = s \<or> has_word w x) \<and> (\<forall>w. has_path w x' \<longleftrightarrow> prefix w s \<or> has_path w x)"

lemma kids_split:
  assumes "map_of ks c = Some y" "distinct (map fst ks)"
  obtains ks1 ks2 where "ks = ks1 @ (c, y) # ks2" "c \<notin> fst ` set ks1" "c \<notin> fst ` set ks2"
proof -
  obtain ks1 ks2 where "ks = ks1 @ (c, y) # ks2" using split_list [OF map_of_SomeD [OF assms(1)]] by blast
  then show thesis using that assms(2) by auto
qed

lemma tree_addrs_dom: "tree_in h x \<Longrightarrow> set (tt_addrs x) \<subseteq> dom h"
proof (induction x)
  case (TT a e ks)
  have "set (tt_addrs x) \<subseteq> dom h" if "(c, x) \<in> set ks" for c x
    by (rule TT.IH [of "(c, x)" x]) (use that TT.prems in auto)
  then show ?case using TT.prems by auto
qed

lemma grown_parent:
  assumes "tree_in (tr_nodes t) x" "distinct (tt_addrs x)" "\<forall>a\<in>dom (tr_nodes t). a < tr_next t" "map_of (tk x) c = Some y" "grown t y s t' y'"
  shows "\<exists>x'. grown t x (c # s) t' x'"
proof -
  obtain a e ks where x: "x = TT a e ks" by (cases x)
  obtain ks1 ks2 where ks: "ks = ks1 @ (c, y) # ks2" "c \<notin> fst ` set ks1" "c \<notin> fst ` set ks2"
    using kids_split [of ks c y] assms(1,4) x by auto
  let ?N = "{tr_next t..<tr_next t'}" let ?x = "TT a e (ks1 @ (c, y') # ks2)"
  have g: "tree_in (tr_nodes t') y'" "ta y' = ta y" "distinct (tt_addrs y')" "tr_next t \<le> tr_next t'" "tr_root t' = tr_root t"
    "set (tt_addrs y') = set (tt_addrs y) \<union> ?N" "dom (tr_nodes t') = dom (tr_nodes t) \<union> ?N"
    "\<And>a. a \<notin> set (tt_addrs y) \<Longrightarrow> a < tr_next t \<Longrightarrow> tr_nodes t' a = tr_nodes t a"
    "\<And>w. has_word w y' \<longleftrightarrow> w = s \<or> has_word w y" "\<And>w. has_path w y' \<longleftrightarrow> prefix w s \<or> has_path w y"
    using assms(5) unfolding grown_def by blast+
  have old: "b < tr_next t" if "b \<in> set (tt_addrs x)" for b using tree_addrs_dom [OF assms(1)] assms(3) that by blast
  have same: "tr_nodes t' b = tr_nodes t b" if "b \<in> set (tt_addrs x)" "b \<notin> set (tt_addrs y)" for b using g(8) old that by blast
  have keep: "tree_in (tr_nodes t') z" if z: "(d, z) \<in> set (ks1 @ ks2)" for d z
  proof -
    have "set (tt_addrs z) \<subseteq> set (tt_addrs x)" "set (tt_addrs z) \<inter> set (tt_addrs y) = {}" using z assms(2) unfolding x ks(1) by fastforce+
    then have "tree_in (tr_nodes t') z = tree_in (tr_nodes t) z" using same by (intro tree_in_cong) blast
    then show ?thesis using assms(1) z unfolding x ks(1) by auto
  qed
  have "a \<notin> set (tt_addrs y)" using assms(2) unfolding x ks(1) by auto
  then have "tr_nodes t' a = Some \<lparr>tn_end = e, tn_children = kids_of (ks1 @ (c, y) # ks2)\<rparr>" using same [of a] assms(1) x ks(1) by simp
  moreover have "kids_of (ks1 @ (c, y') # ks2) = kids_of (ks1 @ (c, y) # ks2)" by (simp add: kids_of_def g(2))
  ultimately have tree: "tree_in (tr_nodes t') ?x" using keep g(1) ks(2,3) assms(1) x ks(1) by auto
  have all: "set (tt_addrs ?x) = set (tt_addrs x) \<union> ?N" unfolding x ks(1) using g(6) by auto
  define A where "A = (\<lambda>ks. concat (map (\<lambda>(c :: char, x). tt_addrs x) ks))"
  have ax: "tt_addrs x = a # A ks1 @ tt_addrs y @ A ks2" "tt_addrs ?x = a # A ks1 @ tt_addrs y' @ A ks2" unfolding x ks(1) by (simp_all add: A_def)
  have "?N \<inter> set (tt_addrs x) = {}" using old by fastforce
  then have dist: "distinct (tt_addrs ?x)" using assms(2) g(3,6) unfolding ax by auto
  have mo: "map_of (ks1 @ (c, z) # ks2) d = (if d = c then Some z else map_of (ks1 @ ks2) d)" for d z
    using ks(2) by (induction ks1) auto
  have words: "has_word w ?x \<longleftrightarrow> w = c # s \<or> has_word w x" for w
    unfolding x ks(1) by (cases w) (auto simp: mo g(9) simp del: map_of_append split: option.splits)
  have paths: "has_path w ?x \<longleftrightarrow> prefix w (c # s) \<or> has_path w x" for w
    unfolding x ks(1) by (cases w) (auto simp: mo g(10) simp del: map_of_append split: option.splits)
  have "grown t x (c # s) t' ?x" unfolding grown_def using tree dist all g(4,5,7) same words paths g(8) x ks(1) by auto
  then show ?thesis by blast
qed

lemma child_added:
  assumes "tree_in (tr_nodes t) x" "distinct (tt_addrs x)" "\<forall>a\<in>dom (tr_nodes t). a < tr_next t" "map_of (tk x) c = None" "tr_nodes t (ta x) = Some n"
  defines "t1 \<equiv> add_child t (ta x) n c" and "x1 \<equiv> TT (ta x) (te x) (tk x @ [(c, TT (tr_next t) False [])])"
  shows "tree_in (tr_nodes t1) x1" "distinct (tt_addrs x1)" "\<forall>a\<in>dom (tr_nodes t1). a < tr_next t1"
    "set (tt_addrs x1) = insert (tr_next t) (set (tt_addrs x))" "dom (tr_nodes t1) = insert (tr_next t) (dom (tr_nodes t))"
    "\<And>w. has_word w x1 = has_word w x" "\<And>w. has_path w x1 \<longleftrightarrow> w = [c] \<or> has_path w x"
    "\<And>a. a \<noteq> ta x \<Longrightarrow> a \<noteq> tr_next t \<Longrightarrow> tr_nodes t1 a = tr_nodes t a" "tr_nodes t1 (ta x) = Some \<lparr>tn_end = te x, tn_children = kids_of (tk x @ [(c, TT (tr_next t) False [])])\<rparr>"
proof -
  obtain a e ks where x: "x = TT a e ks" by (cases x)
  have dom: "set (tt_addrs x) \<subseteq> dom (tr_nodes t)" by (rule tree_addrs_dom [OF assms(1)])
  have new: "tr_next t \<notin> set (tt_addrs x)" "tr_next t \<notin> dom (tr_nodes t)" using dom assms(3) by auto
  have n: "n = \<lparr>tn_end = e, tn_children = kids_of ks\<rparr>" using assms(1,5) x by simp
  have nodes: "tr_nodes t1 = (tr_nodes t)(tr_next t \<mapsto> tnode_new, a \<mapsto> \<lparr>tn_end = e, tn_children = kids_of (ks @ [(c, TT (tr_next t) False [])])\<rparr>)"
    by (simp add: t1_def add_child_def n x kids_of_def)
  have an: "a \<noteq> tr_next t" using new(1) x by auto
  show "tr_nodes t1 b = tr_nodes t b" if "b \<noteq> ta x" "b \<noteq> tr_next t" for b using that x by (simp add: nodes)
  show "tr_nodes t1 (ta x) = Some \<lparr>tn_end = te x, tn_children = kids_of (tk x @ [(c, TT (tr_next t) False [])])\<rparr>" using x by (simp add: nodes)
  have "tree_in (tr_nodes t1) z" if z: "(d, z) \<in> set ks" for d z
  proof -
    have "set (tt_addrs z) \<subseteq> set (tt_addrs x)" "a \<notin> set (tt_addrs z)" using z assms(2) unfolding x by fastforce+
    then have "tree_in (tr_nodes t1) z = tree_in (tr_nodes t) z" using new(1) by (intro tree_in_cong) (auto simp: nodes)
    then show ?thesis using assms(1) z x by auto
  qed
  moreover have "c \<notin> fst ` set ks" using assms(4) x by (simp add: map_of_eq_None_iff)
  ultimately show "tree_in (tr_nodes t1) x1" using assms(1) x an by (auto simp: x1_def nodes tnode_new_def kids_of_def)
  show "distinct (tt_addrs x1)" "set (tt_addrs x1) = insert (tr_next t) (set (tt_addrs x))" using assms(2) new(1) x by (auto simp: x1_def)
  show d: "dom (tr_nodes t1) = insert (tr_next t) (dom (tr_nodes t))" using assms(1) x by (auto simp: nodes)
  show "\<forall>a\<in>dom (tr_nodes t1). a < tr_next t1" unfolding d using assms(3) by (auto simp: t1_def add_child_def less_Suc_eq)
  have mo: "map_of (ks @ [(c, z)]) d = (if d = c then Some z else map_of ks d)" for d and z :: tt
    using \<open>c \<notin> fst ` set ks\<close> by (induction ks) auto
  show "has_word w x1 = has_word w x" for w
    using assms(4) unfolding x1_def x by (cases w; cases "tl w") (auto simp: mo simp del: map_of_append split: option.splits)
  show "has_path w x1 \<longleftrightarrow> w = [c] \<or> has_path w x" for w
    using assms(4) unfolding x1_def x by (cases w; cases "tl w") (auto simp: mo simp del: map_of_append split: option.splits)
qed

lemma distinct_kid: "distinct (tt_addrs x) \<Longrightarrow> map_of (tk x) c = Some y \<Longrightarrow> distinct (tt_addrs y)"
proof (cases x)
  case (TT a e ks)
  assume "distinct (tt_addrs x)" "map_of (tk x) c = Some y"
  then have "distinct (concat (map (\<lambda>(c, x). tt_addrs x) ks))" "(c, y) \<in> set ks" using TT map_of_SomeD by auto
  then show ?thesis by (force simp: distinct_concat_iff)
qed

lemma grown_ok:
  "tree_in (tr_nodes t) x \<Longrightarrow> distinct (tt_addrs x) \<Longrightarrow> \<forall>a\<in>dom (tr_nodes t). a < tr_next t \<Longrightarrow>
     \<exists>t1 tmp t' x'. trie_insert_loop t (ta x) s = Some (t1, tmp) \<and> set_end t1 tmp = Some t' \<and> grown t x s t' x'"
proof (induction s arbitrary: t x)
  case Nil
  obtain a e ks where x: "x = TT a e ks" by (cases x)
  let ?t = "t\<lparr>tr_nodes := (tr_nodes t)(a \<mapsto> \<lparr>tn_end = True, tn_children = kids_of ks\<rparr>)\<rparr>" let ?x = "TT a True ks"
  have "tree_in (tr_nodes ?t) z" if z: "(d, z) \<in> set ks" for d z
  proof -
    have "a \<notin> set (tt_addrs z)" using z Nil.prems(2) unfolding x by fastforce
    then have "tree_in (tr_nodes ?t) z = tree_in (tr_nodes t) z" by (intro tree_in_cong) auto
    then show ?thesis using Nil.prems(1) z x by auto
  qed
  then have "tree_in (tr_nodes ?t) ?x" using Nil.prems(1) x by auto
  moreover have "has_word w ?x \<longleftrightarrow> w = [] \<or> has_word w x" "has_path w ?x = has_path w x" for w unfolding x by (cases w; simp)+
  ultimately have "grown t x [] ?t ?x" unfolding grown_def using Nil.prems x by (auto simp: insert_absorb)
  moreover have "set_end t (ta x) = Some ?t" using Nil.prems(1) x by (simp add: set_end_def)
  ultimately show ?case by auto
next
  case (Cons c s)
  note node = tree_in_node [OF Cons.prems(1)]
  show ?case
  proof (cases "map_of (tk x) c")
    case (Some y)
    have "tree_in (tr_nodes t) y" by (rule tree_in_kid [OF Cons.prems(1) Some])
    moreover have "distinct (tt_addrs y)" by (rule distinct_kid [OF Cons.prems(2) Some])
    ultimately obtain t1 tmp t' y' where r: "trie_insert_loop t (ta y) s = Some (t1, tmp)" "set_end t1 tmp = Some t'" "grown t y s t' y'"
      using Cons.IH Cons.prems(3) by blast
    have "trie_insert_loop t (ta x) (c # s) = Some (t1, tmp)" using node Some r(1) by (simp add: map_of_kids)
    then show ?thesis using r(2) grown_parent [OF Cons.prems Some r(3)] by blast
  next
    case None
    let ?n = "\<lparr>tn_end = te x, tn_children = kids_of (tk x)\<rparr>" let ?y = "TT (tr_next t) False []"
    define t1 where "t1 = add_child t (ta x) ?n c"
    define x1 where "x1 = TT (ta x) (te x) (tk x @ [(c, ?y)])"
    note ad = child_added [OF Cons.prems None node, folded t1_def x1_def]
    have nx: "tr_next t1 = Suc (tr_next t)" "tr_root t1 = tr_root t" by (simp_all add: t1_def add_child_def)
    have y: "map_of (tk x1) c = Some ?y" using None by (simp add: x1_def map_add_def)
    have "tree_in (tr_nodes t1) ?y" "distinct (tt_addrs ?y)" using tree_in_kid [OF ad(1) y] by simp_all
    then obtain t2 tmp t' y' where r: "trie_insert_loop t1 (ta ?y) s = Some (t2, tmp)" "set_end t2 tmp = Some t'" "grown t1 ?y s t' y'"
      using Cons.IH ad(3) by blast
    obtain x' where g: "grown t1 x1 (c # s) t' x'" using grown_parent [OF ad(1-3) y r(3)] by blast
    have "{tr_next t..<tr_next t'} = insert (tr_next t) {tr_next t1..<tr_next t'}" using g nx(1) by (auto simp: grown_def)
    moreover have "prefix [c] (c # s)" by simp
    moreover have "ta x \<in> set (tt_addrs x)" "ta x1 = ta x" by (cases x, simp_all add: x1_def)
    moreover have "tr_nodes t1 b = tr_nodes t b" if "b \<notin> set (tt_addrs x)" "b < tr_next t" for b
      using ad(8) [of b] that \<open>ta x \<in> set (tt_addrs x)\<close> by auto
    ultimately have "grown t x (c # s) t' x'"
      using g nx unfolding grown_def ad(4-7) by auto
    moreover have "trie_insert_loop t (ta x) (c # s) = Some (t2, tmp)"
      using node None r(1) ad(9) y by (simp add: map_of_kids t1_def x1_def del: map_of_append)
    ultimately show ?thesis using r(2) by blast
  qed
qed

section \<open>Destruction\<close>

lemma perm_map: "mset ys = mset (map f xs) \<Longrightarrow> \<exists>zs. mset zs = mset xs \<and> map f zs = ys"
proof (induction ys arbitrary: xs)
  case (Cons y ys)
  then have "y \<in> set (map f xs)" by (metis list.set_intros(1) mset_eq_setD)
  then obtain x where x: "x \<in> set xs" "y = f x" by auto
  have "image_mset f (mset xs) = add_mset y (mset ys)" using Cons.prems by simp
  then have "mset ys = mset (map f (remove1 x xs))" using x by (simp add: image_mset_Diff)
  then obtain zs where "mset zs = mset (remove1 x xs)" "map f zs = ys" using Cons.IH by blast
  then show ?case using x by (intro exI [of _ "x # zs"]) simp
qed simp

abbreviation all_addrs :: "tt list \<Rightarrow> nat list" where
  "all_addrs xs \<equiv> concat (map tt_addrs xs)"

lemma all_addrs_mset: "mset xs = mset ys \<Longrightarrow> mset (all_addrs xs) = mset (all_addrs ys)"
  by (simp add: mset_concat flip: sum_mset_sum_list)

lemma addrs_kids: "tt_addrs x = ta x # all_addrs (map snd (tk x))"
  by (cases x) (simp add: case_prod_unfold comp_def)

lemma trie_destroy_ok:
  assumes "\<And>l. mset (order l) = mset l"
  shows "\<forall>x\<in>set xs. tree_in h x \<Longrightarrow> distinct (all_addrs xs) \<Longrightarrow>
     \<exists>d. destroy_nodes order h (map ta xs) = Some (h |` (- set (all_addrs xs)), d) \<and> mset d = mset (all_addrs xs)"
proof (induction "length (all_addrs xs)" arbitrary: xs h rule: less_induct)
  case less
  show ?case
  proof (cases xs)
    case Nil
    then show ?thesis by (simp add: destroy_nodes.simps restrict_map_def)
  next
    case (Cons x ys)
    let ?ks = "tk x" let ?as = "all_addrs (map snd ?ks)"
    have node: "h (ta x) = Some \<lparr>tn_end = te x, tn_children = kids_of ?ks\<rparr>" using less.prems(1) Cons tree_in_node by simp
    obtain zs where zs: "mset zs = mset ?ks" "kids_of zs = order (kids_of ?ks)"
      using perm_map [of "order (kids_of ?ks)" "\<lambda>(c, x). (c, ta x)" ?ks] assms(1) [of "kids_of ?ks"] by (auto simp: kids_of_def)
    have m: "mset (all_addrs (map snd zs)) = mset ?as" using zs(1) by (intro all_addrs_mset) simp
    have s: "set (all_addrs (map snd zs)) = set ?as" using m mset_eq_setD by blast
    have all: "all_addrs xs = ta x # ?as @ all_addrs ys" using Cons addrs_kids [of x] by simp
    have d: "distinct (all_addrs (map snd zs))" using less.prems(2) m unfolding all by (metis distinct.simps(2) distinct_append mset_eq_imp_distinct_iff)
    have kid: "tree_in h z" if "z \<in> set (map snd zs)" for z
    proof -
      have "z \<in> snd ` set ?ks" using that zs(1) mset_eq_setD by fastforce
      then show ?thesis using less.prems(1) Cons by (cases x) auto
    qed
    have l1: "length (all_addrs (map snd zs)) < length (all_addrs xs)" unfolding all using m mset_eq_length by fastforce
    obtain d1 where d1: "destroy_nodes order h (map ta (map snd zs)) = Some (h |` (- set ?as), d1)" "mset d1 = mset ?as"
      using less.hyps [OF l1 _ d] kid m s by (metis (no_types, lifting))
    let ?h = "(h |` (- set ?as))(ta x := None)"
    have "tree_in ?h y" if y: "y \<in> set ys" for y
    proof -
      have "set (tt_addrs y) \<inter> insert (ta x) (set ?as) = {}" using less.prems(2) y unfolding all by fastforce
      then have "?h a = h a" if "a \<in> set (tt_addrs y)" for a using that by (auto simp: restrict_map_def)
      then have "tree_in ?h y = tree_in h y" by (rule tree_in_cong)
      then show ?thesis using less.prems(1) y Cons by simp
    qed
    moreover have "distinct (all_addrs ys)" "length (all_addrs ys) < length (all_addrs xs)" using less.prems(2) unfolding all by simp_all
    ultimately obtain d2 where d2: "destroy_nodes order ?h (map ta ys) = Some (?h |` (- set (all_addrs ys)), d2)" "mset d2 = mset (all_addrs ys)"
      using less.hyps by blast
    have "map snd (kids_of zs) = map ta (map snd zs)" unfolding kids_of_def by auto
    then have "map snd (order (kids_of ?ks)) = map ta (map snd zs)" using zs(2) by simp
    then have "destroy_nodes order h (map ta xs) = Some (?h |` (- set (all_addrs ys)), d1 @ ta x # d2)"
      using d1(1) d2(1) node Cons by (subst destroy_nodes.simps) simp
    moreover have "?h |` (- set (all_addrs ys)) = h |` (- set (all_addrs xs))" unfolding all by (auto simp: restrict_map_def fun_eq_iff)
    ultimately show ?thesis using d1(2) d2(2) unfolding all by auto
  qed
qed

section \<open>Property\<close>

fun trie_inserts :: "trie \<Rightarrow> string list \<Rightarrow> trie option" where
  "trie_inserts t [] = Some t"
| "trie_inserts t (s # ss) = do { (r, t) \<leftarrow> trie_insert t s; if r then trie_inserts t ss else None }"

definition trie_rep :: "trie \<Rightarrow> tt \<Rightarrow> bool" where
  "trie_rep t x \<longleftrightarrow> tree_in (tr_nodes t) x \<and> ta x = tr_root t \<and> distinct (tt_addrs x) \<and> dom (tr_nodes t) = set (tt_addrs x) \<and>
     (\<forall>a\<in>dom (tr_nodes t). a < tr_next t)"

lemma trie_insert_ok:
  assumes "trie_rep t x"
  shows "\<exists>t' x'. trie_insert t s = Some (True, t') \<and> trie_rep t' x' \<and> (\<forall>w. has_word w x' \<longleftrightarrow> w = s \<or> has_word w x) \<and>
    (\<forall>w. has_path w x' \<longleftrightarrow> prefix w s \<or> has_path w x)"
proof -
  have x: "tree_in (tr_nodes t) x" "distinct (tt_addrs x)" "\<forall>a\<in>dom (tr_nodes t). a < tr_next t" "ta x = tr_root t" "dom (tr_nodes t) = set (tt_addrs x)"
    using assms by (simp_all add: trie_rep_def)
  obtain t1 tmp t' x' where r: "trie_insert_loop t (ta x) s = Some (t1, tmp)" "set_end t1 tmp = Some t'" "grown t x s t' x'"
    using grown_ok [OF x(1-3)] by blast
  have "trie_insert t s = Some (True, t')" using r(1,2) x(4) by (simp add: trie_insert_def)
  moreover have "trie_rep t' x'" using r(3) x unfolding trie_rep_def grown_def by auto
  ultimately show ?thesis using r(3) unfolding grown_def by blast
qed

lemma trie_inserts_ok:
  "trie_rep t x \<Longrightarrow> \<exists>t' x'. trie_inserts t ss = Some t' \<and> trie_rep t' x' \<and> (\<forall>w. has_word w x' \<longleftrightarrow> w \<in> set ss \<or> has_word w x) \<and>
     (\<forall>w. has_path w x' \<longleftrightarrow> (\<exists>s\<in>set ss. prefix w s) \<or> has_path w x)"
proof (induction ss arbitrary: t x)
  case (Cons s ss)
  obtain t1 x1 where 1: "trie_insert t s = Some (True, t1)" "trie_rep t1 x1" "\<forall>w. has_word w x1 \<longleftrightarrow> w = s \<or> has_word w x"
    "\<forall>w. has_path w x1 \<longleftrightarrow> prefix w s \<or> has_path w x" using trie_insert_ok [OF Cons.prems] by blast
  obtain t2 x2 where 2: "trie_inserts t1 ss = Some t2" "trie_rep t2 x2" "\<forall>w. has_word w x2 \<longleftrightarrow> w \<in> set ss \<or> has_word w x1"
    "\<forall>w. has_path w x2 \<longleftrightarrow> (\<exists>s\<in>set ss. prefix w s) \<or> has_path w x1" using Cons.IH [OF 1(2)] by blast
  then show ?case using 1 by (intro exI [of _ t2] exI [of _ x2]) auto
qed auto

text \<open>
  C24. The trie is a set of strings with a prefix test. After any insertions into a new trie, each of which returns true,
  \<open>query\<close> is true exactly for the inserted strings and \<open>start_with\<close> exactly for their prefixes and for the empty
  string; the destructor deletes every node of the heap exactly once and nothing else, in whatever order the children
  are visited.
\<close>

theorem trie_correct:
  assumes "\<And>l. mset (order l) = mset l"
  shows "\<exists>t. trie_inserts trie_new ss = Some t \<and> (\<forall>w. trie_query t w = Some (w \<in> set ss)) \<and>
    (\<forall>w. trie_start_with t w = Some (w = [] \<or> (\<exists>s\<in>set ss. prefix w s))) \<and>
    (\<exists>d. trie_destroy order t = Some (Map.empty, d) \<and> distinct d \<and> set d = dom (tr_nodes t))"
proof -
  let ?x = "TT 0 False []"
  have "trie_rep trie_new ?x" by (simp add: trie_rep_def trie_new_def tnode_new_def kids_of_def)
  then obtain t x where t: "trie_inserts trie_new ss = Some t" "trie_rep t x" "\<And>w. has_word w x \<longleftrightarrow> w \<in> set ss \<or> has_word w ?x"
    "\<And>w. has_path w x \<longleftrightarrow> (\<exists>s\<in>set ss. prefix w s) \<or> has_path w ?x" using trie_inserts_ok by blast
  have r: "tree_in (tr_nodes t) x" "ta x = tr_root t" "distinct (tt_addrs x)" "dom (tr_nodes t) = set (tt_addrs x)" using t(2) by (simp_all add: trie_rep_def)
  have e: "has_word w ?x = False" "has_path w ?x \<longleftrightarrow> w = []" for w by (cases w; simp)+
  obtain d where d: "destroy_nodes order (tr_nodes t) (map ta [x]) = Some (tr_nodes t |` (- set (all_addrs [x])), d)" "mset d = mset (all_addrs [x])"
    using trie_destroy_ok [OF assms, of "[x]" "tr_nodes t"] r(1,3) by auto
  have "tr_nodes t |` (- set (tt_addrs x)) = Map.empty" using r(4) by (auto simp: restrict_map_def fun_eq_iff domIff)
  then have "trie_destroy order t = Some (Map.empty, d)" using d(1) r(2) by (simp add: trie_destroy_def)
  moreover have md: "mset d = mset (tt_addrs x)" using d(2) by simp
  moreover have "distinct d" "set d = dom (tr_nodes t)" using mset_eq_imp_distinct_iff [OF md] mset_eq_setD [OF md] r(3,4) by simp_all
  ultimately show ?thesis using t(1) trie_query_ok [OF r(1)] trie_start_with_ok [OF r(1)] r(2) t(3,4) e
    by (intro exI [of _ t]) (auto simp: trie_query_def trie_start_with_def)
qed

theorem trie_correct_witness:
  "\<exists>t. trie_inserts trie_new [''to'', ''tea'', ''to''] = Some t \<and> trie_query t ''tea'' = Some True \<and> trie_query t ''te'' = Some False \<and>
     trie_start_with t ''te'' = Some True \<and> (\<exists>d. trie_destroy rev t = Some (Map.empty, d) \<and> distinct d)"
proof -
  have "mset (rev l) = mset l" for l :: "(char \<times> nat) list" by simp
  from trie_correct [OF this, of "[''to'', ''tea'', ''to'']"] show ?thesis by force
qed

end
