(* ===== verification/Kmp.thy ===== *)
theory Kmp
  imports Prelude "HOL-Library.Sublist" "HOL-Library.Monad_Syntax"
begin

text \<open>
  \<open>cpp/algorithm/string/kmp.h\<close>: the prefix function of Knuth, Morris and Pratt and the automaton of a pattern, with
  checked vector accesses.
\<close>

section \<open>The code\<close>

partial_function (option) pf_back :: "'a list \<Rightarrow> nat list \<Rightarrow> nat \<Rightarrow> nat \<Rightarrow> nat option" where
  "pf_back s pi i j =
     (if j > 0
      then do { a \<leftarrow> vget s i;
                b \<leftarrow> vget s j;
                if a \<noteq> b then do { j \<leftarrow> vget pi (j - 1); pf_back s pi i j } else Some j }
      else Some j)"

fun pf_loop :: "'a list \<Rightarrow> nat list \<Rightarrow> nat list \<Rightarrow> nat list option" where
  "pf_loop s [] pi = Some pi"
| "pf_loop s (i # is) pi =
     do { j \<leftarrow> vget pi (i - 1);
          j \<leftarrow> pf_back s pi i j;
          a \<leftarrow> vget s i;
          b \<leftarrow> vget s j;
          pi \<leftarrow> vset pi i (if a = b then j + 1 else j);
          pf_loop s is pi }"

definition prefix_function :: "'a list \<Rightarrow> nat list option" where
  "prefix_function s = pf_loop s [1..<length s] (replicate (length s) 0)"

text \<open>Letters are numbered from \<open>'a'\<close>; the pattern is a list of characters.\<close>

definition letter :: "nat \<Rightarrow> char" where
  "letter c = char_of (97 + c :: nat)"

fun aut_row :: "string \<Rightarrow> nat list \<Rightarrow> nat \<Rightarrow> nat list \<Rightarrow> nat list list \<Rightarrow> nat list list option" where
  "aut_row s pi i [] aut = Some aut"
| "aut_row s pi i (c # cs) aut =
     do { x \<leftarrow> vget s i;
          v \<leftarrow> (if i > 0 \<and> letter c \<noteq> x
               then do { k \<leftarrow> vget pi (i - 1); r \<leftarrow> vget aut k; vget r c }
               else Some (i + (if letter c = x then 1 else 0)));
          r \<leftarrow> vget aut i;
          r \<leftarrow> vset r c v;
          aut \<leftarrow> vset aut i r;
          aut_row s pi i cs aut }"

fun aut_rows :: "string \<Rightarrow> nat list \<Rightarrow> nat list \<Rightarrow> nat list list \<Rightarrow> nat list list option" where
  "aut_rows s pi [] aut = Some aut"
| "aut_rows s pi (i # is) aut = do { aut \<leftarrow> aut_row s pi i [0..<26] aut; aut_rows s pi is aut }"

definition compute_automaton :: "string \<Rightarrow> nat list list option" where
  "compute_automaton s =
     (let s = s @ ''#''
      in do { pi \<leftarrow> prefix_function s; aut_rows s pi [0..<length s] (replicate (length s) (replicate 26 0)) })"

section \<open>Borders\<close>

text \<open>\<open>border s i k\<close>: the first \<open>k\<close> elements are also the last \<open>k\<close> of the first \<open>i\<close>.\<close>

definition border :: "'a list \<Rightarrow> nat \<Rightarrow> nat \<Rightarrow> bool" where
  "border s i k \<longleftrightarrow> k \<le> i \<and> suffix (take k s) (take i s)"

definition longest :: "'a list \<Rightarrow> nat \<Rightarrow> nat \<Rightarrow> bool" where
  "longest s i k \<longleftrightarrow> k < i \<and> border s i k \<and> (\<forall>l<i. border s i l \<longrightarrow> l \<le> k)"

lemma border_0 [simp]: "border s i 0"
  by (simp add: border_def)

lemma border_trans: "border s j k \<Longrightarrow> border s i j \<Longrightarrow> border s i k"
  unfolding border_def using suffix_order.trans by (metis order_trans)

lemma border_within: "border s i k \<Longrightarrow> border s i j \<Longrightarrow> k \<le> j \<Longrightarrow> i \<le> length s \<Longrightarrow> border s j k"
  unfolding border_def by (auto intro: suffix_length_suffix)

lemma border_Suc: "i < length s \<Longrightarrow> border s (Suc i) (Suc k) \<longleftrightarrow> border s i k \<and> s ! i = s ! k"
proof -
  assume i: "i < length s"
  show ?thesis
  proof (cases "k \<le> i")
    case True
    then show ?thesis using i by (auto simp: border_def take_Suc_conv_app_nth)
  qed (auto simp: border_def)
qed

text \<open>Going back finds the longest border that can be extended.\<close>

lemma pf_back_ok:
  assumes "i < length s" "length pi = length s" "\<forall>m<i. longest s (Suc m) (pi ! m)"
  shows "border s i j \<Longrightarrow> j < i \<Longrightarrow> \<forall>k<i. j < k \<longrightarrow> border s i k \<longrightarrow> s ! i \<noteq> s ! k \<Longrightarrow>
    \<exists>j'. pf_back s pi i j = Some j' \<and> border s i j' \<and> j' < i \<and> (s ! i = s ! j' \<or> j' = 0) \<and> (\<forall>k<i. j' < k \<longrightarrow> border s i k \<longrightarrow> s ! i \<noteq> s ! k)"
proof (induction j rule: less_induct)
  case (less j)
  show ?case
  proof (cases "j > 0 \<and> s ! i \<noteq> s ! j")
    case False
    then have "pf_back s pi i j = Some j" using less.prems(2) assms(1) by (subst pf_back.simps) auto
    then show ?thesis using less.prems False by auto
  next
    case True
    let ?k = "pi ! (j - 1)"
    have l: "longest s j ?k" using assms(3) [rule_format, of "j - 1"] True less.prems(2) by simp
    then have k: "?k < j" "border s i ?k" "?k < i" using less.prems(1,2) border_trans by (auto simp: longest_def)
    have "s ! i \<noteq> s ! m" if m: "m < i" "?k < m" "border s i m" for m
    proof (cases "m < j")
      case True
      then have "border s j m" using border_within [OF m(3) less.prems(1)] assms(1) by simp
      then show ?thesis using l True m(2) unfolding longest_def by fastforce
    next
      case False
      then show ?thesis using less.prems(3) m True by (cases "m = j") auto
    qed
    then obtain j' where "pf_back s pi i ?k = Some j'" "border s i j'" "j' < i" "s ! i = s ! j' \<or> j' = 0"
      "\<forall>k<i. j' < k \<longrightarrow> border s i k \<longrightarrow> s ! i \<noteq> s ! k"
      using less.IH [OF k(1,2,3)] by blast
    moreover have "pf_back s pi i j = pf_back s pi i ?k"
      using True less.prems(2) assms(1,2) by (subst pf_back.simps) auto
    ultimately show ?thesis by auto
  qed
qed

lemma longest_next:
  assumes "i < length s" "border s i j" "j < i" "s ! i = s ! j \<or> j = 0" "\<forall>k<i. j < k \<longrightarrow> border s i k \<longrightarrow> s ! i \<noteq> s ! k"
  shows "longest s (Suc i) (if s ! i = s ! j then j + 1 else j)"
proof -
  have le: "l \<le> (if s ! i = s ! j then j + 1 else j)" if "l < Suc i" "border s (Suc i) l" for l
  proof (cases l)
    case (Suc k)
    then have "border s i k" "s ! i = s ! k" using border_Suc [OF assms(1)] that(2) by auto
    moreover have "k < i" using that(1) Suc by simp
    ultimately have "k \<le> j" using assms(5) by (meson not_less)
    then show ?thesis using Suc \<open>s ! i = s ! k\<close> assms(4) by (cases "k = j") auto
  qed simp
  moreover have "border s (Suc i) (if s ! i = s ! j then j + 1 else j)" using border_Suc [OF assms(1), of j] assms(2,4) by auto
  ultimately show ?thesis using assms(3) unfolding longest_def by auto
qed

lemma pf_loop_ok:
  assumes "length pi = length s" "0 < i" "i \<le> length s" "\<forall>m<i. longest s (Suc m) (pi ! m)"
  shows "\<exists>pi'. pf_loop s [i..<length s] pi = Some pi' \<and> length pi' = length s \<and> (\<forall>m<length s. longest s (Suc m) (pi' ! m))"
  using assms
proof (induction "length s - i" arbitrary: i pi)
  case (Suc n)
  then have i: "i < length s" "n = length s - Suc i" "Suc i \<le> length s" by simp_all
  have "longest s i (pi ! (i - 1))" using Suc.prems(4) [rule_format, of "i - 1"] Suc.prems(2) by simp
  then have l: "border s i (pi ! (i - 1))" "pi ! (i - 1) < i" "\<forall>k<i. pi ! (i - 1) < k \<longrightarrow> border s i k \<longrightarrow> s ! i \<noteq> s ! k"
    unfolding longest_def by (auto simp: not_less)
  obtain j where j: "pf_back s pi i (pi ! (i - 1)) = Some j" "border s i j" "j < i" "s ! i = s ! j \<or> j = 0"
    "\<forall>k<i. j < k \<longrightarrow> border s i k \<longrightarrow> s ! i \<noteq> s ! k"
    using pf_back_ok [OF i(1) Suc.prems(1,4) l] by blast
  let ?p = "pi[i := if s ! i = s ! j then j + 1 else j]"
  have "longest s (Suc m) (?p ! m)" if "m < Suc i" for m
    using that longest_next [OF i(1) j(2-5)] Suc.prems(1,4) i(1) by (cases "m = i") auto
  then obtain pi' where "pf_loop s [Suc i..<length s] ?p = Some pi'" "length pi' = length s" "\<forall>m<length s. longest s (Suc m) (pi' ! m)"
    using Suc.hyps(1) [OF i(2), of ?p] i(3) Suc.prems(1) by auto
  moreover have "pf_loop s [i..<length s] pi = pf_loop s [Suc i..<length s] ?p"
    using j(1,3) i(1) Suc.prems(1,2) by (simp add: upt_conv_Cons)
  ultimately show ?case by simp
qed simp

lemma prefix_function_ok:
  "\<exists>pi. prefix_function s = Some pi \<and> length pi = length s \<and> (\<forall>m<length s. longest s (Suc m) (pi ! m))"
proof (cases "s = []")
  case False
  have "longest s (Suc 0) 0" by (simp add: longest_def)
  then show ?thesis using pf_loop_ok [of "replicate (length s) 0" s 1] False by (simp add: prefix_function_def Suc_le_eq)
qed (simp add: prefix_function_def)

section \<open>The automaton\<close>

text \<open>\<open>delta s i x k\<close>: from state \<open>i\<close> the character \<open>x\<close> leads to the longest prefix of \<open>s\<close> that ends the text read.\<close>

definition delta :: "'a list \<Rightarrow> nat \<Rightarrow> 'a \<Rightarrow> nat \<Rightarrow> bool" where
  "delta s i x k \<longleftrightarrow> k \<le> length s \<and> suffix (take k s) (take i s @ [x]) \<and> (\<forall>l\<le>length s. suffix (take l s) (take i s @ [x]) \<longrightarrow> l \<le> k)"

lemma ends_Suc:
  assumes "i < length s" "m < length s"
  shows "suffix (take (Suc m) s) (take i s @ [x]) \<longleftrightarrow> border s i m \<and> s ! m = x"
proof -
  have "m \<le> i" if "suffix (take m s) (take i s)" using suffix_length_le [OF that] assms by simp
  then show ?thesis using assms by (auto simp: border_def take_Suc_conv_app_nth)
qed

lemma deltaI:
  assumes "i < length s" "k = 0 \<or> (\<exists>m. k = Suc m \<and> m < length s \<and> border s i m \<and> s ! m = x)"
    "\<And>m. m \<le> i \<Longrightarrow> border s i m \<Longrightarrow> s ! m = x \<Longrightarrow> Suc m \<le> k"
  shows "delta s i x k"
proof -
  have "l \<le> k" if l: "l \<le> length s" "suffix (take l s) (take i s @ [x])" for l
  proof (cases l)
    case (Suc m)
    then have "border s i m" "s ! m = x" using ends_Suc [OF assms(1), of m] l by auto
    then show ?thesis using assms(3) [of m] Suc by (simp add: border_def)
  qed simp
  moreover have "k \<le> length s \<and> suffix (take k s) (take i s @ [x])"
  proof (cases "k = 0")
    case False
    then obtain m where m: "k = Suc m" "m < length s" "border s i m" "s ! m = x" using assms(2) by blast
    then have "suffix (take (Suc m) s) (take i s @ [x])" using iffD2 [OF ends_Suc [OF assms(1) m(2)]] by blast
    then show ?thesis unfolding m(1) using m(2) by (simp only: Suc_le_eq simp_thms)
  qed simp
  ultimately show ?thesis unfolding delta_def by blast
qed

lemma deltaD:
  assumes "delta s i x k" "i < length s"
  shows "k = 0 \<or> (\<exists>m. k = Suc m \<and> m < length s \<and> border s i m \<and> s ! m = x)" "\<And>m. m \<le> i \<Longrightarrow> border s i m \<Longrightarrow> s ! m = x \<Longrightarrow> Suc m \<le> k"
proof -
  show "k = 0 \<or> (\<exists>m. k = Suc m \<and> m < length s \<and> border s i m \<and> s ! m = x)"
  proof (cases k)
    case (Suc m)
    then have m: "m < length s" "suffix (take (Suc m) s) (take i s @ [x])" using assms(1) unfolding delta_def by auto
    then show ?thesis using iffD1 [OF ends_Suc [OF assms(2) m(1)] m(2)] Suc by blast
  qed simp
  show "Suc m \<le> k" if "m \<le> i" "border s i m" "s ! m = x" for m
  proof -
    have m: "m < length s" using that(1) assms(2) by simp
    then have "suffix (take (Suc m) s) (take i s @ [x])" using iffD2 [OF ends_Suc [OF assms(2) m]] that by blast
    then show ?thesis using assms(1) Suc_leI [OF m] unfolding delta_def by blast
  qed
qed

lemma delta_match: "i < length s \<Longrightarrow> delta s i (s ! i) (Suc i)"
  by (rule deltaI) (auto simp: border_def)

lemma delta_start: "0 < length s \<Longrightarrow> x \<noteq> s ! 0 \<Longrightarrow> delta s 0 x 0"
  by (rule deltaI) auto

lemma delta_back:
  assumes "i < length s" "x \<noteq> s ! i" "longest s i j" "delta s j x k"
  shows "delta s i x k"
proof (rule deltaI [OF assms(1)])
  have j: "j < length s" "border s i j" using assms(1,3) by (auto simp: longest_def)
  show "k = 0 \<or> (\<exists>m. k = Suc m \<and> m < length s \<and> border s i m \<and> s ! m = x)"
    using deltaD(1) [OF assms(4) j(1)] j(2) border_trans by blast
  fix m assume m: "m \<le> i" "border s i m" "s ! m = x"
  have "m < i" using m assms(2) by (cases "m = i") auto
  then have "m \<le> j" using assms(3) m(2) by (auto simp: longest_def)
  then show "Suc m \<le> k" using deltaD(2) [OF assms(4) j(1)] border_within [OF m(2) j(2)] m(3) assms(1) by simp
qed

definition rows_ok :: "string \<Rightarrow> nat \<Rightarrow> nat \<Rightarrow> nat list list \<Rightarrow> bool" where
  "rows_ok s i c aut \<longleftrightarrow> length aut = length s \<and> (\<forall>r\<in>set aut. length r = 26) \<and>
     (\<forall>k<i. \<forall>d<26. delta s k (letter d) (aut ! k ! d)) \<and> (\<forall>d<c. delta s i (letter d) (aut ! i ! d))"

lemma aut_row_ok:
  assumes "i < length s" "length pi = length s" "\<forall>m<length s. longest s (Suc m) (pi ! m)"
  shows "rows_ok s i c aut \<Longrightarrow> c \<le> 26 \<Longrightarrow> \<exists>aut'. aut_row s pi i [c..<26] aut = Some aut' \<and> rows_ok s i 26 aut'"
proof (induction "26 - c" arbitrary: c aut)
  case (Suc n)
  then have c: "c < 26" "n = 26 - Suc c" "Suc c \<le> 26" by simp_all
  have r: "length aut = length s" "\<forall>r\<in>set aut. length r = 26" "\<forall>k<i. \<forall>d<26. delta s k (letter d) (aut ! k ! d)" "\<forall>d<c. delta s i (letter d) (aut ! i ! d)"
    using Suc.prems(1) by (simp_all add: rows_ok_def)
  have row: "length (aut ! k) = 26" if "k < length s" for k using r(1,2) that by simp
  obtain v where v: "(if i > 0 \<and> letter c \<noteq> s ! i then do { k \<leftarrow> vget pi (i - 1); r \<leftarrow> vget aut k; vget r c }
      else Some (i + (if letter c = s ! i then 1 else 0))) = Some v" "delta s i (letter c) v"
  proof (cases "i > 0 \<and> letter c \<noteq> s ! i")
    case True
    have l: "longest s i (pi ! (i - 1))" using assms(3) [rule_format, of "i - 1"] True assms(1) by simp
    then have k: "pi ! (i - 1) < i" by (simp add: longest_def)
    then have "delta s (pi ! (i - 1)) (letter c) (aut ! (pi ! (i - 1)) ! c)" using r(3) c(1) by blast
    then have "delta s i (letter c) (aut ! (pi ! (i - 1)) ! c)" using delta_back [OF assms(1) _ l] True by blast
    then show thesis using that True k assms(1,2) r(1) row [of "pi ! (i - 1)"] c(1) by simp
  next
    case False
    then show thesis using that delta_match [OF assms(1)] delta_start [of s "letter c"] assms(1) by (cases "letter c = s ! i") auto
  qed
  let ?aut = "aut[i := (aut ! i)[c := v]]"
  have "rows_ok s i (Suc c) ?aut"
  proof -
    have "length q = 26" if "q \<in> set ?aut" for q using that r(2) row [OF assms(1)] set_update_subset_insert [of aut i "(aut ! i)[c := v]"] by auto
    moreover have "?aut ! k ! d = aut ! k ! d" if "k < i" for k d using that by simp
    moreover have "?aut ! i ! d = (if d = c then v else aut ! i ! d)" for d
      using assms(1) r(1) row [OF assms(1)] c(1) by simp
    ultimately show ?thesis using r v(2) unfolding rows_ok_def by (auto simp: less_Suc_eq)
  qed
  then obtain aut' where "aut_row s pi i [Suc c..<26] ?aut = Some aut'" "rows_ok s i 26 aut'" using Suc.hyps(1) [OF c(2) _ c(3)] by blast
  moreover have "aut_row s pi i [c..<26] aut = aut_row s pi i [Suc c..<26] ?aut"
    using c(1) assms(1) r(1) row [OF assms(1)] v(1) by (simp add: upt_conv_Cons del: upt_Suc)
  ultimately show ?case by simp
qed simp

lemma aut_rows_ok:
  assumes "length pi = length s" "\<forall>m<length s. longest s (Suc m) (pi ! m)"
  shows "rows_ok s i 0 aut \<Longrightarrow> i \<le> length s \<Longrightarrow> \<exists>aut'. aut_rows s pi [i..<length s] aut = Some aut' \<and> rows_ok s (length s) 0 aut'"
proof (induction "length s - i" arbitrary: i aut)
  case (Suc n)
  then have i: "i < length s" "n = length s - Suc i" "Suc i \<le> length s" by simp_all
  obtain a where a: "aut_row s pi i [0..<26] aut = Some a" "rows_ok s i 26 a" using aut_row_ok [OF i(1) assms Suc.prems(1)] by blast
  have "rows_ok s (Suc i) 0 a" using a(2) by (auto simp: rows_ok_def less_Suc_eq)
  then obtain aut' where "aut_rows s pi [Suc i..<length s] a = Some aut'" "rows_ok s (length s) 0 aut'" using Suc.hyps(1) [OF i(2) _ i(3)] by blast
  then show ?case using a(1) i(1) by (simp add: upt_conv_Cons del: upt_Suc)
qed simp

section \<open>Property\<close>

text \<open>
  C25. The prefix function returns on every string, and its entry \<open>m\<close> is the length of the longest proper prefix of
  \<open>s[0..m]\<close> that is also its suffix. The automaton of a pattern returns, and from state \<open>i\<close>, after the first \<open>i\<close> characters
  of the pattern, each letter leads to the longest prefix of the pattern that ends the text read.
\<close>

theorem kmp_correct:
  "(\<exists>pi. prefix_function s = Some pi \<and> length pi = length s \<and> (\<forall>m<length s. pi ! m \<le> m \<and> suffix (take (pi ! m) s) (take (m + 1) s) \<and>
     (\<forall>k\<le>m. suffix (take k s) (take (m + 1) s) \<longrightarrow> k \<le> pi ! m))) \<and>
   (\<exists>aut. compute_automaton p = Some aut \<and> (\<forall>i\<le>length p. \<forall>c<26. aut ! i ! c \<le> length p + 1 \<and>
     suffix (take (aut ! i ! c) (p @ ''#'')) (take i p @ [letter c]) \<and>
     (\<forall>l\<le>length p + 1. suffix (take l (p @ ''#'')) (take i p @ [letter c]) \<longrightarrow> l \<le> aut ! i ! c)))"
proof
  show "\<exists>pi. prefix_function s = Some pi \<and> length pi = length s \<and> (\<forall>m<length s. pi ! m \<le> m \<and> suffix (take (pi ! m) s) (take (m + 1) s) \<and>
     (\<forall>k\<le>m. suffix (take k s) (take (m + 1) s) \<longrightarrow> k \<le> pi ! m))"
    using prefix_function_ok [of s] by (auto simp: longest_def border_def less_Suc_eq_le)
next
  let ?s = "p @ ''#''"
  obtain pi where pi: "prefix_function ?s = Some pi" "length pi = length ?s" "\<forall>m<length ?s. longest ?s (Suc m) (pi ! m)"
    using prefix_function_ok [of ?s] by blast
  have "rows_ok ?s 0 0 (replicate (length ?s) (replicate 26 0))" by (auto simp: rows_ok_def)
  then obtain aut where aut: "aut_rows ?s pi [0..<length ?s] (replicate (length ?s) (replicate 26 0)) = Some aut" "rows_ok ?s (length ?s) 0 aut"
    using aut_rows_ok [OF pi(2,3)] by blast
  have "delta ?s i (letter c) (aut ! i ! c)" if "i \<le> length p" "c < 26" for i c using aut(2) that by (simp add: rows_ok_def)
  moreover have "compute_automaton p = Some aut" using pi(1) aut(1) unfolding compute_automaton_def Let_def by simp
  ultimately show "\<exists>aut. compute_automaton p = Some aut \<and> (\<forall>i\<le>length p. \<forall>c<26. aut ! i ! c \<le> length p + 1 \<and>
     suffix (take (aut ! i ! c) (p @ ''#'')) (take i p @ [letter c]) \<and>
     (\<forall>l\<le>length p + 1. suffix (take l (p @ ''#'')) (take i p @ [letter c]) \<longrightarrow> l \<le> aut ! i ! c))"
    unfolding delta_def by auto
qed

theorem kmp_correct_witness:
  "\<exists>pi. prefix_function ''abab'' = Some pi \<and> pi ! 3 \<le> 3 \<and> 2 \<le> pi ! 3 \<and> suffix (take (pi ! 3) ''abab'') ''abab''"
proof -
  obtain pi where pi: "prefix_function ''abab'' = Some pi" "\<forall>m<length ''abab''. pi ! m \<le> m \<and>
     suffix (take (pi ! m) ''abab'') (take (m + 1) ''abab'') \<and> (\<forall>k\<le>m. suffix (take k ''abab'') (take (m + 1) ''abab'') \<longrightarrow> k \<le> pi ! m)"
    using kmp_correct [of "''abab''" "''ab''"] by blast
  from pi(2) [rule_format, of 3] have 3: "pi ! 3 \<le> 3" "suffix (take (pi ! 3) ''abab'') ''abab''"
    "\<forall>k\<le>3. suffix (take k ''abab'') ''abab'' \<longrightarrow> k \<le> pi ! 3" by simp_all
  moreover have "suffix (take 2 ''abab'') ''abab''" by code_simp
  ultimately show ?thesis using pi(1) by (intro exI [of _ pi]) simp
qed

end
