(* ===== verification/SimdSum.thy ===== *)
theory SimdSum
  imports Prelude
begin

text \<open>
  \<open>cpp/examples/simd_sum.h\<close>: adding one vector to another, element by element or in lanes of eight, four and one. The
  addition of the elements is that of any type, so no property of floating-point addition is used. A load or store
  outside a vector gives \<open>None\<close>.
\<close>

section \<open>The kernels\<close>

text \<open>The intrinsics for \<open>n\<close> lanes at offset \<open>i\<close>: load both sides, add, store.\<close>

definition add_lanes :: "nat \<Rightarrow> 'a :: plus list \<Rightarrow> 'a list \<Rightarrow> nat \<Rightarrow> 'a list option" where
  "add_lanes n dst src i =
     (if i + n \<le> length dst \<and> i + n \<le> length src
      then Some (take i dst @ map2 (+) (take n (drop i dst)) (take n (drop i src)) @ drop (i + n) dst)
      else None)"

fun sum_add_kernel :: "nat \<Rightarrow> 'a :: plus list \<Rightarrow> 'a list \<Rightarrow> nat \<Rightarrow> 'a list option" where
  "sum_add_kernel N dst src i =
     (if N = 0 then Some dst
      else if N = 1 \<or> N = 4 \<or> N = 8 then add_lanes N dst src i
      else if 8 \<le> N then do { dst \<leftarrow> add_lanes 8 dst src i; sum_add_kernel (N - 8) dst src (i + 8) }
      else if 4 \<le> N then do { dst \<leftarrow> add_lanes 4 dst src i; sum_add_kernel (N - 4) dst src (i + 4) }
      else do { dst \<leftarrow> add_lanes 1 dst src i; sum_add_kernel (N - 1) dst src (i + 1) })"

declare sum_add_kernel.simps [simp del]

definition sum_kernel_n :: "nat \<Rightarrow> 'a :: plus list \<Rightarrow> 'a list \<Rightarrow> 'a list option" where
  "sum_kernel_n block_size dst src = (if 1 \<le> block_size \<and> block_size \<le> 16 then sum_add_kernel block_size dst src 0 else Some dst)"

fun sum_loop :: "nat list \<Rightarrow> 'a :: plus list \<Rightarrow> 'a list \<Rightarrow> 'a list option" where
  "sum_loop [] dst src = Some dst"
| "sum_loop (i # is) dst src = do { d \<leftarrow> vget dst i; x \<leftarrow> vget src i; dst \<leftarrow> vset dst i (d + x); sum_loop is dst src }"

definition SumImpl :: "'a :: plus list \<Rightarrow> 'a list \<Rightarrow> nat \<Rightarrow> 'a list option" where
  "SumImpl dst src n = sum_loop [0..<n] dst src"

text \<open>The specialisation for \<open>float\<close>; the pointers are not advanced.\<close>

function float_loop :: "nat \<Rightarrow> nat \<Rightarrow> 'a :: plus list \<Rightarrow> 'a list \<Rightarrow> 'a list option" where
  "float_loop i n dst src =
     (if i < n then do { dst \<leftarrow> sum_kernel_n 16 dst src; float_loop (i + 16) n dst src } else Some dst)"
  by pat_completeness auto
termination by (relation "measure (\<lambda>(i, n, _). n - i)") auto

declare float_loop.simps [simp del]

definition SumImpl_float :: "'a :: plus list \<Rightarrow> 'a list \<Rightarrow> nat \<Rightarrow> 'a list option" where
  "SumImpl_float dst src n = float_loop 0 n dst src"

definition Sum_vec :: "('a :: plus list \<Rightarrow> 'a list \<Rightarrow> nat \<Rightarrow> 'a list option) \<Rightarrow> 'a list \<Rightarrow> 'a list \<Rightarrow> 'a list option" where
  "Sum_vec impl dst src = (if length dst = length src then impl dst src (length src) else None)"

section \<open>What they compute\<close>

text \<open>\<open>n\<close> elements from offset \<open>i\<close> are added.\<close>

definition added :: "nat \<Rightarrow> nat \<Rightarrow> 'a :: plus list \<Rightarrow> 'a list \<Rightarrow> 'a list" where
  "added n i dst src = map (\<lambda>j. if i \<le> j \<and> j < i + n then dst ! j + src ! j else dst ! j) [0..<length dst]"

lemma length_added [simp]: "length (added n i dst src) = length dst"
  by (simp add: added_def)

lemma nth_added: "j < length dst \<Longrightarrow> added n i dst src ! j = (if i \<le> j \<and> j < i + n then dst ! j + src ! j else dst ! j)"
  by (simp add: added_def)

lemma added_0 [simp]: "added 0 i dst src = dst"
  by (rule nth_equalityI) (auto simp: nth_added)

lemma added_added: "added m (i + n) (added n i dst src) src = added (n + m) i dst src"
  by (rule nth_equalityI) (auto simp: nth_added)

lemma added_step: "added m (Suc i) (added (Suc 0) i dst src) src = added (Suc m) i dst src"
  using added_added [of m i "Suc 0"] by simp

lemma add_lanes_ok: "i + n \<le> length dst \<Longrightarrow> i + n \<le> length src \<Longrightarrow> add_lanes n dst src i = Some (added n i dst src)"
proof -
  assume l: "i + n \<le> length dst" "i + n \<le> length src"
  have "take i dst @ map2 (+) (take n (drop i dst)) (take n (drop i src)) @ drop (i + n) dst = added n i dst src"
    using l by (intro nth_equalityI) (auto simp: nth_added nth_append)
  then show ?thesis using l by (simp add: add_lanes_def)
qed

lemma kernel_ok: "i + N \<le> length dst \<Longrightarrow> i + N \<le> length src \<Longrightarrow> sum_add_kernel N dst src i = Some (added N i dst src)"
proof (induction N dst src i rule: sum_add_kernel.induct)
  case (1 N dst src i)
  show ?case
    using "1" by (subst sum_add_kernel.simps) (auto simp: add_lanes_ok added_added added_step)
qed

lemma kernel_out: "length src < i + N \<Longrightarrow> length dst = length src \<Longrightarrow> N \<noteq> 0 \<Longrightarrow> sum_add_kernel N dst src i = None"
proof (induction N dst src i rule: sum_add_kernel.induct)
  case (1 N dst src i)
  have len: "length d = length dst" if "add_lanes k dst src i = Some d" for k d
    using that by (auto simp: add_lanes_def split: if_splits)
  consider "N = 1 \<or> N = 4 \<or> N = 8" | "8 < N" | "4 < N" "N < 8" | "1 < N" "N < 4" using "1.prems"(3) by linarith
  then show ?case
  proof cases
    case 1
    then show ?thesis using "1.prems" by (subst sum_add_kernel.simps) (auto simp: add_lanes_def)
  next
    case 2
    then have "add_lanes 8 dst src i = None \<or> (\<exists>d. add_lanes 8 dst src i = Some d \<and> sum_add_kernel (N - 8) d src (i + 8) = None)"
      using "1.IH"(1) "1.prems" len by (cases "add_lanes 8 dst src i") auto
    then show ?thesis using 2 by (subst sum_add_kernel.simps) auto
  next
    case 3
    then have "add_lanes 4 dst src i = None \<or> (\<exists>d. add_lanes 4 dst src i = Some d \<and> sum_add_kernel (N - 4) d src (i + 4) = None)"
      using "1.IH"(2) "1.prems" len by (cases "add_lanes 4 dst src i") auto
    then show ?thesis using 3 by (subst sum_add_kernel.simps) auto
  next
    case 4
    then have "add_lanes 1 dst src i = None \<or> (\<exists>d. add_lanes 1 dst src i = Some d \<and> sum_add_kernel (N - 1) d src (i + 1) = None)"
      using "1.IH"(3) "1.prems" len by (cases "add_lanes 1 dst src i") auto
    then show ?thesis using 4 by (subst sum_add_kernel.simps) auto
  qed
qed

lemma sum_loop_ok: "i \<le> n \<Longrightarrow> n \<le> length dst \<Longrightarrow> n \<le> length src \<Longrightarrow> sum_loop [i..<n] dst src = Some (added (n - i) i dst src)"
proof (induction "n - i" arbitrary: i dst)
  case (Suc k)
  then have i: "i < n" "Suc i \<le> n" "k = n - Suc i" by simp_all
  let ?d = "dst[i := dst ! i + src ! i]"
  have "?d = added 1 i dst src" using i Suc.prems by (intro nth_equalityI) (auto simp: nth_added nth_list_update)
  then have "added (n - Suc i) (i + 1) ?d src = added (n - i) i dst src" using i(1) by (simp add: added_step Suc_diff_Suc)
  then show ?case using Suc.hyps(1) [OF i(3) i(2), of ?d] Suc.prems i by (simp add: upt_conv_Cons)
qed simp

text \<open>The first sixteen elements, added \<open>k\<close> times.\<close>

definition repeated :: "nat \<Rightarrow> 'a :: plus list \<Rightarrow> 'a list \<Rightarrow> 'a list" where
  "repeated k dst src = map (\<lambda>j. if j < 16 then ((\<lambda>x. x + src ! j) ^^ k) (dst ! j) else dst ! j) [0..<length dst]"

lemma float_loop_ok:
  "16 \<le> length dst \<Longrightarrow> 16 \<le> length src \<Longrightarrow> float_loop i n dst src = Some (repeated ((n - i + 15) div 16) dst src)"
proof (induction i n dst src rule: float_loop.induct)
  case (1 i n dst src)
  show ?case
  proof (cases "i < n")
    case True
    have k: "sum_kernel_n 16 dst src = Some (added 16 0 dst src)" using "1.prems" by (simp add: sum_kernel_n_def kernel_ok)
    have "(d + 15) div 16 = Suc ((d - 16 + 15) div 16)" if "0 < d" for d :: nat
      using that by (cases "d \<le> 16") (auto simp: le_div_geq)
    from this [of "n - i"] have "(n - i + 15) div 16 = Suc ((n - (i + 16) + 15) div 16)" using True by simp
    moreover have "((\<lambda>x. x + a) ^^ m) (b + a) = ((\<lambda>x. x + a) ^^ m) b + a" for m and a b :: 'a
      using funpow_swap1 [of "\<lambda>x. x + a" m b] by simp
    then have "repeated m (added 16 0 dst src) src = repeated (Suc m) dst src" for m
      by (intro nth_equalityI) (auto simp: repeated_def nth_added)
    ultimately show ?thesis using "1.IH" [OF True k] "1.prems" True k by (subst float_loop.simps) simp
  next
    case False
    have "repeated 0 dst src = dst" by (rule nth_equalityI) (auto simp: repeated_def)
    then show ?thesis using False by (subst float_loop.simps) simp
  qed
qed

text \<open>
  C27. Adding vectors. The generic implementation adds two vectors of the same length element by element, and every
  kernel does so for its block, whatever the width of the lanes. The specialisation for \<open>float\<close> does not: it never
  advances its pointers, so below sixteen elements it runs outside the vectors, and from sixteen elements on it adds the
  first sixteen once for every started block and leaves the others as they are.
\<close>

theorem simd_sum_correct:
  assumes "length dst = length src"
  shows "Sum_vec SumImpl dst src = Some (map2 (+) dst src) \<and>
    (\<forall>N. N \<le> length src \<longrightarrow> sum_add_kernel N dst src 0 = Some (map2 (+) (take N dst) (take N src) @ drop N dst)) \<and>
    Sum_vec SumImpl_float dst src =
      (if src = [] then Some [] else if length src < 16 then None
       else Some (map (\<lambda>j. if j < 16 then ((\<lambda>x. x + src ! j) ^^ ((length src + 15) div 16)) (dst ! j) else dst ! j) [0..<length src]))"
proof (intro conjI allI impI)
  have "added (length src) 0 dst src = map2 (+) dst src" using assms by (intro nth_equalityI) (auto simp: nth_added)
  then show "Sum_vec SumImpl dst src = Some (map2 (+) dst src)"
    using assms sum_loop_ok [of 0 "length src" dst src] by (simp add: Sum_vec_def SumImpl_def)
  fix N assume "N \<le> length src"
  then show "sum_add_kernel N dst src 0 = Some (map2 (+) (take N dst) (take N src) @ drop N dst)"
    using assms add_lanes_ok [of 0 N dst src] kernel_ok [of 0 N dst src] by (simp add: add_lanes_def)
next
  show "Sum_vec SumImpl_float dst src = (if src = [] then Some [] else if length src < 16 then None
     else Some (map (\<lambda>j. if j < 16 then ((\<lambda>x. x + src ! j) ^^ ((length src + 15) div 16)) (dst ! j) else dst ! j) [0..<length src]))"
  proof (cases "src = [] \<or> 16 \<le> length src")
    case True
    then show ?thesis using assms float_loop_ok [of dst src 0 "length src"]
      by (auto simp: Sum_vec_def SumImpl_float_def repeated_def float_loop.simps [of 0 0])
  next
    case False
    then have "sum_kernel_n 16 dst src = None" using assms kernel_out [of src 0 16 dst] by (simp add: sum_kernel_n_def)
    then show ?thesis using False assms by (simp add: Sum_vec_def SumImpl_float_def float_loop.simps [of 0 "length src"])
  qed
qed

theorem simd_sum_correct_witness:
  "Sum_vec SumImpl_float (replicate 17 1) (replicate 17 (1 :: int)) = Some (replicate 16 3 @ [1]) \<and>
   Sum_vec SumImpl (replicate 17 1) (replicate 17 (1 :: int)) = Some (replicate 17 2)"
proof -
  let ?v = "replicate 17 (1 :: int)"
  have "length ?v = length ?v" ..
  note th = simd_sum_correct [OF this]
  have "Sum_vec SumImpl_float ?v ?v = Some (map (\<lambda>j. if j < 16 then ((\<lambda>x. x + ?v ! j) ^^ ((length ?v + 15) div 16)) (?v ! j) else ?v ! j) [0..<length ?v])"
    using conjunct2 [OF conjunct2 [OF th]] unfolding length_replicate by (simp only: replicate_eq_replicate) simp
  moreover have "map (\<lambda>j. if j < 16 then ((\<lambda>x. x + ?v ! j) ^^ ((length ?v + 15) div 16)) (?v ! j) else ?v ! j) [0..<length ?v] = replicate 16 3 @ [1]"
    by code_simp
  moreover have "map2 (+) ?v ?v = replicate 17 2" by code_simp
  ultimately show ?thesis using conjunct1 [OF th] by simp
qed

end
