(* ===== verification/Reactor.thy ===== *)
theory Reactor
  imports Prelude "HOL-Library.Word" "HOL-Library.Monad_Syntax"
begin

text \<open>
  The reactor of \<open>src/reactor\<close>: the epoll demultiplexer (\<open>event_demultiplex.cc\<close>), the handlers of the connections
  (\<open>handler.cc\<close>) and their interplay with the worker threads that process requests. The kernel is a parameter: a record
  of the system calls over a kernel state, with the set of watched descriptors. \<open>Handler\<close> objects are shared pointers;
  an object is destroyed, and its descriptor closed, when neither \<open>fd_to_handler_\<close> nor a task refers to it any more.
\<close>

unbundle bit_operations_syntax

section \<open>System calls\<close>

definition EPOLLIN :: "32 word" where "EPOLLIN = 0x1"
definition EPOLLOUT :: "32 word" where "EPOLLOUT = 0x4"
definition EPOLLERR :: "32 word" where "EPOLLERR = 0x8"
definition EPOLLRDHUP :: "32 word" where "EPOLLRDHUP = 0x2000"
definition EPOLLET :: "32 word" where "EPOLLET = 0x80000000"

datatype epoll_op = Ctl_add | Ctl_mod | Ctl_del

text \<open>
  The outcome of one \<open>read\<close>: bytes, the end of the stream (with the information whether \<open>errno\<close> still holds \<open>EINTR\<close>
  from an earlier call), \<open>EINTR\<close>, \<open>EAGAIN\<close> or another error.
\<close>

datatype read_result = Bytes string | End_of_file bool | Interrupted | Again | Read_failed

record 'k kernel =
  epoll_ctl :: "'k \<Rightarrow> epoll_op \<Rightarrow> int \<Rightarrow> 32 word \<Rightarrow> bool \<times> 'k"
  k_close :: "'k \<Rightarrow> int \<Rightarrow> 'k"
  k_accept :: "'k \<Rightarrow> int \<Rightarrow> (int \<times> string) \<times> 'k"
  fcntl_ok :: "'k \<Rightarrow> int \<Rightarrow> bool"
  k_read :: "'k \<Rightarrow> int \<Rightarrow> read_result list \<times> 'k"
  interest :: "'k \<Rightarrow> int set"

text \<open>What the manual pages of \<open>epoll_ctl\<close> and \<open>close\<close> say of the set of watched descriptors.\<close>

definition epoll_ok :: "'k kernel \<Rightarrow> bool" where
  "epoll_ok K \<longleftrightarrow>
     (\<forall>k fd m k'. epoll_ctl K k Ctl_add fd m = (True, k') \<longrightarrow> interest K k' = insert fd (interest K k)) \<and>
     (\<forall>k fd m k'. epoll_ctl K k Ctl_mod fd m = (True, k') \<longrightarrow> fd \<in> interest K k \<and> interest K k' = interest K k) \<and>
     (\<forall>k fd m k'. epoll_ctl K k Ctl_del fd m = (True, k') \<longrightarrow> fd \<in> interest K k \<and> interest K k' = interest K k - {fd}) \<and>
     (\<forall>k op fd m k'. epoll_ctl K k op fd m = (False, k') \<longrightarrow> interest K k' = interest K k) \<and>
     (\<forall>k fd. interest K (k_close K k fd) = interest K k - {fd}) \<and>
     (\<forall>k fd. interest K (snd (k_accept K k fd)) = interest K k) \<and>
     (\<forall>k fd. interest K (snd (k_read K k fd)) = interest K k)"

section \<open>Handlers\<close>

datatype event_type = KAccept | KRead | KWrite | KError

record handler =
  h_fd :: int
  h_address :: string
  h_type :: event_type
  h_registered :: bool
  h_buffer :: string
  h_requests :: "string list"
  h_responses :: "string list"

definition handler_new :: "int \<Rightarrow> event_type \<Rightarrow> string \<Rightarrow> handler" where
  "handler_new fd type address =
     \<lparr>h_fd = fd, h_address = address, h_type = type, h_registered = False, h_buffer = [], h_requests = [], h_responses = []\<rparr>"

datatype failure = Check_failed | No_handler | Empty_front | Out_of_bounds | Over_read | Endless

text \<open>
  \<open>Handler::Read\<close> appends each piece as a C string: it ends at the first zero byte, and a full piece of 1024 bytes
  without one runs into the last, uninitialised byte of the array.
\<close>

fun read_loop :: "read_result list \<Rightarrow> string \<Rightarrow> failure + string option" where
  "read_loop [] data = Inl Endless"
| "read_loop (Bytes bs # rs) data =
     (if length bs = 1024 \<and> CHR 0x00 \<notin> set bs then Inl Over_read
      else read_loop rs (data @ takeWhile (\<lambda>c. c \<noteq> CHR 0x00) bs))"
| "read_loop (End_of_file eintr # rs) data = (if eintr then read_loop rs data else Inr (Some data))"
| "read_loop (Interrupted # rs) data = read_loop rs data"
| "read_loop (Again # rs) data = Inr (Some data)"
| "read_loop (Read_failed # rs) data = Inr None"

definition processor :: string where
  "processor = ''I am server''"

section \<open>The demultiplexer\<close>

record 'k reactor =
  rc_server_fd :: int
  rc_count :: int
  rc_map :: "(int \<times> nat) list"
  rc_obj :: "nat \<Rightarrow> handler"
  rc_live :: "nat list"
  rc_next :: nat
  rc_tasks :: "nat list"
  rc_events :: nat
  rc_batch :: "(int \<times> 32 word) list"
  rc_kernel :: 'k

abbreviation upd_obj :: "nat \<Rightarrow> (handler \<Rightarrow> handler) \<Rightarrow> 'k reactor \<Rightarrow> 'k reactor" where
  "upd_obj p f s \<equiv> s\<lparr>rc_obj := (rc_obj s)(p := f (rc_obj s p))\<rparr>"

text \<open>A shared pointer goes out of scope. Object 0 is the listening handler, which \<open>main\<close> itself keeps.\<close>

definition drop_ref :: "'k kernel \<Rightarrow> nat \<Rightarrow> 'k reactor \<Rightarrow> 'k reactor" where
  "drop_ref K p s =
     (if p = 0 \<or> p \<in> snd ` set (rc_map s) \<or> p \<in> set (rc_tasks s) \<or> p \<notin> set (rc_live s) then s
      else s\<lparr>rc_live := removeAll p (rc_live s), rc_kernel := k_close K (rc_kernel s) (h_fd (rc_obj s p))\<rparr>)"

definition event_mask :: "event_type \<Rightarrow> 32 word" where
  "event_mask type = (EPOLLRDHUP OR EPOLLET) OR
     (case type of KAccept \<Rightarrow> EPOLLIN | KRead \<Rightarrow> EPOLLIN | KWrite \<Rightarrow> EPOLLOUT | KError \<Rightarrow> 0)"

definition RegisterEventHandler :: "'k kernel \<Rightarrow> nat option \<Rightarrow> 'k reactor \<Rightarrow> bool \<times> 'k reactor" where
  "RegisterEventHandler K handler s =
     (case handler of
        None \<Rightarrow> (False, s)
      | Some p \<Rightarrow>
          let fd = h_fd (rc_obj s p);
              s = (if h_type (rc_obj s p) = KAccept then s\<lparr>rc_server_fd := fd\<rparr> else s);
              op = (if h_registered (rc_obj s p) then Ctl_mod else Ctl_add);
              (ok, k) = epoll_ctl K (rc_kernel s) op fd (event_mask (h_type (rc_obj s p)));
              s = s\<lparr>rc_kernel := k\<rparr>
          in if \<not> ok then (False, s)
             else let old = map_of (rc_map s) fd;
                      s = s\<lparr>rc_count := rc_count s + 1\<rparr>;
                      s = upd_obj p (h_registered_update (\<lambda>_. True)) s;
                      s = s\<lparr>rc_map := (fd, p) # filter (\<lambda>e. fst e \<noteq> fd) (rc_map s)\<rparr>
                  in (True, case old of None \<Rightarrow> s | Some q \<Rightarrow> drop_ref K q s))"

definition ClearEventHandler :: "'k kernel \<Rightarrow> nat option \<Rightarrow> 'k reactor \<Rightarrow> bool \<times> 'k reactor" where
  "ClearEventHandler K handler s =
     (case handler of
        None \<Rightarrow> (False, s)
      | Some p \<Rightarrow>
          let fd = h_fd (rc_obj s p);
              (ok, k) = epoll_ctl K (rc_kernel s) Ctl_del fd 0;
              s = s\<lparr>rc_kernel := k\<rparr>
          in if \<not> ok then (False, s)
             else (True, s\<lparr>rc_map := filter (\<lambda>e. fst e \<noteq> fd) (rc_map s), rc_count := rc_count s - 1,
                           rc_kernel := k_close K (rc_kernel s) fd\<rparr>))"

text \<open>\<open>Handler::Read\<close> with the callback of \<open>Dispatch\<close>: the task is handed to the thread pool.\<close>

definition handler_read :: "'k kernel \<Rightarrow> nat \<Rightarrow> 'k reactor \<Rightarrow> failure + 'k reactor" where
  "handler_read K p s =
     (let (rs, k) = k_read K (rc_kernel s) (h_fd (rc_obj s p)); s = s\<lparr>rc_kernel := k\<rparr>
      in case read_loop rs (h_buffer (rc_obj s p)) of
           Inl e \<Rightarrow> Inl e
         | Inr None \<Rightarrow> Inr (upd_obj p (h_type_update (\<lambda>_. KError)) s)
         | Inr (Some data) \<Rightarrow> Inr ((upd_obj p (h_requests_update (\<lambda>q. q @ [data])) s)\<lparr>rc_tasks := rc_tasks s @ [p]\<rparr>))"

definition handler_write :: "nat \<Rightarrow> 'k reactor \<Rightarrow> failure + 'k reactor" where
  "handler_write p s =
     (case h_responses (rc_obj s p) of
        [] \<Rightarrow> Inl Empty_front
      | r # q \<Rightarrow> Inr (upd_obj p (h_responses_update (\<lambda>_. q)) s))"

text \<open>The lambda of \<open>Handler::Read\<close> in a worker thread, with the callback at its end.\<close>

definition run_task :: "'k kernel \<Rightarrow> nat \<Rightarrow> 'k reactor \<Rightarrow> 'k reactor" where
  "run_task K p s =
     (let s = s\<lparr>rc_tasks := remove1 p (rc_tasks s)\<rparr>;
          n = length (h_requests (rc_obj s p));
          s = upd_obj p (\<lambda>h. h\<lparr>h_requests := [], h_responses := h_responses h @ replicate n processor\<rparr>) s;
          s = upd_obj p (h_type_update (\<lambda>_. KWrite)) s;
          (_, s) = RegisterEventHandler K (Some p) s
      in drop_ref K p s)"

definition checked :: "bool \<times> 'k reactor \<Rightarrow> failure + 'k reactor" where
  "checked r = (if fst r then Inr (snd r) else Inl Check_failed)"

definition dispatch_accept :: "'k kernel \<Rightarrow> nat \<Rightarrow> 'k reactor \<Rightarrow> failure + 'k reactor" where
  "dispatch_accept K p s =
     (let ((fd, address), k) = k_accept K (rc_kernel s) (h_fd (rc_obj s p)); s = s\<lparr>rc_kernel := k\<rparr>
      in if \<not> fcntl_ok K (rc_kernel s) fd then Inl Check_failed
         else let n = rc_next s;
                  s = s\<lparr>rc_obj := (rc_obj s)(n := handler_new fd KRead address), rc_live := n # rc_live s, rc_next := Suc n\<rparr>
              in checked (RegisterEventHandler K (Some n) s))"

definition Dispatch :: "'k kernel \<Rightarrow> nat \<Rightarrow> 'k reactor \<Rightarrow> failure + 'k reactor" where
  "Dispatch K p s =
     (case h_type (rc_obj s p) of
        KAccept \<Rightarrow> dispatch_accept K p s
      | KRead \<Rightarrow> handler_read K p s
      | KWrite \<Rightarrow>
          (case handler_write p s of
             Inl e \<Rightarrow> Inl e
           | Inr s \<Rightarrow> checked (RegisterEventHandler K (Some p) (upd_obj p (h_type_update (\<lambda>_. KRead)) s)))
      | KError \<Rightarrow> checked (ClearEventHandler K (Some p) s))"

text \<open>\<open>epoll_wait\<close> fills the vector; then the events are taken one after the other.\<close>

definition wait_events :: "(int \<times> 32 word) list \<Rightarrow> 'k reactor \<Rightarrow> failure + 'k reactor" where
  "wait_events evs s = (if rc_events s < length evs then Inl Out_of_bounds else Inr (s\<lparr>rc_batch := evs\<rparr>))"

definition process_event :: "'k kernel \<Rightarrow> 'k reactor \<Rightarrow> failure + 'k reactor" where
  "process_event K s =
     (case rc_batch s of
        [] \<Rightarrow> Inr s
      | (ready_fd, events) # rest \<Rightarrow>
          let s = s\<lparr>rc_batch := rest\<rparr>
          in case map_of (rc_map s) ready_fd of
               None \<Rightarrow> Inl No_handler
             | Some p \<Rightarrow>
                 let s = (if events AND EPOLLERR \<noteq> 0 then upd_obj p (h_type_update (\<lambda>_. KError)) s else s)
                 in map_sum id (drop_ref K p)
                      (if events AND EPOLLRDHUP \<noteq> 0 then checked (ClearEventHandler K (Some p) s) else Dispatch K p s))"

text \<open>\<open>main\<close> registers the listening socket and calls \<open>Run\<close>, which sizes the vector once.\<close>

definition reactor_start :: "'k kernel \<Rightarrow> 'k \<Rightarrow> int \<Rightarrow> 'k reactor" where
  "reactor_start K k fd =
     (let s = \<lparr>rc_server_fd = 0, rc_count = 0, rc_map = [], rc_obj = (\<lambda>_. handler_new fd KAccept []), rc_live = [0], rc_next = 1,
               rc_tasks = [], rc_events = 0, rc_batch = [], rc_kernel = k\<rparr>;
          (_, s) = RegisterEventHandler K (Some 0) s
      in s\<lparr>rc_events := nat (rc_count s)\<rparr>)"

section \<open>Interleavings\<close>

text \<open>The network changes the kernel state, \<open>epoll_wait\<close> returns, the main thread takes an event, a worker runs a task.\<close>

datatype 'k action = Env 'k | Wait "(int \<times> 32 word) list" | Take | Task nat

fun enabled :: "'k kernel \<Rightarrow> 'k action \<Rightarrow> 'k reactor \<Rightarrow> bool" where
  "enabled K (Env k) s \<longleftrightarrow> interest K k = interest K (rc_kernel s)"
| "enabled K (Wait evs) s \<longleftrightarrow> rc_batch s = [] \<and> distinct (map fst evs) \<and> fst ` set evs \<subseteq> interest K (rc_kernel s) \<and> int (length evs) \<le> rc_count s"
| "enabled K Take s \<longleftrightarrow> rc_batch s \<noteq> []"
| "enabled K (Task p) s \<longleftrightarrow> p \<in> set (rc_tasks s)"

fun act :: "'k kernel \<Rightarrow> 'k action \<Rightarrow> 'k reactor \<Rightarrow> failure + 'k reactor" where
  "act K (Env k) s = Inr (s\<lparr>rc_kernel := k\<rparr>)"
| "act K (Wait evs) s = wait_events evs s"
| "act K Take s = process_event K s"
| "act K (Task p) s = Inr (run_task K p s)"

inductive reachable :: "'k kernel \<Rightarrow> 'k \<Rightarrow> int \<Rightarrow> 'k reactor \<Rightarrow> bool" for K k fd where
  start: "reachable K k fd (reactor_start K k fd)"
| act: "reachable K k fd s \<Longrightarrow> enabled K a s \<Longrightarrow> act K a s = Inr s' \<Longrightarrow> reachable K k fd s'"

section \<open>Invariant\<close>

definition map_ok :: "'k kernel \<Rightarrow> 'k reactor \<Rightarrow> bool" where
  "map_ok K s \<longleftrightarrow> distinct (map fst (rc_map s)) \<and> (\<forall>(fd, p)\<in>set (rc_map s). p \<in> set (rc_live s) \<and> h_fd (rc_obj s p) = fd) \<and>
     interest K (rc_kernel s) \<subseteq> fst ` set (rc_map s) \<and> int (length (rc_map s)) \<le> rc_count s"

definition batch_ok :: "'k reactor \<Rightarrow> bool" where
  "batch_ok s \<longleftrightarrow> distinct (map fst (rc_batch s)) \<and> fst ` set (rc_batch s) \<subseteq> fst ` set (rc_map s)"

text \<open>Every waiting request has a task; a handler that waits to write has a response for every other task and one more.\<close>

definition queues_ok :: "'k reactor \<Rightarrow> nat \<Rightarrow> bool" where
  "queues_ok s p \<longleftrightarrow> length (h_requests (rc_obj s p)) \<le> count_list (rc_tasks s) p \<and>
     count_list (rc_tasks s) p + (if h_type (rc_obj s p) = KWrite then 1 else 0) \<le> length (h_requests (rc_obj s p)) + length (h_responses (rc_obj s p))"

definition objs_ok :: "'k reactor \<Rightarrow> bool" where
  "objs_ok s \<longleftrightarrow> set (rc_tasks s) \<subseteq> set (rc_live s) \<and> (\<forall>p\<in>set (rc_live s). p < rc_next s \<and> queues_ok s p)"

lemma drop_ref_keeps:
  assumes "epoll_ok K" "map_ok K s" "objs_ok s"
  shows "map_ok K (drop_ref K p s)" "objs_ok (drop_ref K p s)" "rc_map (drop_ref K p s) = rc_map s" "rc_batch (drop_ref K p s) = rc_batch s"
    "rc_tasks (drop_ref K p s) = rc_tasks s" "rc_obj (drop_ref K p s) = rc_obj s" "p \<in> set (rc_tasks s) \<Longrightarrow> p \<in> set (rc_live (drop_ref K p s))"
proof -
  show "rc_map (drop_ref K p s) = rc_map s" "rc_batch (drop_ref K p s) = rc_batch s" "rc_tasks (drop_ref K p s) = rc_tasks s"
    "rc_obj (drop_ref K p s) = rc_obj s" by (simp_all add: drop_ref_def)
  show "p \<in> set (rc_tasks s) \<Longrightarrow> p \<in> set (rc_live (drop_ref K p s))" using assms(3) by (auto simp: drop_ref_def objs_ok_def)
  have cl: "interest K (k_close K k fd) \<subseteq> interest K k" for k fd using assms(1) by (simp add: epoll_ok_def)
  show "map_ok K (drop_ref K p s)"
  proof (cases "p \<in> snd ` set (rc_map s)")
    case False
    then have "p' \<noteq> p" if "(fd, p') \<in> set (rc_map s)" for fd p' using that by force
    then show ?thesis using assms(2) cl unfolding map_ok_def drop_ref_def by fastforce
  qed (use assms(2) in \<open>simp add: drop_ref_def\<close>)
  show "objs_ok (drop_ref K p s)" using assms(3) by (auto simp: drop_ref_def objs_ok_def queues_ok_def)
qed

lemma dom_update: "fst ` set ((fd, p) # filter (\<lambda>e. fst e \<noteq> fd) m) = insert fd (fst ` set m)"
  by force

lemma register_ok:
  assumes "epoll_ok K" "map_ok K s" "objs_ok s" "p \<in> set (rc_live s)" "RegisterEventHandler K (Some p) s = (ok, s')"
  shows "map_ok K s'" "objs_ok s'" "rc_batch s' = rc_batch s" "rc_tasks s' = rc_tasks s" "fst ` set (rc_map s) \<subseteq> fst ` set (rc_map s')"
    "rc_events s' = rc_events s"
proof -
  let ?h = "rc_obj s p" let ?fd = "h_fd (rc_obj s p)"
  let ?s1 = "if h_type ?h = KAccept then s\<lparr>rc_server_fd := ?fd\<rparr> else s"
  obtain b k where k: "epoll_ctl K (rc_kernel s) (if h_registered ?h then Ctl_mod else Ctl_add) ?fd (event_mask (h_type ?h)) = (b, k)" by fastforce
  have ik: "interest K k \<subseteq> insert ?fd (interest K (rc_kernel s))" "\<not> b \<Longrightarrow> interest K k = interest K (rc_kernel s)"
    using k assms(1) unfolding epoll_ok_def by (cases b; cases "h_registered ?h"; fastforce)+
  let ?m = "(?fd, p) # filter (\<lambda>e. fst e \<noteq> ?fd) (rc_map s)"
  let ?s2 = "?s1\<lparr>rc_kernel := k, rc_count := rc_count s + 1, rc_obj := (rc_obj s)(p := ?h\<lparr>h_registered := True\<rparr>), rc_map := ?m\<rparr>"
  have s': "s' = (if b then case map_of (rc_map s) ?fd of None \<Rightarrow> ?s2 | Some q \<Rightarrow> drop_ref K q ?s2 else ?s1\<lparr>rc_kernel := k\<rparr>)"
    using assms(5) k by (cases "map_of (rc_map s) ?fd") (auto simp: RegisterEventHandler_def Let_def split: if_splits)
  have o2: "objs_ok ?s2" using assms(3) by (auto simp: objs_ok_def queues_ok_def)
  have m2: "map_ok K ?s2"
  proof -
    have "distinct (map fst ?m)" using assms(2) by (auto simp: map_ok_def distinct_map inj_on_def)
    moreover have "q \<in> set (rc_live s) \<and> h_fd (if q = p then ?h\<lparr>h_registered := True\<rparr> else rc_obj s q) = fd" if "(fd, q) \<in> set ?m" for fd q
      using that assms(2,4) by (auto simp: map_ok_def)
    moreover have "interest K k \<subseteq> fst ` set ?m" unfolding dom_update using ik(1) assms(2) by (auto simp: map_ok_def)
    moreover have "int (length (filter (\<lambda>e. fst e \<noteq> ?fd) (rc_map s))) \<le> rc_count s"
      by (rule order_trans [of _ "int (length (rc_map s))"]) (use assms(2) in \<open>simp_all add: map_ok_def\<close>)
    then have "int (length ?m) \<le> rc_count s + 1" by simp
    ultimately show ?thesis by (auto simp: map_ok_def)
  qed
  have dom: "fst ` set (rc_map s) \<subseteq> fst ` set ?m" unfolding dom_update by blast
  have "map_ok K s' \<and> objs_ok s' \<and> rc_batch s' = rc_batch s \<and> rc_tasks s' = rc_tasks s \<and> fst ` set (rc_map s) \<subseteq> fst ` set (rc_map s') \<and> rc_events s' = rc_events s"
  proof (cases b)
    case True
    then have "s' = ?s2 \<or> (\<exists>q. s' = drop_ref K q ?s2)" using s' by (auto split: option.splits)
    then show ?thesis using drop_ref_keeps [OF assms(1) m2 o2] m2 o2 dom by (elim disjE exE) (simp_all add: drop_ref_def dom_update)
  next
    case False
    then show ?thesis using s' ik(2) assms(2,3) by (auto simp: map_ok_def objs_ok_def queues_ok_def)
  qed
  then show "map_ok K s'" "objs_ok s'" "rc_batch s' = rc_batch s" "rc_tasks s' = rc_tasks s" "fst ` set (rc_map s) \<subseteq> fst ` set (rc_map s')"
    "rc_events s' = rc_events s" by blast+
qed

lemma length_erase:
  assumes "distinct (map fst m)" "fd \<in> fst ` set m"
  shows "Suc (length (filter (\<lambda>e. fst e \<noteq> fd) m)) = length m"
  using assms
proof (induction m)
  case (Cons e m)
  show ?case
  proof (cases "fst e = fd")
    case True
    then have "filter (\<lambda>e. fst e \<noteq> fd) m = m" using Cons.prems(1) by (intro filter_True) (auto simp: rev_image_eqI)
    then show ?thesis using True by simp
  qed (use Cons in auto)
qed simp

lemma clear_ok:
  assumes "epoll_ok K" "map_ok K s" "objs_ok s" "map_of (rc_map s) (h_fd (rc_obj s p)) = Some p" "batch_ok s"
    "h_fd (rc_obj s p) \<notin> fst ` set (rc_batch s)" "ClearEventHandler K (Some p) s = (True, s')"
  shows "map_ok K s'" "objs_ok s'" "batch_ok s'" "rc_events s' = rc_events s"
proof -
  let ?fd = "h_fd (rc_obj s p)"
  obtain k where k: "epoll_ctl K (rc_kernel s) Ctl_del ?fd 0 = (True, k)" and
    s': "s' = s\<lparr>rc_map := filter (\<lambda>e. fst e \<noteq> ?fd) (rc_map s), rc_count := rc_count s - 1, rc_kernel := k_close K k ?fd\<rparr>"
    using assms(7) by (auto simp: ClearEventHandler_def Let_def split: prod.splits if_splits)
  have ik: "interest K (k_close K k ?fd) = interest K (rc_kernel s) - {?fd}" using k assms(1) unfolding epoll_ok_def by auto
  have dom: "fst ` set (filter (\<lambda>e. fst e \<noteq> ?fd) (rc_map s)) = fst ` set (rc_map s) - {?fd}" by force
  have mem: "?fd \<in> fst ` set (rc_map s)" using map_of_SomeD [OF assms(4)] by force
  have m: "distinct (map fst (rc_map s))" "interest K (rc_kernel s) \<subseteq> fst ` set (rc_map s)" "int (length (rc_map s)) \<le> rc_count s"
    using assms(2) by (simp_all add: map_ok_def)
  have "int (length (filter (\<lambda>e. fst e \<noteq> ?fd) (rc_map s))) \<le> rc_count s - 1" using length_erase [OF m(1) mem] m(3) by simp
  moreover have "distinct (map fst (filter (\<lambda>e. fst e \<noteq> ?fd) (rc_map s)))" using m(1) by (simp add: distinct_map_filter)
  ultimately show "map_ok K s'" using assms(2) m(2) unfolding s' map_ok_def by (auto simp: ik dom)
  show "objs_ok s'" using assms(3) by (simp add: s' objs_ok_def queues_ok_def)
  have "fst ` set (rc_batch s) \<subseteq> fst ` set (rc_map s) - {?fd}" using assms(5,6) unfolding batch_ok_def by blast
  moreover have "rc_batch s' = rc_batch s" "rc_map s' = filter (\<lambda>e. fst e \<noteq> ?fd) (rc_map s)" by (simp_all add: s')
  ultimately show "batch_ok s'" using assms(5) unfolding batch_ok_def by (simp only: dom)
  show "rc_events s' = rc_events s" by (simp add: s')
qed

text \<open>Changing one object without its descriptor.\<close>

lemma upd_obj_map: "map_ok K s \<Longrightarrow> (\<And>h. h_fd (f h) = h_fd h) \<Longrightarrow> map_ok K (upd_obj p f s)"
  by (auto simp: map_ok_def)

lemma run_task_ok:
  assumes "epoll_ok K" "map_ok K s" "objs_ok s" "batch_ok s" "p \<in> set (rc_tasks s)"
  shows "map_ok K (run_task K p s) \<and> objs_ok (run_task K p s) \<and> batch_ok (run_task K p s)"
proof -
  let ?h = "rc_obj s p" let ?t = "rc_tasks s"
  let ?h' = "?h\<lparr>h_requests := [], h_responses := h_responses ?h @ replicate (length (h_requests ?h)) processor, h_type := KWrite\<rparr>"
  let ?s1 = "s\<lparr>rc_tasks := remove1 p ?t, rc_obj := (rc_obj s)(p := ?h')\<rparr>"
  obtain ok s2 where s2: "RegisterEventHandler K (Some p) ?s1 = (ok, s2)" by fastforce
  have run: "run_task K p s = drop_ref K p s2" using s2 by (simp add: run_task_def Let_def)
  have live: "p \<in> set (rc_live s)" "p \<in> set (rc_live ?s1)" using assms(3,5) by (auto simp: objs_ok_def)
  have m1: "map_ok K ?s1" using assms(2) by (auto simp: map_ok_def)
  have "count_list (remove1 p xs) q = count_list xs q - (if q = p then 1 else 0)" for q xs by (induction xs) auto
  moreover have "0 < count_list ?t p" using assms(5) count_notin by (metis count_list_0_iff gr0I)
  ultimately have q: "queues_ok ?s1 q" if "q \<in> set (rc_live s)" for q
    using that assms(3) by (cases "q = p") (auto simp: objs_ok_def queues_ok_def)
  have o1: "objs_ok ?s1" using assms(3) q set_remove1_subset [of p ?t] unfolding objs_ok_def by auto
  note r = register_ok [OF assms(1) m1 o1 live(2) s2]
  have "fst ` set (rc_map s) \<subseteq> fst ` set (rc_map s2)" using r(5) by simp
  then have "fst ` set (rc_batch s) \<subseteq> fst ` set (rc_map s2)" using assms(4) unfolding batch_ok_def by (meson subset_trans)
  then show ?thesis using drop_ref_keeps [OF assms(1) r(1,2), of p] r(3) assms(4) unfolding run batch_ok_def by simp
qed

text \<open>What the dispatch of an event keeps.\<close>

definition rinv :: "'k kernel \<Rightarrow> 'k reactor \<Rightarrow> bool" where
  "rinv K s \<longleftrightarrow> map_ok K s \<and> objs_ok s \<and> batch_ok s"

lemma checked_register:
  assumes "epoll_ok K" "rinv K s" "p \<in> set (rc_live s)" "checked (RegisterEventHandler K (Some p) s) = Inr s'"
  shows "rinv K s'"
proof -
  obtain ok s2 where s2: "RegisterEventHandler K (Some p) s = (ok, s2)" by fastforce
  have inv: "map_ok K s" "objs_ok s" "batch_ok s" using assms(2) by (simp_all add: rinv_def)
  note r = register_ok [OF assms(1) inv(1,2) assms(3) s2]
  have "s' = s2" using assms(4) s2 by (auto simp: checked_def split: if_splits)
  moreover have "batch_ok s2" using inv(3) r(3,5) unfolding batch_ok_def by (metis subset_trans)
  ultimately show ?thesis using r(1,2) by (simp add: rinv_def)
qed

lemma rinv_live:
  assumes "rinv K s" "map_of (rc_map s) fd = Some p"
  shows "p \<in> set (rc_live s)" "h_fd (rc_obj s p) = fd"
  using assms map_of_SomeD [OF assms(2)] by (auto simp: rinv_def map_ok_def)

lemma rinv_kernel: "rinv K s \<Longrightarrow> interest K k = interest K (rc_kernel s) \<Longrightarrow> rinv K (s\<lparr>rc_kernel := k\<rparr>)"
  by (simp add: rinv_def map_ok_def batch_ok_def objs_ok_def queues_ok_def)

lemma rinv_upd:
  assumes "rinv K s" "\<And>h. h_fd (f h) = h_fd h" "queues_ok (upd_obj p f s) p"
  shows "rinv K (upd_obj p f s)"
  using assms by (auto simp: rinv_def map_ok_def batch_ok_def objs_ok_def queues_ok_def)

lemma handler_read_ok:
  assumes "epoll_ok K" "rinv K s" "p \<in> set (rc_live s)" "h_type (rc_obj s p) = KRead"
  shows "case handler_read K p s of Inl e \<Rightarrow> e \<in> {Over_read, Endless} | Inr s' \<Rightarrow> rinv K s'"
proof -
  obtain rs k where k: "k_read K (rc_kernel s) (h_fd (rc_obj s p)) = (rs, k)" by fastforce
  have "interest K k = interest K (rc_kernel s)" using k assms(1) unfolding epoll_ok_def by (metis snd_conv)
  then have inv: "rinv K (s\<lparr>rc_kernel := k\<rparr>)" using rinv_kernel [OF assms(2)] by simp
  have e: "e \<in> {Over_read, Endless}" if "read_loop rs b = Inl e" for b e
    using that by (induction rs b rule: read_loop.induct) (auto split: if_splits)
  have "rinv K ((upd_obj p (h_requests_update (\<lambda>q. q @ [data])) (s\<lparr>rc_kernel := k\<rparr>))\<lparr>rc_tasks := rc_tasks s @ [p]\<rparr>)" for data
    using inv assms(3) by (auto simp: rinv_def map_ok_def batch_ok_def objs_ok_def queues_ok_def)
  moreover have "rinv K (upd_obj p (h_type_update (\<lambda>_. KError)) (s\<lparr>rc_kernel := k\<rparr>))"
    using inv assms(3) by (auto simp: rinv_def map_ok_def batch_ok_def objs_ok_def queues_ok_def split: if_splits)
  ultimately show ?thesis
    using e by (cases "read_loop rs (h_buffer (rc_obj s p))") (auto simp: handler_read_def k Let_def split: option.splits)
qed

lemma handler_write_ok:
  assumes "rinv K s" "p \<in> set (rc_live s)" "h_type (rc_obj s p) = KWrite"
  obtains s' where "handler_write p s = Inr s'" "rinv K (upd_obj p (h_type_update (\<lambda>_. KRead)) s')" "rc_live s' = rc_live s"
proof -
  have q: "queues_ok s p" using assms(1,2) by (simp add: rinv_def objs_ok_def)
  then obtain r rs where rs: "h_responses (rc_obj s p) = r # rs"
    using assms(3) by (cases "h_responses (rc_obj s p)") (auto simp: queues_ok_def)
  let ?f = "\<lambda>h. h\<lparr>h_responses := rs, h_type := KRead\<rparr>"
  have "rinv K (upd_obj p ?f s)"
    by (rule rinv_upd [OF assms(1)]) (use q rs assms(3) in \<open>simp_all add: queues_ok_def\<close>)
  then show thesis using that rs by (simp add: handler_write_def)
qed

lemma dispatch_accept_ok:
  assumes "epoll_ok K" "rinv K s"
  shows "case dispatch_accept K p s of Inl e \<Rightarrow> e = Check_failed | Inr s' \<Rightarrow> rinv K s'"
proof -
  obtain fd ad k where k: "k_accept K (rc_kernel s) (h_fd (rc_obj s p)) = ((fd, ad), k)" by (metis prod.collapse)
  let ?n = "rc_next s"
  let ?s = "s\<lparr>rc_kernel := k, rc_obj := (rc_obj s)(?n := handler_new fd KRead ad), rc_live := ?n # rc_live s, rc_next := Suc ?n\<rparr>"
  have "interest K k = interest K (rc_kernel s)" using k assms(1) unfolding epoll_ok_def by (metis snd_conv)
  moreover have new: "?n \<notin> set (rc_live s)" "?n \<notin> set (rc_tasks s)" using assms(2) by (auto simp: rinv_def objs_ok_def)
  moreover have "count_list (rc_tasks s) ?n = 0" using new(2) by (simp add: count_list_0_iff)
  ultimately have "rinv K ?s" using assms(2) unfolding rinv_def map_ok_def batch_ok_def objs_ok_def queues_ok_def
    by (auto simp: handler_new_def)
  then have "rinv K s'" if "checked (RegisterEventHandler K (Some ?n) ?s) = Inr s'" for s'
    using checked_register [OF assms(1) _ _ that] by simp
  then show ?thesis using k by (auto simp: dispatch_accept_def Let_def checked_def split: if_splits)
qed

lemma process_event_ok:
  assumes "epoll_ok K" "rinv K s" "rc_batch s \<noteq> []"
  shows "case process_event K s of Inl e \<Rightarrow> e \<in> {Check_failed, Over_read, Endless} | Inr s' \<Rightarrow> rinv K s'"
proof -
  obtain fd ev rest where b: "rc_batch s = (fd, ev) # rest" using assms(3) by (cases "rc_batch s") auto
  let ?s = "s\<lparr>rc_batch := rest\<rparr>"
  have inv: "rinv K ?s" and notin: "fd \<notin> fst ` set rest" and mem: "fd \<in> fst ` set (rc_map s)"
    using assms(2) b by (auto simp: rinv_def map_ok_def batch_ok_def objs_ok_def queues_ok_def)
  obtain p where p: "map_of (rc_map s) fd = Some p" using mem by (metis map_of_eq_None_iff not_None_eq)
  define t where "t = (if ev AND EPOLLERR \<noteq> 0 then upd_obj p (h_type_update (\<lambda>_. KError)) ?s else ?s)"
  have tinv: "rinv K t"
  proof -
    have "queues_ok (upd_obj p (h_type_update (\<lambda>_. KError)) ?s) p"
      using inv rinv_live(1) [OF assms(2) p] by (auto simp: rinv_def objs_ok_def queues_ok_def split: if_splits)
    then show ?thesis unfolding t_def using inv rinv_upd [OF inv, of "h_type_update (\<lambda>_. KError)" p] by simp
  qed
  have tm: "map_of (rc_map t) fd = Some p" "rc_batch t = rest" using p by (simp_all add: t_def)
  note live = rinv_live [OF tinv tm(1)]
  have clear: "case checked (ClearEventHandler K (Some p) t) of Inl e \<Rightarrow> e = Check_failed | Inr s' \<Rightarrow> rinv K s'"
  proof -
    obtain ok s2 where s2: "ClearEventHandler K (Some p) t = (ok, s2)" by fastforce
    have "rinv K s2" if ok
      using clear_ok [OF assms(1), of t p s2] tinv tm live(2) notin s2 that unfolding rinv_def by simp
    then show ?thesis using s2 by (simp add: checked_def)
  qed
  have disp: "case Dispatch K p t of Inl e \<Rightarrow> e \<in> {Check_failed, Over_read, Endless} | Inr s' \<Rightarrow> rinv K s'"
  proof (cases "h_type (rc_obj t p)")
    case KAccept
    then show ?thesis using dispatch_accept_ok [OF assms(1) tinv, of p] by (auto simp: Dispatch_def split: sum.splits)
  next
    case KRead
    then show ?thesis using handler_read_ok [OF assms(1) tinv live(1)] by (auto simp: Dispatch_def split: sum.splits)
  next
    case KWrite
    obtain w where w: "handler_write p t = Inr w" "rinv K (upd_obj p (h_type_update (\<lambda>_. KRead)) w)" "rc_live w = rc_live t"
      using handler_write_ok [OF tinv live(1) KWrite] .
    then have "rinv K s'" if "checked (RegisterEventHandler K (Some p) (upd_obj p (h_type_update (\<lambda>_. KRead)) w)) = Inr s'" for s'
      using checked_register [OF assms(1) w(2) _ that] live(1) by simp
    then show ?thesis using KWrite w(1) by (auto simp: Dispatch_def checked_def split: sum.splits if_splits)
  next
    case KError
    then show ?thesis using clear by (auto simp: Dispatch_def split: sum.splits)
  qed
  let ?r = "if ev AND EPOLLRDHUP \<noteq> 0 then checked (ClearEventHandler K (Some p) t) else Dispatch K p t"
  have r: "case ?r of Inl e \<Rightarrow> e \<in> {Check_failed, Over_read, Endless} | Inr s' \<Rightarrow> rinv K s'"
    using clear disp by (auto split: sum.splits)
  have "process_event K s = map_sum id (drop_ref K p) ?r" using b p by (simp add: process_event_def Let_def t_def)
  moreover have "rinv K (drop_ref K p s')" if "rinv K s'" for s'
    using that drop_ref_keeps [OF assms(1), of s' p] by (simp add: rinv_def batch_ok_def)
  ultimately show ?thesis using r by (cases ?r) simp_all
qed

lemma reachable_inv:
  assumes "epoll_ok K" "interest K k = {}"
  shows "reachable K k fd s \<Longrightarrow> rinv K s"
proof (induction rule: reachable.induct)
  case start
  let ?s = "\<lparr>rc_server_fd = 0, rc_count = 0, rc_map = [], rc_obj = (\<lambda>_. handler_new fd KAccept []), rc_live = [0], rc_next = 1,
               rc_tasks = [], rc_events = 0, rc_batch = [], rc_kernel = k\<rparr>"
  obtain ok s where s: "RegisterEventHandler K (Some 0) ?s = (ok, s)" by fastforce
  have m0: "map_ok K ?s" "objs_ok ?s" "(0 :: nat) \<in> set (rc_live ?s)"
    using assms(2) by (simp_all add: map_ok_def objs_ok_def queues_ok_def handler_new_def)
  note r = register_ok [OF assms(1) m0 s]
  have "reactor_start K k fd = s\<lparr>rc_events := nat (rc_count s)\<rparr>" using s by (simp add: reactor_start_def)
  then show ?case using r(1-3) by (simp add: rinv_def map_ok_def objs_ok_def queues_ok_def batch_ok_def)
next
  case (act s a s')
  show ?case
  proof (cases a)
    case (Env k')
    then show ?thesis using act rinv_kernel [OF act.IH, of k'] by simp
  next
    case (Wait evs)
    then have "s' = s\<lparr>rc_batch := evs\<rparr>" "distinct (map fst evs)" "fst ` set evs \<subseteq> interest K (rc_kernel s)"
      using act.hyps by (auto simp: wait_events_def split: if_splits)
    moreover have "interest K (rc_kernel s) \<subseteq> fst ` set (rc_map s)" using act.IH by (simp add: rinv_def map_ok_def)
    ultimately show ?thesis using act.IH by (simp add: rinv_def map_ok_def batch_ok_def objs_ok_def queues_ok_def subset_trans)
  next
    case Take
    then show ?thesis using act process_event_ok [OF assms(1) act.IH] by (simp split: sum.splits)
  next
    case (Task p)
    then show ?thesis using act run_task_ok [OF assms(1), of s p] by (auto simp: rinv_def)
  qed
qed

section \<open>Properties\<close>


text \<open>A kernel whose state is the list of watched descriptors and the descriptor the next \<open>accept\<close> returns.\<close>

definition list_ctl :: "int list \<times> int \<Rightarrow> epoll_op \<Rightarrow> int \<Rightarrow> 32 word \<Rightarrow> bool \<times> (int list \<times> int)" where
  "list_ctl k op fd m =
     (case op of Ctl_add \<Rightarrow> if fd \<in> set (fst k) then (False, k) else (True, fd # fst k, snd k)
      | Ctl_mod \<Rightarrow> (fd \<in> set (fst k), k)
      | Ctl_del \<Rightarrow> if fd \<in> set (fst k) then (True, removeAll fd (fst k), snd k) else (False, k))"

definition list_kernel :: "(int list \<times> int) kernel" where
  "list_kernel = \<lparr>epoll_ctl = list_ctl, k_close = (\<lambda>k fd. (removeAll fd (fst k), snd k)), k_accept = (\<lambda>k fd. ((snd k, []), k)),
     fcntl_ok = (\<lambda>k fd. 0 \<le> fd), k_read = (\<lambda>k fd. ([Bytes ''hello'', Again], k)), interest = (\<lambda>k. set (fst k))\<rparr>"

lemma list_kernel_ok: "epoll_ok list_kernel"
  unfolding epoll_ok_def by (auto simp: list_kernel_def list_ctl_def split: epoll_op.splits if_splits)

fun run_acts :: "'k kernel \<Rightarrow> 'k action list \<Rightarrow> 'k reactor \<Rightarrow> 'k reactor option" where
  "run_acts K [] s = Some s"
| "run_acts K (a # as) s = (if enabled K a s then (case act K a s of Inl e \<Rightarrow> None | Inr s \<Rightarrow> run_acts K as s) else None)"

lemma run_acts_reachable: "run_acts K as s = Some s' \<Longrightarrow> reachable K k fd s \<Longrightarrow> reachable K k fd s'"
  by (induction as arbitrary: s) (auto split: if_splits sum.splits intro: reachable.act)

text \<open>A client is accepted, and both descriptors are ready.\<close>

definition accepted :: "(int list \<times> int) reactor option" where
  "accepted = run_acts list_kernel [Wait [(3, EPOLLIN)], Take] (reactor_start list_kernel ([], 5) 3)"

text \<open>
  The client sends data and hangs up before the worker has run; another client is accepted on the same descriptor.
\<close>

definition taken_over :: "(int list \<times> int) reactor option" where
  "taken_over = run_acts list_kernel
     [Wait [(3, EPOLLIN)], Take, Wait [(5, EPOLLIN)], Take, Wait [(5, EPOLLRDHUP)], Take, Wait [(3, EPOLLIN)], Take, Task 1]
     (reactor_start list_kernel ([], 5) 3)"

lemma accepted_state:
  obtains s where "accepted = Some s" "reachable list_kernel ([], 5) 3 s" "rc_events s = 1" "rc_count s = 2" "rc_batch s = []"
    "rc_map s = [(5, 1), (3, 0)]" "rc_kernel s = ([5, 3], 5)"
proof -
  have "map_option (\<lambda>s. (rc_events s, rc_count s, rc_batch s, rc_map s, rc_kernel s)) accepted = Some (1, 2, [], [(5, 1), (3, 0)], ([5, 3], 5))"
    by code_simp
  then obtain s where s: "accepted = Some s" "rc_events s = 1" "rc_count s = 2" "rc_batch s = []" "rc_map s = [(5, 1), (3, 0)]" "rc_kernel s = ([5, 3], 5)"
    by auto
  then show thesis using that run_acts_reachable [OF s(1) [unfolded accepted_def] reachable.start] by blast
qed


lemma taken_over_state:
  obtains s where "reachable list_kernel ([], 5) 3 s" "map_of (rc_map s) 5 = Some 1" "rc_live s = [1, 0]" "rc_kernel s = ([3], 5)" "rc_next s = 3"
proof -
  have "map_option (\<lambda>s. (map_of (rc_map s) 5, rc_live s, rc_kernel s, rc_next s)) taken_over = Some (Some 1, [1, 0], ([3], 5), 3)" by code_simp
  then obtain s where s: "taken_over = Some s" "map_of (rc_map s) 5 = Some 1" "rc_live s = [1, 0]" "rc_kernel s = ([3], 5)" "rc_next s = 3"
    by auto
  then show thesis using that run_acts_reachable [OF s(1) [unfolded taken_over_def] reachable.start] by blast
qed

lemma read_full_piece: "c \<noteq> CHR 0x00 \<Longrightarrow> read_loop (Bytes (replicate 1024 c) # rs) data = Inl Over_read"
  by simp

lemma read_stale_errno: "read_loop (replicate n (End_of_file True)) data = Inl Endless"
  by (induction n) simp_all


end
