(* ===== verification/Spec2Isabelle.thy ===== *)
theory Spec2Isabelle
  imports HeapTree SortLib UnionFind SegTree Fenwick Dijkstra Spfa Topo Btest MmPkg Crc32 Bloom Md5 RbMap ShmFifo SpinLock BlockingQueue ThreadPool MathPow RingBuffer Trie Kmp SimdSum Reactor
begin

text \<open>
  \<^bold>\<open>A verification development for the repository \<open>cpp-learn\<close>.\<close> The repository collects data structures, algorithms,
  hash functions, memory allocators, thread utilities, a reactor server and two laboratories of a systems course, in C
  and C++. This development models the code that computes something and proves what makes it correct. All paths below are
  under \<open>src/\<close>.

  \<^bold>\<open>How the parts interact.\<close>

    \<^item> The malloc laboratory is a stack: \<open>mm.c\<close> allocates in the simulated memory of \<open>memlib.c\<close>, and the trace driver
      \<open>mdriver.c\<close> runs an allocator on a trace and judges it.
    \<^item> The shared-memory message queue stores its messages in blocks of a buddy allocator whose whole state lies in the
      bytes of an object-builder buffer; that allocator is the byte-level twin of the buddy allocator on a vector.
    \<^item> The reactor hands the requests of its connections to the thread pool; the callback of a task registers the
      connection again.
    \<^item> The Bloom filters hash with MurmurHash; heap sort has its own heap, radix sort its own counting sort.
    \<^item> The test harness of the data laboratory runs the puzzles of \<open>bits.c\<close> against the references of \<open>tests.c\<close>.

  \<^bold>\<open>Conventions.\<close> A vector or buffer access is checked: \<open>None\<close> stands for an access outside the object, for following an
  invalid pointer, for a failed \<open>CHECK\<close>, for an overflow of a signed integer where the code relies on there being none,
  and, for a \<open>partial_function\<close>, for a loop or recursion that does not end. A theorem that an operation returns \<open>Some\<close> is
  therefore also one of memory safety and of termination. No definition has fuel: loops are structural recursions,
  functions with a termination proof, or partial functions whose return is proved. Unsigned machine integers are words
  (\<open>Bits\<close>, \<open>Crc32\<close>, \<open>Murmur\<close>, \<open>Md5\<close>, the bytes of \<open>ObjBuilder\<close> and \<open>RingBuffer\<close>) or numbers with the wrap-around written
  out. Operations that hold a mutex or a spin lock from beginning to end are single steps; where a thread gives the lock
  up in the middle (condition variables) or has none, the theory has a step relation.

  \<^bold>\<open>Shared base.\<close> \<open>Prelude\<close>: checked vectors, swaps, list facts, the collection \<open>vec_simps\<close>. Interfaces as locales, each
  interpreted on the models: \<open>PrioQueue\<close> (both heaps), \<open>MapIface\<close> (red-black tree), \<open>PoolIface\<close> (both buddy allocators, in
  \<open>BuddyPool\<close>), \<open>Allocator\<close> (what the trace driver asks of a package; \<open>mm.c\<close> in \<open>MmPkg\<close>), \<open>sorter\<close> in \<open>SortLib\<close> (the sorts).

  \<^bold>\<open>Data structures\<close> (\<open>cpp/datastructure\<close>).

    \<^item> \<open>HeapTree\<close> (\<open>tree/heap.h\<close>): the array heaps; filling and draining sorts.
    \<^item> \<open>RbTree\<close>, \<open>RbZip\<close>, \<open>RbInsert\<close>, \<open>RbErase\<close>, \<open>RbUnlink\<close>, \<open>RbSpec\<close>, \<open>RbMap\<close> (\<open>tree/red_black_tree.h\<close>): the pointer
      program, its representation of a tree by zippers, the insertion and deletion fix-ups, the map it implements, the
      invariant, the height bound and the destructor.
    \<^item> \<open>SegTree\<close>, \<open>Fenwick\<close> (\<open>tree/segment_tree.h\<close>, \<open>tree/binary_index_tree.h\<close>): range updates and range sums agree with a
      plain list; \<open>range_set\<close> does not work.
    \<^item> \<open>Trie\<close> (\<open>tree/trie.h\<close>): a set of strings with a prefix test, and its destructor.
    \<^item> \<open>UnionFind\<close> (\<open>search/UFS.h\<close>): connectivity of the joined pairs.
    \<^item> \<open>RingBuffer\<close> (\<open>queue/ringbuffer.cc\<close>): a byte ring refines a queue that drops its oldest messages.
    \<^item> \<open>Crc32\<close>, \<open>Murmur\<close>, \<open>Md5\<close> (\<open>hash\<close>): the optimised routines equal bit-serial or RFC reference definitions.

  \<^bold>\<open>Algorithms\<close> (\<open>cpp/algorithm\<close>).

    \<^item> \<open>SortBasic\<close>, \<open>SortMerge\<close>, \<open>SortQuick\<close>, \<open>SortHeap\<close>, \<open>SortCount\<close>, \<open>SortLib\<close> (\<open>lib/sort/sort.h\<close>): ten sorts; the ascending
      permutation is the result, where shell sort and bucket sort fail is stated.
    \<^item> \<open>MathPow\<close> (\<open>lib/math\<close>): fast power and binomial coefficients within \<open>int64_t\<close>.
    \<^item> \<open>Graph\<close>, \<open>BellmanFord\<close>, \<open>Spfa\<close>, \<open>Floyd\<close>, \<open>Dijkstra\<close>, \<open>Topo\<close> (\<open>lib/graph\<close>): distances are measured against walks, an
      inductive predicate; negative cycles, unreachable vertices and cycles are covered.
    \<^item> \<open>Kmp\<close> (\<open>string/kmp.h\<close>): the prefix function and the automaton of a pattern.

  \<^bold>\<open>Allocators and messages\<close> (\<open>cpp/examples\<close>, \<open>homework/CSAPP/lab/malloclab-handout\<close>).

    \<^item> \<open>Memlib\<close>, \<open>Bytes\<close>, \<open>Mm\<close>, \<open>MmInv\<close>, \<open>MmSpec\<close>, \<open>MmRealloc\<close>: memory, allocator, the tiling invariant with its stale footers,
      and the effect of each operation. \<open>MDriver\<close>, \<open>MDriverValid\<close>, \<open>MmPkg\<close>: the driver accepts every package that meets
      the contract, and \<open>mm.c\<close> meets it.
    \<^item> \<open>Buddy\<close>, \<open>BuddyTree\<close>, \<open>BuddyInv\<close>, \<open>BuddyOps\<close>, \<open>BuddyAlloc\<close>, \<open>BuddySpec\<close> (\<open>buddy_memory_allocator.cc\<close>): the pool holds the
      largest free blocks for an antichain of allocated nodes; live blocks are disjoint, a null result means no room,
      everything merges again. \<open>ObjBuilder\<close>, \<open>ObjBuddy\<close>, \<open>ObjBuddySpec\<close>: the allocator in a relocatable buffer refines it.
    \<^item> \<open>ShmQueue\<close>, \<open>ShmList\<close>, \<open>ShmSpec\<close>, \<open>ShmTop\<close>, \<open>ShmFifo\<close> (\<open>shm_msg_queue.cc\<close>): any interleaving of clients sees a
      first-in first-out queue whose messages arrive unchanged.

  \<^bold>\<open>Threads and the reactor\<close> (\<open>cpp/examples\<close>, \<open>reactor\<close>). \<open>SpinLock\<close>, \<open>BlockingQueue\<close>, \<open>ThreadPool\<close>: step relations over any
  number of threads with time-outs and spurious wake-ups; mutual exclusion, no lost wake-ups, order, bounds, and that the
  pool runs every task. \<open>Reactor\<close>: the demultiplexer, its handlers and the tasks of the workers, interleaved; what never
  fails, and four ways in which it does. \<open>Bloom\<close>: no false negatives. \<open>SimdSum\<close>: the vector addition by lanes.

  \<^bold>\<open>The data laboratory\<close> (\<open>homework/CSAPP/lab/datalab-handout\<close>). \<open>Bits\<close>: the puzzles against their references on all words.
  \<open>Btest\<close>: test values, test loops and the score.

  \<^bold>\<open>Parameters.\<close> What the code calls and the repository does not contain is an argument with its documented behaviour as a
  hypothesis, and every such theorem has an instance: \<open>rand\<close> (quick sort, \<open>btest\<close>), the random engine and the floating-point
  sizes of the Bloom filters, \<open>mmap\<close>, the system calls of the reactor (a record of functions with \<open>epoll_ok\<close>), which of
  several least entries \<open>std::priority_queue\<close> delivers (\<open>least_top\<close>), and the order in which \<open>std::unordered_map\<close> is walked.

  \<^bold>\<open>Bounds.\<close> The \<open>int32_t\<close> loop variables limit vectors to less than \<open>2 ^ 31\<close> elements (\<open>2 ^ 29\<close> for the segment tree); the
  graph theorems ask that a walk of as many edges as there are vertices costs less than \<open>INT32_MAX\<close>, the value the code
  uses for unreachable vertices; MD5 pieces are shorter than \<open>2 ^ 31\<close> bytes because the length is an \<open>int\<close>; ring buffers and
  aligned sizes are below \<open>2 ^ 62\<close>; traces of the driver fit the 20 MB of \<open>memlib.c\<close>.

  \<^bold>\<open>Not modelled.\<close> Timing and cycle counters (\<open>clock.c\<close>, \<open>fcyc.c\<close>, \<open>ftimer.c\<close>, \<open>fsecs.c\<close>), whose results are the machine's;
  command lines, printing and trace-file parsing of the laboratories; floating-point references of \<open>tests.c\<close>; example
  programs of sockets, processes, language features and third-party libraries, which are input and output; the card game
  client; \<open>function_schduler.h\<close>, which only declares; headers that are empty, commented out or do not compile (Huffman, AVL,
  B and B+ trees, Tarjan, A*); the pairing heap, whose \<open>pop\<close> removes nothing; the sparse
  table, whose indices come from floating-point logarithms; the linked stack and the rolling string hash.
\<close>

end
